(* ===== verification/Prelude.thy ===== *)
theory Prelude
  imports Main "HOL-Library.Word"
begin

text \<open>
  Shared vocabulary of the development: the outcome of a C operation that may stop the
  process or leave defined behaviour, bounds-checked access to C arrays, the hexadecimal
  tables that \<open>xuid.c\<close> uses, and the collections of simplification rules
  the component theories extend.
\<close>

unbundle bit_operations_syntax

named_theorems outcome_simps \<open>rules that evaluate the outcome combinators\<close>
named_theorems array_simps \<open>rules on bounds-checked arrays\<close>

type_synonym byte = "8 word"

text \<open>Pointers to the structures of the code.\<close>

type_synonym address = nat

text \<open>The results of comparing two values in CLIPS\<close>

datatype comparison = LESS_THAN | GREATER_THAN | EQUAL

section \<open>Outcomes\<close>

text \<open>
  \<open>Exit\<close>: the code printed the message and called \<open>exit(1)\<close>.
  \<open>Undefined\<close>: an access outside an array, or a shift by the width or more. \<open>Overflow\<close>: signed
  arithmetic left the range of its type. Both leave the behaviour that C defines, so nothing
  is claimed about what follows.
\<close>

datatype fault = Exit string | Undefined | Overflow

type_synonym 'a res = "fault + 'a"

definition bind_res :: "'a res \<Rightarrow> ('a \<Rightarrow> 'b res) \<Rightarrow> 'b res" where
  "bind_res m f = (case m of Inl e \<Rightarrow> Inl e | Inr x \<Rightarrow> f x)"

lemma bind_res_Inr [simp, outcome_simps]: "bind_res (Inr x) f = f x"
  by (simp add: bind_res_def)

lemma bind_res_Inl [simp, outcome_simps]: "bind_res (Inl e) f = Inl e"
  by (simp add: bind_res_def)

lemma bind_res_eq_Inr: "bind_res m f = Inr y \<longleftrightarrow> (\<exists>x. m = Inr x \<and> f x = Inr y)"
  by (cases m) auto

lemma bind_res_eq_Inl:
  "bind_res m f = Inl e \<longleftrightarrow> m = Inl e \<or> (\<exists>x. m = Inr x \<and> f x = Inl e)"
  by (cases m) auto

lemma bind_res_cong [fundef_cong]:
  "m = m' \<Longrightarrow> (\<And>x. m' = Inr x \<Longrightarrow> f x = g x) \<Longrightarrow> bind_res m f = bind_res m' g"
  by (cases m') auto

text \<open>
  Evaluation order for the simplifier: the first computation is evaluated before its
  continuation is looked at, so that a recursive function under \<open>bind_res\<close> unfolds one step
  at a time.
\<close>

lemma bind_res_weak_cong [cong]: "m = m' \<Longrightarrow> bind_res m f = bind_res m' f"
  by simp

lemma bind_res_assoc: "bind_res (bind_res m f) g = bind_res m (\<lambda>x. bind_res (f x) g)"
  by (cases m) simp_all

section \<open>Outcomes without memory errors\<close>

definition safe :: "('a \<Rightarrow> bool) \<Rightarrow> 'a res \<Rightarrow> bool" where
  "safe P m \<longleftrightarrow> (case m of Inl e \<Rightarrow> e \<noteq> Undefined | Inr x \<Rightarrow> P x)"

lemma safe_simps [simp, outcome_simps]:
  "safe P (Inr x) \<longleftrightarrow> P x" "safe P (Inl e) \<longleftrightarrow> e \<noteq> Undefined"
  by (simp_all add: safe_def)

lemma safe_bind:
  assumes "safe Q m" and "\<And>x. m = Inr x \<Longrightarrow> Q x \<Longrightarrow> safe P (f x)"
  shows "safe P (bind_res m f)"
  using assms by (cases m) auto

lemma safe_mono: "safe Q m \<Longrightarrow> (\<And>x. Q x \<Longrightarrow> P x) \<Longrightarrow> safe P m"
  by (cases m) auto

section \<open>Runs that may not have returned yet\<close>

text \<open>
  Recursion without a structural measure takes fuel: None says that the fuel ran out before the
  code returned, \<open>Some\<close> gives its outcome.
\<close>

type_synonym 'a run = "'a res option"

definition res_run :: "'a res \<Rightarrow> ('a \<Rightarrow> 'b run) \<Rightarrow> 'b run" where
  "res_run m f = (case m of Inl e \<Rightarrow> Some (Inl e) | Inr x \<Rightarrow> f x)"

definition bind_run :: "'a run \<Rightarrow> ('a \<Rightarrow> 'b run) \<Rightarrow> 'b run" where
  "bind_run m f = (case m of None \<Rightarrow> None | Some r \<Rightarrow> res_run r f)"

definition return_run :: "'a \<Rightarrow> 'a run" where
  "return_run x = Some (Inr x)"

lemma res_run_simps [simp, outcome_simps]:
  "res_run (Inr x) f = f x" "res_run (Inl e) f = Some (Inl e)"
  by (simp_all add: res_run_def)

lemma bind_run_simps [simp, outcome_simps]:
  "bind_run None f = None" "bind_run (Some r) f = res_run r f"
  by (simp_all add: bind_run_def)

lemma bind_return_run [simp, outcome_simps]: "bind_run (return_run x) f = f x"
  by (simp add: return_run_def)

lemma res_run_weak_cong [cong]: "m = m' \<Longrightarrow> res_run m f = res_run m' f"
  by simp

lemma bind_run_weak_cong [cong]: "m = m' \<Longrightarrow> bind_run m f = bind_run m' f"
  by simp

lemma res_run_eq_SomeInr: "res_run m f = Some (Inr y) \<longleftrightarrow> (\<exists>x. m = Inr x \<and> f x = Some (Inr y))"
  by (cases m) auto

lemma bind_run_eq_SomeInr:
  "bind_run m f = Some (Inr y) \<longleftrightarrow> (\<exists>x. m = Some (Inr x) \<and> f x = Some (Inr y))"
  by (cases m) (auto simp: res_run_eq_SomeInr)

lemma res_run_eq_SomeInl:
  "res_run m f = Some (Inl e) \<longleftrightarrow> m = Inl e \<or> (\<exists>x. m = Inr x \<and> f x = Some (Inl e))"
  by (cases m) auto

lemma bind_run_eq_SomeInl:
  "bind_run m f = Some (Inl e) \<longleftrightarrow>
     m = Some (Inl e) \<or> (\<exists>x. m = Some (Inr x) \<and> f x = Some (Inl e))"
  by (cases m) (auto simp: res_run_eq_SomeInl)

lemma res_run_eq_None: "res_run m f = None \<longleftrightarrow> (\<exists>x. m = Inr x \<and> f x = None)"
  by (cases m) auto

lemma bind_run_eq_None: "bind_run m f = None \<longleftrightarrow> m = None \<or> (\<exists>x. m = Some (Inr x) \<and> f x = None)"
  by (cases m) (auto simp: res_run_eq_None)

section \<open>C arrays\<close>

definition get_at :: "'a list \<Rightarrow> nat \<Rightarrow> 'a res" where
  "get_at xs i = (if i < length xs then Inr (xs ! i) else Inl Undefined)"

definition put_at :: "'a list \<Rightarrow> nat \<Rightarrow> 'a \<Rightarrow> 'a list res" where
  "put_at xs i x = (if i < length xs then Inr (xs[i := x]) else Inl Undefined)"

lemma get_at_Inr [simp, array_simps]: "i < length xs \<Longrightarrow> get_at xs i = Inr (xs ! i)"
  by (simp add: get_at_def)

lemma put_at_Inr [simp, array_simps]: "i < length xs \<Longrightarrow> put_at xs i x = Inr (xs[i := x])"
  by (simp add: put_at_def)

lemma get_at_eq_Inr: "get_at xs i = Inr y \<longleftrightarrow> i < length xs \<and> y = xs ! i"
  by (auto simp: get_at_def)

lemma put_at_eq_Inr: "put_at xs i x = Inr ys \<longleftrightarrow> i < length xs \<and> ys = xs[i := x]"
  by (auto simp: put_at_def)

lemma put_at_append [array_simps]:
  "i = length xs \<Longrightarrow> put_at (xs @ y # ys) i x = Inr (xs @ x # ys)"
  by (simp add: put_at_def)

lemma get_at_append [array_simps]:
  "i = length xs \<Longrightarrow> get_at (xs @ y # ys) i = Inr y"
  by (simp add: get_at_def)

section \<open>Text\<close>

text \<open>The bytes of an ASCII literal, and what \<open>%d\<close> prints for a number.\<close>

definition bytes_of :: "string \<Rightarrow> byte list" where
  "bytes_of cs = map of_char cs"

fun nat_text :: "nat \<Rightarrow> byte list" where
  "nat_text n = (if n < 10 then [of_nat (48 + n)] else nat_text (n div 10) @ [of_nat (48 + n mod 10)])"

declare nat_text.simps [simp del]

definition int_text :: "int \<Rightarrow> byte list" where
  "int_text i = (if i < 0 then 45 # nat_text (nat (- i)) else nat_text (nat i))"

section \<open>Nibbles of words\<close>

lemma and_15_take_bit: "(w AND 15 :: 'a::len word) = take_bit 4 w"
  by (simp add: take_bit_eq_mask mask_eq_exp_minus_1)

lemma unat_nibble:
  assumes "4 \<le> LENGTH('a)"
  shows "unat (drop_bit n w AND 15 :: 'a::len word) = unat w div 2 ^ n mod 16"
proof -
  have "unat (drop_bit n w AND 15) = unat (take_bit 4 (drop_bit n w))"
    by (simp add: and_15_take_bit)
  also have "\<dots> = take_bit 4 (unat (drop_bit n w))"
    using assms by (simp add: unsigned_take_bit_eq)
  also have "\<dots> = unat w div 2 ^ n mod 16"
    unfolding unat_drop_bit_eq by (simp add: drop_bit_eq_div take_bit_eq_mod)
  finally show ?thesis .
qed

lemma unat_nibble_less: "unat (w AND 15 :: byte) < 16"
  using unat_nibble [of 0 w] by simp

lemma push_drop_nibble: "push_bit n (drop_bit n w AND 15) = (w AND push_bit n 15 :: 'a::len word)"
  by (rule bit_word_eqI) (auto simp: bit_simps)

lemma word_of_int_push_uint:
  "word_of_int (push_bit n (uint w)) = (push_bit n w :: 'a::len word)"
  by (rule bit_word_eqI) (auto simp: bit_simps)

section \<open>Encoders and decoders\<close>

text \<open>
  The contract of a text or wire format: every valid value has an encoding, and the decoder
  takes that encoding back to the value.
\<close>

locale codec =
  fixes encode :: "'v \<Rightarrow> 't res"
    and decode :: "'t \<Rightarrow> 'v res"
    and valid :: "'v \<Rightarrow> bool"
  assumes encode_ok: "valid v \<Longrightarrow> \<exists>t. encode v = Inr t"
    and decode_encode: "valid v \<Longrightarrow> encode v = Inr t \<Longrightarrow> decode t = Inr v"
begin

lemma encode_inj:
  assumes "valid v" and "valid w" and "encode v = encode w"
  shows "v = w"
proof -
  obtain t where t: "encode v = Inr t"
    using encode_ok [OF assms(1)] by blast
  have "encode w = Inr t"
    by (rule trans [OF assms(3) [symmetric] t])
  then have "decode t = Inr w"
    by (rule decode_encode [OF assms(2)])
  moreover have "decode t = Inr v"
    by (rule decode_encode [OF assms(1) t])
  ultimately show ?thesis by simp
qed

lemma decode_surj: "valid v \<Longrightarrow> \<exists>t. encode v = Inr t \<and> decode t = Inr v"
  using encode_ok decode_encode by blast

end

end
