(* ===== verification/Xuid.thy ===== *)
theory Xuid
  imports Prelude
begin

text \<open>
  \<open>xuid.c\<close>: the text form of UUIDs (sixteen bytes) and of GUIDs (a 32-bit field, two
  16-bit fields and eight bytes), and the comparison of GUIDs. A text is a byte array; the
  functions read and write positions 0 to 35 of it and no terminating NUL. The shifts of \<open>int\<close> values
  that are negative or overflow (a character that is no digit, a first digit from 8 on), undefined in C, are taken
  to wrap around.
\<close>

section \<open>Tables and nibbles\<close>

definition hexchar :: "byte list" where
  "hexchar = [48, 49, 50, 51, 52, 53, 54, 55, 56, 57, 97, 98, 99, 100, 101, 102]"

definition hexval :: "int list" where
  "hexval =
     [-1, -1, -1, -1, -1, -1, -1, -1, -1, -1, -1, -1, -1, -1, -1, -1,
      -1, -1, -1, -1, -1, -1, -1, -1, -1, -1, -1, -1, -1, -1, -1, -1,
      -1, -1, -1, -1, -1, -1, -1, -1, -1, -1, -1, -1, -1, -1, -1, -1,
       0,  1,  2,  3,  4,  5,  6,  7,  8,  9, -1, -1, -1, -1, -1, -1,
      -1, 10, 11, 12, 13, 14, 15, -1, -1, -1, -1, -1, -1, -1, -1, -1,
      -1, -1, -1, -1, -1, -1, -1, -1, -1, -1, -1, -1, -1, -1, -1, -1,
      -1, 10, 11, 12, 13, 14, 15, -1, -1, -1, -1, -1, -1, -1, -1, -1,
      -1, -1, -1, -1, -1, -1, -1, -1, -1, -1, -1, -1, -1, -1, -1, -1]"

text \<open>\<open>hexval[ string[i] & 0x7F ]\<close>: minus one for a character that is no digit.\<close>

definition hexdigit :: "byte \<Rightarrow> int" where
  "hexdigit b = hexval ! unat (b AND 0x7F)"

text \<open>\<open>(hexval[..] << 4) + hexval[..]\<close>, truncated to the \<open>uint8_t\<close> it is stored in.\<close>

definition hexpair :: "byte list \<Rightarrow> nat \<Rightarrow> nat \<Rightarrow> byte" where
  "hexpair s i j = word_of_int (push_bit 4 (hexdigit (s ! i)) + hexdigit (s ! j))"

definition nybble :: "byte list \<Rightarrow> nat \<Rightarrow> byte" where
  "nybble data n =
     (let b = data ! (drop_bit 1 n AND 0xF)
      in if n AND 1 \<noteq> 0 then b AND 0xF else drop_bit 4 b AND 0xF)"

section \<open>UUIDs\<close>

definition parse_uuid :: "byte list \<Rightarrow> byte list res" where
  "parse_uuid s =
     (if length s < 36 then Inl Undefined
      else Inr [hexpair s 0 1, hexpair s 2 3, hexpair s 4 5, hexpair s 6 7,
                hexpair s 9 10, hexpair s 11 12,
                hexpair s 14 15, hexpair s 16 17,
                hexpair s 19 20, hexpair s 21 22,
                hexpair s 24 25, hexpair s 26 27, hexpair s 28 29,
                hexpair s 30 31, hexpair s 32 33, hexpair s 34 35])"

definition format_uuid :: "byte list \<Rightarrow> byte list \<Rightarrow> byte list res" where
  "format_uuid string data =
     (if length string < 36 \<or> length data < 16 then Inl Undefined
      else let digit = (\<lambda>n. hexchar ! unat (nybble data n)) in
        Inr ([digit 0, digit 1, digit 2, digit 3, digit 4, digit 5, digit 6, digit 7, 45,
              digit 8, digit 9, digit 10, digit 11, 45,
              digit 12, digit 13, digit 14, digit 15, 45,
              digit 16, digit 17, digit 18, digit 19, 45,
              digit 20, digit 21, digit 22, digit 23, digit 24, digit 25,
              digit 26, digit 27, digit 28, digit 29, digit 30, digit 31]
             @ drop 36 string))"

section \<open>GUIDs\<close>

record guid =
  data1 :: "32 word"
  data2 :: "16 word"
  data3 :: "16 word"
  data4 :: "byte list"

definition parse_guid :: "byte list \<Rightarrow> guid res" where
  "parse_guid s =
     (if length s < 36 then Inl Undefined
      else let h = (\<lambda>i n. push_bit n (hexdigit (s ! i))) in
        Inr \<lparr>data1 =
               word_of_int (h 0 28) OR word_of_int (h 1 24) OR word_of_int (h 2 20) OR
               word_of_int (h 3 16) OR word_of_int (h 4 12) OR word_of_int (h 5 8) OR
               word_of_int (h 6 4) OR word_of_int (h 7 0),
             data2 =
               word_of_int (h 9 12) OR word_of_int (h 10 8) OR word_of_int (h 11 4) OR
               word_of_int (h 12 0),
             data3 =
               word_of_int (h 14 12) OR word_of_int (h 15 8) OR word_of_int (h 16 4) OR
               word_of_int (h 17 0),
             data4 =
               [hexpair s 19 20, hexpair s 21 22, hexpair s 24 25, hexpair s 26 27,
                hexpair s 28 29, hexpair s 30 31, hexpair s 32 33, hexpair s 34 35]\<rparr>)"

definition format_guid :: "byte list \<Rightarrow> guid \<Rightarrow> byte list res" where
  "format_guid string g =
     (if length string < 36 \<or> length (data4 g) < 8 then Inl Undefined
      else let a = (\<lambda>n. hexchar ! unat (drop_bit n (data1 g) AND 0xF));
               b = (\<lambda>n. hexchar ! unat (drop_bit n (data2 g) AND 0xF));
               c = (\<lambda>n. hexchar ! unat (drop_bit n (data3 g) AND 0xF));
               d = (\<lambda>i n. hexchar ! unat (drop_bit n (data4 g ! i) AND 0xF)) in
        Inr ([a 28, a 24, a 20, a 16, a 12, a 8, a 4, a 0, 45,
              b 12, b 8, b 4, b 0, 45,
              c 12, c 8, c 4, c 0, 45,
              d 0 4, d 0 0, d 1 4, d 1 0, 45,
              d 2 4, d 2 0, d 3 4, d 3 0, d 4 4, d 4 0,
              d 5 4, d 5 0, d 6 4, d 6 0, d 7 4, d 7 0]
             @ drop 36 string))"

text \<open>
  \<open>compare_guid\<close>. The first difference is computed on \<open>uint32_t\<close>, so it wraps and is
  never negative as a \<open>long\<close>; the others are computed on \<open>int\<close>. The \<open>long\<close> is returned
  as an \<open>int\<close>, which keeps its low 32 bits.
\<close>

definition to_int :: "int \<Rightarrow> int" where
  "to_int d = sint (word_of_int d :: 32 word)"

fun compare_bytes :: "byte list \<Rightarrow> byte list \<Rightarrow> nat \<Rightarrow> nat \<Rightarrow> int" where
  "compare_bytes l r i 0 = 0"
| "compare_bytes l r i (Suc n) =
     (let d = uint (l ! i) - uint (r ! i)
      in if d \<noteq> 0 then to_int d else compare_bytes l r (Suc i) n)"

definition compare_guid :: "guid \<Rightarrow> guid \<Rightarrow> int" where
  "compare_guid left right =
     (let d = uint (data1 left - data1 right) in
      if d \<noteq> 0 then to_int d else
      let d = uint (data2 left) - uint (data2 right) in
      if d \<noteq> 0 then to_int d else
      let d = uint (data3 left) - uint (data3 right) in
      if d \<noteq> 0 then to_int d else
      compare_bytes (data4 left) (data4 right) 0 8)"

section \<open>Digits and nibbles\<close>

lemma hexdigit_hexchar: "k < 16 \<Longrightarrow> hexdigit (hexchar ! k) = int k"
proof -
  have "\<forall>k\<in>set [0..<16]. hexdigit (hexchar ! k) = int k" by code_simp
  then show "k < 16 \<Longrightarrow> hexdigit (hexchar ! k) = int k" by simp
qed

lemma hexdigit_nibble:
  "hexdigit (hexchar ! unat (w AND 15 :: 'a::len word)) = uint (w AND 15)" if "4 \<le> LENGTH('a)"
proof -
  have "unat (w AND 15) < 16" using that unat_nibble [of 0 w] by simp
  then show ?thesis by (simp add: hexdigit_hexchar)
qed


lemma and_ones: "(w :: 8 word) AND 255 = w" "(v :: 16 word) AND 65535 = v" "(u :: 32 word) AND 4294967295 = u"
proof -
  have "(255 :: 8 word) = -1" "(65535 :: 16 word) = -1" "(4294967295 :: 32 word) = -1" by simp_all
  then show "w AND 255 = w" "v AND 65535 = v" "u AND 4294967295 = u" by (simp_all only: bit.conj_one_right)
qed
lemma nibbles8: "(w AND push_bit 4 15) OR (w AND 15) = (w :: 8 word)"
  by (simp add: and_ones flip: bit.conj_disj_distrib)
lemma nibbles8_add: "push_bit 4 (drop_bit 4 w AND 15) + (w AND 15) = (w :: 8 word)"
proof -
  have "push_bit 4 (drop_bit 4 w AND 15) AND (w AND 15) = 0"
    by (rule bit_word_eqI) (auto simp: push_drop_nibble and_15_take_bit bit_simps)
  then have "push_bit 4 (drop_bit 4 w AND 15) + (w AND 15) = push_bit 4 (drop_bit 4 w AND 15) OR (w AND 15)"
    by (rule disjunctive_add_eq_or)
  then show ?thesis by (simp only: push_drop_nibble nibbles8)
qed
lemma nibbles16: "(w AND push_bit 12 15) OR (w AND push_bit 8 15) OR (w AND push_bit 4 15) OR (w AND 15) = (w :: 16 word)"
  by (simp add: and_ones flip: bit.conj_disj_distrib)
lemma nibbles32: "(w AND push_bit 28 15) OR (w AND push_bit 24 15) OR (w AND push_bit 20 15) OR (w AND push_bit 16 15) OR (w AND push_bit 12 15) OR (w AND push_bit 8 15) OR (w AND push_bit 4 15) OR (w AND 15) = (w :: 32 word)"
  by (simp add: and_ones flip: bit.conj_disj_distrib)

lemma word_of_hexdigit:
  "4 \<le> LENGTH('a) \<Longrightarrow>
   word_of_int (push_bit n (hexdigit (hexchar ! unat (drop_bit n w AND 15)))) = (w AND push_bit n 15 :: 'a::len word)"
  by (simp only: hexdigit_nibble word_of_int_push_uint push_drop_nibble)

lemma hexpair_nibbles:
  assumes "s ! i = hexchar ! unat (drop_bit 4 b AND 15)" and "s ! j = hexchar ! unat (b AND 15)"
  shows "hexpair s i j = b"
proof -
  have "hexpair s i j = word_of_int (push_bit 4 (uint (drop_bit 4 b AND 15))) + word_of_int (uint (b AND 15))"
    using assms by (simp add: hexpair_def hexdigit_nibble)
  also have "\<dots> = push_bit 4 (drop_bit 4 b AND 15) + (b AND 15)"
    by (simp add: word_of_int_push_uint)
  finally show ?thesis by (simp only: nibbles8_add)
qed


lemma nybble_eq:
  assumes "n < 32"
  shows "nybble d n = (if odd n then d ! (n div 2) AND 15 else drop_bit 4 (d ! (n div 2)) AND 15)"
proof -
  have "drop_bit 1 n AND 15 = take_bit 4 (n div 2)"
    by (simp add: drop_bit_eq_div take_bit_eq_mask mask_eq_exp_minus_1)
  also have "\<dots> = n div 2"
    using assms by (simp add: take_bit_eq_mod)
  finally show ?thesis
    by (simp add: nybble_def and_one_eq odd_iff_mod_2_eq_one)
qed

lemma list_of_16:
  "length d = 16 \<Longrightarrow>
   [d!0, d!1, d!2, d!3, d!4, d!5, d!6, d!7, d!8, d!9, d!10, d!11, d!12, d!13, d!14, d!15] = d"
  by (rule nth_equalityI) (auto simp: less_Suc_eq numeral_eq_Suc)

lemma list_of_8: "length d = 8 \<Longrightarrow> [d!0, d!1, d!2, d!3, d!4, d!5, d!6, d!7] = d"
  by (rule nth_equalityI) (auto simp: less_Suc_eq numeral_eq_Suc)


lemma parse_format_uuid:
  assumes "length d = 16" and "36 \<le> length buf" and "format_uuid buf d = Inr s"
  shows "parse_uuid s = Inr d"
proof -
  have "parse_uuid s =
     Inr [d!0, d!1, d!2, d!3, d!4, d!5, d!6, d!7, d!8, d!9, d!10, d!11, d!12, d!13, d!14, d!15]"
    using assms by (auto simp: format_uuid_def parse_uuid_def hexpair_nibbles nybble_eq)
  also have "\<dots> = Inr d"
    by (simp only: list_of_16 [OF assms(1)])
  finally show ?thesis .
qed

lemma parse_format_guid:
  assumes "length (data4 g) = 8" and "36 \<le> length buf" and "format_guid buf g = Inr s"
  shows "parse_guid s = Inr g"
proof -
  note low = word_of_hexdigit [where n = 0, simplified]
  let ?d = "data4 g"
  have "parse_guid s =
     Inr \<lparr>data1 = data1 g, data2 = data2 g, data3 = data3 g,
       data4 = [?d!0, ?d!1, ?d!2, ?d!3, ?d!4, ?d!5, ?d!6, ?d!7]\<rparr>"
    using assms
    by (auto simp: format_guid_def parse_guid_def hexpair_nibbles low
       word_of_hexdigit nibbles16 nibbles32 simp del: push_bit_numeral)
  also have "\<dots> = Inr g"
    by (simp only: list_of_8 [OF assms(1)]) simp
  finally show ?thesis .
qed

text \<open>
  C38: formatting sixteen bytes into a text buffer of at least 36 characters succeeds, leaves
  the rest of the buffer as it was, and parsing the text gives the sixteen bytes back.
\<close>

theorem uuid_roundtrip:
  assumes "length d = 16" and "36 \<le> length buf"
  shows "\<exists>s. format_uuid buf d = Inr s \<and> drop 36 s = drop 36 buf \<and> parse_uuid s = Inr d"
proof -
  obtain s where s: "format_uuid buf d = Inr s" and "drop 36 s = drop 36 buf"
    using assms by (simp add: format_uuid_def)
  then show ?thesis using parse_format_uuid [OF assms s] by simp
qed

theorem uuid_roundtrip_witness:
  "length (replicate 16 0x5A :: byte list) = 16 \<and> 36 \<le> length (replicate 40 0 :: byte list) \<and>
   (\<exists>s. format_uuid (replicate 40 0) (replicate 16 0x5A) = Inr s \<and>
        drop 36 s = drop 36 (replicate 40 0) \<and> parse_uuid s = Inr (replicate 16 0x5A))"
  using uuid_roundtrip [of "replicate 16 0x5A" "replicate 40 0"] by simp

text \<open>
  The same for a GUID: the 32-bit field, both 16-bit fields and the eight bytes survive
  formatting and parsing.
\<close>

theorem guid_roundtrip:
  assumes "length (data4 g) = 8" and "36 \<le> length buf"
  shows "\<exists>s. format_guid buf g = Inr s \<and> drop 36 s = drop 36 buf \<and> parse_guid s = Inr g"
proof -
  obtain s where s: "format_guid buf g = Inr s" and "drop 36 s = drop 36 buf"
    using assms by (simp add: format_guid_def)
  then show ?thesis using parse_format_guid [OF assms s] by simp
qed

definition sample_guid :: guid where
  "sample_guid = \<lparr>data1 = 0x12345678, data2 = 0x9ABC, data3 = 0xDEF0, data4 = [1, 2, 3, 4, 5, 6, 7, 8]\<rparr>"

theorem guid_roundtrip_witness:
  "length (data4 sample_guid) = 8 \<and> 36 \<le> length (replicate 36 0 :: byte list) \<and>
   (\<exists>s. format_guid (replicate 36 0) sample_guid = Inr s \<and>
        drop 36 s = drop 36 (replicate 36 0) \<and> parse_guid s = Inr sample_guid)"
  using guid_roundtrip [of sample_guid "replicate 36 0"] by (simp add: sample_guid_def)

section \<open>The codec interface\<close>

text \<open>
  Both formats are codecs in the sense of the prelude: on values of the right shape encoding
  succeeds and decoding inverts it. The locale's lemmas then hold for both.
\<close>

interpretation uuid: codec "format_uuid (replicate 36 0)" parse_uuid "\<lambda>d. length d = 16"
proof
  fix d :: "byte list"
  assume d: "length d = 16"
  then show "\<exists>s. format_uuid (replicate 36 0) d = Inr s"
    by (simp add: format_uuid_def)
  fix s
  assume "format_uuid (replicate 36 0) d = Inr s"
  with d show "parse_uuid s = Inr d"
    using parse_format_uuid [of d "replicate 36 0" s] by simp
qed

interpretation guid: codec "format_guid (replicate 36 0)" parse_guid "\<lambda>g. length (data4 g) = 8"
proof
  fix g :: guid
  assume g: "length (data4 g) = 8"
  then show "\<exists>s. format_guid (replicate 36 0) g = Inr s"
    by (simp add: format_guid_def)
  fix s
  assume "format_guid (replicate 36 0) g = Inr s"
  with g show "parse_guid s = Inr g"
    using parse_format_guid [of g "replicate 36 0" s] by simp
qed

text \<open>
  No two GUIDs have the same text.
\<close>

theorem format_guid_inj:
  assumes "length (data4 g) = 8" and "length (data4 h) = 8"
    and "format_guid (replicate 36 0) g = format_guid (replicate 36 0) h"
  shows "g = h"
  using assms by (rule guid.encode_inj)

theorem format_guid_inj_witness:
  "length (data4 sample_guid) = 8 \<and>
   format_guid (replicate 36 0) sample_guid \<noteq>
   format_guid (replicate 36 0) (sample_guid\<lparr>data2 := 0\<rparr>)"
  using format_guid_inj [of sample_guid "sample_guid\<lparr>data2 := 0\<rparr>"]
  by (auto simp: sample_guid_def)

section \<open>GUID texts are UUID texts\<close>

lemma unat_nibble_ucast:
  "unat (drop_bit m (ucast (drop_bit k w) :: byte) AND 15) = unat (drop_bit (k + m) w AND 15)"
  if "m + 4 \<le> 8" and "8 \<le> LENGTH('a)" for w :: "'a::len word"
proof -
  have "unat (drop_bit m (ucast (drop_bit k w) :: byte) AND 15) = unat (ucast (drop_bit k w) :: byte) div 2 ^ m mod 16"
    by (simp add: unat_nibble)
  also have "unat (ucast (drop_bit k w) :: byte) = unat w div 2 ^ k mod 2 ^ 8"
    unfolding unsigned_ucast_eq unat_drop_bit_eq 
    by (simp add: take_bit_eq_mod drop_bit_eq_div)
  also have "\<dots> div 2 ^ m mod 16 = take_bit 4 (drop_bit m (take_bit 8 (drop_bit k (unat w))))"
    by (simp add: take_bit_eq_mod drop_bit_eq_div)
  also have "\<dots> = take_bit 4 (drop_bit (k + m) (unat w))"
    using that by (auto simp: drop_bit_take_bit take_bit_take_bit min_def ac_simps)
  also have "\<dots> = unat (drop_bit (k + m) w AND 15)"
    using that by (simp only: unat_nibble) (simp add: take_bit_eq_mod drop_bit_eq_div)
  finally show ?thesis .
qed

text \<open>The sixteen bytes of a GUID, its integer fields most significant byte first.\<close>

definition guid_bytes :: "guid \<Rightarrow> byte list" where
  "guid_bytes g =
     [ucast (drop_bit 24 (data1 g)), ucast (drop_bit 16 (data1 g)),
      ucast (drop_bit 8 (data1 g)), ucast (drop_bit 0 (data1 g)),
      ucast (drop_bit 8 (data2 g)), ucast (drop_bit 0 (data2 g)),
      ucast (drop_bit 8 (data3 g)), ucast (drop_bit 0 (data3 g))] @ data4 g"

text \<open>
  The text of a GUID is the UUID text of its bytes in network order, on every buffer.
\<close>

theorem format_guid_is_uuid:
  assumes "length (data4 g) = 8"
  shows "format_guid buf g = format_uuid buf (guid_bytes g)"
proof -
  obtain a b c d e f h i where "data4 g = [a,b,c,d,e,f,h,i]"
    using list_of_8 [OF assms] by metis
  note lo = unat_nibble_ucast [where m = 0, simplified]
  note z = unat_nibble_ucast [where k = 0, simplified] unat_nibble_ucast [where k = 0 and m = 0, simplified]
  show ?thesis
    using assms by (simp add: format_guid_def format_uuid_def nybble_eq guid_bytes_def lo z unat_nibble_ucast)
qed

theorem format_guid_is_uuid_witness:
  "length (data4 sample_guid) = 8 \<and>
   format_guid (replicate 36 0) sample_guid = format_uuid (replicate 36 0) (guid_bytes sample_guid)"
  using format_guid_is_uuid [of sample_guid "replicate 36 0"] by (simp add: sample_guid_def)

section \<open>Comparison\<close>

lemma to_int_eq_0_iff: "\<bar>d\<bar> < 2 ^ 32 \<Longrightarrow> to_int d = 0 \<longleftrightarrow> d = 0"
  using dvd_imp_le_int [of d "2 ^ 32"] by (auto simp: to_int_def signed_eq_0_iff word_of_int_eq_0_iff)

lemma abs_diff_less: "0 \<le> x \<Longrightarrow> x < n \<Longrightarrow> 0 \<le> y \<Longrightarrow> y < n \<Longrightarrow> \<bar>x - y\<bar> < (n :: int)"
  by auto

lemma to_int_uint_diff_eq_0:
  assumes "LENGTH('a) \<le> 32"
  shows "to_int (uint (v :: 'a::len word) - uint w) = 0 \<longleftrightarrow> v = w"
proof -
  have "(2 :: int) ^ LENGTH('a) \<le> 2 ^ 32"
    using assms by (intro power_increasing) auto
  then have "uint v < 2 ^ 32" and "uint w < 2 ^ 32"
    using uint_lt2p [of v] uint_lt2p [of w] by linarith+
  then have "\<bar>uint v - uint w\<bar> < 2 ^ 32"
    by (intro abs_diff_less) auto
  then show ?thesis
    by (auto simp: to_int_eq_0_iff intro: word_uint_eqI)
qed

lemma to_int_uint_eq_0: "to_int (uint (v :: 32 word)) = 0 \<longleftrightarrow> v = 0"
  using to_int_uint_diff_eq_0 [of v 0] by simp

lemma compare_bytes_eq_0_iff:
  "compare_bytes l r i n = 0 \<longleftrightarrow> (\<forall>j\<in>{i..<i + n}. l ! j = r ! j)"
proof (induction n arbitrary: i)
  case (Suc n)
  have "compare_bytes l r i (Suc n) = 0 \<longleftrightarrow> l ! i = r ! i \<and> compare_bytes l r (Suc i) n = 0"
    by (auto simp: Let_def to_int_uint_diff_eq_0 intro: word_uint_eqI)
  moreover have "{i..<i + Suc n} = insert i {Suc i..<Suc i + n}" by auto
  ultimately show ?case unfolding Suc.IH by simp
qed simp

text \<open>
  \<open>compare_guid\<close> returns zero exactly on equal GUIDs; truncating the \<open>long\<close> difference to
  an \<open>int\<close> never hides a difference.
\<close>

theorem compare_guid_eq_0_iff:
  assumes "length (data4 a) = 8" and "length (data4 b) = 8"
  shows "compare_guid a b = 0 \<longleftrightarrow> a = b"
proof -
  have "compare_guid a b = 0 \<longleftrightarrow> data1 a = data1 b \<and> data2 a = data2 b \<and> data3 a = data3 b \<and>
      compare_bytes (data4 a) (data4 b) 0 8 = 0"
    by (auto simp: compare_guid_def Let_def to_int_uint_diff_eq_0 to_int_uint_eq_0 uint_0_iff dest: word_uint_eqI)
  also have "compare_bytes (data4 a) (data4 b) 0 8 = 0 \<longleftrightarrow> data4 a = data4 b"
    using assms by (auto simp: compare_bytes_eq_0_iff list_eq_iff_nth_eq)
  finally show ?thesis by (auto intro: guid.equality)
qed

theorem compare_guid_eq_0_iff_witness:
  "length (data4 sample_guid) = 8 \<and>
   (compare_guid sample_guid sample_guid = 0 \<longleftrightarrow> sample_guid = sample_guid)"
  using compare_guid_eq_0_iff [of sample_guid sample_guid] by (simp add: sample_guid_def)

text \<open>
  As an order the comparison fails: the difference of the 32-bit fields wraps, and three GUIDs
  can each come before the next around a cycle.
\<close>

lemma compare_guid_cycle:
  "let g = (\<lambda>n. \<lparr>data1 = n, data2 = 0, data3 = 0, data4 = replicate 8 0\<rparr>) in
   compare_guid (g 0) (g 0x40000000) < 0 \<and> compare_guid (g 0x40000000) (g 0x90000000) < 0 \<and>
   compare_guid (g 0x90000000) (g 0) < 0"
  by (simp add: compare_guid_def Let_def to_int_def)

section \<open>Parsing a canonical text\<close>

text \<open>A canonical text: 36 characters, dashes in their four places, lower-case digits elsewhere.\<close>

definition canonical_text :: "byte list \<Rightarrow> bool" where
  "canonical_text s \<longleftrightarrow> length s = 36 \<and>
     (\<forall>i\<in>set [0..<36]. if i \<in> {8, 13, 18, 23} then s ! i = 45 else s ! i \<in> set hexchar)"

lemma canonical_dash: "canonical_text s \<Longrightarrow> i \<in> {8, 13, 18, 23} \<Longrightarrow> s ! i = 45"
  by (auto simp: canonical_text_def)

lemma canonical_digit:
  "canonical_text s \<Longrightarrow> i < 36 \<Longrightarrow> i \<notin> {8, 13, 18, 23} \<Longrightarrow> s ! i \<in> set hexchar"
  by (auto simp: canonical_text_def)

lemma hexdigit_of_digit:
  assumes "c \<in> set hexchar"
  obtains k where "k < 16" and "c = hexchar ! k" and "hexdigit c = int k"
proof -
  from assms obtain k where "k < length hexchar" and "c = hexchar ! k"
    by (auto simp: in_set_conv_nth)
  then show thesis using that [of k] hexdigit_hexchar [of k] by (simp add: hexchar_def)
qed

lemma nibbles_of_hexpair:
  assumes "s ! i \<in> set hexchar" and "s ! j \<in> set hexchar"
  shows "hexchar ! unat (drop_bit 4 (hexpair s i j) AND 15) = s ! i"
    and "hexchar ! unat (hexpair s i j AND 15) = s ! j"
proof -
  obtain k l where k: "k < 16" "s ! i = hexchar ! k" "hexdigit (s ! i) = int k"
    and l: "l < 16" "s ! j = hexchar ! l" "hexdigit (s ! j) = int l"
    using hexdigit_of_digit assms by metis
  have "hexpair s i j = of_nat (16 * k + l)"
    using k l by (simp add: hexpair_def push_bit_eq_mult)
  moreover have "unat (of_nat (16 * k + l) :: byte) = 16 * k + l"
    using k(1) l(1) by (subst unat_of_nat) simp
  ultimately have u: "unat (hexpair s i j) = 16 * k + l"
    by (simp only:)
  show "hexchar ! unat (drop_bit 4 (hexpair s i j) AND 15) = s ! i"
    using k l u unat_nibble [of 4 "hexpair s i j"] by simp
  show "hexchar ! unat (hexpair s i j AND 15) = s ! j"
    using k l u unat_nibble [of 0 "hexpair s i j"] by simp
qed

lemma list_of_36:
  "length s = 36 \<Longrightarrow>
   [s!0, s!1, s!2, s!3, s!4, s!5, s!6, s!7, s!8, s!9, s!10, s!11, s!12, s!13, s!14, s!15, s!16, s!17,
    s!18, s!19, s!20, s!21, s!22, s!23, s!24, s!25, s!26, s!27, s!28, s!29, s!30, s!31, s!32, s!33,
    s!34, s!35] = s"
  by (rule nth_equalityI) (auto simp: less_Suc_eq numeral_eq_Suc)

lemmas canonical_nibbles = nibbles_of_hexpair [OF canonical_digit canonical_digit]

text \<open>
  A canonical text parses to sixteen bytes that format to the same text.
\<close>

theorem uuid_text_roundtrip:
  assumes "canonical_text s"
  shows "\<exists>d. parse_uuid s = Inr d \<and> length d = 16 \<and> format_uuid s d = Inr s"
proof -
  have len: "length s = 36" using assms by (simp add: canonical_text_def)
  then obtain d where d: "parse_uuid s = Inr d" "length d = 16"
    by (simp add: parse_uuid_def)
  have "format_uuid s d =
    Inr [s!0, s!1, s!2, s!3, s!4, s!5, s!6, s!7, s!8, s!9, s!10, s!11, s!12, s!13, s!14, s!15, s!16, s!17,
    s!18, s!19, s!20, s!21, s!22, s!23, s!24, s!25, s!26, s!27, s!28, s!29, s!30, s!31, s!32, s!33,
    s!34, s!35]"
    using d len by (auto simp: parse_uuid_def format_uuid_def nybble_eq
        canonical_nibbles [OF assms _ _ assms] canonical_dash [OF assms])
  also have "\<dots> = Inr s"
    by (simp only: list_of_36 len)
  finally show ?thesis using d by blast
qed

definition sample_text :: "byte list" where
  "sample_text = replicate 8 49 @ [45] @ replicate 4 97 @ [45] @ replicate 4 50 @ [45] @
     replicate 4 51 @ [45] @ replicate 12 102"

theorem uuid_text_roundtrip_witness:
  "canonical_text sample_text \<and>
   (\<exists>d. parse_uuid sample_text = Inr d \<and> length d = 16 \<and> format_uuid sample_text d = Inr sample_text)"
proof -
  have c: "canonical_text sample_text" by code_simp
  show ?thesis using c uuid_text_roundtrip [OF c] by simp
qed

end
