(* ===== verification/StringUtil.thy ===== *)
theory StringUtil
  imports Prelude
begin

text \<open>
  \<open>string_util.c\<close>: \<open>strlcpy\<close> and \<open>strlcat\<close> over byte arrays, pointers as indices. Every read
  and every write is checked against the array, so that a result \<open>Inr\<close> says that the call
  stayed inside both arrays.
\<close>

section \<open>The code\<close>

text \<open>\<open>while (*s++) ;\<close> from index \<open>s\<close>: the index after the NUL.\<close>

function skip_string :: "byte list \<Rightarrow> nat \<Rightarrow> nat res" where
  "skip_string src s =
     bind_res (get_at src s) (\<lambda>b. if b \<noteq> 0 then skip_string src (Suc s) else Inr (Suc s))"
  by pat_completeness auto
termination
  by (relation "measure (\<lambda>(src, s). length src - s)") (auto simp: get_at_eq_Inr)

declare skip_string.simps [simp del]

text \<open>\<open>while (--n != 0) { if ((*d++ = *s++) == 0) break; }\<close>, entered with \<open>n\<close> positive.\<close>

fun copy_loop :: "byte list \<Rightarrow> byte list \<Rightarrow> nat \<Rightarrow> nat \<Rightarrow> nat \<Rightarrow> (byte list \<times> nat \<times> nat \<times> nat) res" where
  "copy_loop src dst d s 0 = Inr (dst, d, s, 0)"
| "copy_loop src dst d s (Suc n) =
     (if n \<noteq> 0
      then bind_res (get_at src s) (\<lambda>b.
           bind_res (put_at dst d b) (\<lambda>dst.
             if b = 0 then Inr (dst, Suc d, Suc s, n)
             else copy_loop src dst (Suc d) (Suc s) n))
      else Inr (dst, d, s, n))"

definition strlcpy :: "byte list \<Rightarrow> byte list \<Rightarrow> nat \<Rightarrow> (byte list \<times> nat) res" where
  "strlcpy dst src siz =
     bind_res (if siz \<noteq> 0 then copy_loop src dst 0 0 siz else Inr (dst, 0, 0, siz)) (\<lambda>(dst, d, s, n).
     bind_res
       (if n = 0
        then bind_res (if siz \<noteq> 0 then put_at dst d 0 else Inr dst) (\<lambda>dst.
             bind_res (skip_string src s) (\<lambda>s. Inr (dst, s)))
        else Inr (dst, s)) (\<lambda>(dst, s).
     Inr (dst, s - 1)))"

text \<open>\<open>while (n-- != 0 && *d != 0) d++;\<close>\<close>

fun find_end :: "byte list \<Rightarrow> nat \<Rightarrow> nat \<Rightarrow> nat res" where
  "find_end dst d 0 = Inr d"
| "find_end dst d (Suc n) =
     bind_res (get_at dst d) (\<lambda>b. if b \<noteq> 0 then find_end dst (Suc d) n else Inr d)"

text \<open>\<open>while (*s) { if (n != 1) { *d++ = *s; n--; } s++; }\<close>\<close>

function cat_loop :: "byte list \<Rightarrow> byte list \<Rightarrow> nat \<Rightarrow> nat \<Rightarrow> nat \<Rightarrow> (byte list \<times> nat \<times> nat) res" where
  "cat_loop src dst d s n =
     bind_res (get_at src s) (\<lambda>b.
       if b \<noteq> 0 then
         (if n \<noteq> 1
          then bind_res (put_at dst d b) (\<lambda>dst. cat_loop src dst (Suc d) (Suc s) (n - 1))
          else cat_loop src dst d (Suc s) n)
       else Inr (dst, d, s))"
  by pat_completeness auto
termination
  by (relation "measure (\<lambda>(src, dst, d, s, n). length src - s)") (auto simp: get_at_eq_Inr)

declare cat_loop.simps [simp del]

definition strlcat :: "byte list \<Rightarrow> byte list \<Rightarrow> nat \<Rightarrow> (byte list \<times> nat) res" where
  "strlcat dst src siz =
     bind_res (find_end dst 0 siz) (\<lambda>dlen.
       if siz - dlen = 0
       then bind_res (skip_string src 0) (\<lambda>e. Inr (dst, dlen + (e - 1)))
       else bind_res (cat_loop src dst dlen 0 (siz - dlen)) (\<lambda>(dst, d, s).
            bind_res (put_at dst d 0) (\<lambda>dst. Inr (dst, dlen + s))))"

section \<open>C strings\<close>

definition c_string :: "byte list \<Rightarrow> byte list" where
  "c_string a = takeWhile (\<lambda>b. b \<noteq> 0) a"

lemma c_string_append: "0 \<notin> set xs \<Longrightarrow> c_string (xs @ 0 # r) = xs"
  unfolding c_string_def by (induction xs) auto

lemma c_string_split:
  assumes "0 \<in> set a"
  obtains r where "a = c_string a @ 0 # r" and "0 \<notin> set (c_string a)"
proof -
  have "dropWhile (\<lambda>b. b \<noteq> 0) a \<noteq> []"
    using assms by (simp add: dropWhile_eq_Nil_conv)
  then obtain r where "dropWhile (\<lambda>b. b \<noteq> 0) a = 0 # r"
    using hd_dropWhile [of "\<lambda>b. b \<noteq> 0" a] by (cases "dropWhile (\<lambda>b. b \<noteq> 0) a") auto
  then have "a = c_string a @ 0 # r"
    using takeWhile_dropWhile_id [of "\<lambda>b. b \<noteq> 0" a] by (simp add: c_string_def)
  moreover have "0 \<notin> set (c_string a)"
    by (auto simp: c_string_def dest: set_takeWhileD)
  ultimately show thesis by (rule that)
qed

section \<open>The loops\<close>

lemma skip_string_eq:
  assumes "src = str @ 0 # r" and "0 \<notin> set str" and "s \<le> length str"
  shows "skip_string src s = Inr (Suc (length str))"
  using assms(3)
proof (induction "length str - s" arbitrary: s)
  case 0
  then show ?case
    using assms by (subst skip_string.simps) (simp add: nth_append)
next
  case (Suc n)
  then have s: "s < length str" and "skip_string src (Suc s) = Inr (Suc (length str))"
    by auto
  moreover have "str ! s \<noteq> 0"
    using assms(2) s by (metis nth_mem)
  ultimately show ?case
    using assms by (subst skip_string.simps) (simp add: nth_append)
qed

lemma copy_loop_eq:
  assumes "src = str @ 0 # r" and "0 \<notin> set str"
    and "s \<le> length str" and "s + Suc n \<le> length dst"
  shows "copy_loop src dst s s (Suc n) =
    (if length str - s < n
     then Inr (take s dst @ drop s str @ 0 # drop (Suc (length str)) dst,
               Suc (length str), Suc (length str), n - (length str - s))
     else Inr (take s dst @ take n (drop s str) @ drop (s + n) dst, s + n, s + n, 0))"
  using assms(3,4)
proof (induction n arbitrary: s dst)
  case 0
  then show ?case by simp
next
  case (Suc n)
  show ?case
  proof (cases "s < length str")
    case True
    have nz: "str ! s \<noteq> 0"
      using assms(2) True by (metis nth_mem)
    have step: "copy_loop src dst s s (Suc (Suc n)) =
        copy_loop src (dst[s := str ! s]) (Suc s) (Suc s) (Suc n)"
      using True Suc.prems nz assms(1) by (simp add: nth_append del: copy_loop.simps(2))
        (subst copy_loop.simps, simp add: nth_append)
    show ?thesis
      using Suc.IH [of "Suc s" "dst[s := str ! s]"] Suc.prems True
      by (auto simp: step take_Suc_conv_app_nth Cons_nth_drop_Suc [symmetric]
          simp del: copy_loop.simps)
  next
    case False
    then have "s = length str" using Suc.prems by simp
    then show ?thesis
      using Suc.prems assms(1) by (auto simp: nth_append upd_conv_take_nth_drop)
  qed
qed

lemma find_end_found:
  assumes "dst = old @ 0 # r" and "0 \<notin> set old" and "d \<le> length old" and "length old < d + n"
  shows "find_end dst d n = Inr (length old)"
  using assms(3,4)
proof (induction n arbitrary: d)
  case (Suc n)
  show ?case
  proof (cases "d < length old")
    case True
    then have "old ! d \<noteq> 0" using assms(2) by (metis nth_mem)
    then show ?thesis using Suc True assms(1) by (simp add: nth_append)
  next
    case False
    then have "d = length old" using Suc.prems by simp
    then show ?thesis using assms(1) by (simp add: nth_append)
  qed
qed simp

lemma find_end_full:
  assumes "d + n \<le> length dst" and "0 \<notin> set (take n (drop d dst))"
  shows "find_end dst d n = Inr (d + n)"
  using assms
proof (induction n arbitrary: d)
  case (Suc n)
  have "drop d dst = dst ! d # drop (Suc d) dst"
    using Suc.prems by (intro Cons_nth_drop_Suc [symmetric]) simp
  then show ?case using Suc.prems Suc.IH [of "Suc d"] by simp
qed simp

lemma cat_loop_eq:
  assumes "src = str @ 0 # r" and "0 \<notin> set str"
    and "s \<le> length str" and "0 < n" and "d + n \<le> length dst"
  shows "cat_loop src dst d s n =
    (let k = min (length str - s) (n - 1)
     in Inr (take d dst @ take k (drop s str) @ drop (d + k) dst, d + k, length str))"
  using assms(3-5)
proof (induction "length str - s" arbitrary: d s n dst)
  case 0
  then show ?case
    using assms by (subst cat_loop.simps) (simp add: nth_append)
next
  case (Suc m)
  have s: "s < length str" using Suc.hyps by simp
  then have nz: "str ! s \<noteq> 0" using assms(2) by (metis nth_mem)
  have rest: "drop s str = str ! s # drop (Suc s) str"
    using s by (rule Cons_nth_drop_Suc [symmetric])
  have left: "length str - s = Suc (length str - Suc s)" using s by simp
  show ?case
  proof (cases "n = 1")
    case True
    then show ?thesis
      using Suc.hyps Suc.prems s nz assms(1)
      by (subst cat_loop.simps) (simp add: nth_append Let_def)
  next
    case False
    then obtain n' where n': "n = Suc (Suc n')"
      using Suc.prems by (metis Suc_pred gr0_conv_Suc One_nat_def neq0_conv)
    have "cat_loop src dst d s n = cat_loop src (dst[d := str ! s]) (Suc d) (Suc s) (n - 1)"
      using Suc.prems s nz assms(1) False by (subst cat_loop.simps) (simp add: nth_append)
    also have "\<dots> = (let k = min (length str - Suc s) (n - 1 - 1)
        in Inr (take (Suc d) (dst[d := str ! s]) @ take k (drop (Suc s) str) @
             drop (Suc d + k) (dst[d := str ! s]), Suc d + k, length str))"
      using Suc.hyps Suc.prems s n' by (intro Suc.hyps(1)) auto
    finally show ?thesis
      using Suc.prems n' by (simp add: Let_def rest left take_Suc_conv_app_nth)
  qed
qed

section \<open>What the two functions return\<close>

text \<open>
  \<open>strlcpy\<close> into an array of at least \<open>siz\<close> bytes stays inside both arrays, stores the
  longest prefix of the source string that fits with its NUL (nothing when \<open>siz\<close> is zero),
  leaves every later byte alone and returns the length of the source string.
\<close>

theorem strlcpy_correct:
  assumes "src = str @ 0 # r" and "0 \<notin> set str" and "siz \<le> length dst"
  shows "strlcpy dst src siz =
    Inr (if siz = 0 then dst
         else take (siz - 1) str @ 0 # drop (Suc (min (length str) (siz - 1))) dst,
         length str)"
proof (cases siz)
  case 0
  then show ?thesis
    using skip_string_eq [OF assms(1,2), of 0] by (simp add: strlcpy_def)
next
  case (Suc n)
  have loop: "copy_loop src dst 0 0 (Suc n) =
    (if length str < n
     then Inr (str @ 0 # drop (Suc (length str)) dst, Suc (length str), Suc (length str), n - length str)
     else Inr (take n str @ drop n dst, n, n, 0))"
    using copy_loop_eq [OF assms(1,2), of 0 n dst] assms(3) Suc by simp
  show ?thesis
  proof (cases "length str < n")
    case True
    then show ?thesis
      using Suc loop by (simp add: strlcpy_def min_def del: copy_loop.simps)
  next
    case False
    then have "skip_string src n = Inr (Suc (length str))"
      using skip_string_eq [OF assms(1,2), of n] by simp
    moreover have "put_at (take n str @ drop n dst) n 0 = Inr (take n str @ 0 # drop (Suc n) dst)"
    proof -
      have "drop n dst = dst ! n # drop (Suc n) dst"
        using assms(3) Suc by (intro Cons_nth_drop_Suc [symmetric]) simp
      then show ?thesis
        using False assms(3) Suc by (simp add: list_update_append)
    qed
    ultimately show ?thesis
      using Suc loop False by (simp add: strlcpy_def min_def del: copy_loop.simps)
  qed
qed

theorem strlcpy_correct_witness:
  "strlcpy [9, 9, 9, 9] [104, 105, 106, 107, 0] 3 = Inr ([104, 105, 0, 9], 4)"
  using strlcpy_correct [of "[104, 105, 106, 107, 0]" "[104, 105, 106, 107]" "[]" 3 "[9, 9, 9, 9]"]
  by simp

text \<open>
  \<open>strlcat\<close> onto a string that ends within the first \<open>siz\<close> bytes appends the longest prefix
  of the source that fits with its NUL, leaves every later byte alone, and returns the length
  the whole string would have.
\<close>

theorem strlcat_correct:
  assumes "src = str @ 0 # r" and "0 \<notin> set str"
    and "dst = old @ 0 # q" and "0 \<notin> set old" and "length old < siz" and "siz \<le> length dst"
  shows "strlcat dst src siz =
    Inr (old @ take (siz - 1 - length old) str @
           0 # drop (min (length str) (siz - 1 - length old)) q,
         length old + length str)"
proof -
  let ?k = "min (length str) (siz - 1 - length old)"
  have fe: "find_end dst 0 siz = Inr (length old)"
    using assms by (intro find_end_found) auto
  have "cat_loop src dst (length old) 0 (siz - length old) =
    (let k = min (length str - 0) (siz - length old - 1)
     in Inr (take (length old) dst @ take k (drop 0 str) @ drop (length old + k) dst,
             length old + k, length str))"
    using assms by (intro cat_loop_eq) auto
  then have loop: "cat_loop src dst (length old) 0 (siz - length old) =
      Inr (old @ take ?k str @ drop ?k (0 # q), length old + ?k, length str)"
    using assms(3) by (simp add: Let_def)
  have "?k < length (0 # q)"
    using assms by auto
  then obtain b where "drop ?k (0 # q) = b # drop (Suc ?k) (0 # q)"
    by (metis Cons_nth_drop_Suc)
  then have "put_at (old @ take ?k str @ drop ?k (0 # q)) (length old + ?k) 0 =
      Inr ((old @ take ?k str) @ 0 # drop ?k q)"
    using put_at_append [of "length old + ?k" "old @ take ?k str" b "drop ?k q" 0] by simp
  moreover have "take ?k str = take (siz - 1 - length old) str"
    by (simp add: min_def)
  ultimately show ?thesis
    using assms(5) by (simp add: strlcat_def fe loop)
qed

theorem strlcat_correct_witness:
  "strlcat [104, 0, 9, 9, 9] [105, 106, 107, 0] 4 = Inr ([104, 105, 106, 0, 9], 4)"
  using strlcat_correct [of "[105, 106, 107, 0]" "[105, 106, 107]" "[]" "[104, 0, 9, 9, 9]" "[104]" "[9, 9, 9]" 4]
  by simp

lemma strlcat_full:
  assumes "src = str @ 0 # r" and "0 \<notin> set str"
    and "siz \<le> length dst" and "0 \<notin> set (take siz dst)"
  shows "strlcat dst src siz = Inr (dst, siz + length str)"
  using find_end_full [of 0 siz dst] skip_string_eq [OF assms(1,2), of 0] assms
  by (simp add: strlcat_def)

section \<open>The truncation contract\<close>

text \<open>
  What a caller of either function relies on: the string left in the array is the wanted string
  cut to \<open>siz - 1\<close> bytes, and the returned number is the length of the wanted string. The
  test for truncation in the source's comment follows.
\<close>

locale bounded_write =
  fixes run :: "byte list \<Rightarrow> byte list \<Rightarrow> nat \<Rightarrow> (byte list \<times> nat) res"
    and wanted :: "byte list \<Rightarrow> byte list \<Rightarrow> byte list"
    and ready :: "byte list \<Rightarrow> byte list \<Rightarrow> nat \<Rightarrow> bool"
  assumes run_ok: "ready dst src siz \<Longrightarrow> \<exists>out n. run dst src siz = Inr (out, n)"
    and run_string: "ready dst src siz \<Longrightarrow> run dst src siz = Inr (out, n) \<Longrightarrow>
        c_string out = take (siz - 1) (wanted dst src)"
    and run_length: "ready dst src siz \<Longrightarrow> run dst src siz = Inr (out, n) \<Longrightarrow>
        n = length (wanted dst src) \<and> length out = length dst"
    and ready_pos: "ready dst src siz \<Longrightarrow> 0 < siz"
begin

lemma truncated_iff:
  assumes "ready dst src siz" and "run dst src siz = Inr (out, n)"
  shows "c_string out \<noteq> wanted dst src \<longleftrightarrow> siz \<le> n"
  using run_string [OF assms] run_length [OF assms] ready_pos [OF assms(1)]
  by (auto simp: take_all_iff)

end

definition copy_ready :: "byte list \<Rightarrow> byte list \<Rightarrow> nat \<Rightarrow> bool" where
  "copy_ready dst src siz \<longleftrightarrow> 0 \<in> set src \<and> 0 < siz \<and> siz \<le> length dst"

definition cat_ready :: "byte list \<Rightarrow> byte list \<Rightarrow> nat \<Rightarrow> bool" where
  "cat_ready dst src siz \<longleftrightarrow> 0 \<in> set src \<and> 0 \<in> set (take siz dst) \<and> siz \<le> length dst"

lemma strlcpy_ready:
  assumes "copy_ready dst src siz"
  shows "strlcpy dst src siz =
    Inr (take (siz - 1) (c_string src) @ 0 # drop (Suc (min (length (c_string src)) (siz - 1))) dst,
         length (c_string src))"
proof -
  obtain r where r: "src = c_string src @ 0 # r" "0 \<notin> set (c_string src)"
    using assms c_string_split [of src] by (auto simp: copy_ready_def)
  show ?thesis
    using strlcpy_correct [OF r, of siz dst] assms by (simp add: copy_ready_def)
qed

lemma strlcat_ready:
  assumes "cat_ready dst src siz"
  obtains q where "dst = c_string dst @ 0 # q" and "length (c_string dst) < siz"
    and "strlcat dst src siz =
    Inr (c_string dst @ take (siz - 1 - length (c_string dst)) (c_string src) @
           0 # drop (min (length (c_string src)) (siz - 1 - length (c_string dst))) q,
         length (c_string dst) + length (c_string src))"
proof -
  obtain r where r: "src = c_string src @ 0 # r" "0 \<notin> set (c_string src)"
    using assms c_string_split [of src] by (auto simp: cat_ready_def)
  have in_dst: "0 \<in> set dst"
    using assms by (auto simp: cat_ready_def dest: in_set_takeD)
  obtain q where q: "dst = c_string dst @ 0 # q" "0 \<notin> set (c_string dst)"
    using c_string_split [OF in_dst] by blast
  have lt: "length (c_string dst) < siz"
  proof (rule ccontr)
    assume "\<not> length (c_string dst) < siz"
    then have "take siz dst = take siz (c_string dst)"
      by (subst q(1)) simp
    then show False
      using assms q(2) by (auto simp: cat_ready_def dest: in_set_takeD)
  qed
  have "siz \<le> length dst"
    using assms by (simp add: cat_ready_def)
  note eq = strlcat_correct [OF r q lt this]
  show thesis
    by (rule that [OF q(1) lt eq])
qed

lemma c_string_no_zero: "0 \<notin> set (c_string a)"
  by (auto simp: c_string_def dest: set_takeWhileD)

lemma no_zero_take: "0 \<notin> set (take k (c_string a))"
  by (meson c_string_no_zero in_set_takeD)

interpretation copy: bounded_write strlcpy "\<lambda>dst src. c_string src" copy_ready
proof
  fix dst src siz out n
  assume rd: "copy_ready dst src siz"
  note eq = strlcpy_ready [OF rd]
  show "\<exists>out n. strlcpy dst src siz = Inr (out, n)" "0 < siz"
    using eq rd by (simp_all add: copy_ready_def)
  assume run: "strlcpy dst src siz = Inr (out, n)"
  show "c_string out = take (siz - 1) (c_string src)"
    using run eq by (auto simp: c_string_append no_zero_take)
  show "n = length (c_string src) \<and> length out = length dst"
    using run eq rd by (auto simp: copy_ready_def)
qed

interpretation cat: bounded_write strlcat "\<lambda>dst src. c_string dst @ c_string src" cat_ready
proof
  fix dst src siz out n
  assume rd: "cat_ready dst src siz"
  then obtain q where q: "dst = c_string dst @ 0 # q" "length (c_string dst) < siz"
    and eq: "strlcat dst src siz =
    Inr (c_string dst @ take (siz - 1 - length (c_string dst)) (c_string src) @
           0 # drop (min (length (c_string src)) (siz - 1 - length (c_string dst))) q,
         length (c_string dst) + length (c_string src))"
    by (rule strlcat_ready)
  show "\<exists>out n. strlcat dst src siz = Inr (out, n)" "0 < siz"
    using eq q by simp_all
  assume run: "strlcat dst src siz = Inr (out, n)"
  let ?w = "c_string dst @ take (siz - 1 - length (c_string dst)) (c_string src)"
  have out: "out = ?w @ 0 # drop (min (length (c_string src)) (siz - 1 - length (c_string dst))) q"
    using run eq by simp
  have "c_string out = ?w"
    unfolding out by (rule c_string_append) (simp add: c_string_no_zero no_zero_take)
  then show "c_string out = take (siz - 1) (c_string dst @ c_string src)"
    using q(2) by simp
  have "length dst = length (c_string dst) + Suc (length q)"
    by (subst q(1)) simp
  then show "n = length (c_string dst @ c_string src) \<and> length out = length dst"
    using run eq q rd by (auto simp: cat_ready_def)
qed

text \<open>
  The truncation test of the source's comment: after \<open>strlcat\<close> the array holds less than the
  whole concatenation exactly when the returned length is at least \<open>siz\<close>.
\<close>

theorem strlcat_truncation:
  assumes "cat_ready dst src siz" and "strlcat dst src siz = Inr (out, n)"
  shows "c_string out \<noteq> c_string dst @ c_string src \<longleftrightarrow> siz \<le> n"
  using assms by (rule cat.truncated_iff)

theorem strlcat_truncation_witness:
  "cat_ready [104, 0, 9, 9] [105, 106, 107, 0] 4 \<and>
   strlcat [104, 0, 9, 9] [105, 106, 107, 0] 4 = Inr ([104, 105, 106, 0], 4) \<and>
   c_string [104, 105, 106, 0] \<noteq> c_string [104, 0, 9, 9] @ c_string [105, 106, 107, 0]"
proof -
  have a: "cat_ready [104, 0, 9, 9] [105, 106, 107, 0] 4" by code_simp
  have b: "strlcat [104, 0, 9, 9] [105, 106, 107, 0] 4 = Inr ([104, 105, 106, 0], 4)" by code_simp
  show ?thesis using a b strlcat_truncation [OF a b] by simp
qed

end
