(* ===== verification/Protobuf.thy ===== *)
theory Protobuf
  imports Prelude
begin

text \<open>
  \<open>Protobuf/parse.c\<close>: the generic reader of protocol-buffer wire data. The mapped file is
  a byte list, pointers are offsets into it, and \<open>int\<close> fields are integers whose arithmetic is
  checked for overflow. What the program prints is a list of events.
\<close>

section \<open>Buffers\<close>

record buffer =
  address :: int
  dot :: int
  blength :: int
  remaining :: int

definition in_int_range :: "int \<Rightarrow> bool" where
  "in_int_range r \<longleftrightarrow> - (2 ^ 31) \<le> r \<and> r < 2 ^ 31"

definition int_sub :: "int \<Rightarrow> int \<Rightarrow> int res" where
  "int_sub a b = (if in_int_range (a - b) then Inr (a - b) else Inl Overflow)"

definition byte_at :: "byte list \<Rightarrow> int \<Rightarrow> byte res" where
  "byte_at mem d = (if d < 0 then Inl Undefined else get_at mem (nat d))"

definition bytes_at :: "byte list \<Rightarrow> int \<Rightarrow> nat \<Rightarrow> byte list res" where
  "bytes_at mem d n =
     (if d < 0 \<or> length mem < nat d + n then Inl Undefined
      else Inr (take n (drop (nat d) mem)))"

text \<open>
  \<open>create_buffer\<close> allocates \<open>length\<close> bytes, not the size of the structure, and then stores its
  fields, the last of which ends at byte 32 (two pointers, the dot, two \<open>int\<close>s after
  the file name).
\<close>

definition create_buffer :: "int \<Rightarrow> 32 word \<Rightarrow> buffer res" where
  "create_buffer addr len =
     (if unat len < 32 then Inl Undefined
      else Inr \<lparr>address = addr, dot = addr, blength = sint len, remaining = sint len\<rparr>)"

definition increment :: "buffer \<Rightarrow> int \<Rightarrow> buffer res" where
  "increment st n =
     bind_res (int_sub (remaining st) n) (\<lambda>r.
       Inr (st\<lparr>dot := dot st + n, remaining := r\<rparr>))"

section \<open>Reading\<close>

text \<open>The loop of \<open>read_varint\<close>: a shift by 64 or more is undefined.\<close>

function varint_loop :: "byte list \<Rightarrow> int \<Rightarrow> 64 word \<Rightarrow> nat \<Rightarrow> (64 word \<times> int) res" where
  "varint_loop mem d value shift =
     bind_res (byte_at mem d) (\<lambda>x.
       if 64 \<le> shift then Inl Undefined
       else let value = value OR push_bit shift (ucast x AND 0x7F) in
         if x AND 0x80 = 0 then Inr (value, d + 1)
         else varint_loop mem (d + 1) value (shift + 7))"
  by pat_completeness auto
termination
  by (relation "measure (\<lambda>(mem, d, value, shift). 64 - shift)") auto

declare varint_loop.simps [simp del]

definition read_varint :: "byte list \<Rightarrow> buffer \<Rightarrow> (64 word \<times> buffer) res" where
  "read_varint mem st =
     bind_res (varint_loop mem (dot st) 0 0) (\<lambda>(value, d).
     bind_res (int_sub (remaining st) (d - dot st)) (\<lambda>r.
       Inr (value, st\<lparr>remaining := r, dot := d\<rparr>)))"

fun le_value :: "byte list \<Rightarrow> int" where
  "le_value [] = 0"
| "le_value (b # bs) = uint b + 256 * le_value bs"

definition read_64bit :: "byte list \<Rightarrow> buffer \<Rightarrow> (64 word \<times> buffer) res" where
  "read_64bit mem st =
     bind_res (bytes_at mem (dot st) 8) (\<lambda>bs.
     bind_res (increment st 8) (\<lambda>st. Inr (word_of_int (le_value bs), st)))"

definition read_32bit :: "byte list \<Rightarrow> buffer \<Rightarrow> (32 word \<times> buffer) res" where
  "read_32bit mem st =
     bind_res (bytes_at mem (dot st) 4) (\<lambda>bs.
     bind_res (increment st 4) (\<lambda>st. Inr (word_of_int (le_value bs), st)))"

definition not_empty :: "buffer \<Rightarrow> bool" where
  "not_empty st \<longleftrightarrow> 0 < remaining st"

section \<open>The message loop\<close>

datatype event =
    EvTag "64 word" byte byte
  | EvVarint "64 word"
  | Ev64bit "64 word"
  | EvBadSubmessage
  | EvLength int
  | EvBytes "int list"
  | EvBegin
  | EvEnd
  | EvGroupStart
  | EvGroupEnd
  | Ev32bit "32 word"

datatype status = OK | EMSGSIZE

text \<open>
  \<open>parse\<close>, with fuel: None is "has not returned yet". A fault carries no output, an ordinary
  return carries everything printed so far.
\<close>

text \<open>\<open>state->remaining < sizeof (uint64_t)\<close> compares as unsigned 64-bit numbers.\<close>

definition short_of_64bit :: "buffer \<Rightarrow> bool" where
  "short_of_64bit st \<longleftrightarrow> (word_of_int (remaining st) :: 64 word) < 8"

fun parse :: "nat \<Rightarrow> byte list \<Rightarrow> buffer \<Rightarrow> event list \<Rightarrow> (buffer \<times> event list \<times> status) run" where
  "parse 0 mem st out = None"
| "parse (Suc fuel) mem st out =
     (if \<not> not_empty st then Some (Inr (st, out, OK)) else
      res_run (read_varint mem st) (\<lambda>(tag, st).
      let wire_type = (ucast tag AND 7 :: byte);
          field_number = (ucast (drop_bit 3 tag) :: byte);
          out = out @ [EvTag tag field_number wire_type] in
      if wire_type = 0 then
        res_run (read_varint mem st) (\<lambda>(value, st). parse fuel mem st (out @ [EvVarint value]))
      else if wire_type = 1 then
        (if short_of_64bit st then Some (Inr (st, out, EMSGSIZE))
         else res_run (read_64bit mem st) (\<lambda>(value, st). parse fuel mem st (out @ [Ev64bit value])))
      else if wire_type = 2 then
        res_run (read_varint mem st) (\<lambda>(value, st).
        let len = sint (ucast value :: 32 word);
            chunk = \<lparr>address = dot st, dot = dot st, blength = len, remaining = len\<rparr> in
        if len > remaining st then Some (Inr (st, out @ [EvBadSubmessage], EMSGSIZE))
        else
          res_run (int_sub (remaining st) len) (\<lambda>r.
          res_run (bytes_at mem (dot chunk) (nat len)) (\<lambda>payload.
          let st = st\<lparr>dot := dot st + len, remaining := r\<rparr>;
              out = out @ [EvLength len, EvBytes (map sint payload), EvBegin] in
          case parse fuel mem chunk out of
            None \<Rightarrow> None
          | Some (Inl e) \<Rightarrow> Some (Inl e)
          | Some (Inr (_, out, _)) \<Rightarrow> parse fuel mem st (out @ [EvEnd]))))
      else if wire_type = 3 then parse fuel mem st (out @ [EvGroupStart])
      else if wire_type = 4 then parse fuel mem st (out @ [EvGroupEnd])
      else if wire_type = 5 then
        res_run (read_32bit mem st) (\<lambda>(value, st). parse fuel mem st (out @ [Ev32bit value]))
      else parse fuel mem st out))"

section \<open>The wire format\<close>

text \<open>
  The specification side: how protocol buffers encode a number (seven bits at a time, low bits
  first) and a field (its number and wire type as one varint, then the value), and the events a
  reader of that field prints. The code has no encoder.
\<close>

function enc_varint :: "nat \<Rightarrow> byte list" where
  "enc_varint n =
     (if n < 128 then [of_nat n] else of_nat (n mod 128 + 128) # enc_varint (n div 128))"
  by pat_completeness auto
termination by (relation "measure id") auto

declare enc_varint.simps [simp del]

lemma and_127: "(w :: 64 word) AND 127 = take_bit 7 w"
  by (simp add: take_bit_eq_mask mask_eq_exp_minus_1)

lemma low_bits: "(ucast (of_nat k :: byte) AND 127 :: 64 word) = of_nat (k mod 128)"
proof -
  have "take_bit 7 k = k mod 128" by (simp add: take_bit_eq_mod)
  then show ?thesis by (simp add: and_127 unsigned_of_nat take_bit_of_nat)
qed

lemma high_bit:
  assumes "k < 256"
  shows "(of_nat k :: byte) AND 128 = 0 \<longleftrightarrow> k < 128"
proof -
  have "(of_nat k :: byte) AND 128 = 0 \<longleftrightarrow> \<not> bit (of_nat k :: byte) 7"
    using and_exp_eq_0_iff_not_bit [of "of_nat k :: byte" 7] by simp
  also have "\<dots> \<longleftrightarrow> \<not> bit k 7" by (simp only: bit_of_nat_iff) simp
  also have "\<dots> \<longleftrightarrow> k < 128"
  proof -
    have "k div 128 = (if k < 128 then 0 else 1)"
      using assms by (cases "k < 128") (simp_all add: div_nat_eqI)
    then show ?thesis by (simp add: bit_iff_odd)
  qed
  finally show ?thesis .
qed

lemma or_shifted:
  assumes "v < 2 ^ s"
  shows "(of_nat v OR push_bit s (of_nat m) :: 64 word) = of_nat (v + m * 2 ^ s)"
proof -
  have "\<not> bit v n" if "s \<le> n" for n
    using take_bit_nat_eq_self [OF assms] that by (metis bit_take_bit_iff not_le)
  then have "v AND push_bit s m = 0"
    by (intro bit_eqI) (auto simp: bit_simps)
  then have "v OR push_bit s m = v + m * 2 ^ s"
    by (simp add: disjunctive_add_eq_or [symmetric] push_bit_eq_mult)
  moreover have "(of_nat (v OR push_bit s m) :: 64 word) = of_nat v OR push_bit s (of_nat m)"
    by (simp add: of_nat_or_eq push_bit_of_nat)
  ultimately show ?thesis by simp
qed

lemma enc_varint_ne [simp]: "enc_varint n \<noteq> []"
  by (subst enc_varint.simps) simp

lemma byte_at_drop: "drop (nat d) mem = b # r \<Longrightarrow> 0 \<le> d \<Longrightarrow> byte_at mem d = Inr b \<and> drop (nat (d + 1)) mem = r"
proof -
  assume d: "drop (nat d) mem = b # r" "0 \<le> d"
  then have "nat d < length mem" by (metis drop_eq_Nil list.distinct(1) not_le)
  moreover have "mem ! nat d = b" using d calculation by (metis nth_via_drop)
  moreover have "nat (d + 1) = Suc (nat d)" using d by simp
  moreover have "drop (Suc (nat d)) mem = r" using d by (metis drop_Suc list.sel(3) tl_drop)
  ultimately show ?thesis using d by (simp add: byte_at_def)
qed

lemma varint_loop_enc:
  assumes "drop (nat d) mem = enc_varint n @ post" and "0 \<le> d"
    and "v < 2 ^ shift" and "v + n * 2 ^ shift < 2 ^ 64" and "shift < 64"
  shows "varint_loop mem d (of_nat v) shift =
      Inr (of_nat (v + n * 2 ^ shift), d + int (length (enc_varint n)))"
  using assms
proof (induction n arbitrary: d v shift rule: enc_varint.induct)
  case (1 n)
  show ?case
  proof (cases "n < 128")
    case True
    then have e: "enc_varint n = [of_nat n]" by (subst enc_varint.simps) simp
    have at: "byte_at mem d = Inr (of_nat n)"
      using 1(2,3) e byte_at_drop by simp
    show ?thesis
      using True 1(4,6) at high_bit [of n] low_bits [of n] or_shifted [of v shift n] e
      by (subst varint_loop.simps) (simp add: Let_def del: push_bit_and)
  next
    case False
    let ?b = "n mod 128 + 128"
    have e: "enc_varint n = of_nat ?b # enc_varint (n div 128)"
      using False by (subst enc_varint.simps) simp
    have at: "byte_at mem d = Inr (of_nat ?b)" and rest: "drop (nat (d + 1)) mem = enc_varint (n div 128) @ post"
      using 1(2,3) e byte_at_drop [of d mem "of_nat ?b" "enc_varint (n div 128) @ post"] by simp_all
    let ?v = "v + n mod 128 * 2 ^ shift"
    have sum: "?v + n div 128 * 2 ^ (shift + 7) = v + n * 2 ^ shift"
    proof -
      have "v + r * 2 ^ shift + q * 2 ^ (shift + 7) = v + (q * 128 + r) * 2 ^ shift" for q r
        by (simp add: power_add algebra_simps)
      from this [of "n mod 128" "n div 128"] show ?thesis by (simp only: div_mult_mod_eq)
    qed
    have "1 \<le> n div 128" using False by simp
    then have "2 ^ (shift + 7) \<le> n div 128 * 2 ^ (shift + 7)" by simp
    also have "\<dots> < (2 :: nat) ^ 64" using sum 1(5) by linarith
    finally have "shift + 7 < 64" by (rule power_less_imp_less_exp [rotated]) simp
    moreover have "?v < 2 ^ (shift + 7)"
    proof -
      have "?v < 2 ^ shift + 127 * 2 ^ shift"
        using 1(4) by (intro add_less_le_mono mult_right_mono) simp_all
      then show ?thesis by (simp add: power_add)
    qed
    ultimately have IH: "varint_loop mem (d + 1) (of_nat ?v) (shift + 7) =
        Inr (of_nat (v + n * 2 ^ shift), d + 1 + int (length (enc_varint (n div 128))))"
      using 1(1) [OF False rest, of ?v "shift + 7"] 1(3,5) sum by simp
    have "(of_nat ?b :: byte) AND 128 \<noteq> 0"
      using high_bit [of ?b] by simp
    then have "varint_loop mem d (of_nat v) shift = varint_loop mem (d + 1) (of_nat ?v) (shift + 7)"
      using 1(4,6) at low_bits [of ?b] or_shifted [of v shift "n mod 128"]
      by (subst varint_loop.simps) (simp add: Let_def del: push_bit_and)
    then show ?thesis using IH e by simp
  qed
qed

lemma read_varint_at:
  assumes "drop (nat (dot st)) mem = enc_varint n @ post" and "0 \<le> dot st" and "n < 2 ^ 64"
    and "in_int_range (remaining st - int (length (enc_varint n)))"
  shows "read_varint mem st =
    Inr (of_nat n, st\<lparr>dot := dot st + int (length (enc_varint n)),
                      remaining := remaining st - int (length (enc_varint n))\<rparr>)"
  using varint_loop_enc [OF assms(1,2), of 0 0] assms(3,4)
  by (simp add: read_varint_def int_sub_def)

text \<open>
  \<open>read_varint\<close> on the varint of a 64-bit number returns the number, moves the dot past exactly
  its bytes and takes their count off \<open>remaining\<close>.
\<close>

theorem read_varint_enc:
  assumes "n < 2 ^ 64" and "dot st = int (length pre)"
    and "int (length (enc_varint n)) \<le> remaining st" and "remaining st < 2 ^ 31"
  shows "read_varint (pre @ enc_varint n @ post) st =
    Inr (of_nat n, st\<lparr>dot := dot st + int (length (enc_varint n)),
                      remaining := remaining st - int (length (enc_varint n))\<rparr>)"
  using assms by (intro read_varint_at) (simp_all add: in_int_range_def)

theorem read_varint_enc_witness:
  "(300 :: nat) < 2 ^ 64 \<and>
   read_varint ([7] @ enc_varint 300 @ [9]) \<lparr>address = 0, dot = 1, blength = 4, remaining = 3\<rparr> =
     Inr (300, \<lparr>address = 0, dot = 3, blength = 4, remaining = 1\<rparr>)"
proof -
  have e: "enc_varint 300 = [0xAC, 2]" by (simp add: enc_varint.simps)
  show ?thesis
    using read_varint_enc [of 300 "\<lparr>address = 0, dot = 1, blength = 4, remaining = 3\<rparr>" "[7]" "[9]"]
    by (simp add: e)
qed

interpretation varint: codec "\<lambda>n. Inr (enc_varint n)"
  "\<lambda>bs. bind_res (varint_loop bs 0 0 0) (\<lambda>(v, d). Inr (unat v))" "\<lambda>n. n < 2 ^ 64"
proof
  fix n :: nat and t
  assume n: "n < 2 ^ 64"
  show "\<exists>t. Inr (enc_varint n) = (Inr t :: byte list res)" by simp
  assume "Inr (enc_varint n) = (Inr t :: byte list res)"
  then have "varint_loop t 0 0 0 = Inr (of_nat n, int (length t))"
    using varint_loop_enc [of 0 t n "[]" 0 0] n by simp
  moreover have "unat (of_nat n :: 64 word) = n"
    using n by (subst unat_of_nat) simp
  ultimately show "bind_res (varint_loop t 0 0 0) (\<lambda>(v, d). Inr (unat v)) = Inr n"
    by simp
qed

text \<open>No two 64-bit numbers share a varint, since the reader's loop tells them apart.\<close>

lemma enc_varint_inj:
  assumes "m < 2 ^ 64" and "n < 2 ^ 64" and "enc_varint m = enc_varint n"
  shows "m = n"
  using assms by (intro varint.encode_inj) simp_all

section \<open>Fixed-width values and fields\<close>

fun enc_le :: "nat \<Rightarrow> int \<Rightarrow> byte list" where
  "enc_le 0 x = []"
| "enc_le (Suc k) x = word_of_int x # enc_le k (x div 256)"

lemma length_enc_le [simp]: "length (enc_le k x) = k"
  by (induction k arbitrary: x) auto

lemma le_value_enc: "le_value (enc_le k x) = x mod 256 ^ k"
proof (induction k arbitrary: x)
  case (Suc k)
  have "uint (word_of_int x :: byte) = x mod 256"
    by (simp add: uint_word_of_int)
  then show ?case
    using Suc by (simp add: zmod_zmult2_eq)
qed simp

datatype field =
    FVarint nat nat
  | F64bit nat "64 word"
  | FMessage nat "field list"
  | FGroupStart nat
  | FGroupEnd nat
  | F32bit nat "32 word"

fun enc_field :: "field \<Rightarrow> byte list" where
  "enc_field (FVarint no n) = enc_varint (no * 8 + 0) @ enc_varint n"
| "enc_field (F64bit no w) = enc_varint (no * 8 + 1) @ enc_le 8 (uint w)"
| "enc_field (FMessage no fs) =
     enc_varint (no * 8 + 2) @ enc_varint (length (concat (map enc_field fs))) @ concat (map enc_field fs)"
| "enc_field (FGroupStart no) = enc_varint (no * 8 + 3)"
| "enc_field (FGroupEnd no) = enc_varint (no * 8 + 4)"
| "enc_field (F32bit no w) = enc_varint (no * 8 + 5) @ enc_le 4 (uint w)"

abbreviation enc_fields :: "field list \<Rightarrow> byte list" where
  "enc_fields fs \<equiv> concat (map enc_field fs)"

fun field_no :: "field \<Rightarrow> nat" where
  "field_no (FVarint no n) = no"
| "field_no (F64bit no w) = no"
| "field_no (FMessage no fs) = no"
| "field_no (FGroupStart no) = no"
| "field_no (FGroupEnd no) = no"
| "field_no (F32bit no w) = no"

fun wf_field :: "field \<Rightarrow> bool" where
  "wf_field (FVarint no n) \<longleftrightarrow> no < 2 ^ 61 \<and> n < 2 ^ 64"
| "wf_field (FMessage no fs) \<longleftrightarrow> no < 2 ^ 61 \<and> list_all wf_field fs"
| "wf_field f \<longleftrightarrow> field_no f < 2 ^ 61"

definition ev_tag :: "nat \<Rightarrow> nat \<Rightarrow> event" where
  "ev_tag no w = EvTag (of_nat (no * 8 + w)) (of_nat no) (of_nat w)"

fun field_events :: "field \<Rightarrow> event list" where
  "field_events (FVarint no n) = [ev_tag no 0, EvVarint (of_nat n)]"
| "field_events (F64bit no w) = [ev_tag no 1, Ev64bit w]"
| "field_events (FMessage no fs) =
     [ev_tag no 2, EvLength (int (length (enc_fields fs))), EvBytes (map sint (enc_fields fs)), EvBegin] @
     concat (map field_events fs) @ [EvEnd]"
| "field_events (FGroupStart no) = [ev_tag no 3, EvGroupStart]"
| "field_events (FGroupEnd no) = [ev_tag no 4, EvGroupEnd]"
| "field_events (F32bit no w) = [ev_tag no 5, Ev32bit w]"

fun field_cost :: "field \<Rightarrow> nat" where
  "field_cost (FMessage no fs) = Suc (sum_list (map field_cost fs))"
| "field_cost f = 1"

lemma ucast_small: "t < 2 ^ 64 \<Longrightarrow> (ucast (of_nat t :: 64 word) :: 'a::len word) = of_nat t"
  using take_bit_nat_eq_self [of t 64] by (simp add: unsigned_of_nat)

lemma tag_wire:
  assumes "no < 2 ^ 61" and "w < 8"
  shows "(ucast (of_nat (no * 8 + w) :: 64 word) AND 7 :: byte) = of_nat w"
proof -
  have "no * 8 + w < 2 ^ 64" using assms by simp
  then have "(ucast (of_nat (no * 8 + w) :: 64 word) AND 7 :: byte) = take_bit 3 (of_nat (no * 8 + w))"
    by (simp only: ucast_small) (simp only: take_bit_eq_mask, simp add: mask_eq_exp_minus_1)
  also have "\<dots> = of_nat (take_bit 3 (no * 8 + w))"
    by (simp only: take_bit_of_nat)
  also have "take_bit 3 (no * 8 + w) = w"
    using assms(2) by (simp add: take_bit_eq_mod)
  finally show ?thesis .
qed

lemma tag_number:
  assumes "no < 2 ^ 61" and "w < 8"
  shows "(ucast (drop_bit 3 (of_nat (no * 8 + w) :: 64 word)) :: byte) = of_nat no"
proof -
  have "no * 8 + w < 2 ^ 64" using assms by simp
  then have "unat (of_nat (no * 8 + w) :: 64 word) = no * 8 + w"
    by (subst unat_of_nat) (simp only: mod_less len_num0 len_bit0, simp)
  then have "unat (drop_bit 3 (of_nat (no * 8 + w) :: 64 word)) = no"
    unfolding unat_drop_bit_eq using assms(2) by (simp add: drop_bit_eq_div)
  then have "drop_bit 3 (of_nat (no * 8 + w) :: 64 word) = of_nat no"
    by (metis of_nat_unat ucast_id)
  moreover have "no < 2 ^ 64" using assms(1) by simp
  ultimately show ?thesis by (simp only: ucast_small)
qed

lemma sint_of_small:
  assumes "n < 2 ^ 31"
  shows "sint (ucast (of_nat n :: 64 word) :: 32 word) = int n"
proof -
  have "n < 2 ^ 64" using assms by simp
  then show ?thesis
    using assms by (simp add: ucast_small signed_of_nat signed_take_bit_int_eq_self)
qed

definition holds_at :: "byte list \<Rightarrow> int \<Rightarrow> byte list \<Rightarrow> bool" where
  "holds_at mem d bs \<longleftrightarrow> (\<exists>pre post. mem = pre @ bs @ post \<and> d = int (length pre))"

lemma holds_at_drop: "holds_at mem d bs \<Longrightarrow> 0 \<le> d \<and> (\<exists>post. drop (nat d) mem = bs @ post)"
  by (auto simp: holds_at_def)

lemma holds_at_append:
  "holds_at mem d (xs @ ys) \<longleftrightarrow> holds_at mem d xs \<and> holds_at mem (d + int (length xs)) ys"
proof
  assume "holds_at mem d (xs @ ys)"
  then obtain pre post where "mem = pre @ (xs @ ys) @ post" "d = int (length pre)"
    by (auto simp: holds_at_def)
  then have "mem = pre @ xs @ (ys @ post)" and "mem = (pre @ xs) @ ys @ post"
    and "d + int (length xs) = int (length (pre @ xs))" by simp_all
  then show "holds_at mem d xs \<and> holds_at mem (d + int (length xs)) ys"
    using \<open>d = int (length pre)\<close> unfolding holds_at_def by blast
next
  assume "holds_at mem d xs \<and> holds_at mem (d + int (length xs)) ys"
  then obtain pre post pre' post' where "mem = pre @ xs @ post" "d = int (length pre)"
    and "mem = pre' @ ys @ post'" "d + int (length xs) = int (length pre')"
    unfolding holds_at_def by blast
  then have "pre' @ (ys @ post') = (pre @ xs) @ post" and "length pre' = length (pre @ xs)"
    by simp_all
  then have "pre' = pre @ xs" and "post = ys @ post'"
    using append_eq_append_conv by blast+
  then show "holds_at mem d (xs @ ys)"
    using \<open>mem = pre @ xs @ post\<close> \<open>d = int (length pre)\<close> by (auto simp: holds_at_def)
qed

lemma bytes_at_holds: "holds_at mem d bs \<Longrightarrow> length bs = n \<Longrightarrow> bytes_at mem d n = Inr bs"
  by (auto simp: holds_at_def bytes_at_def)

lemma read_varint_holds:
  assumes "holds_at mem (dot st) (enc_varint n)" and "n < 2 ^ 64"
    and "int (length (enc_varint n)) \<le> remaining st" and "remaining st < 2 ^ 31"
  shows "read_varint mem st =
    Inr (of_nat n, st\<lparr>dot := dot st + int (length (enc_varint n)),
                      remaining := remaining st - int (length (enc_varint n))\<rparr>)"
  using holds_at_drop [OF assms(1)] assms(2-4)
  by (auto simp: in_int_range_def intro!: read_varint_at)

lemma read_64bit_holds:
  assumes "holds_at mem (dot st) (enc_le 8 (uint w))" and "8 \<le> remaining st" and "remaining st < 2 ^ 31"
  shows "read_64bit mem st = Inr (w, st\<lparr>dot := dot st + 8, remaining := remaining st - 8\<rparr>)"
  using assms uint_lt2p [of w]
  by (simp add: read_64bit_def bytes_at_holds increment_def int_sub_def in_int_range_def le_value_enc)

lemma read_32bit_holds:
  assumes "holds_at mem (dot st) (enc_le 4 (uint w))" and "4 \<le> remaining st" and "remaining st < 2 ^ 31"
  shows "read_32bit mem st = Inr (w, st\<lparr>dot := dot st + 4, remaining := remaining st - 4\<rparr>)"
  using assms uint_lt2p [of w]
  by (simp add: read_32bit_def bytes_at_holds increment_def int_sub_def in_int_range_def le_value_enc)

lemma not_short: "8 \<le> remaining st \<Longrightarrow> remaining st < 2 ^ 31 \<Longrightarrow> \<not> short_of_64bit st"
  by (simp add: short_of_64bit_def word_less_def uint_word_of_int)

lemma wf_pos: "0 < length (enc_field f)"
  by (cases f) auto

lemma field_cost_pos: "0 < field_cost f"
  by (cases f) auto

lemma read_tag:
  assumes "holds_at mem (dot st) (enc_varint (no * 8 + w))" and "no < 2 ^ 61" and "w < 8"
    and "int (length (enc_varint (no * 8 + w))) \<le> remaining st" and "remaining st < 2 ^ 31"
  shows "\<exists>tag. read_varint mem st =
      Inr (tag, st\<lparr>dot := dot st + int (length (enc_varint (no * 8 + w))),
                   remaining := remaining st - int (length (enc_varint (no * 8 + w)))\<rparr>) \<and>
    (ucast tag AND 7 :: byte) = of_nat w \<and>
    EvTag tag (ucast (drop_bit 3 tag)) (of_nat w) = ev_tag no w"
proof -
  have "no * 8 + w < 2 ^ 64" using assms by simp
  from read_varint_holds [OF assms(1) this assms(4,5)] show ?thesis
    using tag_wire [OF assms(2,3)] tag_number [OF assms(2,3)] unfolding ev_tag_def by blast
qed

lemma parse_fields:
  assumes "sum_list (map field_cost fs) < fuel" and "list_all wf_field fs"
    and "holds_at mem (dot st) (enc_fields fs)"
    and "remaining st = int (length (enc_fields fs))" and "length (enc_fields fs) < 2 ^ 31"
  shows "parse fuel mem st out =
    Some (Inr (st\<lparr>dot := dot st + int (length (enc_fields fs)), remaining := 0\<rparr>,
               out @ concat (map field_events fs), OK))"
  using assms
proof (induction fuel arbitrary: fs st out)
  case 0
  then show ?case by simp
next
  case (Suc fuel)
  show ?case
  proof (cases fs)
    case Nil
    then show ?thesis using Suc.prems by (simp add: not_empty_def)
  next
    case (Cons f rest)
    then have enc: "enc_fields fs = enc_field f @ enc_fields rest" by simp
    have wf: "wf_field f" "list_all wf_field rest" using Suc.prems(2) Cons by simp_all
    have rest: "parse fuel mem st' out' =
      Some (Inr (st'\<lparr>dot := dot st' + int (length (enc_fields rest)), remaining := 0\<rparr>,
               out' @ concat (map field_events rest), OK))"
      if "dot st' = dot st + int (length (enc_field f))"
        and "remaining st' = int (length (enc_fields rest))" for st' out'
      using Suc.prems Cons that field_cost_pos [of f] by (intro Suc.IH) (auto simp: holds_at_append)
    have bound: "remaining st < 2 ^ 31" using Suc.prems by simp
    have here: "holds_at mem (dot st) (enc_field f)"
      using Suc.prems(3) Cons by (simp add: holds_at_append)
    have len: "remaining st = int (length (enc_field f)) + int (length (enc_fields rest))"
      using Suc.prems(4) Cons by simp
    have ne: "not_empty st"
      unfolding not_empty_def using len wf_pos [of f] by linarith
    show ?thesis
    proof (cases f)
      case (FVarint no n)
      obtain tag st1 where tag: "read_varint mem st = Inr (tag, st1)" "(ucast tag AND 7 :: byte) = of_nat 0"
        "EvTag tag (ucast (drop_bit 3 tag)) (of_nat 0) = ev_tag no 0"
        "st1 = st\<lparr>dot := dot st + int (length (enc_varint (no * 8 + 0))), remaining := remaining st - int (length (enc_varint (no * 8 + 0)))\<rparr>"
        using read_tag [of mem st no 0] here len bound wf FVarint by (auto simp: holds_at_append simp del: of_nat_numeral of_nat_0 of_nat_1)
      obtain st2 where v: "read_varint mem st1 = Inr (of_nat n, st2)" 
        "st2 = st\<lparr>dot := dot st + int (length (enc_field f)), remaining := int (length (enc_fields rest))\<rparr>"
        using here len bound wf FVarint tag(4) read_varint_holds [of mem st1 n] by (auto simp: holds_at_append)
      show ?thesis
        using ne tag(1-3) v rest [of st2] Cons FVarint by (simp add: Let_def)
    next
      case (F64bit no w)
      obtain tag st1 where tag: "read_varint mem st = Inr (tag, st1)" "(ucast tag AND 7 :: byte) = of_nat 1"
        "EvTag tag (ucast (drop_bit 3 tag)) (of_nat 1) = ev_tag no 1"
        "st1 = st\<lparr>dot := dot st + int (length (enc_varint (no * 8 + 1))),
                  remaining := remaining st - int (length (enc_varint (no * 8 + 1)))\<rparr>"
        using read_tag [of mem st no 1] here len bound wf F64bit by (auto simp: holds_at_append simp del: of_nat_numeral of_nat_0 of_nat_1)
      have short: "\<not> short_of_64bit st1"
        using len bound F64bit tag(4) by (intro not_short) auto
      obtain st2 where v: "read_64bit mem st1 = Inr (w, st2)"
        "st2 = st\<lparr>dot := dot st + int (length (enc_field f)), remaining := int (length (enc_fields rest))\<rparr>"
        using here len bound wf F64bit tag(4) read_64bit_holds [of mem st1 w] by (auto simp: holds_at_append)
      show ?thesis
        using ne tag(1-3) short v rest [of st2] Cons F64bit by (simp add: Let_def)
    next
      case (FMessage no gs)
      obtain tag st1 where tag: "read_varint mem st = Inr (tag, st1)" "(ucast tag AND 7 :: byte) = of_nat 2"
        "EvTag tag (ucast (drop_bit 3 tag)) (of_nat 2) = ev_tag no 2"
        "st1 = st\<lparr>dot := dot st + int (length (enc_varint (no * 8 + 2))),
                  remaining := remaining st - int (length (enc_varint (no * 8 + 2)))\<rparr>"
        using read_tag [of mem st no 2] here len bound wf FMessage by (auto simp: holds_at_append simp del: of_nat_numeral of_nat_0 of_nat_1)
      let ?n = "length (enc_fields gs)"
      obtain st2 where st2: "st2 = st1\<lparr>dot := dot st1 + int (length (enc_varint ?n)),
          remaining := remaining st1 - int (length (enc_varint ?n))\<rparr>"
        by simp
      have v1: "read_varint mem st1 = Inr (of_nat ?n, st2)"
        unfolding st2 using here len bound FMessage tag(4)
        by (intro read_varint_holds) (auto simp: holds_at_append)
      have v2: "dot st2 = dot st1 + int (length (enc_varint ?n))"
        "remaining st2 = int ?n + int (length (enc_fields rest))"
        "address st2 = address st" "blength st2 = blength st"
        using len FMessage tag(4) st2 by simp_all
      note v = v1 v2
      have n: "sint (ucast (of_nat ?n :: 64 word) :: 32 word) = int ?n" "?n < 2 ^ 31"
        using len bound FMessage sint_of_small [of ?n] by auto
      have r: "int_sub (remaining st2) (int ?n) = Inr (int (length (enc_fields rest)))"
        using len bound FMessage v by (simp add: int_sub_def in_int_range_def)
      have payload: "holds_at mem (dot st2) (enc_fields gs)"
        using here FMessage tag(4) v(2) by (simp add: holds_at_append)
      let ?chunk = "\<lparr>address = dot st2, dot = dot st2, blength = int ?n, remaining = int ?n\<rparr>"
      have sub: "parse fuel mem ?chunk out' =
          Some (Inr (?chunk\<lparr>dot := dot st2 + int ?n, remaining := 0\<rparr>, out' @ concat (map field_events gs), OK))"
        for out'
        using Suc.prems(1) wf FMessage Cons payload n(2) by (subst Suc.IH) auto
      have st': "st2\<lparr>dot := dot st2 + int ?n, remaining := int (length (enc_fields rest))\<rparr> =
          st\<lparr>dot := dot st + int (length (enc_field f)), remaining := int (length (enc_fields rest))\<rparr>"
        using v(2-5) tag(4) FMessage by simp
      show ?thesis
        using ne tag(1-3) v(1,3) n(1) r bytes_at_holds [OF payload refl] sub Cons FMessage st'
          rest [of "st2\<lparr>dot := dot st2 + int ?n, remaining := int (length (enc_fields rest))\<rparr>"]
        by (simp add: Let_def)
    next
      case (FGroupStart no)
      obtain tag st1 where tag: "read_varint mem st = Inr (tag, st1)" "(ucast tag AND 7 :: byte) = of_nat 3"
        "EvTag tag (ucast (drop_bit 3 tag)) (of_nat 3) = ev_tag no 3"
        "st1 = st\<lparr>dot := dot st + int (length (enc_varint (no * 8 + 3))),
                  remaining := remaining st - int (length (enc_varint (no * 8 + 3)))\<rparr>"
        using read_tag [of mem st no 3] here len bound wf FGroupStart by (auto simp: holds_at_append simp del: of_nat_numeral of_nat_0 of_nat_1)
      show ?thesis
        using ne tag(1-3) tag(4) len rest [of st1] Cons FGroupStart by (simp add: Let_def)
    next
      case (FGroupEnd no)
      obtain tag st1 where tag: "read_varint mem st = Inr (tag, st1)" "(ucast tag AND 7 :: byte) = of_nat 4"
        "EvTag tag (ucast (drop_bit 3 tag)) (of_nat 4) = ev_tag no 4"
        "st1 = st\<lparr>dot := dot st + int (length (enc_varint (no * 8 + 4))),
                  remaining := remaining st - int (length (enc_varint (no * 8 + 4)))\<rparr>"
        using read_tag [of mem st no 4] here len bound wf FGroupEnd by (auto simp: holds_at_append simp del: of_nat_numeral of_nat_0 of_nat_1)
      show ?thesis
        using ne tag(1-3) tag(4) len rest [of st1] Cons FGroupEnd by (simp add: Let_def)
    next
      case (F32bit no w)
      obtain tag st1 where tag: "read_varint mem st = Inr (tag, st1)" "(ucast tag AND 7 :: byte) = of_nat 5"
        "EvTag tag (ucast (drop_bit 3 tag)) (of_nat 5) = ev_tag no 5"
        "st1 = st\<lparr>dot := dot st + int (length (enc_varint (no * 8 + 5))),
                  remaining := remaining st - int (length (enc_varint (no * 8 + 5)))\<rparr>"
        using read_tag [of mem st no 5] here len bound wf F32bit by (auto simp: holds_at_append simp del: of_nat_numeral of_nat_0 of_nat_1)
      obtain st2 where v: "read_32bit mem st1 = Inr (w, st2)"
        "st2 = st\<lparr>dot := dot st + int (length (enc_field f)), remaining := int (length (enc_fields rest))\<rparr>"
        using here len bound wf F32bit tag(4) read_32bit_holds [of mem st1 w] by (auto simp: holds_at_append)
      show ?thesis
        using ne tag(1-3) v rest [of st2] Cons F32bit by (simp add: Let_def)
    qed
  qed
qed

definition whole_buffer :: "byte list \<Rightarrow> buffer" where
  "whole_buffer bs =
     \<lparr>address = 0, dot = 0, blength = int (length bs), remaining = int (length bs)\<rparr>"

text \<open>
  C31: a well-formed message (nested messages included) is read to its end: \<open>parse\<close> returns
  OK with nothing remaining and prints the events of the fields in order. Fuel above the number
  of fields, nested ones counted, is enough.
\<close>

theorem parse_message:
  assumes "list_all wf_field fs" and "length (enc_fields fs) < 2 ^ 31"
    and "sum_list (map field_cost fs) < fuel"
  shows "parse fuel (enc_fields fs) (whole_buffer (enc_fields fs)) [] =
    Some (Inr ((whole_buffer (enc_fields fs))\<lparr>dot := int (length (enc_fields fs)), remaining := 0\<rparr>,
               concat (map field_events fs), OK))"
proof -
  have "holds_at (enc_fields fs) 0 (enc_fields fs)"
    by (auto simp: holds_at_def)
  then show ?thesis
    using parse_fields [OF assms(3,1), of "enc_fields fs" "whole_buffer (enc_fields fs)" "[]"] assms(2)
    by (simp add: whole_buffer_def)
qed

definition sample_message :: "field list" where
  "sample_message = [FVarint 1 150, FMessage 3 [F32bit 2 7, FGroupStart 1], F64bit 4 9]"

theorem parse_message_witness:
  "list_all wf_field sample_message \<and>
   parse 9 (enc_fields sample_message) (whole_buffer (enc_fields sample_message)) [] =
    Some (Inr ((whole_buffer (enc_fields sample_message))
                 \<lparr>dot := int (length (enc_fields sample_message)), remaining := 0\<rparr>,
               concat (map field_events sample_message), OK))"
proof -
  have a: "list_all wf_field sample_message" by (simp add: sample_message_def)
  have l: "length (enc_fields sample_message) = 20" by code_simp
  have b: "length (enc_fields sample_message) < 2 ^ 31" unfolding l by simp
  have c: "sum_list (map field_cost sample_message) < 9" by (simp add: sample_message_def)
  show ?thesis using a parse_message [OF a b c] by simp
qed

section \<open>Where the reader trusts its input\<close>

text \<open>
  Three behaviours of the code on hostile input. A length that is negative as an \<open>int\<close> passes
  the size check, moves the dot back and gives the bytes back to \<open>remaining\<close>; a varint that
  does not end runs past the mapping; \<open>create_buffer\<close> writes past a short allocation.
\<close>

definition looping :: "byte list" where
  "looping = [0x02, 0xFA, 0xFF, 0xFF, 0xFF, 0x0F]"

lemma looping_step:
  "parse (Suc fuel) looping \<lparr>address = a, dot = 0, blength = l, remaining = 6\<rparr> out =
   (case parse fuel looping \<lparr>address = 6, dot = 6, blength = -6, remaining = -6\<rparr>
           (out @ [EvTag 2 0 2, EvLength (-6), EvBytes [], EvBegin]) of
      None \<Rightarrow> None
    | Some (Inl e) \<Rightarrow> Some (Inl e)
    | Some (Inr (_, out, _)) \<Rightarrow> parse fuel looping \<lparr>address = a, dot = 0, blength = l, remaining = 6\<rparr> (out @ [EvEnd]))"
proof -
  have t: "read_varint looping \<lparr>address = a, dot = 0, blength = l, remaining = 6\<rparr> =
      Inr (2, \<lparr>address = a, dot = 1, blength = l, remaining = 5\<rparr>)"
    by (simp add: read_varint_def varint_loop.simps looping_def byte_at_def int_sub_def in_int_range_def)
  have l: "read_varint looping \<lparr>address = a, dot = 1, blength = l, remaining = 5\<rparr> =
      Inr (0xFFFFFFFA, \<lparr>address = a, dot = 6, blength = l, remaining = 0\<rparr>)"
    by (simp add: read_varint_def varint_loop.simps looping_def byte_at_def int_sub_def in_int_range_def)
  have "bytes_at looping 6 0 = Inr []"
    by (simp add: bytes_at_def looping_def)
  then show ?thesis
    by (simp add: not_empty_def t l Let_def int_sub_def in_int_range_def)
qed

lemma whole_looping: "whole_buffer looping = \<lparr>address = 0, dot = 0, blength = 6, remaining = 6\<rparr>"
  by (simp add: whole_buffer_def looping_def)

text \<open>
  On these six bytes, read as a whole file, \<open>parse\<close> never returns: whatever the fuel,
  it is still running.
\<close>

theorem parse_loops:
  "parse fuel looping (whole_buffer looping) out = None"
  unfolding whole_looping
proof (induction fuel arbitrary: out)
  case (Suc fuel)
  have "parse (Suc n) looping \<lparr>address = 6, dot = 6, blength = -6, remaining = -6\<rparr> out' =
      Some (Inr (\<lparr>address = 6, dot = 6, blength = -6, remaining = -6\<rparr>, out', OK))" for n out'
    by (simp add: not_empty_def)
  then show ?case
    unfolding looping_step using Suc by (cases fuel) (simp_all del: parse.simps(2))
qed simp

lemma parse_unterminated_varint: "parse (Suc n) [0x80] (whole_buffer [0x80]) [] = Some (Inl Undefined)"
proof -
  have "read_varint [0x80] (whole_buffer [0x80]) = Inl Undefined"
    by (simp add: whole_buffer_def read_varint_def varint_loop.simps byte_at_def get_at_def)
  then show ?thesis
    by (simp add: whole_buffer_def not_empty_def)
qed

lemma create_buffer_overruns: "create_buffer a 16 = Inl Undefined"
  by (simp add: create_buffer_def)

lemma varint_loop_bounds:
  assumes "varint_loop mem d acc shift = Inr (v, e)" and "7 dvd shift"
  shows "d < e \<and> e \<le> int (length mem) \<and> 7 * (e - d) + int shift \<le> 70"
  using assms
proof (induction mem d acc shift rule: varint_loop.induct)
  case (1 mem d acc shift)
  obtain x where x: "byte_at mem d = Inr x"
    using 1(2) by (subst (asm) varint_loop.simps) (auto simp: bind_res_eq_Inr)
  then have inside: "0 \<le> d \<and> d < int (length mem)"
    by (auto simp: byte_at_def get_at_eq_Inr split: if_splits)
  have shift: "shift \<le> 63"
    using 1(2) x by (subst (asm) varint_loop.simps) (auto split: if_splits)
  show ?case
  proof (cases "x AND 128 = 0")
    case True
    then have "e = d + 1"
      using 1(2) x by (subst (asm) varint_loop.simps) (auto simp: Let_def split: if_splits)
    then show ?thesis using inside shift by simp
  next
    case False
    then have "varint_loop mem (d + 1) (acc OR push_bit shift (ucast x AND 0x7F)) (shift + 7) = Inr (v, e)"
      using 1(2) x by (subst (asm) varint_loop.simps) (auto simp: Let_def split: if_splits)
    moreover have "7 dvd shift + 7" using 1(3) by simp
    ultimately have "d + 1 < e \<and> e \<le> int (length mem) \<and> 7 * (e - (d + 1)) + int (shift + 7) \<le> 70"
      using 1(1) [OF x _ refl False] shift by simp
    then show ?thesis by simp
  qed
qed

text \<open>
  Whatever the bytes are, a varint read that succeeds consumes between one and ten bytes, all
  inside the mapping, and takes exactly that many off \<open>remaining\<close>.
\<close>

theorem read_varint_bounds:
  assumes "read_varint mem st = Inr (v, st')"
  shows "dot st < dot st' \<and> dot st' \<le> dot st + 10 \<and> dot st' \<le> int (length mem) \<and>
    remaining st' = remaining st - (dot st' - dot st)"
proof -
  obtain e where e: "varint_loop mem (dot st) 0 0 = Inr (v, e)" "dot st' = e"
    and r: "int_sub (remaining st) (e - dot st) = Inr (remaining st')"
    using assms by (auto simp: read_varint_def bind_res_eq_Inr)
  then have "remaining st' = remaining st - (e - dot st)"
    by (auto simp: int_sub_def split: if_splits)
  then show ?thesis
    using varint_loop_bounds [OF e(1)] e(2) by simp
qed

theorem read_varint_bounds_witness:
  "read_varint [0xAC, 2] (whole_buffer [0xAC, 2]) =
     Inr (300, (whole_buffer [0xAC, 2])\<lparr>dot := 2, remaining := 0\<rparr>) \<and>
   dot (whole_buffer [0xAC, 2]) < dot ((whole_buffer [0xAC, 2])\<lparr>dot := 2, remaining := 0\<rparr>)"
proof -
  have r: "read_varint [0xAC, 2] (whole_buffer [0xAC, 2]) =
     Inr (300, (whole_buffer [0xAC, 2])\<lparr>dot := 2, remaining := 0\<rparr>)"
    unfolding whole_buffer_def
    by (simp add: read_varint_def varint_loop.simps byte_at_def int_sub_def in_int_range_def)
  show ?thesis using r read_varint_bounds [OF r] by simp
qed

end
