(* ===== verification/JsonScanner.thy ===== *)
theory JsonScanner
  imports Prelude
begin

text \<open>
  \<open>json_scanner.c\<close> and \<open>json_errors.c\<close>: the hand-written scanner, one function per label of
  \<open>get_next_token\<close>. The state is the file's static variables plus what is left of the standard
  input. Tokens are the integers of \<open>json_scanner.h\<close>: a character, or a code from 256 on.
\<close>

section \<open>Tokens and state\<close>

abbreviation "ERROR \<equiv> (256 :: int)"
abbreviation "EOI \<equiv> (257 :: int)"
abbreviation "INTEGER \<equiv> (258 :: int)"
abbreviation "STRING \<equiv> (259 :: int)"
abbreviation "IDENTIFIER \<equiv> (260 :: int)"
abbreviation "KEYWORD_NULL \<equiv> (261 :: int)"
abbreviation "KEYWORD_TRUE \<equiv> (262 :: int)"
abbreviation "KEYWORD_FALSE \<equiv> (263 :: int)"
abbreviation "EOF \<equiv> (-1 :: int)"

text \<open>
  \<open>current_string\<close> holds the characters stored since \<open>stringpos\<close> was last zero; the array
  has 4096 places and \<open>stringpos\<close> is its length.
\<close>

record scanner =
  stdin :: "byte list"
  cur :: int
  input_pos :: nat
  current_token :: int
  current_string :: "byte list"
  current_integer :: int

definition start_scanner :: "byte list \<Rightarrow> scanner" where
  "start_scanner bs = \<lparr>stdin = bs, cur = 0, input_pos = 0, current_token = 0,
     current_string = [], current_integer = 0\<rparr>"

section \<open>Errors\<close>

definition unterminated_string :: "'a res" where
  "unterminated_string = Inl (Exit ''unterminated string'')"

definition invalid_character :: "int \<Rightarrow> 'a res" where
  "invalid_character c = Inl (Exit ''invalid character in input'')"

definition parse_error :: "string \<Rightarrow> 'a res" where
  "parse_error where = Inl (Exit (''parse error ('' @ where @ '')''))"

section \<open>Characters\<close>

text \<open>
  \<open>nextchar\<close> stores the character and a NUL after it in \<open>input[4096]\<close>. At the end of the
  input \<open>getchar\<close> returns EOF, again and again.
\<close>

definition nextchar :: "scanner \<Rightarrow> scanner res" where
  "nextchar s =
     (if 4096 \<le> input_pos s + 1 then Inl Undefined
      else Inr (case stdin s of
          [] \<Rightarrow> s\<lparr>cur := EOF, input_pos := input_pos s + 1\<rparr>
        | b # bs \<Rightarrow> s\<lparr>stdin := bs, cur := uint b, input_pos := input_pos s + 1\<rparr>))"

definition init_scanner :: "scanner \<Rightarrow> scanner res" where
  "init_scanner s = nextchar (s\<lparr>input_pos := 0\<rparr>)"

text \<open>\<open>current_string[stringpos++] = c\<close>\<close>

definition store_char :: "int \<Rightarrow> scanner \<Rightarrow> scanner res" where
  "store_char c s =
     (if 4096 \<le> length (current_string s) then Inl Undefined
      else Inr (s\<lparr>current_string := current_string s @ [word_of_int c]\<rparr>))"

text \<open>\<open>current_string[stringpos] = NUL\<close>\<close>

definition end_string :: "scanner \<Rightarrow> scanner res" where
  "end_string s = (if 4096 \<le> length (current_string s) then Inl Undefined else Inr s)"

text \<open>\<open>current_integer *= base; current_integer += digit\<close> on a signed 64-bit integer.\<close>

definition in_long_range :: "int \<Rightarrow> bool" where
  "in_long_range x \<longleftrightarrow> - (2 ^ 63) \<le> x \<and> x < 2 ^ 63"

definition add_digit :: "int \<Rightarrow> int \<Rightarrow> scanner \<Rightarrow> scanner res" where
  "add_digit base digit s =
     (let x = current_integer s * base in
      if in_long_range x \<and> in_long_range (x + digit)
      then Inr (s\<lparr>current_integer := x + digit\<rparr>) else Inl Overflow)"

section \<open>The labels of get_next_token\<close>

lemma nextchar_pos: "nextchar s = Inr s' \<Longrightarrow> input_pos s' = Suc (input_pos s) \<and> input_pos s' < 4096"
  by (auto simp: nextchar_def split: if_splits list.splits)

definition is_ws :: "int \<Rightarrow> bool" where
  "is_ws c \<longleftrightarrow> c \<in> {32, 9, 13, 10}"

function eat_whitespace :: "scanner \<Rightarrow> scanner res" where
  "eat_whitespace s =
     bind_res (nextchar s) (\<lambda>s. if is_ws (cur s) then eat_whitespace s else Inr s)"
  by pat_completeness auto
termination
  by (relation "measure (\<lambda>s. 4096 - input_pos s)") (auto dest: nextchar_pos)

function recognize_decimal :: "scanner \<Rightarrow> scanner res" where
  "recognize_decimal s =
     (if 48 \<le> cur s \<and> cur s \<le> 57
      then bind_res (add_digit 10 (cur s - 48) s) (\<lambda>s1.
           bind_res (nextchar s1) (\<lambda>s2. recognize_decimal s2))
      else Inr (s\<lparr>current_token := INTEGER\<rparr>))"
  by pat_completeness auto
termination
  by (relation "measure (\<lambda>s. 4096 - input_pos s)")
    (auto simp: add_digit_def Let_def dest: nextchar_pos split: if_splits)

definition hex_digit :: "int \<Rightarrow> int option" where
  "hex_digit c =
     (if 48 \<le> c \<and> c \<le> 57 then Some (c - 48)
      else if 97 \<le> c \<and> c \<le> 102 then Some ((c - 97) + 10)
      else if 65 \<le> c \<and> c \<le> 70 then Some ((c - 65) + 10)
      else None)"

function recognize_hex :: "scanner \<Rightarrow> scanner res" where
  "recognize_hex s =
     (case hex_digit (cur s) of
        Some digit \<Rightarrow>
          bind_res (add_digit 16 digit s) (\<lambda>s1.
          bind_res (nextchar s1) (\<lambda>s2. recognize_hex s2))
      | None \<Rightarrow> Inr (s\<lparr>current_token := INTEGER\<rparr>))"
  by pat_completeness auto
termination
  by (relation "measure (\<lambda>s. 4096 - input_pos s)")
    (auto simp: add_digit_def Let_def dest: nextchar_pos split: if_splits)

function recognize_octal :: "scanner \<Rightarrow> scanner res" where
  "recognize_octal s =
     (if 48 \<le> cur s \<and> cur s \<le> 55
      then bind_res (add_digit 8 (cur s - 48) s) (\<lambda>s1.
           bind_res (nextchar s1) (\<lambda>s2. recognize_octal s2))
      else if cur s = 56 \<or> cur s = 57 then invalid_character (cur s)
      else Inr (s\<lparr>current_token := INTEGER\<rparr>))"
  by pat_completeness auto
termination
  by (relation "measure (\<lambda>s. 4096 - input_pos s)")
    (auto simp: add_digit_def Let_def dest: nextchar_pos split: if_splits)

definition determine_base :: "scanner \<Rightarrow> scanner res" where
  "determine_base s =
     bind_res (nextchar s) (\<lambda>s.
       if cur s = 120 then bind_res (nextchar s) recognize_hex
       else if 48 \<le> cur s \<and> cur s \<le> 55 then recognize_octal s
       else if cur s = 56 \<or> cur s = 57 then invalid_character (cur s)
       else Inr (s\<lparr>current_integer := 0, current_token := INTEGER\<rparr>))"

text \<open>
  \<open>recognize_string\<close> and \<open>recognize_metachar\<close>. The four escapes are quote, n, r and t.
\<close>

definition metachar :: "int \<Rightarrow> int option" where
  "metachar c =
     (if c = 34 then Some 34 else if c = 110 then Some 10
      else if c = 114 then Some 13 else if c = 116 then Some 9 else None)"

function recognize_string :: "scanner \<Rightarrow> scanner res" where
  "recognize_string s =
     (if cur s = EOF then unterminated_string
      else if cur s = 34 then
        bind_res (end_string s) (\<lambda>s1.
        bind_res (nextchar s1) (\<lambda>s2. Inr (s2\<lparr>current_token := STRING\<rparr>)))
      else if cur s = 92 then
        bind_res (nextchar s) (\<lambda>s1.
          if cur s1 = EOF then unterminated_string
          else case metachar (cur s1) of
            None \<Rightarrow> invalid_character (cur s1)
          | Some m \<Rightarrow>
              bind_res (store_char m s1) (\<lambda>s2.
              bind_res (nextchar s2) (\<lambda>s3. recognize_string s3)))
      else
        bind_res (store_char (cur s) s) (\<lambda>s1.
        bind_res (nextchar s1) (\<lambda>s2. recognize_string s2)))"
  by pat_completeness auto
termination
  by (relation "measure (\<lambda>s. 4096 - input_pos s)")
    (auto simp: store_char_def dest!: nextchar_pos split: if_splits)

definition is_identifier_char :: "int \<Rightarrow> bool" where
  "is_identifier_char c \<longleftrightarrow>
     c = 95 \<or> c = 36 \<or> (65 \<le> c \<and> c \<le> 90) \<or> (97 \<le> c \<and> c \<le> 122)"

definition check_for_keyword :: "scanner \<Rightarrow> scanner" where
  "check_for_keyword s =
     (if current_string s = [110, 117, 108, 108] then s\<lparr>current_token := KEYWORD_NULL\<rparr>
      else if current_string s = [116, 114, 117, 101] then s\<lparr>current_token := KEYWORD_TRUE\<rparr>
      else if current_string s = [102, 97, 108, 115, 101] then s\<lparr>current_token := KEYWORD_FALSE\<rparr>
      else s)"

text \<open>
  A character above \<open>z\<close> with nothing stored yet is invalid; any other character that cannot be
  part of an identifier ends it, even an identifier with no characters.
\<close>

function recognize_identifier :: "scanner \<Rightarrow> scanner res" where
  "recognize_identifier s =
     (if is_identifier_char (cur s) then
        bind_res (store_char (cur s) s) (\<lambda>s1.
        bind_res (nextchar s1) (\<lambda>s2. recognize_identifier s2))
      else if 122 < cur s \<and> current_string s = [] then invalid_character (cur s)
      else bind_res (end_string s) (\<lambda>s1.
             Inr (check_for_keyword (s1\<lparr>current_token := IDENTIFIER\<rparr>))))"
  by pat_completeness auto
termination
  by (relation "measure (\<lambda>s. 4096 - input_pos s)")
    (auto simp: store_char_def dest!: nextchar_pos split: if_splits)

declare eat_whitespace.simps [simp del] recognize_decimal.simps [simp del]
  recognize_hex.simps [simp del] recognize_octal.simps [simp del]
  recognize_string.simps [simp del] recognize_identifier.simps [simp del]

text \<open>The dispatch at \<open>start_scan\<close>, reached with a character that is no white space.\<close>

definition scan_token :: "scanner \<Rightarrow> scanner res" where
  "scan_token s =
     (if cur s = EOF then Inr (s\<lparr>current_token := EOI\<rparr>)
      else if cur s = 34 then
        bind_res (nextchar (s\<lparr>current_string := []\<rparr>)) recognize_string
      else if cur s \<in> {123, 125, 91, 93, 58, 44} then
        nextchar (s\<lparr>current_token := cur s\<rparr>)
      else if cur s = 48 then determine_base s
      else if 49 \<le> cur s \<and> cur s \<le> 57 then recognize_decimal s
      else recognize_identifier (s\<lparr>current_string := []\<rparr>))"

definition get_next_token :: "scanner \<Rightarrow> scanner res" where
  "get_next_token s =
     (if is_ws (cur s) then bind_res (eat_whitespace s) scan_token else scan_token s)"

section \<open>Reporting a token\<close>

text \<open>\<open>sprintf( s, ... )\<close> into \<open>s[4096]\<close>, the NUL included.\<close>

definition sprintf_4096 :: "byte list \<Rightarrow> byte list res" where
  "sprintf_4096 text = (if 4096 \<le> length text then Inl Undefined else Inr text)"

definition report_token :: "int \<Rightarrow> scanner \<Rightarrow> byte list res" where
  "report_token t s =
     (let str = takeWhile (\<lambda>b. b \<noteq> 0) (current_string s) in
      if t \<in> {58, 44, 123, 125, 91, 93} then Inr [60, word_of_int t, 62]
      else if t = EOI then Inr (bytes_of ''<EOI>'')
      else if t = IDENTIFIER then sprintf_4096 (bytes_of ''IDENTIFIER<'' @ str @ [62])
      else if t = INTEGER then sprintf_4096 (bytes_of ''INTEGER<'' @ int_text (current_integer s) @ [62])
      else if t = STRING then sprintf_4096 (bytes_of ''STRING<'' @ str @ [62])
      else if t = KEYWORD_TRUE then Inr (bytes_of ''true'')
      else if t = KEYWORD_FALSE then Inr (bytes_of ''false'')
      else if t = KEYWORD_NULL then Inr (bytes_of ''null'')
      else sprintf_4096 (bytes_of ''<? '' @ int_text t @ bytes_of '' ?>''))"

section \<open>The parser's view of the scanner\<close>

definition look_ahead :: "int \<Rightarrow> scanner \<Rightarrow> bool" where
  "look_ahead t s \<longleftrightarrow> current_token s = t"

definition token :: "int \<Rightarrow> scanner \<Rightarrow> (bool \<times> scanner) res" where
  "token t s =
     (if current_token s \<noteq> t then Inr (False, s)
      else bind_res (get_next_token s) (\<lambda>s. Inr (True, s)))"

definition required :: "bool \<Rightarrow> scanner \<Rightarrow> (bool \<times> scanner) res" where
  "required found s =
     (if found then Inr (True, s)
      else bind_res (report_token (current_token s) s) (\<lambda>text. parse_error ''required''))"

section \<open>Standing at a place of the input\<close>

definition place :: "byte list \<Rightarrow> nat \<Rightarrow> scanner \<Rightarrow> scanner" where
  "place bs p s =
     (case bs of
        [] \<Rightarrow> s\<lparr>stdin := [], cur := EOF, input_pos := p\<rparr>
      | b # bs \<Rightarrow> s\<lparr>stdin := bs, cur := uint b, input_pos := p\<rparr>)"

named_theorems place_simps

lemma place_sel [simp, place_simps]:
  "cur (place (b # bs) p s) = uint b" "cur (place [] p s) = EOF"
  "input_pos (place bs p s) = p"
  "current_token (place bs p s) = current_token s"
  "current_string (place bs p s) = current_string s"
  "current_integer (place bs p s) = current_integer s"
  "stdin (place bs p s) = tl bs"
  by (simp_all add: place_def split: list.split)

lemma place_upd [simp, place_simps]:
  "(place bs p s)\<lparr>current_token := t\<rparr> = place bs p (s\<lparr>current_token := t\<rparr>)"
  "(place bs p s)\<lparr>current_string := str\<rparr> = place bs p (s\<lparr>current_string := str\<rparr>)"
  "(place bs p s)\<lparr>current_integer := i\<rparr> = place bs p (s\<lparr>current_integer := i\<rparr>)"
  by (simp_all add: place_def split: list.split)

lemma nextchar_place [simp, place_simps]:
  "nextchar (place bs p s) = (if 4095 \<le> p then Inl Undefined else Inr (place (tl bs) (p + 1) s))"
  by (cases bs) (auto simp: nextchar_def place_def split: list.split)

lemma init_scanner_place: "init_scanner (start_scanner bs) = Inr (place bs 1 (start_scanner bs))"
  by (simp add: init_scanner_def nextchar_def place_def start_scanner_def split: list.split)

lemma uint_byte_neq_EOF [simp]: "uint (b :: byte) \<noteq> -1"
  using uint_ge_0 [of b] by linarith

lemma uint_byte_eq:
  assumes "0 \<le> k" and "k < 256"
  shows "uint (b :: byte) = k \<longleftrightarrow> b = word_of_int k"
proof
  assume "uint b = k"
  then show "b = word_of_int k" by (metis word_of_int_uint)
next
  assume "b = word_of_int k"
  then show "uint b = k" using assms by (simp add: uint_word_of_int)
qed

section \<open>Strings\<close>

definition escape :: "byte \<Rightarrow> byte list" where
  "escape b = (if b = 34 then [92, 34] else if b = 10 then [92, 110]
     else if b = 13 then [92, 114] else if b = 9 then [92, 116] else [b])"

definition quote :: "byte list \<Rightarrow> byte list" where
  "quote bs = 34 # concat (map escape bs) @ [34]"

lemma recognize_string_escape:
  assumes "b \<noteq> 92" and "p + length (escape b) < 4096" and "length (current_string s) < 4096"
  shows "recognize_string (place (escape b @ bs) p s) =
    recognize_string (place bs (p + length (escape b)) (s\<lparr>current_string := current_string s @ [b]\<rparr>))"
  using assms
  by (subst recognize_string.simps) (auto simp: escape_def metachar_def store_char_def uint_byte_eq)

lemma recognize_string_body:
  assumes "92 \<notin> set str"
    and "p + length (concat (map escape str)) + 1 < 4096"
    and "length (current_string s) + length str < 4096"
  shows "recognize_string (place (concat (map escape str) @ 34 # bs) p s) =
    Inr (place bs (p + length (concat (map escape str)) + 1)
           (s\<lparr>current_string := current_string s @ str, current_token := STRING\<rparr>))"
  using assms
proof (induction str arbitrary: p s)
  case Nil
  then show ?case by (subst recognize_string.simps) (simp add: end_string_def)
next
  case (Cons b str)
  then show ?case
    by (simp add: recognize_string_escape ac_simps)
qed

lemma get_next_token_string:
  assumes "92 \<notin> set str" and "p + length (quote str) < 4096" and "length str < 4096"
  shows "get_next_token (place (quote str @ bs) p s) =
    Inr (place bs (p + length (quote str)) (s\<lparr>current_string := str, current_token := STRING\<rparr>))"
  using assms
  by (simp add: get_next_token_def is_ws_def scan_token_def quote_def recognize_string_body)

section \<open>Numbers\<close>

definition starts :: "(byte \<Rightarrow> bool) \<Rightarrow> byte list \<Rightarrow> bool" where
  "starts P bs = (case bs of [] \<Rightarrow> False | b # _ \<Rightarrow> P b)"

definition is_digit :: "byte \<Rightarrow> bool" where
  "is_digit b \<longleftrightarrow> 48 \<le> uint b \<and> uint b \<le> 57"

definition is_hex_digit :: "byte \<Rightarrow> bool" where
  "is_hex_digit b \<longleftrightarrow> hex_digit (uint b) \<noteq> None"

text \<open>What a sequence of digits makes of a start value.\<close>

definition accumulate :: "int \<Rightarrow> int \<Rightarrow> int list \<Rightarrow> int" where
  "accumulate base = foldl (\<lambda>v d. v * base + d)"

lemma accumulate_simps [simp]:
  "accumulate base v [] = v" "accumulate base v (d # ds) = accumulate base (v * base + d) ds"
  by (simp_all add: accumulate_def)

lemma accumulate_mono:
  assumes "0 \<le> v" and "1 \<le> base" and "\<forall>d \<in> set ds. 0 \<le> d"
  shows "v \<le> accumulate base v ds"
  using assms
proof (induction ds arbitrary: v)
  case (Cons d ds)
  have "v \<le> v * base" using Cons.prems by (simp add: mult_le_cancel_left1)
  then have "v \<le> v * base + d" using Cons.prems by simp
  moreover have "v * base + d \<le> accumulate base (v * base + d) ds"
    using Cons.prems calculation by (intro Cons.IH) auto
  ultimately show ?case by simp
qed simp

lemma accumulate_power: "accumulate base v ds = v * base ^ length ds + accumulate base 0 ds"
proof (induction ds arbitrary: v)
  case (Cons d ds)
  show ?case
    using Cons.IH [of "v * base + d"] Cons.IH [of d] by (simp add: algebra_simps)
qed simp

lemma add_digit_ok:
  assumes "0 \<le> current_integer s" and "1 \<le> base" and "0 \<le> d"
    and "current_integer s * base + d < 2 ^ 63"
  shows "add_digit base d s = Inr (s\<lparr>current_integer := current_integer s * base + d\<rparr>)"
  using assms by (auto simp: add_digit_def in_long_range_def Let_def intro: order_trans [of _ 0])

lemma add_digit_place [simp]:
  "add_digit base d (place bs p s) =
     bind_res (add_digit base d s) (\<lambda>s. Inr (place bs p s))"
  by (simp add: add_digit_def Let_def)

lemma recognize_decimal_digits:
  assumes "\<forall>b \<in> set ds. is_digit b" and "\<not> starts is_digit bs" and "p + length ds < 4096"
    and "0 \<le> current_integer s"
    and "accumulate 10 (current_integer s) (map (\<lambda>b. uint b - 48) ds) < 2 ^ 63"
  shows "recognize_decimal (place (ds @ bs) p s) =
    Inr (place bs (p + length ds) (s\<lparr>current_integer := accumulate 10
       (current_integer s) (map (\<lambda>b. uint b - 48) ds), current_token := INTEGER\<rparr>))"
  using assms
proof (induction ds arbitrary: p s)
  case Nil
  then show ?case
    by (subst recognize_decimal.simps) (auto simp: starts_def is_digit_def split: list.splits)
next
  case (Cons b ds)
  let ?v = "current_integer s * 10 + (uint b - 48)"
  have digit: "48 \<le> uint b" "uint b \<le> 57"
    using Cons.prems by (auto simp: is_digit_def)
  have "?v \<le> accumulate 10 ?v (map (\<lambda>b. uint b - 48) ds)"
    using Cons.prems digit by (intro accumulate_mono) (auto simp: is_digit_def)
  then have "add_digit 10 (uint b - 48) s = Inr (s\<lparr>current_integer := ?v\<rparr>)"
    using Cons.prems digit by (intro add_digit_ok) auto
  moreover have "0 \<le> ?v" using Cons.prems digit by simp
  ultimately show ?case
    using Cons.prems digit Cons.IH [of "p + 1" "s\<lparr>current_integer := ?v\<rparr>"]
    by (subst recognize_decimal.simps) simp
qed

lemma recognize_hex_digits:
  assumes "\<forall>b \<in> set ds. is_hex_digit b" and "\<not> starts is_hex_digit bs" and "p + length ds < 4096"
    and "0 \<le> current_integer s"
    and "accumulate 16 (current_integer s) (map (\<lambda>b. the (hex_digit (uint b))) ds) < 2 ^ 63"
  shows "recognize_hex (place (ds @ bs) p s) =
    Inr (place bs (p + length ds) (s\<lparr>current_integer := accumulate 16
       (current_integer s) (map (\<lambda>b. the (hex_digit (uint b))) ds), current_token := INTEGER\<rparr>))"
  using assms
proof (induction ds arbitrary: p s)
  case Nil
  then have "hex_digit (cur (place bs p s)) = None"
    by (cases bs) (auto simp: starts_def is_hex_digit_def hex_digit_def)
  with Nil show ?case
    by (subst recognize_hex.simps) simp
next
  case (Cons b ds)
  obtain d where d: "hex_digit (uint b) = Some d"
    using Cons.prems by (auto simp: is_hex_digit_def)
  have nonneg: "0 \<le> e" if "hex_digit (uint c) = Some e" for c :: byte and e
    using that by (auto simp: hex_digit_def split: if_splits)
  let ?v = "current_integer s * 16 + d"
  have "?v \<le> accumulate 16 ?v (map (\<lambda>b. the (hex_digit (uint b))) ds)"
    using Cons.prems nonneg d by (intro accumulate_mono) (auto simp: is_hex_digit_def)
  then have "add_digit 16 d s = Inr (s\<lparr>current_integer := ?v\<rparr>)"
    using Cons.prems d nonneg [OF d] by (intro add_digit_ok) auto
  moreover have "0 \<le> ?v" using Cons.prems nonneg [OF d] by simp
  ultimately show ?case
    using Cons.prems d Cons.IH [of "p + 1" "s\<lparr>current_integer := ?v\<rparr>"]
    by (subst recognize_hex.simps) simp
qed

lemma get_next_token_decimal:
  assumes "ds \<noteq> []" and "hd ds \<noteq> 48" and "\<forall>b \<in> set ds. is_digit b" and "\<not> starts is_digit bs"
    and "p + length ds < 4096" and "0 \<le> current_integer s"
    and "accumulate 10 (current_integer s) (map (\<lambda>b. uint b - 48) ds) < 2 ^ 63"
  shows "get_next_token (place (ds @ bs) p s) =
    Inr (place bs (p + length ds) (s\<lparr>current_integer := accumulate 10
       (current_integer s) (map (\<lambda>b. uint b - 48) ds), current_token := INTEGER\<rparr>))"
proof -
  obtain b ds' where ds: "ds = b # ds'" using assms(1) by (cases ds) auto
  have b: "48 \<le> uint b" "uint b \<le> 57" "uint b \<noteq> 48"
    using assms ds by (auto simp: is_digit_def uint_byte_eq)
  then have "get_next_token (place (ds @ bs) p s) = recognize_decimal (place (ds @ bs) p s)"
    by (auto simp: get_next_token_def is_ws_def scan_token_def ds)
  with recognize_decimal_digits [OF assms(3-7)] show ?thesis by simp
qed

lemma get_next_token_hex:
  assumes "\<forall>b \<in> set ds. is_hex_digit b" and "\<not> starts is_hex_digit bs"
    and "p + length ds + 2 < 4096" and "0 \<le> current_integer s"
    and "accumulate 16 (current_integer s) (map (\<lambda>b. the (hex_digit (uint b))) ds) < 2 ^ 63"
  shows "get_next_token (place (48 # 120 # ds @ bs) p s) =
    Inr (place bs (p + length ds + 2) (s\<lparr>current_integer := accumulate 16
       (current_integer s) (map (\<lambda>b. the (hex_digit (uint b))) ds), current_token := INTEGER\<rparr>))"
  using assms recognize_hex_digits [OF assms(1,2), of "Suc (Suc p)" s]
  by (simp add: get_next_token_def is_ws_def scan_token_def determine_base_def)

section \<open>The input that is left\<close>

definition rest :: "scanner \<Rightarrow> nat" where
  "rest s = length (stdin s) + (if cur s = EOF then 0 else 1)"

lemma rest_upd [simp]:
  "rest (s\<lparr>current_token := t\<rparr>) = rest s" "rest (s\<lparr>current_string := str\<rparr>) = rest s"
  "rest (s\<lparr>current_integer := i\<rparr>) = rest s"
  by (simp_all add: rest_def)

lemma nextchar_rest:
  assumes "nextchar s = Inr s'"
  shows "rest s' \<le> rest s" "cur s \<noteq> EOF \<Longrightarrow> rest s' < rest s"
    "current_token s' = current_token s" "current_string s' = current_string s"
  using assms by (auto simp: nextchar_def rest_def split: if_splits list.splits)

lemma add_digit_rest:
  assumes "add_digit base d s = Inr s'" shows "rest s' = rest s" "cur s' = cur s"
  using assms by (auto simp: add_digit_def Let_def split: if_splits)

lemma store_char_rest:
  assumes "store_char c s = Inr s'"
  shows "rest s' = rest s" "cur s' = cur s" "length (current_string s') = Suc (length (current_string s))"
  using assms by (auto simp: store_char_def split: if_splits)

text \<open>A step that shrinks the input, followed by one that does not grow it.\<close>

lemma rest_step:
  "nextchar s1 = Inr s2 \<Longrightarrow> rest s1 \<le> rest s \<Longrightarrow> rest s' \<le> rest s2 \<Longrightarrow> rest s' \<le> rest s"
  using nextchar_rest(1) by fastforce

lemmas rest_intros = rest_step [OF _ order_refl] rest_step

lemma eat_whitespace_rest: "eat_whitespace s = Inr s' \<Longrightarrow> rest s' \<le> rest s"
proof (induction s rule: eat_whitespace.induct)
  case (1 s)
  then show ?case
    by (subst (asm) (2) eat_whitespace.simps)
      (auto simp: bind_res_eq_Inr intro: rest_intros split: if_splits)
qed

lemma recognize_decimal_rest: "recognize_decimal s = Inr s' \<Longrightarrow> rest s' \<le> rest s"
proof (induction s rule: recognize_decimal.induct)
  case (1 s)
  then show ?case
    by (subst (asm) (2) recognize_decimal.simps)
      (auto simp: bind_res_eq_Inr add_digit_rest intro: rest_intros split: if_splits)
qed

lemma recognize_octal_rest: "recognize_octal s = Inr s' \<Longrightarrow> rest s' \<le> rest s"
proof (induction s rule: recognize_octal.induct)
  case (1 s)
  show ?case
    using 1(2)
    by (subst (asm) recognize_octal.simps)
      (auto simp: bind_res_eq_Inr add_digit_rest invalid_character_def dest: 1(1) [OF conjI]
        intro: rest_intros split: if_splits)
qed

lemma recognize_hex_rest: "recognize_hex s = Inr s' \<Longrightarrow> rest s' \<le> rest s"
proof (induction s rule: recognize_hex.induct)
  case (1 s)
  then show ?case
    by (subst (asm) (2) recognize_hex.simps)
      (auto simp: bind_res_eq_Inr add_digit_rest intro: rest_intros split: option.splits)
qed

lemma recognize_string_rest: "recognize_string s = Inr s' \<Longrightarrow> rest s' \<le> rest s"
proof (induction s rule: recognize_string.induct)
  case (1 s)
  show ?case
  proof (cases "cur s = 92")
    case True
    then obtain s1 m s2 s3 where step: "nextchar s = Inr s1" "metachar (cur s1) = Some m"
      "cur s1 \<noteq> EOF" "store_char m s1 = Inr s2" "nextchar s2 = Inr s3"
      "recognize_string s3 = Inr s'"
      using 1(3)
      by (subst (asm) recognize_string.simps)
        (auto simp: bind_res_eq_Inr unterminated_string_def invalid_character_def
          split: if_splits option.splits)
    have "rest s' \<le> rest s3"
      by (rule 1(1) [OF _ _ True step(1) step(3) step(2) step(4) step(5) step(6)]) (simp_all add: True)
    then show ?thesis
      using nextchar_rest(1) [OF step(1)] nextchar_rest(1) [OF step(5)]
        store_char_rest(1) [OF step(4)] by simp
  next
    case False
    then show ?thesis
      using 1(3)
      by (subst (asm) recognize_string.simps)
        (auto simp: bind_res_eq_Inr store_char_rest end_string_def unterminated_string_def
          dest: 1(2) intro: rest_intros split: if_splits)
  qed
qed

lemma recognize_identifier_rest:
  "recognize_identifier s = Inr s' \<Longrightarrow>
     rest s' \<le> rest s \<and> (current_string s' = current_string s \<or> rest s' < rest s)"
proof (induction s rule: recognize_identifier.induct)
  case (1 s)
  show ?case
  proof (cases "is_identifier_char (cur s)")
    case True
    then obtain s1 s2 where step: "store_char (cur s) s = Inr s1" "nextchar s1 = Inr s2"
      "recognize_identifier s2 = Inr s'"
      using 1(2) by (subst (asm) recognize_identifier.simps) (auto simp: bind_res_eq_Inr)
    have "cur s1 \<noteq> EOF"
      using True store_char_rest(2) [OF step(1)] by (auto simp: is_identifier_char_def)
    then have "rest s2 < rest s"
      using nextchar_rest(2) [OF step(2)] store_char_rest(1) [OF step(1)] by simp
    moreover have "rest s' \<le> rest s2"
      using 1(1) [OF True step] by blast
    ultimately show ?thesis by simp
  next
    case False
    then show ?thesis
      using 1(2)
      by (subst (asm) recognize_identifier.simps)
        (auto simp: bind_res_eq_Inr end_string_def check_for_keyword_def invalid_character_def
          split: if_splits)
  qed
qed

lemma check_for_keyword_rest [simp]: "rest (check_for_keyword s) = rest s"
  by (simp add: check_for_keyword_def)

lemma recognize_decimal_less:
  assumes "recognize_decimal s = Inr s'" and "49 \<le> cur s" and "cur s \<le> 57"
  shows "rest s' < rest s"
proof -
  obtain s1 s2 where step: "add_digit 10 (cur s - 48) s = Inr s1" "nextchar s1 = Inr s2"
    "recognize_decimal s2 = Inr s'"
    using assms by (subst (asm) recognize_decimal.simps) (auto simp: bind_res_eq_Inr)
  have "cur s1 \<noteq> EOF" using add_digit_rest(2) [OF step(1)] assms by simp
  then show ?thesis
    using nextchar_rest(2) [OF step(2)] add_digit_rest(1) [OF step(1)]
      recognize_decimal_rest [OF step(3)] by simp
qed

lemma determine_base_less:
  assumes "determine_base s = Inr s'" and "cur s \<noteq> EOF"
  shows "rest s' < rest s"
  using assms
  by (auto simp: determine_base_def bind_res_eq_Inr invalid_character_def
      dest!: recognize_hex_rest recognize_octal_rest nextchar_rest(1) nextchar_rest(2) [OF _ assms(2)]
      split: if_splits)

definition solid :: "int \<Rightarrow> bool" where
  "solid t \<longleftrightarrow> t \<noteq> EOI \<and> t \<noteq> IDENTIFIER"

lemma recognize_identifier_solid:
  assumes "recognize_identifier s = Inr s'" and "current_string s = []" and "solid (current_token s')"
  shows "rest s' < rest s"
proof -
  have "current_string s' \<noteq> [] \<or> current_token s' = IDENTIFIER"
    using assms(1)
  proof (induction s rule: recognize_identifier.induct)
    case (1 s)
    show ?case
      using 1(2)
      by (subst (asm) recognize_identifier.simps)
        (auto simp: bind_res_eq_Inr end_string_def check_for_keyword_def invalid_character_def
          dest: 1(1) split: if_splits)
  qed
  then show ?thesis
    using recognize_identifier_rest [OF assms(1)] assms(2,3) by (auto simp: solid_def)
qed

lemma scan_token_rest:
  assumes "scan_token s = Inr s'"
  shows "rest s' \<le> rest s" "solid (current_token s') \<Longrightarrow> rest s' < rest s"
proof -
  consider "cur s = EOF" | "cur s = 34" | "cur s \<in> {123, 125, 91, 93, 58, 44}" | "cur s = 48"
    | "49 \<le> cur s \<and> cur s \<le> 57"
    | "\<not> (cur s = EOF \<or> cur s = 34 \<or> cur s \<in> {123, 125, 91, 93, 58, 44} \<or> cur s = 48
        \<or> (49 \<le> cur s \<and> cur s \<le> 57))"
    by blast
  then have "rest s' \<le> rest s \<and> (solid (current_token s') \<longrightarrow> rest s' < rest s)"
  proof cases
    case 1
    then show ?thesis using assms by (auto simp: scan_token_def solid_def)
  next
    case 2
    then obtain s1 where "nextchar (s\<lparr>current_string := []\<rparr>) = Inr s1" "recognize_string s1 = Inr s'"
      using assms by (auto simp: scan_token_def bind_res_eq_Inr)
    with 2 have "rest s' < rest s"
      by (auto dest!: recognize_string_rest nextchar_rest(2))
    then show ?thesis by simp
  next
    case 3
    with assms have "nextchar (s\<lparr>current_token := cur s\<rparr>) = Inr s'" "cur s \<noteq> EOF"
      by (auto simp: scan_token_def)
    then show ?thesis by (auto dest!: nextchar_rest(2))
  next
    case 4
    with assms have "determine_base s = Inr s'" by (simp add: scan_token_def)
    with 4 show ?thesis by (auto dest!: determine_base_less)
  next
    case 5
    with assms have "recognize_decimal s = Inr s'" by (auto simp: scan_token_def)
    with 5 show ?thesis by (auto dest!: recognize_decimal_less)
  next
    case 6
    with assms have "recognize_identifier (s\<lparr>current_string := []\<rparr>) = Inr s'"
      by (auto simp: scan_token_def split: if_splits)
    then show ?thesis
      using recognize_identifier_rest recognize_identifier_solid by fastforce
  qed
  then show "rest s' \<le> rest s" "solid (current_token s') \<Longrightarrow> rest s' < rest s" by simp_all
qed

lemma get_next_token_rest:
  assumes "get_next_token s = Inr s'"
  shows "rest s' \<le> rest s" "solid (current_token s') \<Longrightarrow> rest s' < rest s"
  using assms
  by (fastforce simp: get_next_token_def bind_res_eq_Inr split: if_splits
      dest: scan_token_rest eat_whitespace_rest)+

text \<open>What the parser can still consume.\<close>

definition potential :: "scanner \<Rightarrow> nat" where
  "potential s = 2 * rest s + (if solid (current_token s) then 1 else 0)"

lemma token_potential:
  assumes "token t s = Inr (True, s')" and "solid t"
  shows "potential s' < potential s"
  using assms
  by (auto simp: token_def potential_def bind_res_eq_Inr split: if_splits
      dest: get_next_token_rest)

section \<open>Memory safety\<close>

text \<open>
  The array \<open>input\<close> has room for what is read and what is left, and the string under construction
  is shorter than what has been read.
\<close>

definition fits :: "nat \<Rightarrow> scanner \<Rightarrow> bool" where
  "fits B s \<longleftrightarrow> input_pos s + rest s \<le> B \<and> length (current_string s) < input_pos s
     \<and> in_long_range (current_integer s) \<and> in_long_range (current_token s)"

lemma nextchar_fits:
  assumes "fits B s" and "B \<le> 4095" and "cur s \<noteq> EOF"
  shows "safe (fits B) (nextchar s)"
  using assms by (auto simp: nextchar_def fits_def rest_def split: list.splits)

lemma in_long_range_numeral [simp]:
  "in_long_range 0" "in_long_range ERROR" "in_long_range EOI" "in_long_range INTEGER"
  "in_long_range STRING" "in_long_range IDENTIFIER" "in_long_range KEYWORD_NULL"
  "in_long_range KEYWORD_TRUE" "in_long_range KEYWORD_FALSE"
  by (simp_all add: in_long_range_def)

lemma fits_upd [simp]:
  "fits B s \<Longrightarrow> in_long_range t \<Longrightarrow> fits B (s\<lparr>current_token := t\<rparr>)"
  "fits B s \<Longrightarrow> in_long_range i \<Longrightarrow> fits B (s\<lparr>current_integer := i\<rparr>)"
  "fits B s \<Longrightarrow> fits B (s\<lparr>current_string := []\<rparr>)"
  by (auto simp: fits_def)

lemma add_digit_fits: "fits B s \<Longrightarrow> safe (\<lambda>s'. fits B s' \<and> cur s' = cur s) (add_digit base d s)"
  by (auto simp: add_digit_def Let_def)

lemma store_nextchar_fits:
  assumes "fits B s" and "B \<le> 4095" and "cur s \<noteq> EOF"
  shows "safe (fits B) (bind_res (store_char c s) nextchar)"
  using assms by (auto simp: store_char_def nextchar_def fits_def rest_def split: list.splits)

lemma eat_whitespace_fits:
  assumes "fits B s" and "B \<le> 4095" and "is_ws (cur s)"
  shows "safe (fits B) (eat_whitespace s)"
  using assms
proof (induction s rule: eat_whitespace.induct)
  case (1 s)
  show ?case
    by (subst eat_whitespace.simps, rule safe_bind [where Q = "fits B"])
      (use 1 in \<open>auto simp: is_ws_def intro: nextchar_fits\<close>)
qed

lemma recognize_decimal_fits:
  assumes "fits B s" and "B \<le> 4095"
  shows "safe (fits B) (recognize_decimal s)"
  using assms
proof (induction s rule: recognize_decimal.induct)
  case (1 s)
  show ?case
  proof (cases "48 \<le> cur s \<and> cur s \<le> 57")
    case True
    then show ?thesis
      by (subst recognize_decimal.simps, simp, intro safe_bind [OF add_digit_fits]
          safe_bind [OF nextchar_fits] 1) (use 1(2,3) True in auto)
  next
    case False
    with 1(2) show ?thesis by (subst recognize_decimal.simps) auto
  qed
qed


lemma recognize_hex_fits:
  assumes "fits B s" and "B \<le> 4095"
  shows "safe (fits B) (recognize_hex s)"
  using assms
proof (induction s rule: recognize_hex.induct)
  case (1 s)
  show ?case
  proof (cases "hex_digit (cur s)")
    case (Some d)
    then have "cur s \<noteq> EOF" by (auto simp: hex_digit_def)
    with Some show ?thesis
      by (subst recognize_hex.simps, simp, intro safe_bind [OF add_digit_fits]
          safe_bind [OF nextchar_fits] 1) (use 1(2,3) in auto)
  next
    case None
    with 1(2) show ?thesis by (subst recognize_hex.simps) auto
  qed
qed

lemma recognize_octal_fits:
  assumes "fits B s" and "B \<le> 4095"
  shows "safe (fits B) (recognize_octal s)"
  using assms
proof (induction s rule: recognize_octal.induct)
  case (1 s)
  show ?case
  proof (cases "48 \<le> cur s \<and> cur s \<le> 55")
    case True
    then show ?thesis
      by (subst recognize_octal.simps, simp, intro safe_bind [OF add_digit_fits]
          safe_bind [OF nextchar_fits] 1) (use 1(2,3) True in auto)
  next
    case False
    with 1(2) show ?thesis
      by (subst recognize_octal.simps) (auto simp: invalid_character_def)
  qed
qed

lemma recognize_string_fits:
  assumes "fits B s" and "B \<le> 4095"
  shows "safe (fits B) (recognize_string s)"
  using assms
proof (induction s rule: recognize_string.induct)
  case (1 s)
  note fit = \<open>fits B s\<close> \<open>B \<le> 4095\<close>
  consider "cur s = EOF" | "cur s = 34" | "cur s = 92"
    | "cur s \<noteq> EOF \<and> cur s \<noteq> 34 \<and> cur s \<noteq> 92" by blast
  then show ?case
  proof cases
    case 1
    then show ?thesis by (subst recognize_string.simps) (simp add: unterminated_string_def)
  next
    case 2
    have "safe (fits B) (nextchar s)" using fit 2 by (intro nextchar_fits) auto
    then have "safe (fits B) (bind_res (nextchar s) (\<lambda>s2. Inr (s2\<lparr>current_token := STRING\<rparr>)))"
      by (rule safe_bind) simp
    moreover have "length (current_string s) < 4096" using fit by (simp add: fits_def)
    ultimately show ?thesis
      using 2 by (subst recognize_string.simps) (simp add: end_string_def)
  next
    case 3
    have "safe (fits B) (nextchar s)" using fit 3 by (intro nextchar_fits) auto
    moreover have "safe (fits B) (bind_res (store_char m s1) (\<lambda>s2. bind_res (nextchar s2) recognize_string))"
      if s1: "nextchar s = Inr s1" "fits B s1" and m: "cur s1 \<noteq> EOF" "metachar (cur s1) = Some m" for s1 m
    proof -
      have "safe (fits B) (bind_res (bind_res (store_char m s1) nextchar) recognize_string)"
      proof (rule safe_bind [OF store_nextchar_fits [OF s1(2) fit(2) m(1)]])
        fix s3 assume "bind_res (store_char m s1) nextchar = Inr s3" and f: "fits B s3"
        then obtain s2 where s2: "store_char m s1 = Inr s2" "nextchar s2 = Inr s3"
          by (auto simp: bind_res_eq_Inr)
        show "safe (fits B) (recognize_string s3)"
          by (rule "1.IH"(1) [OF _ _ 3 s1(1) m(1) m(2) s2 f fit(2)]) (simp_all add: 3)
      qed
      then show ?thesis by (simp add: bind_res_assoc)
    qed
    ultimately show ?thesis
      using 3
      by (subst recognize_string.simps)
        (auto simp: unterminated_string_def invalid_character_def intro!: safe_bind split: option.split)
  next
    case 4
    have "safe (fits B) (bind_res (bind_res (store_char (cur s) s) nextchar) recognize_string)"
    proof (rule safe_bind [OF store_nextchar_fits [OF fit]])
      fix s3 assume "bind_res (store_char (cur s) s) nextchar = Inr s3" and f: "fits B s3"
      then obtain s2 where s2: "store_char (cur s) s = Inr s2" "nextchar s2 = Inr s3"
        by (auto simp: bind_res_eq_Inr)
      show "safe (fits B) (recognize_string s3)"
        by (rule "1.IH"(2) [OF _ _ _ s2 f fit(2)]) (simp_all add: 4)
    qed (simp add: 4)
    with 4 show ?thesis
      by (subst recognize_string.simps) (simp add: bind_res_assoc)
  qed
qed

lemma recognize_identifier_fits:
  assumes "fits B s" and "B \<le> 4095"
  shows "safe (fits B) (recognize_identifier s)"
  using assms
proof (induction s rule: recognize_identifier.induct)
  case (1 s)
  note fit = \<open>fits B s\<close> \<open>B \<le> 4095\<close>
  show ?case
  proof (cases "is_identifier_char (cur s)")
    case True
    have "safe (fits B) (bind_res (bind_res (store_char (cur s) s) nextchar) recognize_identifier)"
    proof (rule safe_bind [OF store_nextchar_fits [OF fit]])
      fix s3 assume "bind_res (store_char (cur s) s) nextchar = Inr s3" and f: "fits B s3"
      then obtain s2 where s2: "store_char (cur s) s = Inr s2" "nextchar s2 = Inr s3"
        by (auto simp: bind_res_eq_Inr)
      show "safe (fits B) (recognize_identifier s3)"
        by (rule "1.IH" [OF True s2 f fit(2)])
    qed (use True in \<open>auto simp: is_identifier_char_def\<close>)
    with True show ?thesis
      by (subst recognize_identifier.simps) (simp add: bind_res_assoc)
  next
    case False
    have "fits B (check_for_keyword (s\<lparr>current_token := IDENTIFIER\<rparr>))"
      using fit by (simp add: check_for_keyword_def)
    moreover have "length (current_string s) < 4096" using fit by (simp add: fits_def)
    ultimately show ?thesis
      using False
      by (subst recognize_identifier.simps) (simp add: end_string_def invalid_character_def)
  qed
qed

lemma determine_base_fits:
  assumes "fits B s" and "B \<le> 4095" and "cur s \<noteq> EOF"
  shows "safe (fits B) (determine_base s)"
  unfolding determine_base_def
proof (rule safe_bind [OF nextchar_fits [OF assms]])
  fix s1 assume f: "fits B s1"
  have "safe (fits B) (bind_res (nextchar s1) recognize_hex)" if "cur s1 = 120"
    using that f assms(2) by (intro safe_bind [OF nextchar_fits] recognize_hex_fits) auto
  then show "safe (fits B)
      (if cur s1 = 120 then bind_res (nextchar s1) recognize_hex
       else if 48 \<le> cur s1 \<and> cur s1 \<le> 55 then recognize_octal s1
       else if cur s1 = 56 \<or> cur s1 = 57 then invalid_character (cur s1)
       else Inr (s1\<lparr>current_integer := 0, current_token := INTEGER\<rparr>))"
    using f assms(2) by (simp add: invalid_character_def recognize_octal_fits)
qed

lemma scan_token_fits:
  assumes "fits B s" and "B \<le> 4095"
  shows "safe (fits B) (scan_token s)"
proof -
  have "safe (fits B) (bind_res (nextchar (s\<lparr>current_string := []\<rparr>)) recognize_string)" if "cur s = 34"
    using that assms by (intro safe_bind [OF nextchar_fits] recognize_string_fits) auto
  moreover have "safe (fits B) (nextchar (s\<lparr>current_token := cur s\<rparr>))" if "cur s \<in> {123, 125, 91, 93, 58, 44}"
    using that assms by (intro nextchar_fits) (auto simp: in_long_range_def)
  ultimately show ?thesis
    using assms
    by (simp add: scan_token_def determine_base_fits recognize_decimal_fits recognize_identifier_fits)
qed

lemma get_next_token_fits:
  assumes "fits B s" and "B \<le> 4095"
  shows "safe (fits B) (get_next_token s)"
  using assms
  by (auto simp: get_next_token_def scan_token_fits intro!: safe_bind [OF eat_whitespace_fits])

section \<open>Reports\<close>

lemma length_nat_text: "n < 10 ^ Suc k \<Longrightarrow> length (nat_text n) \<le> Suc k"
proof (induction k arbitrary: n)
  case (Suc k)
  then show ?case
    by (subst nat_text.simps) (auto simp: less_mult_imp_div_less mult.commute)
qed (simp add: nat_text.simps)

lemma length_int_text:
  assumes "in_long_range i" shows "length (int_text i) \<le> 20"
proof -
  have "length (nat_text n) \<le> Suc 18" if "n \<le> 2 ^ 63" for n :: nat
    using that by (intro length_nat_text) simp
  from this [of "nat (- i)"] this [of "nat i"] show ?thesis
    using assms by (force simp: int_text_def in_long_range_def)
qed

lemma report_token_safe:
  assumes "fits 4083 s"
  shows "safe (\<lambda>_. True) (report_token (current_token s) s)"
proof -
  have "length (takeWhile (\<lambda>b. b \<noteq> 0) (current_string s)) \<le> length (current_string s)"
    by (rule length_takeWhile_le)
  then have "length (takeWhile (\<lambda>b. b \<noteq> 0) (current_string s)) < 4083"
    using assms by (simp add: fits_def)
  moreover have "length (int_text (current_integer s)) \<le> 20" "length (int_text (current_token s)) \<le> 20"
    using assms by (simp_all add: fits_def length_int_text)
  ultimately show ?thesis
    by (simp add: report_token_def Let_def sprintf_4096_def bytes_of_def)
qed

lemma token_fits:
  assumes "fits B s" and "B \<le> 4095"
  shows "safe (\<lambda>(b, s). fits B s) (token t s)"
  using assms by (auto simp: token_def intro!: safe_bind [OF get_next_token_fits])

lemma required_fits:
  assumes "fits 4083 s"
  shows "safe (\<lambda>(b, s). fits 4083 s) (required b s)"
  using assms
  by (auto simp: required_def parse_error_def intro!: safe_bind [OF report_token_safe])

section \<open>Properties\<close>

text \<open>
  A quoted string without a backslash, its quotes, line feeds, carriage returns and tabs
  escaped, is scanned as one STRING token whose text is the string, and the scanner stands right
  after the closing quote.
\<close>

theorem string_token:
  assumes "92 \<notin> set str" and "p + length (quote str) < 4096" and "length str < 4096"
  shows "get_next_token (place (quote str @ bs) p s) =
    Inr (place bs (p + length (quote str)) (s\<lparr>current_string := str, current_token := STRING\<rparr>))"
  using assms by (rule get_next_token_string)

theorem string_token_witness:
  "get_next_token (place (34 # 97 # 92 # 110 # 92 # 34 # 34 # 44 # []) 1 (start_scanner [])) =
    Inr (place [44] 8 ((start_scanner [])\<lparr>current_string := [97, 10, 34], current_token := STRING\<rparr>))"
  using string_token [of "[97, 10, 34]" 1 "[44]" "start_scanner []"] by (simp add: quote_def escape_def)

text \<open>
  The array \<open>input\<close> is written without a check: enough white space runs past its end.
\<close>

lemma eat_whitespace_overrun:
  assumes "\<forall>b \<in> set bs. b = 32" and "4096 \<le> p + length bs" and "bs \<noteq> []"
  shows "eat_whitespace (place bs p s) = Inl Undefined"
  using assms
proof (induction bs arbitrary: p)
  case (Cons b bs)
  show ?case
  proof (cases "4095 \<le> p")
    case True
    then show ?thesis by (subst eat_whitespace.simps) simp
  next
    case False
    with Cons.prems obtain b' bs' where bs: "bs = b' # bs'" by (cases bs) auto
    with Cons False show ?thesis
      by (subst eat_whitespace.simps) (simp add: is_ws_def)
  qed
qed simp

end
