(* ===== verification/JsonParser.thy ===== *)
theory JsonParser
  imports JsonScanner
begin

text \<open>
  \<open>json.c\<close>: the recursive-descent recogniser. Each C function is one function of the same name
  that takes fuel and the scanner state and returns its truth value and the new state. \<open>||\<close> and
  \<open>&&\<close> are evaluated from the left and stop early, as in C.
\<close>

section \<open>The code\<close>

type_synonym parsed = "(bool \<times> scanner) run"

definition or_else :: "parsed \<Rightarrow> (scanner \<Rightarrow> parsed) \<Rightarrow> parsed" where
  "or_else p q = bind_run p (\<lambda>(b, s). if b then return_run (True, s) else q s)"

definition and_then :: "parsed \<Rightarrow> (scanner \<Rightarrow> parsed) \<Rightarrow> parsed" where
  "and_then p q = bind_run p (\<lambda>(b, s). if b then q s else return_run (False, s))"

text \<open>\<open>required( p )\<close>\<close>

definition require :: "parsed \<Rightarrow> parsed" where
  "require p = bind_run p (\<lambda>(b, s). Some (required b s))"

definition JSONNumber :: "scanner \<Rightarrow> parsed" where
  "JSONNumber s = Some (token INTEGER s)"

definition JSONString :: "scanner \<Rightarrow> parsed" where
  "JSONString s = Some (token STRING s)"

definition JSONBoolean :: "scanner \<Rightarrow> parsed" where
  "JSONBoolean s = or_else (Some (token KEYWORD_TRUE s)) (\<lambda>s. Some (token KEYWORD_FALSE s))"

definition recognized_JSONObject :: "scanner \<Rightarrow> parsed" where
  "recognized_JSONObject s = return_run (True, s)"

fun JSONValue :: "nat \<Rightarrow> scanner \<Rightarrow> parsed"
  and JSONObject :: "nat \<Rightarrow> scanner \<Rightarrow> parsed"
  and JSONArray :: "nat \<Rightarrow> scanner \<Rightarrow> parsed"
  and JSONObjectMembers :: "nat \<Rightarrow> scanner \<Rightarrow> parsed"
  and JSONArrayMembers :: "nat \<Rightarrow> scanner \<Rightarrow> parsed"
  and JSONMemberList :: "nat \<Rightarrow> scanner \<Rightarrow> parsed"
  and member_loop :: "nat \<Rightarrow> scanner \<Rightarrow> parsed"
  and JSONList :: "nat \<Rightarrow> scanner \<Rightarrow> parsed"
  and list_loop :: "nat \<Rightarrow> scanner \<Rightarrow> parsed"
  and JSONMember :: "nat \<Rightarrow> scanner \<Rightarrow> parsed" where
  "JSONValue 0 s = None"
| "JSONValue (Suc n) s =
     or_else (JSONObject n s) (\<lambda>s.
     or_else (JSONArray n s) (\<lambda>s.
     or_else (JSONNumber s) (\<lambda>s.
     or_else (JSONBoolean s) (\<lambda>s.
     or_else (JSONString s) (\<lambda>s.
     Some (token KEYWORD_NULL s))))))"
| "JSONObject 0 s = None"
| "JSONObject (Suc n) s =
     and_then (Some (token 123 s)) (\<lambda>s.
     and_then (JSONObjectMembers n s) (\<lambda>s.
     and_then (require (Some (token 125 s))) recognized_JSONObject))"
| "JSONArray 0 s = None"
| "JSONArray (Suc n) s =
     and_then (Some (token 91 s)) (\<lambda>s.
     and_then (JSONArrayMembers n s) (\<lambda>s.
     require (Some (token 93 s))))"
| "JSONObjectMembers 0 s = None"
| "JSONObjectMembers (Suc n) s = or_else (JSONMemberList n s) (\<lambda>s. return_run (True, s))"
| "JSONArrayMembers 0 s = None"
| "JSONArrayMembers (Suc n) s = or_else (JSONList n s) (\<lambda>s. return_run (True, s))"
| "JSONMemberList 0 s = None"
| "JSONMemberList (Suc n) s = and_then (JSONMember n s) (\<lambda>s. member_loop n s)"
| "member_loop 0 s = None"
| "member_loop (Suc n) s =
     (if look_ahead 44 s then
        bind_run (Some (token 44 s)) (\<lambda>(b, s).
        bind_run (JSONMember n s) (\<lambda>(b, s).
          if b then member_loop n s else Some (parse_error ''trailing ,'')))
      else return_run (True, s))"
| "JSONList 0 s = None"
| "JSONList (Suc n) s = and_then (JSONValue n s) (\<lambda>s. list_loop n s)"
| "list_loop 0 s = None"
| "list_loop (Suc n) s =
     (if look_ahead 44 s then
        bind_run (Some (token 44 s)) (\<lambda>(b, s).
        bind_run (JSONValue n s) (\<lambda>(b, s).
          if b then list_loop n s else Some (parse_error ''trailing ,'')))
      else return_run (True, s))"
| "JSONMember 0 s = None"
| "JSONMember (Suc n) s =
     and_then (JSONString s) (\<lambda>s.
     and_then (require (Some (token 58 s))) (\<lambda>s.
     require (JSONValue n s)))"

definition JSONText :: "nat \<Rightarrow> scanner \<Rightarrow> parsed" where
  "JSONText n s = or_else (JSONValue n s) (\<lambda>s. Some (parse_error ''invalid value''))"

definition parse_json :: "nat \<Rightarrow> scanner \<Rightarrow> parsed" where
  "parse_json n s =
     res_run (init_scanner s) (\<lambda>s.
     res_run (get_next_token s) (\<lambda>s.
       and_then (JSONText n s) (\<lambda>s. require (Some (token EOI s)))))"

text \<open>\<open>main\<close> on a standard input: it returns 0 or exits.\<close>

definition main_json :: "nat \<Rightarrow> byte list \<Rightarrow> parsed" where
  "main_json n bs = parse_json n (start_scanner bs)"

section \<open>The grammar\<close>

datatype json =
    JNull
  | JBool bool
  | JNumber nat
  | JString "byte list"
  | JArray "json list"
  | JObject "(byte list \<times> json) list"

definition commas :: "'a \<Rightarrow> 'a list list \<Rightarrow> 'a list" where
  "commas c tss = (case tss of [] \<Rightarrow> [] | ts # tss \<Rightarrow> ts @ concat (map ((#) c) tss))"

fun toks :: "json \<Rightarrow> int list" where
  "toks JNull = [KEYWORD_NULL]"
| "toks (JBool b) = [if b then KEYWORD_TRUE else KEYWORD_FALSE]"
| "toks (JNumber n) = [INTEGER]"
| "toks (JString str) = [STRING]"
| "toks (JArray js) = 91 # commas 44 (map toks js) @ [93]"
| "toks (JObject ms) = 123 # commas 44 (map (\<lambda>m. STRING # 58 # toks (snd m)) ms) @ [125]"

text \<open>The scanner goes through the tokens \<open>ts\<close>, one call of \<open>get_next_token\<close> for each.\<close>

fun reads :: "int list \<Rightarrow> scanner \<Rightarrow> scanner option" where
  "reads [] s = Some s"
| "reads (t # ts) s =
     (if current_token s = t
      then case get_next_token s of Inl e \<Rightarrow> None | Inr s1 \<Rightarrow> reads ts s1
      else None)"

lemma reads_append: "reads (ts @ us) s = Option.bind (reads ts s) (reads us)"
  by (induction ts arbitrary: s) (auto split: sum.split)

lemma reads_Cons_Some:
  "reads (t # ts) s = Some s' \<longleftrightarrow>
     (\<exists>s1. current_token s = t \<and> get_next_token s = Inr s1 \<and> reads ts s1 = Some s')"
  by (auto split: sum.splits)

lemma reads_append_Some:
  "reads (ts @ us) s = Some s' \<longleftrightarrow> (\<exists>s1. reads ts s = Some s1 \<and> reads us s1 = Some s')"
  by (cases "reads ts s") (auto simp: reads_append)

declare reads.simps(2) [simp del]
lemmas reads_simps = reads_Cons_Some reads_append_Some

lemma token_True: "token t s = Inr (True, s') \<longleftrightarrow> current_token s = t \<and> get_next_token s = Inr s'"
  by (auto simp: token_def bind_res_eq_Inr)

lemma token_False: "token t s = Inr (False, s') \<longleftrightarrow> current_token s \<noteq> t \<and> s' = s"
  by (auto simp: token_def bind_res_eq_Inr)

lemma token_no [simp]: "current_token s \<noteq> t \<Longrightarrow> token t s = Inr (False, s)"
  by (simp add: token_def)

lemma token_yes [simp]:
  "get_next_token s = Inr s' \<Longrightarrow> current_token s = t \<Longrightarrow> token t s = Inr (True, s')"
  by (simp add: token_def)

lemma reads_potential:
  assumes "reads ts s = Some s'" and "\<forall>t \<in> set ts. solid t"
  shows "potential s' \<le> potential s" "ts \<noteq> [] \<Longrightarrow> potential s' < potential s"
proof -
  have "potential s' + length ts \<le> potential s"
    using assms
  proof (induction ts arbitrary: s)
    case (Cons t ts)
    then obtain s1 where "token t s = Inr (True, s1)" "reads ts s1 = Some s'"
      by (auto simp: reads_simps)
    then show ?case
      using Cons.IH [of s1] Cons.prems(2) token_potential [of t s s1] by simp
  qed simp
  then show "potential s' \<le> potential s" "ts \<noteq> [] \<Longrightarrow> potential s' < potential s"
    by (auto simp: Suc_le_eq [symmetric] simp flip: length_greater_0_conv)
qed

section \<open>What a recogniser does\<close>

text \<open>If it returns, it accepts and leaves the scanner in \<open>s'\<close>.\<close>

definition accepts :: "parsed \<Rightarrow> scanner \<Rightarrow> bool" where
  "accepts p s' \<longleftrightarrow> p = None \<or> p = Some (Inr (True, s'))"

definition rejects :: "parsed \<Rightarrow> scanner \<Rightarrow> bool" where
  "rejects p s \<longleftrightarrow> p = None \<or> p = Some (Inr (False, s))"

lemma accepts_simps [simp]:
  "accepts None s'" "accepts (Some (Inr (True, s1))) s' \<longleftrightarrow> s1 = s'"
  "\<not> accepts (Some (Inr (False, s1))) s'" "\<not> accepts (Some (Inl e)) s'"
  by (auto simp: accepts_def)

lemma or_else_simps [simp]:
  "or_else None q = None" "or_else (Some (Inr (True, s))) q = Some (Inr (True, s))"
  "or_else (Some (Inr (False, s))) q = q s" "or_else (Some (Inl e)) q = Some (Inl e)"
  by (simp_all add: or_else_def return_run_def)

lemma and_then_simps [simp]:
  "and_then None q = None" "and_then (Some (Inr (True, s))) q = q s"
  "and_then (Some (Inr (False, s))) q = Some (Inr (False, s))"
  "and_then (Some (Inl e)) q = Some (Inl e)"
  by (simp_all add: and_then_def return_run_def)

lemma require_simps [simp]:
  "require None = None" "require (Some (Inr (True, s))) = Some (Inr (True, s))"
  "require (Some (Inl e)) = Some (Inl e)"
  by (simp_all add: require_def required_def)

lemma require_False:
  "\<exists>e. require (Some (Inr (False, s))) = Some (Inl e)"
  by (cases "report_token (current_token s) s") (auto simp: require_def required_def parse_error_def)

lemma accepts_and_then:
  "accepts p s1 \<Longrightarrow> accepts (q s1) s' \<Longrightarrow> accepts (and_then p q) s'"
  by (auto simp: accepts_def)

lemma accepts_require: "accepts p s' \<Longrightarrow> accepts (require p) s'"
  by (auto simp: accepts_def)

lemma or_else_eq:
  "or_else p q = Some (Inr (b, s')) \<longleftrightarrow>
     (p = Some (Inr (True, s')) \<and> b) \<or> (\<exists>s1. p = Some (Inr (False, s1)) \<and> q s1 = Some (Inr (b, s')))"
  by (cases p; cases "the p"; cases "projr (the p)") (auto simp: or_else_def return_run_def)

lemma and_then_eq:
  "and_then p q = Some (Inr (b, s')) \<longleftrightarrow>
     (p = Some (Inr (False, s')) \<and> \<not> b) \<or> (\<exists>s1. p = Some (Inr (True, s1)) \<and> q s1 = Some (Inr (b, s')))"
  by (cases p; cases "the p"; cases "projr (the p)") (auto simp: and_then_def return_run_def)

lemma require_eq: "require p = Some (Inr (b, s')) \<longleftrightarrow> p = Some (Inr (True, s')) \<and> b"
proof -
  consider "p = None" | e where "p = Some (Inl e)" | s1 where "p = Some (Inr (True, s1))"
    | s1 where "p = Some (Inr (False, s1))"
    by (cases p; cases "the p"; cases "projr (the p)"; cases "fst (projr (the p))") auto
  then show ?thesis
  proof cases
    case 4
    then show ?thesis using require_False [of s1] by auto
  qed auto
qed

section \<open>Comma-separated lists\<close>

locale comma_list =
  fixes elem loop lst :: "nat \<Rightarrow> scanner \<Rightarrow> parsed"
  assumes loop_0: "loop 0 s = None"
    and loop_Suc: "loop (Suc n) s =
      (if look_ahead 44 s then
         bind_run (Some (token 44 s)) (\<lambda>(b, s).
         bind_run (elem n s) (\<lambda>(b, s).
           if b then loop n s else Some (parse_error ''trailing ,'')))
       else return_run (True, s))"
    and lst_0: "lst 0 s = None"
    and lst_Suc: "lst (Suc n) s = and_then (elem n s) (\<lambda>s. loop n s)"
begin

lemma loop_complete:
  assumes "\<And>m ts s s'. m < n \<Longrightarrow> E ts \<Longrightarrow> reads ts s = Some s' \<Longrightarrow> accepts (elem m s) s'"
    and "\<forall>ts \<in> set tss. E ts" and "reads (concat (map ((#) 44) tss)) s = Some s'"
    and "current_token s' \<noteq> 44"
  shows "accepts (loop n s) s'"
  using assms
proof (induction n arbitrary: tss s)
  case (Suc n)
  show ?case
  proof (cases tss)
    case Nil
    with Suc.prems show ?thesis by (simp add: loop_Suc look_ahead_def return_run_def)
  next
    case (Cons ts tss')
    then obtain s1 s2 where "current_token s = 44" "get_next_token s = Inr s1"
      "reads ts s1 = Some s2" and r: "reads (concat (map ((#) 44) tss')) s2 = Some s'"
      using Suc.prems(3) by (auto simp: reads_simps)
    moreover from this Cons have "accepts (elem n s1) s2"
      using Suc.prems(1) [of n ts s1 s2] Suc.prems(2) by simp
    moreover have "accepts (loop n s2) s'"
      by (rule Suc.IH [OF _ _ r Suc.prems(4)]) (use Suc.prems(2) Cons in \<open>auto intro: Suc.prems(1)\<close>)
    ultimately show ?thesis by (auto simp: loop_Suc look_ahead_def accepts_def)
  qed
qed (simp add: loop_0)

lemma lst_complete:
  assumes "\<And>m ts s s'. m < n \<Longrightarrow> E ts \<Longrightarrow> reads ts s = Some s' \<Longrightarrow> accepts (elem m s) s'"
    and "tss \<noteq> []" and "\<forall>ts \<in> set tss. E ts" and "reads (commas 44 tss) s = Some s'"
    and "current_token s' \<noteq> 44"
  shows "accepts (lst n s) s'"
proof (cases n)
  case (Suc m)
  obtain ts tss' where tss: "tss = ts # tss'" using assms(2) by (cases tss) auto
  then obtain s1 where s1: "reads ts s = Some s1" "reads (concat (map ((#) 44) tss')) s1 = Some s'"
    using assms(4) by (auto simp: commas_def reads_simps)
  have "accepts (elem m s) s1" using assms(1) [of m ts s s1] assms(3) Suc tss s1 by simp
  moreover have "accepts (loop m s1) s'"
    by (rule loop_complete [where E = E, OF _ _ s1(2) assms(5)], rule assms(1))
      (use assms(3) Suc tss in auto)
  ultimately show ?thesis by (simp add: Suc lst_Suc accepts_and_then)
qed (simp add: lst_0)

lemma loop_sound:
  assumes "\<And>m s s'. m < n \<Longrightarrow> elem m s = Some (Inr (True, s')) \<Longrightarrow> \<exists>ts. E ts \<and> reads ts s = Some s'"
    and "loop n s = Some (Inr (b, s'))"
  shows "b \<and> (\<exists>tss. (\<forall>ts \<in> set tss. E ts) \<and> reads (concat (map ((#) 44) tss)) s = Some s')"
  using assms
proof (induction n arbitrary: s)
  case (Suc n)
  show ?case
  proof (cases "current_token s = 44")
    case True
    then obtain s1 s2 where s1: "get_next_token s = Inr s1" "elem n s1 = Some (Inr (True, s2))"
      "loop n s2 = Some (Inr (b, s'))"
      using Suc.prems(2)
      by (auto simp: loop_Suc look_ahead_def token_def bind_run_eq_SomeInr res_run_eq_SomeInr
          parse_error_def bind_res_eq_Inr split: if_splits)
    obtain ts where ts: "E ts" "reads ts s1 = Some s2" using Suc.prems(1) s1(2) by blast
    obtain tss where tss: "b" "\<forall>ts \<in> set tss. E ts" "reads (concat (map ((#) 44) tss)) s2 = Some s'"
    proof -
      have "b \<and> (\<exists>tss. (\<forall>ts \<in> set tss. E ts) \<and> reads (concat (map ((#) 44) tss)) s2 = Some s')"
        by (rule Suc.IH [OF _ s1(3)], rule Suc.prems(1) [OF less_SucI])
      with that show ?thesis by blast
    qed
    have "reads (concat (map ((#) 44) (ts # tss))) s = Some s'"
      using True s1(1) ts(2) tss(3) by (auto simp: reads_simps)
    then show ?thesis using ts(1) tss(1,2) by (intro conjI exI [of _ "ts # tss"]) auto
  next
    case False
    with Suc.prems(2) show ?thesis
      by (auto simp: loop_Suc look_ahead_def return_run_def intro: exI [of _ "[]"])
  qed
qed (simp add: loop_0)

lemma lst_sound:
  assumes "\<And>m s s'. m < n \<Longrightarrow> elem m s = Some (Inr (True, s')) \<Longrightarrow> \<exists>ts. E ts \<and> reads ts s = Some s'"
    and "\<And>m s s'. m < n \<Longrightarrow> elem m s = Some (Inr (False, s')) \<Longrightarrow> s' = s"
    and "lst n s = Some (Inr (b, s'))"
  shows "if b then \<exists>tss. tss \<noteq> [] \<and> (\<forall>ts \<in> set tss. E ts) \<and> reads (commas 44 tss) s = Some s' else s' = s"
proof (cases n)
  case (Suc m)
  consider "elem m s = Some (Inr (False, s'))" "\<not> b"
    | s1 where "elem m s = Some (Inr (True, s1))" "loop m s1 = Some (Inr (b, s'))"
    using assms(3) by (auto simp: Suc lst_Suc and_then_eq)
  then show ?thesis
  proof cases
    case 1
    then show ?thesis using assms(2) Suc by auto
  next
    case 2
    obtain ts where ts: "E ts" "reads ts s = Some s1" using assms(1) [OF _ 2(1)] Suc by auto
    have "b \<and> (\<exists>tss. (\<forall>ts \<in> set tss. E ts) \<and> reads (concat (map ((#) 44) tss)) s1 = Some s')"
      by (rule loop_sound [where E = E, OF _ 2(2)], rule assms(1)) (use Suc in auto)
    then obtain tss where tss: "b" "\<forall>ts \<in> set tss. E ts" "reads (concat (map ((#) 44) tss)) s1 = Some s'"
      by blast
    have "reads (commas 44 (ts # tss)) s = Some s'"
      using ts(2) tss(3) by (auto simp: commas_def reads_simps)
    then show ?thesis using ts(1) tss(1,2) by (auto intro!: exI [of _ "ts # tss"])
  qed
qed (use assms(3) in \<open>simp add: lst_0\<close>)

lemma loop_returns:
  assumes "\<And>m s. m < n \<Longrightarrow> 6 * potential s + 8 \<le> m \<Longrightarrow> elem m s \<noteq> None"
    and "\<And>m s s'. m < n \<Longrightarrow> elem m s = Some (Inr (True, s')) \<Longrightarrow> potential s' < potential s"
    and "6 * potential s + 8 \<le> n"
  shows "loop n s \<noteq> None"
  using assms
proof (induction n arbitrary: s)
  case (Suc n)
  show ?case
  proof (cases "token 44 s")
    case (Inr r)
    obtain b s1 where r: "token 44 s = Inr (b, s1)" using Inr by (cases r) auto
    show ?thesis
    proof (cases b)
      case True
      have p: "potential s1 < potential s"
        using token_potential [of 44 s s1] r True by (simp add: solid_def)
      then have "elem n s1 \<noteq> None" using Suc.prems(1,3) by simp
      moreover have "loop n s2 \<noteq> None" if "elem n s1 = Some (Inr (True, s2))" for s2
      proof -
        have "potential s2 < potential s" using Suc.prems(2) [OF _ that] p by simp
        then show ?thesis
          using Suc.prems(3) by (intro Suc.IH Suc.prems(1) Suc.prems(2) [OF less_SucI]) auto
      qed
      ultimately show ?thesis
        using r True
        by (auto simp: loop_Suc return_run_def bind_run_eq_None res_run_eq_None
            simp del: not_None_eq not_Some_eq)
    next
      case False
      then show ?thesis using r by (auto simp: loop_Suc token_False look_ahead_def return_run_def)
    qed
  qed (simp add: loop_Suc return_run_def)
qed simp

lemma lst_returns:
  assumes "\<And>m s. m < n \<Longrightarrow> 6 * potential s + 8 \<le> m \<Longrightarrow> elem m s \<noteq> None"
    and "\<And>m s s'. m < n \<Longrightarrow> elem m s = Some (Inr (True, s')) \<Longrightarrow> potential s' < potential s"
    and "6 * potential s + 9 \<le> n"
  shows "lst n s \<noteq> None"
proof (cases n)
  case (Suc m)
  have "elem m s \<noteq> None" using assms(1,3) Suc by simp
  moreover have "loop m s1 \<noteq> None" if "elem m s = Some (Inr (True, s1))" for s1
  proof -
    have "potential s1 < potential s" using assms(2) [OF _ that] Suc by simp
    then show ?thesis
      using assms(3) Suc by (intro loop_returns assms(1) assms(2)) auto
  qed
  ultimately show ?thesis
    by (auto simp: Suc lst_Suc and_then_def return_run_def bind_run_eq_None)
qed (use assms(3) in simp)

end

interpretation elements: comma_list JSONValue list_loop JSONList
  by unfold_locales simp_all

interpretation members: comma_list JSONMember member_loop JSONMemberList
  by unfold_locales simp_all

lemmas recogniser_defs =
  JSONNumber_def JSONString_def JSONBoolean_def recognized_JSONObject_def return_run_def

definition member_toks :: "int list \<Rightarrow> bool" where
  "member_toks ts \<longleftrightarrow> (\<exists>j. ts = STRING # 58 # toks j)"

definition value_toks :: "int list \<Rightarrow> bool" where
  "value_toks ts \<longleftrightarrow> (\<exists>j. ts = toks j)"

section \<open>Values are accepted\<close>

lemma member_complete:
  assumes "\<And>k ts s s'. k < n \<Longrightarrow> value_toks ts \<Longrightarrow> reads ts s = Some s' \<Longrightarrow> accepts (JSONValue k s) s'"
    and "member_toks ts" and "reads ts s = Some s'"
  shows "accepts (JSONMember n s) s'"
proof (cases n)
  case (Suc m)
  obtain j where j: "ts = STRING # 58 # toks j"
    using assms(2) by (auto simp: member_toks_def)
  then obtain s1 s2 where s: "current_token s = STRING" "get_next_token s = Inr s1"
    "current_token s1 = 58" "get_next_token s1 = Inr s2" "reads (toks j) s2 = Some s'"
    using assms(3) by (auto simp: reads_simps)
  have "accepts (JSONValue m s2) s'"
    using assms(1) [of m "toks j" s2 s'] s(5) Suc by (auto simp: value_toks_def)
  with s show ?thesis by (simp add: Suc recogniser_defs accepts_require)
qed simp

lemma object_members_complete:
  assumes "\<And>k ts s s'. k < n \<Longrightarrow> value_toks ts \<Longrightarrow> reads ts s = Some s' \<Longrightarrow> accepts (JSONValue k s) s'"
    and "\<forall>ts \<in> set tss. member_toks ts" and "reads (commas 44 tss) s = Some s'" and "current_token s' = 125"
  shows "accepts (JSONObjectMembers n s) s'"
proof (cases n)
  case n: (Suc m)
  show ?thesis
  proof (cases "tss = []")
    case True
    then show ?thesis
      using assms(3,4)
      by (cases m; cases "m - 1") (auto simp: n commas_def recogniser_defs)
  next
    case False
    have "accepts (JSONMemberList m s) s'"
    proof (rule members.lst_complete [OF _ False assms(2) assms(3)])
      show "accepts (JSONMember k s) s'" if "k < m" "member_toks ts" "reads ts s = Some s'" for k ts s s'
        using that n by (intro member_complete [OF assms(1)]) auto
    qed (simp add: assms(4))
    then show ?thesis by (auto simp: n accepts_def)
  qed
qed simp

lemma array_members_complete:
  assumes "\<And>k ts s s'. k < n \<Longrightarrow> value_toks ts \<Longrightarrow> reads ts s = Some s' \<Longrightarrow> accepts (JSONValue k s) s'"
    and "\<forall>ts \<in> set tss. value_toks ts" and "reads (commas 44 tss) s = Some s'" and "current_token s' = 93"
  shows "accepts (JSONArrayMembers n s) s'"
proof (cases n)
  case n: (Suc m)
  show ?thesis
  proof (cases "tss = []")
    case True
    have "rejects (JSONValue k s) s" for k
      using True assms(3,4)
      by (cases k; cases "k - 1") (auto simp: commas_def recogniser_defs rejects_def)
    then have "rejects (JSONValue (m - 1) s) s" .
    then have "rejects (JSONList m s) s"
      by (cases m) (auto simp: rejects_def)
    then show ?thesis
      using True assms(3) by (auto simp: n rejects_def commas_def return_run_def)
  next
    case False
    have "accepts (JSONList m s) s'"
      by (rule elements.lst_complete [where E = value_toks, OF _ False assms(2) assms(3)], rule assms(1))
        (simp_all add: n assms(4))
    then show ?thesis by (auto simp: n accepts_def)
  qed
qed simp

theorem value_complete:
  assumes "value_toks ts" and "reads ts s = Some s'"
  shows "accepts (JSONValue n s) s'"
  using assms
proof (induction n arbitrary: ts s s' rule: less_induct)
  case (less n)
  show ?case
  proof (cases n)
    case n: (Suc m)
    have sub: "accepts (JSONValue k s) s'" if "k < m" "value_toks ts" "reads ts s = Some s'" for k ts s s'
      using that n by (intro less.IH) auto
    obtain j where ts: "ts = toks j" using less.prems by (auto simp: value_toks_def)
    show ?thesis
    proof (cases m)
      case m: (Suc k)
      have no: "JSONObject m s = Some (Inr (False, s))" if "current_token s \<noteq> 123" for s
        using that by (simp add: m)
      have no': "JSONArray m s = Some (Inr (False, s))" if "current_token s \<noteq> 91" for s
        using that by (simp add: m)
      show ?thesis
      proof (cases j)
        case (JArray js)
        then obtain s1 s2 where s: "current_token s = 91" "get_next_token s = Inr s1"
          "reads (commas 44 (map toks js)) s1 = Some s2" "current_token s2 = 93" "get_next_token s2 = Inr s'"
          using less.prems(2) by (auto simp: ts reads_simps)
        have "accepts (JSONArrayMembers k s1) s2"
          by (rule array_members_complete [OF sub _ s(3,4)]) (auto simp: m value_toks_def)
        then have "accepts (JSONArray m s) s'"
          using s by (auto simp: m accepts_def)
        with s no show ?thesis by (auto simp: n accepts_def)
      next
        case (JObject ms)
        then obtain s1 s2 where s: "current_token s = 123" "get_next_token s = Inr s1"
          "reads (commas 44 (map (\<lambda>m. STRING # 58 # toks (snd m)) ms)) s1 = Some s2"
          "current_token s2 = 125" "get_next_token s2 = Inr s'"
          using less.prems(2) by (auto simp: ts reads_simps)
        have "accepts (JSONObjectMembers k s1) s2"
          by (rule object_members_complete [OF sub _ s(3,4)]) (auto simp: m member_toks_def)
        then have "accepts (JSONObject m s) s'"
          using s by (auto simp: m accepts_def recogniser_defs)
        then show ?thesis by (auto simp: n accepts_def)
      qed (use less.prems(2) no no' in \<open>auto simp: n ts reads_simps recogniser_defs split: if_splits\<close>)
    qed (simp add: n)
  qed simp
qed

section \<open>Only values are accepted\<close>

definition sound :: "(int list \<Rightarrow> bool) \<Rightarrow> parsed \<Rightarrow> scanner \<Rightarrow> bool" where
  "sound E p s \<longleftrightarrow> (\<forall>b s'. p = Some (Inr (b, s')) \<longrightarrow>
     (if b then \<exists>ts. E ts \<and> reads ts s = Some s' else s' = s))"

lemma sound_True: "sound E p s \<Longrightarrow> p = Some (Inr (True, s')) \<Longrightarrow> \<exists>ts. E ts \<and> reads ts s = Some s'"
  by (force simp: sound_def)

lemma sound_False: "sound E p s \<Longrightarrow> p = Some (Inr (False, s')) \<Longrightarrow> s' = s"
  by (force simp: sound_def)

lemma member_sound:
  assumes "\<And>k s. k < n \<Longrightarrow> sound value_toks (JSONValue k s) s"
  shows "sound member_toks (JSONMember n s) s"
proof (cases n)
  case (Suc m)
  show ?thesis
    unfolding sound_def
  proof (intro allI impI)
    fix b s' assume "JSONMember n s = Some (Inr (b, s'))"
    then consider "\<not> b" "s' = s"
      | s1 s2 where "b" "current_token s = STRING" "get_next_token s = Inr s1" "current_token s1 = 58"
        "get_next_token s1 = Inr s2" "JSONValue m s2 = Some (Inr (True, s'))"
      by (auto simp: Suc and_then_eq require_eq token_True token_False JSONString_def)
    then show "if b then \<exists>ts. member_toks ts \<and> reads ts s = Some s' else s' = s"
    proof cases
      case 2
      obtain j where "reads (toks j) s2 = Some s'"
        using sound_True [OF assms 2(6)] Suc by (auto simp: value_toks_def)
      with 2 have "reads (STRING # 58 # toks j) s = Some s'" by (simp add: reads_simps)
      with 2 show ?thesis by (auto simp: member_toks_def)
    qed simp
  qed
qed (simp add: sound_def)

lemma object_members_sound:
  assumes "\<And>k s. k < n \<Longrightarrow> sound value_toks (JSONValue k s) s"
    and "JSONObjectMembers n s = Some (Inr (b, s'))"
  shows "b \<and> (\<exists>tss. (\<forall>ts \<in> set tss. member_toks ts) \<and> reads (commas 44 tss) s = Some s')"
proof (cases n)
  case n: (Suc m)
  have sub: "sound member_toks (JSONMember k s) s" if "k < m" for k s
    using that n by (intro member_sound assms(1)) auto
  have lst: "if c then \<exists>tss. tss \<noteq> [] \<and> (\<forall>ts \<in> set tss. member_toks ts) \<and> reads (commas 44 tss) s = Some s1 else s1 = s"
    if "JSONMemberList m s = Some (Inr (c, s1))" for c s1
    by (rule members.lst_sound [OF _ _ that]) (use sub sound_True sound_False in blast)+
  consider "b" "JSONMemberList m s = Some (Inr (True, s'))"
    | "b" "JSONMemberList m s = Some (Inr (False, s'))"
    using assms(2) by (auto simp: n or_else_eq return_run_def)
  then show ?thesis
  proof cases
    case 1
    then show ?thesis using lst [OF 1(2)] by auto
  next
    case 2
    then show ?thesis using lst [OF 2(2)] by (auto simp: commas_def intro!: exI [of _ "[]"])
  qed
qed (use assms(2) in simp)

lemma array_members_sound:
  assumes "\<And>k s. k < n \<Longrightarrow> sound value_toks (JSONValue k s) s"
    and "JSONArrayMembers n s = Some (Inr (b, s'))"
  shows "b \<and> (\<exists>tss. (\<forall>ts \<in> set tss. value_toks ts) \<and> reads (commas 44 tss) s = Some s')"
proof (cases n)
  case n: (Suc m)
  have sub: "sound value_toks (JSONValue k s) s" if "k < m" for k s
    using that n by (intro assms(1)) auto
  have lst: "if c then \<exists>tss. tss \<noteq> [] \<and> (\<forall>ts \<in> set tss. value_toks ts) \<and> reads (commas 44 tss) s = Some s1 else s1 = s"
    if "JSONList m s = Some (Inr (c, s1))" for c s1
    by (rule elements.lst_sound [OF _ _ that]) (use sub sound_True sound_False in blast)+
  consider "b" "JSONList m s = Some (Inr (True, s'))"
    | "b" "JSONList m s = Some (Inr (False, s'))"
    using assms(2) by (auto simp: n or_else_eq return_run_def)
  then show ?thesis
  proof cases
    case 1
    then show ?thesis using lst [OF 1(2)] by auto
  next
    case 2
    then show ?thesis using lst [OF 2(2)] by (auto simp: commas_def intro!: exI [of _ "[]"])
  qed
qed (use assms(2) in simp)

lemma value_toks_single:
  "value_toks [KEYWORD_NULL]" "value_toks [KEYWORD_TRUE]" "value_toks [KEYWORD_FALSE]"
  "value_toks [INTEGER]" "value_toks [STRING]"
  unfolding value_toks_def
  by (rule exI [of _ JNull], simp) (rule exI [of _ "JBool True"], simp,
      rule exI [of _ "JBool False"], simp, rule exI [of _ "JNumber 0"], simp,
      rule exI [of _ "JString []"], simp)

lemma value_toks_array: "\<forall>ts \<in> set tss. value_toks ts \<Longrightarrow> value_toks (91 # commas 44 tss @ [93])"
proof -
  assume "\<forall>ts \<in> set tss. value_toks ts"
  then have "\<exists>js. tss = map toks js" by (simp add: ex_map_conv value_toks_def)
  then obtain js where "tss = map toks js" ..
  then show ?thesis unfolding value_toks_def by (intro exI [of _ "JArray js"]) simp
qed

lemma value_toks_object: "\<forall>ts \<in> set tss. member_toks ts \<Longrightarrow> value_toks (123 # commas 44 tss @ [125])"
proof -
  assume "\<forall>ts \<in> set tss. member_toks ts"
  then have "\<exists>ms :: (byte list \<times> json) list. tss = map (\<lambda>m. STRING # 58 # toks (snd m)) ms"
    by (simp add: ex_map_conv member_toks_def)
  then obtain ms :: "(byte list \<times> json) list" where "tss = map (\<lambda>m. STRING # 58 # toks (snd m)) ms" ..
  then show ?thesis unfolding value_toks_def by (intro exI [of _ "JObject ms"]) simp
qed

lemma object_sound:
  assumes "\<And>k s. k < n \<Longrightarrow> sound value_toks (JSONValue k s) s"
  shows "sound value_toks (JSONObject n s) s"
proof (cases n)
  case (Suc m)
  show ?thesis
    unfolding sound_def
  proof (intro allI impI)
    fix b s' assume "JSONObject n s = Some (Inr (b, s'))"
    then consider "\<not> b" "s' = s" | s1 c s2 where "current_token s = 123" "get_next_token s = Inr s1"
        "JSONObjectMembers m s1 = Some (Inr (c, s2))" "\<not> c \<or> (current_token s2 = 125 \<and> get_next_token s2 = Inr s' \<and> b)"
      by (auto simp: Suc and_then_eq require_eq token_True token_False recogniser_defs)
    then show "if b then \<exists>ts. value_toks ts \<and> reads ts s = Some s' else s' = s"
    proof cases
      case 2
      have "c \<and> (\<exists>tss. (\<forall>ts \<in> set tss. member_toks ts) \<and> reads (commas 44 tss) s1 = Some s2)"
        by (rule object_members_sound [OF _ 2(3)], rule assms) (simp add: Suc)
      then obtain tss where tss: "c" "\<forall>ts \<in> set tss. member_toks ts" "reads (commas 44 tss) s1 = Some s2"
        by blast
      have "reads (123 # commas 44 tss @ [125]) s = Some s'"
        using 2 tss by (simp add: reads_simps)
      with value_toks_object [OF tss(2)] 2 tss(1) show ?thesis by auto
    qed simp
  qed
qed (simp add: sound_def)

lemma array_sound:
  assumes "\<And>k s. k < n \<Longrightarrow> sound value_toks (JSONValue k s) s"
  shows "sound value_toks (JSONArray n s) s"
proof (cases n)
  case (Suc m)
  show ?thesis
    unfolding sound_def
  proof (intro allI impI)
    fix b s' assume "JSONArray n s = Some (Inr (b, s'))"
    then consider "\<not> b" "s' = s" | s1 c s2 where "current_token s = 91" "get_next_token s = Inr s1"
        "JSONArrayMembers m s1 = Some (Inr (c, s2))" "\<not> c \<or> (current_token s2 = 93 \<and> get_next_token s2 = Inr s' \<and> b)"
      by (auto simp: Suc and_then_eq require_eq token_True token_False recogniser_defs)
    then show "if b then \<exists>ts. value_toks ts \<and> reads ts s = Some s' else s' = s"
    proof cases
      case 2
      have "c \<and> (\<exists>tss. (\<forall>ts \<in> set tss. value_toks ts) \<and> reads (commas 44 tss) s1 = Some s2)"
        by (rule array_members_sound [OF _ 2(3)], rule assms) (simp add: Suc)
      then obtain tss where tss: "c" "\<forall>ts \<in> set tss. value_toks ts" "reads (commas 44 tss) s1 = Some s2"
        by blast
      have "reads (91 # commas 44 tss @ [93]) s = Some s'"
        using 2 tss by (simp add: reads_simps)
      with value_toks_array [OF tss(2)] 2 tss(1) show ?thesis by auto
    qed simp
  qed
qed (simp add: sound_def)

lemma sound_or_else:
  assumes "sound E p s" and "\<And>s1. s1 = s \<Longrightarrow> sound E (q s1) s"
  shows "sound E (or_else p q) s"
  unfolding sound_def
proof (intro allI impI)
  fix b s' assume "or_else p q = Some (Inr (b, s'))"
  then consider "b" "p = Some (Inr (True, s'))"
    | s1 where "p = Some (Inr (False, s1))" "q s1 = Some (Inr (b, s'))"
    by (auto simp: or_else_eq)
  then show "if b then \<exists>ts. E ts \<and> reads ts s = Some s' else s' = s"
  proof cases
    case 1
    then show ?thesis using sound_True [OF assms(1)] by simp
  next
    case 2
    then show ?thesis
      using assms(2) [OF sound_False [OF assms(1)]] unfolding sound_def by blast
  qed
qed

lemma sound_token: "E [t] \<Longrightarrow> sound E (Some (token t s)) s"
  unfolding sound_def by (auto simp: token_True token_False reads_simps intro!: exI [of _ "[t]"])

lemma value_sound: "sound value_toks (JSONValue n s) s"
proof (induction n arbitrary: s rule: less_induct)
  case (less n)
  show ?case
  proof (cases n)
    case (Suc m)
    have "sound value_toks (JSONObject m s) s"
      by (rule object_sound) (simp add: less.IH Suc)
    moreover have "sound value_toks (JSONArray m s) s"
      by (rule array_sound) (simp add: less.IH Suc)
    ultimately show ?thesis
      by (auto simp: Suc JSONNumber_def JSONBoolean_def JSONString_def value_toks_single
          intro!: sound_or_else sound_token)
  qed (simp add: sound_def)
qed

section \<open>The recogniser returns\<close>

lemma commas_solid: "\<forall>ts \<in> set tss. \<forall>t \<in> set ts. solid t \<Longrightarrow> \<forall>t \<in> set (commas 44 tss). solid t"
  by (cases tss) (auto simp: commas_def solid_def)

lemma toks_solid: "\<forall>t \<in> set (toks j). solid t"
proof (induction j)
  case (JArray js)
  then show ?case using commas_solid [of "map toks js"] by (auto simp: solid_def)
next
  case (JObject ms)
  then show ?case
    using commas_solid [of "map (\<lambda>m. STRING # 58 # toks (snd m)) ms"]
    by (fastforce simp: solid_def snds.simps)
qed (auto simp: solid_def)

lemma toks_nonempty: "toks j \<noteq> []"
  by (cases j) auto

lemma value_potential:
  assumes "JSONValue n s = Some (Inr (True, s'))" shows "potential s' < potential s"
proof -
  obtain j where "reads (toks j) s = Some s'"
    using sound_True [OF value_sound assms] by (auto simp: value_toks_def)
  then show ?thesis using reads_potential(2) toks_solid toks_nonempty by blast
qed

lemma member_potential:
  assumes "JSONMember n s = Some (Inr (True, s'))" shows "potential s' < potential s"
proof -
  obtain j where "reads (STRING # 58 # toks j) s = Some s'"
    using sound_True [OF member_sound [OF value_sound] assms] by (auto simp: member_toks_def)
  moreover have "\<forall>t \<in> set (STRING # 58 # toks j). solid t"
    using toks_solid by (auto simp: solid_def)
  ultimately show ?thesis using reads_potential(2) by blast
qed

lemma or_else_returns:
  "p \<noteq> None \<Longrightarrow> (\<And>s. p = Some (Inr (False, s)) \<Longrightarrow> q s \<noteq> None) \<Longrightarrow> or_else p q \<noteq> None"
  by (auto simp: or_else_def return_run_def bind_run_eq_None split: prod.splits)

lemma and_then_returns:
  "p \<noteq> None \<Longrightarrow> (\<And>s. p = Some (Inr (True, s)) \<Longrightarrow> q s \<noteq> None) \<Longrightarrow> and_then p q \<noteq> None"
  by (auto simp: and_then_def return_run_def bind_run_eq_None split: prod.splits)

lemma require_returns: "p \<noteq> None \<Longrightarrow> require p \<noteq> None"
  by (auto simp: require_def bind_run_eq_None)

lemma value_returns_step:
  assumes "\<And>k s. k < n \<Longrightarrow> 6 * potential s + 6 \<le> k \<Longrightarrow> JSONValue k s \<noteq> None"
    and "6 * potential s + 6 \<le> n"
  shows "JSONValue n s \<noteq> None"
proof -
  obtain m k where n: "n = Suc m" "m = Suc k"
    using assms(2) by (cases n; cases "n - 1") auto
  have member: "JSONMember i s1 \<noteq> None" if "i < n" "6 * potential s1 + 8 \<le> i" for i s1
  proof (cases i)
    case (Suc i')
    have "JSONValue i' s3 \<noteq> None" if "token STRING s1 = Inr (True, s2)" "token 58 s2 = Inr (True, s3)" for s2 s3
      using token_potential [OF that(1)] token_potential [OF that(2)] \<open>i < n\<close> \<open>6 * potential s1 + 8 \<le> i\<close> Suc
      by (intro assms(1)) (auto simp: solid_def)
    then show ?thesis
      unfolding Suc JSONMember.simps JSONString_def
      by (intro and_then_returns require_returns) (auto simp: require_eq)
  qed (use that in simp)
  have object: "JSONObjectMembers k s1 \<noteq> None" if "potential s1 < potential s" for s1
  proof -
    obtain i where k: "k = Suc i" using that assms(2) n by (cases k) auto
    have "JSONMemberList i s1 \<noteq> None"
    proof (rule members.lst_returns)
      show "JSONMember j s2 \<noteq> None" if "j < i" "6 * potential s2 + 8 \<le> j" for j s2
        using that n k by (intro member) auto
    qed (use that assms(2) n k member_potential in auto)
    then show ?thesis
      unfolding k JSONObjectMembers.simps JSONArrayMembers.simps return_run_def
      by (rule or_else_returns) simp
  qed
  have array: "JSONArrayMembers k s1 \<noteq> None" if "potential s1 < potential s" for s1
  proof -
    obtain i where k: "k = Suc i" using that assms(2) n by (cases k) auto
    have "JSONList i s1 \<noteq> None"
    proof (rule elements.lst_returns)
      show "JSONValue j s2 \<noteq> None" if "j < i" "6 * potential s2 + 8 \<le> j" for j s2
        using that n k by (intro assms(1)) auto
    qed (use that assms(2) n k value_potential in auto)
    then show ?thesis
      unfolding k JSONObjectMembers.simps JSONArrayMembers.simps return_run_def
      by (rule or_else_returns) simp
  qed
  have structural: "token t s = Inr (True, s1) \<Longrightarrow> t < 256 \<Longrightarrow> potential s1 < potential s" for t s1
    by (rule token_potential) (auto simp: solid_def)
  have "JSONObject m s \<noteq> None"
    unfolding n(2) JSONObject.simps recognized_JSONObject_def return_run_def
    by (intro and_then_returns require_returns object structural) auto
  moreover have "JSONArray m s \<noteq> None"
    unfolding n(2) JSONArray.simps
    by (intro and_then_returns require_returns array structural) auto
  moreover have "JSONObject m s = Some (Inr (False, s1)) \<Longrightarrow> s1 = s" for s1
    using sound_False [OF object_sound [OF value_sound]] by blast
  ultimately show ?thesis
    unfolding n(1) JSONValue.simps JSONNumber_def JSONBoolean_def JSONString_def
    by (intro or_else_returns) simp_all
qed

lemma value_returns: "6 * potential s + 6 \<le> n \<Longrightarrow> JSONValue n s \<noteq> None"
  by (induction n arbitrary: s rule: less_induct) (rule value_returns_step)

section \<open>The whole program\<close>

lemma parse_json_eq:
  "parse_json n s = Some (Inr (b, s')) \<longleftrightarrow>
     b \<and> (\<exists>s0 s1 s2. init_scanner s = Inr s0 \<and> get_next_token s0 = Inr s1
       \<and> JSONValue n s1 = Some (Inr (True, s2)) \<and> token EOI s2 = Inr (True, s'))"
  by (auto simp: parse_json_def JSONText_def res_run_eq_SomeInr and_then_eq or_else_eq require_eq
      parse_error_def)

lemma get_next_token_start:
  assumes "init_scanner (start_scanner bs) = Inr s0" and "get_next_token s0 = Inr s1"
  shows "potential s1 \<le> 2 * length bs + 1"
proof -
  have "rest s0 = length bs"
    using assms(1) unfolding init_scanner_place by (cases bs) (auto simp: rest_def place_def)
  then show ?thesis
    using get_next_token_rest(1) [OF assms(2)] by (simp add: potential_def)
qed

lemma json_returns: "main_json (12 * length bs + 12 + n) bs \<noteq> None"
proof -
  have "JSONValue (12 * length bs + 12 + n) s1 \<noteq> None"
    if "init_scanner (start_scanner bs) = Inr s0" "get_next_token s0 = Inr s1" for s0 s1
    using get_next_token_start [OF that] by (intro value_returns) simp
  then have "and_then (JSONText (12 * length bs + 12 + n) s1) (\<lambda>s. require (Some (token EOI s))) \<noteq> None"
    if "init_scanner (start_scanner bs) = Inr s0" "get_next_token s0 = Inr s1" for s0 s1
    unfolding JSONText_def using that by (intro and_then_returns or_else_returns require_returns) auto
  then show ?thesis
    unfolding main_json_def parse_json_def res_run_eq_None by blast
qed

lemma json_accepts_iff:
  "main_json (12 * length bs + 12 + n) bs = Some (Inr (b, s')) \<longleftrightarrow>
     b \<and> (\<exists>s0 s1 j. init_scanner (start_scanner bs) = Inr s0 \<and> get_next_token s0 = Inr s1
       \<and> reads (toks j @ [EOI]) s1 = Some s')"
proof (intro iffI)
  assume "main_json (12 * length bs + 12 + n) bs = Some (Inr (b, s'))"
  then obtain s0 s1 s2 where s: "b" "init_scanner (start_scanner bs) = Inr s0" "get_next_token s0 = Inr s1"
    "JSONValue (12 * length bs + 12 + n) s1 = Some (Inr (True, s2))" "token EOI s2 = Inr (True, s')"
    by (auto simp: main_json_def parse_json_eq)
  obtain j where "reads (toks j) s1 = Some s2"
    using sound_True [OF value_sound s(4)] by (auto simp: value_toks_def)
  with s show "b \<and> (\<exists>s0 s1 j. init_scanner (start_scanner bs) = Inr s0 \<and> get_next_token s0 = Inr s1
       \<and> reads (toks j @ [EOI]) s1 = Some s')"
    by (auto simp: reads_simps token_True)
next
  assume "b \<and> (\<exists>s0 s1 j. init_scanner (start_scanner bs) = Inr s0 \<and> get_next_token s0 = Inr s1
       \<and> reads (toks j @ [EOI]) s1 = Some s')"
  then obtain s0 s1 s2 j where s: "b" "init_scanner (start_scanner bs) = Inr s0" "get_next_token s0 = Inr s1"
    "reads (toks j) s1 = Some s2" "token EOI s2 = Inr (True, s')"
    by (auto simp: reads_simps token_True)
  have "accepts (JSONValue (12 * length bs + 12 + n) s1) s2"
    by (rule value_complete [OF _ s(4)]) (auto simp: value_toks_def)
  moreover have "JSONValue (12 * length bs + 12 + n) s1 \<noteq> None"
    using get_next_token_start [OF s(2,3)] by (intro value_returns) simp
  ultimately show "main_json (12 * length bs + 12 + n) bs = Some (Inr (b, s'))"
    using s by (auto simp: main_json_def parse_json_eq accepts_def)
qed

section \<open>Memory safety\<close>

definition safe_run :: "parsed \<Rightarrow> bool" where
  "safe_run p \<longleftrightarrow> (case p of None \<Rightarrow> True | Some r \<Rightarrow> safe (\<lambda>(b, s). fits 4083 s) r)"

lemma safe_run_simps [simp]:
  "safe_run None" "safe_run (Some r) = safe (\<lambda>(b, s). fits 4083 s) r"
  by (simp_all add: safe_run_def)

lemma safe_bind_run:
  assumes "safe_run p" and "\<And>b s. fits 4083 s \<Longrightarrow> safe_run (q (b, s))"
  shows "safe_run (bind_run p q)"
  using assms by (cases p; cases "the p") auto

lemma safe_or_else:
  assumes "safe_run p" and "\<And>s. fits 4083 s \<Longrightarrow> safe_run (q s)"
  shows "safe_run (or_else p q)"
  unfolding or_else_def return_run_def
  by (rule safe_bind_run [OF assms(1)]) (auto simp: assms(2) simp del: safe_run_simps(1))

lemma safe_and_then:
  assumes "safe_run p" and "\<And>s. fits 4083 s \<Longrightarrow> safe_run (q s)"
  shows "safe_run (and_then p q)"
  unfolding and_then_def return_run_def
  by (rule safe_bind_run [OF assms(1)]) (auto simp: assms(2))

lemma safe_require: "safe_run p \<Longrightarrow> safe_run (require p)"
  unfolding require_def by (rule safe_bind_run) (auto simp: required_fits)

lemma safe_token: "fits 4083 s \<Longrightarrow> safe_run (Some (token t s))"
  using token_fits by auto

lemma safe_return: "fits 4083 s \<Longrightarrow> safe_run (return_run (b, s))"
  by (simp add: return_run_def)

lemma safe_error: "safe_run (Some (parse_error e))"
  by (simp add: parse_error_def)

lemmas safe_intros = safe_or_else safe_and_then safe_require safe_token safe_return safe_error

lemma parser_safe:
  "fits 4083 s \<Longrightarrow> safe_run (JSONValue n s)"
  "fits 4083 s \<Longrightarrow> safe_run (JSONObject n s)"
  "fits 4083 s \<Longrightarrow> safe_run (JSONArray n s)"
  "fits 4083 s \<Longrightarrow> safe_run (JSONObjectMembers n s)"
  "fits 4083 s \<Longrightarrow> safe_run (JSONArrayMembers n s)"
  "fits 4083 s \<Longrightarrow> safe_run (JSONMemberList n s)"
  "fits 4083 s \<Longrightarrow> safe_run (member_loop n s)"
  "fits 4083 s \<Longrightarrow> safe_run (JSONList n s)"
  "fits 4083 s \<Longrightarrow> safe_run (list_loop n s)"
  "fits 4083 s \<Longrightarrow> safe_run (JSONMember n s)"
proof (induction n arbitrary: s)
  case (Suc n)
  {
    case 1 then show ?case
      unfolding JSONValue.simps JSONNumber_def JSONBoolean_def JSONString_def
      by (intro safe_intros Suc.IH)
  next
    case 2 then show ?case
      unfolding JSONObject.simps recognized_JSONObject_def by (intro safe_intros Suc.IH)
  next
    case 3 then show ?case
      unfolding JSONArray.simps by (intro safe_intros Suc.IH)
  next
    case 4 then show ?case
      unfolding JSONObjectMembers.simps by (intro safe_intros Suc.IH)
  next
    case 5 then show ?case
      unfolding JSONArrayMembers.simps by (intro safe_intros Suc.IH)
  next
    case 6 then show ?case
      unfolding JSONMemberList.simps by (intro safe_intros Suc.IH)
  next
    case 7 then show ?case
      unfolding member_loop.simps split_def
      by (auto intro!: safe_bind_run safe_intros Suc.IH simp del: safe_run_simps bind_run_simps)
  next
    case 8 then show ?case
      unfolding JSONList.simps by (intro safe_intros Suc.IH)
  next
    case 9 then show ?case
      unfolding list_loop.simps split_def
      by (auto intro!: safe_bind_run safe_intros Suc.IH simp del: safe_run_simps bind_run_simps)
  next
    case 10 then show ?case
      unfolding JSONMember.simps JSONString_def by (intro safe_intros Suc.IH)
  }
qed simp_all

lemma json_memory_safe:
  assumes "length bs \<le> 4082"
  shows "main_json n bs \<noteq> Some (Inl Undefined)"
proof -
  have start: "fits 4083 (place bs 1 (start_scanner bs))"
    using assms by (cases bs) (auto simp: fits_def rest_def place_def start_scanner_def)
  have "safe_run (and_then (JSONText n s) (\<lambda>s. require (Some (token EOI s))))" if "fits 4083 s" for s
    unfolding JSONText_def using that by (intro safe_intros parser_safe)
  then have "safe_run (main_json n bs)"
    using get_next_token_fits [OF start]
    by (cases "get_next_token (place bs 1 (start_scanner bs))")
      (auto simp: main_json_def parse_json_def init_scanner_place)
  then show ?thesis by auto
qed

section \<open>Decimal text\<close>

lemma digit_nat_text: "\<forall>b \<in> set (nat_text n). is_digit b"
proof (induction n rule: nat_text.induct)
  case (1 n)
  have "is_digit (of_nat (48 + d))" if "d < 10" for d
    using that by (simp add: is_digit_def uint_nat unat_of_nat flip: of_nat_add)
  then show ?case
    using 1 by (subst nat_text.simps) (auto simp del: of_nat_add)
qed

lemma value_nat_text: "accumulate 10 0 (map (\<lambda>b. uint b - 48) (nat_text n)) = int n"
proof (induction n rule: nat_text.induct)
  case (1 n)
  have d: "uint (of_nat (48 + d) :: byte) - 48 = int d" if "d < 10" for d
    using that by (simp add: uint_nat unat_of_nat flip: of_nat_add)
  show ?case
  proof (cases "n < 10")
    case True
    then show ?thesis using d [of n] by (subst nat_text.simps) (simp del: of_nat_add)
  next
    case False
    have app: "accumulate b v (ds @ [e]) = accumulate b v ds * b + e" for b v ds e
      by (simp add: accumulate_def)
    show ?thesis
      using False 1 d [of "n mod 10"]
      by (subst nat_text.simps) (simp add: app zdiv_int zmod_int del: of_nat_add)
  qed
qed

lemma hd_nat_text: "0 < n \<Longrightarrow> nat_text n \<noteq> [] \<and> hd (nat_text n) \<noteq> 48"
proof (induction n rule: nat_text.induct)
  case (1 n)
  have "of_nat (48 + d) \<noteq> (48 :: byte)" if "0 < d" "d < 10" for d
  proof
    assume "of_nat (48 + d) = (48 :: byte)"
    then have "unat (of_nat (48 + d) :: byte) = unat (48 :: byte)" by simp
    with that show False by (simp add: unat_of_nat flip: of_nat_add)
  qed
  then show ?case
    using 1 by (subst (1 2) nat_text.simps) (auto simp del: of_nat_add)
qed

lemma accumulate_less:
  assumes "0 \<le> v" and "v < 10 ^ k" and "\<forall>d \<in> set ds. 0 \<le> d \<and> d < 10"
  shows "0 \<le> accumulate 10 v ds \<and> accumulate 10 v ds < 10 ^ (k + length ds)"
  using assms
proof (induction ds arbitrary: v k)
  case (Cons d ds)
  have "v * 10 + d < 10 ^ Suc k" using Cons.prems by auto
  then show ?case using Cons.IH [of "v * 10 + d" "Suc k"] Cons.prems by auto
qed simp

text \<open>The value a decimal literal gets depends on the literals before it.\<close>

lemma decimal_literal:
  assumes "0 < n" and "\<not> starts is_digit bs" and "p + length (nat_text n) < 4096"
    and "0 \<le> current_integer s"
    and "current_integer s * 10 ^ length (nat_text n) + int n < 2 ^ 63"
  shows "get_next_token (place (nat_text n @ bs) p s) =
    Inr (place bs (p + length (nat_text n)) (s\<lparr>
      current_integer := current_integer s * 10 ^ length (nat_text n) + int n,
      current_token := INTEGER\<rparr>))"
proof -
  have "accumulate 10 (current_integer s) (map (\<lambda>b. uint b - 48) (nat_text n)) =
      current_integer s * 10 ^ length (nat_text n) + int n"
    by (subst accumulate_power) (simp add: value_nat_text)
  then show ?thesis
    using assms hd_nat_text [OF assms(1)] digit_nat_text
    by (subst get_next_token_decimal) auto
qed

section \<open>Documents\<close>

fun json_text :: "json \<Rightarrow> byte list" where
  "json_text JNull = bytes_of ''null''"
| "json_text (JBool b) = bytes_of (if b then ''true'' else ''false'')"
| "json_text (JNumber n) = nat_text n"
| "json_text (JString str) = quote str"
| "json_text (JArray js) = 91 # commas 44 (map json_text js) @ [93]"
| "json_text (JObject ms) = 123 # commas 44 (map (\<lambda>(k, j). quote k @ 58 # json_text j) ms) @ [125]"

text \<open>No backslash in a string: the scanner has no escape for it.\<close>

fun plain :: "json \<Rightarrow> bool" where
  "plain (JString str) = (92 \<notin> set str)"
| "plain (JArray js) = (\<forall>j \<in> set js. plain j)"
| "plain (JObject ms) = (\<forall>(k, j) \<in> set ms. 92 \<notin> set k \<and> plain j)"
| "plain _ = True"

fun digits :: "json \<Rightarrow> nat" where
  "digits (JNumber n) = length (nat_text n)"
| "digits (JArray js) = sum_list (map digits js)"
| "digits (JObject ms) = sum_list (map (\<lambda>(k, j). digits j) ms)"
| "digits _ = 0"

definition delimits :: "byte list \<Rightarrow> bool" where
  "delimits bs \<longleftrightarrow> (case bs of [] \<Rightarrow> True | b # _ \<Rightarrow> b \<in> {44, 58, 93, 125})"

text \<open>
  Before anything for which \<open>D\<close> holds, the text \<open>cs\<close> is scanned as the tokens \<open>ts\<close> and adds at
  most \<open>d\<close> digits to the integer.
\<close>

definition scans :: "(byte list \<Rightarrow> bool) \<Rightarrow> byte list \<Rightarrow> int list \<Rightarrow> nat \<Rightarrow> bool" where
  "scans D cs ts d \<longleftrightarrow> (\<forall>bs p s k. D bs \<longrightarrow> p + length cs < 4096 \<longrightarrow> k + d \<le> 18 \<longrightarrow>
     0 \<le> current_integer s \<longrightarrow> current_integer s < 10 ^ k \<longrightarrow>
     (\<exists>s'. 0 \<le> current_integer s' \<and> current_integer s' < 10 ^ (k + d) \<and>
        (\<forall>s2. get_next_token (place bs (p + length cs) s') = Inr s2 \<longrightarrow>
           (\<exists>s1. get_next_token (place (cs @ bs) p s) = Inr s1 \<and> reads ts s1 = Some s2))))"

lemma scans_token:
  assumes "\<And>bs p s k. D bs \<Longrightarrow> p + length cs < 4096 \<Longrightarrow> k + d \<le> 18 \<Longrightarrow>
      0 \<le> current_integer s \<Longrightarrow> current_integer s < 10 ^ k \<Longrightarrow>
      \<exists>s'. get_next_token (place (cs @ bs) p s) = Inr (place bs (p + length cs) s')
         \<and> current_token s' = t \<and> 0 \<le> current_integer s' \<and> current_integer s' < 10 ^ (k + d)"
  shows "scans D cs [t] d"
  unfolding scans_def
proof (intro allI impI)
  fix bs p and s :: scanner and k
  assume "D bs" "p + length cs < 4096" "k + d \<le> 18" "0 \<le> current_integer s" "current_integer s < 10 ^ k"
  from assms [OF this] show "\<exists>s'. 0 \<le> current_integer s' \<and> current_integer s' < 10 ^ (k + d) \<and>
        (\<forall>s2. get_next_token (place bs (p + length cs) s') = Inr s2 \<longrightarrow>
           (\<exists>s1. get_next_token (place (cs @ bs) p s) = Inr s1 \<and> reads [t] s1 = Some s2))"
    by (auto simp: reads_simps)
qed

lemma scans_append:
  assumes "scans D1 cs1 ts1 d1" and "scans D2 cs2 ts2 d2" and "\<And>bs. D2 bs \<Longrightarrow> D1 (cs2 @ bs)"
  shows "scans D2 (cs1 @ cs2) (ts1 @ ts2) (d1 + d2)"
  unfolding scans_def
proof (intro allI impI)
  fix bs p and s :: scanner and k
  assume h: "D2 bs" "p + length (cs1 @ cs2) < 4096" "k + (d1 + d2) \<le> 18" "0 \<le> current_integer s"
    "current_integer s < 10 ^ k"
  obtain s1 where s1: "0 \<le> current_integer s1" "current_integer s1 < 10 ^ (k + d1)"
    "\<forall>s2. get_next_token (place (cs2 @ bs) (p + length cs1) s1) = Inr s2 \<longrightarrow>
       (\<exists>sa. get_next_token (place (cs1 @ cs2 @ bs) p s) = Inr sa \<and> reads ts1 sa = Some s2)"
    using assms(1) [unfolded scans_def, rule_format, of "cs2 @ bs" p k s] assms(3) h by auto
  obtain s2 where s2: "0 \<le> current_integer s2" "current_integer s2 < 10 ^ (k + d1 + d2)"
    "\<forall>s3. get_next_token (place bs (p + length cs1 + length cs2) s2) = Inr s3 \<longrightarrow>
       (\<exists>sa. get_next_token (place (cs2 @ bs) (p + length cs1) s1) = Inr sa \<and> reads ts2 sa = Some s3)"
    using assms(2) [unfolded scans_def, rule_format, of bs "p + length cs1" "k + d1" s1] s1 h by auto
  show "\<exists>s'. 0 \<le> current_integer s' \<and> current_integer s' < 10 ^ (k + (d1 + d2)) \<and>
        (\<forall>s2. get_next_token (place bs (p + length (cs1 @ cs2)) s') = Inr s2 \<longrightarrow>
           (\<exists>s1. get_next_token (place ((cs1 @ cs2) @ bs) p s) = Inr s1 \<and> reads (ts1 @ ts2) s1 = Some s2))"
    using s1(3) s2 by (intro exI [of _ s2]) (fastforce simp: reads_simps add.assoc)
qed

lemma scans_mono: "scans D cs ts d \<Longrightarrow> (\<And>bs. D' bs \<Longrightarrow> D bs) \<Longrightarrow> scans D' cs ts d"
  unfolding scans_def by blast

lemma scans_char:
  assumes "b \<in> {123, 125, 91, 93, 58, 44}"
  shows "scans (\<lambda>_. True) [b] [uint b] 0"
proof (rule scans_token)
  fix bs p and s :: scanner and k :: nat
  assume "p + length [b] < 4096" "0 \<le> current_integer s" "current_integer s < 10 ^ k"
  moreover have "uint b \<in> {123, 125, 91, 93, 58, 44}" using assms by auto
  moreover from this have "uint b \<noteq> 34" "\<not> is_ws (uint b)" by (auto simp: is_ws_def)
  ultimately have "get_next_token (place ([b] @ bs) p s) =
      Inr (place bs (p + length [b]) (s\<lparr>current_token := uint b\<rparr>))"
    by (simp add: get_next_token_def scan_token_def del: insert_iff)
  then show "\<exists>s'. get_next_token (place ([b] @ bs) p s) = Inr (place bs (p + length [b]) s')
         \<and> current_token s' = uint b \<and> 0 \<le> current_integer s' \<and> current_integer s' < 10 ^ (k + 0)"
    using \<open>0 \<le> current_integer s\<close> \<open>current_integer s < 10 ^ k\<close>
    by (intro exI [of _ "s\<lparr>current_token := uint b\<rparr>"]) simp
qed

lemma scans_string:
  assumes "92 \<notin> set str"
  shows "scans (\<lambda>_. True) (quote str) [STRING] 0"
proof (rule scans_token)
  fix bs p and s :: scanner and k :: nat
  assume h: "p + length (quote str) < 4096" "0 \<le> current_integer s" "current_integer s < 10 ^ k"
  have "length str \<le> length (concat (map escape str))"
    by (induction str) (auto simp: escape_def)
  then have "length str < 4096" using h(1) by (simp add: quote_def)
  from get_next_token_string [OF assms h(1) this]
  show "\<exists>s'. get_next_token (place (quote str @ bs) p s) = Inr (place bs (p + length (quote str)) s')
         \<and> current_token s' = STRING \<and> 0 \<le> current_integer s' \<and> current_integer s' < 10 ^ (k + 0)"
    using h by (intro exI [of _ "s\<lparr>current_string := str, current_token := STRING\<rparr>"]) simp
qed

lemma scans_number: "scans delimits (nat_text n) [INTEGER] (length (nat_text n))"
proof (rule scans_token)
  fix bs p and s :: scanner and k
  assume h: "delimits bs" "p + length (nat_text n) < 4096" "k + length (nat_text n) \<le> 18"
    "0 \<le> current_integer s" "current_integer s < 10 ^ k"
  show "\<exists>s'. get_next_token (place (nat_text n @ bs) p s) = Inr (place bs (p + length (nat_text n)) s')
         \<and> current_token s' = INTEGER \<and> 0 \<le> current_integer s' \<and> current_integer s' < 10 ^ (k + length (nat_text n))"
  proof (cases "n = 0")
    case True
    have "cur (place bs (Suc p) s) \<in> {EOF, 44, 58, 93, 125}"
      using h(1) by (cases bs) (auto simp: delimits_def)
    then have "get_next_token (place (nat_text n @ bs) p s) =
        Inr (place bs (p + length (nat_text n)) (s\<lparr>current_integer := 0, current_token := INTEGER\<rparr>))"
      using h(2) True
      by (auto simp: nat_text.simps get_next_token_def is_ws_def scan_token_def determine_base_def)
    then show ?thesis by auto
  next
    case False
    have nd: "\<not> starts is_digit bs"
      using h(1) by (cases bs) (auto simp: delimits_def starts_def is_digit_def)
    have val: "current_integer s * 10 ^ length (nat_text n) + int n =
        accumulate 10 (current_integer s) (map (\<lambda>b. uint b - 48) (nat_text n))"
      by (subst accumulate_power) (simp add: value_nat_text)
    have "0 \<le> current_integer s * 10 ^ length (nat_text n) + int n \<and>
        current_integer s * 10 ^ length (nat_text n) + int n < 10 ^ (k + length (nat_text n))"
      unfolding val using accumulate_less [OF h(4,5), of "map (\<lambda>b. uint b - 48) (nat_text n)"] digit_nat_text
      by (fastforce simp: is_digit_def)
    moreover have "(10 :: int) ^ (k + length (nat_text n)) \<le> 10 ^ 18"
      using h(3) by (intro power_increasing) auto
    ultimately show ?thesis
      using decimal_literal [OF _ nd h(2,4)] False by auto
  qed
qed

lemma check_for_keyword_place [simp]:
  "check_for_keyword (place bs p s) = place bs p (check_for_keyword s)"
  by (simp add: check_for_keyword_def)

lemma recognize_identifier_word:
  assumes "\<forall>b \<in> set w. is_identifier_char (uint b)" and "\<not> is_identifier_char (cur (place bs 0 s))"
    and "current_string s @ w \<noteq> []" and "length (current_string s) + length w < 4096"
    and "p + length w < 4096"
  shows "recognize_identifier (place (w @ bs) p s) = Inr (place bs (p + length w)
    (check_for_keyword (s\<lparr>current_string := current_string s @ w, current_token := IDENTIFIER\<rparr>)))"
  using assms
proof (induction w arbitrary: p s)
  case Nil
  have "cur (place bs p s) = cur (place bs 0 s)" by (cases bs) simp_all
  with Nil show ?case
    by (subst recognize_identifier.simps) (simp add: end_string_def)
next
  case (Cons b w)
  have "cur (place bs 0 (s\<lparr>current_string := current_string s @ [b]\<rparr>)) = cur (place bs 0 s)"
    by (cases bs) simp_all
  with Cons show ?case
    by (subst recognize_identifier.simps) (simp add: store_char_def)
qed

lemma scans_keyword:
  assumes "(w, t) \<in> {(''null'', KEYWORD_NULL), (''true'', KEYWORD_TRUE), (''false'', KEYWORD_FALSE)}"
  shows "scans delimits (bytes_of w) [t] 0"
proof (rule scans_token)
  fix bs p and s :: scanner and k :: nat
  assume h: "delimits bs" "p + length (bytes_of w) < 4096" "0 \<le> current_integer s" "current_integer s < 10 ^ k"
  let ?s = "s\<lparr>current_string := []\<rparr>"
  have "\<not> is_identifier_char (cur (place bs 0 ?s))"
    using h(1) by (cases bs) (auto simp: delimits_def is_identifier_char_def)
  moreover have "\<forall>b \<in> set (bytes_of w). is_identifier_char (uint b)" "bytes_of w \<noteq> []"
    "length (bytes_of w) < 4096"
    using assms by (auto simp: bytes_of_def is_identifier_char_def of_char_def)
  ultimately have "recognize_identifier (place (bytes_of w @ bs) p ?s) = Inr (place bs (p + length (bytes_of w))
      (check_for_keyword (?s\<lparr>current_string := bytes_of w, current_token := IDENTIFIER\<rparr>)))"
    using h(2) by (subst recognize_identifier_word) simp_all
  moreover have "get_next_token (place (bytes_of w @ bs) p s) = recognize_identifier (place (bytes_of w @ bs) p ?s)"
    using assms by (auto simp: bytes_of_def of_char_def get_next_token_def is_ws_def scan_token_def)
  moreover have "current_token (check_for_keyword (?s\<lparr>current_string := bytes_of w, current_token := IDENTIFIER\<rparr>)) = t"
    using assms by (auto simp: bytes_of_def of_char_def check_for_keyword_def)
  moreover have "current_integer (check_for_keyword (?s\<lparr>current_string := bytes_of w, current_token := IDENTIFIER\<rparr>)) = current_integer s"
    by (simp add: check_for_keyword_def)
  ultimately show "\<exists>s'. get_next_token (place (bytes_of w @ bs) p s) = Inr (place bs (p + length (bytes_of w)) s')
         \<and> current_token s' = t \<and> 0 \<le> current_integer s' \<and> current_integer s' < 10 ^ (k + 0)"
    using h(3,4) by auto
qed

lemma scans_Nil: "scans D [] [] 0"
  unfolding scans_def by (auto intro!: exI)

lemma delimits_simps [simp]:
  "delimits []" "delimits (b # bs) \<longleftrightarrow> b \<in> {44, 58, 93, 125}"
  by (simp_all add: delimits_def)

lemma delimits_tail: "delimits bs \<Longrightarrow> delimits (concat (map ((#) 44) css) @ bs)"
  by (cases css) auto

lemma scans_after:
  "scans (\<lambda>_. True) cs1 ts1 d1 \<Longrightarrow> scans D cs2 ts2 d2 \<Longrightarrow> scans D (cs1 @ cs2) (ts1 @ ts2) (d1 + d2)"
  by (rule scans_append) simp_all

lemma scans_tail:
  assumes "\<forall>x \<in> set xs. scans delimits (f x) (g x) (d x)"
  shows "scans delimits (concat (map ((#) 44) (map f xs))) (concat (map ((#) 44) (map g xs))) (sum_list (map d xs))"
  using assms
proof (induction xs)
  case (Cons x xs)
  have "scans delimits ([44] @ f x) ([44] @ g x) (0 + d x)"
    using Cons.prems scans_char [of 44] by (intro scans_after) auto
  then have "scans delimits (([44] @ f x) @ concat (map ((#) 44) (map f xs)))
      (([44] @ g x) @ concat (map ((#) 44) (map g xs))) ((0 + d x) + sum_list (map d xs))"
    using Cons by (rule_tac scans_append [where ?D1.0 = delimits, OF _ _ delimits_tail]) auto
  then show ?case by simp
qed (simp add: scans_Nil)

lemma scans_commas:
  assumes "\<forall>x \<in> set xs. scans delimits (f x) (g x) (d x)"
  shows "scans delimits (commas 44 (map f xs)) (commas 44 (map g xs)) (sum_list (map d xs))"
proof (cases xs)
  case (Cons x xs')
  have "scans delimits (f x @ concat (map ((#) 44) (map f xs'))) (g x @ concat (map ((#) 44) (map g xs')))
      (d x + sum_list (map d xs'))"
    using assms Cons scans_tail [of xs' f g d]
    by (rule_tac scans_append [where ?D1.0 = delimits, OF _ _ delimits_tail]) auto
  then show ?thesis by (simp add: Cons commas_def)
qed (simp add: scans_Nil commas_def)

lemma scans_between:
  assumes "scans delimits cs ts d" and "b \<in> {123, 91}" and "c \<in> {125, 93}"
  shows "scans (\<lambda>_. True) (b # cs @ [c]) (uint b # ts @ [uint c]) d"
proof -
  have "scans (\<lambda>_. True) (cs @ [c]) (ts @ [uint c]) (d + 0)"
    using assms by (intro scans_append [where ?D1.0 = delimits] scans_char) auto
  then have "scans (\<lambda>_. True) ([b] @ cs @ [c]) ([uint b] @ ts @ [uint c]) (0 + (d + 0))"
    using assms(2) scans_char [of b] by (rule_tac scans_after) auto
  then show ?thesis by simp
qed

lemma scans_json: "plain j \<Longrightarrow> scans delimits (json_text j) (toks j) (digits j)"
proof (induction j)
  case (JArray js)
  then have "scans delimits (commas 44 (map json_text js)) (commas 44 (map toks js)) (sum_list (map digits js))"
    by (intro scans_commas) auto
  from scans_between [OF this, of 91 93] show ?case by (auto elim: scans_mono)
next
  case (JObject ms)
  have "scans delimits (case m of (k, j) \<Rightarrow> quote k @ 58 # json_text j) (STRING # 58 # toks (snd m))
      (case m of (k, j) \<Rightarrow> digits j)" if "m \<in> set ms" for m
  proof -
    obtain k j where m: "m = (k, j)" by (cases m)
    have "scans delimits (quote k @ [58] @ json_text j) ([STRING] @ [58] @ toks j) (0 + (0 + digits j))"
    proof (intro scans_after)
      show "scans delimits (json_text j) (toks j) (digits j)"
        using JObject.IH [OF that] JObject.prems that by (auto simp: m)
      show "scans (\<lambda>_. True) (quote k) [STRING] 0"
        using JObject.prems that by (intro scans_string) (auto simp: m)
    qed (use scans_char [of 58] in auto)
    then show ?thesis by (simp add: m)
  qed
  then have "scans delimits (commas 44 (map (\<lambda>(k, j). quote k @ 58 # json_text j) ms))
      (commas 44 (map (\<lambda>m. STRING # 58 # toks (snd m)) ms)) (sum_list (map (\<lambda>(k, j). digits j) ms))"
    by (intro scans_commas) auto
  from scans_between [OF this, of 123 125] show ?case by (auto elim: scans_mono)
qed (auto intro: scans_number scans_mono [OF scans_string] scans_keyword)

lemma json_text_accepted:
  assumes "plain j" and "length (json_text j) \<le> 4093" and "digits j \<le> 18"
  shows "\<exists>s'. main_json (12 * length (json_text j) + 12) (json_text j) = Some (Inr (True, s'))"
proof -
  let ?s = "start_scanner (json_text j)"
  obtain s' where s': "\<forall>s2. get_next_token (place [] (1 + length (json_text j)) s') = Inr s2 \<longrightarrow>
      (\<exists>s1. get_next_token (place (json_text j) 1 ?s) = Inr s1 \<and> reads (toks j) s1 = Some s2)"
    using scans_json [OF assms(1), unfolded scans_def, rule_format, of "[]" 1 0 ?s] assms
    by (auto simp: delimits_def start_scanner_def)
  let ?e = "place [] (1 + length (json_text j)) (s'\<lparr>current_token := EOI\<rparr>)"
  have eoi: "get_next_token (place [] (1 + length (json_text j)) s') = Inr ?e" "get_next_token ?e = Inr ?e"
    by (simp_all add: get_next_token_def is_ws_def scan_token_def)
  then obtain s1 where "get_next_token (place (json_text j) 1 ?s) = Inr s1" "reads (toks j) s1 = Some ?e"
    using s' by blast
  then have "reads (toks j @ [EOI]) s1 = Some ?e" "get_next_token (place (json_text j) 1 ?s) = Inr s1"
    using eoi by (auto simp: reads_simps)
  then show ?thesis
    using json_accepts_iff [of "json_text j" 0 True ?e] by (auto simp: init_scanner_place)
qed

section \<open>Properties\<close>

text \<open>
  C34: for every input there is a bound on the recursion under which \<open>main\<close> is done; on an input of at most 4082 bytes it
  has then returned, exited, or overflown the value of a number, and not left the bounds of its arrays: no loop of the
  scanner or the parser goes on after the end of the input.
\<close>

theorem json_terminates:
  "\<exists>r. main_json (12 * length bs + 12 + n) bs = Some r \<and> (length bs \<le> 4082 \<longrightarrow> r \<noteq> Inl Undefined)"
  using json_returns [of bs n] json_memory_safe [of bs "12 * length bs + 12 + n"] by auto

theorem json_terminates_witness: "\<exists>r. main_json 36 [34, 97] = Some r \<and> r \<noteq> Inl Undefined"
  using json_terminates [of "[34, 97]" 0] by simp

text \<open>
  C1: \<open>main\<close> returns (rather than exits) exactly when the tokens that \<open>get_next_token\<close> delivers are
  those of a JSON value followed by the end of the input.
\<close>

theorem json_accepts_grammar:
  "main_json (12 * length bs + 12 + n) bs = Some (Inr (b, s')) \<longleftrightarrow>
     b \<and> (\<exists>s0 s1 j. init_scanner (start_scanner bs) = Inr s0 \<and> get_next_token s0 = Inr s1
       \<and> reads (toks j @ [EOI]) s1 = Some s')"
  by (rule json_accepts_iff)

text \<open>
  C37: a JSON document printed without white space is accepted if no string has a backslash, its numbers are natural numbers
  with at most 18 digits in all of them together, and the text has at most 4093 bytes. Beyond that ordinary documents fail:
  most escapes are rejected, and the digits of all numbers are accumulated into one.
\<close>

theorem json_document_accepted:
  assumes "plain j" and "length (json_text j) \<le> 4093" and "digits j \<le> 18"
  shows "\<exists>s'. main_json (12 * length (json_text j) + 12) (json_text j) = Some (Inr (True, s'))"
  using assms by (rule json_text_accepted)

theorem json_document_accepted_witness:
  "\<exists>s'. main_json 144 (bytes_of ''{'' @ [34, 107, 34] @ bytes_of '':[7,8]}'') = Some (Inr (True, s'))"
  using json_document_accepted [of "JObject [([107], JArray [JNumber 7, JNumber 8])]"]
  by (simp add: commas_def quote_def escape_def nat_text.simps bytes_of_def of_char_def)

text \<open>
  C39: on an input of at most 4082 bytes no array of the program is accessed out of its bounds,
  the reports of a rejected token included.
\<close>

theorem json_in_bounds:
  assumes "length bs \<le> 4082"
  shows "main_json n bs \<noteq> Some (Inl Undefined)"
  using assms by (rule json_memory_safe)

theorem json_in_bounds_witness: "main_json 50 (bytes_of ''[1, nil]'') \<noteq> Some (Inl Undefined)"
  using json_in_bounds [of "bytes_of ''[1, nil]''" 50] by (simp add: bytes_of_def)

text \<open>
  A decimal literal is read to its last digit, and its value is added to what the literals
  before it left: \<open>current_integer\<close> becomes the old value times a power of ten plus the number.
\<close>

theorem decimal_token:
  assumes "0 < n" and "\<not> starts is_digit bs" and "p + length (nat_text n) < 4096"
    and "0 \<le> current_integer s"
    and "current_integer s * 10 ^ length (nat_text n) + int n < 2 ^ 63"
  shows "get_next_token (place (nat_text n @ bs) p s) =
    Inr (place bs (p + length (nat_text n)) (s\<lparr>
      current_integer := current_integer s * 10 ^ length (nat_text n) + int n,
      current_token := INTEGER\<rparr>))"
  using assms by (rule decimal_literal)

theorem decimal_token_witness:
  "get_next_token (place [50, 93] 5 ((start_scanner [])\<lparr>current_integer := 1\<rparr>)) =
    Inr (place [93] 6 ((start_scanner [])\<lparr>current_integer := 12, current_token := INTEGER\<rparr>))"
  using decimal_token [of 2 "[93]" 5 "(start_scanner [])\<lparr>current_integer := 1\<rparr>"]
  by (simp add: starts_def is_digit_def nat_text.simps start_scanner_def)

end
