(* ===== verification/Linenoise.thy ===== *)
theory Linenoise
  imports Prelude "HOL-Library.Char_ord"
begin

text \<open>
  \<open>linenoise.c\<close>: the line editor. The state has the edited buffer with its length and cursor,
  the history array of the file's static variables, and the terminal: what it will deliver to
  \<open>read\<close>, whether the next writes succeed, and what was written. Memory is never exhausted, and
  \<open>char\<close> is signed. A \<open>read\<close> does not fail: at the end of the input it delivers nothing.
\<close>

section \<open>State\<close>

text \<open>A history slot: never written since \<open>malloc\<close>, a null pointer, or a C string.\<close>

datatype slot = Garbage | Null | Str "byte list"

text \<open>
  \<open>input\<close> holds what the terminal delivers, one list for each delivery: a \<open>read\<close> takes from
  the first one only, at most as many bytes as it asks for. \<open>writes\<close> says of each next \<open>write\<close> whether
  it succeeds; when the list is used up they all do.
\<close>

record session =
  buf :: "byte list"
  len :: nat
  pos :: nat
  history_index :: int
  history :: "slot list option"
  history_len :: int
  history_max_len :: int
  input :: "byte list list"
  writes :: "bool list"
  screen :: "byte list list"

section \<open>Terminal\<close>

definition read_fd :: "nat \<Rightarrow> session \<Rightarrow> byte list \<times> session" where
  "read_fd n s =
     (case dropWhile (\<lambda>d. d = []) (input s) of
        [] \<Rightarrow> ([], s\<lparr>input := []\<rparr>)
      | d # ds \<Rightarrow> (take n d, s\<lparr>input := drop n d # ds\<rparr>))"

definition write_fd :: "byte list \<Rightarrow> session \<Rightarrow> bool \<times> session" where
  "write_fd bs s =
     (case writes s of
        [] \<Rightarrow> (True, s\<lparr>screen := screen s @ [bs]\<rparr>)
      | True # ws \<Rightarrow> (True, s\<lparr>screen := screen s @ [bs], writes := ws\<rparr>)
      | False # ws \<Rightarrow> (False, s\<lparr>writes := ws\<rparr>))"

text \<open>A sequence of writes that stops at the first one that fails.\<close>

fun write_all :: "byte list list \<Rightarrow> session \<Rightarrow> session" where
  "write_all [] s = s"
| "write_all (bs # bss) s = (let (ok, s) = write_fd bs s in if ok then write_all bss s else s)"

section \<open>C strings and memory\<close>

definition strlen :: "byte list \<Rightarrow> nat res" where
  "strlen bs = (if 0 \<in> set bs then Inr (length (takeWhile (\<lambda>b. b \<noteq> 0) bs)) else Inl Undefined)"

definition strdup :: "byte list \<Rightarrow> byte list res" where
  "strdup bs = bind_res (strlen bs) (\<lambda>n. Inr (take n bs))"

definition memmove :: "nat \<Rightarrow> nat \<Rightarrow> nat \<Rightarrow> byte list \<Rightarrow> byte list res" where
  "memmove dst src n bs =
     (if dst + n \<le> length bs \<and> src + n \<le> length bs
      then Inr (take dst bs @ take n (drop src bs) @ drop (dst + n) bs) else Inl Undefined)"

text \<open>\<open>strncpy( buf, str, n )\<close>: at most \<open>n\<close> bytes of the string, zeros up to \<open>n\<close>.\<close>

definition strncpy :: "byte list \<Rightarrow> byte list \<Rightarrow> nat \<Rightarrow> byte list res" where
  "strncpy bs str n =
     (if n \<le> length bs
      then Inr (take n str @ replicate (n - length str) 0 @ drop n bs) else Inl Undefined)"

definition slot_at :: "session \<Rightarrow> int \<Rightarrow> slot res" where
  "slot_at s i =
     (case history s of
        None \<Rightarrow> Inl Undefined
      | Some hs \<Rightarrow> if 0 \<le> i then get_at hs (nat i) else Inl Undefined)"

definition set_slot :: "session \<Rightarrow> int \<Rightarrow> slot \<Rightarrow> session res" where
  "set_slot s i x =
     (case history s of
        None \<Rightarrow> Inl Undefined
      | Some hs \<Rightarrow>
          if 0 \<le> i then bind_res (put_at hs (nat i) x) (\<lambda>hs. Inr (s\<lparr>history := Some hs\<rparr>))
          else Inl Undefined)"

text \<open>\<open>free( history[i] )\<close>: a pointer that was never set must not be freed.\<close>

definition free_slot :: "session \<Rightarrow> int \<Rightarrow> session res" where
  "free_slot s i =
     bind_res (slot_at s i) (\<lambda>x.
       if x = Garbage then Inl Undefined else set_slot s i Garbage)"

section \<open>refreshLine\<close>

text \<open>\<open>while((plen+pos) >= cols)\<close>, on \<open>size_t\<close> values that wrap.\<close>

fun scroll_loop :: "nat \<Rightarrow> 64 word \<Rightarrow> 64 word \<Rightarrow> nat \<times> 64 word \<times> 64 word
    \<Rightarrow> (nat \<times> 64 word \<times> 64 word) option" where
  "scroll_loop 0 plen cols w = None"
| "scroll_loop (Suc n) plen cols (off, l, p) =
     (if cols \<le> plen + p then scroll_loop n plen cols (off + 1, l - 1, p - 1)
      else Some (off, l, p))"

text \<open>\<open>while (plen+len > cols)\<close>\<close>

fun trim_loop :: "nat \<Rightarrow> 64 word \<Rightarrow> 64 word \<Rightarrow> 64 word \<Rightarrow> 64 word option" where
  "trim_loop 0 plen cols l = None"
| "trim_loop (Suc n) plen cols l =
     (if cols < plen + l then trim_loop n plen cols (l - 1) else Some l)"

definition csi :: "string \<Rightarrow> byte list" where
  "csi cs = [27, 91] @ bytes_of cs"

definition cursor_seq :: "64 word \<Rightarrow> byte list" where
  "cursor_seq column = csi ''0G'' @ [27, 91] @ int_text (sint (ucast column :: 32 word)) @ bytes_of ''C''"

definition refreshLine :: "nat \<Rightarrow> byte list \<Rightarrow> 64 word \<Rightarrow> byte list \<Rightarrow> nat \<Rightarrow> nat \<Rightarrow> session \<Rightarrow> session run" where
  "refreshLine n prompt cols str l p s =
     (let plen = of_nat (length prompt) in
      case scroll_loop n plen cols (0, of_nat l, of_nat p) of
        None \<Rightarrow> None
      | Some (off, l, p) \<Rightarrow>
          (case trim_loop n plen cols l of
             None \<Rightarrow> None
           | Some l \<Rightarrow>
               if off + unat l \<le> length str
               then return_run (write_all
                 [csi ''0G'', prompt, take (unat l) (drop off str), csi ''0K'', cursor_seq (p + plen)] s)
               else Some (Inl Undefined)))"

section \<open>History\<close>

definition linenoiseHistoryAdd :: "byte list \<Rightarrow> session \<Rightarrow> (int \<times> session) res" where
  "linenoiseHistoryAdd line s =
     (if history_max_len s = 0 then Inr (0, s)
      else
        let s1 = (case history s of
            None \<Rightarrow> s\<lparr>history := Some (replicate (nat (history_max_len s)) Null)\<rparr>
          | Some hs \<Rightarrow> s) in
        bind_res
          (if history_len s1 = history_max_len s1
           then bind_res (free_slot s1 0) (\<lambda>s2.
             case history s2 of
               None \<Rightarrow> Inl Undefined
             | Some hs \<Rightarrow>
                 let k = nat (history_max_len s2 - 1) in
                 if k + 1 \<le> length hs
                 then Inr (s2\<lparr>history := Some (take k (drop 1 hs) @ drop k hs),
                              history_len := history_len s2 - 1\<rparr>)
                 else Inl Undefined)
           else Inr s1)
          (\<lambda>s3. bind_res (set_slot s3 (history_len s3) (Str line))
             (\<lambda>s4. Inr (1, s4\<lparr>history_len := history_len s4 + 1\<rparr>))))"

text \<open>
  \<open>linenoiseHistorySetMaxLen\<close>: the copy starts at \<open>history+(history_max_len-tocopy)\<close>.
\<close>

definition linenoiseHistorySetMaxLen :: "int \<Rightarrow> session \<Rightarrow> (int \<times> session) res" where
  "linenoiseHistorySetMaxLen l s =
     (if l < 1 then Inr (0, s)
      else
        bind_res
          (case history s of
             None \<Rightarrow> Inr s
           | Some hs \<Rightarrow>
               let tocopy = (if l < history_len s then l else history_len s);
                   start = history_max_len s - tocopy in
               if 0 \<le> tocopy \<and> 0 \<le> start \<and> nat start + nat tocopy \<le> length hs
               then Inr (s\<lparr>history := Some (take (nat tocopy) (drop (nat start) hs)
                                         @ replicate (nat (l - tocopy)) Garbage)\<rparr>)
               else Inl Undefined)
          (\<lambda>s. let s = s\<lparr>history_max_len := l\<rparr> in
             Inr (1, if history_max_len s < history_len s then s\<lparr>history_len := history_max_len s\<rparr> else s)))"

text \<open>\<open>linenoiseHistorySave\<close>: the lines \<open>fprintf\<close> writes to the file that was opened.\<close>

fun save_lines :: "slot list \<Rightarrow> byte list res" where
  "save_lines [] = Inr []"
| "save_lines (Str line # hs) = bind_res (save_lines hs) (\<lambda>text. Inr (line @ 10 # text))"
| "save_lines (_ # hs) = Inl Undefined"

definition linenoiseHistorySave :: "session \<Rightarrow> byte list res" where
  "linenoiseHistorySave s =
     (if history_len s \<le> 0 then Inr []
      else case history s of
        None \<Rightarrow> Inl Undefined
      | Some hs \<Rightarrow>
          if nat (history_len s) \<le> length hs then save_lines (take (nat (history_len s)) hs)
          else Inl Undefined)"

text \<open>
  \<open>fgets( buf, n + 1, fp )\<close>: up to and with the next line feed, at most \<open>n\<close> bytes.
\<close>

fun fgets :: "nat \<Rightarrow> byte list \<Rightarrow> byte list \<times> byte list" where
  "fgets 0 bs = ([], bs)"
| "fgets (Suc n) [] = ([], [])"
| "fgets (Suc n) (b # bs) =
     (if b = 10 \<or> n = 0 then ([b], bs) else let (line, rest) = fgets n bs in (b # line, rest))"

definition until :: "byte \<Rightarrow> byte list \<Rightarrow> byte list" where
  "until b bs = takeWhile (\<lambda>c. c \<noteq> b) bs"

text \<open>What \<open>linenoiseHistoryLoad\<close> makes of a line: up to the first CR if there is one, else up to
  the first LF; \<open>buf\<close> is a C string.\<close>

definition chomp :: "byte list \<Rightarrow> byte list" where
  "chomp line = (let str = until 0 line in if 13 \<in> set str then until 13 str else until 10 str)"

lemma length_fgets: "length (snd (fgets n bs)) \<le> length bs"
  by (induction n bs rule: fgets.induct) (auto split: prod.split)

lemma fgets_shorter: "0 < n \<Longrightarrow> bs \<noteq> [] \<Longrightarrow> length (snd (fgets n bs)) < length bs"
  using length_fgets [of "n - 1" "tl bs"]
  by (cases n; cases bs) (auto simp: less_Suc_eq_le split: prod.split)

function load_loop :: "byte list \<Rightarrow> session \<Rightarrow> session res" where
  "load_loop bytes s =
     (if bytes = [] then Inr s
      else let (line, rest) = fgets 4095 bytes in
        bind_res (linenoiseHistoryAdd (chomp line) s) (\<lambda>(r, s). load_loop rest s))"
  by pat_completeness auto
termination
proof (relation "measure (\<lambda>(bytes, s). length bytes)", goal_cases)
  case (2 bytes s l line rest a r s')
  then have "snd (fgets 4095 bytes) = rest" by (metis snd_conv)
  with 2 fgets_shorter [of 4095 bytes] show ?case by simp
qed simp

declare load_loop.simps [simp del]

definition linenoiseHistoryLoad :: "byte list option \<Rightarrow> session \<Rightarrow> (int \<times> session) res" where
  "linenoiseHistoryLoad contents s =
     (case contents of
        None \<Rightarrow> Inr (-1, s)
      | Some bytes \<Rightarrow> bind_res (load_loop bytes s) (\<lambda>s. Inr (0, s)))"

section \<open>Keys\<close>

datatype step = Continue session | Return int session

type_synonym handler = "session \<Rightarrow> step run"

definition continue_with :: "session run \<Rightarrow> step run" where
  "continue_with r = bind_run r (\<lambda>s. return_run (Continue s))"

definition refresh :: "nat \<Rightarrow> byte list \<Rightarrow> 64 word \<Rightarrow> handler" where
  "refresh n prompt cols s =
     continue_with (refreshLine n prompt cols (buf s) (len s) (pos s) s)"

text \<open>\<open>buf[i] = c\<close>\<close>

definition set_buf :: "nat \<Rightarrow> byte \<Rightarrow> session \<Rightarrow> session res" where
  "set_buf i c s = bind_res (put_at (buf s) i c) (\<lambda>b. Inr (s\<lparr>buf := b\<rparr>))"

definition move_buf :: "nat \<Rightarrow> nat \<Rightarrow> nat \<Rightarrow> session \<Rightarrow> session res" where
  "move_buf dst src k s = bind_res (memmove dst src k (buf s)) (\<lambda>b. Inr (s\<lparr>buf := b\<rparr>))"

definition buflen :: "session \<Rightarrow> nat" where
  "buflen s = length (buf s) - 1"

definition key_enter :: "handler" where
  "key_enter s =
     (let s = s\<lparr>history_len := history_len s - 1\<rparr> in
      res_run (free_slot s (history_len s)) (\<lambda>s. return_run (Return (int (len s)) s)))"

definition key_ctrl_c :: "handler" where
  "key_ctrl_c s = return_run (Return (-1) s)"

definition key_backspace :: "nat \<Rightarrow> byte list \<Rightarrow> 64 word \<Rightarrow> handler" where
  "key_backspace n prompt cols s =
     (if 0 < pos s \<and> 0 < len s
      then res_run (move_buf (pos s - 1) (pos s) (len s - pos s) s) (\<lambda>s.
           let s = s\<lparr>pos := pos s - 1, len := len s - 1\<rparr> in
           res_run (set_buf (len s) 0 s) (refresh n prompt cols))
      else return_run (Continue s))"

definition key_ctrl_d :: "nat \<Rightarrow> byte list \<Rightarrow> 64 word \<Rightarrow> handler" where
  "key_ctrl_d n prompt cols s =
     (if 1 < len s \<and> pos s < len s - 1
      then res_run (move_buf (pos s) (pos s + 1) (len s - pos s) s) (\<lambda>s.
           let s = s\<lparr>len := len s - 1\<rparr> in
           res_run (set_buf (len s) 0 s) (refresh n prompt cols))
      else if len s = 0
      then let s = s\<lparr>history_len := history_len s - 1\<rparr> in
           res_run (free_slot s (history_len s)) (\<lambda>s. return_run (Return (-1) s))
      else return_run (Continue s))"

definition key_ctrl_t :: "nat \<Rightarrow> byte list \<Rightarrow> 64 word \<Rightarrow> handler" where
  "key_ctrl_t n prompt cols s =
     (if 0 < pos s \<and> pos s < len s
      then res_run (get_at (buf s) (pos s - 1)) (\<lambda>aux.
           res_run (get_at (buf s) (pos s)) (\<lambda>c.
           res_run (set_buf (pos s - 1) c s) (\<lambda>s.
           res_run (set_buf (pos s) aux s) (\<lambda>s.
             refresh n prompt cols (if pos s \<noteq> len s - 1 then s\<lparr>pos := pos s + 1\<rparr> else s)))))
      else return_run (Continue s))"

definition key_left :: "nat \<Rightarrow> byte list \<Rightarrow> 64 word \<Rightarrow> handler" where
  "key_left n prompt cols s =
     (if 0 < pos s then refresh n prompt cols (s\<lparr>pos := pos s - 1\<rparr>) else return_run (Continue s))"

definition key_right :: "nat \<Rightarrow> byte list \<Rightarrow> 64 word \<Rightarrow> handler" where
  "key_right n prompt cols s =
     (if pos s \<noteq> len s then refresh n prompt cols (s\<lparr>pos := pos s + 1\<rparr>)
      else return_run (Continue s))"

text \<open>\<open>up_down_arrow\<close>: the edited line goes into its history slot before the next one is shown.\<close>

definition key_history :: "bool \<Rightarrow> nat \<Rightarrow> byte list \<Rightarrow> 64 word \<Rightarrow> handler" where
  "key_history up n prompt cols s =
     (if 1 < history_len s
      then
        let i = history_len s - 1 - history_index s in
        res_run (free_slot s i) (\<lambda>s.
        res_run (strdup (buf s)) (\<lambda>line.
        res_run (set_slot s i (Str line)) (\<lambda>s.
          let k = history_index s + (if up then 1 else -1) in
          if k < 0 then return_run (Continue (s\<lparr>history_index := 0\<rparr>))
          else if history_len s \<le> k
          then return_run (Continue (s\<lparr>history_index := history_len s - 1\<rparr>))
          else
            let s = s\<lparr>history_index := k\<rparr> in
            res_run (slot_at s (history_len s - 1 - k)) (\<lambda>x.
              case x of
                Str line \<Rightarrow>
                  res_run (strncpy (buf s) line (buflen s)) (\<lambda>b.
                  res_run (set_buf (buflen s) 0 (s\<lparr>buf := b\<rparr>)) (\<lambda>s.
                  res_run (strlen (buf s)) (\<lambda>l.
                    refresh n prompt cols (s\<lparr>len := l, pos := l\<rparr>))))
              | _ \<Rightarrow> Some (Inl Undefined)))))
      else return_run (Continue s))"

definition key_delete :: "nat \<Rightarrow> byte list \<Rightarrow> 64 word \<Rightarrow> handler" where
  "key_delete n prompt cols s =
     (if 0 < len s \<and> pos s < len s
      then res_run (move_buf (pos s) (pos s + 1) (len s - pos s - 1) s) (\<lambda>s.
           let s = s\<lparr>len := len s - 1\<rparr> in
           res_run (set_buf (len s) 0 s) (refresh n prompt cols))
      else return_run (Continue s))"

text \<open>\<open>seq\<close> and \<open>seq2\<close> have only the bytes that \<open>read\<close> delivered.\<close>

definition key_escape :: "nat \<Rightarrow> byte list \<Rightarrow> 64 word \<Rightarrow> handler" where
  "key_escape n prompt cols s =
     (let (seq, s) = read_fd 2 s in
      res_run (get_at seq 0) (\<lambda>c0.
        if c0 \<noteq> 91 then return_run (Continue s)
        else res_run (get_at seq 1) (\<lambda>c1.
          if c1 = 68 then key_left n prompt cols s
          else if c1 = 67 then key_right n prompt cols s
          else if c1 = 65 \<or> c1 = 66 then key_history (c1 = 65) n prompt cols s
          else if 48 < c1 \<and> c1 < 55 then
            let (seq2, s) = read_fd 2 s in
            if c1 = 51
            then res_run (get_at seq2 0) (\<lambda>d.
                   if d = 126 then key_delete n prompt cols s else return_run (Continue s))
            else return_run (Continue s)
          else return_run (Continue s))))"

definition key_insert :: "byte \<Rightarrow> nat \<Rightarrow> byte list \<Rightarrow> 64 word \<Rightarrow> handler" where
  "key_insert c n prompt cols s =
     (if len s < buflen s
      then if len s = pos s
        then res_run (set_buf (pos s) c s) (\<lambda>s.
             let s = s\<lparr>pos := pos s + 1, len := len s + 1\<rparr> in
             res_run (set_buf (len s) 0 s) (\<lambda>s.
               if of_nat (length prompt) + of_nat (len s) < cols
               then let (ok, s) = write_fd [c] s in
                    return_run (if ok then Continue s else Return (-1) s)
               else refresh n prompt cols s))
        else res_run (move_buf (pos s + 1) (pos s) (len s - pos s) s) (\<lambda>s.
             res_run (set_buf (pos s) c s) (\<lambda>s.
             let s = s\<lparr>len := len s + 1, pos := pos s + 1\<rparr> in
             res_run (set_buf (len s) 0 s) (refresh n prompt cols)))
      else return_run (Continue s))"

definition key_kill_line :: "nat \<Rightarrow> byte list \<Rightarrow> 64 word \<Rightarrow> handler" where
  "key_kill_line n prompt cols s =
     res_run (set_buf 0 0 s) (\<lambda>s. refresh n prompt cols (s\<lparr>pos := 0, len := 0\<rparr>))"

definition key_kill_end :: "nat \<Rightarrow> byte list \<Rightarrow> 64 word \<Rightarrow> handler" where
  "key_kill_end n prompt cols s =
     res_run (set_buf (pos s) 0 s) (\<lambda>s. refresh n prompt cols (s\<lparr>len := pos s\<rparr>))"

definition linenoiseClearScreen :: "session \<Rightarrow> session" where
  "linenoiseClearScreen s = snd (write_fd (csi ''H'' @ csi ''2J'') s)"

definition handle_key :: "byte \<Rightarrow> nat \<Rightarrow> byte list \<Rightarrow> 64 word \<Rightarrow> handler" where
  "handle_key c n prompt cols s =
     (if c = 13 then key_enter s
      else if c = 3 then key_ctrl_c s
      else if c = 127 \<or> c = 8 then key_backspace n prompt cols s
      else if c = 4 then key_ctrl_d n prompt cols s
      else if c = 20 then key_ctrl_t n prompt cols s
      else if c = 2 then key_left n prompt cols s
      else if c = 6 then key_right n prompt cols s
      else if c = 16 then key_history True n prompt cols s
      else if c = 14 then key_history False n prompt cols s
      else if c = 27 then key_escape n prompt cols s
      else if c = 21 then key_kill_line n prompt cols s
      else if c = 11 then key_kill_end n prompt cols s
      else if c = 1 then refresh n prompt cols (s\<lparr>pos := 0\<rparr>)
      else if c = 5 then refresh n prompt cols (s\<lparr>pos := len s\<rparr>)
      else if c = 12 then refresh n prompt cols (linenoiseClearScreen s)
      else key_insert c n prompt cols s)"

section \<open>Completion\<close>

text \<open>\<open>linenoiseAddCompletion\<close> appends a copy of the string.\<close>

definition linenoiseAddCompletion :: "byte list list \<Rightarrow> byte list \<Rightarrow> byte list list" where
  "linenoiseAddCompletion lc str = lc @ [str]"

text \<open>
  \<open>snprintf( buf, n, "%s", str )\<close> stores what fits and returns the length of the whole string.
\<close>

definition snprintf_s :: "byte list \<Rightarrow> nat \<Rightarrow> byte list \<Rightarrow> (nat \<times> byte list) res" where
  "snprintf_s b n str =
     (if n = 0 then Inr (length str, b)
      else if n \<le> length b
      then let out = take (n - 1) str @ [0] in Inr (length str, out @ drop (length out) b)
      else Inl Undefined)"

text \<open>
  The loop of \<open>completeLine\<close>: \<open>i\<close> is the completion shown, or the number of completions for the
  line itself. The result is the last character read, or -1.
\<close>

fun complete_loop :: "nat \<Rightarrow> byte list \<Rightarrow> 64 word \<Rightarrow> byte list list \<Rightarrow> nat \<Rightarrow> session
    \<Rightarrow> (int \<times> session) run" where
  "complete_loop 0 prompt cols lc i s = None"
| "complete_loop (Suc n) prompt cols lc i s =
     bind_run
       (if i < length lc
        then refreshLine n prompt cols (lc ! i @ [0]) (length (lc ! i)) (length (lc ! i)) s
        else refreshLine n prompt cols (buf s) (len s) (pos s) s)
       (\<lambda>s. let (cs, s) = read_fd 1 s in
         case cs of
           [] \<Rightarrow> return_run (-1, s)
         | c # _ \<Rightarrow>
             if c = 9 then complete_loop n prompt cols lc ((i + 1) mod (length lc + 1)) s
             else if c = 27 then
               (if i < length lc
                then bind_run (refreshLine n prompt cols (buf s) (len s) (pos s) s)
                       (\<lambda>s. return_run (27, s))
                else return_run (27, s))
             else if i < length lc then
               res_run (snprintf_s (buf s) (buflen s) (lc ! i)) (\<lambda>(nwritten, b).
                 return_run (sint c, s\<lparr>buf := b, len := nwritten, pos := nwritten\<rparr>))
             else return_run (sint c, s))"

definition completeLine :: "nat \<Rightarrow> byte list \<Rightarrow> 64 word \<Rightarrow> (byte list \<Rightarrow> byte list list) \<Rightarrow> session
    \<Rightarrow> (int \<times> session) run" where
  "completeLine n prompt cols callback s =
     (let lc = callback (until 0 (buf s)) in
      if lc = [] then return_run (0, s) else complete_loop n prompt cols lc 0 s)"

section \<open>The editing loop\<close>

type_synonym completer = "(byte list \<Rightarrow> byte list list) option"

fun prompt_loop :: "nat \<Rightarrow> completer \<Rightarrow> byte list \<Rightarrow> 64 word \<Rightarrow> session \<Rightarrow> (int \<times> session) run" where
  "prompt_loop 0 callback prompt cols s = None"
| "prompt_loop (Suc n) callback prompt cols s =
     (let (cs, s) = read_fd 1 s in
      case cs of
        [] \<Rightarrow> return_run (int (len s), s)
      | c # _ \<Rightarrow>
          bind_run
            (case callback of
               Some f \<Rightarrow> if c = 9 then completeLine n prompt cols f s else return_run (sint c, s)
             | None \<Rightarrow> return_run (sint c, s))
            (\<lambda>(c', s).
              if c = 9 \<and> callback \<noteq> None \<and> c' < 0 then return_run (int (len s), s)
              else if c = 9 \<and> callback \<noteq> None \<and> c' = 0 then prompt_loop n callback prompt cols s
              else bind_run (handle_key (word_of_int c') n prompt cols s) (\<lambda>st.
                case st of
                  Continue s \<Rightarrow> prompt_loop n callback prompt cols s
                | Return r s \<Rightarrow> return_run (r, s))))"

definition linenoisePrompt :: "nat \<Rightarrow> completer \<Rightarrow> byte list \<Rightarrow> 64 word \<Rightarrow> session \<Rightarrow> (int \<times> session) run" where
  "linenoisePrompt n callback prompt cols s =
     res_run (set_buf 0 0 (s\<lparr>len := 0, pos := 0, history_index := 0\<rparr>)) (\<lambda>s.
     res_run (linenoiseHistoryAdd [] s) (\<lambda>(r, s).
       let (ok, s) = write_fd prompt s in
       if ok then prompt_loop n callback prompt cols s else return_run (-1, s)))"

section \<open>Reading a line\<close>

text \<open>What the process finds around it, as far as \<open>linenoise\<close> asks.\<close>

record env =
  term_name :: "string option"
  stdin_is_tty :: bool
  raw_mode_ok :: bool
  columns :: "64 word"
  completer :: completer
  stdin_bytes :: "byte list"

definition lower :: "char \<Rightarrow> char" where
  "lower c = (if CHR ''A'' \<le> c \<and> c \<le> CHR ''Z'' then char_of (of_char c + 32 :: nat) else c)"

definition isUnsupportedTerm :: "string option \<Rightarrow> bool" where
  "isUnsupportedTerm term =
     (case term of None \<Rightarrow> False | Some t \<Rightarrow> map lower t \<in> {''dumb'', ''cons25''})"

text \<open>
  \<open>linenoiseRaw\<close> with \<open>buf[buflen]\<close>: the count it returns and the C string left in the buffer.
\<close>

definition linenoiseRaw :: "nat \<Rightarrow> env \<Rightarrow> byte list \<Rightarrow> session \<Rightarrow> (int \<times> byte list \<times> session) run" where
  "linenoiseRaw n e prompt s =
     (if length (buf s) = 0 then return_run (-1, [], s)
      else if \<not> stdin_is_tty e then
        (if stdin_bytes e = [] then return_run (-1, [], s)
         else let str = until 0 (fst (fgets (length (buf s) - 1) (stdin_bytes e)));
                  str = (if str \<noteq> [] \<and> last str = 10 then butlast str else str)
              in return_run (int (length str), str, s))
      else if \<not> raw_mode_ok e then return_run (-1, [], s)
      else bind_run (linenoisePrompt n (completer e) prompt (columns e) s) (\<lambda>(count, s).
             return_run (count, until 0 (buf s), s)))"

text \<open>
  The string \<open>linenoise\<close> returns, None for a null pointer. Its buffer is \<open>buf\<close> of the state: 4096
  bytes with whatever the stack holds.
\<close>

definition linenoise :: "nat \<Rightarrow> env \<Rightarrow> byte list \<Rightarrow> session \<Rightarrow> (byte list option \<times> session) run" where
  "linenoise n e prompt s =
     (if isUnsupportedTerm (term_name e) then
        (if stdin_bytes e = [] then return_run (None, s)
         else let str = until 0 (fst (fgets 4095 (stdin_bytes e)))
              in return_run (Some (rev (dropWhile (\<lambda>b. b = 10 \<or> b = 13) (rev str))), s))
      else bind_run (linenoiseRaw n e prompt s) (\<lambda>(count, str, s).
             return_run (if count = -1 then None else Some str, s)))"

end
