(* ===== verification/LineEditor.thy ===== *)
theory LineEditor
  imports Linenoise
begin

text \<open>
  What \<open>linenoise.c\<close> does, proved on the definitions of \<open>Linenoise\<close>: the window \<open>refreshLine\<close> shows,
  each key against an editor on two byte lists, the prompt loop against a fold of that editor, the
  history array against a list of lines, and the history file.
\<close>

section \<open>The window that is shown\<close>

lemma of_nat_le64:
  "a < 2 ^ 64 \<Longrightarrow> b < 2 ^ 64 \<Longrightarrow> (of_nat a :: 64 word) \<le> of_nat b \<longleftrightarrow> a \<le> b"
  by (simp add: word_le_nat_alt unat_of_nat take_bit_nat_eq_self)

lemma of_nat_less64:
  "a < 2 ^ 64 \<Longrightarrow> b < 2 ^ 64 \<Longrightarrow> (of_nat a :: 64 word) < of_nat b \<longleftrightarrow> a < b"
  by (simp add: word_less_nat_alt unat_of_nat take_bit_nat_eq_self)

text \<open>How many columns the text moves to the left.\<close>

definition scrolled :: "nat \<Rightarrow> nat \<Rightarrow> nat \<Rightarrow> nat" where
  "scrolled plen cols p = plen + p + 1 - cols"

lemma scroll_loop_scrolled:
  assumes "plen < cols" and "cols < 2 ^ 64" and "p \<le> l" and "plen + l < 2 ^ 64"
    and "scrolled plen cols p < n"
  shows "scroll_loop n (of_nat plen) (of_nat cols) (off, of_nat l, of_nat p) =
    Some (off + scrolled plen cols p, of_nat (l - scrolled plen cols p), of_nat (p - scrolled plen cols p))"
  using assms
proof (induction n arbitrary: off l p)
  case (Suc n)
  have cond: "(of_nat cols :: 64 word) \<le> of_nat plen + of_nat p \<longleftrightarrow> cols \<le> plen + p"
    using of_nat_le64 [of cols "plen + p"] Suc.prems by simp
  show ?case
  proof (cases "cols \<le> plen + p")
    case True
    then obtain p' where p: "p = Suc p'" using Suc.prems(1) by (cases p) auto
    then obtain l' where l: "l = Suc l'" using Suc.prems(3) by (cases l) auto
    have sc: "scrolled plen cols p = Suc (scrolled plen cols p')"
      using True Suc.prems(1) by (simp add: scrolled_def p)
    show ?thesis
      using Suc.IH [of p' l' "off + 1"] Suc.prems True cond
      by (simp add: p l sc [unfolded p])
  next
    case False
    then show ?thesis using cond by (simp add: scrolled_def)
  qed
qed simp

lemma trim_loop_min:
  assumes "plen < cols" and "cols < 2 ^ 64" and "plen + l < 2 ^ 64" and "l < n"
  shows "trim_loop n (of_nat plen) (of_nat cols) (of_nat l) = Some (of_nat (min l (cols - plen)))"
  using assms
proof (induction n arbitrary: l)
  case (Suc n)
  have cond: "(of_nat cols :: 64 word) < of_nat plen + of_nat l \<longleftrightarrow> cols < plen + l"
    using of_nat_less64 [of cols "plen + l"] Suc.prems by simp
  show ?case
  proof (cases "cols < plen + l")
    case True
    then obtain l' where l: "l = Suc l'" using Suc.prems(1) by (cases l) auto
    have "min l (cols - plen) = min l' (cols - plen)" using True by (simp add: l)
    then show ?thesis using Suc.IH [of l'] Suc.prems True cond by (simp add: l)
  next
    case False
    then have "min l (cols - plen) = l" using Suc.prems(1) by simp
    then show ?thesis using cond False by simp
  qed
qed simp

lemma refreshLine_eq:
  assumes "length prompt < unat cols" and "p \<le> l" and "l < length str" and "length prompt + l < 2 ^ 64"
    and "l < n"
  shows "refreshLine n prompt cols str l p s = return_run (write_all
    [csi ''0G'', prompt,
     take (min (l - scrolled (length prompt) (unat cols) p) (unat cols - length prompt))
       (drop (scrolled (length prompt) (unat cols) p) str),
     csi ''0K'', cursor_seq (of_nat (length prompt + (p - scrolled (length prompt) (unat cols) p)))] s)"
proof -
  let ?k = "scrolled (length prompt) (unat cols) p"
  have c: "cols = of_nat (unat cols)" "unat cols < 2 ^ 64"
    using unsigned_less [of cols] by simp_all
  have k: "?k \<le> p" using assms(1) by (simp add: scrolled_def)
  have s: "scroll_loop n (of_nat (length prompt)) cols (0, of_nat l, of_nat p) =
      Some (?k, of_nat (l - ?k), of_nat (p - ?k))"
    using scroll_loop_scrolled [of "length prompt" "unat cols" p l n 0] assms c k by simp
  have t: "trim_loop n (of_nat (length prompt)) cols (of_nat (l - ?k)) =
      Some (of_nat (min (l - ?k) (unat cols - length prompt)))"
    using trim_loop_min [of "length prompt" "unat cols" "l - ?k" n] assms c by simp
  have u: "unat (of_nat (min (l - ?k) (unat cols - length prompt)) :: 64 word) = min (l - ?k) (unat cols - length prompt)"
    using assms(4) by (simp add: unat_of_nat take_bit_nat_eq_self)
  have b: "?k + min (l - ?k) (unat cols - length prompt) \<le> length str"
    using k assms(2,3) by simp
  show ?thesis
    using s t u b by (simp add: refreshLine_def add.commute del: write_all.simps)
qed

lemma refreshLine_0_columns: "refreshLine n prompt 0 str l p s = None"
proof -
  have "scroll_loop n plen 0 w = None" for plen w
    by (induction n arbitrary: w) (auto split: prod.split)
  then show ?thesis by (simp add: refreshLine_def)
qed

section \<open>What a refresh changes\<close>

text \<open>Only the terminal's side of the state differs.\<close>

definition same_line :: "session \<Rightarrow> session \<Rightarrow> bool" where
  "same_line s s' \<longleftrightarrow> (\<exists>ws out. s' = s\<lparr>writes := ws, screen := out\<rparr>)"

lemma same_line_refl [simp]: "same_line s s"
  unfolding same_line_def by (rule exI [of _ "writes s"], rule exI [of _ "screen s"]) simp

lemma same_line_trans: "same_line s s1 \<Longrightarrow> same_line s1 s2 \<Longrightarrow> same_line s s2"
  by (auto simp: same_line_def) blast

lemma same_line_sel:
  assumes "same_line s s'"
  shows "buf s' = buf s" "len s' = len s" "pos s' = pos s" "history_index s' = history_index s"
    "history s' = history s" "history_len s' = history_len s" "history_max_len s' = history_max_len s"
    "input s' = input s"
  using assms by (auto simp: same_line_def)

lemma write_fd_same: "same_line s (snd (write_fd bs s))"
  unfolding write_fd_def same_line_def
  by (cases s) (auto split: list.split bool.split)

lemma write_fd_ok: "writes s = [] \<Longrightarrow> write_fd bs s = (True, s\<lparr>screen := screen s @ [bs]\<rparr>)"
  by (simp add: write_fd_def)

lemma write_all_same: "same_line s (write_all bss s)"
proof (induction bss s rule: write_all.induct)
  case (2 bs bss s)
  show ?case
  proof (cases "write_fd bs s")
    case (Pair ok s1)
    then have "same_line s s1" using write_fd_same [of s bs] by simp
    with 2 Pair show ?thesis by (auto intro: same_line_trans)
  qed
qed simp

lemma write_all_writes: "writes s = [] \<Longrightarrow> writes (write_all bss s) = []"
  by (induction bss arbitrary: s) (simp_all add: write_fd_ok)

section \<open>The line under the cursor\<close>

text \<open>The buffer holds \<open>xs\<close> left of the cursor and \<open>ys\<close> from the cursor on.\<close>

definition holds :: "session \<Rightarrow> byte list \<Rightarrow> byte list \<Rightarrow> bool" where
  "holds s xs ys \<longleftrightarrow> pos s = length xs \<and> len s = length xs + length ys \<and> len s < length (buf s)
     \<and> take (len s) (buf s) = xs @ ys \<and> buf s ! len s = 0"

lemma holds_iff:
  "holds s xs ys \<longleftrightarrow> pos s = length xs \<and> len s = length xs + length ys \<and> (\<exists>zs. buf s = xs @ ys @ 0 # zs)"
proof
  assume h: "holds s xs ys"
  then have "buf s = take (len s) (buf s) @ buf s ! len s # drop (Suc (len s)) (buf s)"
    by (intro id_take_nth_drop) (simp add: holds_def)
  then show "pos s = length xs \<and> len s = length xs + length ys \<and> (\<exists>zs. buf s = xs @ ys @ 0 # zs)"
    using h by (auto simp: holds_def)
qed (auto simp: holds_def nth_append)

lemma holds_same_line: "same_line s s' \<Longrightarrow> holds s' xs ys \<longleftrightarrow> holds s xs ys"
  by (simp add: holds_def same_line_sel)

text \<open>A terminal wide enough for the prompt and a line that fits a \<open>size_t\<close>.\<close>

definition roomy :: "nat \<Rightarrow> byte list \<Rightarrow> 64 word \<Rightarrow> session \<Rightarrow> bool" where
  "roomy n prompt cols s \<longleftrightarrow> length prompt < unat cols \<and> length prompt + length (buf s) < 2 ^ 64
     \<and> length (buf s) \<le> n \<and> writes s = []"

definition edited :: "session \<Rightarrow> session \<Rightarrow> bool" where
  "edited s s' \<longleftrightarrow> history_index s' = history_index s \<and> history s' = history s
     \<and> history_len s' = history_len s \<and> history_max_len s' = history_max_len s
     \<and> input s' = input s \<and> writes s' = [] \<and> length (buf s') = length (buf s)"

definition shows_line :: "session \<Rightarrow> byte list \<Rightarrow> byte list \<Rightarrow> step run \<Rightarrow> bool" where
  "shows_line s xs ys r \<longleftrightarrow> (\<exists>s'. r = Some (Inr (Continue s')) \<and> holds s' xs ys \<and> edited s s')"

lemma refresh_shows:
  assumes "holds s xs ys" and "roomy n prompt cols s0" and "edited s0 s"
  shows "shows_line s0 xs ys (refresh n prompt cols s)"
proof -
  have r: "length prompt < unat cols" "pos s \<le> len s" "len s < length (buf s)"
    "length prompt + len s < 2 ^ 64" "len s < n"
    using assms by (auto simp: holds_def roomy_def edited_def)
  then obtain bss where "refreshLine n prompt cols (buf s) (len s) (pos s) s = return_run (write_all bss s)"
    using refreshLine_eq by blast
  then have "refresh n prompt cols s = return_run (Continue (write_all bss s))"
    by (simp add: refresh_def continue_with_def)
  moreover have "holds (write_all bss s) xs ys"
    using assms(1) holds_same_line [OF write_all_same] by simp
  moreover have "edited s0 (write_all bss s)"
    using assms(3) same_line_sel [OF write_all_same [of s bss]] write_all_writes [of s bss]
    by (simp add: edited_def)
  ultimately show ?thesis by (auto simp: shows_line_def return_run_def)
qed

lemma edited_refl: "writes s = [] \<Longrightarrow> edited s s"
  by (simp add: edited_def)

lemma holdsE:
  assumes "holds s xs ys"
  obtains zs where "buf s = xs @ ys @ 0 # zs" "pos s = length xs" "len s = length xs + length ys"
  using assms by (auto simp: holds_iff)

lemma key_left_shows:
  assumes "holds s xs ys" and "roomy n prompt cols s"
  shows "shows_line s (butlast xs) (if xs = [] then ys else last xs # ys) (key_left n prompt cols s)"
proof (cases xs rule: rev_cases)
  case Nil
  with assms show ?thesis
    by (auto simp: key_left_def holds_def shows_line_def return_run_def roomy_def edited_refl)
next
  case (snoc xs' x)
  from assms(1) have "holds (s\<lparr>pos := pos s - 1\<rparr>) xs' (x # ys)"
    by (auto simp: holds_iff snoc)
  moreover have "0 < pos s" using assms(1) snoc by (simp add: holds_def)
  ultimately show ?thesis
    using assms(2) snoc by (auto simp: key_left_def edited_def roomy_def intro!: refresh_shows)
qed

lemma key_right_shows:
  assumes "holds s xs ys" and "roomy n prompt cols s"
  shows "shows_line s (xs @ take 1 ys) (tl ys) (key_right n prompt cols s)"
proof (cases ys)
  case Nil
  with assms show ?thesis
    by (auto simp: key_right_def holds_def shows_line_def return_run_def roomy_def edited_refl)
next
  case (Cons y ys')
  from assms(1) have "holds (s\<lparr>pos := pos s + 1\<rparr>) (xs @ [y]) ys'"
    by (auto simp: holds_iff Cons)
  moreover have "pos s \<noteq> len s" using assms(1) Cons by (simp add: holds_def)
  ultimately show ?thesis
    using assms(2) Cons by (auto simp: key_right_def edited_def roomy_def intro!: refresh_shows)
qed

lemma key_backspace_shows:
  assumes "holds s xs ys" and "roomy n prompt cols s"
  shows "shows_line s (butlast xs) ys (key_backspace n prompt cols s)"
proof (cases xs rule: rev_cases)
  case Nil
  with assms show ?thesis
    by (auto simp: key_backspace_def holds_def shows_line_def return_run_def roomy_def edited_refl)
next
  case (snoc xs' x)
  obtain zs where b: "buf s = xs' @ x # ys @ 0 # zs" and p: "pos s = Suc (length xs')"
    "len s = Suc (length xs' + length ys)"
    using assms(1) snoc by (elim holdsE) auto
  obtain w ws where w: "drop (length ys) (x # ys @ 0 # zs) = w # ws"
    by (cases "drop (length ys) (x # ys @ 0 # zs)") auto
  have m: "memmove (pos s - 1) (pos s) (len s - pos s) (buf s) = Inr (xs' @ ys @ w # ws)"
    using b p w by (simp add: memmove_def)
  let ?s = "s\<lparr>pos := length xs', len := length xs' + length ys, buf := xs' @ ys @ 0 # ws\<rparr>"
  have "length (x # ys @ 0 # zs) - length ys = length (w # ws)"
    unfolding w [symmetric] by simp
  then have l: "length (buf s) = length (xs' @ ys @ 0 # ws)" using b by simp
  have "key_backspace n prompt cols s = refresh n prompt cols ?s"
    using m p by (simp add: key_backspace_def move_buf_def set_buf_def put_at_append list_update_append)
  moreover have "shows_line s xs' ys (refresh n prompt cols ?s)"
    using assms(2) l by (intro refresh_shows) (auto simp: holds_iff edited_def roomy_def)
  ultimately show ?thesis by (simp add: snoc)
qed

declare write_all.simps [simp del]

lemma shows_unchanged:
  "holds s xs ys \<Longrightarrow> roomy n prompt cols s \<Longrightarrow> shows_line s xs ys (return_run (Continue s))"
  by (auto simp: shows_line_def return_run_def roomy_def edited_refl)

text \<open>Taking the byte at the cursor out of the buffer, with \<open>memmove\<close> over \<open>k\<close> bytes.\<close>

lemma remove_at:
  assumes "b = xs @ y # ys @ 0 # zs" and "k \<in> {length ys, Suc (length ys)}"
  obtains w ws where "memmove (length xs) (Suc (length xs)) k b = Inr (xs @ ys @ w # ws)"
    "length b = length (xs @ ys @ w # ws)"
proof -
  consider "k = length ys" | "k = Suc (length ys)" using assms(2) by auto
  then show thesis
  proof cases
    case 1
    obtain w ws where w: "drop (length ys) (y # ys @ 0 # zs) = w # ws"
      by (cases "drop (length ys) (y # ys @ 0 # zs)") auto
    have "length (y # ys @ 0 # zs) - length ys = length (w # ws)"
      unfolding w [symmetric] by simp
    with 1 w assms(1) show thesis by (intro that [of w ws]) (auto simp: memmove_def)
  next
    case 2
    with assms(1) show thesis by (intro that [of 0 "0 # zs"] ) (auto simp: memmove_def)
  qed
qed

lemma key_delete_shows:
  assumes "holds s xs ys" and "roomy n prompt cols s"
  shows "shows_line s xs (tl ys) (key_delete n prompt cols s)"
proof (cases ys)
  case Nil
  with assms show ?thesis
    by (auto simp: key_delete_def holds_def intro: shows_unchanged)
next
  case (Cons y ys')
  obtain zs where b: "buf s = xs @ y # ys' @ 0 # zs" and p: "pos s = length xs"
    "len s = Suc (length xs + length ys')"
    using assms(1) Cons by (elim holdsE) auto
  obtain w ws where w: "memmove (length xs) (Suc (length xs)) (length ys') (buf s) = Inr (xs @ ys' @ w # ws)"
    "length (buf s) = length (xs @ ys' @ w # ws)"
    using remove_at [OF b, of "length ys'"] by auto
  let ?s = "s\<lparr>len := length xs + length ys', buf := xs @ ys' @ 0 # ws\<rparr>"
  have "key_delete n prompt cols s = refresh n prompt cols ?s"
    using w p by (simp add: key_delete_def move_buf_def set_buf_def put_at_append list_update_append)
  moreover have "shows_line s xs ys' (refresh n prompt cols ?s)"
    using assms(2) p w(2) by (intro refresh_shows) (auto simp: holds_iff edited_def roomy_def)
  ultimately show ?thesis by (simp add: Cons)
qed

text \<open>\<open>pos < (len-1)\<close> leaves the last character of the line alone.\<close>

lemma key_ctrl_d_shows:
  assumes "holds s xs ys" and "roomy n prompt cols s" and "xs @ ys \<noteq> []"
  shows "shows_line s xs (if length ys < 2 then ys else tl ys) (key_ctrl_d n prompt cols s)"
proof (cases "length ys < 2")
  case True
  have "len s \<noteq> 0" using assms(1,3) by (auto simp: holds_def)
  with True assms show ?thesis
    by (auto simp: key_ctrl_d_def holds_def intro!: shows_unchanged)
next
  case False
  then obtain y ys' where ys: "ys = y # ys'" "ys' \<noteq> []" by (cases ys) auto
  obtain zs where b: "buf s = xs @ y # ys' @ 0 # zs" and p: "pos s = length xs"
    "len s = Suc (length xs + length ys')"
    using assms(1) ys by (elim holdsE) auto
  obtain w ws where w: "memmove (length xs) (Suc (length xs)) (Suc (length ys')) (buf s) = Inr (xs @ ys' @ w # ws)"
    "length (buf s) = length (xs @ ys' @ w # ws)"
    using remove_at [OF b, of "Suc (length ys')"] by auto
  let ?s = "s\<lparr>len := length xs + length ys', buf := xs @ ys' @ 0 # ws\<rparr>"
  have "key_ctrl_d n prompt cols s = refresh n prompt cols ?s"
    using w p ys(2) by (simp add: key_ctrl_d_def move_buf_def set_buf_def put_at_append list_update_append)
  moreover have "shows_line s xs ys' (refresh n prompt cols ?s)"
    using assms(2) p w(2) by (intro refresh_shows) (auto simp: holds_iff edited_def roomy_def)
  ultimately show ?thesis using False by (simp add: ys)
qed

lemma key_ctrl_t_shows:
  assumes "holds s xs ys" and "roomy n prompt cols s"
  shows "shows_line s (if xs = [] \<or> ys = [] then xs else if length ys = 1 then butlast xs @ [hd ys]
        else butlast xs @ [hd ys, last xs])
      (if xs = [] \<or> ys = [] then ys else if length ys = 1 then [last xs] else tl ys)
      (key_ctrl_t n prompt cols s)"
proof (cases "xs = [] \<or> ys = []")
  case True
  with assms show ?thesis
    by (auto simp: key_ctrl_t_def holds_def intro!: shows_unchanged)
next
  case False
  then obtain xs' x y ys' where xy: "xs = xs' @ [x]" "ys = y # ys'"
    by (metis neq_Nil_conv rev_exhaust)
  obtain zs where b: "buf s = xs' @ x # y # ys' @ 0 # zs" and p: "pos s = Suc (length xs')"
    "len s = Suc (Suc (length xs' + length ys'))"
    using assms(1) xy by (elim holdsE) auto
  let ?s = "s\<lparr>buf := xs' @ y # x # ys' @ 0 # zs\<rparr>"
  have "key_ctrl_t n prompt cols s = refresh n prompt cols (if ys' = [] then ?s else ?s\<lparr>pos := pos s + 1\<rparr>)"
    using b p by (auto simp: key_ctrl_t_def set_buf_def nth_append list_update_append)
  moreover have "shows_line s (if ys' = [] then xs' @ [y] else xs' @ [y, x]) (if ys' = [] then [x] else ys')
      (refresh n prompt cols (if ys' = [] then ?s else ?s\<lparr>pos := pos s + 1\<rparr>))"
    using assms(2) b p by (intro refresh_shows) (auto simp: holds_iff edited_def roomy_def)
  ultimately show ?thesis by (cases "ys' = []") (simp_all add: xy)
qed

lemma key_insert_shows:
  assumes "holds s xs ys" and "roomy n prompt cols s"
  shows "shows_line s (if length xs + length ys < buflen s then xs @ [c] else xs) ys (key_insert c n prompt cols s)"
proof (cases "length xs + length ys < buflen s")
  case False
  with assms show ?thesis
    by (auto simp: key_insert_def holds_def intro: shows_unchanged)
next
  case True
  obtain zs where b: "buf s = xs @ ys @ 0 # zs" and p: "pos s = length xs" "len s = length xs + length ys"
    using assms(1) by (elim holdsE) auto
  then obtain z zs' where z: "zs = z # zs'" using True by (cases zs) (auto simp: buflen_def)
  have wr: "writes s = []" using assms(2) by (simp add: roomy_def)
  have *: "shows_line s (xs @ [c]) ys (refresh n prompt cols t)"
    if "holds t (xs @ [c]) ys" "edited s t" for t
    using that assms(2) by (intro refresh_shows)
  show ?thesis
  proof (cases "ys = []")
    case True
    let ?s = "s\<lparr>pos := length xs + 1, len := length xs + 1, buf := xs @ [c] @ 0 # zs'\<rparr>"
    have e: "holds ?s (xs @ [c]) ys" "edited s ?s"
      using True b z wr by (auto simp: holds_iff edited_def)
    have "holds (?s\<lparr>screen := screen s @ [[c]]\<rparr>) (xs @ [c]) ys" "edited s (?s\<lparr>screen := screen s @ [[c]]\<rparr>)"
      using True b z wr by (auto simp: holds_iff edited_def)
    then have "shows_line s (xs @ [c]) ys (Some (Inr (Continue (?s\<lparr>screen := screen s @ [[c]]\<rparr>))))"
      by (auto simp: shows_line_def)
    then show ?thesis
      using \<open>length xs + length ys < buflen s\<close> True b p z wr * [OF e]
      by (simp add: key_insert_def set_buf_def put_at_append list_update_append write_fd_ok Let_def return_run_def)
  next
    case False
    have m: "memmove (pos s + 1) (pos s) (len s - pos s) (buf s) = Inr (xs @ hd ys # ys @ z # zs')"
      using b p z False by (cases ys) (auto simp: memmove_def)
    let ?s = "s\<lparr>len := length xs + length ys + 1, pos := length xs + 1, buf := xs @ c # ys @ 0 # zs'\<rparr>"
    have e: "holds ?s (xs @ [c]) ys" "edited s ?s"
      using b z wr by (auto simp: holds_iff edited_def)
    have upd: "(xs @ c # ys @ z # zs')[Suc (length xs + length ys) := 0] = xs @ c # ys @ 0 # zs'"
      by (simp add: list_update_append)
    show ?thesis
      using \<open>length xs + length ys < buflen s\<close> False p m * [OF e] upd
      by (simp add: key_insert_def move_buf_def set_buf_def put_at_append list_update_append)
  qed
qed

lemma key_kill_line_shows:
  assumes "holds s xs ys" and "roomy n prompt cols s"
  shows "shows_line s [] [] (key_kill_line n prompt cols s)"
proof -
  obtain b bs where b: "buf s = b # bs"
    using assms(1) by (cases "buf s") (auto simp: holds_def)
  then have "key_kill_line n prompt cols s = refresh n prompt cols (s\<lparr>buf := 0 # bs, pos := 0, len := 0\<rparr>)"
    by (simp add: key_kill_line_def set_buf_def)
  then show ?thesis
    using assms(2) b by (auto simp: holds_iff edited_def roomy_def intro!: refresh_shows)
qed

lemma key_kill_end_shows:
  assumes "holds s xs ys" and "roomy n prompt cols s"
  shows "shows_line s xs [] (key_kill_end n prompt cols s)"
proof -
  obtain zs where b: "buf s = xs @ ys @ 0 # zs" and p: "pos s = length xs"
    using assms(1) by (elim holdsE) auto
  obtain w ws where w: "ys @ 0 # zs = w # ws" by (cases "ys @ 0 # zs") auto
  have l: "length zs + length ys = length ws"
    using arg_cong [OF w, of length] by simp
  have "key_kill_end n prompt cols s = refresh n prompt cols (s\<lparr>buf := xs @ 0 # ws, len := length xs\<rparr>)"
    using b p w by (simp add: key_kill_end_def set_buf_def put_at_append list_update_append)
  then show ?thesis
    using assms(2) b p w l by (auto simp: holds_iff edited_def roomy_def intro!: refresh_shows)
qed

lemma cursor_shows:
  assumes "holds s xs ys" and "roomy n prompt cols s"
  shows "shows_line s [] (xs @ ys) (refresh n prompt cols (s\<lparr>pos := 0\<rparr>))"
    and "shows_line s (xs @ ys) [] (refresh n prompt cols (s\<lparr>pos := len s\<rparr>))"
    and "shows_line s xs ys (refresh n prompt cols (linenoiseClearScreen s))"
  using assms
  by (auto simp: holds_iff edited_def roomy_def linenoiseClearScreen_def write_fd_ok intro!: refresh_shows)

section \<open>The editor\<close>

text \<open>
  The line editor without buffer, lengths and terminal: what each key makes of the characters left
  and right of the cursor.
\<close>

definition edit :: "nat \<Rightarrow> byte \<Rightarrow> byte list \<times> byte list \<Rightarrow> byte list \<times> byte list" where
  "edit cap c line =
     (let (xs, ys) = line in
      if c = 127 \<or> c = 8 then (butlast xs, ys)
      else if c = 4 then (xs, tl ys)
      else if c = 20 then
        if xs = [] \<or> ys = [] then (xs, ys)
        else if length ys = 1 then (butlast xs @ [hd ys], [last xs])
        else (butlast xs @ [hd ys, last xs], tl ys)
      else if c = 2 then (butlast xs, if xs = [] then ys else last xs # ys)
      else if c = 6 then (xs @ take 1 ys, tl ys)
      else if c = 21 then ([], [])
      else if c = 11 then (xs, [])
      else if c = 1 then ([], xs @ ys)
      else if c = 5 then (xs @ ys, [])
      else if c = 12 then (xs, ys)
      else (if length xs + length ys < cap then xs @ [c] else xs, ys))"

text \<open>
  The single bytes that edit or move. Ctrl-d does not delete the last character of the line, although its comment says
  that it removes the character at the right of the cursor; in an empty line it ends the input.
\<close>

definition edits :: "session \<Rightarrow> byte \<Rightarrow> bool" where
  "edits s c \<longleftrightarrow> c \<notin> {13, 3, 16, 14, 27} \<and> \<not> (c = 4 \<and> (len s = 0 \<or> len s = pos s + 1))"

lemma handle_key_edits:
  assumes "holds s xs ys" and "roomy n prompt cols s" and "edits s c"
  shows "shows_line s (fst (edit (buflen s) c (xs, ys))) (snd (edit (buflen s) c (xs, ys)))
    (handle_key c n prompt cols s)"
proof -
  have ne: "c = 4 \<Longrightarrow> xs @ ys \<noteq> []" and d: "(if length ys < 2 then ys else tl ys) = tl ys" if "c = 4"
    using assms(1,3) that by (auto simp: edits_def holds_def) (cases ys; simp)+
  note keys = key_left_shows [OF assms(1,2)] key_right_shows [OF assms(1,2)]
    key_backspace_shows [OF assms(1,2)] key_ctrl_d_shows [OF assms(1,2) ne]
    key_ctrl_t_shows [OF assms(1,2)] key_insert_shows [OF assms(1,2)]
    key_kill_line_shows [OF assms(1,2)] key_kill_end_shows [OF assms(1,2)] cursor_shows [OF assms(1,2)]
  consider "c = 127 \<or> c = 8" | "c = 4" | "c = 20" | "c = 2" | "c = 6" | "c = 21" | "c = 11"
    | "c = 1" | "c = 5" | "c = 12" | "c \<notin> {127, 8, 4, 20, 2, 6, 21, 11, 1, 5, 12, 13, 3, 16, 14, 27}"
    using assms(3) by (auto simp: edits_def)
  then show ?thesis
    by cases (use keys d in \<open>auto simp: handle_key_def edit_def\<close>)
qed

text \<open>The arrow keys and the delete key arrive as sequences after the escape character.\<close>

lemma key_escape_edits:
  assumes "holds s xs ys" and "roomy n prompt cols s"
  shows "input s = (91 # 68 # rest) # ds \<Longrightarrow>
      shows_line (s\<lparr>input := rest # ds\<rparr>) (butlast xs) (if xs = [] then ys else last xs # ys) (handle_key 27 n prompt cols s)"
    and "input s = (91 # 67 # rest) # ds \<Longrightarrow>
      shows_line (s\<lparr>input := rest # ds\<rparr>) (xs @ take 1 ys) (tl ys) (handle_key 27 n prompt cols s)"
    and "input s = [91, 51, 126] # ds \<Longrightarrow> shows_line (s\<lparr>input := [] # ds\<rparr>) xs (tl ys) (handle_key 27 n prompt cols s)"
proof -
  have h: "holds (s\<lparr>input := i\<rparr>) xs ys" "roomy n prompt cols (s\<lparr>input := i\<rparr>)" for i
    using assms by (auto simp: holds_def roomy_def)
  show "input s = (91 # 68 # rest) # ds \<Longrightarrow>
      shows_line (s\<lparr>input := rest # ds\<rparr>) (butlast xs) (if xs = [] then ys else last xs # ys) (handle_key 27 n prompt cols s)"
    using key_left_shows [OF h] by (simp add: handle_key_def key_escape_def read_fd_def get_at_def)
  show "input s = (91 # 67 # rest) # ds \<Longrightarrow>
      shows_line (s\<lparr>input := rest # ds\<rparr>) (xs @ take 1 ys) (tl ys) (handle_key 27 n prompt cols s)"
    using key_right_shows [OF h] by (simp add: handle_key_def key_escape_def read_fd_def get_at_def)
  show "input s = [91, 51, 126] # ds \<Longrightarrow> shows_line (s\<lparr>input := [] # ds\<rparr>) xs (tl ys) (handle_key 27 n prompt cols s)"
    using key_delete_shows [OF h] by (simp add: handle_key_def key_escape_def read_fd_def get_at_def)
qed

section \<open>The history\<close>

text \<open>The history holds the lines \<open>ls\<close>, the oldest first.\<close>

definition hist :: "session \<Rightarrow> byte list list \<Rightarrow> bool" where
  "hist s ls \<longleftrightarrow> 1 \<le> history_max_len s \<and> history_len s = int (length ls)
     \<and> history_len s \<le> history_max_len s
     \<and> (case history s of
          None \<Rightarrow> ls = []
        | Some hs \<Rightarrow> int (length hs) = history_max_len s \<and> take (length ls) hs = map Str ls)"

definition keep_last :: "nat \<Rightarrow> 'a list \<Rightarrow> 'a list" where
  "keep_last m xs = drop (length xs - m) xs"

lemma hist_Some:
  assumes "hist s ls" and "history s = Some hs"
  obtains gs where "hs = map Str ls @ gs" "int (length (map Str ls @ gs)) = history_max_len s"
proof
  show hs: "hs = map Str ls @ drop (length ls) hs"
    using assms append_take_drop_id [of "length ls" hs] by (simp add: hist_def)
  show "int (length (map Str ls @ drop (length ls) hs)) = history_max_len s"
    unfolding hs [symmetric] using assms by (simp add: hist_def)
qed

lemma historyI:
  "history s = Some (map Str ls @ gs) \<Longrightarrow> history_len s = int (length ls) \<Longrightarrow>
    history_max_len s = int (length ls + length gs) \<Longrightarrow> 1 \<le> history_max_len s \<Longrightarrow> hist s ls"
  by (simp add: hist_def)

lemma set_slot_at:
  "history s = Some (xs @ y # ys) \<Longrightarrow> i = int (length xs) \<Longrightarrow>
     set_slot s i x = Inr (s\<lparr>history := Some (xs @ x # ys)\<rparr>)"
  by (simp add: set_slot_def put_at_append list_update_append)

lemma slot_at_at: "history s = Some (xs @ y # ys) \<Longrightarrow> i = int (length xs) \<Longrightarrow> slot_at s i = Inr y"
  by (simp add: slot_at_def nth_append)

lemma free_slot_at:
  "history s = Some (xs @ y # ys) \<Longrightarrow> i = int (length xs) \<Longrightarrow> y \<noteq> Garbage \<Longrightarrow>
     free_slot s i = Inr (s\<lparr>history := Some (xs @ Garbage # ys)\<rparr>)"
  by (simp add: free_slot_def slot_at_at set_slot_at)

lemma history_add_full:
  assumes "hist s (l # ls)" and "history_len s = history_max_len s"
  shows "linenoiseHistoryAdd line s =
    Inr (1, s\<lparr>history := Some (map Str (ls @ [line])), history_len := history_len s\<rparr>)"
proof -
  obtain hs where "history s = Some hs"
    using assms(1) by (auto simp: hist_def split: option.splits)
  moreover from this obtain gs where "hs = map Str (l # ls) @ gs"
    "int (length (map Str (l # ls) @ gs)) = history_max_len s"
    using hist_Some [OF assms(1)] by metis
  moreover have len: "history_len s = int (Suc (length ls))"
    using assms(1) by (simp add: hist_def)
  ultimately have hs: "history s = Some (Str l # map Str ls)"
    using assms(2) by simp
  let ?s = "s\<lparr>history := Some (Garbage # map Str ls)\<rparr>"
  have free: "free_slot s 0 = Inr ?s"
    using free_slot_at [of s "[]" "Str l" "map Str ls" 0] hs by simp
  obtain x where mv: "take (length ls) (drop 1 (Garbage # map Str ls)) @ drop (length ls) (Garbage # map Str ls)
      = map Str ls @ [x]"
    by (cases "drop (length ls) (Garbage # map Str ls)") (auto, metis One_nat_def Suc_eq_plus1
        add_diff_cancel_left' length_Cons length_drop length_map list.size(3) length_0_conv Suc_inject)
  let ?t = "s\<lparr>history := Some (map Str ls @ [x]), history_len := int (length ls)\<rparr>"
  have "set_slot ?t (int (length ls)) (Str line) =
      Inr (?t\<lparr>history := Some (map Str ls @ [Str line])\<rparr>)"
    by (subst set_slot_at [of _ "map Str ls" x "[]"]) simp_all
  moreover have M: "history_max_len s = 1 + int (length ls)" and L: "history_len s = 1 + int (length ls)"
    using assms(2) len by simp_all
  ultimately show ?thesis
    using free mv hs by (simp add: linenoiseHistoryAdd_def Let_def M L)
qed

lemma history_add_room:
  assumes "hist s ls" and "history_len s < history_max_len s"
  shows "\<exists>hs. linenoiseHistoryAdd line s = Inr (1, s\<lparr>history := Some hs, history_len := history_len s + 1\<rparr>)
     \<and> hist (s\<lparr>history := Some hs, history_len := history_len s + 1\<rparr>) (ls @ [line])"
proof -
  have m: "1 \<le> history_max_len s" "history_len s = int (length ls)"
    using assms(1) by (simp_all add: hist_def)
  obtain hs where hs: "(case history s of None \<Rightarrow> s\<lparr>history := Some (replicate (nat (history_max_len s)) Null)\<rparr>
      | Some hs \<Rightarrow> s) = s\<lparr>history := Some hs\<rparr>" "hist (s\<lparr>history := Some hs\<rparr>) ls"
  proof (cases "history s")
    case None
    then show ?thesis
      using assms(1) that [of "replicate (nat (history_max_len s)) Null"] by (simp add: hist_def)
  next
    case (Some hs)
    then show ?thesis using assms(1) that [of hs] by (cases s) (simp add: hist_def)
  qed
  obtain gs where g: "hs = map Str ls @ gs" "int (length (map Str ls @ gs)) = history_max_len s"
    using hist_Some [OF hs(2)] by auto
  obtain y ys where y: "gs = y # ys"
    using g assms(2) m by (cases gs) auto
  have "linenoiseHistoryAdd line s = Inr (1, s\<lparr>history := Some (map Str ls @ Str line # ys),
      history_len := history_len s + 1\<rparr>)"
    using m assms(2) hs(1) g(1) y
    by (simp add: linenoiseHistoryAdd_def set_slot_at)
  moreover have "hist (s\<lparr>history := Some (map Str ls @ Str line # ys), history_len := history_len s + 1\<rparr>) (ls @ [line])"
    using g y m by (intro historyI [of _ _ ys]) simp_all
  ultimately show ?thesis by auto
qed

lemma history_add:
  assumes "hist s ls"
  shows "\<exists>hs k. linenoiseHistoryAdd line s = Inr (1, s\<lparr>history := Some hs, history_len := k\<rparr>)
     \<and> hist (s\<lparr>history := Some hs, history_len := k\<rparr>) (keep_last (nat (history_max_len s)) (ls @ [line]))"
proof (cases "history_len s = history_max_len s")
  case True
  then obtain l ls' where ls: "ls = l # ls'"
    using assms by (cases ls) (auto simp: hist_def)
  let ?s = "s\<lparr>history := Some (map Str (ls' @ [line])), history_len := history_len s\<rparr>"
  have "hist ?s (ls' @ [line])"
    using assms True by (intro historyI [of _ _ "[]"]) (auto simp: ls hist_def)
  moreover have "nat (history_max_len s) = Suc (length ls')"
    using assms True by (simp add: ls hist_def)
  then have "keep_last (nat (history_max_len s)) (ls @ [line]) = ls' @ [line]"
    by (simp add: ls keep_last_def)
  ultimately show ?thesis
    using history_add_full [of s l ls' line] assms True unfolding ls by auto
next
  case False
  then have "history_len s < history_max_len s" using assms by (simp add: hist_def)
  moreover have "keep_last (nat (history_max_len s)) (ls @ [line]) = ls @ [line]"
    using assms calculation by (simp add: keep_last_def hist_def)
  ultimately show ?thesis
    using history_add_room [OF assms, of line] by auto
qed

lemma history_set_max_len:
  assumes "hist s ls" and "history_len s = history_max_len s" and "1 \<le> l"
  shows "\<exists>s'. linenoiseHistorySetMaxLen l s = Inr (1, s') \<and> history_max_len s' = l
     \<and> hist s' (keep_last (nat l) ls)"
proof -
  have ls: "history_len s = int (length ls)" "ls \<noteq> []"
    using assms(1,2) by (auto simp: hist_def)
  obtain hs where "history s = Some hs"
    using assms(1,2) by (auto simp: hist_def split: option.splits)
  moreover from this obtain gs where "hs = map Str ls @ gs" "int (length (map Str ls @ gs)) = history_max_len s"
    using hist_Some [OF assms(1)] by metis
  ultimately have hs: "history s = Some (map Str ls)"
    using ls assms(2) by simp
  let ?k = "min (nat l) (length ls)"
  let ?hs = "map Str (keep_last (nat l) ls) @ replicate (nat (l - int ?k)) Garbage"
  have tocopy: "(if l < history_len s then l else history_len s) = int ?k"
    using ls(1) assms(3) by auto
  have "take ?k (drop (length ls - ?k) (map Str ls)) = map Str (keep_last (nat l) ls)"
    by (auto simp: keep_last_def take_map drop_map min_def)
  moreover have "nat (int (length ls) - int ?k) = length ls - ?k" by simp
  ultimately have eq: "linenoiseHistorySetMaxLen l s = Inr (1, s\<lparr>history := Some ?hs, history_max_len := l,
      history_len := int ?k\<rparr>)"
    using assms(2,3) hs ls(1)
    by (auto simp: linenoiseHistorySetMaxLen_def tocopy [unfolded ls(1)] Let_def min_def)
  have "hist (s\<lparr>history := Some ?hs, history_max_len := l, history_len := int ?k\<rparr>) (keep_last (nat l) ls)"
    using assms(3) by (auto simp: hist_def keep_last_def)
  then show ?thesis using eq by auto
qed

section \<open>Moving in the history\<close>

lemma slot_at_nth: "history s = Some hs \<Longrightarrow> j < length hs \<Longrightarrow> slot_at s (int j) = Inr (hs ! j)"
  by (simp add: slot_at_def)

lemma set_slot_nth:
  "history s = Some hs \<Longrightarrow> j < length hs \<Longrightarrow> set_slot s (int j) x = Inr (s\<lparr>history := Some (hs[j := x])\<rparr>)"
  by (simp add: set_slot_def)

lemma free_slot_nth:
  "history s = Some hs \<Longrightarrow> j < length hs \<Longrightarrow> hs ! j \<noteq> Garbage \<Longrightarrow>
     free_slot s (int j) = Inr (s\<lparr>history := Some (hs[j := Garbage])\<rparr>)"
  by (simp add: free_slot_def slot_at_nth set_slot_nth)

lemma hist_nth:
  assumes "hist s ls" and "j < length ls" and "history s = Some hs"
  shows "j < length hs" "hs ! j = Str (ls ! j)"
proof -
  obtain gs where "hs = map Str ls @ gs" using hist_Some [OF assms(1,3)] by blast
  then show "j < length hs" "hs ! j = Str (ls ! j)" using assms(2) by (simp_all add: nth_append)
qed

lemma hist_cong:
  "history s' = history s \<Longrightarrow> history_len s' = history_len s \<Longrightarrow>
     history_max_len s' = history_max_len s \<Longrightarrow> hist s' ls \<longleftrightarrow> hist s ls"
  unfolding hist_def by (simp only:)

lemma hist_update:
  assumes "hist s ls" and "history s = Some hs" and "j < length ls"
  shows "hist (s\<lparr>history := Some (hs[j := Str l])\<rparr>) (ls[j := l])"
  using assms by (auto simp: hist_def map_update take_update_swap)

lemma strlen_holds:
  assumes "buf s = ls @ 0 # zs" and "0 \<notin> set ls"
  shows "strlen (buf s) = Inr (length ls)"
proof -
  have "takeWhile (\<lambda>b. b \<noteq> 0) (ls @ 0 # zs) = ls"
    using assms(2) by (subst takeWhile_append2) auto
  then show ?thesis using assms(1) by (simp add: strlen_def)
qed

lemma key_history_moves:
  assumes "holds s xs ys" and "0 \<notin> set (xs @ ys)" and "hist s ls" and "roomy n prompt cols s"
    and "history_index s = int i" and "i < length ls" and "int k = int i + (if up then 1 else -1)"
    and "k < length ls" and "ls' = ls[length ls - 1 - i := xs @ ys]"
    and "line = ls ! (length ls - 1 - k)" and "0 \<notin> set line" and "length line \<le> buflen s"
  shows "\<exists>s'. key_history up n prompt cols s = Some (Inr (Continue s')) \<and> holds s' line []
     \<and> hist s' ls' \<and> history_index s' = int k \<and> history_max_len s' = history_max_len s
     \<and> length (buf s') = length (buf s) \<and> writes s' = [] \<and> input s' = input s"
proof -
  let ?j = "length ls - 1 - i"
  obtain hs where hs: "history s = Some hs"
    using assms(3,6) by (auto simp: hist_def split: option.splits)
  have j: "?j < length ls" using assms(6) by simp
  have m: "1 < length ls" "history_len s = int (length ls)"
    using assms(3,6,7,8) by (auto simp: hist_def split: if_splits)
  have ij: "history_len s - 1 - history_index s = int ?j"
    using m assms(5,6) by simp
  let ?s = "s\<lparr>history := Some (hs[?j := Str (xs @ ys)])\<rparr>"
  have free: "free_slot s (int ?j) = Inr (s\<lparr>history := Some (hs[?j := Garbage])\<rparr>)"
    using hist_nth [OF assms(3) j hs] by (intro free_slot_nth [OF hs]) auto
  obtain zs where b: "buf s = (xs @ ys) @ 0 # zs" using assms(1) by (elim holdsE) auto
  have dup: "strdup (buf s) = Inr (xs @ ys)"
    using strlen_holds [OF b assms(2)] b by (simp add: strdup_def)
  have set: "set_slot (s\<lparr>history := Some (hs[?j := Garbage])\<rparr>) (int ?j) (Str (xs @ ys)) = Inr ?s"
    using hist_nth [OF assms(3) j hs]
      set_slot_nth [of "s\<lparr>history := Some (hs[?j := Garbage])\<rparr>" "hs[?j := Garbage]" ?j "Str (xs @ ys)"]
    by simp
  have h: "hist ?s ls'"
    unfolding assms(9) by (rule hist_update [OF assms(3) hs j])
  have kj: "length ls - 1 - k < length ls" "length ls - 1 - k \<noteq> ?j" "history_len s - 1 - int k = int (length ls - 1 - k)"
    using assms(6,7,8) m by (auto split: if_splits)
  have slot: "slot_at (?s\<lparr>history_index := int k\<rparr>) (int (length ls - 1 - k)) = Inr (Str line)"
    using slot_at_nth [of "?s\<lparr>history_index := int k\<rparr>" "hs[?j := Str (xs @ ys)]" "length ls - 1 - k"]
      hist_nth [OF h, of "length ls - 1 - k" "hs[?j := Str (xs @ ys)]"] kj assms(9,10) by simp
  let ?b = "line @ replicate (buflen s - length line) 0 @ drop (buflen s) (buf s)"
  have cpy: "strncpy (buf s) line (buflen s) = Inr ?b"
    using assms(12) by (simp add: strncpy_def buflen_def)
  have "length (buf s) = buflen s + 1"
    using assms(1) by (cases "buf s") (auto simp: buflen_def holds_def)
  then obtain z where z: "drop (buflen s) (buf s) = [z]"
  proof -
    have "length (drop (buflen s) (buf s)) = Suc 0" using \<open>length (buf s) = buflen s + 1\<close> by simp
    then show thesis using that unfolding length_Suc_conv length_0_conv by blast
  qed
  have upd: "?b[buflen s := 0] = line @ 0 # replicate (buflen s - length line) 0"
    using assms(12) z by (simp add: list_update_append replicate_append_same)
  let ?t = "?s\<lparr>history_index := int k, buf := line @ 0 # replicate (buflen s - length line) 0,
    len := length line, pos := length line\<rparr>"
  have len: "strlen (line @ 0 # replicate (buflen s - length line) 0) = Inr (length line)"
    using strlen_holds [of "s\<lparr>buf := line @ 0 # replicate (buflen s - length line) 0\<rparr>" line] assms(11) by simp
  have "\<not> int k < 0" "\<not> history_len s \<le> int k" using m assms(8) by auto
  moreover have "buflen s < length ?b" using z by simp
  ultimately have "key_history up n prompt cols s = refresh n prompt cols ?t"
    using m ij free dup set kj(3) slot cpy upd len assms(5,7)
    by (simp add: key_history_def Let_def set_buf_def buflen_def)
  moreover have "shows_line ?t line [] (refresh n prompt cols ?t)"
    using assms(4,12) \<open>length (buf s) = buflen s + 1\<close>
    by (intro refresh_shows) (auto simp: holds_iff edited_def roomy_def)
  ultimately obtain s' where s': "key_history up n prompt cols s = Some (Inr (Continue s'))" "holds s' line []" "edited ?t s'"
    by (auto simp: shows_line_def)
  have "hist s' ls'" using h s'(3) hist_cong [of s' ?s] by (simp add: edited_def)
  with s' show ?thesis
    using \<open>length (buf s) = buflen s + 1\<close> assms(12) by (auto simp: edited_def)
qed

lemma key_enter_returns:
  assumes "hist s (ls @ [l])"
  shows "\<exists>s'. key_enter s = Some (Inr (Return (int (len s)) s')) \<and> hist s' ls \<and> buf s' = buf s
     \<and> input s' = input s \<and> len s' = len s \<and> pos s' = pos s"
proof -
  obtain hs where hs: "history s = Some hs"
    using assms by (auto simp: hist_def split: option.splits)
  have len: "history_len s - 1 = int (length ls)" using assms by (simp add: hist_def)
  let ?s = "s\<lparr>history_len := int (length ls)\<rparr>"
  have "free_slot ?s (int (length ls)) = Inr (?s\<lparr>history := Some (hs[length ls := Garbage])\<rparr>)"
    using hist_nth [OF assms, of "length ls"] hs by (intro free_slot_nth) auto
  moreover have "take (length ls) hs = map Str ls"
    using assms hs by (auto simp: hist_def dest: arg_cong [where f = "take (length ls)"])
  then have "hist (?s\<lparr>history := Some (hs[length ls := Garbage])\<rparr>) ls"
    using assms hs by (auto simp: hist_def)
  ultimately show ?thesis
    using len by (auto simp: key_enter_def return_run_def)
qed

section \<open>The loop\<close>

lemma concat_dropWhile: "concat (dropWhile (\<lambda>d. d = []) dss) = concat dss"
  by (induction dss) simp_all

lemma read_fd_1:
  assumes "concat (input s) = c # cs"
  obtains inp where "read_fd 1 s = ([c], s\<lparr>input := inp\<rparr>)" "concat inp = cs"
proof -
  have "concat (dropWhile (\<lambda>d. d = []) (input s)) = c # cs"
    using assms by (simp add: concat_dropWhile)
  then obtain d ds where d: "dropWhile (\<lambda>d. d = []) (input s) = d # ds"
    by (cases "dropWhile (\<lambda>d. d = []) (input s)") auto
  then have "d \<noteq> []" by (simp add: dropWhile_eq_Cons_conv)
  then obtain d' where "d = c # d'"
    using \<open>concat (dropWhile (\<lambda>d. d = []) (input s)) = c # cs\<close> d by (cases d) auto
  then show thesis
    using that [of "d' # ds"] d \<open>concat (dropWhile (\<lambda>d. d = []) (input s)) = c # cs\<close>
    by (simp add: read_fd_def)
qed

definition line_key :: "byte \<Rightarrow> bool" where
  "line_key c \<longleftrightarrow> c \<notin> {3, 4, 13, 14, 16, 27}"

lemma prompt_loop_edits:
  assumes "holds s xs ys" and "roomy n0 prompt cols s" and "hist s (ls @ [l])"
    and "concat (input s) = cs @ 13 # rest" and "\<forall>c \<in> set cs. line_key c"
    and "n0 + length cs < n"
  shows "\<exists>s'. prompt_loop n None prompt cols s =
      Some (Inr (int (length (fst (fold (edit (buflen s)) cs (xs, ys)))
                    + length (snd (fold (edit (buflen s)) cs (xs, ys)))), s'))
     \<and> holds s' (fst (fold (edit (buflen s)) cs (xs, ys))) (snd (fold (edit (buflen s)) cs (xs, ys)))
     \<and> hist s' ls \<and> concat (input s') = rest"
  using assms
proof (induction cs arbitrary: s xs ys n)
  case Nil
  obtain m where n: "n = Suc m" using Nil.prems(6) by (cases n) auto
  obtain inp where r: "read_fd 1 s = ([13], s\<lparr>input := inp\<rparr>)" "concat inp = rest"
    using read_fd_1 [of s 13 rest] Nil.prems(4) by auto
  have "hist (s\<lparr>input := inp\<rparr>) (ls @ [l])" using Nil.prems(3) by (subst hist_cong [of _ s]) simp_all
  from key_enter_returns [OF this] obtain s' where
    e: "key_enter (s\<lparr>input := inp\<rparr>) = Some (Inr (Return (int (len s)) s'))" "hist s' ls" "buf s' = buf s"
      "input s' = inp" "len s' = len s" "pos s' = pos s"
    by auto
  have "prompt_loop n None prompt cols s = Some (Inr (int (len s), s'))"
    using r e by (simp add: n handle_key_def return_run_def)
  moreover have "holds s' xs ys" "len s = length xs + length ys"
    using Nil.prems(1) e by (auto simp: holds_def)
  ultimately show ?case using e r by simp
next
  case (Cons c cs)
  obtain m where n: "n = Suc m" using Cons.prems(6) by (cases n) auto
  obtain inp where r: "read_fd 1 s = ([c], s\<lparr>input := inp\<rparr>)" "concat inp = cs @ 13 # rest"
    using read_fd_1 [of s c "cs @ 13 # rest"] Cons.prems(4) by auto
  let ?s = "s\<lparr>input := inp\<rparr>"
  have h: "holds ?s xs ys" and bl: "buflen ?s = buflen s"
    using Cons.prems(1) by (auto simp: holds_def buflen_def)
  have ro: "roomy m prompt cols ?s"
    using Cons.prems(2,6) n by (simp add: roomy_def)
  have "edits ?s c" using Cons.prems(5) by (simp add: edits_def line_key_def)
  from handle_key_edits [OF h ro this] obtain t where
    t: "handle_key c m prompt cols ?s = Some (Inr (Continue t))"
      "holds t (fst (edit (buflen s) c (xs, ys))) (snd (edit (buflen s) c (xs, ys)))" "edited ?s t"
    unfolding bl by (auto simp: shows_line_def)
  have "hist t (ls @ [l])" using Cons.prems(3) t(3) by (subst hist_cong [of _ s]) (simp_all add: edited_def)
  moreover have "roomy n0 prompt cols t"
    using Cons.prems(2) t(3) by (auto simp: roomy_def edited_def)
  moreover have "concat (input t) = cs @ 13 # rest" using r t(3) by (simp add: edited_def)
  moreover have "buflen t = buflen s" using t(3) by (simp add: edited_def buflen_def)
  ultimately have "\<exists>s'. prompt_loop m None prompt cols t =
      Some (Inr (int (length (fst (fold (edit (buflen s)) cs (edit (buflen s) c (xs, ys))))
                    + length (snd (fold (edit (buflen s)) cs (edit (buflen s) c (xs, ys))))), s'))
     \<and> holds s' (fst (fold (edit (buflen s)) cs (edit (buflen s) c (xs, ys))))
         (snd (fold (edit (buflen s)) cs (edit (buflen s) c (xs, ys))))
     \<and> hist s' ls \<and> concat (input s') = rest"
    using Cons.IH [OF t(2), of m] Cons.prems(5,6) n by simp
  moreover have "prompt_loop n None prompt cols s = prompt_loop m None prompt cols t"
    using r t(1) by (simp add: n return_run_def)
  ultimately show ?case by simp
qed

lemma prompt_edits:
  assumes "buf s \<noteq> []" and "roomy n0 prompt cols s" and "hist s ls"
    and "concat (input s) = cs @ 13 # rest" and "\<forall>c \<in> set cs. line_key c"
    and "n0 + length cs < n" and "fold (edit (buflen s)) cs ([], []) = (xs, ys)"
  shows "\<exists>s'. linenoisePrompt n None prompt cols s = Some (Inr (int (length (xs @ ys)), s'))
     \<and> holds s' xs ys \<and> hist s' (keep_last (nat (history_max_len s) - 1) ls) \<and> concat (input s') = rest"
proof -
  obtain b bs where b: "buf s = b # bs" using assms(1) by (cases "buf s") auto
  let ?s = "s\<lparr>len := 0, pos := 0, history_index := 0, buf := 0 # bs\<rparr>"
  have h: "hist ?s ls" using assms(3) by (subst hist_cong [of _ s]) simp_all
  obtain hs k where add: "linenoiseHistoryAdd [] ?s = Inr (1, ?s\<lparr>history := Some hs, history_len := k\<rparr>)"
    "hist (?s\<lparr>history := Some hs, history_len := k\<rparr>) (keep_last (nat (history_max_len s)) (ls @ [[]]))"
    using history_add [OF h, of "[]"] by auto
  let ?t = "?s\<lparr>history := Some hs, history_len := k, screen := screen s @ [prompt]\<rparr>"
  have w: "writes s = []" using assms(2) by (simp add: roomy_def)
  obtain M where M: "nat (history_max_len s) = Suc M"
    using assms(3) by (cases "nat (history_max_len s)") (auto simp: hist_def)
  have "hist ?t (keep_last (nat (history_max_len s)) (ls @ [[]]))"
    using add(2) by (subst hist_cong [of _ "?s\<lparr>history := Some hs, history_len := k\<rparr>"]) simp_all
  then have "hist ?t (keep_last (nat (history_max_len s) - 1) ls @ [[]])"
    by (simp add: M keep_last_def Suc_diff_le)
  moreover have "holds ?t [] []" by (simp add: holds_iff)
  moreover have "roomy n0 prompt cols ?t" using assms(2) b by (auto simp: roomy_def)
  moreover have "concat (input ?t) = cs @ 13 # rest" using assms(4) by simp
  moreover have "buflen ?t = buflen s" using b by (simp add: buflen_def)
  ultimately have "\<exists>s'. prompt_loop n None prompt cols ?t = Some (Inr (int (length xs + length ys), s'))
      \<and> holds s' xs ys \<and> hist s' (keep_last (nat (history_max_len s) - 1) ls) \<and> concat (input s') = rest"
    using prompt_loop_edits [of ?t "[]" "[]" n0 prompt cols _ "[]" cs rest n] assms(5,6,7) by simp
  moreover have "linenoisePrompt n None prompt cols s = prompt_loop n None prompt cols ?t"
    using b add(1) w by (simp add: linenoisePrompt_def set_buf_def write_fd_ok)
  ultimately show ?thesis by simp
qed

section \<open>The history file\<close>

lemma keep_last_keep_last: "keep_last m (keep_last m xs @ ys) = keep_last m (xs @ ys)"
proof (cases "length xs \<le> m")
  case False
  then have "length ys + (length xs - m) = length xs + length ys - m" by simp
  then show ?thesis using False by (simp add: keep_last_def)
qed (simp add: keep_last_def)

lemma save_lines_Str: "save_lines (map Str ls) = Inr (concat (map (\<lambda>l. l @ [10]) ls))"
  by (induction ls) simp_all

lemma fgets_line: "10 \<notin> set l \<Longrightarrow> length l < n \<Longrightarrow> fgets n (l @ 10 # bs) = (l @ [10], bs)"
proof (induction l arbitrary: n)
  case Nil
  then show ?case by (cases n) simp_all
next
  case (Cons b l)
  then show ?case by (cases n) auto
qed

text \<open>A line that survives being written and read: no CR, LF or NUL, and it fits the buffer.\<close>

definition storable :: "byte list \<Rightarrow> bool" where
  "storable l \<longleftrightarrow> 0 \<notin> set l \<and> 10 \<notin> set l \<and> 13 \<notin> set l \<and> length l < 4095"

lemma until_append: "b \<notin> set l \<Longrightarrow> until b (l @ bs) = l @ until b bs"
  by (induction l) (auto simp: until_def)

lemma chomp_line: "storable l \<Longrightarrow> chomp (l @ [10]) = l"
  using until_append [of 0 l "[10]"] until_append [of 10 l "[10]"]
  by (simp add: chomp_def storable_def) (simp add: until_def)

lemma load_loop_lines:
  assumes "hist s ks" and "\<forall>l \<in> set ls. storable l"
  shows "\<exists>s'. load_loop (concat (map (\<lambda>l. l @ [10]) ls)) s = Inr s' \<and> history_max_len s' = history_max_len s
     \<and> hist s' (keep_last (nat (history_max_len s)) (ks @ ls))"
  using assms
proof (induction ls arbitrary: s ks)
  case Nil
  have "keep_last (nat (history_max_len s)) ks = ks"
    using Nil.prems(1) by (auto simp: keep_last_def hist_def)
  then show ?case using Nil.prems by (simp add: load_loop.simps)
next
  case (Cons l ls)
  let ?text = "l @ 10 # concat (map (\<lambda>l. l @ [10]) ls)"
  have fg: "fgets 4095 ?text = (l @ [10], concat (map (\<lambda>l. l @ [10]) ls))"
    using Cons.prems(2) by (intro fgets_line) (auto simp: storable_def)
  obtain hs k where add: "linenoiseHistoryAdd l s = Inr (1, s\<lparr>history := Some hs, history_len := k\<rparr>)"
    "hist (s\<lparr>history := Some hs, history_len := k\<rparr>) (keep_last (nat (history_max_len s)) (ks @ [l]))"
    using history_add [OF Cons.prems(1)] by blast
  have "load_loop ?text s =
      load_loop (concat (map (\<lambda>l. l @ [10]) ls)) (s\<lparr>history := Some hs, history_len := k\<rparr>)"
    using fg add(1) Cons.prems(2) by (subst load_loop.simps) (simp add: chomp_line)
  then show ?case
    using Cons.IH [OF add(2)] Cons.prems(2) by (simp add: keep_last_keep_last)
qed

lemma save_load:
  assumes "hist s ls" and "\<forall>l \<in> set ls. storable l" and "hist t ks"
  shows "\<exists>text t'. linenoiseHistorySave s = Inr text \<and> linenoiseHistoryLoad (Some text) t = Inr (0, t')
     \<and> hist t' (keep_last (nat (history_max_len t)) (ks @ ls))"
proof -
  have "linenoiseHistorySave s = Inr (concat (map (\<lambda>l. l @ [10]) ls))"
  proof (cases "ls = []")
    case True
    then show ?thesis using assms(1) by (simp add: linenoiseHistorySave_def hist_def)
  next
    case False
    obtain hs where "history s = Some hs"
      using assms(1) False by (auto simp: hist_def split: option.splits)
    then show ?thesis
      using assms(1) False by (simp add: linenoiseHistorySave_def hist_def save_lines_Str)
  qed
  then show ?thesis
    using load_loop_lines [OF assms(3,2)] by (auto simp: linenoiseHistoryLoad_def)
qed

section \<open>Where the code goes wrong\<close>

text \<open>
  \<open>linenoiseHistorySetMaxLen\<close> copies from the end of the array, not from the end of its entries: a
  history that is not full loses its lines to null pointers.
\<close>

definition one_line :: session where
  "one_line = \<lparr>buf = [0], len = 0, pos = 0, history_index = 0, history = Some [Str [104, 105], Null, Null],
     history_len = 1, history_max_len = 3, input = [], writes = [], screen = []\<rparr>"

lemma set_max_len_loses_lines:
  "hist one_line [[104, 105]]"
  "linenoiseHistorySetMaxLen 5 one_line =
     Inr (1, one_line\<lparr>history := Some [Null, Garbage, Garbage, Garbage, Garbage], history_max_len := 5\<rparr>)"
  "linenoiseHistorySave (one_line\<lparr>history := Some [Null, Garbage, Garbage, Garbage, Garbage],
     history_max_len := 5\<rparr>) = Inl Undefined"
  by (simp_all add: one_line_def hist_def linenoiseHistorySetMaxLen_def linenoiseHistorySave_def
      numeral_eq_Suc)

text \<open>After ctrl-c the empty line that the prompt put into the history stays there.\<close>

lemma ctrl_c_leaves_entry:
  assumes "buf s \<noteq> []" and "writes s = []" and "hist s ls" and "concat (input s) = 3 # rest"
  shows "\<exists>s'. linenoisePrompt (Suc n) None prompt cols s = Some (Inr (-1, s'))
     \<and> hist s' (keep_last (nat (history_max_len s)) (ls @ [[]]))"
proof -
  obtain b bs where b: "buf s = b # bs" using assms(1) by (cases "buf s") auto
  let ?s = "s\<lparr>len := 0, pos := 0, history_index := 0, buf := 0 # bs\<rparr>"
  have h: "hist ?s ls" using assms(3) by (subst hist_cong [of _ s]) simp_all
  obtain hs k where add: "linenoiseHistoryAdd [] ?s = Inr (1, ?s\<lparr>history := Some hs, history_len := k\<rparr>)"
    "hist (?s\<lparr>history := Some hs, history_len := k\<rparr>) (keep_last (nat (history_max_len s)) (ls @ [[]]))"
    using history_add [OF h, of "[]"] by auto
  let ?t = "?s\<lparr>history := Some hs, history_len := k, screen := screen s @ [prompt]\<rparr>"
  obtain inp where r: "read_fd 1 ?t = ([3], ?t\<lparr>input := inp\<rparr>)"
    using read_fd_1 [of ?t 3 rest] assms(4) by auto
  have "linenoisePrompt (Suc n) None prompt cols s = Some (Inr (-1, ?t\<lparr>input := inp\<rparr>))"
    using b add(1) assms(2) r
    by (simp add: linenoisePrompt_def set_buf_def write_fd_ok handle_key_def key_ctrl_c_def return_run_def)
  moreover have "hist (?t\<lparr>input := inp\<rparr>) (keep_last (nat (history_max_len s)) (ls @ [[]]))"
    using add(2) by (subst hist_cong [of _ "?s\<lparr>history := Some hs, history_len := k\<rparr>"]) simp_all
  ultimately show ?thesis by blast
qed

text \<open>
  An escape that is delivered alone leaves \<open>seq\<close> unset.
\<close>

lemma lone_escape:
  assumes "concat (input s) = []"
  shows "key_escape n prompt cols s = Some (Inl Undefined)"
proof -
  have "dropWhile (\<lambda>d. d = []) (input s) = []" using assms by (simp add: dropWhile_eq_Nil_conv)
  then have "read_fd 2 s = ([], s\<lparr>input := []\<rparr>)" by (simp only: read_fd_def list.case)
  then show ?thesis by (simp add: key_escape_def get_at_def)
qed

text \<open>\<open>snprintf\<close> returns the length of the whole completion, also when it did not fit.\<close>

lemma long_completion_overruns:
  assumes "buflen s < length str" and "0 < buflen s" and "snprintf_s (buf s) (buflen s) str = Inr (k, b)"
  shows "k = length str" "length b = length (buf s)" "length b \<le> k"
  using assms by (auto simp: snprintf_s_def buflen_def split: if_splits)

section \<open>Properties\<close>

text \<open>
  C33: every key that edits the line or moves in it, but for the keys of the history, does to the buffer exactly what
  the editor on two byte lists does, and the history and the size of the buffer stay as they are. The keys are the single
  bytes, but ctrl-d before the last character of the line, and the escape sequences of the left and right arrows, which
  move like ctrl-b and ctrl-f, and of the delete key, which removes the character at the right of the cursor; the
  sequences are taken from the input.
\<close>

theorem key_refines_editor:
  assumes "holds s xs ys" and "roomy n prompt cols s"
  shows "(edits s c \<longrightarrow> (\<exists>s'. handle_key c n prompt cols s = Some (Inr (Continue s')) \<and> edited s s'
      \<and> holds s' (fst (edit (buflen s) c (xs, ys))) (snd (edit (buflen s) c (xs, ys)))))
    \<and> (\<forall>k rest ds. k \<in> {67, 68} \<and> input s = (91 # k # rest) # ds \<longrightarrow>
        (\<exists>s'. handle_key 27 n prompt cols s = Some (Inr (Continue s')) \<and> edited (s\<lparr>input := rest # ds\<rparr>) s'
          \<and> holds s' (fst (edit (buflen s) (if k = 68 then 2 else 6) (xs, ys))) (snd (edit (buflen s) (if k = 68 then 2 else 6) (xs, ys)))))
    \<and> (\<forall>ds. input s = [91, 51, 126] # ds \<longrightarrow>
        (\<exists>s'. handle_key 27 n prompt cols s = Some (Inr (Continue s')) \<and> edited (s\<lparr>input := [] # ds\<rparr>) s' \<and> holds s' xs (tl ys)))"
proof (intro conjI allI impI)
  show "\<exists>s'. handle_key c n prompt cols s = Some (Inr (Continue s')) \<and> edited s s'
      \<and> holds s' (fst (edit (buflen s) c (xs, ys))) (snd (edit (buflen s) c (xs, ys)))" if "edits s c"
    using handle_key_edits [OF assms that] unfolding shows_line_def by blast
next
  fix k rest ds
  assume k: "k \<in> {67, 68} \<and> input s = (91 # k # rest) # ds"
  have e: "edit (buflen s) (if k = 68 then 2 else 6) (xs, ys) = (if k = 68
      then (butlast xs, if xs = [] then ys else last xs # ys) else (xs @ take 1 ys, tl ys))" by (simp add: edit_def)
  have "shows_line (s\<lparr>input := rest # ds\<rparr>) (fst (edit (buflen s) (if k = 68 then 2 else 6) (xs, ys)))
      (snd (edit (buflen s) (if k = 68 then 2 else 6) (xs, ys))) (handle_key 27 n prompt cols s)"
  proof (cases "k = 68")
    case True
    then show ?thesis unfolding e using key_escape_edits(1) [OF assms] k by simp
  next
    case False
    then show ?thesis unfolding e using key_escape_edits(2) [OF assms] k by simp
  qed
  then show "\<exists>s'. handle_key 27 n prompt cols s = Some (Inr (Continue s')) \<and> edited (s\<lparr>input := rest # ds\<rparr>) s'
      \<and> holds s' (fst (edit (buflen s) (if k = 68 then 2 else 6) (xs, ys))) (snd (edit (buflen s) (if k = 68 then 2 else 6) (xs, ys)))"
    unfolding shows_line_def by blast
next
  fix ds
  assume "input s = [91, 51, 126] # ds"
  then show "\<exists>s'. handle_key 27 n prompt cols s = Some (Inr (Continue s')) \<and> edited (s\<lparr>input := [] # ds\<rparr>) s' \<and> holds s' xs (tl ys)"
    using key_escape_edits(3) [OF assms] unfolding shows_line_def by blast
qed

text \<open>Ctrl-d with the cursor on the last character leaves it.\<close>

lemma ctrl_d_keeps_last:
  assumes "holds s xs [y]" and "roomy n prompt cols s"
  shows "\<exists>s'. handle_key 4 n prompt cols s = Some (Inr (Continue s')) \<and> holds s' xs [y]"
  using key_ctrl_d_shows [OF assms] by (auto simp: handle_key_def shows_line_def)

definition demo :: session where
  "demo = \<lparr>buf = [97, 98, 99, 0, 0, 0], len = 3, pos = 2, history_index = 0,
     history = Some [Str [120], Str [], Null], history_len = 2, history_max_len = 3,
     input = [[100, 8], [13]], writes = [], screen = []\<rparr>"

theorem key_refines_editor_witness:
  "(\<exists>s'. handle_key 20 6 [62] 80 demo = Some (Inr (Continue s')) \<and> edited demo s' \<and> holds s' [97, 99] [98])
    \<and> (\<exists>s'. handle_key 27 6 [62] 80 (demo\<lparr>input := [[91, 51, 126]]\<rparr>) = Some (Inr (Continue s')) \<and> holds s' [97, 98] [])"
proof
  have d: "holds demo [97, 98] [99]" "roomy 6 [62] 80 demo" "edits demo 20"
    by (simp_all add: demo_def holds_def roomy_def edits_def)
  from key_refines_editor [OF d(1,2), of 20, THEN conjunct1] d(3)
  show "\<exists>s'. handle_key 20 6 [62] 80 demo = Some (Inr (Continue s')) \<and> edited demo s' \<and> holds s' [97, 99] [98]"
    by (simp add: edit_def)
  let ?s = "demo\<lparr>input := [[91, 51, 126]]\<rparr>"
  have "holds ?s [97, 98] [99]" "roomy 6 [62] 80 ?s" by (simp_all add: demo_def holds_def roomy_def)
  from key_refines_editor [OF this, of 4, THEN conjunct2, THEN conjunct2]
  show "\<exists>s'. handle_key 27 6 [62] 80 ?s = Some (Inr (Continue s')) \<and> holds s' [97, 98] []" by auto
qed

text \<open>
  C2: on the keys of \<open>cs\<close> and then Enter, in whatever pieces the terminal delivers them, the prompt
  returns the length of the line the editor on two byte lists makes of \<open>cs\<close>, that line is in the
  buffer, and the history has lost its oldest line if it was full and is otherwise as before.
\<close>

theorem prompt_refines_editor:
  assumes "buf s \<noteq> []" and "roomy n0 prompt cols s" and "hist s ls"
    and "concat (input s) = cs @ 13 # rest" and "\<forall>c \<in> set cs. line_key c"
    and "n0 + length cs < n" and "fold (edit (buflen s)) cs ([], []) = (xs, ys)"
  shows "\<exists>s'. linenoisePrompt n None prompt cols s = Some (Inr (int (length (xs @ ys)), s'))
     \<and> holds s' xs ys \<and> hist s' (keep_last (nat (history_max_len s) - 1) ls) \<and> concat (input s') = rest"
  using assms by (rule prompt_edits)

theorem prompt_refines_editor_witness:
  "\<exists>s'. linenoisePrompt 10 None [62] 80 (demo\<lparr>input := [[100, 8], [101, 13]]\<rparr>) = Some (Inr (1, s'))
     \<and> holds s' [101] [] \<and> hist s' [[120], []] \<and> concat (input s') = []"
proof -
  let ?s = "demo\<lparr>input := [[100, 8], [101, 13]]\<rparr>"
  have "buf ?s \<noteq> []" "roomy 6 [62] 80 ?s" "concat (input ?s) = [100, 8, 101] @ 13 # []"
    "\<forall>c \<in> set [100, 8, 101]. line_key c" "6 + length [100, 8, 101 :: byte] < 10"
    by (simp_all add: demo_def roomy_def line_key_def)
  moreover have "hist ?s [[120], []]" by (simp add: demo_def hist_def)
  moreover have "fold (edit (buflen ?s)) [100, 8, 101] ([], []) = ([101], [])"
    by (simp add: demo_def edit_def buflen_def)
  ultimately show ?thesis
    using prompt_refines_editor [of ?s 6 "[62]" 80 "[[120], []]" "[100, 8, 101]" "[]" 10 "[101]" "[]"]
    by (simp add: demo_def keep_last_def)
qed

text \<open>
  With a prompt narrower than the terminal \<open>refreshLine\<close> ends, and writes a part of the line that
  starts \<open>scrolled\<close> bytes in, fits beside the prompt and puts the cursor on the screen, whatever the
  lengths; it reads nothing outside the string.
\<close>

theorem refresh_shows_window:
  assumes "length prompt < unat cols" and "p \<le> l" and "l < length str" and "length prompt + l < 2 ^ 64"
    and "l < n" and "k = scrolled (length prompt) (unat cols) p"
  shows "refreshLine n prompt cols str l p s = return_run (write_all
      [csi ''0G'', prompt, take (min (l - k) (unat cols - length prompt)) (drop k str),
       csi ''0K'', cursor_seq (of_nat (length prompt + (p - k)))] s)
    \<and> k \<le> p \<and> length prompt + (p - k) < unat cols"
  using refreshLine_eq [OF assms(1-5), of s] assms(1,6) by (auto simp: scrolled_def)

theorem refresh_shows_window_witness:
  "refreshLine 9 [62] 4 [1, 2, 3, 4, 5, 6, 0] 6 5 demo =
    return_run (write_all [csi ''0G'', [62], [4, 5, 6], csi ''0K'', cursor_seq 3] demo)"
proof -
  have k: "3 = scrolled (length [62 :: byte]) (unat (4 :: 64 word)) 5" by (simp add: scrolled_def)
  have "refreshLine 9 [62] 4 [1, 2, 3, 4, 5, 6, 0] 6 5 demo = return_run (write_all
      [csi ''0G'', [62], take (min (6 - 3) (unat (4 :: 64 word) - length [62 :: byte])) (drop 3 [1, 2, 3, 4, 5, 6, 0]),
       csi ''0K'', cursor_seq (of_nat (length [62 :: byte] + (5 - 3)))] demo)"
    by (rule refresh_shows_window [OF _ _ _ _ _ k, THEN conjunct1]) simp_all
  then show ?thesis by simp
qed

text \<open>
  On a terminal that reports no columns \<open>refreshLine\<close> never ends.
\<close>

theorem refresh_loops_without_columns: "refreshLine n prompt 0 str l p s = None"
  by (rule refreshLine_0_columns)

text \<open>
  Adding a line makes it the newest of the history and drops the oldest one exactly when the
  history is full.
\<close>

theorem history_add_refines:
  assumes "hist s ls"
  shows "\<exists>hs k. linenoiseHistoryAdd line s = Inr (1, s\<lparr>history := Some hs, history_len := k\<rparr>)
     \<and> hist (s\<lparr>history := Some hs, history_len := k\<rparr>) (keep_last (nat (history_max_len s)) (ls @ [line]))"
  using assms by (rule history_add)

theorem history_add_refines_witness:
  "\<exists>hs k. linenoiseHistoryAdd [121] demo = Inr (1, demo\<lparr>history := Some hs, history_len := k\<rparr>)
     \<and> hist (demo\<lparr>history := Some hs, history_len := k\<rparr>) [[120], [], [121]]"
  using history_add_refines [of demo "[[120], []]" "[121]"]
  by (simp add: demo_def hist_def keep_last_def)

text \<open>
  Changing the maximal length of a full history keeps its newest lines.
\<close>

theorem history_resize_keeps_newest:
  assumes "hist s ls" and "history_len s = history_max_len s" and "1 \<le> l"
  shows "\<exists>s'. linenoiseHistorySetMaxLen l s = Inr (1, s') \<and> history_max_len s' = l
     \<and> hist s' (keep_last (nat l) ls)"
  using assms by (rule history_set_max_len)

theorem history_resize_keeps_newest_witness:
  "\<exists>s'. linenoiseHistorySetMaxLen 1 (demo\<lparr>history := Some [Str [120], Str [121]], history_max_len := 2\<rparr>) =
       Inr (1, s') \<and> history_max_len s' = 1 \<and> hist s' [[121]]"
  using history_resize_keeps_newest
    [of "demo\<lparr>history := Some [Str [120], Str [121]], history_max_len := 2\<rparr>" "[[120], [121]]" 1]
  by (simp add: demo_def hist_def keep_last_def)

text \<open>
  An arrow into the history stores the edited line in its slot and shows the neighbouring line with
  the cursor at its end; the way back shows what was stored.
\<close>

theorem history_arrow_moves:
  assumes "holds s xs ys" and "0 \<notin> set (xs @ ys)" and "hist s ls" and "roomy n prompt cols s"
    and "history_index s = int i" and "i < length ls" and "int k = int i + (if up then 1 else -1)"
    and "k < length ls" and "ls' = ls[length ls - 1 - i := xs @ ys]"
    and "line = ls ! (length ls - 1 - k)" and "0 \<notin> set line" and "length line \<le> buflen s"
  shows "\<exists>s'. key_history up n prompt cols s = Some (Inr (Continue s')) \<and> holds s' line []
     \<and> hist s' ls' \<and> history_index s' = int k \<and> history_max_len s' = history_max_len s
     \<and> length (buf s') = length (buf s) \<and> writes s' = [] \<and> input s' = input s"
  using assms by (rule key_history_moves)

theorem history_arrow_moves_witness:
  "\<exists>s'. key_history True 6 [62] 80 demo = Some (Inr (Continue s')) \<and> holds s' [120] []
     \<and> hist s' [[120], [97, 98, 99]] \<and> history_index s' = 1"
proof -
  have "holds demo [97, 98] [99]" "roomy 6 [62] 80 demo" "hist demo [[120], []]"
    "history_index demo = int 0" "buflen demo = 5"
    by (simp_all add: demo_def holds_def roomy_def hist_def buflen_def)
  then show ?thesis
    using history_arrow_moves [of demo "[97, 98]" "[99]" "[[120], []]" 6 "[62]" 80 0 1 True
      "[[120], [97, 98, 99]]" "[120]"] by auto
qed

text \<open>
  A history written to a file and loaded into another session is there, after that session's own
  lines, up to the newest that its maximal length allows.
\<close>

theorem history_file_roundtrip:
  assumes "hist s ls" and "\<forall>l \<in> set ls. storable l" and "hist t ks"
  shows "\<exists>text t'. linenoiseHistorySave s = Inr text \<and> linenoiseHistoryLoad (Some text) t = Inr (0, t')
     \<and> hist t' (keep_last (nat (history_max_len t)) (ks @ ls))"
  using assms by (rule save_load)

theorem history_file_roundtrip_witness:
  "\<exists>text t'. linenoiseHistorySave demo = Inr text \<and> linenoiseHistoryLoad (Some text) demo = Inr (0, t')
     \<and> hist t' [[], [120], []]"
  using history_file_roundtrip [of demo "[[120], []]" demo "[[120], []]"]
  by (simp add: demo_def hist_def keep_last_def storable_def)

end
