(* ===== verification/ConflictStrategy.thy ===== *)
theory ConflictStrategy
  imports Prelude
begin

text \<open>
  The agenda's data (\<open>agenda.h\<close>, \<open>ruledef.h\<close>, \<open>match.h\<close>) and \<open>crstrtgy.c\<close>: where each of the seven
  conflict resolution strategies places an activation. An agenda, a doubly linked list in the code, is
  the list of its activations; the pointers that are kept beside it (a group's \<open>first\<close> and \<open>last\<close>) are
  addresses, so that a stale one is visible.
\<close>

section \<open>Data\<close>

type_synonym expression = nat
type_synonym module_id = nat

text \<open>\<open>disjunct\<close> lists the rules that the \<open>disjunct\<close> links lead to.\<close>

record defrule =
  whichModule :: module_id
  rule_salience :: int
  dynamicSalience :: "expression option"
  autoFocus :: bool
  complexity :: nat
  disjunct :: "address list"

text \<open>
  A partial match: for each of its \<open>bcount\<close> binds the time tag of the matching item, None where the
  match or the item is null, and \<open>marker\<close>, the activation it belongs to.
\<close>

record partialMatch =
  binds :: "64 word option list"
  marker :: "address option"

text \<open>\<open>act\<close> is the activation's own address.\<close>

record activation =
  act :: address
  theRule :: address
  basis :: address
  salience :: int
  timetag :: "64 word"
  randomID :: int

record salienceGroup =
  group_salience :: int
  first :: "address option"
  last_act :: "address option"

text \<open>\<open>struct defruleModule\<close>: groups in the order of their \<open>next\<close> links.\<close>

record defruleModule =
  agenda :: "activation list"
  groupings :: "salienceGroup list"

text \<open>\<open>struct agendaData\<close>, the parts of \<open>struct engineData\<close> the focus needs, the flags
  of \<open>evaluatn.c\<close> and the constructs.\<close>

record clips =
  NumberOfActivations :: "64 word"
  CurrentTimetag :: "64 word"
  AgendaChanged :: bool
  SalienceEvaluation :: int
  Strategy :: int
  CurrentFocus :: "module_id list"
  FocusChanged :: bool
  CurrentModule :: module_id
  modules :: "module_id list"
  ruleModule :: "module_id \<Rightarrow> defruleModule"
  rule :: "address \<Rightarrow> defrule"
  match :: "address \<Rightarrow> partialMatch"
  EvaluationError :: bool
  HaltExecution :: bool

abbreviation "DEPTH_STRATEGY \<equiv> (0 :: int)"
abbreviation "BREADTH_STRATEGY \<equiv> (1 :: int)"
abbreviation "LEX_STRATEGY \<equiv> (2 :: int)"
abbreviation "MEA_STRATEGY \<equiv> (3 :: int)"
abbreviation "COMPLEXITY_STRATEGY \<equiv> (4 :: int)"
abbreviation "SIMPLICITY_STRATEGY \<equiv> (5 :: int)"
abbreviation "RANDOM_STRATEGY \<equiv> (6 :: int)"

section \<open>Comparing partial matches\<close>

text \<open>
  One pass \<open>for (j = 0 ; j < k ; j++)\<close> of the exchange sort, and whether it exchanged anything.
\<close>

fun exchange_pass :: "nat \<Rightarrow> 64 word list \<Rightarrow> bool \<times> 64 word list" where
  "exchange_pass (Suc k) (x # y # ys) =
     (if x < y then let (flag, zs) = exchange_pass k (x # ys) in (True, y # zs)
      else let (flag, zs) = exchange_pass k (y # ys) in (flag, x # zs))"
| "exchange_pass k xs = (False, xs)"

lemma exchange_pass_flag: "fst (exchange_pass k xs) \<Longrightarrow> 0 < k"
  by (cases k) simp_all

function exchange_loop :: "nat \<Rightarrow> 64 word list \<Rightarrow> 64 word list" where
  "exchange_loop k xs =
     (let (flag, ys) = exchange_pass k xs in if flag then exchange_loop (k - 1) ys else ys)"
  by pat_completeness auto
termination
proof (relation "measure fst", goal_cases)
  case (2 k xs x flag ys)
  then have "fst (exchange_pass k xs)" by (metis fst_conv)
  then show ?case using exchange_pass_flag [of k xs] by simp
qed simp

declare exchange_loop.simps [simp del]

text \<open>\<open>bcount - 1\<close> is unsigned: with no binds the first pass leaves the array.\<close>

definition SortPartialMatch :: "partialMatch \<Rightarrow> 64 word list res" where
  "SortPartialMatch b =
     (let nbinds = map (\<lambda>t. case t of Some tag \<Rightarrow> tag | None \<Rightarrow> 0) (binds b) in
      if nbinds = [] then Inl Undefined else Inr (exchange_loop (length nbinds - 1) nbinds))"

text \<open>The loop over the first \<open>mCount\<close> time tags.\<close>

fun compare_tags :: "nat \<Rightarrow> 64 word list \<Rightarrow> 64 word list \<Rightarrow> comparison" where
  "compare_tags (Suc n) (x # xs) (y # ys) =
     (if x < y then LESS_THAN else if y < x then GREATER_THAN else compare_tags n xs ys)"
| "compare_tags n xs ys = EQUAL"

definition ComparePartialMatches :: "clips \<Rightarrow> activation \<Rightarrow> activation \<Rightarrow> comparison res" where
  "ComparePartialMatches e actPtr newActivation =
     bind_res (SortPartialMatch (match e (basis newActivation))) (\<lambda>basis1.
     bind_res (SortPartialMatch (match e (basis actPtr))) (\<lambda>basis2.
       let cCount = length (binds (match e (basis newActivation)));
           oCount = length (binds (match e (basis actPtr)));
           mCount = (if cCount < oCount then cCount else oCount);
           flag = compare_tags mCount basis1 basis2 in
       if flag \<noteq> EQUAL then Inr flag
       else if cCount < oCount then Inr LESS_THAN
       else if oCount < cCount then Inr GREATER_THAN
       else if complexity (rule e (theRule newActivation)) < complexity (rule e (theRule actPtr))
       then Inr LESS_THAN
       else if complexity (rule e (theRule actPtr)) < complexity (rule e (theRule newActivation))
       then Inr GREATER_THAN
       else Inr EQUAL))"

section \<open>Walking a group\<close>

text \<open>
  The loop the forward strategies share: from \<open>first\<close>, past every activation the new one goes behind,
  to the group's last one at most. The result is \<open>lastAct\<close>.
\<close>

fun walk :: "(activation \<Rightarrow> bool res) \<Rightarrow> address option \<Rightarrow> address option \<Rightarrow> activation list
    \<Rightarrow> address option res" where
  "walk behind lst lastAct [] = Inr lastAct"
| "walk behind lst lastAct (actPtr # acts) =
     bind_res (behind actPtr) (\<lambda>b.
       if b then
         (if Some (act actPtr) = lst then Inr (Some (act actPtr))
          else walk behind lst (Some (act actPtr)) acts)
       else Inr lastAct)"

definition prev_last :: "salienceGroup option \<Rightarrow> address option" where
  "prev_last prev = (case prev of None \<Rightarrow> None | Some p \<Rightarrow> last_act p)"

text \<open>The agenda from the activation at an address on.\<close>

definition list_from :: "address \<Rightarrow> activation list \<Rightarrow> activation list res" where
  "list_from p acts =
     (case dropWhile (\<lambda>a. act a \<noteq> p) acts of [] \<Rightarrow> Inl Undefined | a # as \<Rightarrow> Inr (a # as))"

definition walk_group :: "(activation \<Rightarrow> bool res) \<Rightarrow> activation list \<Rightarrow> salienceGroup option
    \<Rightarrow> salienceGroup \<Rightarrow> address option res" where
  "walk_group behind acts prev g =
     (case first g of
        None \<Rightarrow> Inr (prev_last prev)
      | Some p \<Rightarrow> bind_res (list_from p acts) (walk behind (last_act g) (prev_last prev)))"

text \<open>"Update the salience group information."\<close>

definition update_group :: "salienceGroup option \<Rightarrow> salienceGroup \<Rightarrow> address option \<Rightarrow> activation \<Rightarrow> salienceGroup" where
  "update_group prev g lastAct new =
     (let g1 = (if lastAct = None \<or> (\<exists>p. prev = Some p \<and> last_act p = lastAct)
                then g\<lparr>first := Some (act new)\<rparr> else g) in
      if last_act g1 = None \<or> last_act g1 = lastAct then g1\<lparr>last_act := Some (act new)\<rparr> else g1)"

lemma update_group_code [code]:
  "update_group prev g lastAct new =
     (let g1 = (if lastAct = None \<or> (case prev of None \<Rightarrow> False | Some p \<Rightarrow> last_act p = lastAct)
                then g\<lparr>first := Some (act new)\<rparr> else g) in
      if last_act g1 = None \<or> last_act g1 = lastAct then g1\<lparr>last_act := Some (act new)\<rparr> else g1)"
  by (cases prev) (simp_all add: update_group_def)

definition placed :: "salienceGroup option \<Rightarrow> salienceGroup \<Rightarrow> activation \<Rightarrow> address option res
    \<Rightarrow> (address option \<times> salienceGroup) res" where
  "placed prev g new m = bind_res m (\<lambda>lastAct. Inr (lastAct, update_group prev g lastAct new))"

section \<open>The seven strategies\<close>

definition PlaceDepthActivation :: "activation list \<Rightarrow> activation \<Rightarrow> salienceGroup option
    \<Rightarrow> salienceGroup \<Rightarrow> (address option \<times> salienceGroup) res" where
  "PlaceDepthActivation acts new prev g =
     placed prev g new
       (walk_group (\<lambda>actPtr. Inr (timetag new < timetag actPtr)) acts prev g)"

text \<open>
  Breadth walks backwards from \<open>last\<close>; the list is the part of the agenda up to it, reversed.
\<close>

fun walk_back :: "64 word \<Rightarrow> address option \<Rightarrow> address option \<Rightarrow> address option \<Rightarrow> activation list
    \<Rightarrow> address option" where
  "walk_back tag fst_act before lastAct [] = lastAct"
| "walk_back tag fst_act before lastAct (actPtr # acts) =
     (if tag < timetag actPtr then
        (if Some (act actPtr) = fst_act then before else walk_back tag fst_act before lastAct acts)
      else Some (act actPtr))"

definition PlaceBreadthActivation :: "activation list \<Rightarrow> activation \<Rightarrow> salienceGroup option
    \<Rightarrow> salienceGroup \<Rightarrow> (address option \<times> salienceGroup) res" where
  "PlaceBreadthActivation acts new prev g =
     placed prev g new
       (case last_act g of
          None \<Rightarrow> Inr (prev_last prev)
        | Some l \<Rightarrow> bind_res (list_from l (rev acts)) (\<lambda>back.
            Inr (walk_back (timetag new) (first g) (prev_last prev) (Some l) back)))"

text \<open>
  Behind an activation in the orders of lex and mea: it compares greater, or equal and older.
\<close>

definition goes_behind :: "activation \<Rightarrow> activation \<Rightarrow> comparison \<Rightarrow> bool" where
  "goes_behind new actPtr flag \<longleftrightarrow>
     flag = LESS_THAN \<or> (flag = EQUAL \<and> timetag actPtr < timetag new)"

text \<open>Lex and mea look at the end of the group first and leave early if the activation belongs there.\<close>

definition place_end_or_walk :: "(activation \<Rightarrow> bool res) \<Rightarrow> (activation \<Rightarrow> bool res) \<Rightarrow> activation list
    \<Rightarrow> activation \<Rightarrow> salienceGroup option \<Rightarrow> salienceGroup \<Rightarrow> (address option \<times> salienceGroup) res" where
  "place_end_or_walk behind_end behind acts new prev g =
     (case last_act g of
        None \<Rightarrow> placed prev g new (walk_group behind acts prev g)
      | Some l \<Rightarrow>
          bind_res (list_from l acts) (\<lambda>as.
          bind_res (behind_end (hd as)) (\<lambda>b.
            if b then Inr (Some l, g\<lparr>last_act := Some (act new)\<rparr>)
            else placed prev g new (walk_group behind acts prev g))))"

definition lex_behind :: "clips \<Rightarrow> activation \<Rightarrow> activation \<Rightarrow> bool res" where
  "lex_behind e new actPtr =
     bind_res (ComparePartialMatches e actPtr new) (\<lambda>flag. Inr (goes_behind new actPtr flag))"

definition PlaceLEXActivation :: "clips \<Rightarrow> activation list \<Rightarrow> activation \<Rightarrow> salienceGroup option
    \<Rightarrow> salienceGroup \<Rightarrow> (address option \<times> salienceGroup) res" where
  "PlaceLEXActivation e acts new prev g =
     place_end_or_walk (lex_behind e new) (lex_behind e new) acts new prev g"

text \<open>
  \<open>GetMatchingItem( x, 0 )->timeTag\<close>, None for a null item; \<open>binds[0]\<close> is not set with no binds.
\<close>

definition first_tag :: "clips \<Rightarrow> activation \<Rightarrow> 64 word option res" where
  "first_tag e a = (case binds (match e (basis a)) of [] \<Rightarrow> Inl Undefined | t # _ \<Rightarrow> Inr t)"

text \<open>The test at the end of the group, with \<open>cSet\<close> and \<open>oSet\<close>; time tags are read as signed.\<close>

definition mea_flag_end :: "clips \<Rightarrow> activation \<Rightarrow> activation \<Rightarrow> comparison res" where
  "mea_flag_end e new actPtr =
     bind_res (first_tag e new) (\<lambda>c.
     bind_res (first_tag e actPtr) (\<lambda>o'.
       case (c, o') of
         (None, None) \<Rightarrow> ComparePartialMatches e actPtr new
       | (Some _, None) \<Rightarrow> Inr GREATER_THAN
       | (None, Some _) \<Rightarrow> Inr LESS_THAN
       | (Some cWhoset, Some oWhoset) \<Rightarrow>
           if oWhoset <s cWhoset then Inr GREATER_THAN
           else if cWhoset <s oWhoset then Inr LESS_THAN
           else ComparePartialMatches e actPtr new))"

text \<open>The test in the loop, with -1 for a null item.\<close>

definition mea_flag :: "clips \<Rightarrow> activation \<Rightarrow> activation \<Rightarrow> comparison res" where
  "mea_flag e new actPtr =
     bind_res (first_tag e new) (\<lambda>c.
     bind_res (first_tag e actPtr) (\<lambda>o'.
       let cWhoset = (case c of None \<Rightarrow> -1 | Some t \<Rightarrow> sint t);
           oWhoset = (case o' of None \<Rightarrow> -1 | Some t \<Rightarrow> sint t) in
       if oWhoset < cWhoset then Inr (if 0 < cWhoset then GREATER_THAN else LESS_THAN)
       else if cWhoset < oWhoset then Inr (if 0 < oWhoset then LESS_THAN else GREATER_THAN)
       else ComparePartialMatches e actPtr new))"

definition PlaceMEAActivation :: "clips \<Rightarrow> activation list \<Rightarrow> activation \<Rightarrow> salienceGroup option
    \<Rightarrow> salienceGroup \<Rightarrow> (address option \<times> salienceGroup) res" where
  "PlaceMEAActivation e acts new prev g =
     place_end_or_walk
       (\<lambda>actPtr. bind_res (mea_flag_end e new actPtr) (\<lambda>flag. Inr (goes_behind new actPtr flag)))
       (\<lambda>actPtr. bind_res (mea_flag e new actPtr) (\<lambda>flag. Inr (goes_behind new actPtr flag)))
       acts new prev g"

definition PlaceComplexityActivation :: "clips \<Rightarrow> activation list \<Rightarrow> activation \<Rightarrow> salienceGroup option
    \<Rightarrow> salienceGroup \<Rightarrow> (address option \<times> salienceGroup) res" where
  "PlaceComplexityActivation e acts new prev g =
     placed prev g new
       (walk_group (\<lambda>actPtr.
          let c = complexity (rule e (theRule new)); o' = complexity (rule e (theRule actPtr)) in
          Inr (if c < o' then True else if o' < c then False else timetag actPtr < timetag new))
        acts prev g)"

definition PlaceSimplicityActivation :: "clips \<Rightarrow> activation list \<Rightarrow> activation \<Rightarrow> salienceGroup option
    \<Rightarrow> salienceGroup \<Rightarrow> (address option \<times> salienceGroup) res" where
  "PlaceSimplicityActivation e acts new prev g =
     placed prev g new
       (walk_group (\<lambda>actPtr.
          let c = complexity (rule e (theRule new)); o' = complexity (rule e (theRule actPtr)) in
          Inr (if o' < c then True else if c < o' then False else timetag actPtr < timetag new))
        acts prev g)"

definition PlaceRandomActivation :: "activation list \<Rightarrow> activation \<Rightarrow> salienceGroup option
    \<Rightarrow> salienceGroup \<Rightarrow> (address option \<times> salienceGroup) res" where
  "PlaceRandomActivation acts new prev g =
     placed prev g new
       (walk_group (\<lambda>actPtr.
          Inr (if randomID actPtr < randomID new then True
               else if randomID new < randomID actPtr then False
               else timetag actPtr < timetag new))
        acts prev g)"

section \<open>PlaceActivation\<close>

text \<open>\<open>placeAfter\<close> as an address: the new activation becomes its successor, or the head.\<close>

definition insert_after :: "address option \<Rightarrow> activation \<Rightarrow> activation list \<Rightarrow> activation list res" where
  "insert_after placeAfter new acts =
     (case placeAfter of
        None \<Rightarrow> Inr (new # acts)
      | Some p \<Rightarrow>
          (case dropWhile (\<lambda>a. act a \<noteq> p) acts of
             [] \<Rightarrow> Inl Undefined
           | a # as \<Rightarrow> Inr (takeWhile (\<lambda>a. act a \<noteq> p) acts @ a # new # as)))"

text \<open>The group is the one at position \<open>i\<close> of the module's groups.\<close>

definition choose_place :: "clips \<Rightarrow> activation list \<Rightarrow> activation \<Rightarrow> salienceGroup option
    \<Rightarrow> salienceGroup \<Rightarrow> (address option \<times> salienceGroup) res" where
  "choose_place e acts new prev g =
     (if acts \<noteq> [] then
        (if Strategy e = DEPTH_STRATEGY then PlaceDepthActivation acts new prev g
         else if Strategy e = BREADTH_STRATEGY then PlaceBreadthActivation acts new prev g
         else if Strategy e = LEX_STRATEGY then PlaceLEXActivation e acts new prev g
         else if Strategy e = MEA_STRATEGY then PlaceMEAActivation e acts new prev g
         else if Strategy e = COMPLEXITY_STRATEGY then PlaceComplexityActivation e acts new prev g
         else if Strategy e = SIMPLICITY_STRATEGY then PlaceSimplicityActivation e acts new prev g
         else if Strategy e = RANDOM_STRATEGY then PlaceRandomActivation acts new prev g
         else Inr (None, g))
      else Inr (None, g\<lparr>first := Some (act new), last_act := Some (act new)\<rparr>))"

definition PlaceActivation :: "module_id \<Rightarrow> activation \<Rightarrow> nat \<Rightarrow> clips \<Rightarrow> clips res" where
  "PlaceActivation m new i e =
     (let e = e\<lparr>AgendaChanged := True\<rparr>;
          acts = agenda (ruleModule e m);
          gs = groupings (ruleModule e m) in
      bind_res (get_at gs i) (\<lambda>g.
      bind_res (choose_place e acts new (if i = 0 then None else Some (gs ! (i - 1))) g) (\<lambda>(placeAfter, g).
      bind_res (insert_after placeAfter new acts) (\<lambda>acts.
        Inr (e\<lparr>ruleModule := (ruleModule e)(m := \<lparr>agenda = acts, groupings = gs[i := g]\<rparr>)\<rparr>)))))"

end
