(* ===== verification/Agenda.thy ===== *)
theory Agenda
  imports ConflictStrategy
begin

text \<open>
  \<open>agenda.c\<close>, the strategy switch of \<open>crstrtgy.c\<close> and the focus stack of \<open>engine.c\<close>. Messages of watch
  items are not modelled. What other parts of the system deliver is a parameter: the address
  \<open>get_struct\<close> returns, the number \<open>genrand\<close> returns, and the value of a salience expression, whose
  evaluation changes nothing else.
\<close>

section \<open>Focus\<close>

definition EnvSetCurrentModule :: "module_id \<Rightarrow> clips \<Rightarrow> clips" where
  "EnvSetCurrentModule m e = e\<lparr>CurrentModule := m\<rparr>"

definition EnvFocus :: "module_id \<Rightarrow> clips \<Rightarrow> clips" where
  "EnvFocus m e =
     (let e = EnvSetCurrentModule m e in
      if CurrentFocus e \<noteq> [] \<and> hd (CurrentFocus e) = m then e
      else e\<lparr>CurrentFocus := m # CurrentFocus e, FocusChanged := True\<rparr>)"

text \<open>
  \<open>RemoveFocus\<close> returns a module, or None for a null pointer. A module that is not on the stack
  leaves the state alone.
\<close>

definition RemoveFocus :: "module_id \<Rightarrow> clips \<Rightarrow> module_id option \<times> clips" where
  "RemoveFocus m e =
     (case CurrentFocus e of
        [] \<Rightarrow> (None, e)
      | c # cs \<Rightarrow>
          if m \<notin> set (c # cs) then (Some c, e)
          else
            let currentFocusRemoved = (c = m);
                e = e\<lparr>CurrentFocus := remove1 m (c # cs)\<rparr>;
                e = (if CurrentFocus e \<noteq> [] \<and> currentFocusRemoved
                     then EnvSetCurrentModule (hd (CurrentFocus e)) e else e) in
            (Some m, e\<lparr>FocusChanged := True\<rparr>))"

definition EnvPopFocus :: "clips \<Rightarrow> module_id option \<times> clips" where
  "EnvPopFocus e =
     (case CurrentFocus e of [] \<Rightarrow> (None, e) | m # _ \<Rightarrow> RemoveFocus m e)"

lemma EnvPopFocus_stack: "CurrentFocus (snd (EnvPopFocus e)) = tl (CurrentFocus e)"
  by (auto simp: EnvPopFocus_def RemoveFocus_def EnvSetCurrentModule_def Let_def split: list.split)

function clear_focus_loop :: "clips \<Rightarrow> clips" where
  "clear_focus_loop e =
     (if CurrentFocus e = [] then e else clear_focus_loop (snd (EnvPopFocus e)))"
  by pat_completeness auto
termination
  by (relation "measure (\<lambda>e. length (CurrentFocus e))") (auto simp: EnvPopFocus_stack)

declare clear_focus_loop.simps [simp del]

definition EnvClearFocusStack :: "clips \<Rightarrow> clips" where
  "EnvClearFocusStack e = (clear_focus_loop e)\<lparr>FocusChanged := True\<rparr>"

text \<open>
  \<open>NextActivationToFire\<close>: the loop pops until a focus has an activation or the stack is empty.
\<close>

function next_activation_loop :: "clips \<Rightarrow> activation option \<times> clips" where
  "next_activation_loop e =
     (case CurrentFocus e of
        [] \<Rightarrow> (None, e)
      | m # _ \<Rightarrow>
          (case agenda (ruleModule e m) of
             a # _ \<Rightarrow> (Some a, e)
           | [] \<Rightarrow> next_activation_loop (snd (EnvPopFocus e))))"
  by pat_completeness auto
termination
  by (relation "measure (\<lambda>e. length (CurrentFocus e))") (auto simp: EnvPopFocus_stack)

declare next_activation_loop.simps [simp del]

definition NextActivationToFire :: "module_id \<Rightarrow> clips \<Rightarrow> activation option \<times> clips" where
  "NextActivationToFire main e =
     next_activation_loop (if CurrentFocus e = [] then EnvFocus main e else e)"

section \<open>Salience\<close>

datatype evaluated = EvaluationFailed | NotInteger | IntegerValue "64 word"

abbreviation "WHEN_DEFINED \<equiv> (0 :: int)"
abbreviation "WHEN_ACTIVATED \<equiv> (1 :: int)"
abbreviation "EVERY_CYCLE \<equiv> (2 :: int)"

definition EnvSetSalienceEvaluation :: "int \<Rightarrow> clips \<Rightarrow> int \<times> clips" where
  "EnvSetSalienceEvaluation v e = (SalienceEvaluation e, e\<lparr>SalienceEvaluation := v\<rparr>)"

definition SetEvaluationError :: "bool \<Rightarrow> clips \<Rightarrow> clips" where
  "SetEvaluationError v e =
     (let e = e\<lparr>EvaluationError := v\<rparr> in if v then e\<lparr>HaltExecution := True\<rparr> else e)"

text \<open>\<open>(int) ValueToLong\<close> keeps the low 32 bits.\<close>

definition EvaluateSalience :: "(expression \<Rightarrow> evaluated) \<Rightarrow> address \<Rightarrow> clips \<Rightarrow> int \<times> clips" where
  "EvaluateSalience evaluate r e =
     (let stored = rule_salience (rule e r) in
      if SalienceEvaluation e = WHEN_DEFINED then (stored, e)
      else case dynamicSalience (rule e r) of
        None \<Rightarrow> (stored, e)
      | Some x \<Rightarrow>
          let e = SetEvaluationError False e in
          (case evaluate x of
             EvaluationFailed \<Rightarrow> (stored, SetEvaluationError True e)
           | NotInteger \<Rightarrow> (stored, SetEvaluationError True e)
           | IntegerValue v \<Rightarrow>
               let s = sint (ucast v :: 32 word) in
               if 10000 < s \<or> s < -10000 then (stored, SetEvaluationError True e)
               else (s, e\<lparr>rule := (rule e)(r := (rule e r)\<lparr>rule_salience := s\<rparr>)\<rparr>)))"

definition SalienceEvaluationName :: "int \<Rightarrow> string" where
  "SalienceEvaluationName v =
     (if v = WHEN_DEFINED then ''when-defined'' else if v = WHEN_ACTIVATED then ''when-activated''
      else if v = EVERY_CYCLE then ''every-cycle'' else ''unknown'')"

text \<open>The command with its argument, None if the argument checks failed; it returns a name.\<close>

definition SetSalienceEvaluationCommand :: "string option \<Rightarrow> clips \<Rightarrow> string \<times> clips" where
  "SetSalienceEvaluationCommand arg e =
     (let oldValue = SalienceEvaluationName (SalienceEvaluation e) in
      case arg of
        None \<Rightarrow> (oldValue, e)
      | Some argument \<Rightarrow>
          if argument = ''when-defined'' then (oldValue, snd (EnvSetSalienceEvaluation WHEN_DEFINED e))
          else if argument = ''when-activated'' then (oldValue, snd (EnvSetSalienceEvaluation WHEN_ACTIVATED e))
          else if argument = ''every-cycle'' then (oldValue, snd (EnvSetSalienceEvaluation EVERY_CYCLE e))
          else (oldValue, e))"

section \<open>Salience groups\<close>

fun reuse_or_create :: "int \<Rightarrow> salienceGroup list \<Rightarrow> salienceGroup list \<times> nat" where
  "reuse_or_create s [] = ([\<lparr>group_salience = s, first = None, last_act = None\<rparr>], 0)"
| "reuse_or_create s (g # gs) =
     (if group_salience g = s then (g # gs, 0)
      else if group_salience g < s
      then (\<lparr>group_salience = s, first = None, last_act = None\<rparr> # g # gs, 0)
      else let (gs', i) = reuse_or_create s gs in (g # gs', Suc i))"

definition ReuseOrCreateSalienceGroup :: "module_id \<Rightarrow> int \<Rightarrow> clips \<Rightarrow> nat \<times> clips" where
  "ReuseOrCreateSalienceGroup m s e =
     (let (gs, i) = reuse_or_create s (groupings (ruleModule e m)) in
      (i, e\<lparr>ruleModule := (ruleModule e)(m := (ruleModule e m)\<lparr>groupings := gs\<rparr>)\<rparr>))"

fun FindSalienceGroup :: "int \<Rightarrow> salienceGroup list \<Rightarrow> nat option" where
  "FindSalienceGroup s [] = None"
| "FindSalienceGroup s (g # gs) =
     (if group_salience g = s then Some 0
      else if group_salience g < s then None
      else map_option Suc (FindSalienceGroup s gs))"

text \<open>The neighbours of an activation: its \<open>next\<close> and \<open>prev\<close> links.\<close>

definition next_act :: "address \<Rightarrow> activation list \<Rightarrow> address option" where
  "next_act p acts = (case tl (dropWhile (\<lambda>a. act a \<noteq> p) acts) of [] \<Rightarrow> None | a # _ \<Rightarrow> Some (act a))"

definition prev_act :: "address \<Rightarrow> activation list \<Rightarrow> address option" where
  "prev_act p acts =
     (let pre = takeWhile (\<lambda>a. act a \<noteq> p) acts in
      if pre = [] \<or> length pre = length acts then None else Some (act (last pre)))"

definition RemoveActivationFromGroup :: "activation \<Rightarrow> defruleModule \<Rightarrow> defruleModule" where
  "RemoveActivationFromGroup a md =
     (case FindSalienceGroup (salience a) (groupings md) of
        None \<Rightarrow> md
      | Some i \<Rightarrow>
          let gs = groupings md; g = gs ! i in
          if Some (act a) = first g then
            (if Some (act a) = last_act g then md\<lparr>groupings := take i gs @ drop (Suc i) gs\<rparr>
             else md\<lparr>groupings := gs[i := g\<lparr>first := next_act (act a) (agenda md)\<rparr>]\<rparr>)
          else if Some (act a) = last_act g then
            md\<lparr>groupings := gs[i := g\<lparr>last_act := prev_act (act a) (agenda md)\<rparr>]\<rparr>
          else md)"

section \<open>Adding and removing activations\<close>

definition AddActivation :: "(clips \<Rightarrow> address) \<Rightarrow> (clips \<Rightarrow> int) \<Rightarrow> (expression \<Rightarrow> evaluated)
    \<Rightarrow> address \<Rightarrow> address \<Rightarrow> clips \<Rightarrow> clips res" where
  "AddActivation get_struct genrand evaluate r b e =
     (let m = whichModule (rule e r);
          e = (if autoFocus (rule e r) then EnvFocus m e else e);
          p = get_struct e;
          tag = CurrentTimetag e;
          e = e\<lparr>CurrentTimetag := tag + 1\<rparr>;
          (s, e) = EvaluateSalience evaluate r e;
          new = \<lparr>act = p, theRule = r, basis = b, salience = s, timetag = tag, randomID = genrand e\<rparr>;
          e = e\<lparr>NumberOfActivations := NumberOfActivations e + 1\<rparr>;
          e = e\<lparr>match := (match e)(b := (match e b)\<lparr>marker := Some p\<rparr>)\<rparr>;
          (i, e) = ReuseOrCreateSalienceGroup m s e in
      PlaceActivation m new i e)"

text \<open>The list without the activation at an address: its neighbours are linked to each other.\<close>

definition unlink :: "address \<Rightarrow> activation list \<Rightarrow> activation list" where
  "unlink p acts = takeWhile (\<lambda>a. act a \<noteq> p) acts @ tl (dropWhile (\<lambda>a. act a \<noteq> p) acts)"

text \<open>With no predecessor the head is dropped, whichever activation it is.\<close>

definition RemoveActivation :: "activation \<Rightarrow> bool \<Rightarrow> bool \<Rightarrow> clips \<Rightarrow> clips res" where
  "RemoveActivation a updateAgenda updateLinks e =
     bind_res
       (if updateAgenda then
          let m = whichModule (rule e (theRule a));
              md = RemoveActivationFromGroup a (ruleModule e m) in
          bind_res
            (if prev_act (act a) (agenda md) = None
             then (case agenda md of [] \<Rightarrow> Inl Undefined | _ # acts \<Rightarrow> Inr acts)
             else Inr (unlink (act a) (agenda md)))
            (\<lambda>acts. Inr (e\<lparr>ruleModule := (ruleModule e)(m := md\<lparr>agenda := acts\<rparr>), AgendaChanged := True\<rparr>))
        else Inr e)
       (\<lambda>e. let e = (if updateLinks
                    then e\<lparr>match := (match e)(basis a := (match e (basis a))\<lparr>marker := None\<rparr>)\<rparr> else e) in
            Inr (e\<lparr>NumberOfActivations := NumberOfActivations e - 1\<rparr>))"

definition DetachActivation :: "activation \<Rightarrow> clips \<Rightarrow> clips" where
  "DetachActivation a e =
     (let m = whichModule (rule e (theRule a));
          md = RemoveActivationFromGroup a (ruleModule e m) in
      e\<lparr>ruleModule := (ruleModule e)(m := md\<lparr>agenda := unlink (act a) (agenda md)\<rparr>), AgendaChanged := True\<rparr>)"

definition MoveActivationToTop :: "activation \<Rightarrow> clips \<Rightarrow> (bool \<times> clips) res" where
  "MoveActivationToTop a e =
     (let m = whichModule (rule e (theRule a)); acts = agenda (ruleModule e m) in
      if acts \<noteq> [] \<and> act (hd acts) = act a then Inr (False, e)
      else if prev_act (act a) acts = None then Inl Undefined
      else Inr (True, e\<lparr>ruleModule := (ruleModule e)(m := (ruleModule e m)\<lparr>agenda := a # unlink (act a) acts\<rparr>),
                        AgendaChanged := True\<rparr>))"

text \<open>\<open>ClearRuleFromAgenda\<close> goes through the agenda it found, each \<open>next\<close> saved before a removal.\<close>

fun remove_loop :: "(activation \<Rightarrow> bool) \<Rightarrow> activation list \<Rightarrow> clips \<Rightarrow> clips res" where
  "remove_loop P [] e = Inr e"
| "remove_loop P (a # as) e =
     bind_res (if P a then RemoveActivation a True True e else Inr e) (\<lambda>e. remove_loop P as e)"

definition ClearRuleFromAgenda :: "address \<Rightarrow> clips \<Rightarrow> clips res" where
  "ClearRuleFromAgenda r e =
     remove_loop (\<lambda>a. theRule a \<in> set (r # disjunct (rule e r)))
       (agenda (ruleModule e (whichModule (rule e r)))) e"

text \<open>
  After its loop the code frees the groups that are left, and keeps the pointer to them.
\<close>

definition RemoveAllActivations :: "clips \<Rightarrow> clips res" where
  "RemoveAllActivations e =
     (let m = CurrentModule e in
      bind_res (remove_loop (\<lambda>a. True) (agenda (ruleModule e m)) e) (\<lambda>e.
        if groupings (ruleModule e m) = [] then Inr e else Inl Undefined))"

definition EnvDeleteActivation :: "activation option \<Rightarrow> clips \<Rightarrow> clips res" where
  "EnvDeleteActivation ao e =
     (case ao of None \<Rightarrow> RemoveAllActivations e | Some a \<Rightarrow> RemoveActivation a True True e)"

definition AgendaClearFunction :: "clips \<Rightarrow> clips" where
  "AgendaClearFunction e = e\<lparr>CurrentTimetag := 0\<rparr>"

definition EnvSetActivationSalience :: "activation \<Rightarrow> int \<Rightarrow> clips \<Rightarrow> int \<times> clips" where
  "EnvSetActivationSalience a v e =
     (let m = whichModule (rule e (theRule a)); md = ruleModule e m in
      (salience a, e\<lparr>ruleModule := (ruleModule e)(m :=
         md\<lparr>agenda := map (\<lambda>b. if act b = act a then b\<lparr>salience := v\<rparr> else b) (agenda md)\<rparr>)\<rparr>))"

section \<open>Reordering and refreshing\<close>

fun place_loop :: "module_id \<Rightarrow> activation list \<Rightarrow> clips \<Rightarrow> clips res" where
  "place_loop m [] e = Inr e"
| "place_loop m (a # as) e =
     (let (i, e) = ReuseOrCreateSalienceGroup m (salience a) e in
      bind_res (PlaceActivation m a i e) (place_loop m as))"

definition reorder_module :: "module_id \<Rightarrow> clips \<Rightarrow> clips res" where
  "reorder_module m e =
     place_loop m (agenda (ruleModule e m))
       (e\<lparr>ruleModule := (ruleModule e)(m := \<lparr>agenda = [], groupings = []\<rparr>)\<rparr>)"

fun reorder_modules :: "module_id list \<Rightarrow> clips \<Rightarrow> clips res" where
  "reorder_modules [] e = Inr e"
| "reorder_modules (m # ms) e = bind_res (reorder_module m e) (reorder_modules ms)"

definition EnvReorderAgenda :: "module_id option \<Rightarrow> clips \<Rightarrow> clips res" where
  "EnvReorderAgenda mo e =
     (case mo of Some m \<Rightarrow> reorder_module m e | None \<Rightarrow> reorder_modules (modules e) e)"

definition EnvSetStrategy :: "int \<Rightarrow> clips \<Rightarrow> (int \<times> clips) res" where
  "EnvSetStrategy v e =
     (let oldStrategy = Strategy e; e = e\<lparr>Strategy := v\<rparr> in
      if oldStrategy \<noteq> Strategy e
      then bind_res (EnvReorderAgenda None e) (\<lambda>e. Inr (oldStrategy, e))
      else Inr (oldStrategy, e))"

definition GetStrategyName :: "int \<Rightarrow> string" where
  "GetStrategyName v =
     (if v = DEPTH_STRATEGY then ''depth'' else if v = BREADTH_STRATEGY then ''breadth''
      else if v = LEX_STRATEGY then ''lex'' else if v = MEA_STRATEGY then ''mea''
      else if v = COMPLEXITY_STRATEGY then ''complexity''
      else if v = SIMPLICITY_STRATEGY then ''simplicity''
      else if v = RANDOM_STRATEGY then ''random'' else ''unknown'')"

definition strategy_named :: "string \<Rightarrow> int option" where
  "strategy_named argument =
     (if argument = ''depth'' then Some DEPTH_STRATEGY
      else if argument = ''breadth'' then Some BREADTH_STRATEGY
      else if argument = ''lex'' then Some LEX_STRATEGY
      else if argument = ''mea'' then Some MEA_STRATEGY
      else if argument = ''complexity'' then Some COMPLEXITY_STRATEGY
      else if argument = ''simplicity'' then Some SIMPLICITY_STRATEGY
      else if argument = ''random'' then Some RANDOM_STRATEGY else None)"

definition SetStrategyCommand :: "string option \<Rightarrow> clips \<Rightarrow> (string \<times> clips) res" where
  "SetStrategyCommand arg e =
     (let oldStrategy = Strategy e in
      case arg of
        None \<Rightarrow> Inr (GetStrategyName (Strategy e), e)
      | Some argument \<Rightarrow>
          (case strategy_named argument of
             None \<Rightarrow> Inr (GetStrategyName (Strategy e), e)
           | Some v \<Rightarrow> bind_res (EnvSetStrategy v e) (\<lambda>(r, e). Inr (GetStrategyName oldStrategy, e))))"

text \<open>The loop that stores a new salience in each activation of the module.\<close>

fun refresh_saliences :: "(expression \<Rightarrow> evaluated) \<Rightarrow> activation list \<Rightarrow> clips \<Rightarrow> activation list \<times> clips" where
  "refresh_saliences evaluate [] e = ([], e)"
| "refresh_saliences evaluate (a # as) e =
     (let (s, e) = EvaluateSalience evaluate (theRule a) e;
          (as, e) = refresh_saliences evaluate as e in
      (a\<lparr>salience := s\<rparr> # as, e))"

definition refresh_module :: "(expression \<Rightarrow> evaluated) \<Rightarrow> module_id \<Rightarrow> clips \<Rightarrow> clips res" where
  "refresh_module evaluate m e =
     (let e = EnvSetCurrentModule m e;
          (acts, e) = refresh_saliences evaluate (agenda (ruleModule e m)) e in
      EnvReorderAgenda (Some m)
        (e\<lparr>ruleModule := (ruleModule e)(m := (ruleModule e m)\<lparr>agenda := acts\<rparr>)\<rparr>))"

fun refresh_modules :: "(expression \<Rightarrow> evaluated) \<Rightarrow> module_id list \<Rightarrow> clips \<Rightarrow> clips res" where
  "refresh_modules evaluate [] e = Inr e"
| "refresh_modules evaluate (m # ms) e =
     bind_res (refresh_module evaluate m e) (refresh_modules evaluate ms)"

definition EnvRefreshAgenda :: "(expression \<Rightarrow> evaluated) \<Rightarrow> module_id option \<Rightarrow> clips \<Rightarrow> clips res" where
  "EnvRefreshAgenda evaluate mo e =
     (let saved = CurrentModule e;
          (oldValue, e) = EnvSetSalienceEvaluation WHEN_ACTIVATED e in
      bind_res
        (case mo of Some m \<Rightarrow> refresh_module evaluate m e
                  | None \<Rightarrow> refresh_modules evaluate (modules e) e)
        (\<lambda>e. Inr (EnvSetCurrentModule saved (snd (EnvSetSalienceEvaluation oldValue e)))))"

text \<open>
  \<open>EnvRefresh\<close>: \<open>memory r\<close> lists the partial matches in the left memory of the rule's last join, in
  the order of the two loops, each with whether its owner activates a rule.
\<close>

fun refresh_matches :: "(clips \<Rightarrow> address) \<Rightarrow> (clips \<Rightarrow> int) \<Rightarrow> (expression \<Rightarrow> evaluated)
    \<Rightarrow> address \<Rightarrow> (address \<times> bool) list \<Rightarrow> clips \<Rightarrow> clips res" where
  "refresh_matches get_struct genrand evaluate r [] e = Inr e"
| "refresh_matches get_struct genrand evaluate r ((b, activates) # bs) e =
     bind_res
       (if activates \<and> marker (match e b) = None
        then AddActivation get_struct genrand evaluate r b e else Inr e)
       (refresh_matches get_struct genrand evaluate r bs)"

fun refresh_disjuncts :: "(clips \<Rightarrow> address) \<Rightarrow> (clips \<Rightarrow> int) \<Rightarrow> (expression \<Rightarrow> evaluated)
    \<Rightarrow> (address \<Rightarrow> (address \<times> bool) list) \<Rightarrow> address list \<Rightarrow> clips \<Rightarrow> clips res" where
  "refresh_disjuncts get_struct genrand evaluate memory [] e = Inr e"
| "refresh_disjuncts get_struct genrand evaluate memory (r # rs) e =
     bind_res (refresh_matches get_struct genrand evaluate r (memory r) e)
       (refresh_disjuncts get_struct genrand evaluate memory rs)"

definition EnvRefresh :: "(clips \<Rightarrow> address) \<Rightarrow> (clips \<Rightarrow> int) \<Rightarrow> (expression \<Rightarrow> evaluated)
    \<Rightarrow> (address \<Rightarrow> (address \<times> bool) list) \<Rightarrow> address \<Rightarrow> clips \<Rightarrow> clips res" where
  "EnvRefresh get_struct genrand evaluate memory r e =
     refresh_disjuncts get_struct genrand evaluate memory (r # disjunct (rule e r)) e"

end
