(* ===== verification/AgendaOrder.thy ===== *)
theory AgendaOrder
  imports Agenda "HOL-Library.List_Lexorder" "HOL-Library.Multiset"
begin

text \<open>
  The agenda of \<open>Agenda\<close> and \<open>ConflictStrategy\<close> kept in order. The locale \<open>placement\<close> is the contract of
  the seven placement routines: given a salience group that is sorted by the strategy's order, place
  the new activation behind the last one before it. \<open>agenda_ok\<close> is the invariant of a module's agenda
  (salience groups, order, distinct addresses and time tags); adding, removing, clearing a rule, changing
  the strategy and refreshing the saliences keep it. The last section has the properties.
\<close>

section \<open>Placing into a group\<close>

text \<open>
  A group's activations \<open>xs\<close> in an agenda \<open>P @ xs @ Q\<close>, with the group before it (or none) and its own
  record, which is empty for a group that was just made.
\<close>

definition group_of :: "int \<Rightarrow> activation list \<Rightarrow> salienceGroup" where
  "group_of s xs =
     \<lparr>group_salience = s,
      first = (if xs = [] then None else Some (act (hd xs))),
      last_act = (if xs = [] then None else Some (act (last xs)))\<rparr>"

definition addr_last :: "activation list \<Rightarrow> address option" where
  "addr_last xs = (if xs = [] then None else Some (act (last xs)))"

definition in_group :: "activation list \<Rightarrow> activation list \<Rightarrow> activation list \<Rightarrow> activation
    \<Rightarrow> salienceGroup option \<Rightarrow> bool" where
  "in_group P xs Q new prev \<longleftrightarrow> distinct (map act (P @ xs @ Q @ [new])) \<and>
     prev_last prev = addr_last P \<and> (prev = None \<longleftrightarrow> P = [])"

lemma list_from_append:
  assumes "distinct (map act (P @ x # Q))"
  shows "list_from (act x) (P @ x # Q) = Inr (x # Q)"
proof -
  have "dropWhile (\<lambda>a. act a \<noteq> act x) (P @ x # Q) = x # Q"
    using assms by (subst dropWhile_append2) (auto simp: image_iff)
  then show ?thesis by (simp add: list_from_def)
qed

lemma insert_after_append:
  assumes "distinct (map act (L @ R))"
  shows "insert_after (addr_last L) new (L @ R) = Inr (L @ new # R)"
proof (cases L rule: rev_cases)
  case (snoc L' x)
  have "dropWhile (\<lambda>a. act a \<noteq> act x) (L' @ x # R) = x # R"
    "takeWhile (\<lambda>a. act a \<noteq> act x) (L' @ x # R) = L'"
    using assms snoc by (subst dropWhile_append2 takeWhile_append2; auto simp: image_iff)+
  then show ?thesis by (simp add: insert_after_def addr_last_def snoc)
qed (simp add: insert_after_def addr_last_def)

lemma walk_takeWhile:
  assumes "xs \<noteq> []" and "distinct (map act xs)"
    and "\<And>a. a \<in> set xs \<Longrightarrow> behind a = Inr (b a)"
  shows "walk behind (Some (act (last xs))) lastAct (xs @ Q) =
    Inr (if takeWhile b xs = [] then lastAct else addr_last (takeWhile b xs))"
  using assms
proof (induction xs arbitrary: lastAct)
  case (Cons x xs)
  show ?case
  proof (cases "xs = [] \<or> \<not> b x")
    case True
    then show ?thesis using Cons.prems by (auto simp: addr_last_def)
  next
    case False
    then have "act x \<noteq> act (last xs)" using Cons.prems(2) by (auto simp: image_iff)
    with False show ?thesis
      using Cons.IH [of "Some (act x)"] Cons.prems by (auto simp: addr_last_def)
  qed
qed simp

lemma walk_group_takeWhile:
  assumes "in_group P xs Q new prev" and "\<And>a. a \<in> set xs \<Longrightarrow> behind a = Inr (b a)"
  shows "walk_group behind (P @ xs @ Q) prev (group_of s xs) = Inr (addr_last (P @ takeWhile b xs))"
proof (cases xs)
  case Nil
  then show ?thesis using assms(1) by (simp add: walk_group_def group_of_def in_group_def)
next
  case (Cons x xs')
  have "list_from (act x) (P @ xs @ Q) = Inr (xs @ Q)"
    using list_from_append [of P x "xs' @ Q"] assms(1) by (simp add: Cons in_group_def)
  moreover have "walk behind (Some (act (last xs))) (prev_last prev) (xs @ Q) =
      Inr (if takeWhile b xs = [] then prev_last prev else addr_last (takeWhile b xs))"
    using assms by (intro walk_takeWhile) (auto simp: Cons in_group_def)
  moreover have "(if takeWhile b xs = [] then prev_last prev else addr_last (takeWhile b xs)) =
      addr_last (P @ takeWhile b xs)"
    using assms(1) by (simp add: in_group_def addr_last_def)
  ultimately show ?thesis by (simp add: walk_group_def group_of_def Cons)
qed

text \<open>The group record follows the insertion.\<close>

lemma update_group_of:
  assumes "in_group P (ys @ zs) Q new prev"
  shows "update_group prev (group_of s (ys @ zs)) (addr_last (P @ ys)) new = group_of s (ys @ new # zs)"
proof -
  have first: "(addr_last (P @ ys) = None \<or> (\<exists>p. prev = Some p \<and> last_act p = addr_last (P @ ys))) \<longleftrightarrow> ys = []"
  proof (cases "ys = []")
    case True
    then show ?thesis
      using assms by (cases prev) (auto simp: in_group_def prev_last_def addr_last_def split: if_splits)
  next
    case False
    have "act (last ys) \<noteq> act (last P)" if "P \<noteq> []"
    proof
      assume eq: "act (last ys) = act (last P)"
      have "act (last ys) \<in> act ` set ys" "act (last P) \<in> act ` set P" using False that by auto
      with eq assms show False by (auto simp: in_group_def)
    qed
    then show ?thesis
      using False assms by (cases prev) (auto simp: in_group_def prev_last_def addr_last_def split: if_splits)
  qed
  have lst: "(last_act (group_of s (ys @ zs)) = None \<or> last_act (group_of s (ys @ zs)) = addr_last (P @ ys)) \<longleftrightarrow> zs = []"
  proof (cases "zs = []")
    case True
    then show ?thesis by (simp add: group_of_def addr_last_def)
  next
    case False
    have "act (last zs) \<noteq> act (last (P @ ys))" if "P @ ys \<noteq> []"
    proof
      assume eq: "act (last zs) = act (last (P @ ys))"
      have "act (last zs) \<in> act ` set zs" "act (last (P @ ys)) \<in> act ` set (P @ ys)"
        using False that last_in_set by blast+
      with eq assms show False by (auto simp: in_group_def)
    qed
    then show ?thesis using False by (auto simp: group_of_def addr_last_def)
  qed
  show ?thesis
    unfolding update_group_def first
    using lst by (auto simp: Let_def group_of_def split: if_splits)
qed

definition ordered_insert :: "(activation \<Rightarrow> activation \<Rightarrow> bool) \<Rightarrow> activation \<Rightarrow> activation list \<Rightarrow> activation list" where
  "ordered_insert before new xs =
     takeWhile (\<lambda>a. before a new) xs @ new # dropWhile (\<lambda>a. before a new) xs"

text \<open>
  The contract of a conflict resolution strategy: it orders activations with different time tags,
  and its routine finds, in a group in that order, the place before the first activation that the new
  one does not go behind.
\<close>

locale placement =
  fixes good :: "activation \<Rightarrow> bool"
    and before :: "activation \<Rightarrow> activation \<Rightarrow> bool"
    and place :: "activation list \<Rightarrow> activation \<Rightarrow> salienceGroup option \<Rightarrow> salienceGroup
      \<Rightarrow> (address option \<times> salienceGroup) res"
  assumes before_trans: "before a b \<Longrightarrow> before b c \<Longrightarrow> before a c"
    and before_total: "timetag a \<noteq> timetag b \<Longrightarrow> before a b \<or> before b a"
    and place_walks: "in_group P xs Q new prev \<Longrightarrow> \<forall>a \<in> set (new # xs). good a \<Longrightarrow>
      sorted_wrt before xs \<Longrightarrow> \<forall>a \<in> set xs. timetag a \<noteq> timetag new \<Longrightarrow>
      place (P @ xs @ Q) new prev (group_of s xs) =
        Inr (addr_last (P @ takeWhile (\<lambda>a. before a new) xs), group_of s (ordered_insert before new xs))"
begin

lemma insert_sorted:
  assumes "sorted_wrt before xs" and "\<forall>a \<in> set xs. timetag a \<noteq> timetag new"
  shows "sorted_wrt before (ordered_insert before new xs)"
proof -
  let ?ys = "takeWhile (\<lambda>a. before a new) xs" and ?zs = "dropWhile (\<lambda>a. before a new) xs"
  have xs: "sorted_wrt before (?ys @ ?zs)" using assms(1) by simp
  have ys: "before a new" if "a \<in> set ?ys" for a using that by (rule set_takeWhileD [THEN conjunct2])
  have zs: "before new a" if "a \<in> set ?zs" for a
  proof (cases ?zs)
    case (Cons z zs')
    then have "\<not> before z new" "z \<in> set xs"
      using hd_dropWhile [of "\<lambda>a. before a new" xs] set_dropWhileD [of z "\<lambda>a. before a new" xs] by auto
    then have "before new z" using before_total assms(2) by blast
    moreover have "a = z \<or> before z a" using xs that Cons by (auto simp: sorted_wrt_append)
    ultimately show ?thesis using before_trans by blast
  next
    case Nil
    with that have False by (metis empty_iff list.set(1))
    then show ?thesis ..
  qed
  show ?thesis
    unfolding ordered_insert_def
    using xs ys zs by (auto simp: sorted_wrt_append intro: before_trans)
qed

text \<open>The place found is where the ordered list has the new activation.\<close>

lemma place_inserts:
  assumes "in_group P xs Q new prev" and "\<forall>a \<in> set (new # xs). good a"
    and "sorted_wrt before xs" and "\<forall>a \<in> set xs. timetag a \<noteq> timetag new"
  shows "bind_res (place (P @ xs @ Q) new prev (group_of s xs)) (\<lambda>(placeAfter, g).
      bind_res (insert_after placeAfter new (P @ xs @ Q)) (\<lambda>acts. Inr (acts, g))) =
    Inr (P @ ordered_insert before new xs @ Q, group_of s (ordered_insert before new xs))"
proof -
  let ?ys = "takeWhile (\<lambda>a. before a new) xs" and ?zs = "dropWhile (\<lambda>a. before a new) xs"
  have split: "P @ xs @ Q = (P @ ?ys) @ ?zs @ Q" by simp
  have "distinct (map act (P @ xs @ Q))" using assms(1) by (simp add: in_group_def)
  then have "insert_after (addr_last (P @ ?ys)) new ((P @ ?ys) @ ?zs @ Q) = Inr ((P @ ?ys) @ new # ?zs @ Q)"
    unfolding split by (rule insert_after_append)
  then have "insert_after (addr_last (P @ ?ys)) new (P @ xs @ Q) = Inr (P @ ordered_insert before new xs @ Q)"
    unfolding split [symmetric] by (simp add: ordered_insert_def)
  then show ?thesis by (simp add: place_walks [OF assms])
qed

end

lemma placed_walk:
  assumes "in_group P xs Q new prev" and "\<And>a. a \<in> set xs \<Longrightarrow> behind a = Inr (before a new)"
  shows "placed prev (group_of s xs) new (walk_group behind (P @ xs @ Q) prev (group_of s xs)) =
    Inr (addr_last (P @ takeWhile (\<lambda>a. before a new) xs), group_of s (ordered_insert before new xs))"
  using walk_group_takeWhile [OF assms(1), of behind "\<lambda>a. before a new" s]
    update_group_of [of P "takeWhile (\<lambda>a. before a new) xs" "dropWhile (\<lambda>a. before a new) xs" Q new prev s] assms
  by (simp add: placed_def ordered_insert_def)

section \<open>The strategies keep the contract\<close>

definition depth_before :: "activation \<Rightarrow> activation \<Rightarrow> bool" where
  "depth_before a b \<longleftrightarrow> timetag b < timetag a"

interpretation depth: placement "\<lambda>_. True" depth_before PlaceDepthActivation
proof (unfold_locales, goal_cases)
  case (3 P xs Q new prev s)
  then show ?case
    unfolding PlaceDepthActivation_def by (intro placed_walk) (auto simp: depth_before_def Let_def)
qed (auto simp: depth_before_def)

definition complexity_before :: "clips \<Rightarrow> activation \<Rightarrow> activation \<Rightarrow> bool" where
  "complexity_before e a b \<longleftrightarrow>
     complexity (rule e (theRule b)) < complexity (rule e (theRule a))
     \<or> (complexity (rule e (theRule b)) = complexity (rule e (theRule a)) \<and> timetag a < timetag b)"

interpretation complexity: placement "\<lambda>_. True" "complexity_before e" "PlaceComplexityActivation e" for e
proof (unfold_locales, goal_cases)
  case (3 P xs Q new prev s)
  then show ?case
    unfolding PlaceComplexityActivation_def by (intro placed_walk) (auto simp: complexity_before_def Let_def)
qed (auto simp: complexity_before_def)

definition simplicity_before :: "clips \<Rightarrow> activation \<Rightarrow> activation \<Rightarrow> bool" where
  "simplicity_before e a b \<longleftrightarrow>
     complexity (rule e (theRule a)) < complexity (rule e (theRule b))
     \<or> (complexity (rule e (theRule a)) = complexity (rule e (theRule b)) \<and> timetag a < timetag b)"

interpretation simplicity: placement "\<lambda>_. True" "simplicity_before e" "PlaceSimplicityActivation e" for e
proof (unfold_locales, goal_cases)
  case (3 P xs Q new prev s)
  then show ?case
    unfolding PlaceSimplicityActivation_def by (intro placed_walk) (auto simp: simplicity_before_def Let_def)
qed (auto simp: simplicity_before_def)

definition random_before :: "activation \<Rightarrow> activation \<Rightarrow> bool" where
  "random_before a b \<longleftrightarrow>
     randomID a < randomID b \<or> (randomID a = randomID b \<and> timetag a < timetag b)"

interpretation random: placement "\<lambda>_. True" random_before PlaceRandomActivation
proof (unfold_locales, goal_cases)
  case (3 P xs Q new prev s)
  then show ?case
    unfolding PlaceRandomActivation_def by (intro placed_walk) (auto simp: random_before_def Let_def)
qed (auto simp: random_before_def)

subsection \<open>Breadth\<close>

definition breadth_before :: "activation \<Rightarrow> activation \<Rightarrow> bool" where
  "breadth_before a b \<longleftrightarrow> timetag a < timetag b"

lemma takeWhile_snoc: "\<not> P x \<Longrightarrow> takeWhile P (xs @ [x]) = takeWhile P xs"
  by (induction xs) auto

lemma walk_back_takeWhile:
  assumes "xs \<noteq> []" and "sorted_wrt breadth_before xs" and "distinct (map act xs)"
    and "\<forall>a \<in> set xs. timetag a \<noteq> timetag new"
  shows "walk_back (timetag new) (Some (act (hd xs))) outside lastAct (rev xs @ R) =
    (if takeWhile (\<lambda>a. breadth_before a new) xs = [] then outside
     else addr_last (takeWhile (\<lambda>a. breadth_before a new) xs))"
  using assms
proof (induction xs arbitrary: lastAct R rule: rev_induct)
  case (snoc x xs)
  show ?case
  proof (cases "timetag new < timetag x")
    case True
    then have t: "takeWhile (\<lambda>a. breadth_before a new) (xs @ [x]) = takeWhile (\<lambda>a. breadth_before a new) xs"
      by (intro takeWhile_snoc) (auto simp: breadth_before_def)
    show ?thesis
    proof (cases "xs = []")
      case False
      then have "act x \<noteq> act (hd xs)" using snoc.prems(3) by (auto simp: image_iff)
      then show ?thesis
        using True False snoc.IH [of lastAct R] snoc.prems t by (simp add: sorted_wrt_append)
    qed (use True t in simp)
  next
    case False
    then have "timetag x < timetag new" using snoc.prems(4) by auto
    then have "\<forall>a \<in> set (xs @ [x]). breadth_before a new"
      using snoc.prems(2) by (auto simp: sorted_wrt_append breadth_before_def)
    then have "takeWhile (\<lambda>a. breadth_before a new) (xs @ [x]) = xs @ [x]"
      by (simp add: takeWhile_eq_all_conv)
    then show ?thesis using False by (simp add: addr_last_def)
  qed
qed simp

interpretation breadth: placement "\<lambda>_. True" breadth_before PlaceBreadthActivation
proof (unfold_locales, goal_cases)
  case (3 P xs Q new prev s)
  let ?ys = "takeWhile (\<lambda>a. breadth_before a new) xs"
  have "(case last_act (group_of s xs) of None \<Rightarrow> Inr (prev_last prev)
        | Some l \<Rightarrow> bind_res (list_from l (rev (P @ xs @ Q))) (\<lambda>back.
            Inr (walk_back (timetag new) (first (group_of s xs)) (prev_last prev) (Some l) back))) =
      Inr (addr_last (P @ ?ys))"
  proof (cases xs rule: rev_cases)
    case Nil
    then show ?thesis using 3(1) by (simp add: group_of_def in_group_def)
  next
    case (snoc xs' x)
    have "list_from (act x) (rev Q @ x # rev xs' @ rev P) = Inr (x # rev xs' @ rev P)"
      using 3(1) by (intro list_from_append) (auto simp: in_group_def snoc simp flip: rev_map)
    moreover have "walk_back (timetag new) (Some (act (hd xs))) (prev_last prev) (Some (act x)) (rev xs @ rev P) =
      (if ?ys = [] then prev_last prev else addr_last ?ys)"
      using 3 by (intro walk_back_takeWhile) (auto simp: in_group_def snoc)
    moreover have "(if ?ys = [] then prev_last prev else addr_last ?ys) = addr_last (P @ ?ys)"
      using 3(1) by (simp add: in_group_def addr_last_def)
    ultimately show ?thesis by (simp add: group_of_def snoc)
  qed
  then show ?case
    using update_group_of [of P ?ys "dropWhile (\<lambda>a. breadth_before a new) xs" Q new prev s] 3(1)
    by (simp add: PlaceBreadthActivation_def placed_def ordered_insert_def)
qed (auto simp: breadth_before_def)

subsection \<open>The exchange sort\<close>

lemma exchange_pass_append:
  "length us = Suc k \<Longrightarrow>
     exchange_pass k (us @ vs) = (fst (exchange_pass k us), snd (exchange_pass k us) @ vs)"
proof (induction k us rule: exchange_pass.induct)
  case (1 k x y ys)
  then show ?case by (auto split: prod.split)
qed (auto simp: length_Suc_conv)

lemma exchange_pass_min:
  assumes "length us = Suc k"
  shows "\<exists>ws m. snd (exchange_pass k us) = ws @ [m] \<and> (\<forall>w \<in> set ws. m \<le> w)
    \<and> mset (ws @ [m]) = mset us \<and> (\<not> fst (exchange_pass k us) \<longrightarrow> ws @ [m] = us \<and> sorted_wrt (\<ge>) us)"
  using assms
proof (induction k us rule: exchange_pass.induct)
  case (1 k x y ys)
  show ?case
  proof (cases "x < y")
    case True
    then obtain ws m where *: "snd (exchange_pass k (x # ys)) = ws @ [m]" "\<forall>w \<in> set ws. m \<le> w"
      "mset (ws @ [m]) = mset (x # ys)"
      using 1 by auto
    have "x \<in> set (ws @ [m])" using *(3) by (metis list.set_intros(1) set_mset_mset)
    then have "m \<le> x" using *(2) by auto
    then show ?thesis
      using True * by (intro exI [of _ "y # ws"] exI [of _ m]) (auto split: prod.split)
  next
    case False
    then obtain ws m where *: "snd (exchange_pass k (y # ys)) = ws @ [m]" "\<forall>w \<in> set ws. m \<le> w"
      "mset (ws @ [m]) = mset (y # ys)"
      "\<not> fst (exchange_pass k (y # ys)) \<longrightarrow> ws @ [m] = y # ys \<and> sorted_wrt (\<ge>) (y # ys)"
      using 1 by auto
    have "y \<in> set (ws @ [m])" using *(3) by (metis list.set_intros(1) set_mset_mset)
    then have "m \<le> y" using *(2) by auto
    then show ?thesis
      using False * by (intro exI [of _ "x # ws"] exI [of _ m]) (auto split: prod.split)
  qed
qed (auto simp: length_Suc_conv)

lemma exchange_loop_sorts:
  assumes "length us = Suc k" and "sorted_wrt (\<ge>) vs" and "\<forall>u \<in> set us. \<forall>v \<in> set vs. v \<le> u"
  shows "sorted_wrt (\<ge>) (exchange_loop k (us @ vs)) \<and> mset (exchange_loop k (us @ vs)) = mset (us @ vs)"
  using assms
proof (induction k arbitrary: us vs rule: less_induct)
  case (less k)
  obtain ws m where p: "snd (exchange_pass k us) = ws @ [m]" "\<forall>w \<in> set ws. m \<le> w"
    "mset (ws @ [m]) = mset us" "\<not> fst (exchange_pass k us) \<longrightarrow> ws @ [m] = us \<and> sorted_wrt (\<ge>) us"
    using exchange_pass_min [OF less.prems(1)] by auto
  have set: "set us = set (ws @ [m])" using p(3) by (metis set_mset_mset)
  show ?case
  proof (cases "fst (exchange_pass k us)")
    case True
    then have k: "0 < k" by (rule exchange_pass_flag)
    have "length (ws @ [m]) = Suc k" using p(3) less.prems(1) by (metis size_mset)
    then have "sorted_wrt (\<ge>) (exchange_loop (k - 1) (ws @ m # vs))
        \<and> mset (exchange_loop (k - 1) (ws @ m # vs)) = mset (ws @ m # vs)"
      using k less.prems p(2) set by (intro less.IH) auto
    moreover have "exchange_loop k (us @ vs) = exchange_loop (k - 1) (ws @ m # vs)"
      using True p(1) by (subst exchange_loop.simps) (simp add: exchange_pass_append [OF less.prems(1)])
    moreover have "mset (ws @ m # vs) = mset (us @ vs)" using p(3) by simp
    ultimately show ?thesis by simp
  next
    case False
    then have "exchange_loop k (us @ vs) = us @ vs"
      using p by (subst exchange_loop.simps) (simp add: exchange_pass_append [OF less.prems(1)])
    then show ?thesis using False p(4) less.prems by (simp add: sorted_wrt_append)
  qed
qed

definition tags_of :: "partialMatch \<Rightarrow> 64 word list" where
  "tags_of b = map (\<lambda>t. case t of Some tag \<Rightarrow> tag | None \<Rightarrow> 0) (binds b)"

lemma SortPartialMatch_sorts:
  assumes "binds b \<noteq> []"
  shows "\<exists>ts. SortPartialMatch b = Inr ts \<and> sorted_wrt (\<ge>) ts \<and> mset ts = mset (tags_of b)"
proof -
  have "length (tags_of b) = Suc (length (tags_of b) - 1)" using assms by (simp add: tags_of_def)
  from exchange_loop_sorts [OF this, of "[]"] show ?thesis
    using assms by (auto simp: SortPartialMatch_def tags_of_def Let_def)
qed

lemma sorted_desc_unique:
  assumes "sorted_wrt (\<ge>) xs" and "sorted_wrt (\<ge>) ys" and "mset xs = mset (ys :: 64 word list)"
  shows "xs = ys"
proof -
  have "rev xs = rev ys"
    using assms by (intro properties_for_sort [symmetric, THEN trans, OF _ _ properties_for_sort])
      (auto simp: sorted_wrt_rev)
  then show ?thesis by simp
qed

lemma SortPartialMatch_sort:
  assumes "binds b \<noteq> []"
  shows "SortPartialMatch b = Inr (rev (sort (tags_of b)))"
proof -
  obtain ts where ts: "SortPartialMatch b = Inr ts" "sorted_wrt (\<ge>) ts" "mset ts = mset (tags_of b)"
    using SortPartialMatch_sorts [OF assms] by blast
  have "rev ts = sort (tags_of b)"
    using ts by (intro properties_for_sort [symmetric]) (auto simp: sorted_wrt_rev)
  then show ?thesis using ts(1) by (metis rev_rev_ident)
qed

subsection \<open>Lex\<close>

lemma compare_tags_less:
  "compare_tags (min (length xs) (length ys)) xs ys \<noteq> EQUAL \<Longrightarrow>
     (compare_tags (min (length xs) (length ys)) xs ys = LESS_THAN \<longrightarrow> xs < ys)
     \<and> (compare_tags (min (length xs) (length ys)) xs ys = GREATER_THAN \<longrightarrow> ys < xs)"
proof (induction xs arbitrary: ys)
  case (Cons x xs)
  then show ?case by (cases ys) (auto split: if_splits)
qed simp

lemma compare_tags_equal:
  "compare_tags (min (length xs) (length ys)) xs ys = EQUAL \<Longrightarrow>
     (length xs < length ys \<longrightarrow> xs < ys) \<and> (length ys < length xs \<longrightarrow> ys < xs)
     \<and> (length xs = length ys \<longrightarrow> xs = ys)"
proof (induction xs arbitrary: ys)
  case Nil
  then show ?case by (cases ys) simp_all
next
  case (Cons x xs)
  then show ?case by (cases ys) (auto split: if_splits)
qed

text \<open>What lex compares: the time tags, the newest first, and then the complexity of the rule.\<close>

definition recency :: "clips \<Rightarrow> activation \<Rightarrow> 64 word list" where
  "recency e a = rev (sort (tags_of (match e (basis a))))"

definition has_binds :: "clips \<Rightarrow> activation \<Rightarrow> bool" where
  "has_binds e a \<longleftrightarrow> binds (match e (basis a)) \<noteq> []"

definition compare_spec :: "clips \<Rightarrow> activation \<Rightarrow> activation \<Rightarrow> comparison" where
  "compare_spec e actPtr new =
     (let k1 = recency e new; k2 = recency e actPtr;
          c1 = complexity (rule e (theRule new)); c2 = complexity (rule e (theRule actPtr)) in
      if k1 < k2 \<or> k1 = k2 \<and> c1 < c2 then LESS_THAN
      else if k2 < k1 \<or> k1 = k2 \<and> c2 < c1 then GREATER_THAN else EQUAL)"

lemma compare_keys:
  fixes k1 k2 :: "64 word list" and c1 c2 :: nat
  shows "(let flag = compare_tags (min (length k1) (length k2)) k1 k2 in
       if flag \<noteq> EQUAL then Inr flag
       else if length k1 < length k2 then Inr LESS_THAN
       else if length k2 < length k1 then Inr GREATER_THAN
       else if c1 < c2 then Inr LESS_THAN
       else if c2 < c1 then Inr GREATER_THAN
       else Inr EQUAL :: comparison res) =
    Inr (if k1 < k2 \<or> k1 = k2 \<and> c1 < c2 then LESS_THAN
         else if k2 < k1 \<or> k1 = k2 \<and> c2 < c1 then GREATER_THAN else EQUAL)"
proof (cases "compare_tags (min (length k1) (length k2)) k1 k2")
  case LESS_THAN
  then have "k1 < k2" using compare_tags_less [of k1 k2] by simp
  then show ?thesis using LESS_THAN by simp
next
  case GREATER_THAN
  then have "k2 < k1" using compare_tags_less [of k1 k2] by simp
  then have "\<not> k1 < k2" "k1 \<noteq> k2" by auto
  then show ?thesis using GREATER_THAN \<open>k2 < k1\<close> by simp
next
  case EQUAL
  note e = compare_tags_equal [OF EQUAL]
  consider "length k1 < length k2" "k1 < k2" | "length k2 < length k1" "k2 < k1" "\<not> k1 < k2" "k1 \<noteq> k2"
    | "length k1 = length k2" "k1 = k2"
    using e by (metis less_asym less_irrefl nat_neq_iff)
  then show ?thesis using EQUAL by cases simp_all
qed

lemma ComparePartialMatches_spec:
  assumes "has_binds e actPtr" and "has_binds e new"
  shows "ComparePartialMatches e actPtr new = Inr (compare_spec e actPtr new)"
proof -
  let ?k1 = "recency e new" and ?k2 = "recency e actPtr"
  have l: "length ?k1 = length (binds (match e (basis new)))" "length ?k2 = length (binds (match e (basis actPtr)))"
    by (simp_all add: recency_def tags_of_def)
  have m: "(if length ?k1 < length ?k2 then length ?k1 else length ?k2) = min (length ?k1) (length ?k2)" by simp
  have "ComparePartialMatches e actPtr new =
      (let flag = compare_tags (min (length ?k1) (length ?k2)) ?k1 ?k2 in
       if flag \<noteq> EQUAL then Inr flag
       else if length ?k1 < length ?k2 then Inr LESS_THAN
       else if length ?k2 < length ?k1 then Inr GREATER_THAN
       else if complexity (rule e (theRule new)) < complexity (rule e (theRule actPtr)) then Inr LESS_THAN
       else if complexity (rule e (theRule actPtr)) < complexity (rule e (theRule new)) then Inr GREATER_THAN
       else Inr EQUAL)"
    using assms m
    by (simp add: ComparePartialMatches_def SortPartialMatch_sort has_binds_def Let_def l flip: recency_def)
  also have "\<dots> = Inr (compare_spec e actPtr new)"
    by (subst compare_keys) (simp add: compare_spec_def Let_def)
  finally show ?thesis .
qed

lemma place_end_or_walk_takeWhile:
  assumes "in_group P xs Q new prev" and "sorted_wrt before xs"
    and "\<And>a b. before a b \<Longrightarrow> before b new \<Longrightarrow> before a new"
    and "\<And>a. a \<in> set xs \<Longrightarrow> behind_end a = Inr (before a new)"
    and "\<And>a. a \<in> set xs \<Longrightarrow> behind a = Inr (before a new)"
  shows "place_end_or_walk behind_end behind (P @ xs @ Q) new prev (group_of s xs) =
    Inr (addr_last (P @ takeWhile (\<lambda>a. before a new) xs), group_of s (ordered_insert before new xs))"
proof (cases xs rule: rev_cases)
  case Nil
  then show ?thesis
    using placed_walk [OF assms(1), of behind before s] by (simp add: place_end_or_walk_def group_of_def)
next
  case (snoc xs' x)
  have l: "list_from (act x) (P @ xs @ Q) = Inr (x # Q)"
    using list_from_append [of "P @ xs'" x Q] assms(1) by (simp add: in_group_def snoc)
  have g: "last_act (group_of s xs) = Some (act x)" by (simp add: group_of_def snoc)
  show ?thesis
  proof (cases "before x new")
    case True
    then have "\<forall>a \<in> set xs. before a new"
      using assms(2,3) by (auto simp: snoc sorted_wrt_append)
    then have "takeWhile (\<lambda>a. before a new) xs = xs" "dropWhile (\<lambda>a. before a new) xs = []"
      by (simp_all add: takeWhile_eq_all_conv dropWhile_eq_Nil_conv)
    moreover have "(group_of s xs)\<lparr>last_act := Some (act new)\<rparr> = group_of s (xs @ [new])"
      by (cases xs) (simp_all add: group_of_def snoc)
    ultimately show ?thesis
      using True assms(4) [of x] l g by (simp add: place_end_or_walk_def ordered_insert_def addr_last_def snoc)
  next
    case False
    then show ?thesis
      using placed_walk [OF assms(1), of behind before s] assms(4) [of x] assms(5) l g
      by (simp add: place_end_or_walk_def snoc)
  qed
qed

text \<open>
  \<open>a\<close> goes before \<open>b\<close>: newer time tags, then the higher complexity, then the older activation.
\<close>

definition lex_before :: "clips \<Rightarrow> activation \<Rightarrow> activation \<Rightarrow> bool" where
  "lex_before e a b \<longleftrightarrow>
     recency e b < recency e a
     \<or> (recency e b = recency e a
        \<and> (complexity (rule e (theRule b)) < complexity (rule e (theRule a))
           \<or> (complexity (rule e (theRule b)) = complexity (rule e (theRule a)) \<and> timetag a < timetag b)))"

lemma lex_before_trans: "lex_before e a b \<Longrightarrow> lex_before e b c \<Longrightarrow> lex_before e a c"
  unfolding lex_before_def by (elim disjE conjE) (auto dest: less_trans)

lemma lex_before_total: "timetag a \<noteq> timetag b \<Longrightarrow> lex_before e a b \<or> lex_before e b a"
  using less_linear [of "recency e a" "recency e b"]
    less_linear [of "complexity (rule e (theRule a))" "complexity (rule e (theRule b))"]
    less_linear [of "timetag a" "timetag b"]
  unfolding lex_before_def by fastforce

lemma goes_behind_compare:
  assumes "timetag a \<noteq> timetag new"
  shows "goes_behind new a (compare_spec e a new) \<longleftrightarrow> lex_before e a new"
  using assms less_asym [of "recency e new" "recency e a"]
  by (auto simp: goes_behind_def compare_spec_def lex_before_def Let_def)

interpretation lex: placement "has_binds e" "lex_before e" "PlaceLEXActivation e" for e
proof (unfold_locales, goal_cases)
  case (1 a b c)
  then show ?case by (rule lex_before_trans)
next
  case (2 a b)
  then show ?case by (rule lex_before_total)
next
  case (3 P xs Q new prev s)
  have "lex_behind e new a = Inr (lex_before e a new)" if "a \<in> set xs" for a
    using that 3 by (simp add: lex_behind_def ComparePartialMatches_spec goes_behind_compare)
  then show ?case
    unfolding PlaceLEXActivation_def
    using 3 by (intro place_end_or_walk_takeWhile) (auto intro: lex_before_trans)
qed

subsection \<open>Mea\<close>

text \<open>
  The time tag of the first pattern's item, -1 if it has none. Time tags of items are positive.
\<close>

definition first_recency :: "clips \<Rightarrow> activation \<Rightarrow> int" where
  "first_recency e a = (case hd (binds (match e (basis a))) of None \<Rightarrow> -1 | Some t \<Rightarrow> sint t)"

definition first_positive :: "clips \<Rightarrow> activation \<Rightarrow> bool" where
  "first_positive e a \<longleftrightarrow> has_binds e a \<and>
     (case hd (binds (match e (basis a))) of None \<Rightarrow> True | Some t \<Rightarrow> 0 < sint t)"

definition mea_before :: "clips \<Rightarrow> activation \<Rightarrow> activation \<Rightarrow> bool" where
  "mea_before e a b \<longleftrightarrow>
     first_recency e b < first_recency e a
     \<or> (first_recency e b = first_recency e a \<and> lex_before e a b)"

lemma first_tag_ok: "has_binds e a \<Longrightarrow> first_tag e a = Inr (hd (binds (match e (basis a))))"
  by (cases "binds (match e (basis a))") (simp_all add: has_binds_def first_tag_def)

lemma mea_flags:
  assumes "first_positive e a" and "first_positive e new"
  shows "mea_flag e new a = Inr (if first_recency e a < first_recency e new then GREATER_THAN
      else if first_recency e new < first_recency e a then LESS_THAN else compare_spec e a new)"
    and "mea_flag_end e new a = Inr (if first_recency e a < first_recency e new then GREATER_THAN
      else if first_recency e new < first_recency e a then LESS_THAN else compare_spec e a new)"
proof -
  have h: "has_binds e a" "has_binds e new" using assms by (simp_all add: first_positive_def)
  show "mea_flag e new a = Inr (if first_recency e a < first_recency e new then GREATER_THAN
      else if first_recency e new < first_recency e a then LESS_THAN else compare_spec e a new)"
    using assms h
    by (auto simp: mea_flag_def first_tag_ok first_recency_def first_positive_def Let_def
        ComparePartialMatches_spec split: option.splits)
  show "mea_flag_end e new a = Inr (if first_recency e a < first_recency e new then GREATER_THAN
      else if first_recency e new < first_recency e a then LESS_THAN else compare_spec e a new)"
    using assms h
    by (auto simp: mea_flag_end_def first_tag_ok first_recency_def first_positive_def word_sless_alt
        ComparePartialMatches_spec split: option.splits)
qed

lemma mea_behind:
  assumes "timetag a \<noteq> timetag new"
  shows "goes_behind new a (if first_recency e a < first_recency e new then GREATER_THAN
      else if first_recency e new < first_recency e a then LESS_THAN else compare_spec e a new)
    \<longleftrightarrow> mea_before e a new"
  using goes_behind_compare [OF assms] by (auto simp: mea_before_def goes_behind_def)

lemma mea_before_trans: "mea_before e a b \<Longrightarrow> mea_before e b c \<Longrightarrow> mea_before e a c"
  unfolding mea_before_def using lex_before_trans by force

interpretation mea: placement "first_positive e" "mea_before e" "PlaceMEAActivation e" for e
proof (unfold_locales, goal_cases)
  case (1 a b c)
  then show ?case by (rule mea_before_trans)
next
  case (2 a b)
  then show ?case using lex_before_total [of a b e] by (auto simp: mea_before_def)
next
  case (3 P xs Q new prev s)
  have "bind_res (mea_flag e new a) (\<lambda>flag. Inr (goes_behind new a flag)) = Inr (mea_before e a new)"
    "bind_res (mea_flag_end e new a) (\<lambda>flag. Inr (goes_behind new a flag)) = Inr (mea_before e a new)"
    if "a \<in> set xs" for a
    using that 3 by (simp_all add: mea_flags mea_behind)
  then show ?case
    unfolding PlaceMEAActivation_def
    using 3 by (intro place_end_or_walk_takeWhile) (auto intro: mea_before_trans)
qed

section \<open>The current strategy\<close>

definition strategy_before :: "clips \<Rightarrow> activation \<Rightarrow> activation \<Rightarrow> bool" where
  "strategy_before e =
     (if Strategy e = DEPTH_STRATEGY then depth_before
      else if Strategy e = BREADTH_STRATEGY then breadth_before
      else if Strategy e = LEX_STRATEGY then lex_before e
      else if Strategy e = MEA_STRATEGY then mea_before e
      else if Strategy e = COMPLEXITY_STRATEGY then complexity_before e
      else if Strategy e = SIMPLICITY_STRATEGY then simplicity_before e
      else random_before)"

definition strategy_good :: "clips \<Rightarrow> activation \<Rightarrow> bool" where
  "strategy_good e a \<longleftrightarrow>
     (Strategy e = LEX_STRATEGY \<longrightarrow> has_binds e a) \<and> (Strategy e = MEA_STRATEGY \<longrightarrow> first_positive e a)"

definition known_strategy :: "int \<Rightarrow> bool" where
  "known_strategy v \<longleftrightarrow> v \<in> {0, 1, 2, 3, 4, 5, 6}"

lemma known_cases:
  assumes "known_strategy (Strategy e)"
  obtains "Strategy e = DEPTH_STRATEGY" | "Strategy e = BREADTH_STRATEGY" | "Strategy e = LEX_STRATEGY"
    | "Strategy e = MEA_STRATEGY" | "Strategy e = COMPLEXITY_STRATEGY" | "Strategy e = SIMPLICITY_STRATEGY"
    | "Strategy e = RANDOM_STRATEGY"
  using assms by (auto simp: known_strategy_def)

lemma strategy_insert_sorted:
  assumes "known_strategy (Strategy e)" and "sorted_wrt (strategy_before e) xs"
    and "\<forall>a \<in> set xs. timetag a \<noteq> timetag new"
  shows "sorted_wrt (strategy_before e) (ordered_insert (strategy_before e) new xs)"
  using assms
  by (cases rule: known_cases [OF assms(1)])
    (auto simp: strategy_before_def intro: depth.insert_sorted breadth.insert_sorted lex.insert_sorted
      mea.insert_sorted complexity.insert_sorted simplicity.insert_sorted random.insert_sorted)

lemma choose_place_inserts:
  assumes "known_strategy (Strategy e)" and "in_group P xs Q new prev"
    and "\<forall>a \<in> set (new # xs). strategy_good e a" and "sorted_wrt (strategy_before e) xs"
    and "\<forall>a \<in> set xs. timetag a \<noteq> timetag new"
  shows "bind_res (choose_place e (P @ xs @ Q) new prev (group_of s xs)) (\<lambda>(placeAfter, g).
      bind_res (insert_after placeAfter new (P @ xs @ Q)) (\<lambda>acts. Inr (acts, g))) =
    Inr (P @ ordered_insert (strategy_before e) new xs @ Q,
         group_of s (ordered_insert (strategy_before e) new xs))"
proof (cases "P @ xs @ Q = []")
  case True
  then show ?thesis
    by (simp add: choose_place_def insert_after_def ordered_insert_def group_of_def)
next
  case False
  show ?thesis
    using assms(3-5) False
    by (cases rule: known_cases [OF assms(1)])
      (simp_all add: choose_place_def strategy_before_def strategy_good_def
        depth.place_inserts [OF assms(2)] breadth.place_inserts [OF assms(2)]
        lex.place_inserts [OF assms(2)] mea.place_inserts [OF assms(2)]
        complexity.place_inserts [OF assms(2)] simplicity.place_inserts [OF assms(2)]
        random.place_inserts [OF assms(2)])
qed

section \<open>Well-formed agendas\<close>

text \<open>
  The agenda is the concatenation of its groups' segments, in descending salience; each group's record
  has the salience and the ends of its segment; no activation is on the agenda twice.
\<close>

type_synonym segment = "int \<times> activation list"

definition record_of :: "segment \<Rightarrow> salienceGroup" where
  "record_of g = group_of (fst g) (snd g)"

definition segments :: "defruleModule \<Rightarrow> segment list \<Rightarrow> bool" where
  "segments md segs \<longleftrightarrow> agenda md = concat (map snd segs) \<and> groupings md = map record_of segs
     \<and> sorted_wrt (\<lambda>x y. fst y < fst x) segs
     \<and> (\<forall>g \<in> set segs. snd g \<noteq> [] \<and> (\<forall>a \<in> set (snd g). salience a = fst g))
     \<and> distinct (map act (agenda md))"

definition agenda_before :: "clips \<Rightarrow> activation \<Rightarrow> activation \<Rightarrow> bool" where
  "agenda_before e a b \<longleftrightarrow>
     salience b < salience a \<or> (salience a = salience b \<and> strategy_before e a b)"

text \<open>
  A well-formed agenda: it has segments, is in the order of salience and strategy, its time tags are
  distinct, and the strategy can compare its activations.
\<close>

definition agenda_ok :: "clips \<Rightarrow> defruleModule \<Rightarrow> bool" where
  "agenda_ok e md \<longleftrightarrow> (\<exists>segs. segments md segs) \<and> sorted_wrt (agenda_before e) (agenda md)
     \<and> distinct (map timetag (agenda md)) \<and> (\<forall>a \<in> set (agenda md). strategy_good e a)"

definition same_order :: "clips \<Rightarrow> clips \<Rightarrow> bool" where
  "same_order e e' \<longleftrightarrow> Strategy e' = Strategy e
     \<and> (\<forall>b. binds (match e' b) = binds (match e b))
     \<and> (\<forall>r. complexity (rule e' r) = complexity (rule e r))"

lemma same_order_before:
  assumes "same_order e e'"
  shows "strategy_before e' = strategy_before e" "strategy_good e' = strategy_good e"
    "agenda_before e' = agenda_before e"
proof -
  have r: "recency e' = recency e" "has_binds e' = has_binds e" "first_recency e' = first_recency e"
    using assms by (auto simp: same_order_def recency_def tags_of_def has_binds_def first_recency_def fun_eq_iff)
  have "first_positive e' = first_positive e" "lex_before e' = lex_before e"
    "complexity_before e' = complexity_before e" "simplicity_before e' = simplicity_before e"
    using assms r by (auto simp: same_order_def first_positive_def lex_before_def complexity_before_def
        simplicity_before_def fun_eq_iff)
  moreover from this have "mea_before e' = mea_before e"
    using r by (auto simp: mea_before_def fun_eq_iff)
  ultimately show "strategy_before e' = strategy_before e" "strategy_good e' = strategy_good e"
    using assms r by (auto simp: same_order_def strategy_before_def strategy_good_def fun_eq_iff)
  then show "agenda_before e' = agenda_before e" by (auto simp: agenda_before_def fun_eq_iff)
qed

lemma agenda_ok_same_order: "same_order e e' \<Longrightarrow> agenda_ok e' md = agenda_ok e md"
  by (simp add: agenda_ok_def same_order_before)

lemma same_order_refl [simp]: "same_order e e"
  by (simp add: same_order_def)

lemma same_order_trans: "same_order e e1 \<Longrightarrow> same_order e1 e2 \<Longrightarrow> same_order e e2"
  by (simp add: same_order_def)

lemma same_order_upd [simp]:
  "same_order e (e'\<lparr>AgendaChanged := c\<rparr>) = same_order e e'"
  "same_order e (e'\<lparr>ruleModule := f\<rparr>) = same_order e e'"
  "same_order e (e'\<lparr>NumberOfActivations := k\<rparr>) = same_order e e'"
  "same_order e (e'\<lparr>CurrentTimetag := t\<rparr>) = same_order e e'"
  "same_order e (e'\<lparr>EvaluationError := b\<rparr>) = same_order e e'"
  "same_order e (e'\<lparr>HaltExecution := h\<rparr>) = same_order e e'"
  "same_order e (e'\<lparr>CurrentModule := m\<rparr>) = same_order e e'"
  "same_order e (e'\<lparr>CurrentFocus := fs\<rparr>) = same_order e e'"
  "same_order e (e'\<lparr>FocusChanged := fc\<rparr>) = same_order e e'"
  "same_order e (e'\<lparr>SalienceEvaluation := v\<rparr>) = same_order e e'"
  by (simp_all add: same_order_def)

section \<open>Finding the group\<close>

lemma reuse_or_create_split:
  assumes "sorted_wrt (\<lambda>x y. fst y < fst x) segs"
  obtains pre xs post where
    "segs = pre @ (if xs = [] then [] else [(s, xs)]) @ post \<or> segs = pre @ (s, xs) # post"
    "concat (map snd segs) = concat (map snd pre) @ xs @ concat (map snd post)"
    "reuse_or_create s (map record_of segs) = (map record_of (pre @ (s, xs) # post), length pre)"
    "\<forall>g \<in> set pre. s < fst g" "\<forall>g \<in> set post. fst g < s"
  using assms
proof (induction segs arbitrary: thesis)
  case Nil
  show ?case by (rule Nil.prems(1) [of "[]" "[]" "[]"]) (simp_all add: record_of_def group_of_def)
next
  case (Cons g segs)
  have gs: "group_salience (record_of g) = fst g" by (simp add: record_of_def group_of_def)
  consider "fst g = s" | "fst g < s" | "s < fst g" by linarith
  then show ?case
  proof cases
    case 1
    show ?thesis
      by (rule Cons.prems(1) [of "[]" "snd g" segs]) (use 1 gs Cons.prems(2) in \<open>cases g; auto\<close>)+
  next
    case 2
    show ?thesis
      by (rule Cons.prems(1) [of "[]" "[]" "g # segs"])
        (use 2 gs Cons.prems(2) in \<open>auto simp: record_of_def group_of_def\<close>)
  next
    case 3
    obtain pre xs post where *:
      "segs = pre @ (if xs = [] then [] else [(s, xs)]) @ post \<or> segs = pre @ (s, xs) # post"
      "concat (map snd segs) = concat (map snd pre) @ xs @ concat (map snd post)"
      "reuse_or_create s (map record_of segs) = (map record_of (pre @ (s, xs) # post), length pre)"
      "\<forall>g \<in> set pre. s < fst g" "\<forall>g \<in> set post. fst g < s"
      using Cons.IH Cons.prems(2) by auto
    show ?thesis
      by (rule Cons.prems(1) [of "g # pre" xs post]) (use 3 gs * in auto)
  qed
qed

lemma addr_last_concat:
  assumes "\<forall>g \<in> set pre. snd g \<noteq> []" and "pre \<noteq> []"
  shows "addr_last (concat (map snd pre)) = last_act (record_of (last pre))"
  using assms by (cases pre rule: rev_cases) (auto simp: addr_last_def record_of_def group_of_def)

section \<open>Placing an activation on an agenda\<close>

lemma takeWhile_middle:
  assumes "\<forall>a \<in> set P. b a" and "\<forall>a \<in> set Q. \<not> b a"
  shows "takeWhile b (P @ xs @ Q) = P @ takeWhile b xs" "dropWhile b (P @ xs @ Q) = dropWhile b xs @ Q"
proof -
  have "takeWhile b Q = []" "dropWhile b Q = Q"
    using assms(2) by (cases Q; simp)+
  then have "takeWhile b (xs @ Q) = takeWhile b xs" "dropWhile b (xs @ Q) = dropWhile b xs @ Q"
    by (induction xs) simp_all
  then show "takeWhile b (P @ xs @ Q) = P @ takeWhile b xs" "dropWhile b (P @ xs @ Q) = dropWhile b xs @ Q"
    using assms(1) by (simp_all add: takeWhile_append dropWhile_append)
qed

lemma PlaceActivation_eq:
  assumes "agenda (ruleModule e m) = acts" and "groupings (ruleModule e m) = gs" and "i < length gs"
    and "choose_place (e\<lparr>AgendaChanged := True\<rparr>) acts new (if i = 0 then None else Some (gs ! (i - 1))) (gs ! i)
      = Inr (pa, g)"
    and "insert_after pa new acts = Inr acts'"
  shows "PlaceActivation m new i e = Inr (e\<lparr>AgendaChanged := True,
    ruleModule := (ruleModule e)(m := \<lparr>agenda = acts', groupings = gs[i := g]\<rparr>)\<rparr>)"
  using assms by (cases "i = 0") (simp_all add: PlaceActivation_def Let_def)

lemma mset_ordered_insert: "mset (ordered_insert before new xs) = add_mset new (mset xs)"
proof -
  have "mset xs = mset (takeWhile (\<lambda>a. before a new) xs) + mset (dropWhile (\<lambda>a. before a new) xs)"
    by (metis mset_append takeWhile_dropWhile_id)
  then show ?thesis by (simp add: ordered_insert_def)
qed

lemma place_on_agenda:
  assumes "known_strategy (Strategy e)" and "agenda_ok e (ruleModule e m)"
    and "strategy_good e new" and "act new \<notin> act ` set (agenda (ruleModule e m))"
    and "timetag new \<notin> timetag ` set (agenda (ruleModule e m))"
    and "ReuseOrCreateSalienceGroup m (salience new) e = (i, e1)"
  obtains md where
    "PlaceActivation m new i e1 = Inr (e\<lparr>AgendaChanged := True, ruleModule := (ruleModule e)(m := md)\<rparr>)"
    "agenda md = ordered_insert (agenda_before e) new (agenda (ruleModule e m))" "agenda_ok e md"
proof -
  let ?s = "salience new" and ?acts = "agenda (ruleModule e m)"
  obtain segs where segs: "segments (ruleModule e m) segs" and sorted: "sorted_wrt (agenda_before e) ?acts"
    and tags: "distinct (map timetag ?acts)" and good: "\<forall>a \<in> set ?acts. strategy_good e a"
    using assms(2) by (auto simp: agenda_ok_def)
  have desc: "sorted_wrt (\<lambda>x y. fst y < fst x) segs" using segs by (simp add: segments_def)
  obtain pre xs post where s1: "segs = pre @ (if xs = [] then [] else [(?s, xs)]) @ post \<or> segs = pre @ (?s, xs) # post"
    and s2: "concat (map snd segs) = concat (map snd pre) @ xs @ concat (map snd post)"
    and s3: "reuse_or_create ?s (map record_of segs) = (map record_of (pre @ (?s, xs) # post), length pre)"
    and s4: "\<forall>g \<in> set pre. ?s < fst g" "\<forall>g \<in> set post. fst g < ?s"
    using reuse_or_create_split [OF desc, of ?s] by metis
  let ?P = "concat (map snd pre)" and ?Q = "concat (map snd post)"
  have acts: "?acts = ?P @ xs @ ?Q" using segs s2 by (simp add: segments_def)
  have sal: "\<forall>g \<in> set (pre @ post). snd g \<noteq> [] \<and> (\<forall>a \<in> set (snd g). salience a = fst g)"
    "\<forall>a \<in> set xs. salience a = ?s"
    using segs s1 by (auto simp: segments_def split: if_splits)
  have P: "\<forall>a \<in> set ?P. ?s < salience a" and Q: "\<forall>a \<in> set ?Q. salience a < ?s"
    using sal(1) s4 by fastforce+
  let ?gs = "map record_of (pre @ (?s, xs) # post)"
  have i: "i = length pre" and e1: "e1 = e\<lparr>ruleModule := (ruleModule e)(m := (ruleModule e m)\<lparr>groupings := ?gs\<rparr>)\<rparr>"
    using assms(6) s3 segs by (auto simp: ReuseOrCreateSalienceGroup_def segments_def)
  let ?prev = "if i = 0 then None else Some (?gs ! (i - 1))"
  have prev: "?prev = (if pre = [] then None else Some (record_of (last pre)))"
    by (auto simp: i nth_append last_conv_nth)
  have "prev_last ?prev = addr_last ?P" "?prev = None \<longleftrightarrow> ?P = []"
  proof -
    show "prev_last ?prev = addr_last ?P"
      unfolding prev using addr_last_concat [of pre] sal(1)
      by (cases "pre = []") (auto simp: prev_last_def addr_last_def)
    show "?prev = None \<longleftrightarrow> ?P = []"
      unfolding prev using sal(1) by (cases pre) auto
  qed
  moreover have "distinct (map act (?acts @ [new]))" using segs assms(4) unfolding segments_def by force
  then have dist: "distinct (map act (?P @ xs @ ?Q @ [new]))" unfolding acts by simp
  ultimately have grp: "in_group ?P xs ?Q new ?prev" by (simp only: in_group_def simp_thms)
  let ?b = "strategy_before e"
  let ?e = "e1\<lparr>AgendaChanged := True\<rparr>"
  have same: "same_order e ?e" by (simp add: e1)
  have xs_sorted: "sorted_wrt ?b xs"
  proof -
    have "sorted_wrt (agenda_before e) xs" using sorted acts by (simp add: sorted_wrt_append)
    then show ?thesis
      using sal(2) by (auto intro: sorted_wrt_mono_rel [rotated] simp: agenda_before_def)
  qed
  have xs_tags: "\<forall>a \<in> set xs. timetag a \<noteq> timetag new"
    using assms(5) unfolding acts by (metis Un_iff image_eqI set_append)
  have chosen: "bind_res (choose_place ?e (?P @ xs @ ?Q) new ?prev (group_of ?s xs)) (\<lambda>(placeAfter, g).
      bind_res (insert_after placeAfter new (?P @ xs @ ?Q)) (\<lambda>acts. Inr (acts, g))) =
    Inr (?P @ ordered_insert ?b new xs @ ?Q, group_of ?s (ordered_insert ?b new xs))"
  proof -
    have gd: "\<forall>a \<in> set (new # xs). strategy_good e a" using assms(3) good acts by simp
    have "known_strategy (Strategy ?e)" using assms(1) by (simp add: e1)
    note c = choose_place_inserts [of ?e ?P xs ?Q new ?prev ?s, unfolded same_order_before [OF same]]
    show ?thesis
      by (rule c [OF \<open>known_strategy (Strategy ?e)\<close> grp gd xs_sorted xs_tags])
  qed
  let ?md = "\<lparr>agenda = ?P @ ordered_insert ?b new xs @ ?Q,
      groupings = ?gs[i := group_of ?s (ordered_insert ?b new xs)]\<rparr>"
  have placed: "PlaceActivation m new i e1 = Inr (e\<lparr>AgendaChanged := True, ruleModule := (ruleModule e)(m := ?md)\<rparr>)"
  proof -
    obtain pa g where pg: "choose_place ?e (?P @ xs @ ?Q) new ?prev (group_of ?s xs) = Inr (pa, g)"
      "insert_after pa new (?P @ xs @ ?Q) = Inr (?P @ ordered_insert ?b new xs @ ?Q)"
      "g = group_of ?s (ordered_insert ?b new xs)"
      using chosen by (auto simp: bind_res_eq_Inr)
    have gi: "i < length ?gs" "?gs ! i = group_of ?s xs" by (simp_all add: i nth_append record_of_def)
    have "PlaceActivation m new i e1 =
        Inr (e1\<lparr>AgendaChanged := True, ruleModule := (ruleModule e1)(m := \<lparr>agenda =
          ?P @ ordered_insert ?b new xs @ ?Q, groupings = ?gs[i := g]\<rparr>)\<rparr>)"
    proof (rule PlaceActivation_eq)
      show "agenda (ruleModule e1 m) = ?P @ xs @ ?Q" using acts by (simp add: e1)
      show "groupings (ruleModule e1 m) = ?gs" by (simp add: e1)
      show "choose_place ?e (?P @ xs @ ?Q) new ?prev (?gs ! i) = Inr (pa, g)"
        unfolding gi(2) by (rule pg(1))
    qed (use gi pg in simp_all)
    then show ?thesis using pg(3) by (simp add: e1)
  qed
  let ?new = "pre @ (?s, ordered_insert ?b new xs) # post"
  have perm: "mset (ordered_insert ?b new xs) = add_mset new (mset xs)"
    by (rule mset_ordered_insert)
  then have set: "set (ordered_insert ?b new xs) = insert new (set xs)"
    by (metis set_mset_add_mset_insert set_mset_mset)
  have ins: "?P @ ordered_insert ?b new xs @ ?Q = ordered_insert (agenda_before e) new ?acts"
  proof -
    have ab: "takeWhile (\<lambda>a. agenda_before e a new) xs = takeWhile (\<lambda>a. ?b a new) xs"
      "dropWhile (\<lambda>a. agenda_before e a new) xs = dropWhile (\<lambda>a. ?b a new) xs"
      using sal(2) by (auto simp: agenda_before_def intro: takeWhile_cong dropWhile_cong)
    have "\<forall>a \<in> set ?P. agenda_before e a new" "\<forall>a \<in> set ?Q. \<not> agenda_before e a new"
      using P Q by (force simp: agenda_before_def)+
    from takeWhile_middle [OF this, of xs] show ?thesis
      unfolding ordered_insert_def acts ab by simp
  qed
  have "segments ?md ?new"
  proof -
    have "groupings ?md = map record_of ?new" by (simp add: i list_update_append record_of_def)
    moreover have "sorted_wrt (\<lambda>x y. fst y < fst x) ?new"
      using desc s1 s4 by (fastforce simp: sorted_wrt_append split: if_splits)
    moreover have "distinct (map act (agenda ?md))"
    proof -
      have "mset (map act (agenda ?md)) = mset (map act (?P @ xs @ ?Q @ [new]))" using perm by simp
      then show ?thesis using dist mset_eq_imp_distinct_iff by blast
    qed
    ultimately show ?thesis
      using sal set by (auto simp: segments_def ordered_insert_def)
  qed
  moreover have "sorted_wrt (agenda_before e) (agenda ?md)"
  proof -
    have "sorted_wrt ?b (ordered_insert ?b new xs)"
      by (rule strategy_insert_sorted [OF assms(1) xs_sorted xs_tags])
    moreover have "\<forall>a \<in> set (ordered_insert ?b new xs). salience a = ?s" using sal(2) set by auto
    ultimately have "sorted_wrt (agenda_before e) (ordered_insert ?b new xs)"
      by (auto intro: sorted_wrt_mono_rel [rotated] simp: agenda_before_def)
    then show ?thesis
      using sorted acts P Q set by (auto simp: sorted_wrt_append) (auto simp: agenda_before_def)
  qed
  moreover have "distinct (map timetag (agenda ?md))"
  proof -
    have "mset (map timetag (agenda ?md)) = mset (map timetag (new # ?acts))"
      using perm acts by simp
    then show ?thesis using tags assms(5) by (metis distinct.simps(2) list.simps(9) mset_eq_imp_distinct_iff set_map)
  qed
  moreover have "\<forall>a \<in> set (agenda ?md). strategy_good e a"
    using good assms(3) acts set by auto
  ultimately have "agenda_ok e ?md" by (auto simp: agenda_ok_def)
  with placed ins show ?thesis by (intro that [of ?md]) simp_all
qed

section \<open>Adding\<close>

lemma EvaluateSalience_frame:
  assumes "EvaluateSalience evaluate r e = (s, e1)"
  shows "same_order e e1" "ruleModule e1 = ruleModule e" "match e1 = match e"
    "whichModule (rule e1 q) = whichModule (rule e q)" "disjunct (rule e1 q) = disjunct (rule e q)"
    "CurrentTimetag e1 = CurrentTimetag e" "NumberOfActivations e1 = NumberOfActivations e"
    "Strategy e1 = Strategy e" "modules e1 = modules e" "CurrentModule e1 = CurrentModule e"
    "SalienceEvaluation e1 = SalienceEvaluation e" "CurrentFocus e1 = CurrentFocus e"
  using assms
  by (auto simp: EvaluateSalience_def SetEvaluationError_def same_order_def Let_def split: if_splits option.splits evaluated.splits)

lemma EnvFocus_frame:
  "ruleModule (EnvFocus m e) = ruleModule e" "match (EnvFocus m e) = match e" "rule (EnvFocus m e) = rule e"
  "CurrentTimetag (EnvFocus m e) = CurrentTimetag e" "NumberOfActivations (EnvFocus m e) = NumberOfActivations e"
  "Strategy (EnvFocus m e) = Strategy e" "same_order e (EnvFocus m e)"
  by (simp_all add: EnvFocus_def EnvSetCurrentModule_def Let_def same_order_def)

text \<open>The strategy can compare an activation on the partial match \<open>b\<close>.\<close>

definition match_good :: "clips \<Rightarrow> address \<Rightarrow> bool" where
  "match_good e b \<longleftrightarrow> (\<forall>a. basis a = b \<longrightarrow> strategy_good e a)"

lemma add_activation:
  fixes get_struct genrand evaluate r b e
  defines "m \<equiv> whichModule (rule e r)"
  defines "acts \<equiv> agenda (ruleModule e m)"
  assumes "known_strategy (Strategy e)" and "agenda_ok e (ruleModule e m)" and "match_good e b"
    and "\<forall>e'. ruleModule e' = ruleModule e \<longrightarrow> get_struct e' \<notin> act ` set acts"
    and "CurrentTimetag e \<notin> timetag ` set acts"
  shows "\<exists>e' new md. AddActivation get_struct genrand evaluate r b e = Inr e'
    \<and> ruleModule e' = (ruleModule e)(m := md) \<and> agenda md = ordered_insert (agenda_before e) new acts
    \<and> agenda_ok e' md \<and> same_order e e' \<and> theRule new = r \<and> basis new = b
    \<and> timetag new = CurrentTimetag e \<and> salience new = rule_salience (rule e' r)
    \<and> marker (match e' b) = Some (act new) \<and> CurrentTimetag e' = CurrentTimetag e + 1
    \<and> NumberOfActivations e' = NumberOfActivations e + 1"
proof -
  let ?f = "if autoFocus (rule e r) then EnvFocus m e else e"
  let ?p = "get_struct ?f"
  have f: "ruleModule ?f = ruleModule e" "match ?f = match e" "rule ?f = rule e" "CurrentTimetag ?f = CurrentTimetag e"
    "NumberOfActivations ?f = NumberOfActivations e" "Strategy ?f = Strategy e" "same_order e ?f"
    by (simp_all add: EnvFocus_frame)
  obtain s e1 where ev: "EvaluateSalience evaluate r (?f\<lparr>CurrentTimetag := CurrentTimetag e + 1\<rparr>) = (s, e1)"
    by (cases "EvaluateSalience evaluate r (?f\<lparr>CurrentTimetag := CurrentTimetag e + 1\<rparr>)") auto
  note e1 = EvaluateSalience_frame [OF ev]
  have s: "s = rule_salience (rule e1 r)"
    using ev by (auto simp: EvaluateSalience_def SetEvaluationError_def Let_def split: if_splits option.splits evaluated.splits)
  let ?new = "\<lparr>act = ?p, theRule = r, basis = b, salience = s, timetag = CurrentTimetag e, randomID = genrand e1\<rparr>"
  let ?e2 = "e1\<lparr>NumberOfActivations := NumberOfActivations e1 + 1,
     match := (match e1)(b := (match e1 b)\<lparr>marker := Some ?p\<rparr>)\<rparr>"
  have same: "same_order e ?e2"
  proof -
    have "same_order e (?f\<lparr>CurrentTimetag := CurrentTimetag e + 1\<rparr>)" using f(7) by simp
    then have "same_order e e1" using e1(1) by (rule same_order_trans)
    then show ?thesis by (simp add: same_order_def)
  qed
  have rm: "ruleModule ?e2 = ruleModule e" using e1(2) f(1) by simp
  obtain i e3 where gr: "ReuseOrCreateSalienceGroup m (salience ?new) ?e2 = (i, e3)"
    by (cases "ReuseOrCreateSalienceGroup m (salience ?new) ?e2") auto
  have k: "known_strategy (Strategy ?e2)" using assms(3) same by (simp add: same_order_def)
  have ok: "agenda_ok ?e2 (ruleModule ?e2 m)"
    unfolding agenda_ok_same_order [OF same] rm by (rule assms(4))
  have g: "strategy_good ?e2 ?new"
    unfolding same_order_before [OF same] using assms(5) by (simp add: match_good_def)
  have fr: "act ?new \<notin> act ` set (agenda (ruleModule ?e2 m))"
    unfolding rm acts_def [symmetric] using assms(6) f(1) by simp
  have tg: "timetag ?new \<notin> timetag ` set (agenda (ruleModule ?e2 m))"
    unfolding rm acts_def [symmetric] using assms(7) by simp
  obtain md where md0:
    "PlaceActivation m ?new i e3 = Inr (?e2\<lparr>AgendaChanged := True, ruleModule := (ruleModule ?e2)(m := md)\<rparr>)"
    "agenda md = ordered_insert (agenda_before ?e2) ?new (agenda (ruleModule ?e2 m))" "agenda_ok ?e2 md"
    by (rule place_on_agenda [OF k ok g fr tg gr])
  note md = md0(1) md0(2,3) [unfolded same_order_before [OF same] agenda_ok_same_order [OF same] rm acts_def [symmetric]]
  let ?e4 = "?e2\<lparr>AgendaChanged := True, ruleModule := (ruleModule ?e2)(m := md)\<rparr>"
  have "AddActivation get_struct genrand evaluate r b e = Inr ?e4"
    using gr md(1) ev f(4) by (simp add: AddActivation_def Let_def flip: m_def)
  moreover have "same_order e ?e4" using same by simp
  moreover have "agenda_ok ?e4 md" using md(3) agenda_ok_same_order [OF \<open>same_order e ?e4\<close>] by simp
  ultimately show ?thesis
    using rm md(2) s e1(6,7) f(5)
    by (intro exI [of _ ?e4] exI [of _ ?new] exI [of _ md]) simp
qed

section \<open>Reordering\<close>

lemma agenda_ok_empty [simp]: "agenda_ok e \<lparr>agenda = [], groupings = []\<rparr>"
  by (auto simp: agenda_ok_def segments_def intro: exI [of _ "[]"])

lemma place_loop_sorts:
  assumes "known_strategy (Strategy e)" and "agenda_ok e (ruleModule e m)"
    and "\<forall>a \<in> set as. strategy_good e a"
    and "distinct (map act (as @ agenda (ruleModule e m)))"
    and "distinct (map timetag (as @ agenda (ruleModule e m)))"
  shows "\<exists>md c. place_loop m as e = Inr (e\<lparr>AgendaChanged := c, ruleModule := (ruleModule e)(m := md)\<rparr>)
    \<and> agenda_ok e md \<and> mset (agenda md) = mset as + mset (agenda (ruleModule e m))"
  using assms
proof (induction as arbitrary: e)
  case Nil
  have "e = e\<lparr>AgendaChanged := AgendaChanged e, ruleModule := (ruleModule e)(m := ruleModule e m)\<rparr>" by simp
  then show ?case using Nil.prems(2)
    by (intro exI [of _ "ruleModule e m"] exI [of _ "AgendaChanged e"]) simp
next
  case (Cons a as)
  obtain i e1 where gr: "ReuseOrCreateSalienceGroup m (salience a) e = (i, e1)"
    by (cases "ReuseOrCreateSalienceGroup m (salience a) e") auto
  obtain md where md: "PlaceActivation m a i e1 = Inr (e\<lparr>AgendaChanged := True, ruleModule := (ruleModule e)(m := md)\<rparr>)"
    "agenda md = ordered_insert (agenda_before e) a (agenda (ruleModule e m))" "agenda_ok e md"
    using place_on_agenda [OF Cons.prems(1,2) _ _ _ gr] Cons.prems(3-5) by auto
  let ?e = "e\<lparr>AgendaChanged := True, ruleModule := (ruleModule e)(m := md)\<rparr>"
  have same: "same_order e ?e" by simp
  have perm: "mset (agenda md) = add_mset a (mset (agenda (ruleModule e m)))"
    by (simp add: md(2) mset_ordered_insert)
  have "mset (map act (as @ agenda md)) = mset (map act ((a # as) @ agenda (ruleModule e m)))"
    "mset (map timetag (as @ agenda md)) = mset (map timetag ((a # as) @ agenda (ruleModule e m)))"
    using perm by simp_all
  note d' = this [THEN mset_eq_imp_distinct_iff]
  have d: "distinct (map act (as @ agenda (ruleModule ?e m)))" "distinct (map timetag (as @ agenda (ruleModule ?e m)))"
    using d' Cons.prems(4,5) by simp_all
  have ok: "agenda_ok ?e (ruleModule ?e m)" using md(3) agenda_ok_same_order [OF same] by simp
  have good: "\<forall>a \<in> set as. strategy_good ?e a"
    using Cons.prems(3) same_order_before(2) [OF same] by simp
  have ex: "\<exists>md c. place_loop m as ?e = Inr (?e\<lparr>AgendaChanged := c, ruleModule := (ruleModule ?e)(m := md)\<rparr>)
    \<and> agenda_ok ?e md \<and> mset (agenda md) = mset as + mset (agenda (ruleModule ?e m))"
    by (rule Cons.IH [OF _ ok good d]) (use Cons.prems(1) in simp)
  then obtain md' c where "place_loop m as ?e = Inr (?e\<lparr>AgendaChanged := c, ruleModule := (ruleModule ?e)(m := md')\<rparr>)"
    "agenda_ok ?e md'" "mset (agenda md') = mset as + mset (agenda (ruleModule ?e m))"
    by blast
  moreover have "?e\<lparr>AgendaChanged := c, ruleModule := (ruleModule ?e)(m := md')\<rparr> =
      e\<lparr>AgendaChanged := c, ruleModule := (ruleModule e)(m := md')\<rparr>" by simp
  ultimately show ?case
    using gr md(1) perm agenda_ok_same_order [OF same]
    by (intro exI [of _ md'] exI [of _ c]) (simp add: fun_upd_def)
qed

lemma reorder_module_sorts:
  assumes "known_strategy (Strategy e)"
    and "distinct (map act (agenda (ruleModule e m)))" and "distinct (map timetag (agenda (ruleModule e m)))"
    and "\<forall>a \<in> set (agenda (ruleModule e m)). strategy_good e a"
  shows "\<exists>md c. reorder_module m e = Inr (e\<lparr>AgendaChanged := c, ruleModule := (ruleModule e)(m := md)\<rparr>)
    \<and> agenda_ok e md \<and> mset (agenda md) = mset (agenda (ruleModule e m))"
proof -
  let ?e = "e\<lparr>ruleModule := (ruleModule e)(m := \<lparr>agenda = [], groupings = []\<rparr>)\<rparr>"
  have same: "same_order e ?e" by simp
  have "\<exists>md c. place_loop m (agenda (ruleModule e m)) ?e
      = Inr (?e\<lparr>AgendaChanged := c, ruleModule := (ruleModule ?e)(m := md)\<rparr>)
      \<and> agenda_ok ?e md \<and> mset (agenda md) = mset (agenda (ruleModule e m)) + mset (agenda (ruleModule ?e m))"
    using assms same_order_before(2) [OF same] by (intro place_loop_sorts) simp_all
  then show ?thesis
    using agenda_ok_same_order [OF same] by (auto simp: reorder_module_def)
qed

text \<open>A module whose activations a strategy can order.\<close>

definition orderable :: "clips \<Rightarrow> defruleModule \<Rightarrow> bool" where
  "orderable e md \<longleftrightarrow> distinct (map act (agenda md)) \<and> distinct (map timetag (agenda md))
     \<and> (\<forall>a \<in> set (agenda md). strategy_good e a)"

lemma orderable_same_order: "same_order e e' \<Longrightarrow> orderable e' md = orderable e md"
  by (simp add: orderable_def same_order_before)

lemma reorder_modules_sort:
  assumes "known_strategy (Strategy e)" and "\<forall>m \<in> set ms. orderable e (ruleModule e m)" and "distinct ms"
  shows "\<exists>f c. reorder_modules ms e = Inr (e\<lparr>AgendaChanged := c, ruleModule := f\<rparr>)
    \<and> (\<forall>m \<in> set ms. agenda_ok e (f m) \<and> mset (agenda (f m)) = mset (agenda (ruleModule e m)))
    \<and> (\<forall>m. m \<notin> set ms \<longrightarrow> f m = ruleModule e m)"
  using assms
proof (induction ms arbitrary: e)
  case Nil
  have "e = e\<lparr>AgendaChanged := AgendaChanged e, ruleModule := ruleModule e\<rparr>" by simp
  then show ?case by (intro exI [of _ "ruleModule e"] exI [of _ "AgendaChanged e"]) simp
next
  case (Cons m ms)
  obtain md c where md: "reorder_module m e = Inr (e\<lparr>AgendaChanged := c, ruleModule := (ruleModule e)(m := md)\<rparr>)"
    "agenda_ok e md" "mset (agenda md) = mset (agenda (ruleModule e m))"
    using reorder_module_sorts [OF Cons.prems(1), of m] Cons.prems(2) by (auto simp: orderable_def)
  let ?e = "e\<lparr>AgendaChanged := c, ruleModule := (ruleModule e)(m := md)\<rparr>"
  have same: "same_order e ?e" by simp
  have "\<forall>n \<in> set ms. orderable ?e (ruleModule ?e n)"
    using Cons.prems(2,3) orderable_same_order [OF same] by auto
  from Cons.IH [OF _ this] Cons.prems(1,3) obtain f c' where
    f: "reorder_modules ms ?e = Inr (?e\<lparr>AgendaChanged := c', ruleModule := f\<rparr>)"
    "\<forall>n \<in> set ms. agenda_ok ?e (f n) \<and> mset (agenda (f n)) = mset (agenda (ruleModule ?e n))"
    "\<forall>n. n \<notin> set ms \<longrightarrow> f n = ruleModule ?e n"
    by auto
  show ?case
    using md f agenda_ok_same_order [OF same] Cons.prems(3)
    by (intro exI [of _ f] exI [of _ c']) auto
qed

lemma set_strategy_sorts:
  assumes "known_strategy v" and "\<forall>m \<in> set (modules e). orderable (e\<lparr>Strategy := v\<rparr>) (ruleModule e m)"
    and "distinct (modules e)" and "v \<noteq> Strategy e"
  shows "\<exists>f c. EnvSetStrategy v e = Inr (Strategy e, e\<lparr>Strategy := v, AgendaChanged := c, ruleModule := f\<rparr>)
    \<and> (\<forall>m \<in> set (modules e). agenda_ok (e\<lparr>Strategy := v\<rparr>) (f m) \<and> mset (agenda (f m)) = mset (agenda (ruleModule e m)))"
proof -
  obtain f c where "reorder_modules (modules e) (e\<lparr>Strategy := v\<rparr>) =
      Inr (e\<lparr>Strategy := v, AgendaChanged := c, ruleModule := f\<rparr>)"
    "\<forall>m \<in> set (modules e). agenda_ok (e\<lparr>Strategy := v\<rparr>) (f m) \<and> mset (agenda (f m)) = mset (agenda (ruleModule e m))"
    using reorder_modules_sort [of "e\<lparr>Strategy := v\<rparr>" "modules e"] assms(1-3) by auto
  then show ?thesis
    using assms(4) by (auto simp: EnvSetStrategy_def EnvReorderAgenda_def Let_def)
qed

section \<open>Removing\<close>

lemma find_group_at:
  assumes "\<forall>g \<in> set pre. s < fst g"
  shows "FindSalienceGroup s (map record_of pre @ record_of (s, xs) # gs) = Some (length pre)"
  using assms by (induction pre) (auto simp: record_of_def group_of_def)

lemma split_at_address:
  assumes "distinct (map act (L @ a # R))"
  shows "takeWhile (\<lambda>b. act b \<noteq> act a) (L @ a # R) = L" "dropWhile (\<lambda>b. act b \<noteq> act a) (L @ a # R) = a # R"
proof -
  have "\<forall>b \<in> set L. act b \<noteq> act a" using assms by (auto simp: image_iff)
  then show "takeWhile (\<lambda>b. act b \<noteq> act a) (L @ a # R) = L" "dropWhile (\<lambda>b. act b \<noteq> act a) (L @ a # R) = a # R"
    by (simp_all add: takeWhile_append dropWhile_append)
qed

lemma neighbours:
  assumes "distinct (map act (L @ a # R))"
  shows "next_act (act a) (L @ a # R) = (if R = [] then None else Some (act (hd R)))"
    and "prev_act (act a) (L @ a # R) = (if L = [] then None else Some (act (last L)))"
    and "unlink (act a) (L @ a # R) = L @ R"
  using split_at_address [OF assms]
  by (auto simp: next_act_def prev_act_def unlink_def Let_def split: list.split)

lemma unlink_step:
  assumes "distinct (map act (L @ a # R))"
  shows "(if prev_act (act a) (L @ a # R) = None
       then (case L @ a # R of [] \<Rightarrow> Inl Undefined | _ # acts \<Rightarrow> Inr acts)
       else Inr (unlink (act a) (L @ a # R))) = (Inr (L @ R) :: activation list res)"
  using neighbours(2,3) [OF assms] by (cases L) auto

text \<open>The group's record after one of its activations is gone; an empty group goes with it.\<close>

lemma remove_from_group:
  assumes "segments md (pre @ (s, us @ a # vs) # post)" and "salience a = s"
  shows "RemoveActivationFromGroup a md =
    md\<lparr>groupings := map record_of (pre @ (if us @ vs = [] then [] else [(s, us @ vs)]) @ post)\<rparr>"
proof -
  let ?P = "concat (map snd pre)" and ?Q = "concat (map snd post)"
  have gs: "groupings md = map record_of pre @ record_of (s, us @ a # vs) # map record_of post"
    and acts: "agenda md = (?P @ us) @ a # vs @ ?Q"
    using assms(1) by (simp_all add: segments_def)
  have d: "distinct (map act ((?P @ us) @ a # vs @ ?Q))"
    unfolding acts [symmetric] using assms(1) unfolding segments_def by blast
  have "\<forall>g \<in> set pre. s < fst g"
    using assms(1) by (auto simp: segments_def sorted_wrt_append)
  then have find: "FindSalienceGroup (salience a) (groupings md) = Some (length pre)"
    unfolding gs assms(2) by (rule find_group_at)
  have at: "groupings md ! length pre = record_of (s, us @ a # vs)" by (simp add: gs nth_append)
  have drop: "take (length pre) (groupings md) @ drop (Suc (length pre)) (groupings md) = map record_of (pre @ post)"
    by (simp add: gs)
  have upd: "(groupings md)[length pre := g] = map record_of pre @ g # map record_of post" for g
    by (simp add: gs list_update_append)
  have nb: "next_act (act a) (agenda md) = (if vs @ ?Q = [] then None else Some (act (hd (vs @ ?Q))))"
    "prev_act (act a) (agenda md) = (if ?P @ us = [] then None else Some (act (last (?P @ us))))"
    unfolding acts using neighbours [OF d] by simp_all
  have f: "first (record_of (s, us @ a # vs)) = Some (act (hd (us @ [a])))"
    "last_act (record_of (s, us @ a # vs)) = Some (act (last (a # vs)))"
    by (cases us; simp add: record_of_def group_of_def)+
  have h: "act a = act (hd (us @ [a])) \<longleftrightarrow> us = []" "act a = act (last (a # vs)) \<longleftrightarrow> vs = []"
  proof -
    show "act a = act (hd (us @ [a])) \<longleftrightarrow> us = []" using d by (cases us) auto
    have "last vs \<in> set vs" if "vs \<noteq> []" using that by simp
    then show "act a = act (last (a # vs)) \<longleftrightarrow> vs = []" using d by (auto simp: image_iff)
  qed
  consider "us = []" "vs = []" | "us = []" "vs \<noteq> []" | "us \<noteq> []" "vs = []" | "us \<noteq> []" "vs \<noteq> []" by blast
  then show ?thesis
  proof cases
    case 1
    then show ?thesis
      using find at f h drop by (simp add: RemoveActivationFromGroup_def Let_def)
  next
    case 2
    then show ?thesis
      using find at f h upd nb
      by (simp add: RemoveActivationFromGroup_def Let_def record_of_def group_of_def)
  next
    case 3
    then show ?thesis
      using find at f h upd nb
      by (simp add: RemoveActivationFromGroup_def Let_def record_of_def group_of_def)
  next
    case 4
    then have "record_of (s, us @ vs) = record_of (s, us @ a # vs)"
      by (simp add: record_of_def group_of_def)
    then have "md = md\<lparr>groupings := map record_of (pre @ (s, us @ vs) # post)\<rparr>" by (simp add: gs [symmetric])
    then show ?thesis
      using 4 find at f h by (simp add: RemoveActivationFromGroup_def Let_def)
  qed
qed

lemma segments_split:
  assumes "segments md segs" and "a \<in> set (agenda md)"
  obtains pre us vs post where "segs = pre @ (salience a, us @ a # vs) # post"
proof -
  obtain g where g: "g \<in> set segs" "a \<in> set (snd g)" "salience a = fst g"
    using assms by (auto simp: segments_def)
  then obtain pre post where "segs = pre @ g # post" by (meson split_list)
  moreover obtain us vs where "snd g = us @ a # vs" using g(2) by (meson split_list)
  ultimately show thesis using that g(3) by (metis prod.collapse)
qed

lemma RemoveActivation_unlinks:
  assumes "RemoveActivationFromGroup a (ruleModule e (whichModule (rule e (theRule a)))) = md"
    and "(if prev_act (act a) (agenda md) = None
       then (case agenda md of [] \<Rightarrow> Inl Undefined | _ # acts \<Rightarrow> Inr acts)
       else Inr (unlink (act a) (agenda md))) = Inr acts"
  shows "RemoveActivation a True True e =
    Inr (e\<lparr>ruleModule := (ruleModule e)(whichModule (rule e (theRule a)) := md\<lparr>agenda := acts\<rparr>),
      AgendaChanged := True, match := (match e)(basis a := (match e (basis a))\<lparr>marker := None\<rparr>),
      NumberOfActivations := NumberOfActivations e - 1\<rparr>)"
  unfolding RemoveActivation_def Let_def assms(1) if_True assms(2) bind_res_Inr by simp

lemma remove_activation:
  fixes a e
  defines "m \<equiv> whichModule (rule e (theRule a))"
  assumes "agenda_ok e (ruleModule e m)" and "a \<in> set (agenda (ruleModule e m))"
  shows "\<exists>md. RemoveActivation a True True e = Inr (e\<lparr>ruleModule := (ruleModule e)(m := md), AgendaChanged := True,
        match := (match e)(basis a := (match e (basis a))\<lparr>marker := None\<rparr>),
        NumberOfActivations := NumberOfActivations e - 1\<rparr>)
    \<and> agenda_ok e md \<and> agenda md = remove1 a (agenda (ruleModule e m))"
proof -
  let ?md = "ruleModule e m"
  obtain segs where segs: "segments ?md segs" and ok: "sorted_wrt (agenda_before e) (agenda ?md)"
    "distinct (map timetag (agenda ?md))" "\<forall>a \<in> set (agenda ?md). strategy_good e a"
    using assms(2) by (auto simp: agenda_ok_def)
  obtain pre us vs post where s: "segs = pre @ (salience a, us @ a # vs) # post"
    using segments_split [OF segs assms(3)] by metis
  let ?P = "concat (map snd pre)" and ?Q = "concat (map snd post)"
  let ?segs = "pre @ (if us @ vs = [] then [] else [(salience a, us @ vs)]) @ post"
  have acts: "agenda ?md = (?P @ us) @ a # vs @ ?Q"
    using segs s by (simp add: segments_def)
  have d: "distinct (map act ((?P @ us) @ a # vs @ ?Q))"
    unfolding acts [symmetric] using segs unfolding segments_def by blast
  have rem: "RemoveActivationFromGroup a ?md = ?md\<lparr>groupings := map record_of ?segs\<rparr>"
    using remove_from_group [of ?md pre "salience a" us a vs post] segs s by simp
  let ?acts = "(?P @ us) @ vs @ ?Q"
  let ?new = "\<lparr>agenda = ?acts, groupings = map record_of ?segs\<rparr>"
  let ?grouped = "?md\<lparr>groupings := map record_of ?segs\<rparr>"
  have ag: "agenda ?grouped = (?P @ us) @ a # vs @ ?Q" using acts by simp
  have step: "(if prev_act (act a) (agenda ?grouped) = None
       then (case agenda ?grouped of [] \<Rightarrow> Inl Undefined | _ # acts \<Rightarrow> Inr acts)
       else Inr (unlink (act a) (agenda ?grouped))) = Inr ?acts"
    unfolding ag by (rule unlink_step [OF d])
  have new: "?grouped\<lparr>agenda := ?acts\<rparr> = ?new" by simp
  have eq: "RemoveActivation a True True e = Inr (e\<lparr>ruleModule := (ruleModule e)(m := ?new),
      AgendaChanged := True, match := (match e)(basis a := (match e (basis a))\<lparr>marker := None\<rparr>),
      NumberOfActivations := NumberOfActivations e - 1\<rparr>)"
    using RemoveActivation_unlinks [of a e, folded m_def, OF rem step] unfolding new .
  have sub: "sorted_wrt (agenda_before e) ?acts" "distinct (map timetag ?acts)"
    "\<forall>a \<in> set ?acts. strategy_good e a" "distinct (map act ?acts)"
    using ok d unfolding acts by (auto simp: sorted_wrt_append)
  have "segments ?new ?segs"
    using segs sub(4) unfolding s by (auto simp: segments_def sorted_wrt_append)
  then have "agenda_ok e ?new" using sub by (auto simp: agenda_ok_def)
  moreover have "remove1 a (agenda ?md) = ?acts"
  proof -
    have "a \<notin> set (?P @ us)" using d by (auto simp: image_iff)
    then show ?thesis unfolding acts by (simp add: remove1_append)
  qed
  ultimately show ?thesis using eq by (intro exI [of _ ?new]) simp
qed

lemma remove_loop_filters:
  assumes "agenda_ok e (ruleModule e m)" and "set as \<subseteq> set (agenda (ruleModule e m))" and "distinct as"
    and "\<forall>a \<in> set as. whichModule (rule e (theRule a)) = m"
  shows "\<exists>e' md. remove_loop P as e = Inr e' \<and> ruleModule e' = (ruleModule e)(m := md) \<and> agenda_ok e md
    \<and> agenda md = filter (\<lambda>a. \<not> (a \<in> set as \<and> P a)) (agenda (ruleModule e m))
    \<and> rule e' = rule e \<and> CurrentModule e' = CurrentModule e \<and> same_order e e'
    \<and> NumberOfActivations e' = NumberOfActivations e - of_nat (length (filter P as))"
  using assms
proof (induction as arbitrary: e)
  case Nil
  show ?case by (intro exI [of _ e] exI [of _ "ruleModule e m"]) (simp add: Nil.prems)
next
  case (Cons a as)
  show ?case
  proof (cases "P a")
    case True
    obtain md where md: "RemoveActivation a True True e = Inr (e\<lparr>ruleModule := (ruleModule e)(m := md), AgendaChanged := True,
        match := (match e)(basis a := (match e (basis a))\<lparr>marker := None\<rparr>),
        NumberOfActivations := NumberOfActivations e - 1\<rparr>)"
      "agenda_ok e md" "agenda md = remove1 a (agenda (ruleModule e m))"
      using remove_activation [of e a] Cons.prems by auto
    let ?e = "e\<lparr>ruleModule := (ruleModule e)(m := md), AgendaChanged := True,
        match := (match e)(basis a := (match e (basis a))\<lparr>marker := None\<rparr>),
        NumberOfActivations := NumberOfActivations e - 1\<rparr>"
    have same: "same_order e ?e" by (simp add: same_order_def)
    have dist: "distinct (agenda (ruleModule e m))"
      using Cons.prems(1) unfolding agenda_ok_def distinct_map by blast
    have "agenda_ok ?e (ruleModule ?e m)"
      unfolding agenda_ok_same_order [OF same] using md(2) by simp
    moreover have "set as \<subseteq> set (agenda (ruleModule ?e m))"
      using Cons.prems(2,3) md(3) dist by auto
    moreover have "\<forall>a \<in> set as. whichModule (rule ?e (theRule a)) = m" using Cons.prems(4) by simp
    ultimately obtain e' md' where IH: "remove_loop P as ?e = Inr e'" "ruleModule e' = (ruleModule ?e)(m := md')"
      "agenda_ok ?e md'" "agenda md' = filter (\<lambda>a. \<not> (a \<in> set as \<and> P a)) (agenda (ruleModule ?e m))"
      "rule e' = rule ?e" "CurrentModule e' = CurrentModule ?e" "same_order ?e e'"
      "NumberOfActivations e' = NumberOfActivations ?e - of_nat (length (filter P as))"
      using Cons.IH [of ?e] Cons.prems(3) by fastforce
    have "agenda md' = filter (\<lambda>b. \<not> (b \<in> set (a # as) \<and> P b)) (agenda (ruleModule e m))"
      using IH(4) md(3) True dist by (auto simp: distinct_remove1_removeAll removeAll_filter_not_eq intro: filter_cong)
    moreover have "agenda_ok e md'" using IH(3) agenda_ok_same_order [OF same] by simp
    moreover have "same_order e e'" using same IH(7) by (rule same_order_trans)
    ultimately show ?thesis
      using md(1) IH True by (intro exI [of _ e'] exI [of _ md']) simp
  next
    case False
    have *: "set as \<subseteq> set (agenda (ruleModule e m))" "distinct as"
      "\<forall>a \<in> set as. whichModule (rule e (theRule a)) = m"
      using Cons.prems by auto
    show ?thesis
      using Cons.IH [OF Cons.prems(1) *] False by (fastforce intro: filter_cong)
  qed
qed

section \<open>Refreshing saliences\<close>

definition settled :: "(expression \<Rightarrow> evaluated) \<Rightarrow> clips \<Rightarrow> address \<Rightarrow> bool" where
  "settled evaluate e r \<longleftrightarrow> fst (EvaluateSalience evaluate r e) = rule_salience (rule e r)"

lemma EvaluateSalience_settles:
  assumes "EvaluateSalience evaluate r e = (s, e1)"
  shows "s = rule_salience (rule e1 r)" "settled evaluate e1 r"
    "settled evaluate e q \<Longrightarrow> settled evaluate e1 q \<and> rule_salience (rule e1 q) = rule_salience (rule e q)"
  using assms
  by (auto simp: EvaluateSalience_def SetEvaluationError_def settled_def Let_def split: if_splits option.splits evaluated.splits)

definition unsalient :: "activation \<Rightarrow> activation" where
  "unsalient a = a\<lparr>salience := 0\<rparr>"

lemma refresh_saliences_sets:
  assumes "refresh_saliences evaluate acts e = (acts', e1)"
  shows "map unsalient acts' = map unsalient acts" "same_order e e1" "ruleModule e1 = ruleModule e"
    "Strategy e1 = Strategy e" "CurrentModule e1 = CurrentModule e" "SalienceEvaluation e1 = SalienceEvaluation e"
    "\<forall>a \<in> set acts'. settled evaluate e1 (theRule a) \<and> salience a = rule_salience (rule e1 (theRule a))"
    "settled evaluate e q \<Longrightarrow> settled evaluate e1 q \<and> rule_salience (rule e1 q) = rule_salience (rule e q)"
proof -
  have "map unsalient acts' = map unsalient acts \<and> same_order e e1 \<and> ruleModule e1 = ruleModule e
    \<and> Strategy e1 = Strategy e \<and> CurrentModule e1 = CurrentModule e \<and> SalienceEvaluation e1 = SalienceEvaluation e
    \<and> (\<forall>a \<in> set acts'. settled evaluate e1 (theRule a) \<and> salience a = rule_salience (rule e1 (theRule a)))
    \<and> (\<forall>q. settled evaluate e q \<longrightarrow> settled evaluate e1 q \<and> rule_salience (rule e1 q) = rule_salience (rule e q))"
    using assms
  proof (induction acts arbitrary: e acts')
    case (Cons a acts)
    obtain s e2 where ev: "EvaluateSalience evaluate (theRule a) e = (s, e2)"
      by (cases "EvaluateSalience evaluate (theRule a) e") auto
    obtain acts2 where rs: "refresh_saliences evaluate acts e2 = (acts2, e1)" "acts' = a\<lparr>salience := s\<rparr> # acts2"
      using Cons.prems ev by (auto split: prod.splits)
    note IH = Cons.IH [OF rs(1)]
    note fr = EvaluateSalience_frame [OF ev] and st = EvaluateSalience_settles [OF ev]
    have "settled evaluate e1 (theRule a) \<and> rule_salience (rule e1 (theRule a)) = s"
      using IH st(1,2) by auto
    moreover have "same_order e e1" using fr(1) IH same_order_trans by blast
    moreover have "\<forall>q. settled evaluate e q \<longrightarrow> settled evaluate e1 q \<and> rule_salience (rule e1 q) = rule_salience (rule e q)"
      using IH st(3) by simp
    ultimately show ?case
      using IH fr rs(2) by (simp add: unsalient_def)
  qed simp
  then show "map unsalient acts' = map unsalient acts" "same_order e e1" "ruleModule e1 = ruleModule e"
    "Strategy e1 = Strategy e" "CurrentModule e1 = CurrentModule e" "SalienceEvaluation e1 = SalienceEvaluation e"
    "\<forall>a \<in> set acts'. settled evaluate e1 (theRule a) \<and> salience a = rule_salience (rule e1 (theRule a))"
    "settled evaluate e q \<Longrightarrow> settled evaluate e1 q \<and> rule_salience (rule e1 q) = rule_salience (rule e q)"
    by blast+
qed

text \<open>
  The salience that a rule should have: the value of its expression, read as a C int, if that is an integer in the range
  of saliences, and otherwise, or without an expression, the salience it has.
\<close>

definition evaluated_salience :: "(expression \<Rightarrow> evaluated) \<Rightarrow> defrule \<Rightarrow> int" where
  "evaluated_salience evaluate d =
     (case map_option evaluate (dynamicSalience d) of
        Some (IntegerValue v) \<Rightarrow>
          if sint (ucast v :: 32 word) \<in> {-10000..10000} then sint (ucast v :: 32 word) else rule_salience d
      | _ \<Rightarrow> rule_salience d)"

lemma EvaluateSalience_value:
  assumes "EvaluateSalience evaluate r e = (s, e1)" "SalienceEvaluation e \<noteq> WHEN_DEFINED"
  shows "s = evaluated_salience evaluate (rule e r)" "SalienceEvaluation e1 = SalienceEvaluation e"
    "evaluated_salience evaluate (rule e1 q) = evaluated_salience evaluate (rule e q)"
  using assms
  by (auto simp: EvaluateSalience_def SetEvaluationError_def evaluated_salience_def Let_def
      split: if_splits option.splits evaluated.splits)

lemma refresh_saliences_values:
  assumes "refresh_saliences evaluate acts e = (acts', e1)" "SalienceEvaluation e \<noteq> WHEN_DEFINED"
  shows "\<forall>a \<in> set acts'. salience a = evaluated_salience evaluate (rule e (theRule a))"
  using assms
proof (induction acts arbitrary: e acts')
  case (Cons a acts)
  obtain s e2 where ev: "EvaluateSalience evaluate (theRule a) e = (s, e2)"
    by (cases "EvaluateSalience evaluate (theRule a) e") auto
  obtain acts2 where rs: "refresh_saliences evaluate acts e2 = (acts2, e1)" "acts' = a\<lparr>salience := s\<rparr> # acts2"
    using Cons.prems(1) ev by (auto split: prod.splits)
  note v = EvaluateSalience_value [OF ev Cons.prems(2)]
  have "SalienceEvaluation e2 \<noteq> WHEN_DEFINED" using v(2) Cons.prems(2) by simp
  from Cons.IH [OF rs(1) this] show ?case using v rs(2) by simp
qed simp

lemma strategy_good_unsalient: "strategy_good e (unsalient a) = strategy_good e a"
  by (simp add: strategy_good_def unsalient_def has_binds_def first_positive_def)

lemma orderable_unsalient:
  assumes "map unsalient acts' = map unsalient acts"
  shows "orderable e \<lparr>agenda = acts', groupings = gs'\<rparr> = orderable e \<lparr>agenda = acts, groupings = gs\<rparr>"
proof -
  have f: "map act xs = map act (map unsalient xs)" "map timetag xs = map timetag (map unsalient xs)"
    "(\<forall>a \<in> set xs. strategy_good e a) = (\<forall>a \<in> set (map unsalient xs). strategy_good e a)" for xs
    by (simp_all add: unsalient_def [abs_def] strategy_good_unsalient [unfolded unsalient_def])
  show ?thesis
    unfolding orderable_def defruleModule.select_convs
    using f [of acts] f [of acts'] assms by metis
qed

lemma refresh_agenda_sorts:
  assumes "known_strategy (Strategy e)" and "orderable e (ruleModule e m)"
  shows "\<exists>e' md. EnvRefreshAgenda evaluate (Some m) e = Inr e' \<and> ruleModule e' = (ruleModule e)(m := md)
    \<and> agenda_ok e' md \<and> mset (map unsalient (agenda md)) = mset (map unsalient (agenda (ruleModule e m)))
    \<and> (\<forall>a \<in> set (agenda md). salience a = evaluated_salience evaluate (rule e (theRule a))
          \<and> rule_salience (rule e' (theRule a)) = salience a)
    \<and> SalienceEvaluation e' = SalienceEvaluation e \<and> CurrentModule e' = CurrentModule e"
proof -
  let ?e0 = "EnvSetCurrentModule m (e\<lparr>SalienceEvaluation := WHEN_ACTIVATED\<rparr>)"
  obtain acts e1 where rs: "refresh_saliences evaluate (agenda (ruleModule e m)) ?e0 = (acts, e1)"
    by (cases "refresh_saliences evaluate (agenda (ruleModule e m)) ?e0") auto
  note r = refresh_saliences_sets [OF rs]
  have v: "\<forall>a \<in> set acts. salience a = evaluated_salience evaluate (rule e (theRule a))"
    using refresh_saliences_values [OF rs] by (simp add: EnvSetCurrentModule_def)
  let ?e2 = "e1\<lparr>ruleModule := (ruleModule e1)(m := (ruleModule e1 m)\<lparr>agenda := acts\<rparr>)\<rparr>"
  have rm: "ruleModule e1 = ruleModule e" using r(3) by (simp add: EnvSetCurrentModule_def)
  have same: "same_order e ?e2"
  proof -
    have "same_order e ?e0" by (simp add: EnvSetCurrentModule_def)
    from same_order_trans [OF this r(2)] show ?thesis by (simp add: same_order_def)
  qed
  have "orderable ?e2 (ruleModule ?e2 m)"
  proof -
    have "orderable e \<lparr>agenda = acts, groupings = groupings (ruleModule e m)\<rparr>
        = orderable e \<lparr>agenda = agenda (ruleModule e m), groupings = groupings (ruleModule e m)\<rparr>"
      by (rule orderable_unsalient [OF r(1)])
    then show ?thesis
      unfolding orderable_same_order [OF same] using assms(2) rm by (simp add: orderable_def)
  qed
  then obtain md c where md: "reorder_module m ?e2 = Inr (?e2\<lparr>AgendaChanged := c, ruleModule := (ruleModule ?e2)(m := md)\<rparr>)"
    "agenda_ok ?e2 md" "mset (agenda md) = mset acts"
    using reorder_module_sorts [of ?e2 m] assms(1) same by (auto simp: orderable_def same_order_def)
  let ?e3 = "?e2\<lparr>AgendaChanged := c, ruleModule := (ruleModule ?e2)(m := md)\<rparr>"
  let ?e4 = "EnvSetCurrentModule (CurrentModule e) (?e3\<lparr>SalienceEvaluation := SalienceEvaluation e\<rparr>)"
  have eq: "EnvRefreshAgenda evaluate (Some m) e = Inr ?e4"
    using rs md(1)
    by (simp add: EnvRefreshAgenda_def EnvSetSalienceEvaluation_def refresh_module_def EnvReorderAgenda_def
        EnvSetCurrentModule_def Let_def)
  have same4: "same_order ?e2 ?e4" by (simp add: EnvSetCurrentModule_def same_order_def)
  have "agenda_ok ?e4 md" using md(2) agenda_ok_same_order [OF same4] by blast
  moreover have "mset (map unsalient (agenda md)) = mset (map unsalient (agenda (ruleModule e m)))"
    using md(3) r(1) by (metis mset_map)
  moreover have "set (agenda md) = set acts" using md(3) by (metis set_mset_mset)
  ultimately show ?thesis
    using eq rm r(7) v by (intro exI [of _ ?e4] exI [of _ md]) (simp add: EnvSetCurrentModule_def)
qed

section \<open>Firing\<close>

lemma next_activation:
  "next_activation_loop e = (ao, e') \<Longrightarrow>
     CurrentFocus e' = dropWhile (\<lambda>m. agenda (ruleModule e m) = []) (CurrentFocus e)
     \<and> ruleModule e' = ruleModule e
     \<and> ao = (case CurrentFocus e' of [] \<Rightarrow> None | m # _ \<Rightarrow> Some (hd (agenda (ruleModule e m))))"
proof (induction e rule: next_activation_loop.induct)
  case (1 e)
  show ?case
  proof (cases "CurrentFocus e")
    case Nil
    with "1.prems" show ?thesis by (subst (asm) next_activation_loop.simps) auto
  next
    case (Cons m ms)
    show ?thesis
    proof (cases "agenda (ruleModule e m)")
      case Nil
      have rm: "ruleModule (snd (EnvPopFocus e)) = ruleModule e"
        by (simp add: EnvPopFocus_def RemoveFocus_def EnvSetCurrentModule_def Let_def split: list.split)
      have "next_activation_loop (snd (EnvPopFocus e)) = (ao, e')"
        using "1.prems" Cons Nil by (subst (asm) next_activation_loop.simps) simp
      from "1.IH" [OF Cons Nil this] show ?thesis
        using Cons Nil unfolding rm EnvPopFocus_stack by simp
    next
      case (Cons a as)
      with "1.prems" \<open>CurrentFocus e = m # ms\<close> show ?thesis
        by (subst (asm) next_activation_loop.simps) auto
    qed
  qed
qed

section \<open>What moving to the top does to the groups\<close>

definition demo_act :: "address \<Rightarrow> int \<Rightarrow> 64 word \<Rightarrow> activation" where
  "demo_act p s t = \<lparr>act = p, theRule = 0, basis = p, salience = s, timetag = t, randomID = 0\<rparr>"

definition demo_clips :: clips where
  "demo_clips = \<lparr>NumberOfActivations = 3, CurrentTimetag = 4, AgendaChanged = False, SalienceEvaluation = 0,
     Strategy = BREADTH_STRATEGY, CurrentFocus = [0], FocusChanged = False, CurrentModule = 0, modules = [0],
     ruleModule = (\<lambda>_. \<lparr>agenda = [demo_act 1 10 1, demo_act 2 0 2, demo_act 3 0 3],
       groupings = [\<lparr>group_salience = 10, first = Some 1, last_act = Some 1\<rparr>,
                    \<lparr>group_salience = 0, first = Some 2, last_act = Some 3\<rparr>]\<rparr>),
     rule = (\<lambda>r. \<lparr>whichModule = 0, rule_salience = 0, dynamicSalience = None, autoFocus = False,
       complexity = r, disjunct = []\<rparr>),
     match = (\<lambda>b. \<lparr>binds = [Some (of_nat b + 1)], marker = None\<rparr>), EvaluationError = False,
     HaltExecution = False\<rparr>"

lemma demo_segments:
  "segments (ruleModule demo_clips 0) [(10, [demo_act 1 10 1]), (0, [demo_act 2 0 2, demo_act 3 0 3])]"
  by (simp add: segments_def demo_clips_def demo_act_def record_of_def group_of_def)

lemma demo_ok: "agenda_ok demo_clips (ruleModule demo_clips 0)"
  using demo_segments unfolding agenda_ok_def
  by (auto simp: demo_clips_def demo_act_def agenda_before_def strategy_before_def breadth_before_def
      strategy_good_def)

text \<open>
  The groups keep their \<open>first\<close> and \<open>last\<close>: an activation of salience 0 that is added after another
  one of its group was moved to the top ends up before one of salience 10.
\<close>

lemma move_to_top_misplaces:
  "bind_res (MoveActivationToTop (demo_act 3 0 3) demo_clips) (\<lambda>(moved, e).
     bind_res (AddActivation (\<lambda>_. 4) (\<lambda>_. 0) (\<lambda>_. NotInteger) 0 9 e) (\<lambda>e.
       Inr (map (\<lambda>a. (act a, salience a)) (agenda (ruleModule e 0))))) =
   Inr [(3, 0), (4, 0), (1, 10), (2, 0)]"
  by (simp add: demo_clips_def demo_act_def MoveActivationToTop_def AddActivation_def EvaluateSalience_def
      ReuseOrCreateSalienceGroup_def PlaceActivation_def choose_place_def PlaceBreadthActivation_def
      placed_def list_from_def insert_after_def update_group_def prev_act_def unlink_def Let_def)

section \<open>Properties\<close>

lemma demo_good: "match_good (demo_clips\<lparr>Strategy := v\<rparr>) 9"
  by (simp add: match_good_def strategy_good_def has_binds_def first_positive_def demo_clips_def)

lemma demo_agenda: "agenda (ruleModule demo_clips m) = [demo_act 1 10 1, demo_act 2 0 2, demo_act 3 0 3]"
  by (simp add: demo_clips_def)

lemma demo_orderable: "orderable (demo_clips\<lparr>Strategy := v\<rparr>) (ruleModule demo_clips m)"
  by (simp add: orderable_def strategy_good_def has_binds_def first_positive_def demo_clips_def demo_act_def)

text \<open>
  C23: \<open>AddActivation\<close> puts the new activation, with the next time tag and the rule's salience, into its
  module's agenda behind the last activation that salience and the current strategy order before it; the
  agenda stays ordered, its salience groups stay the ends of its segments, and the partial match points
  at the activation. The complexity strategy orders rules of greater complexity first, the simplicity strategy those of
  lesser complexity, and both the older one of two activations of equal complexity; the comments of the two placing routines
  say otherwise.
\<close>

theorem activation_added:
  fixes get_struct genrand evaluate r b e
  defines "m \<equiv> whichModule (rule e r)"
  assumes "known_strategy (Strategy e)" and "agenda_ok e (ruleModule e m)" and "match_good e b"
    and "\<forall>e'. ruleModule e' = ruleModule e \<longrightarrow> get_struct e' \<notin> act ` set (agenda (ruleModule e m))"
    and "CurrentTimetag e \<notin> timetag ` set (agenda (ruleModule e m))"
  shows "\<exists>e' new md. AddActivation get_struct genrand evaluate r b e = Inr e'
    \<and> ruleModule e' = (ruleModule e)(m := md)
    \<and> agenda md = ordered_insert (agenda_before e) new (agenda (ruleModule e m))
    \<and> agenda_ok e' md \<and> same_order e e' \<and> theRule new = r \<and> basis new = b
    \<and> timetag new = CurrentTimetag e \<and> salience new = rule_salience (rule e' r)
    \<and> marker (match e' b) = Some (act new) \<and> CurrentTimetag e' = CurrentTimetag e + 1
    \<and> NumberOfActivations e' = NumberOfActivations e + 1"
  using assms(2-) unfolding m_def by (rule add_activation)

theorem activation_added_witness:
  "\<exists>e' new md. AddActivation (\<lambda>_. 4) (\<lambda>_. 0) (\<lambda>_. NotInteger) 7 9 demo_clips = Inr e'
    \<and> agenda md = ordered_insert (agenda_before demo_clips) new [demo_act 1 10 1, demo_act 2 0 2, demo_act 3 0 3]
    \<and> agenda_ok e' md \<and> timetag new = 4"
  using activation_added [of demo_clips 7 9 "\<lambda>_. 4" "\<lambda>_. 0" "\<lambda>_. NotInteger"] demo_ok demo_good [of "Strategy demo_clips"]
  by (force simp: known_strategy_def demo_clips_def demo_act_def)

text \<open>
  C32: \<open>RemoveActivation\<close> takes exactly the given activation off its module's agenda, clears the partial
  match's pointer to it, counts it off, and keeps the agenda ordered and grouped; an emptied group is
  dropped.
\<close>

theorem activation_removed:
  fixes a e
  defines "m \<equiv> whichModule (rule e (theRule a))"
  assumes "agenda_ok e (ruleModule e m)" and "a \<in> set (agenda (ruleModule e m))"
  shows "\<exists>md. RemoveActivation a True True e = Inr (e\<lparr>ruleModule := (ruleModule e)(m := md), AgendaChanged := True,
        match := (match e)(basis a := (match e (basis a))\<lparr>marker := None\<rparr>),
        NumberOfActivations := NumberOfActivations e - 1\<rparr>)
    \<and> agenda_ok e md \<and> agenda md = remove1 a (agenda (ruleModule e m))"
  using assms(2-) unfolding m_def by (rule remove_activation)

theorem activation_removed_witness:
  "\<exists>e' md. RemoveActivation (demo_act 1 10 1) True True demo_clips = Inr e'
    \<and> agenda_ok demo_clips md \<and> agenda md = [demo_act 2 0 2, demo_act 3 0 3]"
  using activation_removed [of demo_clips "demo_act 1 10 1"] demo_ok
  by (force simp: demo_clips_def demo_act_def)

lemma clear_rule:
  fixes r e
  defines "m \<equiv> whichModule (rule e r)"
  assumes "agenda_ok e (ruleModule e m)" and "\<forall>a \<in> set (agenda (ruleModule e m)). whichModule (rule e (theRule a)) = m"
  shows "\<exists>e' md. ClearRuleFromAgenda r e = Inr e' \<and> ruleModule e' = (ruleModule e)(m := md) \<and> agenda_ok e' md
    \<and> agenda md = filter (\<lambda>a. theRule a \<notin> set (r # disjunct (rule e r))) (agenda (ruleModule e m))"
proof -
  let ?P = "\<lambda>a. theRule a \<in> set (r # disjunct (rule e r))" and ?acts = "agenda (ruleModule e m)"
  have "distinct ?acts" using assms(2) by (auto simp: agenda_ok_def distinct_map)
  then obtain e' md where r: "remove_loop ?P ?acts e = Inr e'" "ruleModule e' = (ruleModule e)(m := md)"
    "agenda_ok e md" "agenda md = filter (\<lambda>a. \<not> (a \<in> set ?acts \<and> ?P a)) ?acts" "same_order e e'"
    using remove_loop_filters [of e m ?acts ?P] assms(2,3) by blast
  have "agenda md = filter (\<lambda>a. \<not> ?P a) ?acts" unfolding r(4) by (rule filter_cong) auto
  then show ?thesis
    using r agenda_ok_same_order [OF r(5)] unfolding ClearRuleFromAgenda_def m_def by blast
qed

text \<open>
  C36: \<open>ClearRuleFromAgenda\<close> removes the activations of the rule and of its disjuncts from the agenda
  and no others, in one pass, and leaves the rest ordered and grouped.
\<close>

theorem rule_cleared:
  fixes r e
  defines "m \<equiv> whichModule (rule e r)"
  assumes "agenda_ok e (ruleModule e m)" and "\<forall>a \<in> set (agenda (ruleModule e m)). whichModule (rule e (theRule a)) = m"
  shows "\<exists>e' md. ClearRuleFromAgenda r e = Inr e' \<and> ruleModule e' = (ruleModule e)(m := md) \<and> agenda_ok e' md
    \<and> agenda md = filter (\<lambda>a. theRule a \<notin> set (r # disjunct (rule e r))) (agenda (ruleModule e m))"
  using assms(2-) unfolding m_def by (rule clear_rule)

theorem rule_cleared_witness:
  "\<exists>e' md. ClearRuleFromAgenda 0 demo_clips = Inr e' \<and> agenda_ok e' md \<and> agenda md = []"
  using rule_cleared [of demo_clips 0] demo_ok
  by (force simp: demo_clips_def demo_act_def)

text \<open>
  C24: changing the strategy with \<open>EnvSetStrategy\<close> rebuilds the agenda of every module: each becomes
  ordered by salience and the new strategy, with correct salience groups, and has the same activations. The
  order of the complexity and the simplicity strategy is the one of the code, not of its comments.
\<close>

theorem strategy_change_reorders:
  assumes "known_strategy v" and "\<forall>m \<in> set (modules e). orderable (e\<lparr>Strategy := v\<rparr>) (ruleModule e m)"
    and "distinct (modules e)" and "v \<noteq> Strategy e"
  shows "\<exists>f c. EnvSetStrategy v e = Inr (Strategy e, e\<lparr>Strategy := v, AgendaChanged := c, ruleModule := f\<rparr>)
    \<and> (\<forall>m \<in> set (modules e). agenda_ok (e\<lparr>Strategy := v\<rparr>) (f m) \<and> mset (agenda (f m)) = mset (agenda (ruleModule e m)))"
  using assms by (rule set_strategy_sorts)

theorem strategy_change_reorders_witness:
  "\<exists>f c. EnvSetStrategy LEX_STRATEGY demo_clips =
      Inr (BREADTH_STRATEGY, demo_clips\<lparr>Strategy := LEX_STRATEGY, AgendaChanged := c, ruleModule := f\<rparr>)
    \<and> agenda_ok (demo_clips\<lparr>Strategy := LEX_STRATEGY\<rparr>) (f 0)"
  using strategy_change_reorders [of LEX_STRATEGY demo_clips] demo_orderable
  by (force simp: known_strategy_def demo_clips_def)


text \<open>The rule of the second activation has a salience expression of value 20, so its activation moves to the top.\<close>

definition salient_clips :: clips where
  "salient_clips = demo_clips\<lparr>SalienceEvaluation := WHEN_DEFINED,
     rule := (\<lambda>r. (rule demo_clips r)\<lparr>dynamicSalience := (if r = 2 then Some 9 else None), rule_salience := (if r = 1 then 10 else 0)\<rparr>)\<rparr>"


text \<open>
  \<open>SortPartialMatch\<close> returns the time tags of a partial match that has binds, an absent fact counting
  as 0, in descending order.
\<close>

theorem partial_match_sorted:
  assumes "binds b \<noteq> []"
  shows "SortPartialMatch b = Inr (rev (sort (tags_of b)))"
  using assms by (rule SortPartialMatch_sort)

theorem partial_match_sorted_witness:
  "SortPartialMatch \<lparr>binds = [Some 3, None, Some 8, Some 5], marker = None\<rparr> = Inr [8, 5, 3, 0]"
  using partial_match_sorted [of "\<lparr>binds = [Some 3, None, Some 8, Some 5], marker = None\<rparr>"]
  by (simp add: tags_of_def)

text \<open>
  \<open>ComparePartialMatches\<close> is the lexicographic comparison of the two matches' time tags sorted in
  descending order, the shorter of two with a common start being the lesser, and of the complexities
  of the rules where the tags agree.
\<close>

theorem partial_matches_compared:
  assumes "has_binds e actPtr" and "has_binds e new"
  shows "ComparePartialMatches e actPtr new = Inr (compare_spec e actPtr new)"
  using assms by (rule ComparePartialMatches_spec)

theorem partial_matches_compared_witness:
  "ComparePartialMatches demo_clips (demo_act 1 10 1) (demo_act 2 0 2) = Inr GREATER_THAN"
  using partial_matches_compared [of demo_clips "demo_act 1 10 1" "demo_act 2 0 2"]
  by (simp add: has_binds_def compare_spec_def recency_def tags_of_def demo_clips_def demo_act_def)

text \<open>
  \<open>NextActivationToFire\<close> returns the top activation of the first module on the focus stack that has
  one and pops the modules above it, with an empty stack starting from the main module; it returns None
  exactly when no module on the stack has an activation, and the agendas stay as they are.
\<close>

theorem next_to_fire:
  assumes "NextActivationToFire main e = (ao, e')"
  shows "CurrentFocus e' = dropWhile (\<lambda>m. agenda (ruleModule e m) = [])
      (if CurrentFocus e = [] then [main] else CurrentFocus e)
    \<and> ruleModule e' = ruleModule e
    \<and> ao = (case CurrentFocus e' of [] \<Rightarrow> None | m # _ \<Rightarrow> Some (hd (agenda (ruleModule e m))))"
  using next_activation [OF assms [unfolded NextActivationToFire_def]]
  by (auto simp: EnvFocus_def EnvSetCurrentModule_def Let_def split: if_splits)

theorem next_to_fire_witness:
  "fst (NextActivationToFire 0 demo_clips) = Some (demo_act 1 10 1)"
proof -
  obtain ao e' where n: "NextActivationToFire 0 demo_clips = (ao, e')"
    by (cases "NextActivationToFire 0 demo_clips") auto
  have "CurrentFocus demo_clips = [0]" by (simp add: demo_clips_def)
  with next_to_fire [OF n] n show ?thesis by (simp add: demo_agenda)
qed

end
