(* ===== verification/AtomTable.thy ===== *)
theory AtomTable
  imports StringUtil
begin

text \<open>
  \<open>CLIPS/symbol.c\<close>: the five hash tables in which CLIPS interns its atoms (symbols and strings, floats,
  integers, bitmaps and external addresses), the reference counts of the atoms, and the list of
  ephemeral atoms that the garbage collector goes through. The five node types of the code differ in
  their contents only, and so do the routines; what they share is stated once, on nodes with
  contents of any type. Reference counts are taken to stay below \<open>LONG_MAX\<close>. The ephemeral lists
  are those of the current garbage frame; the \<open>discardFunction\<close> of a freed external address is not called.
\<close>

section \<open>Data\<close>

record 'a hashNode =
  count :: int
  permanent :: bool
  markedEphemeral :: bool
  bucket :: nat
  contents :: 'a

text \<open>
  A table: the allocated nodes by address, the chain of each bucket in the order of its \<open>next\<close> links,
  and the current garbage frame's list of ephemeral atoms of this type.
\<close>

record 'a atoms =
  nodes :: "address \<Rightarrow> 'a hashNode option"
  chains :: "nat \<Rightarrow> address list"
  ephemerals :: "address list"

text \<open>A double is its 64 bits. A bitmap has its bytes and its \<open>size\<close>, an external address its type.\<close>

record symbolData =
  SymbolTable :: "byte list atoms"
  FloatTable :: "64 word atoms"
  IntegerTable :: "64 word atoms"
  BitMapTable :: "(byte list \<times> nat) atoms"
  ExternalAddressTable :: "(64 word \<times> nat) atoms"
  dirty :: bool
  TrueSymbolHN :: "address option"
  FalseSymbolHN :: "address option"
  PositiveInfinity :: "address option"
  NegativeInfinity :: "address option"
  Zero :: "address option"

abbreviation "SYMBOL_HASH_SIZE \<equiv> (63559 :: nat)"
abbreviation "FLOAT_HASH_SIZE \<equiv> (8191 :: nat)"
abbreviation "INTEGER_HASH_SIZE \<equiv> (8191 :: nat)"
abbreviation "BITMAP_HASH_SIZE \<equiv> (8191 :: nat)"
abbreviation "EXTERNAL_ADDRESS_HASH_SIZE \<equiv> (8191 :: nat)"

section \<open>Hash functions\<close>

text \<open>\<open>char\<close> is signed, \<open>unsigned long\<close> has 64 bits.\<close>

definition tally127 :: "byte list \<Rightarrow> 64 word" where
  "tally127 word = foldl (\<lambda>tally c. tally * 127 + scast c) 0 word"

definition in_range :: "nat \<Rightarrow> nat \<Rightarrow> nat" where
  "in_range tally rng = (if rng = 0 then tally else tally mod rng)"

definition HashSymbol :: "byte list \<Rightarrow> nat \<Rightarrow> nat" where
  "HashSymbol word rng = in_range (unat (tally127 (c_string word))) rng"

text \<open>The bytes of a 64-bit object in memory, the least significant first.\<close>

definition bytes_of_long :: "64 word \<Rightarrow> byte list" where
  "bytes_of_long w = map (\<lambda>i. ucast (drop_bit (8 * i) w)) [0..<8]"

definition long_of_bytes :: "byte list \<Rightarrow> 64 word" where
  "long_of_bytes bs = foldr (\<lambda>b w. push_bit 8 w OR ucast b) bs 0"

definition HashFloat :: "64 word \<Rightarrow> nat \<Rightarrow> nat" where
  "HashFloat number rng = in_range (unat (tally127 (bytes_of_long number))) rng"

text \<open>
  \<open>llabs\<close> is not defined on the least number, and the division comes before the test for a range of 0.
\<close>

definition HashInteger :: "64 word \<Rightarrow> nat \<Rightarrow> nat res" where
  "HashInteger number rng =
     (if number = 0x8000000000000000 then Inl Overflow
      else if rng = 0 then Inl Undefined
      else Inr (unat (ucast (if number <s 0 then - number else number) :: 32 word) mod rng))"

definition HashExternalAddress :: "64 word \<Rightarrow> nat \<Rightarrow> nat" where
  "HashExternalAddress theExternalAddress rng =
     in_range (unat (ucast theExternalAddress :: 32 word) div 256) rng"

fun sum_longs :: "nat \<Rightarrow> byte list \<Rightarrow> 64 word" where
  "sum_longs 0 bs = foldl (\<lambda>count b. count + scast b) 0 bs"
| "sum_longs (Suc n) bs = long_of_bytes (take 8 bs) + sum_longs n (drop 8 bs)"

definition HashBitMap :: "byte list \<Rightarrow> nat \<Rightarrow> nat \<Rightarrow> nat res" where
  "HashBitMap word rng len =
     (if length word < len then Inl Undefined
      else Inr (in_range (unat (sum_longs (len div 8) (take len word))) rng))"

section \<open>Nodes and chains\<close>

text \<open>The loop over a chain; \<open>same\<close> is the test of the code on the contents of a node.\<close>

fun find_atom :: "('a \<Rightarrow> bool res) \<Rightarrow> (address \<Rightarrow> 'a hashNode option) \<Rightarrow> address list
    \<Rightarrow> address option res" where
  "find_atom same heap [] = Inr None"
| "find_atom same heap (peek # chain) =
     (case heap peek of
        None \<Rightarrow> Inl Undefined
      | Some n \<Rightarrow> bind_res (same (contents n)) (\<lambda>found.
          if found then Inr (Some peek) else find_atom same heap chain))"

definition AddEphemeralHashNode :: "address \<Rightarrow> bool \<Rightarrow> 'a atoms \<Rightarrow> 'a atoms res" where
  "AddEphemeralHashNode theHashNode checkCount t =
     (case nodes t theHashNode of
        None \<Rightarrow> Inl Undefined
      | Some n \<Rightarrow>
          if checkCount \<and> count n \<noteq> 0 then Inl (Exit ''SYMBOL 12'')
          else Inr (t\<lparr>nodes := (nodes t)(theHashNode := Some (n\<lparr>markedEphemeral := True\<rparr>)),
                      ephemerals := theHashNode # ephemerals t\<rparr>))"

text \<open>
  The body the \<open>EnvAdd\<close> routines share: \<open>new\<close> is the address \<open>get_struct\<close> returns when the atom is not
  there. The result has the node's address and whether it is new. \<open>markedEphemeral\<close> of the new
  node is not set before it becomes TRUE.
\<close>

definition add_atom :: "address \<Rightarrow> ('a \<Rightarrow> bool res) \<Rightarrow> nat \<Rightarrow> 'a \<Rightarrow> 'a atoms
    \<Rightarrow> (address \<times> bool \<times> 'a atoms) res" where
  "add_atom new same tally x t =
     bind_res (find_atom same (nodes t) (chains t tally)) (\<lambda>found.
       case found of
         Some peek \<Rightarrow> Inr (peek, False, t)
       | None \<Rightarrow>
           let n = \<lparr>count = 0, permanent = False, markedEphemeral = False, bucket = tally, contents = x\<rparr> in
           bind_res
             (AddEphemeralHashNode new True
               (t\<lparr>nodes := (nodes t)(new := Some n), chains := (chains t)(tally := chains t tally @ [new])\<rparr>))
             (\<lambda>t. Inr (new, True, t)))"

definition increment_count :: "address \<Rightarrow> 'a atoms \<Rightarrow> 'a atoms res" where
  "increment_count theValue t =
     (case nodes t theValue of
        None \<Rightarrow> Inl Undefined
      | Some n \<Rightarrow> Inr (t\<lparr>nodes := (nodes t)(theValue := Some (n\<lparr>count := count n + 1\<rparr>))\<rparr>))"

text \<open>The result says whether the atom was put on the list of ephemeral atoms.\<close>

definition decrement_count :: "string \<Rightarrow> string \<Rightarrow> address \<Rightarrow> 'a atoms \<Rightarrow> (bool \<times> 'a atoms) res" where
  "decrement_count negative zero theValue t =
     (case nodes t theValue of
        None \<Rightarrow> Inl Undefined
      | Some n \<Rightarrow>
          if count n < 0 then Inl (Exit negative)
          else if count n = 0 then Inl (Exit zero)
          else
            let n = n\<lparr>count := count n - 1\<rparr>; t = t\<lparr>nodes := (nodes t)(theValue := Some n)\<rparr> in
            if count n \<noteq> 0 then Inr (False, t)
            else if \<not> markedEphemeral n
            then bind_res (AddEphemeralHashNode theValue True t) (\<lambda>t. Inr (True, t))
            else Inr (False, t))"

text \<open>The walk along an empty bucket goes through a null pointer.\<close>

definition RemoveHashNode :: "address \<Rightarrow> 'a atoms \<Rightarrow> 'a atoms res" where
  "RemoveHashNode theValue t =
     (case nodes t theValue of
        None \<Rightarrow> Inl Undefined
      | Some n \<Rightarrow>
          let chain = chains t (bucket n) in
          if chain = [] then Inl Undefined
          else if theValue \<notin> set chain then Inl (Exit ''SYMBOL 11'')
          else Inr (t\<lparr>nodes := (nodes t)(theValue := None),
                      chains := (chains t)(bucket n := remove1 theValue chain)\<rparr>))"

fun remove_ephemerals :: "address list \<Rightarrow> 'a atoms \<Rightarrow> (address list \<times> 'a atoms) res" where
  "remove_ephemerals [] t = Inr ([], t)"
| "remove_ephemerals (edPtr # eds) t =
     (case nodes t edPtr of
        None \<Rightarrow> Inl Undefined
      | Some n \<Rightarrow>
          if count n = 0 then bind_res (RemoveHashNode edPtr t) (\<lambda>t. remove_ephemerals eds t)
          else if 0 < count n
          then remove_ephemerals eds (t\<lparr>nodes := (nodes t)(edPtr := Some (n\<lparr>markedEphemeral := False\<rparr>))\<rparr>)
          else bind_res (remove_ephemerals eds t) (\<lambda>(kept, t). Inr (edPtr # kept, t)))"

definition RemoveEphemeralHashNodes :: "'a atoms \<Rightarrow> 'a atoms res" where
  "RemoveEphemeralHashNodes t =
     bind_res (remove_ephemerals (ephemerals t) t) (\<lambda>(kept, t). Inr (t\<lparr>ephemerals := kept\<rparr>))"

section \<open>Adding and finding atoms\<close>

text \<open>
  A string argument is None for a null pointer; \<open>get_struct\<close> is the allocator.
\<close>

definition same_string :: "byte list \<Rightarrow> byte list \<Rightarrow> bool res" where
  "same_string str x = Inr (c_string str = x)"

definition EnvAddSymbol :: "(symbolData \<Rightarrow> address) \<Rightarrow> byte list option \<Rightarrow> symbolData
    \<Rightarrow> (address \<times> symbolData) res" where
  "EnvAddSymbol get_struct arg e =
     (case arg of
        None \<Rightarrow> Inl (Exit ''SYMBOL 1'')
      | Some str \<Rightarrow>
          let tally = HashSymbol str SYMBOL_HASH_SIZE in
          bind_res (add_atom (get_struct e) (same_string str) tally (c_string str) (SymbolTable e)) (\<lambda>(peek, new, t).
            Inr (peek, e\<lparr>SymbolTable := t, dirty := dirty e \<or> new\<rparr>)))"

definition FindSymbolHN :: "byte list \<Rightarrow> symbolData \<Rightarrow> address option res" where
  "FindSymbolHN str e =
     find_atom (same_string str) (nodes (SymbolTable e)) (chains (SymbolTable e) (HashSymbol str SYMBOL_HASH_SIZE))"

text \<open>\<open>==\<close> on doubles: a NaN is equal to nothing, the two zeros are equal.\<close>

definition is_nan :: "64 word \<Rightarrow> bool" where
  "is_nan x \<longleftrightarrow> 0x7FF0000000000000 < x AND 0x7FFFFFFFFFFFFFFF"

definition same_double :: "64 word \<Rightarrow> 64 word \<Rightarrow> bool res" where
  "same_double number x =
     Inr (\<not> is_nan number \<and> \<not> is_nan x \<and>
          (number = x \<or> number AND 0x7FFFFFFFFFFFFFFF = 0 \<and> x AND 0x7FFFFFFFFFFFFFFF = 0))"

definition EnvAddDouble :: "(symbolData \<Rightarrow> address) \<Rightarrow> 64 word \<Rightarrow> symbolData \<Rightarrow> (address \<times> symbolData) res" where
  "EnvAddDouble get_struct number e =
     bind_res (add_atom (get_struct e) (same_double number) (HashFloat number FLOAT_HASH_SIZE) number (FloatTable e))
       (\<lambda>(peek, new, t). Inr (peek, e\<lparr>FloatTable := t, dirty := dirty e \<or> new\<rparr>))"

definition same_long :: "64 word \<Rightarrow> 64 word \<Rightarrow> bool res" where
  "same_long number x = Inr (number = x)"

definition EnvAddLong :: "(symbolData \<Rightarrow> address) \<Rightarrow> 64 word \<Rightarrow> symbolData \<Rightarrow> (address \<times> symbolData) res" where
  "EnvAddLong get_struct number e =
     bind_res (HashInteger number INTEGER_HASH_SIZE) (\<lambda>tally.
     bind_res (add_atom (get_struct e) (same_long number) tally number (IntegerTable e)) (\<lambda>(peek, new, t).
       Inr (peek, e\<lparr>IntegerTable := t, dirty := dirty e \<or> new\<rparr>)))"

definition FindLongHN :: "64 word \<Rightarrow> symbolData \<Rightarrow> address option res" where
  "FindLongHN theLong e =
     bind_res (HashInteger theLong INTEGER_HASH_SIZE) (\<lambda>tally.
       find_atom (same_long theLong) (nodes (IntegerTable e)) (chains (IntegerTable e) tally))"

text \<open>The comparison of two bitmaps goes through \<open>size\<close> bytes of both.\<close>

fun same_bytes :: "nat \<Rightarrow> byte list \<Rightarrow> byte list \<Rightarrow> bool res" where
  "same_bytes 0 xs ys = Inr True"
| "same_bytes (Suc n) (x # xs) (y # ys) = (if x = y then same_bytes n xs ys else Inr False)"
| "same_bytes (Suc n) xs ys = Inl Undefined"

text \<open>The node keeps \<open>(unsigned short) size\<close>.\<close>

definition same_bitmap :: "byte list \<Rightarrow> nat \<Rightarrow> byte list \<times> nat \<Rightarrow> bool res" where
  "same_bitmap theBitMap size_arg x =
     (if snd x = size_arg mod 65536 then same_bytes size_arg (fst x) theBitMap else Inr False)"

definition EnvAddBitMap :: "(symbolData \<Rightarrow> address) \<Rightarrow> byte list option \<Rightarrow> nat \<Rightarrow> symbolData
    \<Rightarrow> (address \<times> symbolData) res" where
  "EnvAddBitMap get_struct arg size_arg e =
     (case arg of
        None \<Rightarrow> Inl (Exit ''SYMBOL 2'')
      | Some theBitMap \<Rightarrow>
          bind_res (HashBitMap theBitMap BITMAP_HASH_SIZE size_arg) (\<lambda>tally.
          bind_res (add_atom (get_struct e) (same_bitmap theBitMap size_arg) tally
              (take size_arg theBitMap, size_arg mod 65536) (BitMapTable e)) (\<lambda>(peek, new, t).
            Inr (peek, e\<lparr>BitMapTable := t, dirty := dirty e \<or> new\<rparr>))))"

definition same_address :: "64 word \<Rightarrow> nat \<Rightarrow> 64 word \<times> nat \<Rightarrow> bool res" where
  "same_address theExternalAddress theType x = Inr (snd x = theType mod 65536 \<and> fst x = theExternalAddress)"

definition EnvAddExternalAddress :: "(symbolData \<Rightarrow> address) \<Rightarrow> 64 word \<Rightarrow> nat \<Rightarrow> symbolData
    \<Rightarrow> (address \<times> symbolData) res" where
  "EnvAddExternalAddress get_struct theExternalAddress theType e =
     bind_res (add_atom (get_struct e) (same_address theExternalAddress theType)
         (HashExternalAddress theExternalAddress EXTERNAL_ADDRESS_HASH_SIZE)
         (theExternalAddress, theType mod 65536) (ExternalAddressTable e))
       (\<lambda>(peek, new, t). Inr (peek, e\<lparr>ExternalAddressTable := t, dirty := dirty e \<or> new\<rparr>))"

section \<open>Reference counts\<close>

definition IncrementSymbolCount :: "address \<Rightarrow> symbolData \<Rightarrow> symbolData res" where
  "IncrementSymbolCount p e =
     bind_res (increment_count p (SymbolTable e)) (\<lambda>t. Inr (e\<lparr>SymbolTable := t\<rparr>))"

definition IncrementFloatCount :: "address \<Rightarrow> symbolData \<Rightarrow> symbolData res" where
  "IncrementFloatCount p e =
     bind_res (increment_count p (FloatTable e)) (\<lambda>t. Inr (e\<lparr>FloatTable := t\<rparr>))"

definition IncrementIntegerCount :: "address \<Rightarrow> symbolData \<Rightarrow> symbolData res" where
  "IncrementIntegerCount p e =
     bind_res (increment_count p (IntegerTable e)) (\<lambda>t. Inr (e\<lparr>IntegerTable := t\<rparr>))"

definition IncrementBitMapCount :: "address \<Rightarrow> symbolData \<Rightarrow> symbolData res" where
  "IncrementBitMapCount p e =
     bind_res (increment_count p (BitMapTable e)) (\<lambda>t. Inr (e\<lparr>BitMapTable := t\<rparr>))"

definition IncrementExternalAddressCount :: "address \<Rightarrow> symbolData \<Rightarrow> symbolData res" where
  "IncrementExternalAddressCount p e =
     bind_res (increment_count p (ExternalAddressTable e)) (\<lambda>t. Inr (e\<lparr>ExternalAddressTable := t\<rparr>))"

definition DecrementSymbolCount :: "address \<Rightarrow> symbolData \<Rightarrow> symbolData res" where
  "DecrementSymbolCount theValue e =
     bind_res (decrement_count ''SYMBOL 3'' ''SYMBOL 4'' theValue (SymbolTable e)) (\<lambda>(listed, t).
       Inr (e\<lparr>SymbolTable := t, dirty := dirty e \<or> listed\<rparr>))"

definition DecrementFloatCount :: "address \<Rightarrow> symbolData \<Rightarrow> symbolData res" where
  "DecrementFloatCount theValue e =
     bind_res (decrement_count ''SYMBOL 5'' ''SYMBOL 5'' theValue (FloatTable e)) (\<lambda>(listed, t).
       Inr (e\<lparr>FloatTable := t, dirty := dirty e \<or> listed\<rparr>))"

definition DecrementIntegerCount :: "address \<Rightarrow> symbolData \<Rightarrow> symbolData res" where
  "DecrementIntegerCount theValue e =
     bind_res (decrement_count ''SYMBOL 6'' ''SYMBOL 6'' theValue (IntegerTable e)) (\<lambda>(listed, t).
       Inr (e\<lparr>IntegerTable := t, dirty := dirty e \<or> listed\<rparr>))"

definition DecrementBitMapCount :: "address \<Rightarrow> symbolData \<Rightarrow> symbolData res" where
  "DecrementBitMapCount theValue e =
     bind_res (decrement_count ''SYMBOL 7'' ''SYMBOL 8'' theValue (BitMapTable e)) (\<lambda>(listed, t).
       Inr (e\<lparr>BitMapTable := t, dirty := dirty e \<or> listed\<rparr>))"

definition DecrementExternalAddressCount :: "address \<Rightarrow> symbolData \<Rightarrow> symbolData res" where
  "DecrementExternalAddressCount theValue e =
     bind_res (decrement_count ''SYMBOL 9'' ''SYMBOL 10'' theValue (ExternalAddressTable e)) (\<lambda>(listed, t).
       Inr (e\<lparr>ExternalAddressTable := t, dirty := dirty e \<or> listed\<rparr>))"

section \<open>Ephemeral atoms\<close>

definition RemoveEphemeralAtoms :: "symbolData \<Rightarrow> symbolData res" where
  "RemoveEphemeralAtoms e =
     (if \<not> dirty e then Inr e
      else
        bind_res (RemoveEphemeralHashNodes (SymbolTable e)) (\<lambda>t. let e = e\<lparr>SymbolTable := t\<rparr> in
        bind_res (RemoveEphemeralHashNodes (FloatTable e)) (\<lambda>t. let e = e\<lparr>FloatTable := t\<rparr> in
        bind_res (RemoveEphemeralHashNodes (IntegerTable e)) (\<lambda>t. let e = e\<lparr>IntegerTable := t\<rparr> in
        bind_res (RemoveEphemeralHashNodes (BitMapTable e)) (\<lambda>t. let e = e\<lparr>BitMapTable := t\<rparr> in
        bind_res (RemoveEphemeralHashNodes (ExternalAddressTable e)) (\<lambda>t.
          Inr (e\<lparr>ExternalAddressTable := t\<rparr>)))))))"

text \<open>A typed value; a multifield is its fields, None for a null segment.\<close>

datatype dataValue = SYMBOL address | STRING address | INSTANCE_NAME address | FLOAT address
  | INTEGER address | EXTERNAL_ADDRESS address | MULTIFIELD "dataValue list option" | OtherType

definition mark_ephemeral :: "address \<Rightarrow> 'a atoms \<Rightarrow> (bool \<times> 'a atoms) res" where
  "mark_ephemeral theValue t =
     (case nodes t theValue of
        None \<Rightarrow> Inl Undefined
      | Some n \<Rightarrow>
          if markedEphemeral n then Inr (False, t)
          else bind_res (AddEphemeralHashNode theValue False t) (\<lambda>t. Inr (True, t)))"

definition mark_symbol :: "address \<Rightarrow> symbolData \<Rightarrow> symbolData res" where
  "mark_symbol p e =
     bind_res (mark_ephemeral p (SymbolTable e)) (\<lambda>(listed, t).
       Inr (e\<lparr>SymbolTable := t, dirty := dirty e \<or> listed\<rparr>))"

fun EphemerateValue :: "dataValue \<Rightarrow> symbolData \<Rightarrow> symbolData res"
and EphemerateMultifield :: "dataValue list \<Rightarrow> symbolData \<Rightarrow> symbolData res" where
  "EphemerateValue (SYMBOL p) e = mark_symbol p e"
| "EphemerateValue (STRING p) e = mark_symbol p e"
| "EphemerateValue (INSTANCE_NAME p) e = mark_symbol p e"
| "EphemerateValue (FLOAT p) e =
     bind_res (mark_ephemeral p (FloatTable e)) (\<lambda>(listed, t).
       Inr (e\<lparr>FloatTable := t, dirty := dirty e \<or> listed\<rparr>))"
| "EphemerateValue (INTEGER p) e =
     bind_res (mark_ephemeral p (IntegerTable e)) (\<lambda>(listed, t).
       Inr (e\<lparr>IntegerTable := t, dirty := dirty e \<or> listed\<rparr>))"
| "EphemerateValue (EXTERNAL_ADDRESS p) e =
     bind_res (mark_ephemeral p (ExternalAddressTable e)) (\<lambda>(listed, t).
       Inr (e\<lparr>ExternalAddressTable := t, dirty := dirty e \<or> listed\<rparr>))"
| "EphemerateValue (MULTIFIELD None) e = Inr e"
| "EphemerateValue (MULTIFIELD (Some theFields)) e = EphemerateMultifield theFields e"
| "EphemerateValue OtherType e = Inr e"
| "EphemerateMultifield [] e = Inr e"
| "EphemerateMultifield (f # fs) e = bind_res (EphemerateValue f e) (EphemerateMultifield fs)"

section \<open>Predefined atoms\<close>

definition empty_table :: "'a atoms" where
  "empty_table = \<lparr>nodes = (\<lambda>p. None), chains = (\<lambda>b. []), ephemerals = []\<rparr>"

definition predefine :: "(symbolData \<Rightarrow> address) \<Rightarrow> string \<Rightarrow> symbolData \<Rightarrow> (address \<times> symbolData) res" where
  "predefine get_struct name e =
     bind_res (EnvAddSymbol get_struct (Some (bytes_of name)) e) (\<lambda>(p, e).
     bind_res (IncrementSymbolCount p e) (\<lambda>e. Inr (p, e)))"

definition InitializeAtomTables :: "(symbolData \<Rightarrow> address) \<Rightarrow> symbolData res" where
  "InitializeAtomTables get_struct =
     (let e = \<lparr>SymbolTable = empty_table, FloatTable = empty_table, IntegerTable = empty_table,
               BitMapTable = empty_table, ExternalAddressTable = empty_table, dirty = False,
               TrueSymbolHN = None, FalseSymbolHN = None, PositiveInfinity = None, NegativeInfinity = None,
               Zero = None\<rparr> in
      bind_res (predefine get_struct ''TRUE'' e) (\<lambda>(p, e). let e = e\<lparr>TrueSymbolHN := Some p\<rparr> in
      bind_res (predefine get_struct ''FALSE'' e) (\<lambda>(p, e). let e = e\<lparr>FalseSymbolHN := Some p\<rparr> in
      bind_res (predefine get_struct ''+oo'' e) (\<lambda>(p, e). let e = e\<lparr>PositiveInfinity := Some p\<rparr> in
      bind_res (predefine get_struct ''-oo'' e) (\<lambda>(p, e). let e = e\<lparr>NegativeInfinity := Some p\<rparr> in
      bind_res (EnvAddLong get_struct 0 e) (\<lambda>(p, e). let e = e\<lparr>Zero := Some p\<rparr> in
        IncrementIntegerCount p e))))))"

definition RefreshSpecialSymbols :: "symbolData \<Rightarrow> symbolData res" where
  "RefreshSpecialSymbols e =
     bind_res (FindSymbolHN (bytes_of ''TRUE'') e) (\<lambda>p. let e = e\<lparr>TrueSymbolHN := p\<rparr> in
     bind_res (FindSymbolHN (bytes_of ''FALSE'') e) (\<lambda>p. let e = e\<lparr>FalseSymbolHN := p\<rparr> in
     bind_res (FindSymbolHN (bytes_of ''+oo'') e) (\<lambda>p. let e = e\<lparr>PositiveInfinity := p\<rparr> in
     bind_res (FindSymbolHN (bytes_of ''-oo'') e) (\<lambda>p. let e = e\<lparr>NegativeInfinity := p\<rparr> in
     bind_res (FindLongHN 0 e) (\<lambda>p. Inr (e\<lparr>Zero := p\<rparr>))))))"

section \<open>Symbol completion\<close>

text \<open>Whether \<open>ct\<close>, which is not empty, occurs in \<open>cs\<close>; the code returns the pointer to it or null.\<close>

fun matches_at :: "byte list \<Rightarrow> byte list \<Rightarrow> bool" where
  "matches_at cs [] = True"
| "matches_at [] (c # ct) = False"
| "matches_at (d # cs) (c # ct) = (d = c \<and> matches_at cs ct)"

fun StringWithinString :: "byte list \<Rightarrow> byte list \<Rightarrow> byte list option" where
  "StringWithinString [] ct = None"
| "StringWithinString (c # cs) ct =
     (if matches_at (c # cs) ct \<and> ct \<noteq> [] then Some (c # cs) else StringWithinString cs ct)"

fun CommonPrefixLength :: "byte list \<Rightarrow> byte list \<Rightarrow> nat" where
  "CommonPrefixLength (c # cs) (d # ct) = (if c \<noteq> d then 0 else Suc (CommonPrefixLength cs ct))"
| "CommonPrefixLength cs ct = 0"

text \<open>
  The search in one bucket. \<open>prevSymbol\<close> is the contents of the previous match; the result is the match and
  the common prefix length, which may be unset (None).
\<close>

fun match_in_bucket :: "byte list \<Rightarrow> byte list option \<Rightarrow> bool \<Rightarrow> nat option
    \<Rightarrow> (address \<Rightarrow> byte list hashNode option) \<Rightarrow> address list \<Rightarrow> (address \<times> nat option) option res" where
  "match_in_bucket searchString prevSymbol anywhere cpl heap [] = Inr None"
| "match_in_bucket searchString prevSymbol anywhere cpl heap (hashPtr # chain) =
     (case heap hashPtr of
        None \<Rightarrow> Inl Undefined
      | Some n \<Rightarrow>
          if take 1 (contents n) = [40] \<or> markedEphemeral n
          then match_in_bucket searchString prevSymbol anywhere cpl heap chain
          else if \<not> anywhere then
            let prefixLength = (case prevSymbol of
                  Some p \<Rightarrow> CommonPrefixLength p (contents n)
                | None \<Rightarrow> CommonPrefixLength searchString (contents n)) in
            (if length searchString \<le> prefixLength
             then (case prevSymbol of
                     None \<Rightarrow> Inr (Some (hashPtr, Some (length (contents n))))
                   | Some p \<Rightarrow>
                       (case cpl of
                          None \<Rightarrow> Inl Undefined
                        | Some k \<Rightarrow> Inr (Some (hashPtr, Some (if prefixLength < k then prefixLength else k)))))
             else match_in_bucket searchString prevSymbol anywhere cpl heap chain)
          else if StringWithinString (contents n) searchString \<noteq> None then Inr (Some (hashPtr, cpl))
          else match_in_bucket searchString prevSymbol anywhere cpl heap chain)"

function match_from :: "byte list \<Rightarrow> byte list option \<Rightarrow> bool \<Rightarrow> nat option \<Rightarrow> byte list atoms
    \<Rightarrow> nat \<Rightarrow> address list \<Rightarrow> (address \<times> nat option) option res" where
  "match_from searchString prevSymbol anywhere cpl t i chain =
     bind_res (match_in_bucket searchString prevSymbol anywhere cpl (nodes t) chain) (\<lambda>found.
       case found of
         Some m \<Rightarrow> Inr (Some m)
       | None \<Rightarrow>
           if SYMBOL_HASH_SIZE \<le> i + 1 then Inr None
           else match_from searchString prevSymbol anywhere cpl t (i + 1) (chains t (i + 1)))"
  by pat_completeness auto
termination
  by (relation "measure (\<lambda>(s, p, a, c, t, i, chain). SYMBOL_HASH_SIZE - i)") auto

declare match_from.simps [simp del]

text \<open>
  The chain after a node: what its \<open>next\<close> leads to. Callers pass a null \<open>commonPrefixLength\<close> only with
  \<open>anywhere\<close>; they do not look at the length that the model then returns.
\<close>

definition after_node :: "address \<Rightarrow> address list \<Rightarrow> address list" where
  "after_node p chain = tl (dropWhile (\<lambda>q. q \<noteq> p) chain)"

definition GetNextSymbolMatch :: "byte list \<Rightarrow> address option \<Rightarrow> bool \<Rightarrow> nat option \<Rightarrow> symbolData
    \<Rightarrow> (address option \<times> nat option) res" where
  "GetNextSymbolMatch searchString prevSymbol anywhere cpl e =
     (let t = SymbolTable e; cpl = (if anywhere then Some 0 else cpl);
          result = (\<lambda>m. case m of None \<Rightarrow> Inr (None, cpl) | Some (p, k) \<Rightarrow> Inr (Some p, k)) in
      case prevSymbol of
        None \<Rightarrow> bind_res (match_from searchString None anywhere cpl t 0 (chains t 0)) result
      | Some p \<Rightarrow>
          (case nodes t p of
             None \<Rightarrow> Inl Undefined
           | Some n \<Rightarrow>
               bind_res (match_from searchString (Some (contents n)) anywhere cpl t (bucket n)
                 (after_node p (chains t (bucket n)))) result))"

text \<open>
  The loop of \<open>FindSymbolMatches\<close>, with fuel for the number of matches; the list grows at its front.
\<close>

fun matches_loop :: "nat \<Rightarrow> byte list \<Rightarrow> address option \<Rightarrow> nat option \<Rightarrow> address list \<Rightarrow> symbolData
    \<Rightarrow> (address list \<times> nat option) run" where
  "matches_loop 0 searchString hashPtr cpl reply e = None"
| "matches_loop (Suc n) searchString hashPtr cpl reply e =
     res_run (GetNextSymbolMatch searchString hashPtr False cpl e) (\<lambda>(m, cpl).
       case m of
         None \<Rightarrow> return_run (reply, cpl)
       | Some p \<Rightarrow> matches_loop n searchString (Some p) cpl (p # reply) e)"

definition FindSymbolMatches :: "nat \<Rightarrow> byte list \<Rightarrow> symbolData \<Rightarrow> (address list \<times> nat \<times> nat option) run" where
  "FindSymbolMatches n searchString e =
     bind_run (matches_loop n searchString None None [] e) (\<lambda>(reply, cpl).
       return_run (reply, length reply, cpl))"

end
