(* ===== verification/Interning.thy ===== *)
theory Interning
  imports AtomTable
begin

text \<open>
  The tables of \<open>AtomTable\<close> intern. The locale \<open>interning\<close> is the contract between a table and its type of
  contents: on the regular contents of a bucket, the test of the code is equality. It is interpreted for
  the five types. \<open>table_ok\<close> is the invariant of a table, \<open>atoms_ok\<close> that of the five together. The
  properties: adding, identity, collection and release of atoms, and the completion of symbols.
\<close>

section \<open>Well-formed tables\<close>

text \<open>
  Every node is in the chain of the bucket that the hash of its contents names, and every member of a
  chain is a node of that bucket; no two nodes have the same contents; an atom without references is
  marked as ephemeral.
\<close>

definition chained :: "('a \<Rightarrow> nat) \<Rightarrow> ('a \<Rightarrow> bool) \<Rightarrow> 'a atoms \<Rightarrow> bool" where
  "chained hash regular t \<longleftrightarrow>
     (\<forall>p n. nodes t p = Some n \<longrightarrow> p \<in> set (chains t (bucket n)) \<and> bucket n = hash (contents n)
        \<and> regular (contents n) \<and> 0 \<le> count n \<and> (count n = 0 \<longrightarrow> markedEphemeral n))
   \<and> (\<forall>b. distinct (chains t b) \<and> (\<forall>p \<in> set (chains t b). \<exists>n. nodes t p = Some n \<and> bucket n = b))
   \<and> (\<forall>p q m n. nodes t p = Some m \<longrightarrow> nodes t q = Some n \<longrightarrow> contents m = contents n \<longrightarrow> p = q)"

definition table_ok :: "('a \<Rightarrow> nat) \<Rightarrow> ('a \<Rightarrow> bool) \<Rightarrow> 'a atoms \<Rightarrow> bool" where
  "table_ok hash regular t \<longleftrightarrow> chained hash regular t \<and> distinct (ephemerals t)
   \<and> (\<forall>p \<in> set (ephemerals t). \<exists>n. nodes t p = Some n \<and> markedEphemeral n)"

lemma chainedD:
  assumes "chained hash regular t" and "nodes t p = Some n"
  shows "p \<in> set (chains t (bucket n))" "bucket n = hash (contents n)" "regular (contents n)"
    "0 \<le> count n" "count n = 0 \<Longrightarrow> markedEphemeral n"
  using assms unfolding chained_def by blast+

lemma chained_chain:
  assumes "chained hash regular t"
  shows "distinct (chains t b)" "p \<in> set (chains t b) \<Longrightarrow> \<exists>n. nodes t p = Some n \<and> bucket n = b"
  using assms by (simp_all add: chained_def)

lemma chainedI:
  assumes "\<And>p n. nodes t p = Some n \<Longrightarrow> p \<in> set (chains t (bucket n)) \<and> bucket n = hash (contents n)
      \<and> regular (contents n) \<and> 0 \<le> count n \<and> (count n = 0 \<longrightarrow> markedEphemeral n)"
    and "\<And>b. distinct (chains t b)"
    and "\<And>p b. p \<in> set (chains t b) \<Longrightarrow> \<exists>n. nodes t p = Some n \<and> bucket n = b"
    and "\<And>p q m n. nodes t p = Some m \<Longrightarrow> nodes t q = Some n \<Longrightarrow> contents m = contents n \<Longrightarrow> p = q"
  shows "chained hash regular t"
  unfolding chained_def using assms by blast

lemma chained_inj:
  "chained hash regular t \<Longrightarrow> nodes t p = Some m \<Longrightarrow> nodes t q = Some n \<Longrightarrow> contents m = contents n \<Longrightarrow> p = q"
  unfolding chained_def by blast

lemma table_ok_chained: "table_ok hash regular t \<Longrightarrow> chained hash regular t"
  by (simp add: table_ok_def)

text \<open>Changing the count and the mark of a node keeps the chains.\<close>

lemma chained_update:
  assumes "chained hash regular t" and "nodes t p = Some n"
    and "contents n' = contents n" and "bucket n' = bucket n" and "0 \<le> count n'"
    and "count n' = 0 \<longrightarrow> markedEphemeral n'"
  shows "chained hash regular (t\<lparr>nodes := (nodes t)(p := Some n')\<rparr>)"
proof -
  let ?t = "t\<lparr>nodes := (nodes t)(p := Some n')\<rparr>"
  have old: "\<exists>l. nodes t q = Some l \<and> contents l = contents k \<and> bucket l = bucket k" if "nodes ?t q = Some k" for q k
    using that assms(2-4) by (auto split: if_splits)
  show ?thesis
  proof (rule chainedI)
    fix q k
    assume k: "nodes ?t q = Some k"
    obtain l where l: "nodes t q = Some l" "contents l = contents k" "bucket l = bucket k" using old [OF k] by blast
    show "q \<in> set (chains ?t (bucket k)) \<and> bucket k = hash (contents k) \<and> regular (contents k)
        \<and> 0 \<le> count k \<and> (count k = 0 \<longrightarrow> markedEphemeral k)"
      using chainedD [OF assms(1) l(1)] chainedD [OF assms(1), of q k] l(2,3) k assms(5,6)
      by (cases "q = p") simp_all
  next
    show "\<exists>m. nodes ?t q = Some m \<and> bucket m = b" if "q \<in> set (chains ?t b)" for q b
      using chained_chain(2) [OF assms(1), of q b] that assms(2,4) by auto
  next
    show "q = r" if "nodes ?t q = Some k" "nodes ?t r = Some m" "contents k = contents m" for q r k m
      using chained_inj [OF assms(1)] old [OF that(1)] old [OF that(2)] that(3) by metis
  qed (simp add: chained_chain(1) [OF assms(1)])
qed

lemma chained_ephemerals [simp]: "chained hash regular (t\<lparr>ephemerals := eds\<rparr>) = chained hash regular t"
  by (simp add: chained_def)

lemma empty_table_ok: "table_ok hash regular empty_table"
  by (simp add: table_ok_def chained_def empty_table_def)

section \<open>Interning\<close>

text \<open>
  The interface between a table and its type of contents: on regular contents with the same hash value,
  the test of the code is equality.
\<close>

locale interning =
  fixes hash :: "'a \<Rightarrow> nat" and regular :: "'a \<Rightarrow> bool" and same :: "'a \<Rightarrow> 'a \<Rightarrow> bool res"
  assumes same_iff: "regular x \<Longrightarrow> regular y \<Longrightarrow> hash x = hash y \<Longrightarrow> same x y = Inr (x = y)"
begin

lemma find_atom_chain:
  assumes "regular x" and "\<forall>p \<in> set ps. \<exists>n. h p = Some n \<and> regular (contents n) \<and> hash (contents n) = hash x"
  shows "find_atom (same x) h ps = Inr (find (\<lambda>p. \<exists>n. h p = Some n \<and> contents n = x) ps)"
  using assms by (induction ps) (auto simp: same_iff)

lemma find_cases:
  assumes "table_ok hash regular t" and "regular x"
  obtains "find_atom (same x) (nodes t) (chains t (hash x)) = Inr None" "\<forall>p n. nodes t p = Some n \<longrightarrow> contents n \<noteq> x"
    | p n where "find_atom (same x) (nodes t) (chains t (hash x)) = Inr (Some p)" "nodes t p = Some n" "contents n = x"
proof -
  note c = table_ok_chained [OF assms(1)]
  let ?P = "\<lambda>p. \<exists>n. nodes t p = Some n \<and> contents n = x"
  have "\<forall>p \<in> set (chains t (hash x)). \<exists>n. nodes t p = Some n \<and> regular (contents n) \<and> hash (contents n) = hash x"
    using chained_chain(2) [OF c] chainedD(2,3) [OF c] by metis
  then have f: "find_atom (same x) (nodes t) (chains t (hash x)) = Inr (find ?P (chains t (hash x)))"
    by (rule find_atom_chain [OF assms(2)])
  show thesis
  proof (cases "find ?P (chains t (hash x))")
    case None
    then have "\<forall>p n. nodes t p = Some n \<longrightarrow> contents n \<noteq> x"
      using chainedD(1,2) [OF c] unfolding find_None_iff by metis
    then show ?thesis using that(1) f None by simp
  next
    case (Some p)
    then have "?P p" unfolding find_Some_iff by blast
    then show ?thesis using that(2) f Some by auto
  qed
qed

lemma lookup:
  assumes "table_ok hash regular t" and "nodes t p = Some n"
  shows "find_atom (same (contents n)) (nodes t) (chains t (hash (contents n))) = Inr (Some p)"
  by (rule find_cases [OF assms(1) chainedD(3) [OF table_ok_chained [OF assms(1)] assms(2)]])
    (use assms chained_inj [OF table_ok_chained [OF assms(1)]] in auto)

lemma chained_add:
  assumes "chained hash regular t" and "regular x" and "nodes t new = None"
    and "\<forall>p n. nodes t p = Some n \<longrightarrow> contents n \<noteq> x"
    and "n' = \<lparr>count = 0, permanent = False, markedEphemeral = True, bucket = hash x, contents = x\<rparr>"
  shows "chained hash regular (t\<lparr>nodes := (nodes t)(new := Some n'),
    chains := (chains t)(hash x := chains t (hash x) @ [new])\<rparr>)"
proof -
  let ?t = "t\<lparr>nodes := (nodes t)(new := Some n'), chains := (chains t)(hash x := chains t (hash x) @ [new])\<rparr>"
  have free: "new \<notin> set (chains t b)" for b using chained_chain(2) [OF assms(1)] assms(3) by force
  show ?thesis
  proof (rule chainedI)
    fix q k
    assume k: "nodes ?t q = Some k"
    show "q \<in> set (chains ?t (bucket k)) \<and> bucket k = hash (contents k) \<and> regular (contents k)
        \<and> 0 \<le> count k \<and> (count k = 0 \<longrightarrow> markedEphemeral k)"
      using chainedD [OF assms(1), of q k] k assms(2,5) by (cases "q = new") auto
  next
    show "distinct (chains ?t b)" for b
      using chained_chain(1) [OF assms(1)] free by simp
  next
    show "\<exists>m. nodes ?t q = Some m \<and> bucket m = b" if "q \<in> set (chains ?t b)" for q b
      using chained_chain(2) [OF assms(1), of q b] that assms(3,5) by (auto split: if_splits)
  next
    have new: "contents m \<noteq> x" if "nodes ?t q = Some m" "q \<noteq> new" for q m
      using assms(4) that by simp
    show "q = r" if "nodes ?t q = Some k" "nodes ?t r = Some m" "contents k = contents m" for q r k m
      using chained_inj [OF assms(1), of q k r m] that new [OF that(1)] new [OF that(2)] assms(5)
      by (cases "q = new"; cases "r = new") auto
  qed
qed

lemma add_atom:
  assumes "table_ok hash regular t" and "regular x" and "nodes t new = None"
  shows "\<exists>p added t'. add_atom new (same x) (hash x) x t = Inr (p, added, t') \<and> table_ok hash regular t'
    \<and> (\<exists>n. nodes t' p = Some n \<and> contents n = x)
    \<and> (\<forall>q n. nodes t q = Some n \<longrightarrow> nodes t' q = Some n)
    \<and> (if added then p = new \<and> p \<in> set (ephemerals t') else t' = t)"
proof (rule find_cases [OF assms(1,2)])
  fix p n
  assume "find_atom (same x) (nodes t) (chains t (hash x)) = Inr (Some p)" "nodes t p = Some n" "contents n = x"
  then show ?thesis using assms(1) by (intro exI [of _ p] exI [of _ False]) (simp add: add_atom_def)
next
  assume none: "find_atom (same x) (nodes t) (chains t (hash x)) = Inr None"
    and other: "\<forall>p n. nodes t p = Some n \<longrightarrow> contents n \<noteq> x"
  let ?n = "\<lparr>count = 0, permanent = False, markedEphemeral = True, bucket = hash x, contents = x\<rparr>"
  let ?t = "t\<lparr>nodes := (nodes t)(new := Some ?n), chains := (chains t)(hash x := chains t (hash x) @ [new]),
    ephemerals := new # ephemerals t\<rparr>"
  have "chained hash regular ?t"
    using chained_add [OF table_ok_chained [OF assms(1)] assms(2,3) other refl] by simp
  then have "table_ok hash regular ?t"
    using assms(1,3) by (auto simp: table_ok_def)
  moreover have "add_atom new (same x) (hash x) x t = Inr (new, True, ?t)"
    using none by (simp add: add_atom_def AddEphemeralHashNode_def)
  ultimately show ?thesis using assms(3) by auto
qed

end

section \<open>Counting references\<close>

lemma increment_count_ok:
  assumes "table_ok hash regular t" and "nodes t p = Some n"
  shows "increment_count p t = Inr (t\<lparr>nodes := (nodes t)(p := Some (n\<lparr>count := count n + 1\<rparr>))\<rparr>)"
    "table_ok hash regular (t\<lparr>nodes := (nodes t)(p := Some (n\<lparr>count := count n + 1\<rparr>))\<rparr>)"
proof -
  note c = table_ok_chained [OF assms(1)]
  show "increment_count p t = Inr (t\<lparr>nodes := (nodes t)(p := Some (n\<lparr>count := count n + 1\<rparr>))\<rparr>)"
    using assms(2) by (simp add: increment_count_def)
  show "table_ok hash regular (t\<lparr>nodes := (nodes t)(p := Some (n\<lparr>count := count n + 1\<rparr>))\<rparr>)"
    using chained_update [OF c assms(2), of "n\<lparr>count := count n + 1\<rparr>"] chainedD(4) [OF c assms(2)] assms
    by (auto simp: table_ok_def)
qed

lemma decrement_count_ok:
  assumes "table_ok hash regular t" and "nodes t p = Some n" and "0 < count n"
  shows "\<exists>listed t'. decrement_count neg zero p t = Inr (listed, t') \<and> table_ok hash regular t'
    \<and> nodes t' = (nodes t)(p := Some (n\<lparr>count := count n - 1, markedEphemeral := markedEphemeral n \<or> count n = 1\<rparr>))
    \<and> ephemerals t' = (if listed then p # ephemerals t else ephemerals t)
    \<and> listed = (count n = 1 \<and> \<not> markedEphemeral n)"
proof -
  note c = table_ok_chained [OF assms(1)]
  let ?n = "n\<lparr>count := count n - 1, markedEphemeral := markedEphemeral n \<or> count n = 1\<rparr>"
  let ?listed = "count n = 1 \<and> \<not> markedEphemeral n"
  let ?t = "t\<lparr>nodes := (nodes t)(p := Some ?n), ephemerals := (if ?listed then p # ephemerals t else ephemerals t)\<rparr>"
  have "chained hash regular ?t"
    using chained_update [OF c assms(2), of ?n] assms(3) by simp
  then have "table_ok hash regular ?t"
    using assms(1,2) by (auto simp: table_ok_def)
  moreover have "decrement_count neg zero p t = Inr (?listed, ?t)"
    using assms(2,3) by (cases n) (auto simp: decrement_count_def AddEphemeralHashNode_def Let_def)
  ultimately show ?thesis by (intro exI [of _ ?listed] exI [of _ ?t]) simp
qed

lemma decrement_count_zero:
  assumes "nodes t p = Some n" and "count n = 0"
  shows "decrement_count neg zero p t = Inl (Exit zero)"
  using assms by (simp add: decrement_count_def)

section \<open>Collecting ephemeral atoms\<close>

text \<open>What a collection of \<open>eds\<close> leaves at an address.\<close>

definition swept :: "address list \<Rightarrow> (address \<Rightarrow> 'a hashNode option) \<Rightarrow> address \<Rightarrow> 'a hashNode option" where
  "swept eds h p = (if p \<in> set eds
     then (case h p of None \<Rightarrow> None
           | Some n \<Rightarrow> if count n = 0 then None else Some (n\<lparr>markedEphemeral := False\<rparr>))
     else h p)"

lemma RemoveHashNode_ok:
  assumes "chained hash regular t" and "nodes t p = Some n"
  shows "\<exists>t'. RemoveHashNode p t = Inr t' \<and> chained hash regular t' \<and> nodes t' = (nodes t)(p := None)
    \<and> ephemerals t' = ephemerals t"
proof -
  let ?t = "t\<lparr>nodes := (nodes t)(p := None), chains := (chains t)(bucket n := remove1 p (chains t (bucket n)))\<rparr>"
  note c = chained_chain [OF assms(1)]
  have "chained hash regular ?t"
  proof (rule chainedI)
    fix q k
    assume k: "nodes ?t q = Some k"
    then have q: "nodes t q = Some k" "q \<noteq> p" by (auto split: if_splits)
    show "q \<in> set (chains ?t (bucket k)) \<and> bucket k = hash (contents k) \<and> regular (contents k)
        \<and> 0 \<le> count k \<and> (count k = 0 \<longrightarrow> markedEphemeral k)"
      using chainedD [OF assms(1) q(1)] q(2) c(1) [of "bucket n"]
      by (cases "bucket k = bucket n") (simp_all add: set_remove1_eq)
  next
    show "\<exists>m. nodes ?t q = Some m \<and> bucket m = b" if "q \<in> set (chains ?t b)" for q b
      using c(2) [of q b] c(2) [of q "bucket n"] that assms(2) c(1) by (auto simp: set_remove1_eq split: if_splits)
  next
    show "q = r" if "nodes ?t q = Some k" "nodes ?t r = Some m" "contents k = contents m" for q r k m
      using chained_inj [OF assms(1), of q k r m] that by (auto split: if_splits)
  qed (simp add: c(1) distinct_remove1)
  moreover have "RemoveHashNode p t = Inr ?t"
    using chainedD(1) [OF assms] assms(2) by (auto simp: RemoveHashNode_def Let_def)
  ultimately show ?thesis by auto
qed

lemma remove_ephemerals_ok:
  assumes "chained hash regular t" and "distinct eds" and "\<forall>p \<in> set eds. nodes t p \<noteq> None"
  shows "\<exists>t'. remove_ephemerals eds t = Inr ([], t') \<and> chained hash regular t' \<and> nodes t' = swept eds (nodes t)
    \<and> ephemerals t' = ephemerals t"
  using assms
proof (induction eds arbitrary: t)
  case Nil
  then show ?case by (auto simp: swept_def)
next
  case (Cons p eds)
  obtain n where n: "nodes t p = Some n" using Cons.prems(3) by auto
  have p: "p \<notin> set eds" using Cons.prems(2) by simp
  show ?case
  proof (cases "count n = 0")
    case True
    obtain t1 where t1: "RemoveHashNode p t = Inr t1" "chained hash regular t1" "nodes t1 = (nodes t)(p := None)"
      "ephemerals t1 = ephemerals t"
      using RemoveHashNode_ok [OF Cons.prems(1) n] by blast
    have "\<forall>q \<in> set eds. nodes t1 q \<noteq> None" using Cons.prems(3) p t1(3) by auto
    from Cons.IH [OF t1(2) _ this] Cons.prems(2) obtain t2 where t2:
      "remove_ephemerals eds t1 = Inr ([], t2)" "chained hash regular t2" "nodes t2 = swept eds (nodes t1)"
      "ephemerals t2 = ephemerals t1"
      by auto
    have "swept eds (nodes t1) = swept (p # eds) (nodes t)"
      using p n True by (auto simp: swept_def t1(3) fun_eq_iff)
    then show ?thesis using n True t1(1,4) t2 by auto
  next
    case False
    then have pos: "0 < count n" using chainedD(4) [OF Cons.prems(1) n] by simp
    let ?t = "t\<lparr>nodes := (nodes t)(p := Some (n\<lparr>markedEphemeral := False\<rparr>))\<rparr>"
    have "chained hash regular ?t"
      using chained_update [OF Cons.prems(1) n, of "n\<lparr>markedEphemeral := False\<rparr>"] pos by simp
    moreover have "\<forall>q \<in> set eds. nodes ?t q \<noteq> None" using Cons.prems(3) by auto
    ultimately obtain t2 where t2: "remove_ephemerals eds ?t = Inr ([], t2)" "chained hash regular t2"
      "nodes t2 = swept eds (nodes ?t)" "ephemerals t2 = ephemerals ?t"
      using Cons.IH [of ?t] Cons.prems(2) unfolding distinct.simps by blast
    have "swept eds (nodes ?t) = swept (p # eds) (nodes t)"
      using p n False by (auto simp: swept_def fun_eq_iff)
    then show ?thesis using n pos t2 by auto
  qed
qed

lemma RemoveEphemeralHashNodes_ok:
  assumes "table_ok hash regular t"
  shows "\<exists>t'. RemoveEphemeralHashNodes t = Inr t' \<and> table_ok hash regular t'
    \<and> nodes t' = swept (ephemerals t) (nodes t) \<and> ephemerals t' = []"
proof -
  have "\<forall>p \<in> set (ephemerals t). nodes t p \<noteq> None" using assms by (force simp: table_ok_def)
  then obtain t' where "remove_ephemerals (ephemerals t) t = Inr ([], t')" "chained hash regular t'"
    "nodes t' = swept (ephemerals t) (nodes t)"
    using remove_ephemerals_ok [of hash regular t "ephemerals t"] assms by (auto simp: table_ok_def)
  then show ?thesis
    by (intro exI [of _ "t'\<lparr>ephemerals := []\<rparr>"]) (simp add: RemoveEphemeralHashNodes_def table_ok_def)
qed

section \<open>The tables keep the contract\<close>

abbreviation symbol_hash :: "byte list \<Rightarrow> nat" where
  "symbol_hash s \<equiv> HashSymbol s SYMBOL_HASH_SIZE"

definition regular_string :: "byte list \<Rightarrow> bool" where
  "regular_string s \<longleftrightarrow> c_string s = s"

lemma c_string_idem [simp]: "c_string (c_string s) = c_string s"
  by (simp add: c_string_def)

lemma regular_c_string [simp]: "regular_string (c_string s)"
  by (simp add: regular_string_def)

lemma symbol_hash_c_string [simp]: "HashSymbol (c_string s) r = HashSymbol s r"
  by (simp add: HashSymbol_def)

lemma same_c_string [simp]: "same_string (c_string s) = same_string s"
  by (simp add: same_string_def fun_eq_iff)

interpretation symbol: interning symbol_hash regular_string same_string
  by unfold_locales (simp add: same_string_def regular_string_def)

definition long_hash :: "64 word \<Rightarrow> nat" where
  "long_hash x = (case HashInteger x INTEGER_HASH_SIZE of Inl _ \<Rightarrow> 0 | Inr h \<Rightarrow> h)"

definition regular_long :: "64 word \<Rightarrow> bool" where
  "regular_long x \<longleftrightarrow> x \<noteq> 0x8000000000000000"

lemma HashInteger_regular: "regular_long x \<Longrightarrow> HashInteger x INTEGER_HASH_SIZE = Inr (long_hash x)"
  by (simp add: long_hash_def HashInteger_def regular_long_def)

interpretation integer: interning long_hash regular_long same_long
  by unfold_locales (simp add: same_long_def)

abbreviation float_hash :: "64 word \<Rightarrow> nat" where
  "float_hash x \<equiv> HashFloat x FLOAT_HASH_SIZE"

lemma zero_double: "x AND 0x7FFFFFFFFFFFFFFF = 0 \<Longrightarrow> x = 0 \<or> x = (0x8000000000000000 :: 64 word)"
proof -
  assume z: "x AND 0x7FFFFFFFFFFFFFFF = 0"
  have m: "(0x8000000000000000 :: 64 word) OR 0x7FFFFFFFFFFFFFFF = - 1" by simp
  have "x = (x AND 0x8000000000000000) OR (x AND 0x7FFFFFFFFFFFFFFF)"
    unfolding bit.conj_disj_distrib [symmetric] m by simp
  then have x: "x = x AND 0x8000000000000000" using z by simp
  have "x AND push_bit k 1 = push_bit k (of_bool (bit x k))" for k
    by (rule bit_word_eqI) (auto simp: bit_simps)
  from this [of 63] have "x AND 0x8000000000000000 = (if bit x 63 then 0x8000000000000000 else 0)"
    by (simp add: push_bit_eq_mult split: if_splits)
  then show ?thesis using x by (auto split: if_splits)
qed

lemma float_hash_zero: "float_hash 0 = 0" "float_hash 0x8000000000000000 \<noteq> 0"
  by (simp_all add: HashFloat_def tally127_def bytes_of_long_def in_range_def upt_rec)

interpretation float: interning float_hash "\<lambda>x. \<not> is_nan x" same_double
proof
  fix x y :: "64 word"
  assume "\<not> is_nan x" "\<not> is_nan y" "float_hash x = float_hash y"
  then show "same_double x y = Inr (x = y)"
    using zero_double [of x] zero_double [of y] float_hash_zero by (auto simp: same_double_def)
qed

definition bitmap_hash :: "byte list \<times> nat \<Rightarrow> nat" where
  "bitmap_hash x = (case HashBitMap (fst x) BITMAP_HASH_SIZE (snd x) of Inl _ \<Rightarrow> 0 | Inr h \<Rightarrow> h)"

definition regular_bitmap :: "byte list \<times> nat \<Rightarrow> bool" where
  "regular_bitmap x \<longleftrightarrow> length (fst x) = snd x \<and> snd x < 65536"

lemma same_bytes_eq: "length xs = n \<Longrightarrow> length ys = n \<Longrightarrow> same_bytes n xs ys = Inr (xs = ys)"
  by (induction n xs ys rule: same_bytes.induct) auto

interpretation bitmap: interning bitmap_hash regular_bitmap "\<lambda>x. same_bitmap (fst x) (snd x)"
  by unfold_locales (auto simp: same_bitmap_def regular_bitmap_def same_bytes_eq prod_eq_iff)

interpretation external: interning "\<lambda>x. HashExternalAddress (fst x) EXTERNAL_ADDRESS_HASH_SIZE"
    "\<lambda>x. snd x < 65536" "\<lambda>x. same_address (fst x) (snd x)"
  by unfold_locales (auto simp: same_address_def prod_eq_iff)

section \<open>Well-formed atom tables\<close>

definition atoms_ok :: "symbolData \<Rightarrow> bool" where
  "atoms_ok e \<longleftrightarrow> table_ok symbol_hash regular_string (SymbolTable e)
     \<and> table_ok float_hash (\<lambda>x. \<not> is_nan x) (FloatTable e)
     \<and> table_ok long_hash regular_long (IntegerTable e)
     \<and> table_ok bitmap_hash regular_bitmap (BitMapTable e)
     \<and> table_ok (\<lambda>x. HashExternalAddress (fst x) EXTERNAL_ADDRESS_HASH_SIZE) (\<lambda>x. snd x < 65536)
         (ExternalAddressTable e)"

text \<open>The allocator returns an address that no atom has.\<close>

definition fresh :: "(symbolData \<Rightarrow> address) \<Rightarrow> symbolData \<Rightarrow> bool" where
  "fresh get_struct e \<longleftrightarrow> nodes (SymbolTable e) (get_struct e) = None \<and> nodes (FloatTable e) (get_struct e) = None
     \<and> nodes (IntegerTable e) (get_struct e) = None \<and> nodes (BitMapTable e) (get_struct e) = None
     \<and> nodes (ExternalAddressTable e) (get_struct e) = None"

definition atom_at :: "'a atoms \<Rightarrow> address \<Rightarrow> 'a \<Rightarrow> bool" where
  "atom_at t p x \<longleftrightarrow> (\<exists>n. nodes t p = Some n \<and> contents n = x)"

text \<open>Every node of a table is unchanged in another one.\<close>

definition extends :: "'a atoms \<Rightarrow> 'a atoms \<Rightarrow> bool" where
  "extends t t' \<longleftrightarrow> (\<forall>q n. nodes t q = Some n \<longrightarrow> nodes t' q = Some n)"

lemma atom_at_extends: "atom_at t p x \<Longrightarrow> extends t t' \<Longrightarrow> atom_at t' p x"
  by (auto simp: atom_at_def extends_def)

lemma atom_at_inj: "table_ok hash regular t \<Longrightarrow> atom_at t p x \<Longrightarrow> atom_at t q x \<Longrightarrow> p = q"
  unfolding atom_at_def using chained_inj [OF table_ok_chained] by metis

lemma FindSymbolHN_at:
  assumes "atoms_ok e"
  shows "FindSymbolHN str e = Inr (Some p) \<longleftrightarrow> atom_at (SymbolTable e) p (c_string str)"
    "FindSymbolHN str e = Inr None \<longleftrightarrow> (\<forall>q. \<not> atom_at (SymbolTable e) q (c_string str))"
proof -
  have ok: "table_ok symbol_hash regular_string (SymbolTable e)" using assms by (simp add: atoms_ok_def)
  have inj: "atom_at (SymbolTable e) q (c_string str) \<Longrightarrow> atom_at (SymbolTable e) r (c_string str) \<Longrightarrow> q = r" for q r
    by (rule atom_at_inj [OF ok])
  have *: "(FindSymbolHN str e = Inr (Some p) \<longleftrightarrow> atom_at (SymbolTable e) p (c_string str))
    \<and> (FindSymbolHN str e = Inr None \<longleftrightarrow> (\<forall>q. \<not> atom_at (SymbolTable e) q (c_string str)))"
  proof (rule symbol.find_cases [OF ok regular_c_string [of str]], goal_cases)
    case 1
    then show ?case by (simp add: FindSymbolHN_def atom_at_def)
  next
    case (2 q n)
    then have "atom_at (SymbolTable e) q (c_string str)" by (auto simp: atom_at_def)
    then show ?case using 2(1) inj [of q p] by (auto simp: FindSymbolHN_def simp del: find_atom.simps)
  qed
  then show "FindSymbolHN str e = Inr (Some p) \<longleftrightarrow> atom_at (SymbolTable e) p (c_string str)"
    "FindSymbolHN str e = Inr None \<longleftrightarrow> (\<forall>q. \<not> atom_at (SymbolTable e) q (c_string str))"
    by simp_all
qed

lemma add_symbol:
  assumes "atoms_ok e" and "fresh get_struct e"
  shows "\<exists>p e'. EnvAddSymbol get_struct (Some str) e = Inr (p, e') \<and> atoms_ok e'
    \<and> atom_at (SymbolTable e') p (c_string str) \<and> extends (SymbolTable e) (SymbolTable e')
    \<and> (if FindSymbolHN str e = Inr None then p = get_struct e \<and> p \<in> set (ephemerals (SymbolTable e')) \<and> dirty e'
       else e' = e)"
proof -
  have ok: "table_ok symbol_hash regular_string (SymbolTable e)" using assms(1) by (simp add: atoms_ok_def)
  obtain p added t where a: "add_atom (get_struct e) (same_string str) (symbol_hash str) (c_string str) (SymbolTable e)
      = Inr (p, added, t)" "table_ok symbol_hash regular_string t" "atom_at t p (c_string str)"
    "extends (SymbolTable e) t"
    "if added then p = get_struct e \<and> p \<in> set (ephemerals t) else t = SymbolTable e"
    using symbol.add_atom [OF ok regular_c_string [of str], of "get_struct e"] assms(2)
    by (auto simp: fresh_def atom_at_def extends_def)
  let ?e = "e\<lparr>SymbolTable := t, dirty := dirty e \<or> added\<rparr>"
  have e': "EnvAddSymbol get_struct (Some str) e = Inr (p, ?e)"
    using a(1) by (simp add: EnvAddSymbol_def Let_def)
  have ok': "atoms_ok ?e" using assms(1) a(2) by (simp add: atoms_ok_def)
  have "added \<longleftrightarrow> FindSymbolHN str e = Inr None"
  proof
    assume "added"
    then have "nodes (SymbolTable e) p = None" using a(5) assms(2) by (simp add: fresh_def)
    then have "\<not> atom_at (SymbolTable e) q (c_string str)" for q
      using atom_at_inj [OF a(2,3), of q] atom_at_extends [OF _ a(4)] by (auto simp: atom_at_def)
    then show "FindSymbolHN str e = Inr None" using FindSymbolHN_at(2) [OF assms(1)] by blast
  next
    assume "FindSymbolHN str e = Inr None"
    then show added using FindSymbolHN_at(2) [OF assms(1)] a(3,5) by (auto split: if_splits)
  qed
  then show ?thesis using e' ok' a(3-5) by (intro exI [of _ p] exI [of _ ?e]) auto
qed

lemma add_long:
  assumes "atoms_ok e" and "fresh get_struct e" and "regular_long x"
  shows "\<exists>p e'. EnvAddLong get_struct x e = Inr (p, e') \<and> atoms_ok e' \<and> atom_at (IntegerTable e') p x
    \<and> extends (IntegerTable e) (IntegerTable e') \<and> SymbolTable e' = SymbolTable e \<and> FloatTable e' = FloatTable e"
proof -
  have ok: "table_ok long_hash regular_long (IntegerTable e)" using assms(1) by (simp add: atoms_ok_def)
  obtain p added t where a: "add_atom (get_struct e) (same_long x) (long_hash x) x (IntegerTable e)
      = Inr (p, added, t)" "table_ok long_hash regular_long t" "atom_at t p x" "extends (IntegerTable e) t"
    using integer.add_atom [OF ok assms(3), of "get_struct e"] assms(2)
    by (auto simp: fresh_def atom_at_def extends_def)
  then show ?thesis
    using assms(1,3) by (auto simp: EnvAddLong_def HashInteger_regular atoms_ok_def)
qed

lemma add_double:
  assumes "atoms_ok e" and "fresh get_struct e" and "\<not> is_nan x"
  shows "\<exists>p e'. EnvAddDouble get_struct x e = Inr (p, e') \<and> atoms_ok e' \<and> atom_at (FloatTable e') p x
    \<and> extends (FloatTable e) (FloatTable e') \<and> SymbolTable e' = SymbolTable e \<and> IntegerTable e' = IntegerTable e"
proof -
  have ok: "table_ok float_hash (\<lambda>x. \<not> is_nan x) (FloatTable e)" using assms(1) by (simp add: atoms_ok_def)
  obtain p added t where a: "add_atom (get_struct e) (same_double x) (float_hash x) x (FloatTable e)
      = Inr (p, added, t)" "table_ok float_hash (\<lambda>x. \<not> is_nan x) t" "atom_at t p x" "extends (FloatTable e) t"
    using float.add_atom [OF ok assms(3), of "get_struct e"] assms(2)
    by (auto simp: fresh_def atom_at_def extends_def)
  then show ?thesis
    using assms(1) by (auto simp: EnvAddDouble_def atoms_ok_def)
qed

text \<open>A NaN is not found again: each time it is added it gets another node.\<close>

lemma find_nan: "is_nan x \<Longrightarrow> \<forall>p \<in> set ps. h p \<noteq> None \<Longrightarrow> find_atom (same_double x) h ps = Inr None"
  by (induction ps) (auto simp: same_double_def)

lemma add_bitmap:
  assumes "atoms_ok e" and "fresh get_struct e" and "length bs < 65536"
  shows "\<exists>p e'. EnvAddBitMap get_struct (Some bs) (length bs) e = Inr (p, e') \<and> atoms_ok e'
    \<and> atom_at (BitMapTable e') p (bs, length bs) \<and> extends (BitMapTable e) (BitMapTable e')"
proof -
  have ok: "table_ok bitmap_hash regular_bitmap (BitMapTable e)" using assms(1) by (simp add: atoms_ok_def)
  have h: "HashBitMap bs BITMAP_HASH_SIZE (length bs) = Inr (bitmap_hash (bs, length bs))"
    by (simp add: bitmap_hash_def HashBitMap_def)
  have "regular_bitmap (bs, length bs)" using assms(3) by (simp add: regular_bitmap_def)
  from bitmap.add_atom [OF ok this, of "get_struct e"] obtain p added t where
    a: "add_atom (get_struct e) (same_bitmap bs (length bs)) (bitmap_hash (bs, length bs)) (bs, length bs) (BitMapTable e)
      = Inr (p, added, t)" "table_ok bitmap_hash regular_bitmap t" "atom_at t p (bs, length bs)"
      "extends (BitMapTable e) t"
    using assms(2) by (auto simp: fresh_def atom_at_def extends_def)
  then show ?thesis
    using assms(1,3) h by (auto simp: EnvAddBitMap_def atoms_ok_def)
qed

section \<open>Completion\<close>

lemma CommonPrefixLength_commute: "CommonPrefixLength xs ys = CommonPrefixLength ys xs"
  by (induction xs ys rule: CommonPrefixLength.induct) auto

lemma CommonPrefixLength_self [simp]: "CommonPrefixLength xs xs = length xs"
  by (induction xs) auto

lemma CommonPrefixLength_triangle:
  "min (CommonPrefixLength xs ys) (CommonPrefixLength ys zs) \<le> CommonPrefixLength xs zs"
proof (induction xs ys arbitrary: zs rule: CommonPrefixLength.induct)
  case (1 c cs d ct)
  then show ?case by (cases zs) auto
qed simp_all

lemma CommonPrefixLength_take:
  "length s \<le> CommonPrefixLength s x \<longleftrightarrow> take (length s) x = s"
  by (induction s x rule: CommonPrefixLength.induct) auto

lemma CommonPrefixLength_prefix:
  assumes "take (length s) y = s"
  shows "length s \<le> CommonPrefixLength y x \<longleftrightarrow> take (length s) x = s"
  using CommonPrefixLength_triangle [of s y x] CommonPrefixLength_triangle [of y s x]
    CommonPrefixLength_take [of s y] CommonPrefixLength_take [of s x] CommonPrefixLength_triangle [of s x y]
    CommonPrefixLength_commute [of s y] CommonPrefixLength_commute [of x y] CommonPrefixLength_commute [of s x]
    CommonPrefixLength_triangle [of y x s] assms by linarith

text \<open>The symbols that complete \<open>s\<close>, and the whole table in the order of its buckets.\<close>

definition completes :: "byte list \<Rightarrow> byte list atoms \<Rightarrow> address \<Rightarrow> bool" where
  "completes s t p \<longleftrightarrow> (case nodes t p of None \<Rightarrow> False
     | Some n \<Rightarrow> take 1 (contents n) \<noteq> [40] \<and> \<not> markedEphemeral n \<and> take (length s) (contents n) = s)"

definition all_symbols :: "byte list atoms \<Rightarrow> address list" where
  "all_symbols t = concat (map (chains t) [0..<SYMBOL_HASH_SIZE])"

definition text_of :: "byte list atoms \<Rightarrow> address \<Rightarrow> byte list" where
  "text_of t p = (case nodes t p of None \<Rightarrow> [] | Some n \<Rightarrow> contents n)"

definition next_cpl :: "byte list option \<Rightarrow> nat option \<Rightarrow> byte list \<Rightarrow> nat option" where
  "next_cpl prev cpl x =
     (case prev of None \<Rightarrow> Some (length x)
      | Some y \<Rightarrow> map_option (\<lambda>k. min k (CommonPrefixLength y x)) cpl)"

text \<open>The first match of a search and the length it reports; \<open>prev\<close> is the match before it, if any.\<close>

definition first_match :: "byte list \<Rightarrow> byte list option \<Rightarrow> nat option \<Rightarrow> byte list atoms \<Rightarrow> address list
    \<Rightarrow> (address \<times> nat option) option" where
  "first_match s prev cpl t ps =
     (case filter (completes s t) ps of [] \<Rightarrow> None | p # _ \<Rightarrow> Some (p, next_cpl prev cpl (text_of t p)))"

definition previous :: "byte list \<Rightarrow> byte list option \<Rightarrow> nat option \<Rightarrow> bool" where
  "previous s prev cpl \<longleftrightarrow> (case prev of None \<Rightarrow> True | Some y \<Rightarrow> take (length s) y = s \<and> cpl \<noteq> None)"

lemma match_in_bucket_first:
  assumes "previous s prev cpl" and "\<forall>p \<in> set ps. nodes t p \<noteq> None"
  shows "match_in_bucket s prev False cpl (nodes t) ps = Inr (first_match s prev cpl t ps)"
  using assms(2)
proof (induction ps)
  case (Cons p ps)
  obtain n where n: "nodes t p = Some n" using Cons.prems by auto
  show ?case
  proof (cases prev)
    case None
    then show ?thesis
      using Cons n
      by (auto simp: first_match_def completes_def next_cpl_def text_of_def CommonPrefixLength_take)
  next
    case (Some y)
    then obtain k where "cpl = Some k" "take (length s) y = s" using assms(1) by (auto simp: previous_def)
    then show ?thesis
      using Cons n Some
      by (auto simp: first_match_def completes_def next_cpl_def text_of_def CommonPrefixLength_prefix min_def)
  qed
qed (simp add: first_match_def)

lemma first_match_append:
  "first_match s prev cpl t (ps @ qs) =
     (case first_match s prev cpl t ps of None \<Rightarrow> first_match s prev cpl t qs | Some m \<Rightarrow> Some m)"
  by (auto simp: first_match_def split: list.split)

lemma match_from_first:
  assumes "previous s prev cpl" and "\<forall>p \<in> set ps. nodes t p \<noteq> None" and "\<forall>b. \<forall>p \<in> set (chains t b). nodes t p \<noteq> None"
    and "i < SYMBOL_HASH_SIZE"
  shows "match_from s prev False cpl t i ps =
    Inr (first_match s prev cpl t (ps @ concat (map (chains t) [Suc i..<SYMBOL_HASH_SIZE])))"
  using assms(2,4)
proof (induction "SYMBOL_HASH_SIZE - i" arbitrary: i ps)
  case (Suc d)
  note m = match_in_bucket_first [OF assms(1) Suc.prems(1)]
  show ?case
  proof (cases "SYMBOL_HASH_SIZE \<le> i + 1")
    case True
    then show ?thesis
      by (subst match_from.simps) (simp add: m split: option.split)
  next
    case False
    have "match_from s prev False cpl t (i + 1) (chains t (i + 1)) =
        Inr (first_match s prev cpl t (chains t (i + 1) @ concat (map (chains t) [Suc (i + 1)..<SYMBOL_HASH_SIZE])))"
      using Suc.hyps(1) [of "i + 1" "chains t (i + 1)"] Suc.hyps(2) assms(3) False by simp
    moreover have "[Suc i..<SYMBOL_HASH_SIZE] = Suc i # [Suc (Suc i)..<SYMBOL_HASH_SIZE]"
      using False by (intro upt_conv_Cons) simp
    ultimately show ?thesis
      using False by (subst match_from.simps) (simp add: m first_match_append del: upt.simps split: option.split)
  qed
qed simp

lemma split_at_bucket:
  assumes "b < k" and "distinct (concat (map f [0..<k]))" and "concat (map f [0..<k]) = pre @ p # post" and "p \<in> set (f b)"
  shows "after_node p (f b) @ concat (map f [Suc b..<k]) = post"
proof -
  obtain us vs where f: "f b = us @ p # vs" using split_list [OF assms(4)] by blast
  have "[0..<k] = [0..<b] @ b # [Suc b..<k]"
    using assms(1) by (metis append_Cons append_Nil less_imp_le_nat upt_add_eq_append upt_conv_Cons le_add_diff_inverse zero_le)
  then have e: "(concat (map f [0..<b]) @ us) @ p # vs @ concat (map f [Suc b..<k]) = pre @ p # post"
    using assms(3) f by simp
  have "distinct (pre @ p # post)" using assms(2,3) by simp
  with e have "concat (map f [0..<b]) @ us = pre" "vs @ concat (map f [Suc b..<k]) = post"
    by (metis append_Cons_eq_iff distinct.simps(2) distinct_append not_distinct_conv_prefix)+
  moreover have "p \<notin> set us" using \<open>distinct (pre @ p # post)\<close> calculation(1) by auto
  moreover from this have "dropWhile (\<lambda>q. q \<noteq> p) us = []" by auto
  ultimately show ?thesis by (simp add: after_node_def f dropWhile_append)
qed

fun fold_cpl :: "byte list option \<Rightarrow> nat option \<Rightarrow> byte list list \<Rightarrow> nat option" where
  "fold_cpl prev cpl [] = cpl"
| "fold_cpl prev cpl (x # xs) = fold_cpl (Some x) (next_cpl prev cpl x) xs"

lemma fold_cpl_Some:
  assumes "k \<le> CommonPrefixLength x y"
  shows "fold_cpl (Some y) (Some k) ys = Some (foldl (\<lambda>k z. min k (CommonPrefixLength x z)) k ys)"
  using assms
proof (induction ys arbitrary: k y)
  case (Cons z ys)
  have "min k (CommonPrefixLength y z) = min k (CommonPrefixLength x z)"
    using CommonPrefixLength_triangle [of x y z] CommonPrefixLength_triangle [of y x z]
      CommonPrefixLength_commute [of x y] Cons.prems by linarith
  then show ?case using Cons.IH [of "min k (CommonPrefixLength x z)" z] by (simp add: next_cpl_def)
qed simp

text \<open>The length of the prefix that the strings of a list share.\<close>

fun shared_length :: "byte list list \<Rightarrow> nat option" where
  "shared_length [] = None"
| "shared_length (x # xs) = Some (foldl (\<lambda>k y. min k (CommonPrefixLength x y)) (length x) xs)"

lemma fold_cpl_shared: "fold_cpl None None xs = shared_length xs"
  by (cases xs) (simp_all add: next_cpl_def fold_cpl_Some)


lemma symbol_hash_less: "symbol_hash s < SYMBOL_HASH_SIZE"
  by (simp add: HashSymbol_def in_range_def)

lemma all_symbols_ok:
  assumes "table_ok symbol_hash regular_string t"
  shows "distinct (all_symbols t)" "set (all_symbols t) = dom (nodes t)"
proof -
  note c = table_ok_chained [OF assms]
  have b: "\<exists>n. nodes t p = Some n \<and> bucket n = b" if "p \<in> set (chains t b)" for p b
    using chained_chain(2) [OF c that] .
  have "distinct (concat (map (chains t) bs))" if "distinct bs" for bs
    using that
  proof (induction bs)
    case (Cons d bs)
    have disj: "set (chains t d) \<inter> set (chains t d') = {}" if "d' \<noteq> d" for d'
      using b [of _ d] b [of _ d'] that by fastforce
    then have "set (chains t d) \<inter> (\<Union>d' \<in> set bs. set (chains t d')) = {}"
      using Cons.prems disj by fastforce
    moreover have "distinct (concat (map (chains t) bs))" using Cons by simp
    ultimately show ?case using chained_chain(1) [OF c, of d]
      unfolding list.map concat.simps distinct_append set_concat by (simp add: image_image)
  qed simp
  then show "distinct (all_symbols t)" by (simp add: all_symbols_def)
  show "set (all_symbols t) = dom (nodes t)"
  proof (intro set_eqI iffI)
    fix p
    assume "p \<in> set (all_symbols t)"
    then show "p \<in> dom (nodes t)" using b by (auto simp: all_symbols_def)
  next
    fix p
    assume "p \<in> dom (nodes t)"
    then obtain n where n: "nodes t p = Some n" by auto
    from chainedD(1,2) [OF c n] show "p \<in> set (all_symbols t)"
      using symbol_hash_less [of "contents n"] by (auto simp: all_symbols_def simp del: upt.simps)
  qed
qed

text \<open>One step of the search: it goes on in what follows the match before it.\<close>

lemma GetNextSymbolMatch_first:
  assumes "atoms_ok e" and "t = SymbolTable e"
    and "case prev of None \<Rightarrow> post = all_symbols t
      | Some p \<Rightarrow> (\<exists>pre. all_symbols t = pre @ p # post) \<and> completes s t p \<and> cpl \<noteq> None"
  shows "GetNextSymbolMatch s prev False cpl e =
    Inr (case first_match s (map_option (text_of t) prev) cpl t post of
           None \<Rightarrow> (None, cpl) | Some (p, k) \<Rightarrow> (Some p, k))"
proof -
  have ok: "table_ok symbol_hash regular_string t" using assms(1,2) by (simp add: atoms_ok_def)
  note c = table_ok_chained [OF ok]
  have all: "\<forall>b. \<forall>p \<in> set (chains t b). nodes t p \<noteq> None" using chained_chain(2) [OF c] by force
  show ?thesis
  proof (cases prev)
    case None
    have "[0..<SYMBOL_HASH_SIZE] = 0 # [Suc 0..<SYMBOL_HASH_SIZE]" by (intro upt_conv_Cons) simp
    then have "all_symbols t = chains t 0 @ concat (map (chains t) [Suc 0..<SYMBOL_HASH_SIZE])"
      unfolding all_symbols_def by simp
    moreover have "match_from s None False cpl t 0 (chains t 0) =
        Inr (first_match s None cpl t (chains t 0 @ concat (map (chains t) [Suc 0..<SYMBOL_HASH_SIZE])))"
      using all by (intro match_from_first) (auto simp: previous_def)
    ultimately show ?thesis
      using assms(2,3) None unfolding GetNextSymbolMatch_def Let_def
      by (simp del: upt.simps split: option.split)
  next
    case (Some p)
    then obtain pre where pre: "all_symbols t = pre @ p # post" "completes s t p" "cpl \<noteq> None"
      using assms(3) by auto
    obtain n where n: "nodes t p = Some n" "take (length s) (contents n) = s"
      using pre(2) by (auto simp: completes_def split: option.splits)
    have p: "p \<in> set (chains t (bucket n))" "bucket n < SYMBOL_HASH_SIZE"
      using chainedD(1,2) [OF c n(1)] symbol_hash_less [of "contents n"] by simp_all
    have post: "after_node p (chains t (bucket n)) @ concat (map (chains t) [Suc (bucket n)..<SYMBOL_HASH_SIZE]) = post"
      using all_symbols_ok(1) [OF ok] pre(1) p unfolding all_symbols_def by (intro split_at_bucket) auto
    have "match_from s (Some (contents n)) False cpl t (bucket n) (after_node p (chains t (bucket n))) =
        Inr (first_match s (Some (contents n)) cpl t post)"
      unfolding post [symmetric]
    proof (rule match_from_first)
      show "\<forall>q \<in> set (after_node p (chains t (bucket n))). nodes t q \<noteq> None"
        using all unfolding after_node_def by (metis in_set_dropD set_dropWhileD tl_drop drop_Suc drop_0)
    qed (use all p n pre(3) in \<open>auto simp: previous_def\<close>)
    then show ?thesis
      using assms(2) Some n unfolding GetNextSymbolMatch_def Let_def
      by (simp add: text_of_def split: option.split)
  qed
qed

lemma matches_loop_all:
  assumes "atoms_ok e" and "t = SymbolTable e" and "length (filter (completes s t) post) < n"
    and "case prev of None \<Rightarrow> post = all_symbols t
      | Some p \<Rightarrow> (\<exists>pre. all_symbols t = pre @ p # post) \<and> completes s t p \<and> cpl \<noteq> None"
  shows "matches_loop n s prev cpl reply e =
    Some (Inr (rev (filter (completes s t) post) @ reply,
      fold_cpl (map_option (text_of t) prev) cpl (map (text_of t) (filter (completes s t) post))))"
  using assms(3,4)
proof (induction n arbitrary: prev cpl reply post)
  case (Suc n)
  note g = GetNextSymbolMatch_first [OF assms(1,2) Suc.prems(2)]
  show ?case
  proof (cases "filter (completes s t) post")
    case Nil
    then show ?thesis by (simp add: g first_match_def return_run_def)
  next
    case (Cons p ps)
    obtain us vs where post: "post = us @ p # vs" "completes s t p" "filter (completes s t) vs = ps"
      using Cons by (auto simp: filter_eq_Cons_iff)
    obtain pre where pre: "all_symbols t = pre @ post"
    proof (cases prev)
      case None
      then show ?thesis using that [of "[]"] Suc.prems(2) by simp
    next
      case (Some q)
      then obtain pre where "all_symbols t = pre @ q # post" using Suc.prems(2) by auto
      then show ?thesis using that [of "pre @ [q]"] by simp
    qed
    have cpl: "next_cpl (map_option (text_of t) prev) cpl (text_of t p) \<noteq> None"
      using Suc.prems(2) by (cases prev) (auto simp: next_cpl_def)
    have "\<exists>pre. all_symbols t = pre @ p # vs" using pre post(1) by (metis append.assoc)
    note step = this
    have "length (filter (completes s t) vs) < n" using Suc.prems(1) Cons post(3) by simp
    with Suc.IH [of vs "next_cpl (map_option (text_of t) prev) cpl (text_of t p)" "Some p" "p # reply"]
    show ?thesis
      using step cpl post(2) by (simp add: g first_match_def Cons post(3))
  qed
qed simp

lemma symbol_matches:
  assumes "atoms_ok e" and "ms = filter (completes s (SymbolTable e)) (all_symbols (SymbolTable e))" and "length ms < n"
  shows "FindSymbolMatches n s e =
    Some (Inr (rev ms, length ms, shared_length (map (text_of (SymbolTable e)) ms)))"
  using matches_loop_all [OF assms(1) refl, of s "all_symbols (SymbolTable e)" n None None "[]"] assms(2,3)
  by (simp add: FindSymbolMatches_def fold_cpl_shared return_run_def)

section \<open>The life of a symbol\<close>

lemma nodes_swept_other: "p \<notin> set eds \<Longrightarrow> swept eds h p = h p"
  by (simp add: swept_def)

lemma collect_atoms:
  assumes "atoms_ok e" and "dirty e"
  shows "\<exists>e'. RemoveEphemeralAtoms e = Inr e' \<and> atoms_ok e'
    \<and> nodes (SymbolTable e') = swept (ephemerals (SymbolTable e)) (nodes (SymbolTable e))
    \<and> nodes (FloatTable e') = swept (ephemerals (FloatTable e)) (nodes (FloatTable e))
    \<and> nodes (IntegerTable e') = swept (ephemerals (IntegerTable e)) (nodes (IntegerTable e))
    \<and> nodes (BitMapTable e') = swept (ephemerals (BitMapTable e)) (nodes (BitMapTable e))
    \<and> nodes (ExternalAddressTable e') = swept (ephemerals (ExternalAddressTable e)) (nodes (ExternalAddressTable e))
    \<and> ephemerals (SymbolTable e') = [] \<and> ephemerals (FloatTable e') = [] \<and> ephemerals (IntegerTable e') = []
    \<and> ephemerals (BitMapTable e') = [] \<and> ephemerals (ExternalAddressTable e') = []"
proof -
  obtain ts where s: "RemoveEphemeralHashNodes (SymbolTable e) = Inr ts" "table_ok symbol_hash regular_string ts"
    "nodes ts = swept (ephemerals (SymbolTable e)) (nodes (SymbolTable e))" "ephemerals ts = []"
    using RemoveEphemeralHashNodes_ok assms(1) unfolding atoms_ok_def by blast
  obtain tf where f: "RemoveEphemeralHashNodes (FloatTable e) = Inr tf" "table_ok float_hash (\<lambda>x. \<not> is_nan x) tf"
    "nodes tf = swept (ephemerals (FloatTable e)) (nodes (FloatTable e))" "ephemerals tf = []"
    using RemoveEphemeralHashNodes_ok assms(1) unfolding atoms_ok_def by blast
  obtain ti where i: "RemoveEphemeralHashNodes (IntegerTable e) = Inr ti" "table_ok long_hash regular_long ti"
    "nodes ti = swept (ephemerals (IntegerTable e)) (nodes (IntegerTable e))" "ephemerals ti = []"
    using RemoveEphemeralHashNodes_ok assms(1) unfolding atoms_ok_def by blast
  obtain tb where b: "RemoveEphemeralHashNodes (BitMapTable e) = Inr tb" "table_ok bitmap_hash regular_bitmap tb"
    "nodes tb = swept (ephemerals (BitMapTable e)) (nodes (BitMapTable e))" "ephemerals tb = []"
    using RemoveEphemeralHashNodes_ok assms(1) unfolding atoms_ok_def by blast
  obtain tx where x: "RemoveEphemeralHashNodes (ExternalAddressTable e) = Inr tx"
    "table_ok (\<lambda>x. HashExternalAddress (fst x) EXTERNAL_ADDRESS_HASH_SIZE) (\<lambda>x. snd x < 65536) tx"
    "nodes tx = swept (ephemerals (ExternalAddressTable e)) (nodes (ExternalAddressTable e))" "ephemerals tx = []"
    using RemoveEphemeralHashNodes_ok assms(1) unfolding atoms_ok_def by blast
  have "RemoveEphemeralAtoms e = Inr (e\<lparr>SymbolTable := ts, FloatTable := tf, IntegerTable := ti, BitMapTable := tb,
      ExternalAddressTable := tx\<rparr>)"
    using s(1) f(1) i(1) b(1) x(1) assms(2) by (simp add: RemoveEphemeralAtoms_def Let_def)
  then show ?thesis
    using s(2-) f(2-) i(2-) b(2-) x(2-) by (auto simp: atoms_ok_def)
qed

lemma release_symbol:
  assumes "atoms_ok e" and "nodes (SymbolTable e) p = Some n" and "0 < count n"
    and "markedEphemeral n \<longrightarrow> p \<in> set (ephemerals (SymbolTable e)) \<and> dirty e"
  shows "\<exists>e1 e2. DecrementSymbolCount p e = Inr e1 \<and> atoms_ok e1 \<and> RemoveEphemeralAtoms e1 = Inr e2 \<and> atoms_ok e2
    \<and> FindSymbolHN (contents n) e2 = Inr (if count n = 1 then None else Some p)"
proof -
  have ok: "table_ok symbol_hash regular_string (SymbolTable e)" using assms(1) by (simp add: atoms_ok_def)
  let ?n = "n\<lparr>count := count n - 1, markedEphemeral := markedEphemeral n \<or> count n = 1\<rparr>"
  obtain listed t where t: "decrement_count ''SYMBOL 3'' ''SYMBOL 4'' p (SymbolTable e) = Inr (listed, t)"
    "table_ok symbol_hash regular_string t" "nodes t = (nodes (SymbolTable e))(p := Some ?n)"
    "ephemerals t = (if listed then p # ephemerals (SymbolTable e) else ephemerals (SymbolTable e))"
    "listed = (count n = 1 \<and> \<not> markedEphemeral n)"
    using decrement_count_ok [OF ok assms(2,3)] by blast
  let ?e1 = "e\<lparr>SymbolTable := t, dirty := dirty e \<or> listed\<rparr>"
  have d: "DecrementSymbolCount p e = Inr ?e1" using t(1) by (simp add: DecrementSymbolCount_def)
  have ok1: "atoms_ok ?e1" using assms(1) t(2) by (simp add: atoms_ok_def)
  have reg: "c_string (contents n) = contents n"
    using chainedD(3) [OF table_ok_chained [OF ok] assms(2)] by (simp add: regular_string_def)
  show ?thesis
  proof (cases "dirty ?e1")
    case False
    then have "count n \<noteq> 1" using assms(4) t(5) by auto
    moreover have "FindSymbolHN (contents n) ?e1 = Inr (Some p)"
      unfolding FindSymbolHN_at(1) [OF ok1] reg using t(3) by (simp add: atom_at_def)
    ultimately show ?thesis using d ok1 False by (auto simp: RemoveEphemeralAtoms_def)
  next
    case True
    then obtain e2 where e2: "RemoveEphemeralAtoms ?e1 = Inr e2" "atoms_ok e2"
      "nodes (SymbolTable e2) = swept (ephemerals t) (nodes t)"
      using collect_atoms [OF ok1] by auto
    have "FindSymbolHN (contents n) e2 = Inr (if count n = 1 then None else Some p)"
    proof (cases "count n = 1")
      case one: True
      then have "p \<in> set (ephemerals t)" using t(4,5) assms(4) by auto
      then have gone: "nodes (SymbolTable e2) p = None" using e2(3) t(3) one by (simp add: swept_def)
      have "\<not> atom_at (SymbolTable e2) q (contents n)" for q
      proof
        assume "atom_at (SymbolTable e2) q (contents n)"
        then have "atom_at t q (contents n)"
          unfolding e2(3) atom_at_def swept_def by (auto split: if_splits option.splits)
        moreover have "atom_at t p (contents n)" using t(3) by (simp add: atom_at_def)
        ultimately have "q = p" using atom_at_inj [OF t(2)] by blast
        then show False using \<open>atom_at (SymbolTable e2) q (contents n)\<close> gone by (simp add: atom_at_def)
      qed
      then show ?thesis using FindSymbolHN_at(2) [OF e2(2)] reg one by simp
    next
      case more: False
      then have "atom_at (SymbolTable e2) p (contents n)"
        using e2(3) t(3) assms(3) by (simp add: atom_at_def swept_def)
      then show ?thesis using FindSymbolHN_at(1) [OF e2(2)] reg more by simp
    qed
    then show ?thesis using d ok1 e2 by blast
  qed
qed

section \<open>Properties\<close>

definition empty_data :: symbolData where
  "empty_data = \<lparr>SymbolTable = empty_table, FloatTable = empty_table, IntegerTable = empty_table,
     BitMapTable = empty_table, ExternalAddressTable = empty_table, dirty = False, TrueSymbolHN = None,
     FalseSymbolHN = None, PositiveInfinity = None, NegativeInfinity = None, Zero = None\<rparr>"

lemma empty_data_ok: "atoms_ok empty_data"
  by (simp add: atoms_ok_def empty_data_def empty_table_ok)

lemma empty_data_fresh: "fresh get_struct empty_data"
  by (simp add: fresh_def empty_data_def empty_table_def)

text \<open>A table with one symbol, which is referenced once.\<close>

definition demo_data :: symbolData where
  "demo_data = empty_data\<lparr>SymbolTable := \<lparr>
     nodes = [7 \<mapsto> \<lparr>count = 1, permanent = False, markedEphemeral = False, bucket = 98, contents = [98]\<rparr>],
     chains = (\<lambda>b. if b = 98 then [7] else []), ephemerals = []\<rparr>\<rparr>"

lemma demo_data_ok: "atoms_ok demo_data"
proof -
  have h: "symbol_hash [98] = 98"
    by (simp add: HashSymbol_def tally127_def in_range_def c_string_def)
  have "table_ok symbol_hash regular_string (SymbolTable demo_data)"
    using h by (auto simp: demo_data_def table_ok_def chained_def regular_string_def c_string_def split: if_splits)
  then show ?thesis by (simp add: atoms_ok_def demo_data_def empty_data_def empty_table_ok)
qed

text \<open>
  C10: \<open>EnvAddSymbol\<close> returns the address of the one symbol with the string as its contents: the node that
  is there, with nothing changed, or a new ephemeral node at the allocator's address. \<open>FindSymbolHN\<close> then
  finds that address, every other symbol stays where and as it is, and the tables stay well-formed.
\<close>

theorem symbol_interned:
  assumes "atoms_ok e" and "fresh get_struct e"
  shows "\<exists>p e'. EnvAddSymbol get_struct (Some str) e = Inr (p, e') \<and> atoms_ok e'
    \<and> FindSymbolHN str e' = Inr (Some p)
    \<and> atom_at (SymbolTable e') p (c_string str) \<and> extends (SymbolTable e) (SymbolTable e')
    \<and> (if FindSymbolHN str e = Inr None then p = get_struct e \<and> p \<in> set (ephemerals (SymbolTable e')) \<and> dirty e'
       else e' = e)"
  using add_symbol [OF assms, of str] FindSymbolHN_at(1) by blast

theorem symbol_interned_witness:
  "\<exists>e'. EnvAddSymbol (\<lambda>_. 8) (Some (bytes_of ''b'')) demo_data = Inr (7, e') \<and> atoms_ok e'"
proof -
  have "fresh (\<lambda>_. 8) demo_data"
    by (simp add: fresh_def demo_data_def empty_data_def empty_table_def)
  from symbol_interned [OF demo_data_ok this, of "bytes_of ''b''"]
  obtain p e' where p: "EnvAddSymbol (\<lambda>_. 8) (Some (bytes_of ''b'')) demo_data = Inr (p, e')" "atoms_ok e'"
    "FindSymbolHN (bytes_of ''b'') e' = Inr (Some p)" "extends (SymbolTable demo_data) (SymbolTable e')"
    by blast
  have "atom_at (SymbolTable demo_data) 7 [98]" by (simp add: atom_at_def demo_data_def)
  then have "atom_at (SymbolTable e') 7 (c_string (bytes_of ''b''))"
    using atom_at_extends p(4) by (simp add: bytes_of_def c_string_def)
  then have "FindSymbolHN (bytes_of ''b'') e' = Inr (Some 7)" using FindSymbolHN_at(1) [OF p(2)] by blast
  then show ?thesis using p by auto
qed

text \<open>
  C21: two symbols that \<open>EnvAddSymbol\<close> returns one after the other are the same address exactly when their
  strings are equal, so that the rest of the system compares strings by comparing pointers.
\<close>

theorem symbol_identity:
  assumes "atoms_ok e" and "EnvAddSymbol get_struct (Some s) e = Inr (p, e1)" and "fresh get_struct e"
    and "EnvAddSymbol get_struct (Some u) e1 = Inr (q, e2)" and "fresh get_struct e1"
  shows "p = q \<longleftrightarrow> c_string s = c_string u"
proof -
  have 1: "atoms_ok e1" "atom_at (SymbolTable e1) p (c_string s)"
    using add_symbol [OF assms(1,3), of s] assms(2) by auto
  have 2: "atoms_ok e2" "atom_at (SymbolTable e2) q (c_string u)" "extends (SymbolTable e1) (SymbolTable e2)"
    using add_symbol [OF 1(1) assms(5), of u] assms(4) by auto
  have "table_ok symbol_hash regular_string (SymbolTable e2)" using 2(1) by (simp add: atoms_ok_def)
  then show ?thesis
    using atom_at_inj 2(2) atom_at_extends [OF 1(2) 2(3)] unfolding atom_at_def by (metis option.inject)
qed

theorem symbol_identity_witness:
  "\<exists>p e1 q e2. EnvAddSymbol (\<lambda>e. if nodes (SymbolTable e) 5 = None then 5 else 6) (Some [97]) empty_data = Inr (p, e1)
    \<and> EnvAddSymbol (\<lambda>e. if nodes (SymbolTable e) 5 = None then 5 else 6) (Some [99]) e1 = Inr (q, e2) \<and> p \<noteq> q"
proof -
  let ?get = "\<lambda>e. if nodes (SymbolTable e) 5 = None then 5 else 6 :: nat"
  let ?n = "\<lparr>count = 0, permanent = False, markedEphemeral = True, bucket = 97, contents = [97]\<rparr>"
  let ?e1 = "empty_data\<lparr>SymbolTable := \<lparr>nodes = [5 \<mapsto> ?n], chains = (\<lambda>b. []) (97 := [5]), ephemerals = [5]\<rparr>, dirty := True\<rparr>"
  have e1: "EnvAddSymbol ?get (Some [97]) empty_data = Inr (5, ?e1)"
    by (simp add: EnvAddSymbol_def HashSymbol_def tally127_def in_range_def c_string_def empty_data_def empty_table_def
        add_atom_def AddEphemeralHashNode_def)
  have f: "fresh ?get ?e1" by (simp add: fresh_def empty_data_def empty_table_def)
  have "atoms_ok ?e1" using add_symbol [OF empty_data_ok empty_data_fresh, of ?get "[97]"] e1 by simp
  then obtain q e2 where q: "EnvAddSymbol ?get (Some [99]) ?e1 = Inr (q, e2)"
    using add_symbol [OF _ f, of "[99]"] by blast
  show ?thesis
    using e1 q symbol_identity [OF empty_data_ok e1 empty_data_fresh q f] by (auto simp: c_string_def)
qed

text \<open>
  C17: a collection of the ephemeral atoms frees, in all five tables, exactly the listed atoms that nothing
  references; a listed atom with references loses its mark, every other atom stays as it is, the lists are
  empty and the tables well-formed. The evaluation depth at which an atom was listed plays no part, other than the comments
  of \<open>RemoveEphemeralHashNodes\<close> say.
\<close>

theorem atoms_collected:
  assumes "atoms_ok e" and "dirty e"
  shows "\<exists>e'. RemoveEphemeralAtoms e = Inr e' \<and> atoms_ok e'
    \<and> nodes (SymbolTable e') = swept (ephemerals (SymbolTable e)) (nodes (SymbolTable e))
    \<and> nodes (FloatTable e') = swept (ephemerals (FloatTable e)) (nodes (FloatTable e))
    \<and> nodes (IntegerTable e') = swept (ephemerals (IntegerTable e)) (nodes (IntegerTable e))
    \<and> nodes (BitMapTable e') = swept (ephemerals (BitMapTable e)) (nodes (BitMapTable e))
    \<and> nodes (ExternalAddressTable e') = swept (ephemerals (ExternalAddressTable e)) (nodes (ExternalAddressTable e))
    \<and> ephemerals (SymbolTable e') = [] \<and> ephemerals (FloatTable e') = [] \<and> ephemerals (IntegerTable e') = []
    \<and> ephemerals (BitMapTable e') = [] \<and> ephemerals (ExternalAddressTable e') = []"
  using assms by (rule collect_atoms)

theorem atoms_collected_witness:
  "\<exists>e e'. EnvAddSymbol (\<lambda>_. 5) (Some [97]) demo_data = Inr (5, e) \<and> RemoveEphemeralAtoms e = Inr e'
    \<and> nodes (SymbolTable e') = nodes (SymbolTable demo_data)"
proof -
  let ?n = "\<lparr>count = 0, permanent = False, markedEphemeral = True, bucket = 97, contents = [97]\<rparr>"
  let ?e = "demo_data\<lparr>SymbolTable := \<lparr>nodes = (nodes (SymbolTable demo_data))(5 \<mapsto> ?n),
    chains = (chains (SymbolTable demo_data))(97 := [5]), ephemerals = [5]\<rparr>, dirty := True\<rparr>"
  have e: "EnvAddSymbol (\<lambda>_. 5) (Some [97]) demo_data = Inr (5, ?e)"
    by (simp add: EnvAddSymbol_def HashSymbol_def tally127_def in_range_def c_string_def demo_data_def add_atom_def
        AddEphemeralHashNode_def)
  have "fresh (\<lambda>_. 5) demo_data" by (simp add: fresh_def demo_data_def empty_data_def empty_table_def)
  then have "atoms_ok ?e" using add_symbol [OF demo_data_ok, of "\<lambda>_. 5" "[97]"] e by simp
  from atoms_collected [OF this] obtain e' where "RemoveEphemeralAtoms ?e = Inr e'"
    "nodes (SymbolTable e') = swept [5] ((nodes (SymbolTable demo_data))(5 \<mapsto> ?n))"
    by auto
  moreover have "swept [5] ((nodes (SymbolTable demo_data))(5 \<mapsto> ?n)) = nodes (SymbolTable demo_data)"
    by (auto simp: swept_def demo_data_def fun_eq_iff)
  ultimately show ?thesis using e by auto
qed

text \<open>
  Releasing a symbol that nothing references exits with an error; releasing a referenced one succeeds,
  and after the next collection the symbol is found at its address if it had another reference and is
  gone from the table if it had not.
\<close>

theorem symbol_released:
  assumes "atoms_ok e" and "nodes (SymbolTable e) p = Some n"
    and "markedEphemeral n \<longrightarrow> p \<in> set (ephemerals (SymbolTable e)) \<and> dirty e"
  shows "if count n = 0 then DecrementSymbolCount p e = Inl (Exit ''SYMBOL 4'')
    else \<exists>e1 e2. DecrementSymbolCount p e = Inr e1 \<and> atoms_ok e1 \<and> RemoveEphemeralAtoms e1 = Inr e2 \<and> atoms_ok e2
      \<and> FindSymbolHN (contents n) e2 = Inr (if count n = 1 then None else Some p)"
proof (cases "count n = 0")
  case True
  then show ?thesis using decrement_count_zero [OF assms(2)] by (simp add: DecrementSymbolCount_def)
next
  case False
  have "0 \<le> count n" using assms(1,2) chainedD(4) [OF table_ok_chained] unfolding atoms_ok_def by blast
  then show ?thesis using release_symbol [OF assms(1,2) _ assms(3)] False by simp
qed

theorem symbol_released_witness:
  "\<exists>e1 e2. DecrementSymbolCount 7 demo_data = Inr e1 \<and> RemoveEphemeralAtoms e1 = Inr e2
    \<and> FindSymbolHN [98] e2 = Inr None"
proof -
  have "nodes (SymbolTable demo_data) 7 =
      Some \<lparr>count = 1, permanent = False, markedEphemeral = False, bucket = 98, contents = [98]\<rparr>"
    by (simp add: demo_data_def)
  from symbol_released [OF demo_data_ok this] show ?thesis by auto
qed

lemma singleton_list: "set xs = {x} \<Longrightarrow> distinct xs \<Longrightarrow> xs = [x]"
  by (cases xs) (auto dest: singleton_insert_inj_eq' [THEN iffD1] simp: subset_singleton_iff)

text \<open>
  \<open>FindSymbolMatches\<close> returns, the last one first, all symbols of the table that begin with the search
  string, are not ephemeral and do not begin with a parenthesis, their number, and the length of the prefix
  they share; it returns after one search more than there are matches.
\<close>

theorem symbol_completion:
  assumes "atoms_ok e" and "ms = filter (completes s (SymbolTable e)) (all_symbols (SymbolTable e))" and "length ms < n"
  shows "FindSymbolMatches n s e =
    Some (Inr (rev ms, length ms, shared_length (map (text_of (SymbolTable e)) ms)))"
  using assms by (rule symbol_matches)

theorem symbol_completion_witness:
  "\<exists>ms. set ms = {7} \<and> FindSymbolMatches 2 [98] demo_data = Some (Inr (ms, 1, Some 1))"
proof -
  let ?t = "SymbolTable demo_data"
  have ok: "table_ok symbol_hash regular_string ?t" using demo_data_ok by (simp add: atoms_ok_def)
  have "set (all_symbols ?t) = {7}" "distinct (all_symbols ?t)"
    using all_symbols_ok [OF ok] by (simp_all add: demo_data_def)
  then have "all_symbols ?t = [7]" by (rule singleton_list)
  then have "[7] = filter (completes [98] ?t) (all_symbols ?t)" by (simp add: completes_def demo_data_def)
  from symbol_completion [OF demo_data_ok this, of 2] show ?thesis
    by (intro exI [of _ "[7]"]) (simp add: text_of_def demo_data_def)
qed

section \<open>Limits\<close>

text \<open>A NaN is equal to nothing, itself included: it is added again each time.\<close>

lemma nan_added_again:
  assumes "is_nan x" and "table_ok float_hash (\<lambda>x. \<not> is_nan x) (FloatTable e)" and "fresh get_struct e"
  shows "\<exists>e'. EnvAddDouble get_struct x e = Inr (get_struct e, e')"
proof -
  have "\<forall>p \<in> set (chains (FloatTable e) (float_hash x)). nodes (FloatTable e) p \<noteq> None"
    using chained_chain(2) [OF table_ok_chained [OF assms(2)]] by force
  then show ?thesis
    using find_nan [OF assms(1)] assms(3)
    by (simp add: EnvAddDouble_def add_atom_def AddEphemeralHashNode_def)
qed

text \<open>The least integer has no absolute value, so that its hash is not defined.\<close>

lemma least_integer_overflows: "EnvAddLong get_struct 0x8000000000000000 e = Inl Overflow"
  by (simp add: EnvAddLong_def HashInteger_def)

text \<open>The stored size is 16 bits wide: a bitmap of 65536 bytes is compared with the empty one byte by byte.\<close>

lemma long_bitmap_overruns: "theBitMap \<noteq> [] \<Longrightarrow> same_bitmap theBitMap 65536 ([], 0) = Inl Undefined"
proof -
  have "same_bytes (Suc 65535) [] bs = Inl Undefined" for bs by (simp only: same_bytes.simps)
  then show ?thesis by (simp add: same_bitmap_def)
qed

end
