(* ===== verification/ClipsScanner.thy ===== *)
theory ClipsScanner
  imports AtomTable
begin

text \<open>
  \<open>CLIPS/scanner.c\<close>: \<open>GetToken\<close> and the routines that scan symbols, strings and numbers, with what they
  use of \<open>CLIPS/utility.c\<close> (growing strings), \<open>CLIPS/prntutil.c\<close> (numbers as text), \<open>CLIPS/router.c\<close> and
  \<open>CLIPS/strngrtr.c\<close> (the characters). The characters come from the fast string of \<open>router.c\<close> or from a
  string router; the copy of the token in the pretty print buffer is left out. \<open>isalpha\<close>, \<open>isdigit\<close> and
  \<open>isprint\<close> are those of the C locale. Token values are addresses in the tables of \<open>AtomTable\<close>.
\<close>

section \<open>State\<close>

text \<open>
  \<open>fast\<close>: the source is \<open>FastCharGetString\<close>, which ends at its NUL; otherwise a string router, which knows
  its \<open>maximumPosition\<close>. \<open>counting\<close>: it is the \<open>LineCountRouter\<close>. \<open>messages\<close> are the identifiers of the
  errors and warnings that were printed.
\<close>

record scan =
  fast :: bool
  chars :: "byte list"
  index :: nat
  counting :: bool
  LineCount :: int
  GlobalString :: "byte list option"
  GlobalMax :: nat
  IgnoreCompletionErrors :: bool
  messages :: "string list"
  atom_data :: symbolData

text \<open>
  What the code calls outside of the sources: the allocator, \<open>atof\<close>, and \<open>sprintf\<close> with \<open>%.15g\<close>.
\<close>

record libc =
  allocate :: "symbolData \<Rightarrow> address"
  atof :: "byte list \<Rightarrow> 64 word"
  print_g :: "64 word \<Rightarrow> byte list"

datatype tokenType = UNKNOWN_VALUE | SYMBOL_TOKEN | STRING_TOKEN | INSTANCE_NAME_TOKEN | FLOAT_TOKEN
  | INTEGER_TOKEN | SF_VARIABLE | MF_VARIABLE | GBL_VARIABLE | MF_GBL_VARIABLE | SF_WILDCARD
  | MF_WILDCARD | LPAREN | RPAREN | NOT_CONSTRAINT | OR_CONSTRAINT | AND_CONSTRAINT | STOP

record token =
  token_type :: tokenType
  token_value :: "address option"
  printForm :: "byte list"

abbreviation "EOF \<equiv> (-1 :: int)"

section \<open>Characters\<close>

definition isprint :: "int \<Rightarrow> bool" where
  "isprint c \<longleftrightarrow> 32 \<le> c \<and> c \<le> 126"

definition isdigit :: "int \<Rightarrow> bool" where
  "isdigit c \<longleftrightarrow> 48 \<le> c \<and> c \<le> 57"

definition isalpha :: "int \<Rightarrow> bool" where
  "isalpha c \<longleftrightarrow> 65 \<le> c \<and> c \<le> 90 \<or> 97 \<le> c \<and> c \<le> 122"

text \<open>The macros look at \<open>(unsigned char) ch\<close>.\<close>

definition IsUTF8MultiByteStart :: "int \<Rightarrow> bool" where
  "IsUTF8MultiByteStart ch \<longleftrightarrow> 0xC0 \<le> ch mod 256 \<and> ch mod 256 \<le> 0xF7"

definition IsUTF8MultiByteContinuation :: "int \<Rightarrow> bool" where
  "IsUTF8MultiByteContinuation ch \<longleftrightarrow> 0x80 \<le> ch mod 256 \<and> ch mod 256 \<le> 0xBF"

definition GetcString :: "scan \<Rightarrow> int \<times> scan" where
  "GetcString s =
     (if length (chars s) \<le> index s then (EOF, s\<lparr>index := index s + 1\<rparr>)
      else (uint (chars s ! index s), s\<lparr>index := index s + 1\<rparr>))"

definition UngetcString :: "scan \<Rightarrow> scan" where
  "UngetcString s = (if 0 < index s then s\<lparr>index := index s - 1\<rparr> else s)"

text \<open>The fast string is read past its NUL if nothing was put back after the end was met.\<close>

definition EnvGetcRouter :: "scan \<Rightarrow> (int \<times> scan) res" where
  "EnvGetcRouter s =
     bind_res
       (if fast s then
          if length (chars s) < index s then Inl Undefined
          else let inchar = (if index s = length (chars s) then 0 else uint (chars s ! index s)) in
            Inr (if inchar = 0 then EOF else inchar, s\<lparr>index := index s + 1\<rparr>)
        else Inr (GetcString s))
       (\<lambda>(inchar, s).
          Inr (inchar, if (inchar = 13 \<or> inchar = 10) \<and> counting s
                       then s\<lparr>LineCount := LineCount s + 1\<rparr> else s))"

definition EnvUngetcRouter :: "int \<Rightarrow> scan \<Rightarrow> scan" where
  "EnvUngetcRouter ch s =
     (let s = (if (ch = 13 \<or> ch = 10) \<and> counting s then s\<lparr>LineCount := LineCount s - 1\<rparr> else s) in
      if fast s then (if 0 < index s then s\<lparr>index := index s - 1\<rparr> else s) else UngetcString s)"

lemma EnvGetcRouter_moves:
  assumes "EnvGetcRouter s = Inr (c, s')"
  shows "index s' = Suc (index s)" "chars s' = chars s" "fast s' = fast s" "c \<noteq> EOF \<Longrightarrow> index s < length (chars s)"
  using assms by (auto simp: EnvGetcRouter_def GetcString_def Let_def split: if_splits)

section \<open>Growing strings\<close>

text \<open>
  A string that is being built: its text, None for a null pointer, and the size of its block. The character
  and the NUL behind it must be inside the block.
\<close>

type_synonym growing = "byte list option \<times> nat"

definition text_so_far :: "byte list option \<Rightarrow> byte list" where
  "text_so_far str = (case str of None \<Rightarrow> [] | Some t \<Rightarrow> t)"

function drop_continuation :: "byte list \<Rightarrow> byte list" where
  "drop_continuation t =
     (if 1 < length t \<and> IsUTF8MultiByteContinuation (uint (last t)) then drop_continuation (butlast t) else t)"
  by pat_completeness auto
termination by (relation "measure length") auto

declare drop_continuation.simps [simp del]

definition ExpandStringWithChar :: "int \<Rightarrow> growing \<Rightarrow> nat \<Rightarrow> growing res" where
  "ExpandStringWithChar inchar g newSize =
     (let (str, max) = g; t = text_so_far str;
          max = (if max \<le> length t + 1 then newSize else max) in
      if inchar \<noteq> 8 then
        if length t + 1 < max then Inr (Some (t @ [word_of_int inchar]), max) else Inl Undefined
      else if length t < max then Inr (Some (butlast (drop_continuation t)), max)
      else Inl Undefined)"

definition expand_global :: "int \<Rightarrow> scan \<Rightarrow> scan res" where
  "expand_global inchar s =
     bind_res (ExpandStringWithChar inchar (GlobalString s, GlobalMax s) (GlobalMax s + 80)) (\<lambda>(str, max).
       Inr (s\<lparr>GlobalString := str, GlobalMax := max\<rparr>))"

lemma expand_global_moves:
  assumes "expand_global c s = Inr s'"
  shows "index s' = index s" "chars s' = chars s" "fast s' = fast s"
  using assms by (auto simp: expand_global_def bind_res_eq_Inr)

definition AppendToString :: "byte list \<Rightarrow> growing \<Rightarrow> growing" where
  "AppendToString appendStr g =
     (let (str, max) = g; t = text_so_far str;
          max = (if max < length appendStr + length t + 1 then length appendStr + length t + 1 else max) in
      (Some (t @ appendStr), max))"

definition ValueToString :: "address \<Rightarrow> scan \<Rightarrow> byte list res" where
  "ValueToString p s =
     (case nodes (SymbolTable (atom_data s)) p of None \<Rightarrow> Inl Undefined | Some n \<Rightarrow> Inr (contents n))"

definition ValueToDouble :: "address \<Rightarrow> scan \<Rightarrow> 64 word res" where
  "ValueToDouble p s =
     (case nodes (FloatTable (atom_data s)) p of None \<Rightarrow> Inl Undefined | Some n \<Rightarrow> Inr (contents n))"

definition ValueToLong :: "address \<Rightarrow> scan \<Rightarrow> 64 word res" where
  "ValueToLong p s =
     (case nodes (IntegerTable (atom_data s)) p of None \<Rightarrow> Inl Undefined | Some n \<Rightarrow> Inr (contents n))"

definition add_symbol_atom :: "libc \<Rightarrow> byte list option \<Rightarrow> scan \<Rightarrow> (address \<times> scan) res" where
  "add_symbol_atom lib str s =
     bind_res (EnvAddSymbol (allocate lib) str (atom_data s)) (\<lambda>(p, e). Inr (p, s\<lparr>atom_data := e\<rparr>))"

text \<open>A string that is added to the symbol table for its \<open>contents\<close>.\<close>

definition interned_text :: "libc \<Rightarrow> byte list option \<Rightarrow> scan \<Rightarrow> (byte list \<times> scan) res" where
  "interned_text lib str s =
     bind_res (add_symbol_atom lib str s) (\<lambda>(p, s).
     bind_res (ValueToString p s) (\<lambda>t. Inr (t, s)))"

definition AppendStrings :: "libc \<Rightarrow> byte list \<Rightarrow> byte list \<Rightarrow> scan \<Rightarrow> (byte list \<times> scan) res" where
  "AppendStrings lib str1 str2 s =
     interned_text lib (fst (AppendToString str2 (AppendToString str1 (None, 0)))) s"

fun print_form_loop :: "byte list \<Rightarrow> growing \<Rightarrow> growing res" where
  "print_form_loop [] g = Inr g"
| "print_form_loop (c # cs) g =
     bind_res
       (if c = 34 \<or> c = 92
        then bind_res (ExpandStringWithChar 92 g (snd g + 80)) (\<lambda>g. ExpandStringWithChar (sint c) g (snd g + 80))
        else ExpandStringWithChar (sint c) g (snd g + 80))
       (print_form_loop cs)"

definition StringPrintForm :: "libc \<Rightarrow> byte list \<Rightarrow> scan \<Rightarrow> (byte list \<times> scan) res" where
  "StringPrintForm lib str s =
     bind_res (ExpandStringWithChar 34 (None, 0) 80) (\<lambda>g.
     bind_res (print_form_loop str g) (\<lambda>g.
     bind_res (ExpandStringWithChar 34 g (snd g + 80)) (\<lambda>g. interned_text lib (fst g) s)))"

text \<open>The buffer of \<open>FloatToString\<close> has 40 bytes; \<open>%.15g\<close> prints at most 22 of them.\<close>

definition FloatToString :: "libc \<Rightarrow> 64 word \<Rightarrow> scan \<Rightarrow> (byte list \<times> scan) res" where
  "FloatToString lib number s =
     (let floatString = print_g lib number in
      if 46 \<in> set floatString \<or> 101 \<in> set floatString then interned_text lib (Some floatString) s
      else interned_text lib (Some (floatString @ [46, 48])) s)"

definition LongIntegerToString :: "libc \<Rightarrow> 64 word \<Rightarrow> scan \<Rightarrow> (byte list \<times> scan) res" where
  "LongIntegerToString lib number s = interned_text lib (Some (int_text (sint number))) s"

section \<open>Symbols\<close>

definition delimiter :: "int \<Rightarrow> bool" where
  "delimiter inchar \<longleftrightarrow> inchar = 60 \<or> inchar = 34 \<or> inchar = 40 \<or> inchar = 41 \<or> inchar = 38 \<or>
     inchar = 124 \<or> inchar = 126 \<or> inchar = 32 \<or> inchar = 59"

definition symbol_char :: "int \<Rightarrow> bool" where
  "symbol_char inchar \<longleftrightarrow> \<not> delimiter inchar \<and>
     (isprint inchar \<or> IsUTF8MultiByteStart inchar \<or> IsUTF8MultiByteContinuation inchar)"

lemma symbol_char_EOF [simp]: "\<not> symbol_char EOF"
  by (simp add: symbol_char_def isprint_def IsUTF8MultiByteStart_def IsUTF8MultiByteContinuation_def)

text \<open>The loop of \<open>ScanSymbol\<close>; the result has the delimiter and \<open>count\<close>.\<close>

function scan_symbol_loop :: "nat \<Rightarrow> scan \<Rightarrow> (int \<times> nat \<times> scan) res" where
  "scan_symbol_loop cnt s =
     bind_res (EnvGetcRouter s) (\<lambda>(inchar, s).
       if symbol_char inchar
       then bind_res (expand_global inchar s) (\<lambda>s. scan_symbol_loop (cnt + 1) s)
       else Inr (inchar, cnt, s))"
  by pat_completeness auto
termination
proof (relation "measure (\<lambda>(cnt, s). length (chars s) - index s)", goal_cases)
  case (2 cnt s x inchar s1 s2)
  then have "EnvGetcRouter s = Inr (inchar, s1)" "inchar \<noteq> EOF" by auto
  then show ?case using EnvGetcRouter_moves [of s inchar s1] expand_global_moves [OF 2(4)] by simp
qed simp

declare scan_symbol_loop.simps [simp del]

definition ScanSymbol :: "libc \<Rightarrow> nat \<Rightarrow> scan \<Rightarrow> (address \<times> tokenType \<times> scan) res" where
  "ScanSymbol lib cnt s =
     bind_res (scan_symbol_loop cnt s) (\<lambda>(inchar, cnt, s).
       let s = EnvUngetcRouter inchar s in
       if 2 < cnt then
         bind_res (get_at (text_so_far (GlobalString s)) 0) (\<lambda>first_char.
         bind_res (get_at (text_so_far (GlobalString s)) (cnt - 1)) (\<lambda>last_char.
           if first_char = 91 \<and> last_char = 93 then
             bind_res (add_symbol_atom lib (map_option (\<lambda>t. tl (take (cnt - 1) t)) (GlobalString s)) s)
               (\<lambda>(symbol, s). Inr (symbol, INSTANCE_NAME_TOKEN, s))
           else
             bind_res (add_symbol_atom lib (GlobalString s) s) (\<lambda>(symbol, s). Inr (symbol, SYMBOL_TOKEN, s))))
       else
         bind_res (add_symbol_atom lib (GlobalString s) s) (\<lambda>(symbol, s). Inr (symbol, SYMBOL_TOKEN, s)))"

section \<open>Strings\<close>

function scan_string_loop :: "int \<Rightarrow> growing \<Rightarrow> scan \<Rightarrow> (int \<times> growing \<times> scan) res" where
  "scan_string_loop inchar g s =
     (if inchar \<noteq> 34 \<and> inchar \<noteq> EOF then
        bind_res (if inchar = 92 then EnvGetcRouter s else Inr (inchar, s)) (\<lambda>(inchar, s).
        bind_res (ExpandStringWithChar inchar g (snd g + 80)) (\<lambda>g.
        bind_res (EnvGetcRouter s) (\<lambda>(inchar, s). scan_string_loop inchar g s)))
      else Inr (inchar, g, s))"
  by pat_completeness auto
termination
proof (relation "measure (\<lambda>(inchar, g, s). 2 * (length (chars s) - index s) + (if inchar = EOF then 0 else 1))",
    goal_cases)
  case (2 inchar g s x c1 s1 g1 y c2 s2)
  then have g: "EnvGetcRouter s1 = Inr (c2, s2)" by simp
  have "index s \<le> index s1 \<and> chars s1 = chars s"
    using 2(2,3) EnvGetcRouter_moves(1,2) [of s c1 s1] by (auto split: if_splits)
  then show ?case
    using EnvGetcRouter_moves [OF g] 2(1) by auto
qed simp

declare scan_string_loop.simps [simp del]

definition ScanString :: "libc \<Rightarrow> scan \<Rightarrow> (address \<times> scan) res" where
  "ScanString lib s =
     bind_res (EnvGetcRouter s) (\<lambda>(inchar, s).
     bind_res (scan_string_loop inchar (None, 0) s) (\<lambda>(inchar, g, s).
       let s = (if inchar = EOF \<and> \<not> IgnoreCompletionErrors s
                then s\<lparr>messages := messages s @ [''SCANNER1'']\<rparr> else s) in
       add_symbol_atom lib (case fst g of None \<Rightarrow> Some [] | Some t \<Rightarrow> Some t) s))"

section \<open>Numbers\<close>

text \<open>
  The loop variables of \<open>ScanNumber\<close> besides \<open>phase\<close> and \<open>inchar\<close>; \<open>GlobalString\<close> is in the state.
\<close>

record number =
  digits_count :: nat
  digitFound :: bool
  processFloat :: bool

definition push_char :: "int \<Rightarrow> int \<Rightarrow> number \<Rightarrow> scan \<Rightarrow> (int \<times> number \<times> scan) res" where
  "push_char phase inchar v s =
     bind_res (expand_global inchar s) (\<lambda>s. Inr (phase, v\<lparr>digits_count := digits_count v + 1\<rparr>, s))"

definition number_end :: "int \<Rightarrow> bool" where
  "number_end inchar \<longleftrightarrow> delimiter inchar \<or> \<not> isprint inchar \<and> \<not> IsUTF8MultiByteStart inchar"

text \<open>One turn of the loop, by its phase; phases 5 and 9 end it.\<close>

definition number_step :: "int \<Rightarrow> int \<Rightarrow> number \<Rightarrow> scan \<Rightarrow> (int \<times> number \<times> scan) res" where
  "number_step phase inchar v s =
     (if phase = -1 then
        if isdigit inchar then push_char 0 inchar (v\<lparr>digitFound := True\<rparr>) s
        else if inchar = 43 \<or> inchar = 45 then push_char 0 inchar v s
        else if inchar = 46 then push_char 1 inchar (v\<lparr>processFloat := True\<rparr>) s
        else if inchar = 69 \<or> inchar = 101 then push_char 2 inchar (v\<lparr>processFloat := True\<rparr>) s
        else if delimiter inchar \<or> \<not> isprint inchar then Inr (5, v, s)
        else push_char 9 inchar v s
      else if phase = 0 then
        if isdigit inchar then push_char 0 inchar (v\<lparr>digitFound := True\<rparr>) s
        else if inchar = 46 then push_char 1 inchar (v\<lparr>processFloat := True\<rparr>) s
        else if inchar = 69 \<or> inchar = 101 then push_char 2 inchar (v\<lparr>processFloat := True\<rparr>) s
        else if number_end inchar then Inr (5, v, s)
        else push_char 9 inchar v s
      else if phase = 1 then
        if isdigit inchar then push_char 1 inchar (v\<lparr>digitFound := True\<rparr>) s
        else if inchar = 69 \<or> inchar = 101 then push_char 2 inchar v s
        else if number_end inchar then Inr (5, v, s)
        else push_char 9 inchar v s
      else if phase = 2 then
        if isdigit inchar \<or> inchar = 43 \<or> inchar = 45 then push_char 3 inchar v s
        else if number_end inchar then Inr (5, v\<lparr>digitFound := False\<rparr>, s)
        else push_char 9 inchar v s
      else if phase = 3 then
        if isdigit inchar then push_char 3 inchar v s
        else if number_end inchar then
          bind_res (get_at (text_so_far (GlobalString s)) (digits_count v - 1)) (\<lambda>c.
            Inr (5, if c = 43 \<or> c = 45 then v\<lparr>digitFound := False\<rparr> else v, s))
        else push_char 9 inchar v s
      else Inr (phase, v, s))"

lemma push_char_moves:
  assumes "push_char phase inchar v s = Inr (phase', v', s')"
  shows "phase' = phase \<and> index s' = index s \<and> chars s' = chars s \<and> fast s' = fast s"
proof -
  from assms obtain s1 where "expand_global inchar s = Inr s1" "s' = s1" "phase' = phase"
    by (auto simp: push_char_def bind_res_eq_Inr)
  then show ?thesis using expand_global_moves [of inchar s s1] by simp
qed

text \<open>The ways a turn of the loop ends; no character is added at the end of the input.\<close>

definition turn :: "int \<Rightarrow> scan \<Rightarrow> (int \<times> number \<times> scan) res \<Rightarrow> bool" where
  "turn inchar s x \<longleftrightarrow> (\<forall>r. x = Inr r \<longrightarrow>
     (\<exists>p v. p \<in> {0, 1, 2, 3, 9} \<and> push_char p inchar v s = Inr r \<and> inchar \<noteq> EOF) \<or> (\<exists>v. r = (5, v, s)))"

lemma turn_push: "p \<in> {0, 1, 2, 3, 9} \<Longrightarrow> inchar \<noteq> EOF \<Longrightarrow> turn inchar s (push_char p inchar v s)"
  by (auto simp: turn_def)

lemma turn_end: "turn inchar s (Inr (5, v, s))"
  by (simp add: turn_def)

lemma turn_if: "(b \<Longrightarrow> turn inchar s x) \<Longrightarrow> (\<not> b \<Longrightarrow> turn inchar s y) \<Longrightarrow> turn inchar s (if b then x else y)"
  by simp

lemma turn_bind: "(\<And>c. turn inchar s (f c)) \<Longrightarrow> turn inchar s (bind_res x f)"
  by (auto simp: turn_def bind_res_eq_Inr)

lemma number_step_turn:
  assumes "phase \<in> {-1, 0, 1, 2, 3}"
  shows "turn inchar s (number_step phase inchar v s)"
proof (cases "inchar = EOF")
  case True
  have "\<not> isdigit EOF" "number_end EOF" "\<not> isprint EOF"
    by (simp_all add: isdigit_def number_end_def isprint_def IsUTF8MultiByteStart_def)
  then have "number_step p EOF v s = Inr (5, if p = 2 then v\<lparr>digitFound := False\<rparr> else v, s)" if "p \<in> {-1, 0, 1, 2}" for p
    using that by (elim insertE emptyE) (simp_all add: number_step_def)
  moreover have "turn EOF s (number_step 3 EOF v s)"
    using \<open>\<not> isdigit EOF\<close> \<open>number_end EOF\<close> by (simp add: number_step_def turn_bind turn_end)
  ultimately show ?thesis using assms True turn_end [of EOF s] by (metis insert_iff)
next
  case False
  then show ?thesis
    unfolding number_step_def using assms by (intro turn_if turn_push turn_bind turn_end) simp_all
qed

lemma number_step_cases:
  assumes "number_step phase inchar v s = Inr r" and "phase \<in> {-1, 0, 1, 2, 3}"
  obtains (push) p v1 where "p \<in> {0, 1, 2, 3, 9}" "push_char p inchar v1 s = Inr r" "inchar \<noteq> EOF"
    | (finish) v1 where "r = (5, v1, s)"
proof -
  have "(\<exists>p v. p \<in> {0, 1, 2, 3, 9} \<and> push_char p inchar v s = Inr r \<and> inchar \<noteq> EOF) \<or> (\<exists>v. r = (5, v, s))"
    using number_step_turn [OF assms(2), of inchar s v, unfolded turn_def, rule_format, OF assms(1)] .
  then show thesis
  proof (elim disjE exE conjE)
    fix p v1 assume "p \<in> {0, 1, 2, 3, 9}" "push_char p inchar v1 s = Inr r" "inchar \<noteq> EOF"
    then show thesis by (rule push)
  qed (rule finish)
qed

lemma number_step_EOF:
  assumes "number_step phase EOF v s = Inr (phase', v', s')" and "phase \<in> {-1, 0, 1, 2, 3}"
  shows "phase' = 5"
  by (rule number_step_cases [OF assms]) simp_all

lemma number_step_moves:
  assumes "number_step phase inchar v s = Inr (phase', v', s')" and "phase \<in> {-1, 0, 1, 2, 3}"
  shows "index s' = index s \<and> chars s' = chars s \<and> fast s' = fast s \<and> phase' \<in> {0, 1, 2, 3, 5, 9}"
  using assms
proof (cases rule: number_step_cases)
  case (push p v1)
  from push_char_moves [OF push(2)] push(1) show ?thesis by blast
next
  case finish
  then show ?thesis by simp
qed

function number_loop :: "int \<Rightarrow> int \<Rightarrow> number \<Rightarrow> scan \<Rightarrow> (int \<times> int \<times> number \<times> scan) res" where
  "number_loop phase inchar v s =
     (if phase \<in> {-1, 0, 1, 2, 3} then
        bind_res (number_step phase inchar v s) (\<lambda>(phase, v, s).
          if phase \<noteq> 5 \<and> phase \<noteq> 9
          then bind_res (EnvGetcRouter s) (\<lambda>(inchar, s). number_loop phase inchar v s)
          else Inr (phase, inchar, v, s))
      else Inr (phase, inchar, v, s))"
  by pat_completeness auto
termination
proof (relation "measure (\<lambda>(phase, inchar, v, s). 2 * (length (chars s) - index s) + (if inchar = EOF then 0 else 1))",
    goal_cases)
  case (2 phase inchar v s x phase1 y v1 s1 z c s2)
  then have n: "number_step phase inchar v s = Inr (phase1, v1, s1)" and g: "EnvGetcRouter s1 = Inr (c, s2)" by simp_all
  have "inchar \<noteq> EOF" using number_step_EOF [of phase v s phase1 v1 s1] n 2(1) 2(5) by auto
  then show ?case using number_step_moves [OF n 2(1)] EnvGetcRouter_moves [OF g] by auto
qed simp

declare number_loop.simps [simp del]

text \<open>\<open>strtoll\<close> on a sign and digits: the value, clamped to the range, and whether \<open>errno\<close> is set.\<close>

definition digits_value :: "byte list \<Rightarrow> int" where
  "digits_value ds = foldl (\<lambda>v d. v * 10 + (uint d - 48)) 0 (takeWhile (\<lambda>d. isdigit (uint d)) ds)"

definition strtoll :: "byte list \<Rightarrow> int \<times> bool" where
  "strtoll t =
     (let v = (case t of [] \<Rightarrow> 0
          | c # cs \<Rightarrow> if c = 45 then - digits_value cs else if c = 43 then digits_value cs else digits_value t) in
      if v < - (2 ^ 63) then (- (2 ^ 63), True) else if 2 ^ 63 \<le> v then (2 ^ 63 - 1, True) else (v, False))"

definition symbol_token :: "libc \<Rightarrow> nat \<Rightarrow> scan \<Rightarrow> (token \<times> scan) res" where
  "symbol_token lib cnt s =
     bind_res (ScanSymbol lib cnt s) (\<lambda>(p, t, s).
     bind_res (ValueToString p s) (\<lambda>f. Inr (\<lparr>token_type = t, token_value = Some p, printForm = f\<rparr>, s)))"

text \<open>What \<open>ScanNumber\<close> does after its loop.\<close>

definition number_token :: "libc \<Rightarrow> int \<times> int \<times> number \<times> scan \<Rightarrow> (token \<times> scan) res" where
  "number_token lib = (\<lambda>(phase, inchar, v, s).
       if phase = 9 then symbol_token lib (digits_count v) s
       else
         let s = EnvUngetcRouter inchar s in
         if \<not> digitFound v then
           bind_res (add_symbol_atom lib (GlobalString s) s) (\<lambda>(p, s).
           bind_res (ValueToString p s) (\<lambda>f.
             Inr (\<lparr>token_type = SYMBOL_TOKEN, token_value = Some p, printForm = f\<rparr>, s)))
         else if processFloat v then
           let fvalue = atof lib (text_so_far (GlobalString s)) in
           bind_res (EnvAddDouble (allocate lib) fvalue (atom_data s)) (\<lambda>(p, e).
           let s = s\<lparr>atom_data := e\<rparr> in
           bind_res (ValueToDouble p s) (\<lambda>d.
           bind_res (FloatToString lib d s) (\<lambda>(f, s).
             Inr (\<lparr>token_type = FLOAT_TOKEN, token_value = Some p, printForm = f\<rparr>, s))))
         else
           let (lvalue, errno) = strtoll (text_so_far (GlobalString s));
               s = (if errno then s\<lparr>messages := messages s @ [''SCANNER1 warning'']\<rparr> else s) in
           bind_res (EnvAddLong (allocate lib) (word_of_int lvalue) (atom_data s)) (\<lambda>(p, e).
           let s = s\<lparr>atom_data := e\<rparr> in
           bind_res (ValueToLong p s) (\<lambda>l.
           bind_res (LongIntegerToString lib l s) (\<lambda>(f, s).
             Inr (\<lparr>token_type = INTEGER_TOKEN, token_value = Some p, printForm = f\<rparr>, s)))))"

definition ScanNumber :: "libc \<Rightarrow> scan \<Rightarrow> (token \<times> scan) res" where
  "ScanNumber lib s =
     bind_res (EnvGetcRouter s) (\<lambda>(inchar, s).
     bind_res (number_loop (-1) inchar \<lparr>digits_count = 0, digitFound = False, processFloat = False\<rparr> s)
       (number_token lib))"

section \<open>GetToken\<close>

function skip_comment :: "int \<Rightarrow> scan \<Rightarrow> scan res" where
  "skip_comment inchar s =
     (if inchar \<noteq> 10 \<and> inchar \<noteq> 13 \<and> inchar \<noteq> EOF
      then bind_res (EnvGetcRouter s) (\<lambda>(inchar, s). skip_comment inchar s)
      else Inr s)"
  by pat_completeness auto
termination
proof (relation "measure (\<lambda>(inchar, s). 2 * (length (chars s) - index s) + (if inchar = EOF then 0 else 1))", goal_cases)
  case (2 inchar s x c s1)
  then have "EnvGetcRouter s = Inr (c, s1)" by simp
  from EnvGetcRouter_moves [OF this] 2(1) show ?case by auto
qed simp

declare skip_comment.simps [simp del]

lemma skip_comment_moves:
  "skip_comment inchar s = Inr s' \<Longrightarrow> index s \<le> index s' \<and> chars s' = chars s \<and> fast s' = fast s"
proof (induction inchar s rule: skip_comment.induct)
  case (1 inchar s)
  show ?case
  proof (cases "inchar \<noteq> 10 \<and> inchar \<noteq> 13 \<and> inchar \<noteq> EOF")
    case True
    then obtain c s1 where g: "EnvGetcRouter s = Inr (c, s1)" "skip_comment c s1 = Inr s'"
      using "1.prems" by (subst (asm) skip_comment.simps) (auto simp: bind_res_eq_Inr)
    from "1.IH" [OF True g(1) refl g(2)] EnvGetcRouter_moves(1-3) [OF g(1)] show ?thesis by simp
  next
    case False
    then show ?thesis using "1.prems" by (subst (asm) skip_comment.simps) auto
  qed
qed

definition blank :: "int \<Rightarrow> bool" where
  "blank inchar \<longleftrightarrow> inchar = 32 \<or> inchar = 10 \<or> inchar = 12 \<or> inchar = 13 \<or> inchar = 59 \<or> inchar = 9"

text \<open>Blanks and comments; the character that ends a comment is not looked at again.\<close>

function skip_blanks :: "int \<Rightarrow> scan \<Rightarrow> (int \<times> scan) res" where
  "skip_blanks inchar s =
     (if blank inchar then
        bind_res (if inchar = 59 then bind_res (EnvGetcRouter s) (\<lambda>(inchar, s). skip_comment inchar s) else Inr s) (\<lambda>s.
        bind_res (EnvGetcRouter s) (\<lambda>(inchar, s). skip_blanks inchar s))
      else Inr (inchar, s))"
  by pat_completeness auto
termination
proof (relation "measure (\<lambda>(inchar, s). 2 * (length (chars s) - index s) + (if inchar = EOF then 0 else 1))", goal_cases)
  case (2 inchar s s1 x c s2)
  then have g: "EnvGetcRouter s1 = Inr (c, s2)" by simp
  have "index s \<le> index s1 \<and> chars s1 = chars s"
  proof (cases "inchar = 59")
    case True
    then obtain d s0 where d: "EnvGetcRouter s = Inr (d, s0)" "skip_comment d s0 = Inr s1"
      using 2(2) by (auto simp: bind_res_eq_Inr)
    then show ?thesis using EnvGetcRouter_moves(1,2) [OF d(1)] skip_comment_moves [OF d(2)] by simp
  next
    case False
    then show ?thesis using 2(2) by simp
  qed
  then show ?case using EnvGetcRouter_moves [OF g] 2(1) by (auto simp: blank_def)
qed simp

declare skip_blanks.simps [simp del]

definition fixed_token :: "libc \<Rightarrow> tokenType \<Rightarrow> string \<Rightarrow> string \<Rightarrow> scan \<Rightarrow> (token \<times> scan) res" where
  "fixed_token lib t name form s =
     bind_res (add_symbol_atom lib (Some (bytes_of name)) s) (\<lambda>(p, s).
       Inr (\<lparr>token_type = t, token_value = Some p, printForm = bytes_of form\<rparr>, s))"

text \<open>
  The variable after \<open>?\<close> or \<open>$?\<close> (\<open>prefix\<close>), of type \<open>plain\<close>, or \<open>global\<close> if it is written between stars. The
  name of a global variable is what \<open>GlobalString\<close> has between them.
\<close>

definition variable_token :: "libc \<Rightarrow> tokenType \<Rightarrow> tokenType \<Rightarrow> string \<Rightarrow> scan \<Rightarrow> (token \<times> scan) res" where
  "variable_token lib plain global prefix s =
     bind_res (ScanSymbol lib 0 s) (\<lambda>(p, t, s).
     bind_res (ValueToString p s) (\<lambda>name.
       if name \<noteq> [] \<and> hd name = 42 \<and> 1 < length name \<and> last name = 42 then
         bind_res (AppendStrings lib (bytes_of prefix) name s) (\<lambda>(f, s).
         bind_res (add_symbol_atom lib (map_option (\<lambda>t. tl (butlast (c_string t))) (GlobalString s)) s) (\<lambda>(p, s).
           Inr (\<lparr>token_type = global, token_value = Some p, printForm = f\<rparr>, s)))
       else
         bind_res (AppendStrings lib (bytes_of prefix) name s) (\<lambda>(f, s).
           Inr (\<lparr>token_type = plain, token_value = Some p, printForm = f\<rparr>, s))))"

definition variable_start :: "int \<Rightarrow> bool" where
  "variable_start inchar \<longleftrightarrow> isalpha inchar \<or> IsUTF8MultiByteStart inchar \<or> inchar = 42"

definition question_token :: "libc \<Rightarrow> scan \<Rightarrow> (token \<times> scan) res" where
  "question_token lib s =
     bind_res (EnvGetcRouter s) (\<lambda>(inchar, s).
       if variable_start inchar
       then variable_token lib SF_VARIABLE GBL_VARIABLE ''?'' (EnvUngetcRouter inchar s)
       else
         bind_res (add_symbol_atom lib (Some (bytes_of ''?'')) s) (\<lambda>(p, s).
           Inr (\<lparr>token_type = SF_WILDCARD, token_value = Some p, printForm = bytes_of ''?''\<rparr>,
                EnvUngetcRouter inchar s)))"

definition dollar_token :: "libc \<Rightarrow> scan \<Rightarrow> (token \<times> scan) res" where
  "dollar_token lib s =
     bind_res (EnvGetcRouter s) (\<lambda>(inchar, s).
       if inchar = 63 then
         bind_res (EnvGetcRouter s) (\<lambda>(inchar, s).
           if variable_start inchar
           then variable_token lib MF_VARIABLE MF_GBL_VARIABLE ''$?'' (EnvUngetcRouter inchar s)
           else
             bind_res (add_symbol_atom lib (Some (bytes_of ''$?'')) s) (\<lambda>(p, s).
               Inr (\<lparr>token_type = MF_WILDCARD, token_value = Some p, printForm = bytes_of ''$?''\<rparr>,
                    EnvUngetcRouter inchar s)))
       else
         bind_res (expand_global 36 s) (\<lambda>s.
         bind_res (symbol_token lib 1 (EnvUngetcRouter inchar s)) (\<lambda>(t, s).
           Inr (t\<lparr>token_type := SYMBOL_TOKEN\<rparr>, s))))"

text \<open>The token that begins with a given character, after the blanks.\<close>

definition token_from :: "libc \<Rightarrow> int \<Rightarrow> scan \<Rightarrow> (token \<times> scan) res" where
  "token_from lib inchar s =
     (if isalpha inchar \<or> IsUTF8MultiByteStart inchar
      then bind_res (symbol_token lib 0 (EnvUngetcRouter inchar s)) (\<lambda>(t, s).
        Inr (t\<lparr>token_type := SYMBOL_TOKEN\<rparr>, s))
      else if isdigit inchar then ScanNumber lib (EnvUngetcRouter inchar s)
      else if inchar = 34 then
        bind_res (ScanString lib s) (\<lambda>(p, s).
        bind_res (ValueToString p s) (\<lambda>str.
        bind_res (StringPrintForm lib str s) (\<lambda>(f, s).
          Inr (\<lparr>token_type = STRING_TOKEN, token_value = Some p, printForm = f\<rparr>, s))))
      else if inchar = 45 \<or> inchar = 46 \<or> inchar = 43 then ScanNumber lib (EnvUngetcRouter inchar s)
      else if inchar = 63 then question_token lib s
      else if inchar = 36 then dollar_token lib s
      else if inchar = 60 then
        bind_res (expand_global 60 s) (\<lambda>s.
        bind_res (symbol_token lib 1 s) (\<lambda>(t, s). Inr (t\<lparr>token_type := SYMBOL_TOKEN\<rparr>, s)))
      else if inchar = 40 then fixed_token lib LPAREN ''('' ''('' s
      else if inchar = 41 then fixed_token lib RPAREN '')'' '')'' s
      else if inchar = 126 then fixed_token lib NOT_CONSTRAINT ''~'' ''~'' s
      else if inchar = 124 then fixed_token lib OR_CONSTRAINT ''|'' ''|'' s
      else if inchar = 38 then fixed_token lib AND_CONSTRAINT ''&'' ''&'' s
      else if inchar = EOF \<or> inchar = 0 \<or> inchar = 3 then fixed_token lib STOP ''stop'' '''' s
      else if isprint inchar then symbol_token lib 0 (EnvUngetcRouter inchar s)
      else Inr (\<lparr>token_type = UNKNOWN_VALUE, token_value = None,
                 printForm = bytes_of ''<<<unprintable character>>>''\<rparr>, s))"

definition GetToken :: "libc \<Rightarrow> scan \<Rightarrow> (token \<times> scan) res" where
  "GetToken lib s =
     bind_res (EnvGetcRouter (s\<lparr>GlobalString := map_option (\<lambda>t. []) (GlobalString s), GlobalMax := 0\<rparr>)) (\<lambda>(inchar, s).
     bind_res (skip_blanks inchar s) (\<lambda>(inchar, s).
     bind_res (token_from lib inchar s) (\<lambda>(t, s).
       Inr (t, if GlobalString s \<noteq> None then s\<lparr>GlobalString := None, GlobalMax := 0\<rparr> else s))))"

definition CopyToken :: "token \<Rightarrow> token \<Rightarrow> token" where
  "CopyToken destination source =
     destination\<lparr>token_type := token_type source, token_value := token_value source, printForm := printForm source\<rparr>"

section \<open>Line count\<close>

definition ResetLineCount :: "scan \<Rightarrow> scan" where
  "ResetLineCount s = s\<lparr>LineCount := 0\<rparr>"

definition GetLineCount :: "scan \<Rightarrow> int" where
  "GetLineCount s = LineCount s"

definition SetLineCount :: "int \<Rightarrow> scan \<Rightarrow> int \<times> scan" where
  "SetLineCount v s = (LineCount s, s\<lparr>LineCount := v\<rparr>)"

definition IncrementLineCount :: "scan \<Rightarrow> scan" where
  "IncrementLineCount s = s\<lparr>LineCount := LineCount s + 1\<rparr>"

definition DecrementLineCount :: "scan \<Rightarrow> scan" where
  "DecrementLineCount s = s\<lparr>LineCount := LineCount s - 1\<rparr>"

end
