(* ===== verification/Scanning.thy ===== *)
theory Scanning
  imports ClipsScanner Interning
begin

text \<open>
  The characters \<open>GetToken\<close> reads, and what it does with symbols, blanks, comments and strings: lemmas on the
  model of \<open>CLIPS/scanner.c\<close> in \<open>ClipsScanner\<close>. \<open>input\<close> is what is left to read, \<open>advance\<close> the state after some
  of it, \<open>holding\<close> a state with a text in \<open>GlobalString\<close>.
\<close>

section \<open>Reading characters\<close>

definition input :: "scan \<Rightarrow> byte list" where
  "input s = drop (index s) (chars s)"

text \<open>The rest of the input is there and has no NUL.\<close>

definition readable :: "scan \<Rightarrow> bool" where
  "readable s \<longleftrightarrow> index s \<le> length (chars s) \<and> 0 \<notin> set (input s)"

definition next_char :: "byte list \<Rightarrow> int" where
  "next_char bs = (case bs of [] \<Rightarrow> EOF | b # _ \<Rightarrow> uint b)"

lemma next_char_simps [simp]: "next_char [] = EOF" "next_char (b # bs) = uint b"
  by (simp_all add: next_char_def)

definition newlines :: "byte list \<Rightarrow> nat" where
  "newlines bs = length (filter (\<lambda>b. b = 10 \<or> b = 13) bs)"

lemma newlines_append [simp]: "newlines (xs @ ys) = newlines xs + newlines ys"
  by (simp add: newlines_def)

text \<open>The state after \<open>n\<close> more characters.\<close>

definition advance :: "nat \<Rightarrow> scan \<Rightarrow> scan" where
  "advance n s = s\<lparr>index := index s + n,
     LineCount := LineCount s + (if counting s then int (newlines (take n (input s))) else 0)\<rparr>"

lemma advance_fields [simp]:
  "chars (advance n s) = chars s" "index (advance n s) = index s + n" "GlobalString (advance n s) = GlobalString s"
  "GlobalMax (advance n s) = GlobalMax s" "atom_data (advance n s) = atom_data s" "counting (advance n s) = counting s"
  "fast (advance n s) = fast s" "messages (advance n s) = messages s"
  "IgnoreCompletionErrors (advance n s) = IgnoreCompletionErrors s"
  by (simp_all add: advance_def)

lemma input_advance [simp]: "input (advance n s) = drop n (input s)"
  by (simp add: input_def add.commute)

lemma input_update [simp]:
  "input (s\<lparr>GlobalString := g\<rparr>) = input s" "input (s\<lparr>GlobalMax := m\<rparr>) = input s"
  "input (s\<lparr>atom_data := e\<rparr>) = input s" "input (s\<lparr>messages := ms\<rparr>) = input s"
  by (simp_all add: input_def)

lemma readable_update [simp]:
  "readable (s\<lparr>GlobalString := g\<rparr>) = readable s" "readable (s\<lparr>GlobalMax := m\<rparr>) = readable s"
  "readable (s\<lparr>atom_data := e\<rparr>) = readable s" "readable (s\<lparr>messages := ms\<rparr>) = readable s"
  by (simp_all add: readable_def)

lemma advance_update:
  "advance n (s\<lparr>GlobalString := g\<rparr>) = (advance n s)\<lparr>GlobalString := g\<rparr>"
  "advance n (s\<lparr>GlobalMax := m\<rparr>) = (advance n s)\<lparr>GlobalMax := m\<rparr>"
  "advance n (s\<lparr>atom_data := e\<rparr>) = (advance n s)\<lparr>atom_data := e\<rparr>"
  by (simp_all add: advance_def)

lemma advance_advance [simp]: "advance m (advance n s) = advance (n + m) s"
  by (simp add: advance_def input_def take_add add.commute [of _ "index s"] add.assoc [symmetric])

lemma advance_0 [simp]: "advance 0 s = s"
  by (simp add: advance_def newlines_def)

lemma length_input: "readable s \<Longrightarrow> length (chars s) = index s + length (input s)"
  by (simp add: readable_def input_def)

lemma readable_advance: "readable s \<Longrightarrow> n \<le> length (input s) \<Longrightarrow> readable (advance n s)"
  using length_input [of s] by (auto simp: readable_def dest: in_set_dropD)

lemma newline_iff: "uint (b :: byte) = 13 \<or> uint b = 10 \<longleftrightarrow> b = 10 \<or> b = 13"
proof -
  have "uint b = 13 \<longleftrightarrow> b = 13" "uint b = 10 \<longleftrightarrow> b = 10"
    using word_uint_eq_iff [of b 13] word_uint_eq_iff [of b 10] by simp_all
  then show ?thesis by blast
qed

lemma getc_index: "i < (n :: nat) \<Longrightarrow> (n < i) = False" "i < n \<Longrightarrow> (i = n) = False" "i < n \<Longrightarrow> (n \<le> i) = False"
  by auto

lemma getc:
  assumes "readable s"
  shows "EnvGetcRouter s = Inr (next_char (input s), advance 1 s)"
proof (cases "input s")
  case Nil
  then have "index s = length (chars s)" using assms length_input [of s] by simp
  then show ?thesis
    using Nil by (simp add: EnvGetcRouter_def GetcString_def advance_def newlines_def Let_def)
next
  case (Cons b bs)
  then have i: "index s < length (chars s)" using assms length_input [of s] by simp
  have n: "chars s ! index s = b" using hd_drop_conv_nth [OF i] Cons by (simp add: input_def)
  have "b \<noteq> 0" using assms Cons by (auto simp: readable_def)
  then have "uint b \<noteq> 0" by (simp only: unsigned_eq_0_iff not_False_eq_True)
  then have "EnvGetcRouter s = Inr (uint b, let s' = s\<lparr>index := index s + 1\<rparr> in
      if (uint b = 13 \<or> uint b = 10) \<and> counting s then s'\<lparr>LineCount := LineCount s + 1\<rparr> else s')"
    by (cases "fast s"; simp only: EnvGetcRouter_def GetcString_def Let_def bind_res_Inr if_True if_False
      less_irrefl not_less_iff_gr_or_eq prod.case simp_thms getc_index [OF i] n)
      simp_all
  also have "\<dots> = Inr (uint b, advance 1 s)"
    using newline_iff [of b] by (simp only: advance_def Cons newlines_def) simp
  finally show ?thesis using Cons by simp
qed

lemma ungetc:
  assumes "readable s"
  shows "EnvUngetcRouter (next_char (input s)) (advance 1 s) = s"
proof (cases "input s")
  case Nil
  then show ?thesis
    by (simp add: EnvUngetcRouter_def UngetcString_def advance_def newlines_def Let_def)
next
  case (Cons b bs)
  then show ?thesis
    using newline_iff [of b] by (simp add: EnvUngetcRouter_def UngetcString_def advance_def newlines_def Let_def)
qed

text \<open>The same after a change of the fields that reading does not look at.\<close>

lemma ungetc_update:
  "EnvUngetcRouter c (s\<lparr>GlobalString := g\<rparr>) = (EnvUngetcRouter c s)\<lparr>GlobalString := g\<rparr>"
  "EnvUngetcRouter c (s\<lparr>GlobalMax := m\<rparr>) = (EnvUngetcRouter c s)\<lparr>GlobalMax := m\<rparr>"
  by (simp_all add: EnvUngetcRouter_def UngetcString_def Let_def)

section \<open>Growing strings\<close>

lemma expand_char:
  assumes "length (text_so_far str) \<le> mx" and "c \<noteq> 8"
  shows "\<exists>mx'. ExpandStringWithChar c (str, mx) (mx + 80) = Inr (Some (text_so_far str @ [word_of_int c]), mx')
    \<and> length (text_so_far str) + 1 \<le> mx'"
  using assms by (auto simp: ExpandStringWithChar_def Let_def)

text \<open>\<open>s\<close> with the text \<open>t\<close> in \<open>GlobalString\<close>, in a block of \<open>m\<close> bytes.\<close>

definition holding :: "byte list \<Rightarrow> nat \<Rightarrow> scan \<Rightarrow> scan" where
  "holding t m s = s\<lparr>GlobalString := Some t, GlobalMax := m\<rparr>"

lemma holding_fields [simp]:
  "input (holding t m s) = input s" "readable (holding t m s) = readable s" "GlobalString (holding t m s) = Some t"
  "GlobalMax (holding t m s) = m" "atom_data (holding t m s) = atom_data s" "holding t m (holding t' m' s) = holding t m s"
  "advance n (holding t m s) = holding t m (advance n s)" "messages (holding t m s) = messages s"
  "EnvUngetcRouter c (holding t m s) = holding t m (EnvUngetcRouter c s)"
  by (simp_all add: holding_def advance_update ungetc_update)

lemma expand_holding:
  assumes "length t \<le> m" and "c \<noteq> 8"
  shows "\<exists>m'. expand_global c (holding t m s) = Inr (holding (t @ [word_of_int c]) m' s) \<and> length t + 1 \<le> m'"
  using expand_char [of "Some t" m c] assms by (auto simp: expand_global_def text_so_far_def holding_def)

text \<open>No text yet.\<close>

definition idle :: "scan \<Rightarrow> bool" where
  "idle s \<longleftrightarrow> GlobalString s = None \<and> GlobalMax s = 0"

lemma expand_idle:
  assumes "idle s" and "c \<noteq> 8"
  shows "\<exists>m'. expand_global c s = Inr (holding [word_of_int c] m' s) \<and> 1 \<le> m'"
  using expand_char [of None 0 c] assms by (auto simp: expand_global_def text_so_far_def holding_def idle_def)

section \<open>Symbols\<close>

lemma symbol_char_not_8: "symbol_char (uint b) \<Longrightarrow> uint b \<noteq> 8"
  by (auto simp: symbol_char_def isprint_def IsUTF8MultiByteStart_def IsUTF8MultiByteContinuation_def)

text \<open>The characters of a symbol, up to a delimiter.\<close>

lemma scan_symbol_holding:
  assumes "input s = w @ rest" and "readable s" and "\<forall>b \<in> set w. symbol_char (uint b)"
    and "\<not> symbol_char (next_char rest)" and "length t \<le> m"
  shows "\<exists>m'. scan_symbol_loop k (holding t m s)
    = Inr (next_char rest, k + length w, holding (t @ w) m' (advance (length w + 1) s))"
  using assms
proof (induction w arbitrary: k t m s)
  case Nil
  then show ?case by (simp add: scan_symbol_loop.simps getc exI [of _ m])
next
  case (Cons b w)
  have c: "symbol_char (uint b)" "uint b \<noteq> 8" using Cons.prems(3) symbol_char_not_8 by auto
  obtain m1 where m1: "expand_global (uint b) (holding t m (advance 1 s)) = Inr (holding (t @ [b]) m1 (advance 1 s))"
    "length t + 1 \<le> m1"
    using expand_holding [OF Cons.prems(5) c(2), of "advance 1 s"] by auto
  have "input (advance 1 s) = w @ rest" "readable (advance 1 s)"
    using Cons.prems(1) readable_advance [OF Cons.prems(2), of 1] by simp_all
  from Cons.IH [OF this _ Cons.prems(4), of "t @ [b]" m1 "k + 1"] Cons.prems(3) m1
  show ?case using Cons.prems(1,2) c
    by (subst scan_symbol_loop.simps) (simp add: getc)
qed

text \<open>The state before a symbol: the text so far is \<open>t\<close>, maybe none.\<close>

definition with_text :: "byte list \<Rightarrow> scan \<Rightarrow> scan \<Rightarrow> bool" where
  "with_text t s0 s \<longleftrightarrow> (t = [] \<and> s = s0 \<and> idle s0) \<or> (\<exists>m. s = holding t m s0 \<and> length t \<le> m)"

lemma expand_with_text:
  assumes "with_text t s0 s" and "c \<noteq> 8"
  shows "\<exists>m. expand_global c s = Inr (holding (t @ [word_of_int c]) m s0) \<and> length t + 1 \<le> m"
  using assms expand_idle [of s c] expand_holding [of t _ c s0] by (auto simp: with_text_def)

lemma with_text_advance: "with_text t s0 s \<Longrightarrow> with_text t (advance n s0) (advance n s)"
  by (auto simp: with_text_def idle_def)

lemma with_text_fields:
  assumes "with_text t s0 s"
  shows "input s = input s0" "readable s = readable s0" "atom_data s = atom_data s0"
  using assms by (auto simp: with_text_def)

lemma scan_symbol:
  assumes "with_text t s0 s" and "input s0 = w @ rest" and "readable s0" and "\<forall>b \<in> set w. symbol_char (uint b)"
    and "\<not> symbol_char (next_char rest)" and "t @ w \<noteq> []"
  shows "\<exists>m. scan_symbol_loop k s = Inr (next_char rest, k + length w, holding (t @ w) m (advance (length w + 1) s0))"
proof -
  consider "t = []" "s = s0" "idle s0" | m where "s = holding t m s0" "length t \<le> m"
    using assms(1) by (auto simp: with_text_def)
  then show ?thesis
  proof cases
    case 1
    then obtain b v where w: "w = b # v" using assms(6) by (cases w) auto
    have c: "symbol_char (uint b)" "uint b \<noteq> 8" using assms(4) w symbol_char_not_8 by auto
    have "idle (advance 1 s0)" using 1 by (simp add: idle_def)
    from expand_idle [OF this c(2)] obtain m1 where m1: "expand_global (uint b) (advance 1 s0)
        = Inr (holding [b] m1 (advance 1 s0))" "1 \<le> m1" by auto
    have "input (advance 1 s0) = v @ rest" "readable (advance 1 s0)"
      using assms(2) w readable_advance [OF assms(3), of 1] by simp_all
    from scan_symbol_holding [OF this _ assms(5), of "[b]" m1 "k + 1"] assms(4) w m1(2)
    show ?thesis using assms(2,3) 1 w c m1(1)
      by (subst scan_symbol_loop.simps) (simp add: getc)
  next
    case 2
    then show ?thesis using scan_symbol_holding [OF assms(2-5)] by blast
  qed
qed

section \<open>Atoms of tokens\<close>

definition allocates :: "libc \<Rightarrow> bool" where
  "allocates lib \<longleftrightarrow> (\<forall>e. atoms_ok e \<longrightarrow> fresh (allocate lib) e)"

text \<open>More atoms: every symbol, float and integer is where it was.\<close>

definition grown :: "symbolData \<Rightarrow> symbolData \<Rightarrow> bool" where
  "grown e e' \<longleftrightarrow> atoms_ok e' \<and> extends (SymbolTable e) (SymbolTable e') \<and> extends (FloatTable e) (FloatTable e')
     \<and> extends (IntegerTable e) (IntegerTable e')"

lemma extends_refl [simp]: "extends t t"
  by (simp add: extends_def)

lemma extends_trans: "extends t u \<Longrightarrow> extends u v \<Longrightarrow> extends t v"
  by (simp add: extends_def)

lemma grown_trans: "grown e e' \<Longrightarrow> grown e' e'' \<Longrightarrow> grown e e''"
  unfolding grown_def using extends_trans by metis

lemma grown_ok: "grown e e' \<Longrightarrow> atoms_ok e'"
  by (simp add: grown_def)

lemma ValueToString_at: "atom_at (SymbolTable (atom_data s)) p t \<Longrightarrow> ValueToString p s = Inr t"
  by (auto simp: ValueToString_def atom_at_def)

lemma add_symbol_atom:
  assumes "allocates lib" and "atoms_ok (atom_data s)"
  shows "\<exists>p e. add_symbol_atom lib (Some t) s = Inr (p, s\<lparr>atom_data := e\<rparr>) \<and> grown (atom_data s) e
    \<and> atom_at (SymbolTable e) p (c_string t)"
proof -
  have "fresh (allocate lib) (atom_data s)" using assms by (simp add: allocates_def)
  from add_symbol [OF assms(2) this, of t] obtain p e where
    e: "EnvAddSymbol (allocate lib) (Some t) (atom_data s) = Inr (p, e)" "atoms_ok e"
      "atom_at (SymbolTable e) p (c_string t)" "extends (SymbolTable (atom_data s)) (SymbolTable e)" by blast
  moreover have "FloatTable e = FloatTable (atom_data s)" "IntegerTable e = IntegerTable (atom_data s)"
    using e(1) by (auto simp: EnvAddSymbol_def Let_def bind_res_eq_Inr)
  ultimately show ?thesis by (auto simp: add_symbol_atom_def grown_def)
qed

lemma interned_text:
  assumes "allocates lib" and "atoms_ok (atom_data s)"
  shows "\<exists>e. interned_text lib (Some t) s = Inr (c_string t, s\<lparr>atom_data := e\<rparr>) \<and> grown (atom_data s) e"
proof -
  obtain p e where "add_symbol_atom lib (Some t) s = Inr (p, s\<lparr>atom_data := e\<rparr>)" "grown (atom_data s) e"
    "atom_at (SymbolTable e) p (c_string t)" using add_symbol_atom [OF assms] by blast
  then show ?thesis
    using ValueToString_at [of "s\<lparr>atom_data := e\<rparr>"] by (intro exI [of _ e]) (simp add: interned_text_def)
qed

lemma c_string_nonzero: "0 \<notin> set t \<Longrightarrow> c_string t = t"
  by (simp add: c_string_def takeWhile_eq_all_conv) metis

section \<open>ScanSymbol\<close>

text \<open>What the code takes an instance name for.\<close>

definition bracketed :: "byte list \<Rightarrow> bool" where
  "bracketed w \<longleftrightarrow> 2 < length w \<and> hd w = 91 \<and> last w = 93"

definition word_type :: "byte list \<Rightarrow> tokenType" where
  "word_type w = (if bracketed w then INSTANCE_NAME_TOKEN else SYMBOL_TOKEN)"

definition word_text :: "byte list \<Rightarrow> byte list" where
  "word_text w = (if bracketed w then butlast (tl w) else w)"

lemma take_length_1: "w \<noteq> [] \<Longrightarrow> tl (take (length w - 1) w) = butlast (tl w)"
  by (metis butlast_conv_take butlast_tl)

lemma set_word_text: "set (word_text w) \<subseteq> set w"
  by (cases w) (auto simp: word_text_def dest: in_set_butlastD)

text \<open>The state after a token whose text was collected.\<close>

definition scanned :: "byte list \<Rightarrow> nat \<Rightarrow> symbolData \<Rightarrow> scan \<Rightarrow> scan" where
  "scanned t m e s = holding t m (s\<lparr>atom_data := e\<rparr>)"

lemma scan_symbol_atom:
  assumes "with_text t s0 s" and "input s0 = w @ rest" and "readable s0" and "\<forall>b \<in> set w. symbol_char (uint b)"
    and "\<not> symbol_char (next_char rest)" and "t @ w \<noteq> []" and "0 \<notin> set t"
    and "allocates lib" and "atoms_ok (atom_data s0)"
  shows "\<exists>p m e. ScanSymbol lib (length t) s = Inr (p, word_type (t @ w), scanned (t @ w) m e (advance (length w) s0))
    \<and> grown (atom_data s0) e \<and> atom_at (SymbolTable e) p (word_text (t @ w))"
proof -
  let ?v = "t @ w" and ?s = "advance (length w) s0"
  obtain m where m: "scan_symbol_loop (length t) s = Inr (next_char rest, length ?v, holding ?v m (advance (length w + 1) s0))"
    using scan_symbol [OF assms(1-6), of "length t"] by auto
  have r: "readable ?s" using readable_advance [OF assms(3)] assms(2) by simp
  have u: "EnvUngetcRouter (next_char rest) (advance (length w + 1) s0) = ?s"
    using ungetc [OF r] assms(2) by simp
  let ?h = "holding ?v m ?s"
  have ok: "atoms_ok (atom_data ?h)" using assms(9) by simp
  have "0 \<notin> set ?v" using assms(2,3,7) by (auto simp: readable_def)
  then have zt: "c_string (word_text ?v) = word_text ?v" using set_word_text [of ?v] by (blast intro: c_string_nonzero)
  obtain p e where p: "add_symbol_atom lib (Some (word_text ?v)) ?h = Inr (p, ?h\<lparr>atom_data := e\<rparr>)"
    "grown (atom_data s0) e" "atom_at (SymbolTable e) p (word_text ?v)"
    using add_symbol_atom [OF assms(8) ok, of "word_text ?v", unfolded zt holding_fields advance_fields] by blast
  have b: "?v ! 0 = hd ?v" "?v ! (length ?v - 1) = last ?v"
    using assms(6) by (simp_all only: hd_conv_nth last_conv_nth not_False_eq_True)
  have "ScanSymbol lib (length t) s = Inr (p, word_type ?v, ?h\<lparr>atom_data := e\<rparr>)"
  proof (cases "2 < length ?v")
    case True
    then have g: "get_at ?v 0 = Inr (hd ?v)" "get_at ?v (length ?v - 1) = Inr (last ?v)"
      by (simp_all only: get_at_def b if_True diff_less zero_less_one length_greater_0_conv not_False_eq_True assms(6) order.strict_trans [OF zero_less_numeral True])
    show ?thesis
    proof (cases "bracketed ?v")
      case T2: True
      then have "hd ?v = 91" "last ?v = 93" by (simp_all only: bracketed_def)
      then show ?thesis using m u g p(1) True T2 take_length_1 [OF assms(6)]
        by (simp only: ScanSymbol_def bind_res_Inr prod.case Let_def holding_fields text_so_far_def option.case if_True
            option.map word_type_def word_text_def simp_thms)
    next
      case False
      then have "\<not> (hd ?v = 91 \<and> last ?v = 93)" using True by (simp only: bracketed_def simp_thms)
      then show ?thesis using m u g p(1) True False
        by (simp only: ScanSymbol_def bind_res_Inr prod.case Let_def holding_fields text_so_far_def option.case if_True
            if_False word_type_def word_text_def)
    qed
  next
    case False
    then have "\<not> bracketed ?v" by (simp only: bracketed_def simp_thms)
    then show ?thesis using m u p(1) False
      by (simp only: ScanSymbol_def bind_res_Inr prod.case Let_def holding_fields if_False word_type_def word_text_def)
  qed
  moreover have "?h\<lparr>atom_data := e\<rparr> = scanned ?v m e ?s" by (simp add: scanned_def holding_def)
  ultimately show ?thesis using p(2,3) by (metis (no_types))
qed

lemma symbol_token_ok:
  assumes "with_text t s0 s" and "input s0 = w @ rest" and "readable s0" and "\<forall>b \<in> set w. symbol_char (uint b)"
    and "\<not> symbol_char (next_char rest)" and "t @ w \<noteq> []" and "0 \<notin> set t"
    and "allocates lib" and "atoms_ok (atom_data s0)"
  shows "\<exists>p m e. symbol_token lib (length t) s
      = Inr (\<lparr>token_type = word_type (t @ w), token_value = Some p, printForm = word_text (t @ w)\<rparr>,
          scanned (t @ w) m e (advance (length w) s0))
    \<and> grown (atom_data s0) e \<and> atom_at (SymbolTable e) p (word_text (t @ w))"
proof -
  obtain p m e where *: "ScanSymbol lib (length t) s = Inr (p, word_type (t @ w), scanned (t @ w) m e (advance (length w) s0))"
    "grown (atom_data s0) e" "atom_at (SymbolTable e) p (word_text (t @ w))"
    using scan_symbol_atom [OF assms] by blast
  moreover have "ValueToString p (scanned (t @ w) m e (advance (length w) s0)) = Inr (word_text (t @ w))"
    using *(3) by (intro ValueToString_at) (simp add: scanned_def)
  ultimately show ?thesis by (simp add: symbol_token_def) blast
qed

section \<open>GetToken\<close>

definition finish :: "scan \<Rightarrow> scan" where
  "finish s = (if GlobalString s \<noteq> None then s\<lparr>GlobalString := None, GlobalMax := 0\<rparr> else s)"

lemma finish_scanned: "idle s \<Longrightarrow> finish (scanned t m e s) = s\<lparr>atom_data := e\<rparr>"
  by (cases s) (simp add: finish_def scanned_def holding_def idle_def)

lemma finish_idle: "idle s \<Longrightarrow> finish s = s"
  by (simp add: finish_def idle_def)

lemma idle_advance [simp]: "idle (advance n s) = idle s" "idle (s\<lparr>atom_data := e\<rparr>) = idle s"
  by (simp_all add: idle_def)

lemma idle_with_text: "idle s \<Longrightarrow> with_text [] s s"
  by (simp add: with_text_def)

lemma GetToken_from:
  assumes "idle s" and "readable s" and "\<not> blank (next_char (input s))"
  shows "GetToken lib s = bind_res (token_from lib (next_char (input s)) (advance 1 s)) (\<lambda>(t, s). Inr (t, finish s))"
proof -
  have "s\<lparr>GlobalString := map_option (\<lambda>t. []) (GlobalString s), GlobalMax := 0\<rparr> = s"
    using assms(1) by (cases s) (simp add: idle_def)
  then show ?thesis
    unfolding finish_def using assms by (simp add: GetToken_def getc skip_blanks.simps)
qed

section \<open>Blanks and comments\<close>

text \<open>Blanks and whole comments; the flag says that a comment has begun.\<close>

fun blanks :: "bool \<Rightarrow> byte list \<Rightarrow> bool" where
  "blanks comment [] \<longleftrightarrow> \<not> comment"
| "blanks True (b # bs) \<longleftrightarrow> blanks (b \<noteq> 10 \<and> b \<noteq> 13) bs"
| "blanks False (b # bs) \<longleftrightarrow> (if b = 59 then blanks True bs else blank (uint b) \<and> blanks False bs)"

lemma uint_char_eq [simp]:
  "uint (b :: byte) = 10 \<longleftrightarrow> b = 10" "uint b = 13 \<longleftrightarrow> b = 13" "uint b = 59 \<longleftrightarrow> b = 59" "uint b = 34 \<longleftrightarrow> b = 34"
  "uint b = 92 \<longleftrightarrow> b = 92" "uint b = 8 \<longleftrightarrow> b = 8"
  using word_uint_eq_iff [of b 10] word_uint_eq_iff [of b 13] word_uint_eq_iff [of b 59] word_uint_eq_iff [of b 34]
    word_uint_eq_iff [of b 92] word_uint_eq_iff [of b 8] by simp_all

lemma uint_not_EOF [simp]: "uint b \<noteq> EOF"
proof
  assume "uint b = EOF"
  with uint_ge_0 [of b] show False by (simp only:)
qed

lemma readable_tl: "readable s \<Longrightarrow> input s = b # bs \<Longrightarrow> readable (advance 1 s) \<and> input (advance 1 s) = bs"
  using readable_advance [of s 1] by simp

lemma skip_blanks_step:
  assumes "readable s" and "input s = b # bs" and "blank (uint b)" and "b \<noteq> 59"
  shows "skip_blanks (next_char (input s)) (advance 1 s) = skip_blanks (next_char (input (advance 1 s))) (advance 1 (advance 1 s))"
  using assms readable_tl [OF assms(1,2)] by (subst skip_blanks.simps) (simp add: getc)

lemma skip_blanks_comment:
  assumes "readable s" and "input s = 59 # bs"
  shows "skip_blanks (next_char (input s)) (advance 1 s)
    = bind_res (skip_comment (next_char (input (advance 1 s))) (advance 1 (advance 1 s))) (\<lambda>s.
        bind_res (EnvGetcRouter s) (\<lambda>(c, s). skip_blanks c s))"
  using assms readable_tl [OF assms] by (subst skip_blanks.simps) (simp add: getc blank_def)

lemma skip_comment_step:
  assumes "readable s" and "input s = b # bs" and "b \<noteq> 10 \<and> b \<noteq> 13"
  shows "skip_comment (next_char (input s)) (advance 1 s) = skip_comment (next_char (input (advance 1 s))) (advance 1 (advance 1 s))"
  using assms readable_tl [OF assms(1,2)] by (subst skip_comment.simps) (simp add: getc)

lemma blanks_skipped:
  assumes "readable s" and "input s = bl @ rest"
  shows "blanks False bl \<Longrightarrow> skip_blanks (next_char (input s)) (advance 1 s)
      = skip_blanks (next_char rest) (advance (length bl + 1) s)"
    "blanks True bl \<Longrightarrow> bind_res (skip_comment (next_char (input s)) (advance 1 s)) (\<lambda>s.
        bind_res (EnvGetcRouter s) (\<lambda>(c, s). skip_blanks c s))
      = skip_blanks (next_char rest) (advance (length bl + 1) s)"
  using assms
proof (induction bl arbitrary: s)
  case Nil
  { case 1 then show ?case by simp }
  { case 2 then show ?case by simp }
next
  case (Cons b bl)
  { case 1
    let ?s = "advance 1 s"
    have r: "readable ?s" "input ?s = bl @ rest" using readable_tl [of s b "bl @ rest"] 1(2,3) by simp_all
    show ?case
    proof (cases "b = 59")
      case True
      then show ?thesis using skip_blanks_comment [of s "bl @ rest"] Cons.IH(2) [OF _ r] 1 by simp
    next
      case False
      then show ?thesis using skip_blanks_step [of s b "bl @ rest"] Cons.IH(1) [OF _ r] 1 by simp
    qed }
  { case 2
    let ?s = "advance 1 s"
    have r: "readable ?s" "input ?s = bl @ rest" using readable_tl [of s b "bl @ rest"] 2(2,3) by simp_all
    show ?case
    proof (cases "b \<noteq> 10 \<and> b \<noteq> 13")
      case True
      then show ?thesis using skip_comment_step [of s b "bl @ rest"] Cons.IH(2) [OF _ r] 2 by simp
    next
      case False
      then have "skip_comment (next_char (input s)) (advance 1 s) = Inr ?s"
        using 2(3) by (subst skip_comment.simps) auto
      then show ?thesis using Cons.IH(1) [OF _ r] 2 False r by (simp add: getc)
    qed }
qed

lemma idle_start:
  assumes "idle s"
  shows "s\<lparr>GlobalString := map_option (\<lambda>t. []) (GlobalString s), GlobalMax := 0\<rparr> = s"
  using assms by (cases s) (simp add: idle_def)

lemma GetToken_blanks:
  assumes "idle s" and "readable s" and "input s = bl @ rest" and "blanks False bl"
  shows "GetToken lib s = GetToken lib (advance (length bl) s)"
proof -
  have r: "readable (advance (length bl) s)" using readable_advance assms(2,3) by simp
  have i: "idle (advance (length bl) s)" using assms(1) by simp
  from blanks_skipped(1) [OF assms(2-4)] show ?thesis
    unfolding GetToken_def idle_start [OF assms(1)] idle_start [OF i] getc [OF assms(2)] getc [OF r]
    using assms(3) by simp
qed

section \<open>Strings\<close>

definition escape :: "byte \<Rightarrow> byte list" where
  "escape b = (if b = 34 \<or> b = 92 then [92, b] else [b])"

definition quoted :: "byte list \<Rightarrow> byte list" where
  "quoted str = 34 # concat (map escape str) @ [34]"

text \<open>A string may hold any bytes but NUL and the backspace.\<close>

definition plain_string :: "byte list \<Rightarrow> bool" where
  "plain_string str \<longleftrightarrow> 0 \<notin> set str \<and> 8 \<notin> set str"

lemma text_so_far_simps [simp]: "text_so_far None = []" "text_so_far (Some t) = t"
  by (simp_all add: text_so_far_def)

lemma expand_byte:
  assumes "length (text_so_far (fst g)) \<le> snd g" and "b \<noteq> 8"
  shows "\<exists>m. ExpandStringWithChar (uint b) g (snd g + 80) = Inr (Some (text_so_far (fst g) @ [b]), m)
    \<and> length (text_so_far (fst g)) + 1 \<le> m"
  using expand_char [of "fst g" "snd g" "uint b"] assms by simp

lemma scan_string_step:
  assumes "readable s" and "input s = escape b @ bs" and "length (text_so_far (fst g)) \<le> snd g" and "b \<noteq> 8"
  shows "\<exists>m. scan_string_loop (next_char (input s)) g (advance 1 s)
      = scan_string_loop (next_char bs) (Some (text_so_far (fst g) @ [b]), m) (advance (length (escape b) + 1) s)
    \<and> length (text_so_far (fst g)) + 1 \<le> m"
proof -
  obtain m where m: "ExpandStringWithChar (uint b) g (snd g + 80) = Inr (Some (text_so_far (fst g) @ [b]), m)"
    "length (text_so_far (fst g)) + 1 \<le> m" using expand_byte [OF assms(3,4)] by blast
  have r: "readable (advance (length (escape b)) s)" using readable_advance [OF assms(1)] assms(2) by simp
  show ?thesis
  proof (cases "b = 34 \<or> b = 92")
    case True
    then have e: "escape b = [92, b]" by (simp add: escape_def)
    then have "readable (advance 1 s)" using readable_tl [OF assms(1)] assms(2) by simp
    moreover have "uint (92 :: byte) = 92" by simp
    ultimately have "scan_string_loop (next_char (input s)) g (advance 1 s)
        = scan_string_loop (next_char bs) (Some (text_so_far (fst g) @ [b]), m) (advance 3 s)"
      using assms(2) m r e
      by (subst scan_string_loop.simps) (simp add: getc numeral_2_eq_2 numeral_3_eq_3 del: uint_numeral unsigned_numeral uint_char_eq)
    then show ?thesis using e m(2) by (auto simp: numeral_3_eq_3)
  next
    case False
    then have e: "escape b = [b]" by (simp add: escape_def)
    then show ?thesis using assms(2) m r False
      by (intro exI [of _ m], subst scan_string_loop.simps) (simp add: getc)
  qed
qed

lemma scan_string_all:
  assumes "readable s" and "input s = concat (map escape str) @ rest" and "next_char rest = 34 \<or> rest = []"
    and "length (text_so_far (fst g)) \<le> snd g" and "8 \<notin> set str"
  shows "\<exists>m. scan_string_loop (next_char (input s)) g (advance 1 s)
      = Inr (next_char rest, if str = [] then g else (Some (text_so_far (fst g) @ str), m),
          advance (length (concat (map escape str)) + 1) s)"
  using assms
proof (induction str arbitrary: s g)
  case Nil
  then show ?case by (subst scan_string_loop.simps) auto
next
  case (Cons b str)
  have "input s = escape b @ concat (map escape str) @ rest" "b \<noteq> 8" using Cons.prems by auto
  from scan_string_step [OF Cons.prems(1) this(1) Cons.prems(4) this(2)] obtain m where
    m: "scan_string_loop (next_char (input s)) g (advance 1 s)
      = scan_string_loop (next_char (concat (map escape str) @ rest)) (Some (text_so_far (fst g) @ [b]), m)
          (advance (length (escape b) + 1) s)" "length (text_so_far (fst g)) + 1 \<le> m" by blast
  let ?s = "advance (length (escape b)) s"
  have r: "readable ?s" "input ?s = concat (map escape str) @ rest"
    using readable_advance [OF Cons.prems(1)] Cons.prems(2) by simp_all
  obtain m' where m': "scan_string_loop (next_char (input ?s)) (Some (text_so_far (fst g) @ [b]), m) (advance 1 ?s)
      = Inr (next_char rest, if str = [] then (Some (text_so_far (fst g) @ [b]), m) else (Some (text_so_far (fst g) @ b # str), m'),
          advance (length (concat (map escape str)) + 1) ?s)"
    using Cons.IH [OF r Cons.prems(3), of "(Some (text_so_far (fst g) @ [b]), m)"] Cons.prems(5) m(2)
    by (cases "str = []") auto
  show ?case
    using m(1) m' r(2) by (intro exI [of _ "if str = [] then m else m'"]) (simp add: add.assoc)
qed

lemma print_form_all:
  assumes "length t \<le> m" and "8 \<notin> set str"
  shows "\<exists>m'. print_form_loop str (Some t, m) = Inr (Some (t @ concat (map escape str)), m')
    \<and> length (t @ concat (map escape str)) \<le> m'"
  using assms
proof (induction str arbitrary: t m)
  case (Cons b str)
  have b: "b \<noteq> 8" "sint b \<noteq> 8" using Cons.prems(2) signed_word_eqI [of b 8] by auto
  obtain m1 where m1: "ExpandStringWithChar 92 (Some t, m) (m + 80) = Inr (Some (t @ [92]), m1)" "length t + 1 \<le> m1"
    using expand_char [of "Some t" m 92] Cons.prems(1) by (auto simp: text_so_far_def)
  show ?case
  proof (cases "b = 34 \<or> b = 92")
    case True
    obtain m2 where m2: "ExpandStringWithChar (sint b) (Some (t @ [92]), m1) (m1 + 80) = Inr (Some (t @ [92, b]), m2)"
      "length t + 2 \<le> m2"
      using expand_char [of "Some (t @ [92])" m1 "sint b"] m1(2) b by (auto simp: text_so_far_def)
    show ?thesis
      using Cons.IH [of "t @ [92, b]" m2] Cons.prems(2) True m1 m2 by (simp add: escape_def)
  next
    case False
    obtain m2 where m2: "ExpandStringWithChar (sint b) (Some t, m) (m + 80) = Inr (Some (t @ [b]), m2)" "length t + 1 \<le> m2"
      using expand_char [of "Some t" m "sint b"] Cons.prems(1) b by (auto simp: text_so_far_def)
    show ?thesis
      using Cons.IH [of "t @ [b]" m2] Cons.prems(2) False m2 by (simp add: escape_def)
  qed
qed auto

lemma print_form:
  assumes "plain_string str" and "allocates lib" and "atoms_ok (atom_data s)"
  shows "\<exists>e. StringPrintForm lib str s = Inr (quoted str, s\<lparr>atom_data := e\<rparr>) \<and> grown (atom_data s) e"
proof -
  obtain m where m: "ExpandStringWithChar 34 (None, 0) 80 = Inr (Some [34], m)" "1 \<le> m"
    using expand_char [of None 0 34] by (auto simp: text_so_far_def)
  obtain m1 where m1: "print_form_loop str (Some [34], m) = Inr (Some (34 # concat (map escape str)), m1)"
    "length (34 # concat (map escape str)) \<le> m1"
    using print_form_all [of "[34]" m str] m assms(1) by (auto simp: plain_string_def)
  obtain m2 where m2: "ExpandStringWithChar 34 (Some (34 # concat (map escape str)), m1) (m1 + 80) = Inr (Some (quoted str), m2)"
    using expand_char [of "Some (34 # concat (map escape str))" m1 34] m1(2) by (auto simp: text_so_far_def quoted_def)
  have "0 \<notin> set (quoted str)"
    using assms(1) by (auto simp: quoted_def plain_string_def escape_def split: if_splits)
  then show ?thesis
    using m m1 m2 interned_text [OF assms(2,3), of "quoted str"] by (simp add: StringPrintForm_def c_string_nonzero)
qed

lemma quoted_token:
  assumes "idle s" and "readable s" and "input s = 34 # concat (map escape str) @ rest"
    and "next_char rest = 34 \<or> rest = []" and "plain_string str"
    and "allocates lib" and "atoms_ok (atom_data s)"
  shows "\<exists>p e. GetToken lib s = Inr (\<lparr>token_type = STRING_TOKEN, token_value = Some p, printForm = quoted str\<rparr>,
      (advance (length (concat (map escape str)) + 2) s)
        \<lparr>atom_data := e, messages := messages s @
           (if rest = [] \<and> \<not> IgnoreCompletionErrors s then [''SCANNER1''] else [])\<rparr>)
    \<and> grown (atom_data s) e \<and> atom_at (SymbolTable e) p str"
proof -
  let ?s = "advance 1 s" and ?k = "length (concat (map escape str)) + 2"
  have r: "readable ?s" "input ?s = concat (map escape str) @ rest" using readable_tl [OF assms(2,3)] by simp_all
  obtain m where m: "scan_string_loop (next_char (input ?s)) (None, 0) (advance 1 ?s)
      = Inr (next_char rest, if str = [] then (None, 0) else (Some str, m), advance ?k s)"
    using scan_string_all [OF r assms(4), of "(None, 0)"] assms(5)
    by (cases "str = []") (auto simp: plain_string_def)
  let ?m = "messages s @ (if rest = [] \<and> \<not> IgnoreCompletionErrors s then [''SCANNER1''] else [])"
  let ?t = "(advance ?k s)\<lparr>messages := ?m\<rparr>"
  have t: "(if next_char rest = EOF \<and> \<not> IgnoreCompletionErrors (advance ?k s)
      then (advance ?k s)\<lparr>messages := messages (advance ?k s) @ [''SCANNER1'']\<rparr> else advance ?k s) = ?t"
    using assms(4) by (cases rest) (auto simp: advance_def)
  obtain p e where p: "add_symbol_atom lib (Some str) ?t = Inr (p, ?t\<lparr>atom_data := e\<rparr>)" "grown (atom_data s) e"
    "atom_at (SymbolTable e) p str"
    using add_symbol_atom [OF assms(6), of ?t str] assms(5,7) by (auto simp: c_string_nonzero plain_string_def)
  have g: "(case fst (if str = [] then (None, 0) else (Some str, m)) of None \<Rightarrow> Some [] | Some t \<Rightarrow> Some t) = Some str"
    by simp
  have "ScanString lib ?s = Inr (p, ?t\<lparr>atom_data := e\<rparr>)"
    by (simp only: ScanString_def getc [OF r(1)] bind_res_Inr prod.case m Let_def t g p(1))
  moreover have "ValueToString p (?t\<lparr>atom_data := e\<rparr>) = Inr str" using p(3) by (simp add: ValueToString_at)
  moreover obtain e1 where e1: "StringPrintForm lib str (?t\<lparr>atom_data := e\<rparr>) = Inr (quoted str, ?t\<lparr>atom_data := e1\<rparr>)"
    "grown e e1"
    using print_form [OF assms(5,6), of "?t\<lparr>atom_data := e\<rparr>"] p(2) by (auto simp: grown_def)
  ultimately have "token_from lib 34 ?s = Inr (\<lparr>token_type = STRING_TOKEN, token_value = Some p, printForm = quoted str\<rparr>,
      ?t\<lparr>atom_data := e1\<rparr>)"
    by (simp add: token_from_def isalpha_def IsUTF8MultiByteStart_def isdigit_def)
  then have "GetToken lib s = Inr (\<lparr>token_type = STRING_TOKEN, token_value = Some p, printForm = quoted str\<rparr>,
      finish (?t\<lparr>atom_data := e1\<rparr>))"
    using GetToken_from [OF assms(1,2)] assms(3) by (simp add: blank_def)
  moreover have "finish (?t\<lparr>atom_data := e1\<rparr>) = (advance ?k s)\<lparr>atom_data := e1, messages := ?m\<rparr>"
    using assms(1) by (simp add: finish_def idle_def)
  moreover have "grown (atom_data s) e1" "atom_at (SymbolTable e1) p str"
    using grown_trans [OF p(2) e1(2)] atom_at_extends [OF p(3)] e1(2) by (auto simp: grown_def)
  ultimately show ?thesis by auto
qed

end
