(* ===== verification/NumberScan.thy ===== *)
theory NumberScan
  imports Scanning
begin

text \<open>
  The grammar of numbers, the phases of \<open>ScanNumber\<close> (\<open>CLIPS/scanner.c\<close>) as an automaton on words that recognises
  it, and the tokens \<open>ScanNumber\<close> returns.
\<close>

section \<open>The form of numbers\<close>

definition digit :: "byte \<Rightarrow> bool" where
  "digit b \<longleftrightarrow> 48 \<le> b \<and> b \<le> 57"

definition sign :: "byte \<Rightarrow> bool" where
  "sign b \<longleftrightarrow> b = 43 \<or> b = 45"

definition exponent_mark :: "byte \<Rightarrow> bool" where
  "exponent_mark b \<longleftrightarrow> b = 69 \<or> b = 101"

definition digits :: "byte list \<Rightarrow> bool" where
  "digits w \<longleftrightarrow> list_all digit w"

definition unsigned_part :: "byte list \<Rightarrow> byte list" where
  "unsigned_part w = (if w \<noteq> [] \<and> sign (hd w) then tl w else w)"

text \<open>An optional sign and digits.\<close>

definition integer_text :: "byte list \<Rightarrow> bool" where
  "integer_text w \<longleftrightarrow> unsigned_part w \<noteq> [] \<and> digits (unsigned_part w)"

text \<open>Digits, with at most one point, which need not have digits on both sides.\<close>

definition mantissa :: "byte list \<Rightarrow> bool" where
  "mantissa m \<longleftrightarrow> m \<noteq> [] \<and> digits m \<or> (\<exists>a b. m = a @ 46 # b \<and> digits a \<and> digits b \<and> a @ b \<noteq> [])"

definition exponent :: "byte list \<Rightarrow> bool" where
  "exponent e \<longleftrightarrow> (\<exists>c u. e = c # u \<and> exponent_mark c \<and> integer_text u)"

text \<open>A signed mantissa with a point, an exponent or both.\<close>

definition float_text :: "byte list \<Rightarrow> bool" where
  "float_text w \<longleftrightarrow> (\<exists>m e. unsigned_part w = m @ e \<and> mantissa m \<and> (exponent e \<or> e = [] \<and> 46 \<in> set m))"

definition number_type :: "byte list \<Rightarrow> tokenType" where
  "number_type w = (if integer_text w then INTEGER_TOKEN else if float_text w then FLOAT_TOKEN else SYMBOL_TOKEN)"

section \<open>The phases on a word\<close>

definition next_phase :: "int \<Rightarrow> byte \<Rightarrow> int" where
  "next_phase p b =
     (if p \<in> {-1, 0} \<and> (digit b \<or> p = -1 \<and> sign b) then 0
      else if p \<in> {-1, 0} \<and> b = 46 then 1
      else if p = 1 \<and> digit b then 1
      else if p \<in> {-1, 0, 1} \<and> exponent_mark b then 2
      else if p = 2 \<and> (digit b \<or> sign b) \<or> p = 3 \<and> digit b then 3
      else 9)"

definition next_found :: "int \<Rightarrow> byte \<Rightarrow> bool \<Rightarrow> bool" where
  "next_found p b df \<longleftrightarrow> df \<or> p \<in> {-1, 0, 1} \<and> digit b"

definition next_float :: "int \<Rightarrow> byte \<Rightarrow> bool \<Rightarrow> bool" where
  "next_float p b pf \<longleftrightarrow> pf \<or> p \<in> {-1, 0} \<and> (b = 46 \<or> exponent_mark b)"

fun phases :: "int \<Rightarrow> bool \<Rightarrow> bool \<Rightarrow> byte list \<Rightarrow> int \<times> bool \<times> bool" where
  "phases p df pf [] = (p, df, pf)"
| "phases p df pf (b # bs) =
     (if next_phase p b = 9 then (9, next_found p b df, next_float p b pf)
      else phases (next_phase p b) (next_found p b df) (next_float p b pf) bs)"

definition ends_number :: "int \<Rightarrow> bool \<Rightarrow> byte list \<Rightarrow> bool" where
  "ends_number p df w \<longleftrightarrow> df \<and> p \<noteq> 9 \<and> p \<noteq> 2 \<and> (p = 3 \<longrightarrow> \<not> sign (last w))"

definition run_type :: "byte list \<Rightarrow> tokenType" where
  "run_type w = (case phases (-1) False False w of (p, df, pf) \<Rightarrow>
     if ends_number p df w then if pf then FLOAT_TOKEN else INTEGER_TOKEN else SYMBOL_TOKEN)"

lemma sign_digit: "sign b \<Longrightarrow> \<not> digit b" "exponent_mark b \<Longrightarrow> \<not> digit b" "\<not> digit 46" "\<not> exponent_mark 46" "\<not> sign 46"
  "exponent_mark b \<Longrightarrow> \<not> sign b"
  by (auto simp: sign_def digit_def exponent_mark_def)

lemma digits_simps [simp]: "digits []" "digits (b # w) \<longleftrightarrow> digit b \<and> digits w" "digits (v @ w) \<longleftrightarrow> digits v \<and> digits w"
  by (simp_all add: digits_def)

lemma digits_last: "digits w \<Longrightarrow> w \<noteq> [] \<Longrightarrow> digit (last w)"
  by (induction w) auto

lemma phases_3:
  "phases 3 df pf w = (p, df', pf') \<Longrightarrow> (p = 9 \<longleftrightarrow> \<not> digits w) \<and> (digits w \<longrightarrow> p = 3 \<and> df' = df \<and> pf' = pf)"
  by (induction w) (auto simp: next_phase_def next_found_def next_float_def split: if_splits)

lemma phases_2:
  assumes "phases 2 df pf w = (p, df', pf')"
  shows "ends_number p df' (x # w) \<longleftrightarrow> df \<and> integer_text w" "p \<noteq> 9 \<Longrightarrow> df' = df \<and> pf' = pf"
proof -
  have *: "(ends_number p df' (x # w) \<longleftrightarrow> df \<and> integer_text w) \<and> (p \<noteq> 9 \<longrightarrow> df' = df \<and> pf' = pf)"
  proof (cases w)
    case Nil
    then show ?thesis using assms by (auto simp: ends_number_def integer_text_def unsigned_part_def)
  next
    case (Cons b v)
    show ?thesis
    proof (cases "digit b \<or> sign b")
      case True
      then have "phases 3 df pf v = (p, df', pf')"
        using assms Cons by (auto simp: next_phase_def next_found_def next_float_def)
      from phases_3 [OF this] show ?thesis
        using Cons True sign_digit(1) digits_last [of v] sign_digit(1) [of "last v"]
        by (cases "digit b") (auto simp: ends_number_def integer_text_def unsigned_part_def)
    next
      case False
      then have "p = 9" using assms Cons by (auto simp: next_phase_def)
      then show ?thesis using Cons False by (auto simp: ends_number_def integer_text_def unsigned_part_def)
    qed
  qed
  then show "ends_number p df' (x # w) \<longleftrightarrow> df \<and> integer_text w" "p \<noteq> 9 \<Longrightarrow> df' = df \<and> pf' = pf" by simp_all
qed

lemma ends_number_append: "w \<noteq> [] \<Longrightarrow> ends_number p df (v @ w) = ends_number p df w"
  by (simp add: ends_number_def)

text \<open>After the point: digits and an optional exponent.\<close>

lemma phases_1:
  assumes "phases 1 df pf w = (p, df', pf')"
  shows "(ends_number p df' (x # w) \<longleftrightarrow> (\<exists>d e. w = d @ e \<and> digits d \<and> (df \<or> d \<noteq> []) \<and> (e = [] \<or> exponent e)))
    \<and> (p \<noteq> 9 \<longrightarrow> pf' = pf)"
  using assms
proof (induction w arbitrary: df x)
  case Nil
  then show ?case by (auto simp: ends_number_def exponent_def)
next
  case (Cons b w)
  consider (digit) "digit b" | (mark) "\<not> digit b" "exponent_mark b" | (other) "\<not> digit b" "\<not> exponent_mark b" by blast
  then show ?case
  proof cases
    case digit
    then have "phases 1 True pf w = (p, df', pf')"
      using Cons.prems by (simp add: next_phase_def next_found_def next_float_def)
    from Cons.IH [OF this, of b] have
      IH: "ends_number p df' (b # w) \<longleftrightarrow> (\<exists>d e. w = d @ e \<and> digits d \<and> (e = [] \<or> exponent e))" "p \<noteq> 9 \<longrightarrow> pf' = pf"
      by simp_all
    have "(\<exists>d e. b # w = d @ e \<and> digits d \<and> (df \<or> d \<noteq> []) \<and> (e = [] \<or> exponent e))
      \<longleftrightarrow> (\<exists>d e. w = d @ e \<and> digits d \<and> (e = [] \<or> exponent e))" (is "?l = ?r")
    proof
      assume ?l
      then obtain d e where d: "b # w = d @ e" "digits d" "df \<or> d \<noteq> []" "e = [] \<or> exponent e" by blast
      have "d \<noteq> []" using d(1,4) digit sign_digit(2) by (cases d) (auto simp: exponent_def)
      then show ?r using d by (cases d) auto
    next
      assume ?r
      then obtain d e where "w = d @ e" "digits d" "e = [] \<or> exponent e" by blast
      then show ?l using digit by (intro exI [of _ "b # d"] exI [of _ e]) simp
    qed
    then show ?thesis using IH by (simp add: ends_number_def)
  next
    case mark
    then have 2: "phases 2 df pf w = (p, df', pf')"
      using Cons.prems by (simp add: next_phase_def next_found_def next_float_def)
    have "b # w = d @ e \<and> digits d \<longleftrightarrow> d = [] \<and> e = b # w" for d e
      using mark by (cases d) auto
    then have "(\<exists>d e. b # w = d @ e \<and> digits d \<and> (df \<or> d \<noteq> []) \<and> (e = [] \<or> exponent e)) \<longleftrightarrow> df \<and> integer_text w"
      using mark unfolding conj_assoc [symmetric] by (simp add: exponent_def)
    then show ?thesis using phases_2 [OF 2] by (simp add: ends_number_def)
  next
    case other
    then have "p = 9" using Cons.prems by (simp add: next_phase_def split: if_splits)
    then show ?thesis using other by (auto simp: ends_number_def Cons_eq_append_conv exponent_def)
  qed
qed

text \<open>After the sign, with \<open>df\<close> for digits that were read before.\<close>

definition float_rest :: "bool \<Rightarrow> byte list \<Rightarrow> bool" where
  "float_rest df w \<longleftrightarrow> (\<exists>a v. w = a @ v \<and> digits a \<and>
     ((\<exists>d e. v = 46 # d @ e \<and> digits d \<and> (df \<or> a @ d \<noteq> []) \<and> (e = [] \<or> exponent e))
      \<or> exponent v \<and> (df \<or> a \<noteq> [])))"

lemma float_rest_digit:
  assumes "digit b"
  shows "float_rest df (b # w) \<longleftrightarrow> float_rest True w"
proof
  assume "float_rest df (b # w)"
  then obtain a v where a: "b # w = a @ v" "digits a"
    "(\<exists>d e. v = 46 # d @ e \<and> digits d \<and> (df \<or> a @ d \<noteq> []) \<and> (e = [] \<or> exponent e)) \<or> exponent v \<and> (df \<or> a \<noteq> [])"
    unfolding float_rest_def by blast
  have "a \<noteq> []" using a(1,3) assms sign_digit(2,3) by (cases a) (auto simp: exponent_def)
  then show "float_rest True w" using a unfolding float_rest_def by (cases a) auto
next
  assume "float_rest True w"
  then obtain a v where "w = a @ v" "digits a"
    "(\<exists>d e. v = 46 # d @ e \<and> digits d \<and> (e = [] \<or> exponent e)) \<or> exponent v"
    unfolding float_rest_def by blast
  then show "float_rest df (b # w)"
    using assms unfolding float_rest_def by (intro exI [of _ "b # a"] exI [of _ v]) auto
qed

lemma float_rest_other:
  assumes "\<not> digit b"
  shows "float_rest df (b # w) \<longleftrightarrow> b = 46 \<and> (\<exists>d e. w = d @ e \<and> digits d \<and> (df \<or> d \<noteq> []) \<and> (e = [] \<or> exponent e))
    \<or> exponent (b # w) \<and> df"
proof -
  have "b # w = a @ v \<and> digits a \<longleftrightarrow> a = [] \<and> v = b # w" for a v
    using assms by (cases a) auto
  then show ?thesis unfolding float_rest_def conj_assoc [symmetric] by auto
qed

lemma float_rest_Nil [simp]: "\<not> float_rest df []"
  by (simp add: float_rest_def exponent_def)

lemma phases_0:
  assumes "phases 0 df False w = (p, df', pf')"
  shows "ends_number p df' (x # w) \<and> \<not> pf' \<longleftrightarrow> digits w \<and> (df \<or> w \<noteq> [])"
    "ends_number p df' (x # w) \<and> pf' \<longleftrightarrow> float_rest df w"
proof -
  have "(ends_number p df' (x # w) \<and> \<not> pf' \<longleftrightarrow> digits w \<and> (df \<or> w \<noteq> []))
    \<and> (ends_number p df' (x # w) \<and> pf' \<longleftrightarrow> float_rest df w)"
    using assms
  proof (induction w arbitrary: df x)
    case Nil
    then show ?case by (auto simp: ends_number_def)
  next
    case (Cons b w)
    consider (digit) "digit b" | (point) "b = 46" | (mark) "\<not> digit b" "b \<noteq> 46" "exponent_mark b"
      | (other) "\<not> digit b" "b \<noteq> 46" "\<not> exponent_mark b" by blast
    then show ?case
    proof cases
      case digit
      then have "b \<noteq> 46" "\<not> exponent_mark b" using sign_digit(2,3) by auto
      then have "phases 0 True False w = (p, df', pf')"
        using Cons.prems digit by (simp add: next_phase_def next_found_def next_float_def)
      from Cons.IH [OF this, of b] show ?thesis
        using digit by (simp add: float_rest_digit ends_number_def)
    next
      case point
      then have 1: "phases 1 df True w = (p, df', pf')"
        using Cons.prems sign_digit(3) by (simp add: next_phase_def next_found_def next_float_def)
      have "p \<noteq> 9" if "ends_number p df' (x # b # w)" using that by (simp add: ends_number_def)
      then show ?thesis
        using phases_1 [OF 1, of 46] point sign_digit(3,4) by (auto simp: float_rest_other ends_number_def exponent_def)
    next
      case mark
      then have 2: "phases 2 df True w = (p, df', pf')"
        using Cons.prems by (simp add: next_phase_def next_found_def next_float_def)
      then show ?thesis
        using phases_2(1) [OF 2, of b] phases_2(2) [OF 2] mark by (auto simp: float_rest_other ends_number_def exponent_def)
    next
      case other
      then have "p = 9" using Cons.prems by (simp add: next_phase_def split: if_splits)
      then show ?thesis using other by (auto simp: float_rest_other ends_number_def exponent_def)
    qed
  qed
  then show "ends_number p df' (x # w) \<and> \<not> pf' \<longleftrightarrow> digits w \<and> (df \<or> w \<noteq> [])"
    "ends_number p df' (x # w) \<and> pf' \<longleftrightarrow> float_rest df w" by simp_all
qed

lemma float_text_rest: "float_text w \<longleftrightarrow> float_rest False (unsigned_part w)"
proof
  assume "float_text w"
  then obtain m e where m: "unsigned_part w = m @ e" "mantissa m" "exponent e \<or> e = [] \<and> 46 \<in> set m"
    unfolding float_text_def by blast
  from m(2) consider (digits) "m \<noteq> []" "digits m" | (point) a b where "m = a @ 46 # b" "digits a" "digits b" "a @ b \<noteq> []"
    unfolding mantissa_def by blast
  then show "float_rest False (unsigned_part w)"
  proof cases
    case digits
    then have "46 \<notin> set m" using sign_digit(3) by (auto simp: digits_def list_all_iff)
    then show ?thesis using m digits unfolding float_rest_def by auto
  next
    case point
    then show ?thesis using m unfolding float_rest_def
      by (intro exI [of _ a] exI [of _ "46 # b @ e"]) auto
  qed
next
  assume "float_rest False (unsigned_part w)"
  then obtain a v where a: "unsigned_part w = a @ v" "digits a"
    "(\<exists>d e. v = 46 # d @ e \<and> digits d \<and> a @ d \<noteq> [] \<and> (e = [] \<or> exponent e)) \<or> exponent v \<and> a \<noteq> []"
    unfolding float_rest_def by blast
  from a(3) consider (point) d e where "v = 46 # d @ e" "digits d" "a @ d \<noteq> []" "e = [] \<or> exponent e"
    | (mark) "exponent v" "a \<noteq> []" by blast
  then show "float_text w"
  proof cases
    case point
    then have "unsigned_part w = (a @ 46 # d) @ e" "mantissa (a @ 46 # d)" using a by (auto simp: mantissa_def)
    then show ?thesis using point(4) unfolding float_text_def by (intro exI [of _ "a @ 46 # d"] exI [of _ e]) auto
  next
    case mark
    then show ?thesis using a by (auto simp: float_text_def mantissa_def)
  qed
qed

lemma run_type_eq:
  assumes "w \<noteq> []"
  shows "run_type w = number_type w"
proof -
  obtain b v where w: "w = b # v" using assms by (cases w) auto
  obtain p df pf where r: "phases (-1) False False w = (p, df, pf)" by (cases "phases (-1) False False w") auto
  have "(ends_number p df w \<and> \<not> pf \<longleftrightarrow> integer_text w) \<and> (ends_number p df w \<and> pf \<longleftrightarrow> float_text w)"
  proof (cases "digit b \<or> sign b")
    case True
    then have b: "b \<noteq> 46" "\<not> exponent_mark b" using sign_digit by auto
    then have "phases 0 (digit b) False v = (p, df, pf)"
      using r w True by (auto simp: next_phase_def next_found_def next_float_def)
    note p = phases_0 [OF this, of b]
    show ?thesis
    proof (cases "sign b")
      case True
      then show ?thesis using p w sign_digit(1) [OF True] float_text_rest [of w]
        by (simp add: integer_text_def unsigned_part_def conj_commute)
    next
      case False
      then show ?thesis using p w \<open>digit b \<or> sign b\<close> float_text_rest [of w]
        by (simp add: integer_text_def unsigned_part_def float_rest_digit)
    qed
  next
    case False
    then have u: "unsigned_part w = w" using w by (simp add: unsigned_part_def)
    have i: "\<not> integer_text w" using False u w by (simp add: integer_text_def)
    have f: "float_text w \<longleftrightarrow> b = 46 \<and> (\<exists>d e. v = d @ e \<and> digits d \<and> d \<noteq> [] \<and> (e = [] \<or> exponent e))"
      using False u w float_text_rest [of w] by (simp add: float_rest_other)
    consider "b = 46" | "b \<noteq> 46" "exponent_mark b" | "b \<noteq> 46" "\<not> exponent_mark b" by blast
    then show ?thesis
    proof cases
      case 1
      then have 1: "phases 1 False True v = (p, df, pf)"
        using r w False by (simp add: next_phase_def next_found_def next_float_def)
      have "p \<noteq> 9" if "ends_number p df w" using that by (simp add: ends_number_def)
      then show ?thesis using phases_1 [OF 1, of b] i f w \<open>b = 46\<close> by auto
    next
      case 2
      then have 2: "phases 2 False True v = (p, df, pf)"
        using r w False by (simp add: next_phase_def next_found_def next_float_def)
      then show ?thesis using phases_2(1) [OF 2, of b] phases_2(2) [OF 2] i f w \<open>b \<noteq> 46\<close> by auto
    next
      case 3
      then have "p = 9" using r w False by (auto simp: next_phase_def split: if_splits)
      then show ?thesis using i f 3 by (simp add: ends_number_def)
    qed
  qed
  then show ?thesis using r by (auto simp: run_type_def number_type_def)
qed

section \<open>ScanNumber on a word\<close>

text \<open>A byte that can be in a word: printable and no delimiter.\<close>

definition word_byte :: "byte \<Rightarrow> bool" where
  "word_byte b \<longleftrightarrow> isprint (uint b) \<and> \<not> delimiter (uint b)"

lemma word_byte_char: "word_byte b \<Longrightarrow> symbol_char (uint b)"
  by (simp add: word_byte_def symbol_char_def)

lemma word_byte_no_end: "word_byte b \<Longrightarrow> \<not> number_end (uint b)"
  by (simp add: word_byte_def number_end_def)

lemma word_byte_8: "word_byte b \<Longrightarrow> b \<noteq> 8"
  using word_byte_char symbol_char_not_8 by force

lemma not_symbol_char_end: "\<not> symbol_char c \<Longrightarrow> number_end c"
  by (auto simp: symbol_char_def number_end_def)

lemma number_end_char:
  assumes "number_end c"
  shows "\<not> isdigit c" "c \<noteq> 43" "c \<noteq> 45" "c \<noteq> 46" "c \<noteq> 69" "c \<noteq> 101"
  using assms by (auto simp: number_end_def isdigit_def delimiter_def isprint_def)

lemma uint_number_byte [simp]:
  "uint (b :: byte) = 43 \<longleftrightarrow> b = 43" "uint b = 45 \<longleftrightarrow> b = 45" "uint b = 46 \<longleftrightarrow> b = 46" "uint b = 69 \<longleftrightarrow> b = 69"
  "uint b = 101 \<longleftrightarrow> b = 101"
  using word_uint_eq_iff [of b 43] word_uint_eq_iff [of b 45] word_uint_eq_iff [of b 46] word_uint_eq_iff [of b 69]
    word_uint_eq_iff [of b 101] by simp_all

lemma isdigit_uint [simp]: "isdigit (uint b) \<longleftrightarrow> digit b"
  by (simp add: isdigit_def digit_def word_le_def)

definition tracked :: "byte list \<Rightarrow> bool \<Rightarrow> bool \<Rightarrow> number" where
  "tracked t df pf = \<lparr>digits_count = length t, digitFound = df, processFloat = pf\<rparr>"

lemma number_step_byte:
  assumes "word_byte b" and "phase \<in> {-1, 0, 1, 2, 3}"
  shows "number_step phase (uint b) (tracked t df pf) s
    = push_char (next_phase phase b) (uint b) (tracked t (next_found phase b df) (next_float phase b pf)) s"
proof -
  have e: "\<not> number_end (uint b)" "isprint (uint b)" "\<not> delimiter (uint b)"
    using assms(1) by (simp_all add: word_byte_def number_end_def)
  from assms(2) consider "phase = -1" | "phase = 0" | "phase = 1" | "phase = 2" | "phase = 3" by auto
  then show ?thesis
  proof cases
    case 1
    then show ?thesis using e
      by (auto simp: number_step_def next_phase_def next_found_def next_float_def tracked_def sign_digit sign_def exponent_mark_def digit_def)
  next
    case 2
    then show ?thesis using e
      by (auto simp: number_step_def next_phase_def next_found_def next_float_def tracked_def sign_digit sign_def exponent_mark_def digit_def)
  next
    case 3
    then show ?thesis using e
      by (auto simp: number_step_def next_phase_def next_found_def next_float_def tracked_def sign_digit sign_def exponent_mark_def digit_def)
  next
    case 4
    then show ?thesis using e
      by (auto simp: number_step_def next_phase_def next_found_def next_float_def tracked_def sign_digit sign_def exponent_mark_def digit_def)
  next
    case 5
    then show ?thesis using e
      by (auto simp: number_step_def next_phase_def next_found_def next_float_def tracked_def sign_digit sign_def exponent_mark_def digit_def)
  qed
qed

lemma number_step_stop:
  assumes "number_end c" and "phase \<in> {0, 1, 2, 3}" and "t \<noteq> []"
  shows "number_step phase c (tracked t df pf) (holding t m s) = Inr (5, tracked t (ends_number phase df t) pf, holding t m s)"
proof -
  note e = number_end_char [OF assms(1)] assms(1)
  have l: "get_at t (length t - 1) = Inr (last t)" using assms(3) by (simp add: get_at_def last_conv_nth)
  from assms(2) consider "phase = 0" | "phase = 1" | "phase = 2" | "phase = 3" by auto
  then show ?thesis
  proof cases
    case 4
    then show ?thesis using e l by (simp add: number_step_def tracked_def ends_number_def sign_def)
  qed (use e in \<open>simp_all add: number_step_def tracked_def ends_number_def\<close>)
qed

lemma push_char_tracked:
  assumes "with_text t s0 s" and "b \<noteq> 8"
  shows "\<exists>m. push_char p (uint b) (tracked t df pf) s = Inr (p, tracked (t @ [b]) df pf, holding (t @ [b]) m s0)
    \<and> length (t @ [b]) \<le> m"
  using expand_with_text [OF assms(1), of "uint b"] assms(2) by (auto simp: push_char_def tracked_def)

lemma next_phase_range: "next_phase p b \<in> {0, 1, 2, 3, 9}"
  by (simp add: next_phase_def)

text \<open>The loop reads the whole word and its delimiter, or stops after a byte that no number has there.\<close>

lemma number_loop_word:
  assumes "with_text t s0 (s :: scan)" and "input s0 = w @ rest" and "readable s0" and "\<forall>b \<in> set w. word_byte b"
    and "number_end (next_char rest)" and "phase \<in> {0, 1, 2, 3} \<and> t \<noteq> [] \<or> phase = -1 \<and> w \<noteq> []"
    and "phases phase df pf w = (p, df', pf')"
  shows "if p = 9
    then \<exists>v b u m. w = v @ b # u \<and> number_loop phase (next_char (input s0)) (tracked t df pf) (advance 1 s)
      = Inr (9, uint b, tracked (t @ v @ [b]) df' pf', holding (t @ v @ [b]) m (advance (length v + 1) s0))
        \<and> length (t @ v @ [b]) \<le> m
    else \<exists>m. number_loop phase (next_char (input s0)) (tracked t df pf) (advance 1 s)
      = Inr (5, next_char rest, tracked (t @ w) (ends_number p df' (t @ w)) pf', holding (t @ w) m (advance (length w + 1) s0))"
  using assms
proof (induction w arbitrary: t s0 s phase df pf)
  case Nil
  then obtain m where s: "s = holding t m s0" by (auto simp: with_text_def)
  have "number_step phase (next_char (input s0)) (tracked t df pf) (holding t m (advance 1 s0))
    = Inr (5, tracked t (ends_number phase df t) pf, holding t m (advance 1 s0))"
    using Nil.prems by (intro number_step_stop) auto
  moreover have "phase \<in> {-1, 0, 1, 2, 3}" "phase \<noteq> 9" using Nil.prems(6) by auto
  ultimately have "number_loop phase (next_char (input s0)) (tracked t df pf) (holding t m (advance 1 s0))
    = Inr (5, next_char rest, tracked t (ends_number phase df t) pf, holding t m (advance 1 s0))"
    using Nil.prems(2) by (subst number_loop.simps) simp
  then show ?case using s Nil.prems(7) \<open>phase \<noteq> 9\<close> by auto
next
  case (Cons b w)
  have i: "input s0 = b # w @ rest" and b: "word_byte b" "b \<noteq> 8" using Cons.prems(2,4) word_byte_8 by auto
  have r: "readable (advance 1 s0)" "input (advance 1 s0) = w @ rest" using readable_tl [OF Cons.prems(3) i] by simp_all
  have ph: "phase \<in> {-1, 0, 1, 2, 3}" using Cons.prems(6) by auto
  let ?p = "next_phase phase b" and ?df = "next_found phase b df" and ?pf = "next_float phase b pf"
  obtain m where m: "push_char ?p (uint b) (tracked t ?df ?pf) (advance 1 s)
      = Inr (?p, tracked (t @ [b]) ?df ?pf, holding (t @ [b]) m (advance 1 s0))" "length (t @ [b]) \<le> m"
    using push_char_tracked [OF with_text_advance [OF Cons.prems(1)] b(2)] by blast
  have step: "number_step phase (uint b) (tracked t df pf) (advance 1 s)
      = Inr (?p, tracked (t @ [b]) ?df ?pf, holding (t @ [b]) m (advance 1 s0))"
    using number_step_byte [OF b(1) ph] m(1) by simp
  show ?case
  proof (cases "?p = 9")
    case True
    have "number_loop phase (next_char (input s0)) (tracked t df pf) (advance 1 s)
        = Inr (9, uint b, tracked (t @ [b]) ?df ?pf, holding (t @ [b]) m (advance 1 s0))"
      using i step True ph by (subst number_loop.simps) simp
    moreover have "p = 9" "df' = ?df" "pf' = ?pf" using Cons.prems(7) True by auto
    ultimately show ?thesis using m(2)
      by (simp only: refl if_True) (rule exI [of _ "[]"], rule exI [of _ b], rule exI [of _ w], rule exI [of _ m], simp)
  next
    case False
    then have p: "?p \<in> {0, 1, 2, 3}" "?p \<noteq> 5" using next_phase_range [of phase b] by auto
    have loop: "number_loop phase (next_char (input s0)) (tracked t df pf) (advance 1 s)
        = number_loop ?p (next_char (input (advance 1 s0))) (tracked (t @ [b]) ?df ?pf)
            (advance 1 (holding (t @ [b]) m (advance 1 s0)))"
      using i step False p(2) ph r(1) by (subst number_loop.simps) (simp add: getc)
    have w: "with_text (t @ [b]) (advance 1 s0) (holding (t @ [b]) m (advance 1 s0))"
      using m(2) by (auto simp: with_text_def)
    have 1: "\<forall>b \<in> set w. word_byte b" using Cons.prems(4) by simp
    have 2: "?p \<in> {0, 1, 2, 3} \<and> t @ [b] \<noteq> [] \<or> ?p = -1 \<and> w \<noteq> []" using p(1) by simp
    have 3: "phases ?p ?df ?pf w = (p, df', pf')" using Cons.prems(7) False by simp
    have IH: "if p = 9
      then \<exists>v c u m'. w = v @ c # u \<and> number_loop ?p (next_char (input (advance 1 s0))) (tracked (t @ [b]) ?df ?pf)
            (advance 1 (holding (t @ [b]) m (advance 1 s0)))
        = Inr (9, uint c, tracked ((t @ [b]) @ v @ [c]) df' pf', holding ((t @ [b]) @ v @ [c]) m' (advance (length v + 1) (advance 1 s0)))
          \<and> length ((t @ [b]) @ v @ [c]) \<le> m'
      else \<exists>m'. number_loop ?p (next_char (input (advance 1 s0))) (tracked (t @ [b]) ?df ?pf)
            (advance 1 (holding (t @ [b]) m (advance 1 s0)))
        = Inr (5, next_char rest, tracked ((t @ [b]) @ w) (ends_number p df' ((t @ [b]) @ w)) pf',
            holding ((t @ [b]) @ w) m' (advance (length w + 1) (advance 1 s0)))"
      by (rule Cons.IH [OF w r(2,1) 1 Cons.prems(5) 2 3])
    show ?thesis
    proof (cases "p = 9")
      case True
      with IH obtain v c u m' where v: "w = v @ c # u" "number_loop phase (next_char (input s0)) (tracked t df pf) (advance 1 s)
        = Inr (9, uint c, tracked ((t @ [b]) @ v @ [c]) df' pf', holding ((t @ [b]) @ v @ [c]) m' (advance (length v + 1) (advance 1 s0)))"
        "length ((t @ [b]) @ v @ [c]) \<le> m'" unfolding loop by auto
      have "number_loop phase (next_char (input s0)) (tracked t df pf) (advance 1 s)
        = Inr (9, uint c, tracked (t @ (b # v) @ [c]) df' pf', holding (t @ (b # v) @ [c]) m' (advance (length (b # v) + 1) s0))"
        unfolding v(2) by simp
      then show ?thesis using True v(1,3)
        by (simp only: refl if_True) (rule exI [of _ "b # v"], rule exI [of _ c], rule exI [of _ u], rule exI [of _ m'], simp)
    next
      case F2: False
      with IH obtain m' where "number_loop phase (next_char (input s0)) (tracked t df pf) (advance 1 s)
        = Inr (5, next_char rest, tracked ((t @ [b]) @ w) (ends_number p df' ((t @ [b]) @ w)) pf',
            holding ((t @ [b]) @ w) m' (advance (length w + 1) (advance 1 s0)))" unfolding loop by auto
      then show ?thesis using F2 by auto
    qed
  qed
qed

section \<open>The values of numbers\<close>

definition decimal :: "byte list \<Rightarrow> int" where
  "decimal ds = foldl (\<lambda>v d. v * 10 + (uint d - 48)) 0 ds"

definition integer_value :: "byte list \<Rightarrow> int" where
  "integer_value w = (if w \<noteq> [] \<and> hd w = 45 then - decimal (unsigned_part w) else decimal (unsigned_part w))"

definition clamped :: "int \<Rightarrow> int" where
  "clamped v = max (- (2 ^ 63)) (min (2 ^ 63 - 1) v)"

lemma decimal_append [simp]: "decimal [] = 0" "decimal (ds @ [d]) = decimal ds * 10 + (uint d - 48)"
  by (simp_all add: decimal_def)

lemma decimal_single: "decimal [d] = uint d - 48"
  by (simp add: decimal_def)

lemma digits_value_decimal: "digits ds \<Longrightarrow> digits_value ds = decimal ds"
proof -
  assume "digits ds"
  then have "takeWhile digit ds = ds"
    by (simp add: takeWhile_eq_all_conv digits_def list_all_iff)
  then show ?thesis by (simp add: digits_value_def decimal_def del: takeWhile_eq_all_conv)
qed

lemma strtoll_integer:
  assumes "integer_text w"
  shows "strtoll w = (clamped (integer_value w), clamped (integer_value w) \<noteq> integer_value w)"
proof -
  obtain c cs where w: "w = c # cs" using assms by (cases w) (auto simp: integer_text_def unsigned_part_def)
  have "(case w of [] \<Rightarrow> 0 | c # cs \<Rightarrow> if c = 45 then - digits_value cs else if c = 43 then digits_value cs else digits_value w)
    = integer_value w"
  proof (cases "sign c")
    case True
    then have "unsigned_part w = cs" "digits cs" using assms w by (auto simp: integer_text_def unsigned_part_def)
    then show ?thesis using True w by (auto simp: digits_value_decimal integer_value_def sign_def)
  next
    case False
    then have "unsigned_part w = w" "digits w" using assms w by (auto simp: integer_text_def unsigned_part_def)
    then show ?thesis using False w by (auto simp: digits_value_decimal integer_value_def sign_def)
  qed
  then show ?thesis by (simp add: strtoll_def Let_def clamped_def min_def max_def)
qed

lemma uint_small_nat: "n < 256 \<Longrightarrow> uint (of_nat n :: byte) = int n"
  by (simp add: unsigned_of_nat take_bit_eq_mod)

lemma nat_text_decimal:
  "digits (nat_text n) \<and> nat_text n \<noteq> [] \<and> decimal (nat_text n) = int n"
proof (induction n rule: nat_text.induct)
  case (1 n)
  have d: "digit (of_nat (48 + k)) \<and> uint (of_nat (48 + k) :: byte) = 48 + int k" if "k < 10" for k
  proof -
    have u: "uint (of_nat (48 + k) :: byte) = 48 + int k"
      using uint_small_nat [of "48 + k"] that by linarith
    show ?thesis unfolding digit_def word_le_def u using that by simp
  qed
  show ?case
  proof (cases "n < 10")
    case True
    then have "nat_text n = [] @ [of_nat (48 + n)]" by (subst nat_text.simps) simp
    then show ?thesis using d [OF True] by (simp only: digits_simps decimal_single append_Nil simp_thms list.distinct)
  next
    case False
    then have n: "nat_text n = nat_text (n div 10) @ [of_nat (48 + n mod 10)]" by (subst nat_text.simps) simp
    have "int n = int (n div 10) * 10 + int (n mod 10)" using div_mult_mod_eq [of n 10] by linarith
    then show ?thesis using 1 [OF False] d [of "n mod 10"]
      by (simp only: n digits_simps decimal_append append_is_Nil_conv simp_thms list.distinct mod_less_divisor zero_less_numeral)
  qed
qed

lemma int_text_value: "integer_text (int_text n) \<and> integer_value (int_text n) = n"
proof (cases "n < 0")
  case True
  then show ?thesis using nat_text_decimal [of "nat (- n)"]
    by (simp add: int_text_def integer_text_def integer_value_def unsigned_part_def sign_def)
next
  case False
  obtain b v where t: "nat_text (nat n) = b # v" using nat_text_decimal [of "nat n"] by (cases "nat_text (nat n)") auto
  then have "digit b" using nat_text_decimal [of "nat n"] by simp
  then have "\<not> sign b" "b \<noteq> 45" using sign_digit(1) by (auto simp: sign_def)
  then show ?thesis using False t nat_text_decimal [of "nat n"]
    by (simp add: int_text_def integer_text_def integer_value_def unsigned_part_def)
qed

lemma digit_word_byte: "digit b \<Longrightarrow> word_byte b" "sign b \<Longrightarrow> word_byte b"
proof -
  assume "digit b"
  then have "48 \<le> uint b" "uint b \<le> 57" by (simp_all add: digit_def word_le_def)
  then show "word_byte b" by (simp add: word_byte_def isprint_def delimiter_def del: uint_char_eq uint_number_byte)
next
  assume "sign b"
  then show "word_byte b" by (auto simp: sign_def word_byte_def isprint_def delimiter_def)
qed

lemma integer_text_bytes:
  assumes "integer_text w"
  shows "\<forall>b \<in> set w. word_byte b" "w \<noteq> []" "digit (hd w) \<or> sign (hd w)"
  using assms by (cases w; auto simp: integer_text_def unsigned_part_def digits_def list_all_iff intro: digit_word_byte split: if_splits)+

section \<open>Number tokens\<close>

text \<open>What the code relies on of the C library: \<open>atof\<close> of a number is no NaN, \<open>sprintf\<close> prints no NUL.\<close>

definition libc_ok :: "libc \<Rightarrow> bool" where
  "libc_ok lib \<longleftrightarrow> allocates lib \<and> (\<forall>t. float_text t \<longrightarrow> \<not> is_nan (atof lib t)) \<and> (\<forall>d. 0 \<notin> set (print_g lib d))"

lemma libc_ok_allocates: "libc_ok lib \<Longrightarrow> allocates lib"
  by (simp add: libc_ok_def)

definition float_form :: "libc \<Rightarrow> 64 word \<Rightarrow> byte list" where
  "float_form lib d = (let f = print_g lib d in if 46 \<in> set f \<or> 101 \<in> set f then f else f @ [46, 48])"

lemma FloatToString_ok:
  assumes "libc_ok lib" and "atoms_ok (atom_data s)"
  shows "\<exists>e. FloatToString lib d s = Inr (float_form lib d, s\<lparr>atom_data := e\<rparr>) \<and> grown (atom_data s) e"
proof -
  have "0 \<notin> set (float_form lib d)" using assms(1) by (auto simp: libc_ok_def float_form_def Let_def)
  then have "c_string (float_form lib d) = float_form lib d" by (rule c_string_nonzero)
  then show ?thesis
    using interned_text [OF libc_ok_allocates [OF assms(1)] assms(2), of "float_form lib d"]
    by (auto simp: FloatToString_def float_form_def Let_def)
qed

lemma int_text_nonzero: "0 \<notin> set (int_text n)"
  using int_text_value [of n] integer_text_bytes(1) [of "int_text n"]
  by (auto simp: word_byte_def isprint_def)

lemma LongIntegerToString_ok:
  assumes "libc_ok lib" and "atoms_ok (atom_data s)"
  shows "\<exists>e. LongIntegerToString lib x s = Inr (int_text (sint x), s\<lparr>atom_data := e\<rparr>) \<and> grown (atom_data s) e"
  using interned_text [OF libc_ok_allocates [OF assms(1)] assms(2), of "int_text (sint x)"] int_text_nonzero [of "sint x"]
  by (simp add: LongIntegerToString_def c_string_nonzero)

lemma clamped_range: "- (2 ^ 63) \<le> clamped v" "clamped v < 2 ^ 63"
  by (simp_all add: clamped_def)

lemma sint_clamped: "sint (word_of_int (clamped v) :: 64 word) = clamped v"
  using clamped_range [of v] by (simp add: signed_of_int signed_take_bit_int_eq_self_iff)

lemma least_clamped: "(word_of_int (clamped v) :: 64 word) = 0x8000000000000000 \<longleftrightarrow> clamped v = - (2 ^ 63)"
proof
  assume "(word_of_int (clamped v) :: 64 word) = 0x8000000000000000"
  then have "sint (word_of_int (clamped v) :: 64 word) = sint (0x8000000000000000 :: 64 word)" by simp
  then show "clamped v = - (2 ^ 63)" by (simp add: sint_clamped)
next
  assume "clamped v = - (2 ^ 63)"
  then show "(word_of_int (clamped v) :: 64 word) = 0x8000000000000000" by simp
qed

text \<open>The token after the loop of \<open>ScanNumber\<close> was left with \<open>phase\<close> 5.\<close>

lemma number_integer:
  assumes "libc_ok lib" and "atoms_ok (atom_data s)" and "clamped v \<noteq> - (2 ^ 63)"
  shows "\<exists>p e1 e. EnvAddLong (allocate lib) (word_of_int (clamped v)) (atom_data s) = Inr (p, e1)
    \<and> ValueToLong p (s\<lparr>atom_data := e1\<rparr>) = Inr (word_of_int (clamped v))
    \<and> LongIntegerToString lib (word_of_int (clamped v)) (s\<lparr>atom_data := e1\<rparr>) = Inr (int_text (clamped v), s\<lparr>atom_data := e\<rparr>)
    \<and> grown (atom_data s) e \<and> atom_at (IntegerTable e) p (word_of_int (clamped v))"
proof -
  let ?x = "word_of_int (clamped v) :: 64 word"
  have f: "fresh (allocate lib) (atom_data s)" using assms by (simp add: libc_ok_def allocates_def)
  have x: "regular_long ?x" using assms(3) least_clamped [of v] by (simp add: regular_long_def)
  obtain p e1 where p: "EnvAddLong (allocate lib) ?x (atom_data s) = Inr (p, e1)" "atoms_ok e1" "atom_at (IntegerTable e1) p ?x"
    "extends (IntegerTable (atom_data s)) (IntegerTable e1)" "SymbolTable e1 = SymbolTable (atom_data s)"
    "FloatTable e1 = FloatTable (atom_data s)"
    using add_long [OF assms(2) f x] by blast
  have ok: "atoms_ok (atom_data (s\<lparr>atom_data := e1\<rparr>))" using p(2) by simp
  obtain e where e: "LongIntegerToString lib ?x (s\<lparr>atom_data := e1\<rparr>) = Inr (int_text (clamped v), s\<lparr>atom_data := e\<rparr>)" "grown e1 e"
    using LongIntegerToString_ok [OF assms(1) ok, of ?x] by (auto simp: sint_clamped)
  have "grown (atom_data s) e1" using p by (simp add: grown_def)
  then have "grown (atom_data s) e" using e(2) by (rule grown_trans)
  moreover have "ValueToLong p (s\<lparr>atom_data := e1\<rparr>) = Inr ?x" using p(3) by (auto simp: ValueToLong_def atom_at_def)
  moreover have "atom_at (IntegerTable e) p ?x" using atom_at_extends [OF p(3)] e(2) by (simp add: grown_def)
  ultimately show ?thesis using p(1) e(1) by blast
qed

lemma number_float:
  assumes "libc_ok lib" and "atoms_ok (atom_data s)" and "float_text w"
  shows "\<exists>p e1 e. EnvAddDouble (allocate lib) (atof lib w) (atom_data s) = Inr (p, e1)
    \<and> ValueToDouble p (s\<lparr>atom_data := e1\<rparr>) = Inr (atof lib w)
    \<and> FloatToString lib (atof lib w) (s\<lparr>atom_data := e1\<rparr>) = Inr (float_form lib (atof lib w), s\<lparr>atom_data := e\<rparr>)
    \<and> grown (atom_data s) e \<and> atom_at (FloatTable e) p (atof lib w)"
proof -
  let ?x = "atof lib w"
  have f: "fresh (allocate lib) (atom_data s)" using assms by (simp add: libc_ok_def allocates_def)
  have x: "\<not> is_nan ?x" using assms by (simp add: libc_ok_def)
  obtain p e1 where p: "EnvAddDouble (allocate lib) ?x (atom_data s) = Inr (p, e1)" "atoms_ok e1" "atom_at (FloatTable e1) p ?x"
    "extends (FloatTable (atom_data s)) (FloatTable e1)" "SymbolTable e1 = SymbolTable (atom_data s)"
    "IntegerTable e1 = IntegerTable (atom_data s)"
    using add_double [OF assms(2) f x] by blast
  have ok: "atoms_ok (atom_data (s\<lparr>atom_data := e1\<rparr>))" using p(2) by simp
  obtain e where e: "FloatToString lib ?x (s\<lparr>atom_data := e1\<rparr>) = Inr (float_form lib ?x, s\<lparr>atom_data := e\<rparr>)" "grown e1 e"
    using FloatToString_ok [OF assms(1) ok, of ?x] by auto
  have "grown (atom_data s) e1" using p by (simp add: grown_def)
  then have "grown (atom_data s) e" using e(2) by (rule grown_trans)
  moreover have "ValueToDouble p (s\<lparr>atom_data := e1\<rparr>) = Inr ?x" using p(3) by (auto simp: ValueToDouble_def atom_at_def)
  moreover have "atom_at (FloatTable e) p ?x" using atom_at_extends [OF p(3)] e(2) by (simp add: grown_def)
  ultimately show ?thesis using p(1) e(1) by blast
qed

section \<open>Tokens of words\<close>

text \<open>A word of the input, followed by what cannot be in a symbol.\<close>

definition at_word :: "byte list \<Rightarrow> byte list \<Rightarrow> scan \<Rightarrow> bool" where
  "at_word w rest s \<longleftrightarrow> idle s \<and> readable s \<and> input s = w @ rest \<and> w \<noteq> [] \<and> \<not> symbol_char (next_char rest)
     \<and> atoms_ok (atom_data s)"

lemma at_wordD:
  assumes "at_word w rest s"
  shows "idle s" "readable s" "input s = w @ rest" "w \<noteq> []" "\<not> symbol_char (next_char rest)" "atoms_ok (atom_data s)"
    "0 \<notin> set w" "next_char (input s) = uint (hd w)"
  using assms by (cases w; simp add: at_word_def readable_def)+

lemma number_tail:
  "number_token lib (5, inchar, tracked t df pf, s) =
     (let s = EnvUngetcRouter inchar s in
         if \<not> df then
           bind_res (add_symbol_atom lib (GlobalString s) s) (\<lambda>(p, s).
           bind_res (ValueToString p s) (\<lambda>f.
             Inr (\<lparr>token_type = SYMBOL_TOKEN, token_value = Some p, printForm = f\<rparr>, s)))
         else if pf then
           let fvalue = atof lib (text_so_far (GlobalString s)) in
           bind_res (EnvAddDouble (allocate lib) fvalue (atom_data s)) (\<lambda>(p, e).
           let s = s\<lparr>atom_data := e\<rparr> in
           bind_res (ValueToDouble p s) (\<lambda>d.
           bind_res (FloatToString lib d s) (\<lambda>(f, s).
             Inr (\<lparr>token_type = FLOAT_TOKEN, token_value = Some p, printForm = f\<rparr>, s))))
         else
           let (lvalue, errno) = strtoll (text_so_far (GlobalString s));
               s = (if errno then s\<lparr>messages := messages s @ [''SCANNER1 warning'']\<rparr> else s) in
           bind_res (EnvAddLong (allocate lib) (word_of_int lvalue) (atom_data s)) (\<lambda>(p, e).
           let s = s\<lparr>atom_data := e\<rparr> in
           bind_res (ValueToLong p s) (\<lambda>l.
           bind_res (LongIntegerToString lib l s) (\<lambda>(f, s).
             Inr (\<lparr>token_type = INTEGER_TOKEN, token_value = Some p, printForm = f\<rparr>, s)))))"
  by (cases df; cases pf) (simp_all add: number_token_def tracked_def)

lemma ScanNumber_loop:
  assumes "readable s" and "number_loop (-1) (next_char (input s)) (tracked [] False False) (advance 1 s) = Inr r"
  shows "ScanNumber lib s = number_token lib r"
proof -
  have v: "\<lparr>digits_count = 0, digitFound = False, processFloat = False\<rparr> = tracked [] False False" by (simp add: tracked_def)
  show ?thesis
    unfolding ScanNumber_def getc [OF assms(1)] bind_res_Inr prod.case v assms(2) by simp
qed

text \<open>The end of a number in the state after its word.\<close>

lemma after_word:
  assumes "at_word w rest s"
  shows "EnvUngetcRouter (next_char rest) (advance (length w + 1) s) = advance (length w) s"
proof -
  have r: "readable (advance (length w) s)" using readable_advance at_wordD [OF assms] by simp
  show ?thesis using ungetc [OF r] at_wordD(3) [OF assms] by simp
qed

lemma number_symbol:
  assumes "at_word w rest s" and "\<forall>b \<in> set w. word_byte b" and "libc_ok lib" and "number_type w = SYMBOL_TOKEN"
    and "hd w \<noteq> 91"
  shows "\<exists>p m e. ScanNumber lib s = Inr (\<lparr>token_type = SYMBOL_TOKEN, token_value = Some p, printForm = w\<rparr>,
      scanned w m e (advance (length w) s)) \<and> grown (atom_data s) e \<and> atom_at (SymbolTable e) p w"
proof -
  note w = at_wordD [OF assms(1)]
  have nb: "\<not> bracketed w" using assms(5) by (simp add: bracketed_def)
  obtain p df pf where r: "phases (-1) False False w = (p, df, pf)" by (cases "phases (-1) False False w") auto
  have end': "\<not> ends_number p df w" using r assms(4) run_type_eq [OF w(4)] by (auto simp: run_type_def split: if_splits)
  have word: "if p = 9
    then \<exists>v b u m. w = v @ b # u \<and> number_loop (-1) (next_char (input s)) (tracked [] False False) (advance 1 s)
      = Inr (9, uint b, tracked ([] @ v @ [b]) df pf, holding ([] @ v @ [b]) m (advance (length v + 1) s))
        \<and> length ([] @ v @ [b]) \<le> m
    else \<exists>m. number_loop (-1) (next_char (input s)) (tracked [] False False) (advance 1 s)
      = Inr (5, next_char rest, tracked ([] @ w) (ends_number p df ([] @ w)) pf, holding ([] @ w) m (advance (length w + 1) s))"
    using w assms(2) r by (intro number_loop_word) (auto simp: idle_with_text not_symbol_char_end)
  show ?thesis
  proof (cases "p = 9")
    case True
    with word obtain v b u m where v: "w = v @ b # u"
      "number_loop (-1) (next_char (input s)) (tracked [] False False) (advance 1 s)
      = Inr (9, uint b, tracked (v @ [b]) df pf, holding (v @ [b]) m (advance (length v + 1) s))" "length (v @ [b]) \<le> m"
      by auto
    let ?s = "advance (length v + 1) s"
    have "ScanNumber lib s = symbol_token lib (length (v @ [b])) (holding (v @ [b]) m ?s)"
      using ScanNumber_loop [OF w(2) v(2)] by (simp add: number_token_def tracked_def)
    moreover have t: "with_text (v @ [b]) ?s (holding (v @ [b]) m ?s)" using v(3) by (auto simp: with_text_def)
    have i: "input ?s = u @ rest" "readable ?s" using w(2,3) v(1) readable_advance by simp_all
    have c: "\<forall>b \<in> set u. symbol_char (uint b)" using assms(2) v(1) word_byte_char by simp
    have z: "0 \<notin> set (v @ [b])" using w(7) v(1) by simp
    have ok: "atoms_ok (atom_data ?s)" using w(6) by simp
    from symbol_token_ok [OF t i c w(5) _ z libc_ok_allocates [OF assms(3)] ok] obtain q m' e where
      "symbol_token lib (length (v @ [b])) (holding (v @ [b]) m ?s)
        = Inr (\<lparr>token_type = word_type w, token_value = Some q, printForm = word_text w\<rparr>,
            scanned w m' e (advance (length u) ?s))" "grown (atom_data s) e" "atom_at (SymbolTable e) q (word_text w)"
      using v(1) by auto
    moreover have "advance (length u) ?s = advance (length w) s" using v(1) by simp
    ultimately show ?thesis using nb by (simp only: word_type_def word_text_def if_False) blast
  next
    case False
    with word end' obtain m where m: "number_loop (-1) (next_char (input s)) (tracked [] False False) (advance 1 s)
      = Inr (5, next_char rest, tracked w False pf, holding w m (advance (length w + 1) s))" by auto
    let ?s = "holding w m (advance (length w) s)"
    have ok: "atoms_ok (atom_data ?s)" using w(6) by simp
    obtain q e where q: "add_symbol_atom lib (Some w) ?s = Inr (q, ?s\<lparr>atom_data := e\<rparr>)" "grown (atom_data s) e"
      "atom_at (SymbolTable e) q w"
      using add_symbol_atom [OF libc_ok_allocates [OF assms(3)] ok, of w] c_string_nonzero [OF w(7)] by auto
    moreover have "ValueToString q (?s\<lparr>atom_data := e\<rparr>) = Inr w" using q(3) by (simp add: ValueToString_at)
    moreover have "?s\<lparr>atom_data := e\<rparr> = scanned w m e (advance (length w) s)" by (simp add: scanned_def holding_def)
    ultimately have "ScanNumber lib s = Inr (\<lparr>token_type = SYMBOL_TOKEN, token_value = Some q, printForm = w\<rparr>,
      scanned w m e (advance (length w) s))"
      by (simp only: ScanNumber_loop [OF w(2) m, of lib] number_tail after_word [OF assms(1)] if_True if_False
        holding_fields advance_fields bind_res_Inr prod.case Let_def simp_thms)
    then show ?thesis using q(2,3) by blast
  qed
qed

lemma number_phase_5:
  assumes "at_word w rest s" and "\<forall>b \<in> set w. word_byte b" and "number_type w \<noteq> SYMBOL_TOKEN"
  shows "\<exists>m. number_loop (-1) (next_char (input s)) (tracked [] False False) (advance 1 s)
    = Inr (5, next_char rest, tracked w True (number_type w = FLOAT_TOKEN), holding w m (advance (length w + 1) s))"
proof -
  note w = at_wordD [OF assms(1)]
  obtain p df pf where r: "phases (-1) False False w = (p, df, pf)" by (cases "phases (-1) False False w") auto
  have e: "ends_number p df w" "pf = (number_type w = FLOAT_TOKEN)"
    using r assms(3) run_type_eq [OF w(4)] by (auto simp: run_type_def split: if_splits)
  then have p: "p \<noteq> 9" by (simp add: ends_number_def)
  have "if p = 9
    then \<exists>v b u m. w = v @ b # u \<and> number_loop (-1) (next_char (input s)) (tracked [] False False) (advance 1 s)
      = Inr (9, uint b, tracked ([] @ v @ [b]) df pf, holding ([] @ v @ [b]) m (advance (length v + 1) s))
        \<and> length ([] @ v @ [b]) \<le> m
    else \<exists>m. number_loop (-1) (next_char (input s)) (tracked [] False False) (advance 1 s)
      = Inr (5, next_char rest, tracked ([] @ w) (ends_number p df ([] @ w)) pf, holding ([] @ w) m (advance (length w + 1) s))"
    using w assms(2) r by (intro number_loop_word) (auto simp: idle_with_text not_symbol_char_end)
  then show ?thesis using p e by simp
qed

lemma number_integer_token:
  assumes "at_word w rest s" and "\<forall>b \<in> set w. word_byte b" and "libc_ok lib" and "integer_text w"
  defines "v \<equiv> integer_value w"
  shows "if clamped v = - (2 ^ 63) then ScanNumber lib s = Inl Overflow
    else \<exists>p m e. ScanNumber lib s = Inr (\<lparr>token_type = INTEGER_TOKEN, token_value = Some p, printForm = int_text (clamped v)\<rparr>,
        (scanned w m e (advance (length w) s))
          \<lparr>messages := messages s @ (if clamped v = v then [] else [''SCANNER1 warning''])\<rparr>)
      \<and> grown (atom_data s) e \<and> atom_at (IntegerTable e) p (word_of_int (clamped v))"
proof -
  note w = at_wordD [OF assms(1)]
  have t: "number_type w = INTEGER_TOKEN" using assms(4) by (simp add: number_type_def)
  then obtain m where m: "number_loop (-1) (next_char (input s)) (tracked [] False False) (advance 1 s)
      = Inr (5, next_char rest, tracked w True False, holding w m (advance (length w + 1) s))"
    using number_phase_5 [OF assms(1,2)] by auto
  let ?s = "(holding w m (advance (length w) s))
    \<lparr>messages := messages s @ (if clamped v = v then [] else [''SCANNER1 warning''])\<rparr>"
  have s: "(if clamped v \<noteq> v then (holding w m (advance (length w) s))\<lparr>messages := messages s @ [''SCANNER1 warning'']\<rparr>
    else holding w m (advance (length w) s)) = ?s" by (simp add: holding_def advance_def)
  have ok: "atoms_ok (atom_data ?s)" using w(6) by simp
  have ad: "atom_data ?s = atom_data s" by simp
  have scan: "ScanNumber lib s = bind_res (EnvAddLong (allocate lib) (word_of_int (clamped v)) (atom_data s)) (\<lambda>(p, e).
      let s = ?s\<lparr>atom_data := e\<rparr> in
      bind_res (ValueToLong p s) (\<lambda>l.
      bind_res (LongIntegerToString lib l s) (\<lambda>(f, s).
        Inr (\<lparr>token_type = INTEGER_TOKEN, token_value = Some p, printForm = f\<rparr>, s))))"
    using s by (simp only: ScanNumber_loop [OF w(2) m, of lib] number_tail after_word [OF assms(1)] if_True if_False
      holding_fields advance_fields text_so_far_simps strtoll_integer [OF assms(4), folded v_def] prod.case Let_def simp_thms ad)
  show ?thesis
  proof (cases "clamped v = - (2 ^ 63)")
    case True
    then have "(word_of_int (clamped v) :: 64 word) = 0x8000000000000000" by (rule least_clamped [THEN iffD2])
    then have "ScanNumber lib s = Inl Overflow" unfolding scan by (simp only: least_integer_overflows bind_res_Inl)
    then show ?thesis unfolding if_P [OF True] .
  next
    case False
    obtain p e1 e where p: "EnvAddLong (allocate lib) (word_of_int (clamped v)) (atom_data s) = Inr (p, e1)"
      "ValueToLong p (?s\<lparr>atom_data := e1\<rparr>) = Inr (word_of_int (clamped v))"
      "LongIntegerToString lib (word_of_int (clamped v)) (?s\<lparr>atom_data := e1\<rparr>) = Inr (int_text (clamped v), ?s\<lparr>atom_data := e\<rparr>)"
      "grown (atom_data s) e" "atom_at (IntegerTable e) p (word_of_int (clamped v))"
      using number_integer [OF assms(3) ok False] by auto
    have "?s\<lparr>atom_data := e\<rparr> = (scanned w m e (advance (length w) s))
      \<lparr>messages := messages s @ (if clamped v = v then [] else [''SCANNER1 warning''])\<rparr>"
      by (simp add: scanned_def holding_def)
    then have "ScanNumber lib s = Inr (\<lparr>token_type = INTEGER_TOKEN, token_value = Some p, printForm = int_text (clamped v)\<rparr>,
        (scanned w m e (advance (length w) s))
          \<lparr>messages := messages s @ (if clamped v = v then [] else [''SCANNER1 warning''])\<rparr>)"
      using p(1-3) by (simp only: scan bind_res_Inr prod.case Let_def)
    then show ?thesis using False p(4,5) by (simp only: if_False) blast
  qed
qed

lemma number_float_token:
  assumes "at_word w rest s" and "\<forall>b \<in> set w. word_byte b" and "libc_ok lib" and "number_type w = FLOAT_TOKEN"
  shows "\<exists>p m e. ScanNumber lib s
      = Inr (\<lparr>token_type = FLOAT_TOKEN, token_value = Some p, printForm = float_form lib (atof lib w)\<rparr>,
          scanned w m e (advance (length w) s))
      \<and> grown (atom_data s) e \<and> atom_at (FloatTable e) p (atof lib w)"
proof -
  note w = at_wordD [OF assms(1)]
  obtain m where m: "number_loop (-1) (next_char (input s)) (tracked [] False False) (advance 1 s)
      = Inr (5, next_char rest, tracked w True True, holding w m (advance (length w + 1) s))"
    using number_phase_5 [OF assms(1,2)] assms(4) by auto
  have f: "float_text w" using assms(4) by (auto simp: number_type_def split: if_splits)
  let ?s = "holding w m (advance (length w) s)"
  have ok: "atoms_ok (atom_data ?s)" using w(6) by simp
  obtain p e1 e where p: "EnvAddDouble (allocate lib) (atof lib w) (atom_data s) = Inr (p, e1)"
    "ValueToDouble p (?s\<lparr>atom_data := e1\<rparr>) = Inr (atof lib w)"
    "FloatToString lib (atof lib w) (?s\<lparr>atom_data := e1\<rparr>) = Inr (float_form lib (atof lib w), ?s\<lparr>atom_data := e\<rparr>)"
    "grown (atom_data s) e" "atom_at (FloatTable e) p (atof lib w)"
    using number_float [OF assms(3) ok f] by auto
  have "?s\<lparr>atom_data := e\<rparr> = scanned w m e (advance (length w) s)" by (simp add: scanned_def holding_def)
  then have "ScanNumber lib s
      = Inr (\<lparr>token_type = FLOAT_TOKEN, token_value = Some p, printForm = float_form lib (atof lib w)\<rparr>,
          scanned w m e (advance (length w) s))"
    using p(1-3) by (simp only: ScanNumber_loop [OF w(2) m, of lib] number_tail after_word [OF assms(1)] if_True if_False
      holding_fields advance_fields text_so_far_simps bind_res_Inr prod.case Let_def simp_thms)
  then show ?thesis using p(4,5) by blast
qed

end
