(* ===== verification/Tokens.thy ===== *)
theory Tokens
  imports NumberScan
begin

text \<open>
  The tokens \<open>GetToken\<close> (\<open>CLIPS/scanner.c\<close>) returns for symbols, numbers, variables and strings, and its
  properties.
\<close>

section \<open>An allocator\<close>

text \<open>The next address after all that the tables use.\<close>

definition used :: "'a atoms \<Rightarrow> address list" where
  "used t = concat (map (chains t) [0..<65536])"

definition next_address :: "symbolData \<Rightarrow> address" where
  "next_address e = Suc (sum_list (used (SymbolTable e)) + sum_list (used (FloatTable e)) + sum_list (used (IntegerTable e))
     + sum_list (used (BitMapTable e)) + sum_list (used (ExternalAddressTable e)))"

lemma used_above:
  assumes "table_ok hash regular t" and "\<And>x. hash x < 65536" and "sum_list (used t) < p"
  shows "nodes t p = None"
proof (rule ccontr)
  assume "nodes t p \<noteq> None"
  then obtain n where n: "nodes t p = Some n" by auto
  have "p \<in> set (chains t (hash (contents n)))" using chainedD(1,2) [OF table_ok_chained [OF assms(1)] n] by simp
  moreover have "hash (contents n) \<in> set [0..<65536]" using assms(2) by simp
  ultimately have "p \<in> set (used t)" unfolding used_def set_concat set_map by blast
  then have "p \<le> sum_list (used t)" by (rule member_le_sum_list) simp
  then show False using assms(3) by simp
qed

lemma hash_ranges:
  "symbol_hash s < 65536" "float_hash d < 65536" "long_hash l < 65536" "bitmap_hash b < 65536"
  "HashExternalAddress a EXTERNAL_ADDRESS_HASH_SIZE < 65536"
proof -
  have m: "n mod 8191 < 65536" for n :: nat using mod_less_divisor [of 8191 n] by linarith
  show "symbol_hash s < 65536" using symbol_hash_less [of s] by linarith
  show "float_hash d < 65536" using m by (simp add: HashFloat_def in_range_def)
  show "long_hash l < 65536" using m by (simp add: long_hash_def HashInteger_def)
  show "bitmap_hash b < 65536" using m by (simp add: bitmap_hash_def HashBitMap_def in_range_def)
  show "HashExternalAddress a EXTERNAL_ADDRESS_HASH_SIZE < 65536" using m by (simp add: HashExternalAddress_def in_range_def)
qed

lemma next_address_fresh:
  assumes "atoms_ok e"
  shows "fresh next_address e"
proof -
  note ok = assms [unfolded atoms_ok_def]
  have "nodes (SymbolTable e) (next_address e) = None"
    using ok hash_ranges by (intro used_above [where t = "SymbolTable e"]) (auto simp: next_address_def)
  moreover have "nodes (FloatTable e) (next_address e) = None"
    using ok hash_ranges by (intro used_above [where t = "FloatTable e"]) (auto simp: next_address_def)
  moreover have "nodes (IntegerTable e) (next_address e) = None"
    using ok hash_ranges by (intro used_above [where t = "IntegerTable e"]) (auto simp: next_address_def)
  moreover have "nodes (BitMapTable e) (next_address e) = None"
    using ok hash_ranges by (intro used_above [where t = "BitMapTable e"]) (auto simp: next_address_def)
  moreover have "nodes (ExternalAddressTable e) (next_address e) = None"
    using ok hash_ranges by (intro used_above [where t = "ExternalAddressTable e"]) (auto simp: next_address_def)
  ultimately show ?thesis by (simp add: fresh_def)
qed

definition demo_libc :: libc where
  "demo_libc = \<lparr>allocate = next_address, atof = (\<lambda>t. 0x3FF8000000000000), print_g = (\<lambda>d. bytes_of ''1.5'')\<rparr>"

lemma demo_libc_ok: "libc_ok demo_libc"
  by (simp add: demo_libc_def libc_ok_def allocates_def next_address_fresh is_nan_def bytes_of_def)

definition demo_scan :: "string \<Rightarrow> scan" where
  "demo_scan t = \<lparr>fast = True, chars = bytes_of t, index = 0, counting = True, LineCount = 1, GlobalString = None,
     GlobalMax = 0, IgnoreCompletionErrors = False, messages = [], atom_data = empty_data\<rparr>"

lemma demo_scan_ok [simp]:
  "idle (demo_scan t)" "atoms_ok (atom_data (demo_scan t))" "input (demo_scan t) = bytes_of t"
  "readable (demo_scan t) = (0 \<notin> set (bytes_of t))" "messages (demo_scan t) = []" "IgnoreCompletionErrors (demo_scan t) = False"
  by (simp_all add: demo_scan_def idle_def input_def readable_def empty_data_ok)

section \<open>Tokens\<close>

definition symbol_start :: "byte \<Rightarrow> bool" where
  "symbol_start b \<longleftrightarrow> (isalpha (uint b) \<or> isprint (uint b) \<or> IsUTF8MultiByteStart (uint b))
     \<and> symbol_char (uint b) \<and> \<not> digit b \<and> \<not> sign b \<and> b \<notin> {46, 63, 36}"

lemma symbol_char_blank: "symbol_char (uint b) \<Longrightarrow> \<not> blank (uint b)"
  by (auto simp: symbol_char_def blank_def delimiter_def isprint_def IsUTF8MultiByteStart_def IsUTF8MultiByteContinuation_def)

lemma uint_special [simp]:
  "uint (b :: byte) = 63 \<longleftrightarrow> b = 63" "uint b = 36 \<longleftrightarrow> b = 36" "uint b = 60 \<longleftrightarrow> b = 60" "uint b = 40 \<longleftrightarrow> b = 40"
  "uint b = 41 \<longleftrightarrow> b = 41" "uint b = 126 \<longleftrightarrow> b = 126" "uint b = 124 \<longleftrightarrow> b = 124" "uint b = 38 \<longleftrightarrow> b = 38" "uint b = 0 \<longleftrightarrow> b = 0"
  "uint b = 3 \<longleftrightarrow> b = 3"
  using word_uint_eq_iff [of b 63] word_uint_eq_iff [of b 36] word_uint_eq_iff [of b 60] word_uint_eq_iff [of b 40]
    word_uint_eq_iff [of b 41] word_uint_eq_iff [of b 126] word_uint_eq_iff [of b 124] word_uint_eq_iff [of b 38]
    word_uint_eq_iff [of b 0] word_uint_eq_iff [of b 3] by simp_all

lemma alpha_unbracketed: "isalpha (uint (hd w)) \<or> IsUTF8MultiByteStart (uint (hd w)) \<Longrightarrow> \<not> bracketed w"
  by (auto simp: bracketed_def isalpha_def IsUTF8MultiByteStart_def)

lemma symbol_word:
  assumes "at_word w rest s" and "\<forall>b \<in> set w. symbol_char (uint b)" and "symbol_start (hd w)" and "libc_ok lib"
  shows "\<exists>p e. GetToken lib s = Inr (\<lparr>token_type = word_type w, token_value = Some p, printForm = word_text w\<rparr>,
      (advance (length w) s)\<lparr>atom_data := e\<rparr>)
    \<and> grown (atom_data s) e \<and> atom_at (SymbolTable e) p (word_text w)"
proof -
  note w = at_wordD [OF assms(1)]
  have h: "symbol_char (uint (hd w))" using assms(2) w(4) by simp
  have nb: "\<not> blank (next_char (input s))" using symbol_char_blank [OF h] w(8) by simp
  have u: "EnvUngetcRouter (uint (hd w)) (advance 1 s) = s" using ungetc [OF w(2)] w(8) by simp
  obtain p m e where t: "symbol_token lib 0 s = Inr (\<lparr>token_type = word_type w, token_value = Some p, printForm = word_text w\<rparr>,
      scanned w m e (advance (length w) s))" "grown (atom_data s) e" "atom_at (SymbolTable e) p (word_text w)"
    using symbol_token_ok [OF idle_with_text [OF w(1)] w(3,2) assms(2) w(5) _ _ libc_ok_allocates [OF assms(4)] w(6)] w(4)
    by auto
  have "token_from lib (uint (hd w)) (advance 1 s) = Inr (\<lparr>token_type = word_type w, token_value = Some p, printForm = word_text w\<rparr>,
      scanned w m e (advance (length w) s))"
  proof (cases "isalpha (uint (hd w)) \<or> IsUTF8MultiByteStart (uint (hd w))")
    case True
    then have "word_type w = SYMBOL_TOKEN" using alpha_unbracketed by (simp add: word_type_def)
    then show ?thesis using True t(1) by (simp add: token_from_def u [unfolded One_nat_def])
  next
    case False
    then have "isprint (uint (hd w))" "\<not> delimiter (uint (hd w))" "hd w \<noteq> 63" "hd w \<noteq> 36" "hd w \<noteq> 43" "hd w \<noteq> 45"
      "hd w \<noteq> 46" "\<not> digit (hd w)"
      using assms(3) h by (auto simp: symbol_start_def symbol_char_def sign_def)
    moreover have "hd w \<noteq> 34" "hd w \<noteq> 60" "hd w \<noteq> 40" "hd w \<noteq> 41" "hd w \<noteq> 126" "hd w \<noteq> 124" "hd w \<noteq> 38" "hd w \<noteq> 0" "hd w \<noteq> 3"
      using h by (auto simp: symbol_char_def delimiter_def isprint_def IsUTF8MultiByteStart_def IsUTF8MultiByteContinuation_def)
    ultimately show ?thesis using False t(1) by (simp add: token_from_def u [unfolded One_nat_def])
  qed
  then show ?thesis
    using GetToken_from [OF w(1,2) nb] w(8) t(2,3) finish_scanned [of "advance (length w) s"] w(1) by auto
qed

text \<open>A word that begins like a number.\<close>

lemma GetToken_number:
  assumes "at_word w rest s" and "digit (hd w) \<or> sign (hd w) \<or> hd w = 46"
  shows "GetToken lib s = bind_res (ScanNumber lib s) (\<lambda>(t, s). Inr (t, finish s))"
proof -
  note w = at_wordD [OF assms(1)]
  have u: "EnvUngetcRouter (uint (hd w)) (advance 1 s) = s" using ungetc [OF w(2)] w(8) by simp
  have r: "43 \<le> uint (hd w) \<and> uint (hd w) \<le> 57"
    using assms(2) by (auto simp: digit_def sign_def word_le_def)
  have "token_from lib (uint (hd w)) (advance 1 s) = ScanNumber lib s"
  proof (cases "digit (hd w)")
    case True
    have "\<not> isalpha (uint (hd w))" "\<not> IsUTF8MultiByteStart (uint (hd w))"
      using r by (simp_all add: isalpha_def IsUTF8MultiByteStart_def)
    then show ?thesis using True by (simp add: token_from_def u [unfolded One_nat_def])
  next
    case False
    have "\<not> isalpha (uint (hd w))" "\<not> IsUTF8MultiByteStart (uint (hd w))"
      using r by (simp_all add: isalpha_def IsUTF8MultiByteStart_def)
    moreover have "hd w \<noteq> 34" "hd w = 45 \<or> hd w = 46 \<or> hd w = 43" using assms(2) False by (auto simp: sign_def)
    ultimately show ?thesis using False by (simp add: token_from_def u [unfolded One_nat_def])
  qed
  moreover have "\<not> blank (next_char (input s))" using r w(8) by (simp add: blank_def del: uint_char_eq)
  ultimately show ?thesis using GetToken_from [OF w(1,2), of lib] w(8) by simp
qed

lemma finish_messages: "idle s \<Longrightarrow> finish ((scanned t m e s)\<lparr>messages := ms\<rparr>) = s\<lparr>atom_data := e, messages := ms\<rparr>"
  by (cases s) (simp add: finish_def scanned_def holding_def idle_def)

lemma integer_word:
  assumes "at_word w rest s" and "integer_text w" and "libc_ok lib"
  defines "v \<equiv> integer_value w"
  shows "if clamped v = - (2 ^ 63) then GetToken lib s = Inl Overflow
    else \<exists>p e. GetToken lib s = Inr (\<lparr>token_type = INTEGER_TOKEN, token_value = Some p, printForm = int_text (clamped v)\<rparr>,
        (advance (length w) s)
          \<lparr>atom_data := e, messages := messages s @ (if clamped v = v then [] else [''SCANNER1 warning''])\<rparr>)
      \<and> grown (atom_data s) e \<and> atom_at (IntegerTable e) p (word_of_int (clamped v))"
proof -
  note w = at_wordD [OF assms(1)]
  note b = integer_text_bytes [OF assms(2)]
  have g: "GetToken lib s = bind_res (ScanNumber lib s) (\<lambda>(t, s). Inr (t, finish s))"
    using GetToken_number [OF assms(1)] b(3) by blast
  have i: "idle (advance (length w) s)" using w(1) by simp
  note n = number_integer_token [OF assms(1) b(1) assms(3,2), folded v_def]
  show ?thesis
  proof (cases "clamped v = - (2 ^ 63)")
    case True
    with n have "ScanNumber lib s = Inl Overflow" by (simp only: if_True)
    then show ?thesis unfolding if_P [OF True] g by (simp only: bind_res_Inl)
  next
    case False
    from n [unfolded if_not_P [OF False]] obtain p m e where p: "ScanNumber lib s = Inr (\<lparr>token_type = INTEGER_TOKEN, token_value = Some p, printForm = int_text (clamped v)\<rparr>,
        (scanned w m e (advance (length w) s))
          \<lparr>messages := messages s @ (if clamped v = v then [] else [''SCANNER1 warning''])\<rparr>)"
      "grown (atom_data s) e" "atom_at (IntegerTable e) p (word_of_int (clamped v))" by blast
    have "GetToken lib s = Inr (\<lparr>token_type = INTEGER_TOKEN, token_value = Some p, printForm = int_text (clamped v)\<rparr>,
        (advance (length w) s)
          \<lparr>atom_data := e, messages := messages s @ (if clamped v = v then [] else [''SCANNER1 warning''])\<rparr>)"
      unfolding g p(1) bind_res_Inr prod.case finish_messages [OF i] ..
    then show ?thesis unfolding if_not_P [OF False] using p(2,3) by blast
  qed
qed

text \<open>A word that is no integer: a float or a symbol.\<close>

lemma other_word:
  assumes "at_word w rest s" and "\<forall>b \<in> set w. word_byte b" and "digit (hd w) \<or> sign (hd w) \<or> hd w = 46"
    and "\<not> integer_text w" and "libc_ok lib"
  shows "\<exists>p e. GetToken lib s = Inr (
      if float_text w
      then \<lparr>token_type = FLOAT_TOKEN, token_value = Some p, printForm = float_form lib (atof lib w)\<rparr>
      else \<lparr>token_type = SYMBOL_TOKEN, token_value = Some p, printForm = w\<rparr>,
      (advance (length w) s)\<lparr>atom_data := e\<rparr>)
    \<and> grown (atom_data s) e
    \<and> (if float_text w then atom_at (FloatTable e) p (atof lib w) else atom_at (SymbolTable e) p w)"
proof -
  note w = at_wordD [OF assms(1)]
  have i: "idle (advance (length w) s)" using w(1) by simp
  show ?thesis
  proof (cases "float_text w")
    case True
    then have "number_type w = FLOAT_TOKEN" using assms(4) by (simp add: number_type_def)
    from number_float_token [OF assms(1,2,5) this] obtain p m e where
      "ScanNumber lib s = Inr (\<lparr>token_type = FLOAT_TOKEN, token_value = Some p, printForm = float_form lib (atof lib w)\<rparr>,
          scanned w m e (advance (length w) s))" "grown (atom_data s) e" "atom_at (FloatTable e) p (atof lib w)" by blast
    then show ?thesis using True GetToken_number [OF assms(1,3)] finish_scanned [OF i] by auto
  next
    case False
    then have "number_type w = SYMBOL_TOKEN" using assms(4) by (simp add: number_type_def)
    moreover have "hd w \<noteq> 91" using assms(3) by (auto simp: digit_def sign_def)
    ultimately obtain p m e where
      "ScanNumber lib s = Inr (\<lparr>token_type = SYMBOL_TOKEN, token_value = Some p, printForm = w\<rparr>,
          scanned w m e (advance (length w) s))" "grown (atom_data s) e" "atom_at (SymbolTable e) p w"
      using number_symbol [OF assms(1,2,5)] by blast
    then show ?thesis using False GetToken_number [OF assms(1,3)] finish_scanned [OF i] by auto
  qed
qed

section \<open>Variables\<close>

definition starred :: "byte list \<Rightarrow> bool" where
  "starred w \<longleftrightarrow> 1 < length w \<and> hd w = 42 \<and> last w = 42"

lemma variable_unbracketed: "variable_start (uint (hd w)) \<Longrightarrow> \<not> bracketed w"
  by (auto simp: bracketed_def variable_start_def isalpha_def IsUTF8MultiByteStart_def)

lemma append_strings:
  assumes "allocates lib" and "atoms_ok (atom_data s)" and "0 \<notin> set (a @ b)"
  shows "\<exists>e. AppendStrings lib a b s = Inr (a @ b, s\<lparr>atom_data := e\<rparr>) \<and> grown (atom_data s) e"
  using interned_text [OF assms(1,2), of "a @ b"] c_string_nonzero [OF assms(3)]
  by (simp add: AppendStrings_def AppendToString_def Let_def)

lemma scanned_atoms [simp]: "(scanned t m e s)\<lparr>atom_data := e'\<rparr> = scanned t m e' s"
  "atom_data (scanned t m e s) = e" "GlobalString (scanned t m e s) = Some t"
  by (simp_all add: scanned_def holding_def)

lemma variable_word:
  assumes "at_word w rest s" and "\<forall>b \<in> set w. symbol_char (uint b)" and "variable_start (uint (hd w))" and "allocates lib"
    and "0 \<notin> set (bytes_of prefix)"
  shows "\<exists>p m e. variable_token lib plain gbl prefix s
      = Inr (\<lparr>token_type = if starred w then gbl else plain, token_value = Some p, printForm = bytes_of prefix @ w\<rparr>,
          scanned w m e (advance (length w) s))
    \<and> grown (atom_data s) e \<and> atom_at (SymbolTable e) p (if starred w then butlast (tl w) else w)"
proof -
  note w = at_wordD [OF assms(1)]
  have nb: "\<not> bracketed w" using variable_unbracketed assms(3) by blast
  obtain p m e where t: "ScanSymbol lib 0 s = Inr (p, SYMBOL_TOKEN, scanned w m e (advance (length w) s))"
    "grown (atom_data s) e" "atom_at (SymbolTable e) p w"
    using scan_symbol_atom [OF idle_with_text [OF w(1)] w(3,2) assms(2) w(5) _ _ assms(4) w(6)] w(4) nb
    by (auto simp: word_type_def word_text_def)
  let ?s = "\<lambda>e. scanned w m e (advance (length w) s)"
  have name: "ValueToString p (?s e) = Inr w" using t(3) by (simp add: ValueToString_at)
  obtain e1 where e1: "AppendStrings lib (bytes_of prefix) w (?s e) = Inr (bytes_of prefix @ w, ?s e1)" "grown e e1"
    using append_strings [OF assms(4), of "?s e" "bytes_of prefix" w] grown_ok [OF t(2)] w(7) assms(5) by auto
  have st: "(w \<noteq> [] \<and> hd w = 42 \<and> 1 < length w \<and> last w = 42) = starred w" using w(4) by (auto simp: starred_def)
  show ?thesis
  proof (cases "starred w")
    case True
    have z: "0 \<notin> set (butlast (tl w))" using w(7) by (cases w) (auto dest: in_set_butlastD)
    obtain q e2 where q: "add_symbol_atom lib (Some (butlast (tl w))) (?s e1) = Inr (q, ?s e2)" "grown e1 e2"
      "atom_at (SymbolTable e2) q (butlast (tl w))"
      using add_symbol_atom [OF assms(4), of "?s e1" "butlast (tl w)"] grown_ok [OF e1(2)] c_string_nonzero [OF z] by auto
    have "map_option (\<lambda>t. tl (butlast (c_string t))) (GlobalString (?s e1)) = Some (butlast (tl w))"
      using c_string_nonzero [OF w(7)] by (simp add: butlast_tl)
    then have "variable_token lib plain gbl prefix s
      = Inr (\<lparr>token_type = gbl, token_value = Some q, printForm = bytes_of prefix @ w\<rparr>, ?s e2)"
      using True by (simp only: variable_token_def t(1) bind_res_Inr prod.case name st if_True e1(1) q(1))
    then show ?thesis using True grown_trans [OF t(2) grown_trans [OF e1(2) q(2)]] q(3)
      by (intro exI [of _ q] exI [of _ m] exI [of _ e2]) simp
  next
    case False
    then have "variable_token lib plain gbl prefix s
      = Inr (\<lparr>token_type = plain, token_value = Some p, printForm = bytes_of prefix @ w\<rparr>, ?s e1)"
      by (simp only: variable_token_def t(1) bind_res_Inr prod.case name st if_False e1(1))
    moreover have "atom_at (SymbolTable e1) p w" using atom_at_extends [OF t(3)] e1(2) by (simp add: grown_def)
    ultimately show ?thesis using False grown_trans [OF t(2) e1(2)]
      by (intro exI [of _ p] exI [of _ m] exI [of _ e1]) simp
  qed
qed

lemma at_word_advance:
  assumes "idle s" and "readable s" and "atoms_ok (atom_data s)" and "input s = v @ w @ rest" and "w \<noteq> []"
    and "\<not> symbol_char (next_char rest)"
  shows "at_word w rest (advance (length v) s)"
  using assms readable_advance [OF assms(2), of "length v"] by (simp add: at_word_def)

lemma not_special: "\<not> isalpha 63" "\<not> isalpha 36" "\<not> IsUTF8MultiByteStart 63" "\<not> IsUTF8MultiByteStart 36" "\<not> isdigit 63" "\<not> isdigit 36"
  by (simp_all add: isalpha_def IsUTF8MultiByteStart_def isdigit_def)

lemma variable_scan:
  assumes "idle s" and "readable s" and "atoms_ok (atom_data s)" and "input s = bytes_of prefix @ w @ rest"
    and "prefix = ''?'' \<and> plain = SF_VARIABLE \<and> gbl = GBL_VARIABLE \<or> prefix = ''$?'' \<and> plain = MF_VARIABLE \<and> gbl = MF_GBL_VARIABLE"
    and "\<forall>b \<in> set w. symbol_char (uint b)" and "w \<noteq> []" and "variable_start (uint (hd w))"
    and "\<not> symbol_char (next_char rest)" and "libc_ok lib"
  shows "\<exists>p e. GetToken lib s
      = Inr (\<lparr>token_type = if starred w then gbl else plain, token_value = Some p, printForm = bytes_of prefix @ w\<rparr>,
          (advance (length prefix + length w) s)\<lparr>atom_data := e\<rparr>)
    \<and> grown (atom_data s) e \<and> atom_at (SymbolTable e) p (if starred w then butlast (tl w) else w)"
proof -
  let ?n = "length (bytes_of prefix)" and ?s = "advance (length (bytes_of prefix)) s"
  have n: "?n = length prefix" by (simp add: bytes_of_def)
  have at: "at_word w rest ?s" using at_word_advance [OF assms(1-4,7,9)] .
  note w = at_wordD [OF at]
  have z: "0 \<notin> set (bytes_of prefix)" using assms(5) by (auto simp: bytes_of_def)
  obtain p m e where v: "variable_token lib plain gbl prefix ?s
      = Inr (\<lparr>token_type = if starred w then gbl else plain, token_value = Some p, printForm = bytes_of prefix @ w\<rparr>,
          scanned w m e (advance (length w) ?s))"
    "grown (atom_data s) e" "atom_at (SymbolTable e) p (if starred w then butlast (tl w) else w)"
    using variable_word [OF at assms(6,8) libc_ok_allocates [OF assms(10)] z, of plain gbl] by auto
  have u: "EnvUngetcRouter (uint (hd w)) (advance 1 ?s) = ?s" using ungetc [OF w(2)] w(8) by simp
  have g: "EnvGetcRouter ?s = Inr (uint (hd w), advance 1 ?s)" using getc [OF w(2)] w(8) by simp
  have "token_from lib (next_char (input s)) (advance 1 s) = variable_token lib plain gbl prefix ?s"
  proof (cases "prefix = ''?''")
    case True
    then have "?n = 1" "next_char (input s) = 63" using assms(4) by (simp_all add: bytes_of_def)
    moreover have "token_from lib 63 ?s = question_token lib ?s" using not_special by (simp add: token_from_def)
    moreover have "question_token lib ?s = variable_token lib plain gbl prefix ?s"
      unfolding question_token_def g bind_res_Inr prod.case u if_P [OF assms(8)] using True assms(5) by simp
    ultimately show ?thesis by simp
  next
    case False
    then have p: "prefix = ''$?''" using assms(5) by blast
    then have i: "input s = 36 # 63 # w @ rest" "?n = 2" using assms(4) by (simp_all add: bytes_of_def)
    have r: "readable (advance 1 s)" "input (advance 1 s) = 63 # w @ rest" using readable_tl [OF assms(2) i(1)] by simp_all
    have a: "advance 1 (advance 1 s) = ?s" using i(2) by (simp add: numeral_2_eq_2)
    have "token_from lib 36 (advance 1 s) = dollar_token lib (advance 1 s)" using not_special by (simp add: token_from_def)
    also have "\<dots> = variable_token lib plain gbl prefix ?s"
      unfolding dollar_token_def getc [OF r(1)] r(2) next_char_simps bind_res_Inr prod.case a g u if_P [OF assms(8)]
      using p assms(5) by simp
    finally show ?thesis using i(1) by simp
  qed
  moreover have "\<not> blank (next_char (input s))" using assms(4,5) by (auto simp: bytes_of_def blank_def)
  moreover have "idle (advance (length w) ?s)" using assms(1) by simp
  ultimately have "GetToken lib s
      = Inr (\<lparr>token_type = if starred w then gbl else plain, token_value = Some p, printForm = bytes_of prefix @ w\<rparr>,
          (advance (length w) ?s)\<lparr>atom_data := e\<rparr>)"
    using GetToken_from [OF assms(1,2), of lib] v(1) finish_scanned by simp
  then show ?thesis using v(2,3) n by auto
qed

section \<open>Limits\<close>

text \<open>
  A comment that ends with the fast string: the loop that skips it reads the NUL, and the next call of
  \<open>EnvGetcRouter\<close> the byte behind it.
\<close>

lemma comment_reads_on:
  assumes "readable s" and "fast s" and "\<forall>b \<in> set (input s). b \<noteq> 10 \<and> b \<noteq> 13"
  shows "\<exists>s'. skip_comment (next_char (input s)) (advance 1 s) = Inr s' \<and> fast s' \<and> index s' = length (chars s') + 1"
  using assms
proof (induction "input s" arbitrary: s)
  case Nil
  have l: "index s = length (chars s)" using length_input [OF Nil(2)] Nil(1) by simp
  have "skip_comment (next_char (input s)) (advance 1 s) = Inr (advance 1 s)"
    unfolding Nil(1) [symmetric] by (subst skip_comment.simps) simp
  then show ?case using Nil(3) l by simp
next
  case (Cons b bs)
  have i: "input s = b # bs" using Cons(2) by simp
  have r: "readable (advance 1 s)" "input (advance 1 s) = bs" using readable_tl [OF Cons(3) i] by simp_all
  have "skip_comment (next_char (input s)) (advance 1 s) = skip_comment (next_char (input (advance 1 s))) (advance 1 (advance 1 s))"
    using skip_comment_step [OF Cons(3) i] Cons(5) i by simp
  moreover have "\<exists>s'. skip_comment (next_char (input (advance 1 s))) (advance 1 (advance 1 s)) = Inr s' \<and> fast s'
      \<and> index s' = length (chars s') + 1"
    using r Cons(4,5) i by (intro Cons(1)) auto
  ultimately show ?case by simp
qed

lemma open_comment_overruns:
  assumes "idle s" and "readable s" and "fast s" and "input s = 59 # bs" and "\<forall>b \<in> set bs. b \<noteq> 10 \<and> b \<noteq> 13"
  shows "GetToken lib s = Inl Undefined"
proof -
  have r: "readable (advance 1 s)" "input (advance 1 s) = bs" using readable_tl [OF assms(2,4)] by simp_all
  obtain s' where s': "skip_comment (next_char (input (advance 1 s))) (advance 1 (advance 1 s)) = Inr s'" "fast s'"
    "index s' = length (chars s') + 1"
    using comment_reads_on [OF r(1)] assms(3,5) r(2) by auto
  have "EnvGetcRouter s' = Inl Undefined" using s'(2,3) by (simp add: EnvGetcRouter_def)
  then have "skip_blanks (next_char (input s)) (advance 1 s) = Inl Undefined"
    unfolding skip_blanks_comment [OF assms(2,4)] s'(1) by simp
  then show ?thesis unfolding GetToken_def idle_start [OF assms(1)] getc [OF assms(2)] by simp
qed

section \<open>Properties\<close>

text \<open>
  C25: \<open>GetToken\<close> on a word of symbol characters that begins with a letter, a UTF-8 sequence or another
  printable character that starts no number, variable or string, returns the whole word: an instance name if
  it is written in brackets, with the text between them, and a symbol otherwise. The value of the token is
  the address of the one symbol with that text; nothing behind the word is consumed.
\<close>

theorem symbol_scanned:
  assumes "at_word w rest s" and "\<forall>b \<in> set w. symbol_char (uint b)" and "symbol_start (hd w)" and "libc_ok lib"
  shows "\<exists>p e. GetToken lib s = Inr (\<lparr>token_type = word_type w, token_value = Some p, printForm = word_text w\<rparr>,
      (advance (length w) s)\<lparr>atom_data := e\<rparr>)
    \<and> grown (atom_data s) e \<and> atom_at (SymbolTable e) p (word_text w)"
  by (rule symbol_word [OF assms])

theorem symbol_scanned_witness:
  "\<exists>p s. GetToken demo_libc (demo_scan ''[ab] '')
    = Inr (\<lparr>token_type = INSTANCE_NAME_TOKEN, token_value = Some p, printForm = bytes_of ''ab''\<rparr>, s)"
proof -
  have w: "at_word (bytes_of ''[ab]'') (bytes_of '' '') (demo_scan ''[ab] '')"
    by (simp add: at_word_def bytes_of_def symbol_char_def delimiter_def)
  have "\<forall>b \<in> set (bytes_of ''[ab]''). symbol_char (uint b)" "symbol_start (hd (bytes_of ''[ab]''))"
    by (simp_all add: bytes_of_def symbol_char_def delimiter_def isprint_def symbol_start_def digit_def sign_def)
  moreover have "word_type (bytes_of ''[ab]'') = INSTANCE_NAME_TOKEN" "word_text (bytes_of ''[ab]'') = bytes_of ''ab''"
    by (simp_all add: word_type_def word_text_def bracketed_def bytes_of_def)
  ultimately show ?thesis using symbol_scanned [OF w _ _ demo_libc_ok] by auto
qed

text \<open>
  C7: the phases of \<open>ScanNumber\<close> recognise the grammar of numbers: a word that begins with a digit, a sign or a
  point is an INTEGER token exactly if it is an optional sign and digits, a FLOAT token exactly if it is a
  signed mantissa with a point or an exponent, and the symbol of the whole word otherwise. The least 64-bit
  integer, which has no absolute value, and every literal below it are left out.
\<close>

theorem number_scanned:
  assumes "at_word w rest s" and "\<forall>b \<in> set w. word_byte b" and "digit (hd w) \<or> sign (hd w) \<or> hd w = 46"
    and "libc_ok lib" and "integer_text w \<longrightarrow> - (2 ^ 63) < integer_value w"
  shows "\<exists>t s'. GetToken lib s = Inr (t, s') \<and> index s' = index s + length w
    \<and> token_type t = (if integer_text w then INTEGER_TOKEN else if float_text w then FLOAT_TOKEN else SYMBOL_TOKEN)"
proof (cases "integer_text w")
  case True
  have "clamped (integer_value w) \<noteq> - (2 ^ 63)" using assms(5) True by (simp add: clamped_def)
  then show ?thesis using integer_word [OF assms(1) True assms(4)] True by auto
next
  case False
  then show ?thesis using other_word [OF assms(1-3) False assms(4)] by (cases "float_text w") auto
qed

theorem number_scanned_witness:
  "\<exists>t s'. GetToken demo_libc (demo_scan ''-1.e+5)'') = Inr (t, s') \<and> token_type t = FLOAT_TOKEN"
proof -
  let ?w = "bytes_of ''-1.e+5''"
  have w: "at_word ?w (bytes_of '')'') (demo_scan ''-1.e+5)'')"
    by (simp add: at_word_def bytes_of_def symbol_char_def delimiter_def)
  have b: "\<forall>b \<in> set ?w. word_byte b" by (simp add: bytes_of_def word_byte_def delimiter_def isprint_def)
  have i: "\<not> integer_text ?w" by (simp add: integer_text_def unsigned_part_def bytes_of_def sign_def digit_def)
  have "integer_text (bytes_of ''+5'')" by (simp add: integer_text_def unsigned_part_def bytes_of_def sign_def digit_def)
  then have e: "exponent (bytes_of ''e+5'')" by (simp add: exponent_def exponent_mark_def bytes_of_def)
  have "bytes_of ''1.'' = [49] @ 46 # []" "digits [49]" by (simp_all add: bytes_of_def digit_def)
  then have "mantissa (bytes_of ''1.'')" unfolding mantissa_def by (metis append_is_Nil_conv digits_simps(1) list.distinct(1))
  moreover have "unsigned_part ?w = bytes_of ''1.'' @ bytes_of ''e+5''" by (simp add: unsigned_part_def sign_def bytes_of_def)
  ultimately have f: "float_text ?w" using e unfolding float_text_def by blast
  have h: "digit (hd ?w) \<or> sign (hd ?w) \<or> hd ?w = 46" by (simp add: bytes_of_def sign_def)
  show ?thesis using number_scanned [OF w b h demo_libc_ok] i f by auto
qed

text \<open>
  C28: \<open>GetToken\<close> reads an integer literal that is too large or too small for 64 bits as the greatest or the
  least one and warns; the least one itself has no hash value. Any other literal gives exactly its integer.
\<close>

theorem integer_clamped:
  assumes "at_word w rest s" and "integer_text w" and "libc_ok lib"
  shows "if clamped (integer_value w) = - (2 ^ 63) then GetToken lib s = Inl Overflow
    else \<exists>p e. GetToken lib s = Inr (\<lparr>token_type = INTEGER_TOKEN, token_value = Some p,
          printForm = int_text (clamped (integer_value w))\<rparr>,
        (advance (length w) s) \<lparr>atom_data := e,
          messages := messages s @ (if clamped (integer_value w) = integer_value w then [] else [''SCANNER1 warning''])\<rparr>)
      \<and> grown (atom_data s) e \<and> atom_at (IntegerTable e) p (word_of_int (clamped (integer_value w)))"
  by (rule integer_word [OF assms])

theorem integer_clamped_witness:
  "GetToken demo_libc (demo_scan ''-9999999999999999999'') = Inl Overflow"
proof -
  let ?w = "bytes_of ''-9999999999999999999''"
  have w: "at_word ?w [] (demo_scan ''-9999999999999999999'')" by (simp add: at_word_def bytes_of_def)
  have i: "integer_text ?w" by (simp add: integer_text_def unsigned_part_def bytes_of_def sign_def digit_def)
  have "clamped (integer_value ?w) = - (2 ^ 63)"
    by (simp add: integer_value_def unsigned_part_def bytes_of_def sign_def decimal_def clamped_def)
  with integer_clamped [OF w i demo_libc_ok] show ?thesis by (simp only: if_True)
qed

text \<open>
  What \<open>LongIntegerToString\<close> prints for an integer is read back as that integer, with the same text
  and without a warning.
\<close>

theorem integer_read_back:
  assumes "LongIntegerToString lib x s0 = Inr (f, s1)" and "at_word f rest s" and "x \<noteq> 0x8000000000000000"
    and "libc_ok lib" and "atoms_ok (atom_data s0)"
  shows "\<exists>p e. GetToken lib s = Inr (\<lparr>token_type = INTEGER_TOKEN, token_value = Some p, printForm = f\<rparr>,
      (advance (length f) s)\<lparr>atom_data := e\<rparr>)
    \<and> grown (atom_data s) e \<and> atom_at (IntegerTable e) p x"
proof -
  have f: "f = int_text (sint x)" using LongIntegerToString_ok [OF assms(4,5), of x] assms(1) by auto
  have v: "integer_text f" "integer_value f = sint x" using int_text_value [of "sint x"] f by simp_all
  have c: "clamped (sint x) = sint x" using sint_ge [of x] sint_lt [of x] by (simp add: clamped_def)
  have "sint x \<noteq> - (2 ^ 63)"
  proof
    assume "sint x = - (2 ^ 63)"
    then have "sint x = sint (0x8000000000000000 :: 64 word)" by simp
    then show False using assms(3) signed_word_eqI by blast
  qed
  then show ?thesis
    using integer_word [OF assms(2) v(1) assms(4)] unfolding v(2) c f [symmetric]
    by (simp add: advance_def)
qed

theorem integer_read_back_witness:
  "\<exists>p s. GetToken demo_libc (demo_scan ''-7 '') = Inr (\<lparr>token_type = INTEGER_TOKEN, token_value = Some p, printForm = bytes_of ''-7''\<rparr>, s)"
proof -
  have t: "int_text (sint (word_of_int (-7) :: 64 word)) = bytes_of ''-7''"
    by (simp add: int_text_def nat_text.simps bytes_of_def)
  obtain s1 where s1: "LongIntegerToString demo_libc (word_of_int (-7)) (demo_scan []) = Inr (bytes_of ''-7'', s1)"
    using LongIntegerToString_ok [OF demo_libc_ok, of "demo_scan []" "word_of_int (-7)"] unfolding t by auto
  have w: "at_word (bytes_of ''-7'') (bytes_of '' '') (demo_scan ''-7 '')"
    by (simp add: at_word_def bytes_of_def symbol_char_def delimiter_def)
  show ?thesis using integer_read_back [OF s1 w _ demo_libc_ok] by auto
qed

text \<open>
  C19: the print form of a string, in quotes with its quotes and backslashes escaped, is read back as a STRING
  token with the contents of the string, whatever follows, and with the same print form. The contents have no
  NUL and no backspace, which \<open>ExpandStringWithChar\<close> takes for the removal of a character.
\<close>

theorem string_read_back:
  assumes "StringPrintForm lib str s0 = Inr (f, s1)" and "plain_string str" and "idle s" and "readable s"
    and "input s = f @ rest" and "libc_ok lib" and "atoms_ok (atom_data s0)" and "atoms_ok (atom_data s)"
  shows "\<exists>p e. GetToken lib s = Inr (\<lparr>token_type = STRING_TOKEN, token_value = Some p, printForm = f\<rparr>,
      (advance (length f) s)\<lparr>atom_data := e\<rparr>)
    \<and> grown (atom_data s) e \<and> atom_at (SymbolTable e) p str"
proof -
  have f: "f = quoted str" using print_form [OF assms(2) libc_ok_allocates [OF assms(6)] assms(7)] assms(1) by auto
  then have i: "input s = 34 # concat (map escape str) @ 34 # rest" using assms(5) by (simp add: quoted_def)
  have "length f = length (concat (map escape str)) + 2" using f by (simp add: quoted_def)
  then show ?thesis
    using quoted_token [OF assms(3,4) i _ assms(2) libc_ok_allocates [OF assms(6)] assms(8)] f by (simp add: advance_def)
qed

theorem string_read_back_witness:
  "\<exists>p s. GetToken demo_libc (demo_scan (CHR 34 # CHR 92 # CHR 34 # ''a'' @ [CHR 34]))
    = Inr (\<lparr>token_type = STRING_TOKEN, token_value = Some p, printForm = quoted [34, 97]\<rparr>, s)"
proof -
  let ?s = "demo_scan (CHR 34 # CHR 92 # CHR 34 # ''a'' @ [CHR 34])"
  have p: "plain_string [34, 97]" by (simp add: plain_string_def)
  obtain s1 where s1: "StringPrintForm demo_libc [34, 97] (demo_scan []) = Inr (quoted [34, 97], s1)"
    using print_form [OF p libc_ok_allocates [OF demo_libc_ok], of "demo_scan []"] by auto
  have s: "readable ?s" "input ?s = quoted [34, 97] @ []" by (simp_all add: quoted_def escape_def bytes_of_def)
  show ?thesis using string_read_back [OF s1 p _ s demo_libc_ok] by auto
qed



text \<open>
  Blanks and comments before a token change nothing but the position and the line count: \<open>GetToken\<close>
  returns what it returns in the state behind them.
\<close>

theorem comments_skipped:
  assumes "idle s" and "readable s" and "input s = bl @ rest" and "blanks False bl"
  shows "GetToken lib s = GetToken lib (advance (length bl) s)"
  by (rule GetToken_blanks [OF assms])

theorem comments_skipped_witness:
  "GetToken demo_libc (demo_scan ('' ;(a'' @ [CHR 10] @ ''b''))
    = GetToken demo_libc (advance 5 (demo_scan ('' ;(a'' @ [CHR 10] @ ''b'')))"
proof -
  let ?t = "'' ;(a'' @ [CHR 10] @ ''b''"
  have "readable (demo_scan ?t)" "input (demo_scan ?t) = bytes_of ('' ;(a'' @ [CHR 10]) @ bytes_of ''b''"
    "blanks False (bytes_of ('' ;(a'' @ [CHR 10]))" by (simp_all add: bytes_of_def blank_def)
  from comments_skipped [OF _ this, of demo_libc] show ?thesis by (simp add: bytes_of_def eval_nat_numeral)
qed

text \<open>
  \<open>?\<close> and \<open>$?\<close> followed by a word give one variable token: a global variable if the word is written between
  stars, whose value is the text between them, and a single-field or multifield variable with the whole word as
  its value otherwise.
\<close>

theorem variable_scanned:
  assumes "idle s" and "readable s" and "atoms_ok (atom_data s)" and "input s = bytes_of prefix @ w @ rest"
    and "prefix = ''?'' \<and> plain = SF_VARIABLE \<and> gbl = GBL_VARIABLE \<or> prefix = ''$?'' \<and> plain = MF_VARIABLE \<and> gbl = MF_GBL_VARIABLE"
    and "\<forall>b \<in> set w. symbol_char (uint b)" and "w \<noteq> []" and "variable_start (uint (hd w))"
    and "\<not> symbol_char (next_char rest)" and "libc_ok lib"
  shows "\<exists>p e. GetToken lib s
      = Inr (\<lparr>token_type = if starred w then gbl else plain, token_value = Some p, printForm = bytes_of prefix @ w\<rparr>,
          (advance (length prefix + length w) s)\<lparr>atom_data := e\<rparr>)
    \<and> grown (atom_data s) e \<and> atom_at (SymbolTable e) p (if starred w then butlast (tl w) else w)"
  by (rule variable_scan [OF assms])

theorem variable_scanned_witness:
  "\<exists>p s. GetToken demo_libc (demo_scan ''?*x*)'')
    = Inr (\<lparr>token_type = GBL_VARIABLE, token_value = Some p, printForm = bytes_of ''?*x*''\<rparr>, s)"
proof -
  let ?w = "bytes_of ''*x*''" and ?s = "demo_scan ''?*x*)''"
  have s: "readable ?s" "atoms_ok (atom_data ?s)" "input ?s = bytes_of ''?'' @ ?w @ bytes_of '')''" by (simp_all add: bytes_of_def)
  have c: "\<forall>b \<in> set ?w. symbol_char (uint b)" "?w \<noteq> []" "variable_start (uint (hd ?w))" "\<not> symbol_char (next_char (bytes_of '')''))"
    by (simp_all add: bytes_of_def symbol_char_def delimiter_def isprint_def variable_start_def)
  have "starred ?w" "bytes_of ''?'' @ ?w = bytes_of ''?*x*''" by (simp_all add: starred_def bytes_of_def)
  then show ?thesis using variable_scanned [OF _ s _ c demo_libc_ok, of SF_VARIABLE GBL_VARIABLE] by auto
qed

end
