(* ===== verification/Engine.thy ===== *)
theory Engine
  imports Agenda
begin

text \<open>
  \<open>CLIPS/engine.c\<close> besides the focus stack (in \<open>Agenda\<close>): the loop of \<open>EnvRun\<close>, breakpoints, the commands on the
  focus stack, and the lists of run functions with their routines of \<open>CLIPS/utility.c\<close>. The actions of a rule
  and the callbacks are parameters; the value of a salience expression depends on the expression only, and its
  evaluation changes nothing. Statistics, profiles and the messages of watch items are left out, as
  are the garbage lists of a frame.
\<close>

section \<open>State\<close>

text \<open>\<open>struct callFunctionItem\<close>; the lists are in the order of their \<open>next\<close> links.\<close>

record callFunctionItem =
  item_name :: string
  func :: nat
  priority :: int
  environmentAware :: bool
  item_context :: address

datatype message = ExecutionHalted address | BreakingOn address | LimitReached

text \<open>
  \<open>struct engineData\<close> and what \<open>EnvRun\<close> touches beside it: \<open>env\<close> is the state of the agenda and the focus,
  \<open>rules_of\<close> lists the rules of a module, \<open>topLevel\<close> has a flag for each garbage frame, the innermost first,
  \<open>busy\<close> is a flag of partial matches, and \<open>memory\<close> everything else the actions of rules work on.
\<close>

record 'a engine =
  env :: clips
  ExecutingRule :: "address option"
  HaltRules :: bool
  ReturnFlag :: bool
  AlreadyRunning :: bool
  TheLogicalJoin :: "address option"
  TheLogicalBind :: "address option"
  GlobalLHSBinds :: "address option"
  GlobalRHSBinds :: "address option"
  ListOfRunFunctions :: "callFunctionItem list"
  ListOfBeforeRunFunctions :: "callFunctionItem list"
  CallbackContext :: address
  CurrentEvaluationDepth :: int
  topLevel :: "bool list"
  rules_of :: "module_id \<Rightarrow> address list"
  afterBreakpoint :: "address \<Rightarrow> bool"
  watchFiring :: "address \<Rightarrow> bool"
  executing :: "address \<Rightarrow> bool"
  busy :: "address \<Rightarrow> bool"
  printed :: "message list"
  memory :: 'a

text \<open>
  The parameters: \<open>EvaluateProcActions\<close> on the actions of a rule; the functions of the two call lists; the basis
  counts of the entity with a time tag; the rule's \<open>logicalJoin\<close> and \<open>FindLogicalBind\<close>; the clean-up after an
  action (\<open>FlushGarbagePartialMatches\<close>, \<open>CleanCurrentGarbageFrame\<close>, \<open>CallPeriodicTasks\<close>) and the periodic tasks
  at the end; the value of a salience expression; the module MAIN.
\<close>

record 'a world =
  run_actions :: "address \<Rightarrow> 'a engine \<Rightarrow> 'a engine"
  call_function :: "callFunctionItem \<Rightarrow> 'a engine \<Rightarrow> 'a engine"
  call_before :: "callFunctionItem \<Rightarrow> activation \<Rightarrow> 'a engine \<Rightarrow> 'a engine"
  increment_basis :: "64 word \<Rightarrow> 'a engine \<Rightarrow> 'a engine"
  decrement_basis :: "64 word \<Rightarrow> 'a engine \<Rightarrow> 'a engine"
  logicalJoin :: "address \<Rightarrow> address option"
  FindLogicalBind :: "address \<Rightarrow> address \<Rightarrow> address"
  clean_up :: "'a engine \<Rightarrow> 'a engine"
  periodic_tasks :: "'a engine \<Rightarrow> 'a engine"
  salience_value :: "expression \<Rightarrow> evaluated"
  main_module :: module_id

definition print_message :: "message \<Rightarrow> 'a engine \<Rightarrow> 'a engine" where
  "print_message t g = g\<lparr>printed := printed g @ [t]\<rparr>"

section \<open>Call lists\<close>

text \<open>A new item goes before the first one whose priority is not higher.\<close>

definition AddFunctionToCallListWithContext :: "string \<Rightarrow> int \<Rightarrow> nat \<Rightarrow> callFunctionItem list \<Rightarrow> bool \<Rightarrow> address
    \<Rightarrow> callFunctionItem list" where
  "AddFunctionToCallListWithContext name prio f head environment_aware ctx =
     (let new = \<lparr>item_name = name, func = f, priority = prio, environmentAware = environment_aware, item_context = ctx\<rparr> in
      takeWhile (\<lambda>i. prio < priority i) head @ new # dropWhile (\<lambda>i. prio < priority i) head)"

definition AddFunctionToCallList :: "string \<Rightarrow> int \<Rightarrow> nat \<Rightarrow> callFunctionItem list \<Rightarrow> bool \<Rightarrow> callFunctionItem list" where
  "AddFunctionToCallList name prio f head environment_aware =
     AddFunctionToCallListWithContext name prio f head environment_aware 0"

text \<open>The first item with the name is removed; the result says whether there was one.\<close>

fun RemoveFunctionFromCallList :: "string \<Rightarrow> callFunctionItem list \<Rightarrow> bool \<times> callFunctionItem list" where
  "RemoveFunctionFromCallList name [] = (False, [])"
| "RemoveFunctionFromCallList name (i # items) =
     (if item_name i = name then (True, items)
      else let (found, items) = RemoveFunctionFromCallList name items in (found, i # items))"

definition EnvAddRunFunction :: "string \<Rightarrow> nat \<Rightarrow> int \<Rightarrow> 'a engine \<Rightarrow> 'a engine" where
  "EnvAddRunFunction name f prio g =
     g\<lparr>ListOfRunFunctions := AddFunctionToCallList name prio f (ListOfRunFunctions g) True\<rparr>"

definition EnvAddRunFunctionWithContext :: "string \<Rightarrow> nat \<Rightarrow> int \<Rightarrow> address \<Rightarrow> 'a engine \<Rightarrow> 'a engine" where
  "EnvAddRunFunctionWithContext name f prio ctx g =
     g\<lparr>ListOfRunFunctions := AddFunctionToCallListWithContext name prio f (ListOfRunFunctions g) True ctx\<rparr>"

definition EnvAddBeforeRunFunction :: "string \<Rightarrow> nat \<Rightarrow> int \<Rightarrow> 'a engine \<Rightarrow> 'a engine" where
  "EnvAddBeforeRunFunction name f prio g =
     g\<lparr>ListOfBeforeRunFunctions := AddFunctionToCallList name prio f (ListOfBeforeRunFunctions g) True\<rparr>"

definition EnvAddBeforeRunFunctionWithContext :: "string \<Rightarrow> nat \<Rightarrow> int \<Rightarrow> address \<Rightarrow> 'a engine \<Rightarrow> 'a engine" where
  "EnvAddBeforeRunFunctionWithContext name f prio ctx g =
     g\<lparr>ListOfBeforeRunFunctions := AddFunctionToCallListWithContext name prio f (ListOfBeforeRunFunctions g) True ctx\<rparr>"

definition EnvRemoveRunFunction :: "string \<Rightarrow> 'a engine \<Rightarrow> bool \<times> 'a engine" where
  "EnvRemoveRunFunction name g =
     (let (found, items) = RemoveFunctionFromCallList name (ListOfRunFunctions g) in
      (found, g\<lparr>ListOfRunFunctions := items\<rparr>))"

definition EnvRemoveBeforeRunFunction :: "string \<Rightarrow> 'a engine \<Rightarrow> bool \<times> 'a engine" where
  "EnvRemoveBeforeRunFunction name g =
     (let (found, items) = RemoveFunctionFromCallList name (ListOfBeforeRunFunctions g) in
      (found, g\<lparr>ListOfBeforeRunFunctions := items\<rparr>))"

text \<open>
  The loops over the two lists. A function is not expected to change the list it is called from. The calls
  at the end of a run that fired nothing do not set the callback context.
\<close>

definition call_before_functions :: "'a world \<Rightarrow> activation \<Rightarrow> 'a engine \<Rightarrow> 'a engine" where
  "call_before_functions w a g =
     fold (\<lambda>i g. call_before w i a (g\<lparr>CallbackContext := item_context i\<rparr>)) (ListOfBeforeRunFunctions g) g"

definition call_run_functions :: "'a world \<Rightarrow> 'a engine \<Rightarrow> 'a engine" where
  "call_run_functions w g =
     fold (\<lambda>i g. call_function w i (g\<lparr>CallbackContext := item_context i\<rparr>)) (ListOfRunFunctions g) g"

definition call_run_functions_once :: "'a world \<Rightarrow> 'a engine \<Rightarrow> 'a engine" where
  "call_run_functions_once w g = fold (call_function w) (ListOfRunFunctions g) g"

section \<open>Firing a rule\<close>

definition on_env :: "(clips \<Rightarrow> clips) \<Rightarrow> 'a engine \<Rightarrow> 'a engine" where
  "on_env f g = g\<lparr>env := f (env g)\<rparr>"

text \<open>The time tags of the entities a partial match binds.\<close>

definition basis_items :: "address \<Rightarrow> 'a engine \<Rightarrow> 64 word list" where
  "basis_items b g = List.map_filter id (binds (match (env g) b))"

text \<open>Up to the evaluation of the actions.\<close>

definition begin_firing :: "'a world \<Rightarrow> activation \<Rightarrow> 'a engine \<Rightarrow> 'a engine" where
  "begin_firing w a g =
     (let g = on_env (DetachActivation a) g;
          r = theRule a; b = basis a;
          g = g\<lparr>ExecutingRule := Some r\<rparr>;
          g = on_env (\<lambda>e. e\<lparr>match := (match e)(b := (match e b)\<lparr>marker := None\<rparr>)\<rparr>) g;
          g = g\<lparr>busy := (busy g)(b := True), GlobalLHSBinds := Some b, GlobalRHSBinds := None\<rparr>;
          g = fold (increment_basis w) (basis_items b g) g;
          g = g\<lparr>TheLogicalJoin := logicalJoin w r\<rparr>;
          g = (case logicalJoin w r of
                 None \<Rightarrow> g\<lparr>TheLogicalBind := None\<rparr>
               | Some j \<Rightarrow> let l = FindLogicalBind w j b in
                   g\<lparr>TheLogicalBind := Some l, busy := (busy g)(l := True)\<rparr>);
          g = on_env (SetEvaluationError False) (g\<lparr>CurrentEvaluationDepth := CurrentEvaluationDepth g + 1\<rparr>) in
      g\<lparr>executing := (executing g)(r := True)\<rparr>)"

text \<open>
  From the end of the actions up to the removal of the activation. The rule is the one \<open>ExecutingRule\<close> points to
  then.
\<close>

definition end_firing :: "'a world \<Rightarrow> activation \<Rightarrow> 'a engine \<Rightarrow> 'a engine res" where
  "end_firing w a g =
     (case ExecutingRule g of
        None \<Rightarrow> Inl Undefined
      | Some r \<Rightarrow>
          let b = basis a;
              g = on_env (SetEvaluationError False) (g\<lparr>executing := (executing g)(r := False)\<rparr>);
              g = g\<lparr>CurrentEvaluationDepth := CurrentEvaluationDepth g - 1, TheLogicalJoin := None\<rparr>;
              g = (case TheLogicalBind g of None \<Rightarrow> g
                   | Some l \<Rightarrow> g\<lparr>busy := (busy g)(l := False), TheLogicalBind := None\<rparr>);
              g = (if HaltExecution (env g) \<or> HaltRules g \<and> watchFiring g r
                   then print_message (ExecutionHalted (theRule a)) g else g);
              g = g\<lparr>busy := (busy g)(b := False)\<rparr>;
              g = fold (decrement_basis w) (basis_items b g) g in
          bind_res (RemoveActivation a False False (env g)) (\<lambda>e. Inr (g\<lparr>env := e\<rparr>)))"

text \<open>What follows up to the choice of the next activation.\<close>

definition after_firing :: "'a world \<Rightarrow> 'a engine \<Rightarrow> 'a engine res" where
  "after_firing w g =
     (let g = clean_up w g in
      bind_res
        (if SalienceEvaluation (env g) = EVERY_CYCLE
         then bind_res (EnvRefreshAgenda (salience_value w) None (env g)) (\<lambda>e. Inr (g\<lparr>env := e\<rparr>))
         else Inr g) (\<lambda>g.
      let g = call_run_functions w g in
      if ReturnFlag g then
        (case ExecutingRule g of
           None \<Rightarrow> Inl Undefined
         | Some r \<Rightarrow> Inr ((on_env (\<lambda>e. snd (RemoveFocus (whichModule (rule e r)) e)) g)\<lparr>ReturnFlag := False\<rparr>))
      else Inr (g\<lparr>ReturnFlag := False\<rparr>)))"

definition fire_rule :: "'a world \<Rightarrow> activation \<Rightarrow> 'a engine \<Rightarrow> 'a engine res" where
  "fire_rule w a g =
     bind_res (end_firing w a (run_actions w (theRule a) (begin_firing w a (call_before_functions w a g))))
       (after_firing w)"

section \<open>The run loop\<close>

definition next_activation :: "'a world \<Rightarrow> 'a engine \<Rightarrow> activation option \<times> 'a engine" where
  "next_activation w g = (let (nxt, e) = NextActivationToFire (main_module w) (env g) in (nxt, g\<lparr>env := e\<rparr>))"

definition check_breakpoint :: "activation option \<Rightarrow> 'a engine \<Rightarrow> 'a engine" where
  "check_breakpoint nxt g =
     (case nxt of None \<Rightarrow> g
      | Some a \<Rightarrow> if afterBreakpoint g (theRule a)
                  then print_message (BreakingOn (theRule a)) (g\<lparr>HaltRules := True\<rparr>) else g)"

definition keeps_running :: "activation option \<Rightarrow> int \<Rightarrow> 'a engine \<Rightarrow> bool" where
  "keeps_running nxt runLimit g \<longleftrightarrow> nxt \<noteq> None \<and> runLimit \<noteq> 0 \<and> \<not> HaltExecution (env g) \<and> \<not> HaltRules g"

text \<open>
  The loop, with fuel for its turns; its variables are \<open>rulesFired\<close>, \<open>runLimit\<close> and \<open>theActivation\<close>. A limit below 0
  is none.
\<close>

fun run_loop :: "'a world \<Rightarrow> nat \<Rightarrow> int \<Rightarrow> int \<Rightarrow> activation option \<Rightarrow> 'a engine \<Rightarrow> (int \<times> int \<times> 'a engine) run" where
  "run_loop w 0 rulesFired runLimit nxt g =
     (if keeps_running nxt runLimit g then None else return_run (rulesFired, runLimit, g))"
| "run_loop w (Suc fuel) rulesFired runLimit nxt g =
     (if keeps_running nxt runLimit g then
        res_run (fire_rule w (the nxt) g) (\<lambda>g.
          let (nxt, g) = next_activation w g in
          run_loop w fuel (rulesFired + 1) (if 0 < runLimit then runLimit - 1 else runLimit) nxt
            (check_breakpoint nxt g))
      else return_run (rulesFired, runLimit, g))"

text \<open>
  \<open>EnvRun\<close> looks at the flag \<open>topLevel\<close> of the garbage frame it has just set up, which is not set.
\<close>

definition start_run :: "'a engine \<Rightarrow> 'a engine" where
  "start_run g =
     (let g = g\<lparr>AlreadyRunning := True, topLevel := False # topLevel g\<rparr>;
          g = (if hd (topLevel g) then on_env (\<lambda>e. e\<lparr>HaltExecution := False\<rparr>) g else g) in
      g\<lparr>HaltRules := False\<rparr>)"

definition finish_run :: "'a world \<Rightarrow> bool list \<Rightarrow> int \<Rightarrow> int \<Rightarrow> 'a engine \<Rightarrow> 'a engine" where
  "finish_run w oldGarbageFrame rulesFired runLimit g =
     (let g = (if rulesFired = 0 then call_run_functions_once w g else g);
          g = (if runLimit = rulesFired then print_message LimitReached g else g);
          g = g\<lparr>ExecutingRule := None, HaltRules := False\<rparr>;
          g = on_env (\<lambda>e. case CurrentFocus e of [] \<Rightarrow> e
                | m # _ \<Rightarrow> if m \<noteq> CurrentModule e then EnvSetCurrentModule m e else e) g;
          g = periodic_tasks w (g\<lparr>topLevel := oldGarbageFrame\<rparr>) in
      g\<lparr>AlreadyRunning := False\<rparr>)"

definition EnvRun :: "nat \<Rightarrow> 'a world \<Rightarrow> int \<Rightarrow> 'a engine \<Rightarrow> (int \<times> 'a engine) run" where
  "EnvRun fuel w runLimit g =
     (if AlreadyRunning g then return_run (0, g)
      else
        let oldGarbageFrame = topLevel g; (nxt, g) = next_activation w (start_run g) in
        bind_run (run_loop w fuel 0 runLimit nxt g) (\<lambda>(rulesFired, runLimit, g).
          return_run (rulesFired, finish_run w oldGarbageFrame rulesFired runLimit g)))"

text \<open>The command with its argument: None if the checks failed, \<open>Some None\<close> without an argument.\<close>

definition RunCommand :: "nat \<Rightarrow> 'a world \<Rightarrow> int option option \<Rightarrow> 'a engine \<Rightarrow> 'a engine run" where
  "RunCommand fuel w arg g =
     (case arg of
        None \<Rightarrow> return_run g
      | Some limit \<Rightarrow>
          bind_run (EnvRun fuel w (case limit of None \<Rightarrow> -1 | Some n \<Rightarrow> n) g) (\<lambda>(_, g). return_run g))"

section \<open>Halting and breakpoints\<close>

definition EnvHalt :: "'a engine \<Rightarrow> 'a engine" where
  "EnvHalt g = g\<lparr>HaltRules := True\<rparr>"

definition HaltCommand :: "'a engine \<Rightarrow> 'a engine" where
  "HaltCommand g = EnvHalt g"

definition EnvSetHaltRules :: "bool \<Rightarrow> 'a engine \<Rightarrow> 'a engine" where
  "EnvSetHaltRules v g = g\<lparr>HaltRules := v\<rparr>"

definition EnvGetHaltRules :: "'a engine \<Rightarrow> bool" where
  "EnvGetHaltRules g = HaltRules g"

definition disjuncts :: "address \<Rightarrow> 'a engine \<Rightarrow> address list" where
  "disjuncts r g = r # disjunct (rule (env g) r)"

definition EnvSetBreak :: "address \<Rightarrow> 'a engine \<Rightarrow> 'a engine" where
  "EnvSetBreak r g = fold (\<lambda>p g. g\<lparr>afterBreakpoint := (afterBreakpoint g)(p := True)\<rparr>) (disjuncts r g) g"

definition remove_break :: "address \<Rightarrow> bool \<times> 'a engine \<Rightarrow> bool \<times> 'a engine" where
  "remove_break p x =
     (let (rv, g) = x in
      if afterBreakpoint g p then (True, g\<lparr>afterBreakpoint := (afterBreakpoint g)(p := False)\<rparr>) else (rv, g))"

definition EnvRemoveBreak :: "address \<Rightarrow> 'a engine \<Rightarrow> bool \<times> 'a engine" where
  "EnvRemoveBreak r g = fold remove_break (disjuncts r g) (False, g)"

definition EnvDefruleHasBreakpoint :: "address \<Rightarrow> 'a engine \<Rightarrow> bool" where
  "EnvDefruleHasBreakpoint r g = afterBreakpoint g r"

text \<open>
  The outer loop goes through the modules, but \<open>EnvGetNextDefrule\<close> returns the rules of the current module, which
  the loop does not change.
\<close>

definition RemoveAllBreakpoints :: "'a engine \<Rightarrow> 'a engine" where
  "RemoveAllBreakpoints g =
     fold (\<lambda>m g. fold (\<lambda>r g. snd (EnvRemoveBreak r g)) (rules_of g (CurrentModule (env g))) g) (modules (env g)) g"

text \<open>The commands with the rule their argument names: None if the checks failed or there is none.\<close>

definition SetBreakCommand :: "address option \<Rightarrow> 'a engine \<Rightarrow> 'a engine" where
  "SetBreakCommand arg g = (case arg of None \<Rightarrow> g | Some r \<Rightarrow> EnvSetBreak r g)"

definition RemoveBreakCommand :: "address option option \<Rightarrow> 'a engine \<Rightarrow> 'a engine" where
  "RemoveBreakCommand arg g =
     (case arg of
        None \<Rightarrow> RemoveAllBreakpoints g
      | Some None \<Rightarrow> g
      | Some (Some r) \<Rightarrow> snd (EnvRemoveBreak r g))"

definition EnvShowBreaks :: "module_id \<Rightarrow> 'a engine \<Rightarrow> address list" where
  "EnvShowBreaks m g = filter (\<lambda>r. EnvDefruleHasBreakpoint r g) (rules_of g m)"

section \<open>Commands on the focus stack\<close>

text \<open>A pointer into the stack is the number of entries above it.\<close>

definition EnvGetNextFocus :: "nat option \<Rightarrow> clips \<Rightarrow> nat option" where
  "EnvGetNextFocus theFocus e =
     (let n = (case theFocus of None \<Rightarrow> 0 | Some i \<Rightarrow> Suc i) in
      if n < length (CurrentFocus e) then Some n else None)"

definition EnvGetFocus :: "clips \<Rightarrow> module_id option" where
  "EnvGetFocus e = (case CurrentFocus e of [] \<Rightarrow> None | m # _ \<Rightarrow> Some m)"

definition EnvGetFocusStack :: "clips \<Rightarrow> module_id list" where
  "EnvGetFocusStack e = CurrentFocus e"

definition ClearFocusStackCommand :: "bool \<Rightarrow> clips \<Rightarrow> clips" where
  "ClearFocusStackCommand args_ok e = (if args_ok then EnvClearFocusStack e else e)"

definition PopFocusFunction :: "clips \<Rightarrow> module_id option \<times> clips" where
  "PopFocusFunction e = EnvPopFocus e"

text \<open>
  The arguments from the last to the first, each the module it names or None if it is no symbol or there is no
  such module; the modules after a failing one have got the focus.
\<close>

fun focus_loop :: "module_id option list \<Rightarrow> clips \<Rightarrow> bool \<times> clips" where
  "focus_loop [] e = (True, e)"
| "focus_loop (None # args) e = (False, e)"
| "focus_loop (Some m # args) e = focus_loop args (EnvFocus m e)"

definition FocusCommand :: "module_id option list \<Rightarrow> clips \<Rightarrow> bool \<times> clips" where
  "FocusCommand args e = (if args = [] then (False, e) else focus_loop (rev args) e)"

definition EnvGetFocusChanged :: "clips \<Rightarrow> bool" where
  "EnvGetFocusChanged e = FocusChanged e"

definition EnvSetFocusChanged :: "bool \<Rightarrow> clips \<Rightarrow> clips" where
  "EnvSetFocusChanged v e = e\<lparr>FocusChanged := v\<rparr>"

end
