(* ===== verification/AgendaSteps.thy ===== *)
theory AgendaSteps
  imports Engine AgendaOrder
begin

text \<open>
  What the actions of a rule and the callbacks of a run do to the agenda: sequences of its operations. Each of
  them keeps every agenda ordered and grouped.
\<close>

lemma agenda_RemoveActivationFromGroup [simp]: "agenda (RemoveActivationFromGroup a md) = agenda md"
  by (simp add: RemoveActivationFromGroup_def Let_def split: option.split)

section \<open>Well-formed agendas\<close>

text \<open>Every agenda is well formed and holds the activations of the rules of its module, which is one of the modules.\<close>

definition agendas_ok :: "clips \<Rightarrow> bool" where
  "agendas_ok e \<longleftrightarrow> known_strategy (Strategy e) \<and> distinct (modules e)
     \<and> (\<forall>m. agenda_ok e (ruleModule e m)
          \<and> (\<forall>a \<in> set (agenda (ruleModule e m)). whichModule (rule e (theRule a)) = m \<and> m \<in> set (modules e)))"

definition same_rules :: "clips \<Rightarrow> clips \<Rightarrow> bool" where
  "same_rules e e' \<longleftrightarrow> same_order e e' \<and> modules e' = modules e
     \<and> (\<forall>r. whichModule (rule e' r) = whichModule (rule e r))"

lemma same_rules_refl [simp]: "same_rules e e"
  by (simp add: same_rules_def)

lemma same_rules_trans: "same_rules e e1 \<Longrightarrow> same_rules e1 e2 \<Longrightarrow> same_rules e e2"
  by (auto simp: same_rules_def intro: same_order_trans)

lemma agendas_ok_same: "same_rules e e' \<Longrightarrow> ruleModule e' = ruleModule e \<Longrightarrow> agendas_ok e' = agendas_ok e"
  by (auto simp: agendas_ok_def same_rules_def agenda_ok_same_order) (auto simp: same_order_def)

lemma agendas_ok_upd:
  assumes "agendas_ok e" and "same_rules e e'" and "ruleModule e' = (ruleModule e)(m := md)"
    and "agenda_ok e md" and "theRule ` set (agenda md) \<subseteq> theRule ` set (agenda (ruleModule e m))"
  shows "agendas_ok e'"
proof -
  have w: "whichModule (rule e (theRule a)) = m \<and> m \<in> set (modules e)" if "a \<in> set (agenda md)" for a
  proof -
    obtain b where "b \<in> set (agenda (ruleModule e m))" "theRule b = theRule a" using assms(5) \<open>a \<in> set (agenda md)\<close> by fastforce
    moreover have "whichModule (rule e (theRule b)) = m \<and> m \<in> set (modules e)"
      using assms(1) \<open>b \<in> _\<close> by (simp add: agendas_ok_def)
    ultimately show ?thesis by simp
  qed
  have "Strategy e' = Strategy e" using assms(2) by (simp add: same_rules_def same_order_def)
  then show ?thesis
    using assms w by (auto simp: agendas_ok_def same_rules_def agenda_ok_same_order)
qed

lemma EvaluateSalience_same: "EvaluateSalience evaluate r e = (s, e1) \<Longrightarrow> same_rules e e1"
  by (auto simp: EvaluateSalience_def SetEvaluationError_def same_rules_def same_order_def Let_def
      split: if_splits option.splits evaluated.splits)

lemma refresh_saliences_same: "refresh_saliences evaluate as e = (as', e1) \<Longrightarrow> same_rules e e1"
proof (induction as arbitrary: e as')
  case (Cons a as)
  then show ?case by (auto split: prod.splits intro: same_rules_trans EvaluateSalience_same)
qed simp

lemma refresh_module_keeps:
  assumes "agendas_ok e"
  shows "\<exists>e'. refresh_module evaluate m e = Inr e' \<and> agendas_ok e' \<and> modules e' = modules e"
proof -
  let ?e0 = "EnvSetCurrentModule m e"
  have e0: "same_rules e ?e0" "ruleModule ?e0 = ruleModule e" by (simp_all add: EnvSetCurrentModule_def same_rules_def)
  obtain acts e1 where rs: "refresh_saliences evaluate (agenda (ruleModule ?e0 m)) ?e0 = (acts, e1)"
    by (cases "refresh_saliences evaluate (agenda (ruleModule ?e0 m)) ?e0") auto
  note r = refresh_saliences_sets [OF rs, unfolded e0(2)]
  have s1: "same_rules e e1" using same_rules_trans [OF e0(1) refresh_saliences_same [OF rs]] .
  let ?e2 = "e1\<lparr>ruleModule := (ruleModule e1)(m := (ruleModule e1 m)\<lparr>agenda := acts\<rparr>)\<rparr>"
  have s2: "same_rules e ?e2" "same_order e ?e2" using s1 by (simp_all add: same_rules_def)
  have "orderable e (ruleModule e m)" "known_strategy (Strategy e)"
    using assms by (auto simp: agendas_ok_def agenda_ok_def segments_def orderable_def)
  then have "orderable e \<lparr>agenda = acts, groupings = []\<rparr>"
    using orderable_unsalient [OF r(1), of e "[]" "[]"] by (simp add: orderable_def)
  then have o: "orderable ?e2 (ruleModule ?e2 m)" "known_strategy (Strategy ?e2)"
    unfolding orderable_same_order [OF s2(2)] using \<open>known_strategy (Strategy e)\<close> s2(2) by (simp_all add: orderable_def same_order_def)
  obtain md c where md: "reorder_module m ?e2 = Inr (?e2\<lparr>AgendaChanged := c, ruleModule := (ruleModule ?e2)(m := md)\<rparr>)"
    "agenda_ok ?e2 md" "mset (agenda md) = mset acts"
    using reorder_module_sorts [OF o(2), of m] o(1) by (auto simp: orderable_def)
  let ?e3 = "?e2\<lparr>AgendaChanged := c, ruleModule := (ruleModule ?e2)(m := md)\<rparr>"
  have "map theRule (map unsalient acts) = map theRule (map unsalient (agenda (ruleModule e m)))" using r(1) by simp
  then have "map theRule acts = map theRule (agenda (ruleModule e m))" by (simp add: unsalient_def comp_def)
  then have "set (map theRule acts) = set (map theRule (agenda (ruleModule e m)))" by (rule arg_cong)
  moreover have "set (agenda md) = set acts" using md(3) by (metis set_mset_mset)
  ultimately have th: "theRule ` set (agenda md) \<subseteq> theRule ` set (agenda (ruleModule e m))" by simp
  have "ruleModule e1 = ruleModule e" using r(3) by simp
  then have e3: "same_rules e ?e3" "ruleModule ?e3 = (ruleModule e)(m := md)" using s2 by (simp_all add: same_rules_def)
  have "agendas_ok ?e3" using agendas_ok_upd [OF assms e3 _ th] md(2) agenda_ok_same_order [OF s2(2)] by blast
  then show ?thesis using rs md(1) s1
    by (intro exI [of _ ?e3]) (simp add: refresh_module_def EnvReorderAgenda_def Let_def same_rules_def)
qed

lemma refresh_modules_keep: "agendas_ok e \<Longrightarrow> \<exists>e'. refresh_modules evaluate ms e = Inr e' \<and> agendas_ok e'"
proof (induction ms arbitrary: e)
  case (Cons m ms)
  then show ?case using refresh_module_keeps [OF Cons.prems, of evaluate m] by auto
qed simp

lemma refresh_keeps:
  assumes "agendas_ok e"
  shows "\<exists>e'. EnvRefreshAgenda evaluate None e = Inr e' \<and> agendas_ok e'"
proof -
  let ?e = "e\<lparr>SalienceEvaluation := WHEN_ACTIVATED\<rparr>"
  have "agendas_ok ?e" by (subst agendas_ok_same [of e]) (simp_all add: same_rules_def assms)
  then obtain e' where e': "refresh_modules evaluate (modules ?e) ?e = Inr e'" "agendas_ok e'"
    using refresh_modules_keep by blast
  let ?e' = "EnvSetCurrentModule (CurrentModule e) (e'\<lparr>SalienceEvaluation := SalienceEvaluation e\<rparr>)"
  have "agendas_ok ?e'" by (subst agendas_ok_same [of e']) (simp_all add: same_rules_def EnvSetCurrentModule_def e'(2))
  then show ?thesis using e' by (simp add: EnvRefreshAgenda_def EnvSetSalienceEvaluation_def EnvSetCurrentModule_def)
qed

lemma detach_keeps:
  assumes "agendas_ok e" and "a \<in> set (agenda (ruleModule e (whichModule (rule e (theRule a)))))"
  shows "agendas_ok (DetachActivation a e)"
proof -
  let ?m = "whichModule (rule e (theRule a))"
  have ok: "agenda_ok e (ruleModule e ?m)" using assms(1) by (simp add: agendas_ok_def)
  obtain md where md: "RemoveActivation a True True e = Inr (e\<lparr>ruleModule := (ruleModule e)(?m := md), AgendaChanged := True,
        match := (match e)(basis a := (match e (basis a))\<lparr>marker := None\<rparr>),
        NumberOfActivations := NumberOfActivations e - 1\<rparr>)" "agenda_ok e md" "agenda md = remove1 a (agenda (ruleModule e ?m))"
    using remove_activation [OF ok assms(2)] by blast
  let ?g = "RemoveActivationFromGroup a (ruleModule e ?m)"
  obtain L R where L: "agenda (ruleModule e ?m) = L @ a # R" using assms(2) by (meson split_list)
  have d: "distinct (map act (L @ a # R))" using ok unfolding agenda_ok_def segments_def L by blast
  have ag: "agenda ?g = L @ a # R" using L by simp
  have u: "(if prev_act (act a) (agenda ?g) = None
       then (case agenda ?g of [] \<Rightarrow> Inl Undefined | _ # acts \<Rightarrow> Inr acts)
       else Inr (unlink (act a) (agenda ?g))) = (Inr (unlink (act a) (agenda ?g)) :: activation list res)"
    unfolding ag neighbours(2,3) [OF d] by (cases L) auto
  have "RemoveActivation a True True e = Inr (e\<lparr>ruleModule := (ruleModule e)(?m := ?g\<lparr>agenda := unlink (act a) (agenda ?g)\<rparr>),
      AgendaChanged := True, match := (match e)(basis a := (match e (basis a))\<lparr>marker := None\<rparr>),
      NumberOfActivations := NumberOfActivations e - 1\<rparr>)"
    unfolding RemoveActivation_def Let_def if_True u by simp
  note both = md(1) [unfolded this, THEN arg_cong [of _ _ "case_sum undefined (\<lambda>e. ruleModule e ?m)"]]
  have m: "?g\<lparr>agenda := unlink (act a) (agenda ?g)\<rparr> = md" using both by simp
  have det: "DetachActivation a e = e\<lparr>ruleModule := (ruleModule e)(?m := md), AgendaChanged := True\<rparr>"
    unfolding DetachActivation_def Let_def m ..
  show ?thesis
    by (rule agendas_ok_upd [OF assms(1), of _ ?m md]) (simp_all add: det same_rules_def md image_mono set_remove1_subset)
qed

lemma agendas_ok_evaluation [simp]: "agendas_ok (SetEvaluationError v e) = agendas_ok e"
  by (rule agendas_ok_same) (simp_all add: SetEvaluationError_def same_rules_def Let_def)

lemma agendas_ok_marker [simp]: "agendas_ok (e\<lparr>match := (match e)(b := (match e b)\<lparr>marker := v\<rparr>)\<rparr>) = agendas_ok e"
  by (rule agendas_ok_same) (simp_all add: same_rules_def same_order_def)

lemma agendas_ok_count [simp]: "agendas_ok (e\<lparr>NumberOfActivations := k\<rparr>) = agendas_ok e"
  by (rule agendas_ok_same) (simp_all add: same_rules_def)

lemma agendas_ok_focus [simp]: "agendas_ok (e\<lparr>CurrentFocus := fs, CurrentModule := m, FocusChanged := c\<rparr>) = agendas_ok e"
  by (rule agendas_ok_same) (simp_all add: same_rules_def)

lemma agendas_ok_module [simp]: "agendas_ok (EnvSetCurrentModule m e) = agendas_ok e"
  by (rule agendas_ok_same) (simp_all add: same_rules_def EnvSetCurrentModule_def)

lemma agendas_ok_RemoveFocus [simp]: "agendas_ok (snd (RemoveFocus m e)) = agendas_ok e"
  by (rule agendas_ok_same) (auto simp: same_rules_def RemoveFocus_def EnvSetCurrentModule_def Let_def split: list.split)

lemma agendas_ok_EnvFocus [simp]: "agendas_ok (EnvFocus m e) = agendas_ok e"
  by (rule agendas_ok_same) (auto simp: same_rules_def EnvFocus_def EnvSetCurrentModule_def Let_def)



definition on_agenda :: "activation \<Rightarrow> clips \<Rightarrow> bool" where
  "on_agenda a e \<longleftrightarrow> a \<in> set (agenda (ruleModule e (whichModule (rule e (theRule a)))))"

section \<open>Each operation keeps the agendas\<close>

text \<open>What the place of an activation depends on.\<close>

definition same_place :: "clips \<Rightarrow> clips \<Rightarrow> activation \<Rightarrow> bool" where
  "same_place e e' a \<longleftrightarrow> binds (match e' (basis a)) = binds (match e (basis a))
     \<and> complexity (rule e' (theRule a)) = complexity (rule e (theRule a))
     \<and> whichModule (rule e' (theRule a)) = whichModule (rule e (theRule a))"

lemma same_place_before:
  assumes "Strategy e' = Strategy e" and "same_place e e' a"
  shows "same_place e e' b \<Longrightarrow> agenda_before e' a b = agenda_before e a b" "strategy_good e' a = strategy_good e a"
  using assms
  by (simp_all add: agenda_before_def strategy_before_def strategy_good_def lex_before_def mea_before_def complexity_before_def
      simplicity_before_def has_binds_def first_positive_def first_recency_def recency_def tags_of_def same_place_def)

lemma elsewhere_keeps:
  assumes "agendas_ok e" and "ruleModule e' = ruleModule e" and "Strategy e' = Strategy e" and "modules e' = modules e"
    and "\<forall>m. \<forall>a \<in> set (agenda (ruleModule e m)). same_place e e' a"
  shows "agendas_ok e'"
proof -
  have "agenda_ok e' (ruleModule e m)" for m
  proof -
    have ok: "agenda_ok e (ruleModule e m)" using assms(1) by (simp add: agendas_ok_def)
    note same = same_place_before [OF assms(3)]
    have "sorted_wrt (agenda_before e') (agenda (ruleModule e m))"
      by (rule sorted_wrt_mono_rel [of _ "agenda_before e"]) (use ok assms(5) same(1) in \<open>auto simp: agenda_ok_def\<close>)
    then show ?thesis using ok assms(5) same(2) by (auto simp: agenda_ok_def)
  qed
  then show ?thesis using assms by (auto simp: agendas_ok_def same_place_def)
qed

lemma reorder_module_keeps:
  assumes "agendas_ok e"
  shows "\<exists>e'. reorder_module m e = Inr e' \<and> agendas_ok e'"
proof -
  have o: "known_strategy (Strategy e)" "orderable e (ruleModule e m)"
    using assms by (auto simp: agendas_ok_def agenda_ok_def segments_def orderable_def)
  obtain md c where md: "reorder_module m e = Inr (e\<lparr>AgendaChanged := c, ruleModule := (ruleModule e)(m := md)\<rparr>)"
    "agenda_ok e md" "mset (agenda md) = mset (agenda (ruleModule e m))"
    using reorder_module_sorts [OF o(1), of m] o(2) by (auto simp: orderable_def)
  have "set (agenda md) = set (agenda (ruleModule e m))" using md(3) by (rule mset_eq_setD)
  then have "agendas_ok (e\<lparr>AgendaChanged := c, ruleModule := (ruleModule e)(m := md)\<rparr>)"
    by (intro agendas_ok_upd [OF assms, of _ m md]) (simp_all add: same_rules_def md(2))
  then show ?thesis using md(1) by blast
qed

lemma reorder_modules_keep: "agendas_ok e \<Longrightarrow> \<exists>e'. reorder_modules ms e = Inr e' \<and> agendas_ok e'"
proof (induction ms arbitrary: e)
  case (Cons m ms)
  then show ?case using reorder_module_keeps [OF Cons.prems, of m] by auto
qed simp

lemma reorder_keeps: "agendas_ok e \<Longrightarrow> \<exists>e'. EnvReorderAgenda mo e = Inr e' \<and> agendas_ok e'"
  using reorder_module_keeps reorder_modules_keep by (cases mo) (simp_all add: EnvReorderAgenda_def)

lemma refresh_module_restores:
  assumes "agendas_ok e"
  shows "\<exists>e'. EnvRefreshAgenda evaluate mo e = Inr e' \<and> agendas_ok e'"
proof (cases mo)
  case None
  then show ?thesis using refresh_keeps [OF assms] by simp
next
  case (Some m)
  let ?e = "e\<lparr>SalienceEvaluation := WHEN_ACTIVATED\<rparr>"
  have "agendas_ok ?e" by (subst agendas_ok_same [of e]) (simp_all add: same_rules_def assms)
  then obtain e' where e': "refresh_module evaluate m ?e = Inr e'" "agendas_ok e'"
    using refresh_module_keeps by blast
  have "agendas_ok (EnvSetCurrentModule (CurrentModule e) (e'\<lparr>SalienceEvaluation := SalienceEvaluation e\<rparr>))"
    by (subst agendas_ok_same [of e']) (simp_all add: same_rules_def EnvSetCurrentModule_def e'(2))
  then show ?thesis using e' Some by (simp add: EnvRefreshAgenda_def EnvSetSalienceEvaluation_def EnvSetCurrentModule_def)
qed

text \<open>A set of activations is taken off one agenda.\<close>

lemma agendas_ok_fewer:
  assumes "agendas_ok e" and "same_rules e e'" and "ruleModule e' = (ruleModule e)(m := md)"
    and "agenda_ok e md" and "set (agenda md) \<subseteq> set (agenda (ruleModule e m))"
  shows "agendas_ok e'"
  by (rule agendas_ok_upd [OF assms(1-4) image_mono [OF assms(5)]])

lemma remove_keeps:
  assumes "agendas_ok e" and "on_agenda a e"
  shows "\<exists>e'. RemoveActivation a True True e = Inr e' \<and> agendas_ok e' \<and> (\<forall>b. b \<noteq> a \<longrightarrow> on_agenda b e \<longrightarrow> on_agenda b e')"
proof -
  let ?m = "whichModule (rule e (theRule a))"
  have "agenda_ok e (ruleModule e ?m)" using assms(1) by (simp add: agendas_ok_def)
  from remove_activation [OF this] assms(2) obtain md where md:
    "RemoveActivation a True True e = Inr (e\<lparr>ruleModule := (ruleModule e)(?m := md), AgendaChanged := True,
        match := (match e)(basis a := (match e (basis a))\<lparr>marker := None\<rparr>),
        NumberOfActivations := NumberOfActivations e - 1\<rparr>)"
    "agenda_ok e md" "agenda md = remove1 a (agenda (ruleModule e ?m))" unfolding on_agenda_def by blast
  let ?e = "e\<lparr>ruleModule := (ruleModule e)(?m := md), AgendaChanged := True,
        match := (match e)(basis a := (match e (basis a))\<lparr>marker := None\<rparr>),
        NumberOfActivations := NumberOfActivations e - 1\<rparr>"
  have "agendas_ok ?e"
    by (rule agendas_ok_fewer [OF assms(1), of _ ?m md])
      (simp_all add: same_rules_def same_order_def md(2,3) set_remove1_subset)
  moreover have "\<forall>b. b \<noteq> a \<longrightarrow> on_agenda b e \<longrightarrow> on_agenda b ?e" by (simp add: on_agenda_def md(3))
  ultimately show ?thesis using md(1) by blast
qed

lemma remove_loop_keeps:
  "agendas_ok e \<Longrightarrow> distinct as \<Longrightarrow> \<forall>a \<in> set as. on_agenda a e \<Longrightarrow> \<exists>e'. remove_loop P as e = Inr e' \<and> agendas_ok e'"
proof (induction as arbitrary: e)
  case (Cons a as)
  show ?case
  proof (cases "P a")
    case True
    obtain e1 where e1: "RemoveActivation a True True e = Inr e1" "agendas_ok e1"
      "\<forall>b. b \<noteq> a \<longrightarrow> on_agenda b e \<longrightarrow> on_agenda b e1"
      using remove_keeps [OF Cons.prems(1)] Cons.prems(3) by (meson list.set_intros(1))
    have "\<forall>b \<in> set as. on_agenda b e1" using e1(3) Cons.prems(2,3) by auto
    then show ?thesis using Cons.IH [OF e1(2)] Cons.prems(2) e1(1) True by simp
  next
    case False
    then show ?thesis using Cons by simp
  qed
qed simp

lemma whole_agenda:
  assumes "agendas_ok e"
  shows "distinct (agenda (ruleModule e m))" "\<forall>a \<in> set (agenda (ruleModule e m)). on_agenda a e"
proof -
  have "agenda_ok e (ruleModule e m)" using assms by (simp add: agendas_ok_def)
  then show "distinct (agenda (ruleModule e m))" by (auto simp: agenda_ok_def distinct_map)
  show "\<forall>a \<in> set (agenda (ruleModule e m)). on_agenda a e"
    using assms by (auto simp: agendas_ok_def on_agenda_def)
qed

lemma clear_keeps: "agendas_ok e \<Longrightarrow> \<exists>e'. ClearRuleFromAgenda r e = Inr e' \<and> agendas_ok e'"
  unfolding ClearRuleFromAgenda_def by (rule remove_loop_keeps [OF _ whole_agenda])

lemma remove_all_keeps:
  assumes "agendas_ok e" and "RemoveAllActivations e = Inr e'"
  shows "agendas_ok e'"
proof -
  obtain e1 where "remove_loop (\<lambda>_. True) (agenda (ruleModule e (CurrentModule e))) e = Inr e1" "agendas_ok e1"
    using remove_loop_keeps [OF assms(1) whole_agenda [OF assms(1)]] by blast
  then show ?thesis using assms(2) by (simp add: RemoveAllActivations_def split: if_splits)
qed

lemma PlaceActivation_frame:
  assumes "PlaceActivation m new i e = Inr e'"
  shows "modules e' = modules e" "rule e' = rule e"
  using assms by (auto simp: PlaceActivation_def Let_def bind_res_def split: sum.splits prod.splits)

lemma AddActivation_frame:
  assumes "AddActivation get_struct genrand evaluate r b e = Inr e'"
  shows "modules e' = modules e" "whichModule (rule e' q) = whichModule (rule e q)"
proof -
  let ?f = "(if autoFocus (rule e r) then EnvFocus (whichModule (rule e r)) e else e)"
  obtain s e1 where ev: "EvaluateSalience evaluate r (?f\<lparr>CurrentTimetag := CurrentTimetag ?f + 1\<rparr>) = (s, e1)"
    by (cases "EvaluateSalience evaluate r (?f\<lparr>CurrentTimetag := CurrentTimetag ?f + 1\<rparr>)") auto
  have f: "modules ?f = modules e" "rule ?f = rule e"
    by (simp_all add: EnvFocus_def EnvSetCurrentModule_def Let_def)
  have e1: "modules e1 = modules e" "whichModule (rule e1 q) = whichModule (rule e q)"
    using EvaluateSalience_frame(4,9) [OF ev] f by simp_all
  obtain i e2 new where p: "PlaceActivation (whichModule (rule e r)) new i e2 = Inr e'" "modules e2 = modules e1" "rule e2 = rule e1"
    using assms ev by (auto simp: AddActivation_def ReuseOrCreateSalienceGroup_def Let_def split: prod.splits)
  show "modules e' = modules e" "whichModule (rule e' q) = whichModule (rule e q)"
    using PlaceActivation_frame [OF p(1)] p(2,3) e1 by simp_all
qed

lemma add_keeps:
  assumes "agendas_ok e" and "match_good e b" and "whichModule (rule e r) \<in> set (modules e)"
    and "\<forall>e'. ruleModule e' = ruleModule e \<longrightarrow> get_struct e' \<notin> act ` set (agenda (ruleModule e (whichModule (rule e r))))"
    and "CurrentTimetag e \<notin> timetag ` set (agenda (ruleModule e (whichModule (rule e r))))"
  shows "\<exists>e'. AddActivation get_struct genrand evaluate r b e = Inr e' \<and> agendas_ok e'"
proof -
  let ?m = "whichModule (rule e r)"
  have "known_strategy (Strategy e)" "agenda_ok e (ruleModule e ?m)" using assms(1) by (simp_all add: agendas_ok_def)
  from add_activation [OF this assms(2,4,5)] obtain e' new md where r:
    "AddActivation get_struct genrand evaluate r b e = Inr e'" "ruleModule e' = (ruleModule e)(?m := md)"
    "agenda md = ordered_insert (agenda_before e) new (agenda (ruleModule e ?m))" "agenda_ok e' md" "same_order e e'"
    "theRule new = r" by metis
  note frame = AddActivation_frame [OF r(1)]
  have "set (agenda md) = insert new (set (agenda (ruleModule e ?m)))"
    using r(3) mset_ordered_insert [of "agenda_before e" new "agenda (ruleModule e ?m)"]
    by (metis set_mset_add_mset_insert set_mset_mset)
  then have acts: "whichModule (rule e (theRule a)) = ?m" if "a \<in> set (agenda md)" for a
    using that r(6) assms(1) by (auto simp: agendas_ok_def)
  have "agenda_ok e' (ruleModule e' n)
      \<and> (\<forall>a \<in> set (agenda (ruleModule e' n)). whichModule (rule e' (theRule a)) = n \<and> n \<in> set (modules e'))" for n
  proof (cases "n = ?m")
    case True
    then show ?thesis unfolding r(2) frame using r(4) acts assms(3) by simp
  next
    case False
    then show ?thesis unfolding r(2) frame agenda_ok_same_order [OF r(5)] using assms(1) by (simp add: agendas_ok_def)
  qed
  moreover have "Strategy e' = Strategy e" using r(5) by (simp add: same_order_def)
  ultimately have "agendas_ok e'"
    using assms(1) by (simp add: agendas_ok_def frame(1))
  then show ?thesis using r(1) by blast
qed

lemma strategy_keeps:
  assumes "agendas_ok e" and "known_strategy v" and "\<forall>m. \<forall>a \<in> set (agenda (ruleModule e m)). strategy_good (e\<lparr>Strategy := v\<rparr>) a"
  shows "\<exists>e'. EnvSetStrategy v e = Inr (Strategy e, e') \<and> agendas_ok e'"
proof (cases "v = Strategy e")
  case True
  then show ?thesis using assms(1) by (simp add: EnvSetStrategy_def)
next
  case False
  let ?e = "e\<lparr>Strategy := v\<rparr>"
  have "distinct (modules e)" using assms(1) by (simp add: agendas_ok_def)
  moreover have "orderable ?e (ruleModule ?e m)" for m
    using assms(1,3) by (auto simp: agendas_ok_def agenda_ok_def segments_def orderable_def)
  ultimately obtain f c where f: "reorder_modules (modules e) ?e = Inr (?e\<lparr>AgendaChanged := c, ruleModule := f\<rparr>)"
    "\<forall>m \<in> set (modules e). agenda_ok ?e (f m) \<and> mset (agenda (f m)) = mset (agenda (ruleModule ?e m))"
    "\<forall>m. m \<notin> set (modules e) \<longrightarrow> f m = ruleModule ?e m"
    using reorder_modules_sort [of ?e "modules e"] assms(2) by auto
  let ?e' = "?e\<lparr>AgendaChanged := c, ruleModule := f\<rparr>"
  have same: "same_order ?e ?e'" by simp
  have "agenda_ok ?e' (f m) \<and> (\<forall>a \<in> set (agenda (f m)). whichModule (rule e (theRule a)) = m \<and> m \<in> set (modules e))" for m
  proof (cases "m \<in> set (modules e)")
    case True
    then have fm: "agenda_ok ?e (f m)" "mset (agenda (f m)) = mset (agenda (ruleModule e m))" using f(2) by simp_all
    have "agenda_ok ?e' (f m)" unfolding agenda_ok_same_order [OF same] by (rule fm(1))
    moreover have "\<forall>a \<in> set (agenda (ruleModule e m)). whichModule (rule e (theRule a)) = m" using assms(1) by (simp add: agendas_ok_def)
    ultimately show ?thesis using True mset_eq_setD [OF fm(2)] by simp
  next
    case False
    then have "agenda (ruleModule e m) = []" using assms(1) unfolding agendas_ok_def by (metis hd_in_set)
    moreover have "agenda_ok e (ruleModule e m)" using assms(1) by (simp add: agendas_ok_def)
    ultimately show ?thesis using f(3) False by (simp add: agenda_ok_def)
  qed
  then have "agendas_ok ?e'" using assms(1,2) by (simp add: agendas_ok_def)
  then show ?thesis using False f(1) by (simp add: EnvSetStrategy_def EnvReorderAgenda_def Let_def)
qed

section \<open>Steps\<close>

text \<open>
  A step of an action or a callback on the agenda: one of its operations, with a fresh activation and a partial match
  the strategy can compare, or anything that leaves the agendas and what they are ordered by alone (the focus stack, halting,
  the mode of evaluation, other rules and partial matches). \<open>EnvRefresh\<close> is a sequence of \<open>activates\<close>. Only
  \<open>MoveActivationToTop\<close> and \<open>EnvSetActivationSalience\<close> without a reordering are left out, which disorder the agenda.
\<close>

inductive agenda_step :: "(expression \<Rightarrow> evaluated) \<Rightarrow> clips \<Rightarrow> clips \<Rightarrow> bool" for evaluate where
  elsewhere: "ruleModule e' = ruleModule e \<Longrightarrow> Strategy e' = Strategy e \<Longrightarrow> modules e' = modules e
    \<Longrightarrow> \<forall>m. \<forall>a \<in> set (agenda (ruleModule e m)). same_place e e' a \<Longrightarrow> agenda_step evaluate e e'"
| activates: "match_good e b \<Longrightarrow> whichModule (rule e r) \<in> set (modules e)
    \<Longrightarrow> \<forall>e'. ruleModule e' = ruleModule e \<longrightarrow> get_struct e' \<notin> act ` set (agenda (ruleModule e (whichModule (rule e r))))
    \<Longrightarrow> CurrentTimetag e \<notin> timetag ` set (agenda (ruleModule e (whichModule (rule e r))))
    \<Longrightarrow> AddActivation get_struct genrand evaluate r b e = Inr e' \<Longrightarrow> agenda_step evaluate e e'"
| removes: "on_agenda a e \<Longrightarrow> EnvDeleteActivation (Some a) e = Inr e' \<Longrightarrow> agenda_step evaluate e e'"
| removes_all: "EnvDeleteActivation None e = Inr e' \<Longrightarrow> agenda_step evaluate e e'"
| clears: "ClearRuleFromAgenda r e = Inr e' \<Longrightarrow> agenda_step evaluate e e'"
| switches: "known_strategy v \<Longrightarrow> \<forall>m. \<forall>a \<in> set (agenda (ruleModule e m)). strategy_good (e\<lparr>Strategy := v\<rparr>) a
    \<Longrightarrow> EnvSetStrategy v e = Inr (old, e') \<Longrightarrow> agenda_step evaluate e e'"
| reorders: "EnvReorderAgenda mo e = Inr e' \<Longrightarrow> agenda_step evaluate e e'"
| refreshes: "EnvRefreshAgenda evaluate mo e = Inr e' \<Longrightarrow> agenda_step evaluate e e'"

theorem agenda_step_keeps: "agenda_step evaluate e e' \<Longrightarrow> agendas_ok e \<Longrightarrow> agendas_ok e'"
proof (induction rule: agenda_step.induct)
  case (elsewhere e' e)
  then show ?case using elsewhere_keeps by blast
next
  case (activates e b r get_struct genrand e')
  then show ?case using add_keeps [OF activates.prems activates.hyps(1-4), of genrand evaluate] by simp
next
  case (removes a e e')
  then show ?case using remove_keeps [OF removes.prems removes.hyps(1)] by (auto simp: EnvDeleteActivation_def)
next
  case (removes_all e e')
  then show ?case using remove_all_keeps by (simp add: EnvDeleteActivation_def)
next
  case (clears r e e')
  then show ?case using clear_keeps [OF clears.prems, of r] by auto
next
  case (switches v e old e')
  then show ?case using strategy_keeps [OF switches.prems switches.hyps(1,2)] by auto
next
  case (reorders mo e e')
  then show ?case using reorder_keeps [OF reorders.prems, of mo] by auto
next
  case (refreshes mo e e')
  then show ?case using refresh_module_restores [OF refreshes.prems, of evaluate mo] by auto
qed

text \<open>A step of the engine: the agenda, or anything else but the rule that is executing.\<close>

inductive engine_step :: "'a world \<Rightarrow> 'a engine \<Rightarrow> 'a engine \<Rightarrow> bool" for w where
  agenda: "agenda_step (salience_value w) (env g) e \<Longrightarrow> engine_step w g (g\<lparr>env := e\<rparr>)"
| outside: "env g' = env g \<Longrightarrow> ExecutingRule g' = ExecutingRule g \<Longrightarrow> engine_step w g g'"

lemma engine_steps_keep:
  assumes "(engine_step w)\<^sup>*\<^sup>* g g'" and "agendas_ok (env g)"
  shows "agendas_ok (env g') \<and> ExecutingRule g' = ExecutingRule g"
  using assms
proof (induction rule: rtranclp_induct)
  case (step g1 g2)
  from step.hyps(2) step.IH [OF step.prems] show ?case
    by (cases rule: engine_step.cases) (auto dest: agenda_step_keeps)
qed simp

end
