(* ===== verification/Running.thy ===== *)
theory Running
  imports AgendaSteps
begin

text \<open>
  Properties of the run loop: which activations a run fires and in what order, the limit, the agendas during a
  run, halting, breakpoints, call lists and the focus command.
\<close>

section \<open>The order of firing\<close>

text \<open>
  The activations that are due: the agendas of the modules on the stack, from the top, a module only the first
  time it is met.
\<close>

fun pending :: "module_id list \<Rightarrow> (module_id \<Rightarrow> activation list) \<Rightarrow> activation list" where
  "pending [] A = []"
| "pending (m # ms) A = A m @ pending ms (A(m := []))"

definition agendas :: "clips \<Rightarrow> module_id \<Rightarrow> activation list" where
  "agendas e m = agenda (ruleModule e m)"

definition due_now :: "'a engine \<Rightarrow> activation list" where
  "due_now g = pending (CurrentFocus (env g)) (agendas (env g))"

lemma pending_dropWhile: "pending (dropWhile (\<lambda>m. A m = []) ms) A = pending ms A"
proof (induction ms)
  case (Cons m ms)
  then show ?case by (cases "A m = []") (simp_all add: fun_upd_idem)
qed simp

lemma pending_fired: "A m = a # as \<Longrightarrow> pending (m # ms) (A(m := as)) = tl (pending (m # ms) A)"
  by simp

text \<open>The ones a run fires: up to its limit, and up to the first breakpoint after the first.\<close>

definition fired :: "(address \<Rightarrow> bool) \<Rightarrow> int \<Rightarrow> activation list \<Rightarrow> activation list" where
  "fired break_at k P =
     (let F = (case P of [] \<Rightarrow> [] | a # as \<Rightarrow> a # takeWhile (\<lambda>b. \<not> break_at (theRule b)) as) in
      if k < 0 then F else take (nat k) F)"

lemma fired_Nil [simp]: "fired bp k [] = []" "fired bp 0 P = []"
  by (simp_all add: fired_def)

lemma fired_Cons:
  assumes "k \<noteq> 0"
  shows "fired bp k (a # as) = a # (if as \<noteq> [] \<and> bp (theRule (hd as)) then []
    else fired bp (if 0 < k then k - 1 else k) as)"
proof (cases "k < 0")
  case True
  then show ?thesis by (cases as) (simp_all add: fired_def)
next
  case False
  then obtain n where k: "nat k = Suc n" using assms by (cases "nat k") auto
  then have "nat (k - 1) = n" by simp
  then show ?thesis using False assms k by (cases as) (simp_all add: fired_def)
qed

section \<open>Worlds whose actions only change the memory\<close>

definition quiet :: "'a world \<Rightarrow> (address \<Rightarrow> 'a \<Rightarrow> 'a) \<Rightarrow> bool" where
  "quiet w effect \<longleftrightarrow> (\<forall>r g. run_actions w r g = g\<lparr>memory := effect r (memory g)\<rparr>)
     \<and> (\<forall>i g. call_function w i g = g) \<and> (\<forall>i a g. call_before w i a g = g)
     \<and> (\<forall>t g. increment_basis w t g = g) \<and> (\<forall>t g. decrement_basis w t g = g)
     \<and> (\<forall>g. clean_up w g = g) \<and> (\<forall>g. periodic_tasks w g = g)"

text \<open>Nothing stops the loop, and each activation is on the agenda of its rule's module.\<close>

definition ready :: "'a engine \<Rightarrow> bool" where
  "ready g \<longleftrightarrow> \<not> HaltExecution (env g) \<and> \<not> ReturnFlag g \<and> SalienceEvaluation (env g) \<noteq> EVERY_CYCLE
     \<and> (\<forall>m. \<forall>a \<in> set (agendas (env g) m). whichModule (rule (env g) (theRule a)) = m)"

lemma fold_context: "\<exists>c. fold (\<lambda>i g. g\<lparr>CallbackContext := item_context i\<rparr>) items g = g\<lparr>CallbackContext := c\<rparr>"
proof (induction items arbitrary: g)
  case Nil
  show ?case by (rule exI [of _ "CallbackContext g"]) simp
next
  case (Cons i items)
  from Cons.IH [of "g\<lparr>CallbackContext := item_context i\<rparr>"] show ?case by auto
qed

lemma quiet_calls:
  assumes "quiet w effect"
  shows "\<exists>c. call_before_functions w a g = g\<lparr>CallbackContext := c\<rparr>" "\<exists>c. call_run_functions w g = g\<lparr>CallbackContext := c\<rparr>"
    "call_run_functions_once w g = g"
proof -
  have f: "fold (\<lambda>i g. call_before w i a (g\<lparr>CallbackContext := item_context i\<rparr>)) = fold (\<lambda>i g. g\<lparr>CallbackContext := item_context i\<rparr>)"
    "fold (\<lambda>i g. call_function w i (g\<lparr>CallbackContext := item_context i\<rparr>)) = fold (\<lambda>i g. g\<lparr>CallbackContext := item_context i\<rparr>)"
    using assms by (simp_all add: quiet_def)
  show "\<exists>c. call_before_functions w a g = g\<lparr>CallbackContext := c\<rparr>" "\<exists>c. call_run_functions w g = g\<lparr>CallbackContext := c\<rparr>"
    unfolding call_before_functions_def call_run_functions_def f by (rule fold_context)+
  have "fold (call_function w) items g = g" for items
    using assms by (induction items) (simp_all add: quiet_def)
  then show "call_run_functions_once w g = g" by (simp add: call_run_functions_once_def)
qed

lemma fold_quiet: "\<forall>t g. f t g = g \<Longrightarrow> fold f ts g = g"
  by (induction ts) simp_all

text \<open>What the loop looks at.\<close>

definition same_control :: "'a engine \<Rightarrow> 'a engine \<Rightarrow> bool" where
  "same_control g g' \<longleftrightarrow> HaltRules g' = HaltRules g \<and> ReturnFlag g' = ReturnFlag g \<and> AlreadyRunning g' = AlreadyRunning g
     \<and> afterBreakpoint g' = afterBreakpoint g \<and> printed g' = printed g \<and> topLevel g' = topLevel g
     \<and> HaltExecution (env g') = HaltExecution (env g) \<and> SalienceEvaluation (env g') = SalienceEvaluation (env g)
     \<and> rule (env g') = rule (env g)"

lemma fire_quiet:
  assumes "quiet w effect" and "ready g" and "\<not> HaltRules g" and "agendas (env g) m = a # as"
  shows "\<exists>g'. fire_rule w a g = Inr g' \<and> same_control g g' \<and> CurrentFocus (env g') = CurrentFocus (env g)
    \<and> agendas (env g') = (agendas (env g))(m := as) \<and> memory g' = effect (theRule a) (memory g)"
proof -
  have m: "whichModule (rule (env g) (theRule a)) = m" using assms(2,4) by (auto simp: ready_def)
  obtain c where c: "call_before_functions w a g = g\<lparr>CallbackContext := c\<rparr>" using quiet_calls(1) [OF assms(1)] by blast
  define g1 where "g1 = begin_firing w a (g\<lparr>CallbackContext := c\<rparr>)"
  have inc: "fold (increment_basis w) ts h = h" "fold (decrement_basis w) ts h = h" for ts h
    using assms(1) by (auto simp: quiet_def intro: fold_quiet)
  have b: "same_control g g1" "CurrentFocus (env g1) = CurrentFocus (env g)" "memory g1 = memory g"
    "agendas (env g1) = (agendas (env g))(m := as)" "ExecutingRule g1 = Some (theRule a)"
    using m assms(4)
    by (auto simp: g1_def begin_firing_def inc Let_def on_env_def DetachActivation_def SetEvaluationError_def same_control_def
        agendas_def unlink_def fun_eq_iff split: option.split)
  define g2 where "g2 = run_actions w (theRule a) g1"
  have g2: "g2 = g1\<lparr>memory := effect (theRule a) (memory g1)\<rparr>" using assms(1) by (simp add: g2_def quiet_def)
  obtain g3 where g3: "end_firing w a g2 = Inr g3" "same_control g g3" "CurrentFocus (env g3) = CurrentFocus (env g)"
    "memory g3 = effect (theRule a) (memory g)" "agendas (env g3) = (agendas (env g))(m := as)" "ExecutingRule g3 = Some (theRule a)"
    using b assms(2,3)
    by (auto simp: g2 end_firing_def inc Let_def on_env_def SetEvaluationError_def RemoveActivation_def same_control_def
        ready_def agendas_def fun_eq_iff split: option.split)
  obtain c' where c': "call_run_functions w g3 = g3\<lparr>CallbackContext := c'\<rparr>" using quiet_calls(2) [OF assms(1)] by blast
  have "after_firing w g3 = Inr (g3\<lparr>CallbackContext := c', ReturnFlag := False\<rparr>)"
    using g3(2) assms(1,2) c' by (simp add: after_firing_def quiet_def same_control_def ready_def Let_def)
  moreover have "fire_rule w a g = bind_res (end_firing w a g2) (after_firing w)"
    by (simp add: fire_rule_def c g1_def g2_def)
  ultimately have "fire_rule w a g = Inr (g3\<lparr>CallbackContext := c', ReturnFlag := False\<rparr>)" using g3(1) by simp
  moreover have "same_control g (g3\<lparr>CallbackContext := c', ReturnFlag := False\<rparr>)"
    using g3(2) assms(2) by (simp add: same_control_def ready_def)
  ultimately show ?thesis using g3(3-5) by auto
qed

lemma next_loop_frame: "\<exists>fs m c. snd (next_activation_loop e) = e\<lparr>CurrentFocus := fs, CurrentModule := m, FocusChanged := c\<rparr>"
proof (induction e rule: next_activation_loop.induct)
  case (1 e)
  show ?case
  proof (cases "CurrentFocus e")
    case Nil
    then show ?thesis
      by (subst next_activation_loop.simps, intro exI [of _ "[]"] exI [of _ "CurrentModule e"] exI [of _ "FocusChanged e"]) simp
  next
    case (Cons m ms)
    show ?thesis
    proof (cases "agenda (ruleModule e m)")
      case Nil
      obtain fs m' c where p: "snd (EnvPopFocus e) = e\<lparr>CurrentFocus := fs, CurrentModule := m', FocusChanged := c\<rparr>"
      proof -
        have "\<exists>fs m' c. snd (EnvPopFocus e) = e\<lparr>CurrentFocus := fs, CurrentModule := m', FocusChanged := c\<rparr>"
        proof (cases ms)
          case Nil
          then show ?thesis using \<open>CurrentFocus e = m # ms\<close>
            by (intro exI [of _ "[]"] exI [of _ "CurrentModule e"] exI [of _ True])
              (simp add: EnvPopFocus_def RemoveFocus_def Let_def)
        next
          case (Cons m' ms')
          then show ?thesis using \<open>CurrentFocus e = m # ms\<close>
            by (intro exI [of _ ms] exI [of _ m'] exI [of _ True])
              (simp add: EnvPopFocus_def RemoveFocus_def EnvSetCurrentModule_def Let_def)
        qed
        then show ?thesis using that by blast
      qed
      from "1.IH" [OF Cons Nil] obtain fs' m'' c' where
        "snd (next_activation_loop (snd (EnvPopFocus e))) = (snd (EnvPopFocus e))\<lparr>CurrentFocus := fs', CurrentModule := m'', FocusChanged := c'\<rparr>"
        by blast
      then have "snd (next_activation_loop e) = e\<lparr>CurrentFocus := fs', CurrentModule := m'', FocusChanged := c'\<rparr>"
        using Cons Nil p by (subst next_activation_loop.simps) simp
      then show ?thesis by blast
    next
      case (Cons a as)
      then show ?thesis using \<open>CurrentFocus e = m # ms\<close>
        by (subst next_activation_loop.simps, intro exI [of _ "m # ms"] exI [of _ "CurrentModule e"] exI [of _ "FocusChanged e"]) simp
    qed
  qed
qed

lemma next_quiet:
  fixes g :: "'a engine"
  assumes "next_activation w g = (nxt, g')" and "P = pending (if CurrentFocus (env g) = [] then [main_module w] else CurrentFocus (env g)) (agendas (env g))"
  shows "same_control g g' \<and> agendas (env g') = agendas (env g) \<and> memory g' = memory g \<and> due_now g' = P
    \<and> nxt = (case P of [] \<Rightarrow> None | a # _ \<Rightarrow> Some a)
    \<and> (P \<noteq> [] \<longrightarrow> (\<exists>m ms a as. CurrentFocus (env g') = m # ms \<and> agendas (env g) m = a # as))"
proof -
  let ?e = "if CurrentFocus (env g) = [] then EnvFocus (main_module w) (env g) else env g"
  let ?fs = "if CurrentFocus (env g) = [] then [main_module w] else CurrentFocus (env g)"
  obtain ao e' where n: "next_activation_loop ?e = (ao, e')" by (cases "next_activation_loop ?e") auto
  have r: "nxt = ao" "g' = g\<lparr>env := e'\<rparr>"
    using assms(1) n by (simp_all add: Engine.next_activation_def NextActivationToFire_def)
  have e: "CurrentFocus ?e = ?fs" "ruleModule ?e = ruleModule (env g)" "rule ?e = rule (env g)"
    "HaltExecution ?e = HaltExecution (env g)" "SalienceEvaluation ?e = SalienceEvaluation (env g)"
    by (simp_all add: EnvFocus_def EnvSetCurrentModule_def Let_def)
  obtain fs m c where fr: "e' = ?e\<lparr>CurrentFocus := fs, CurrentModule := m, FocusChanged := c\<rparr>"
    using next_loop_frame [of ?e] n by auto
  have fr': "rule e' = rule (env g)" "HaltExecution e' = HaltExecution (env g)" "SalienceEvaluation e' = SalienceEvaluation (env g)"
    unfolding fr by (simp_all add: EnvFocus_def EnvSetCurrentModule_def Let_def)
  note p = AgendaOrder.next_activation [OF n, unfolded e]
  have A: "agendas e' = agendas (env g)" using p by (simp add: agendas_def fun_eq_iff)
  have D: "CurrentFocus e' = dropWhile (\<lambda>m. agendas (env g) m = []) ?fs" using p by (simp add: agendas_def)
  have P: "pending (CurrentFocus e') (agendas e') = P" unfolding D A pending_dropWhile assms(2) ..
  have top: "agendas (env g) m \<noteq> []" if "CurrentFocus e' = m # ms" for m ms
    using that hd_dropWhile [of "\<lambda>m. agendas (env g) m = []" ?fs] unfolding D by simp
  have nxt: "ao = (case P of [] \<Rightarrow> None | a # _ \<Rightarrow> Some a) \<and> (P \<noteq> [] \<longrightarrow> (\<exists>m ms a as. CurrentFocus e' = m # ms \<and> agendas (env g) m = a # as))"
  proof (cases "CurrentFocus e'")
    case Nil
    then have "P = []" using P by simp
    then show ?thesis using p Nil by simp
  next
    case (Cons m ms)
    then obtain a as where a: "agendas (env g) m = a # as" using top by (cases "agendas (env g) m") auto
    then have "P = a # as @ pending ms ((agendas (env g))(m := []))" using P Cons A by simp
    moreover have "ao = Some a" using p Cons a by (simp add: agendas_def)
    ultimately show ?thesis using Cons a by simp
  qed
  show ?thesis using r fr' A P nxt by (simp add: same_control_def due_now_def)
qed

lemma ready_control: "same_control g g' \<Longrightarrow> (\<And>m. set (agendas (env g') m) \<subseteq> set (agendas (env g) m)) \<Longrightarrow> ready g \<Longrightarrow> ready g'"
  unfolding ready_def same_control_def by (metis subsetD)

lemma same_control_trans: "same_control g h \<Longrightarrow> same_control h k \<Longrightarrow> same_control g k"
  by (simp add: same_control_def)

lemma ready_upd [simp]: "ready (g\<lparr>HaltRules := h\<rparr>) = ready g" "ready (g\<lparr>printed := p\<rparr>) = ready g"
  "due_now (g\<lparr>HaltRules := h\<rparr>) = due_now g" "due_now (g\<lparr>printed := p\<rparr>) = due_now g"
  by (simp_all add: ready_def due_now_def)

text \<open>The message for a breakpoint the run stopped at.\<close>

definition stop_message :: "(address \<Rightarrow> bool) \<Rightarrow> nat \<Rightarrow> activation list \<Rightarrow> message list" where
  "stop_message break_at n P =
     (if 0 < n \<and> n < length P \<and> break_at (theRule (P ! n)) then [BreakingOn (theRule (P ! n))] else [])"

definition limit_left :: "int \<Rightarrow> nat \<Rightarrow> int" where
  "limit_left k n = (if 0 < k then k - int n else k)"

lemma run_stops: "\<not> keeps_running nxt k g \<Longrightarrow> run_loop w fuel n k nxt g = return_run (n, k, g)"
  by (cases fuel) simp_all

lemma run_loop_quiet:
  assumes "quiet w effect" and "ready g" and "\<not> HaltRules g" and "due_now g = P"
    and "nxt = (case P of [] \<Rightarrow> None | a # _ \<Rightarrow> Some a)"
    and "P \<noteq> [] \<longrightarrow> (\<exists>m ms a as. CurrentFocus (env g) = m # ms \<and> agendas (env g) m = a # as)"
    and "length P \<le> fuel"
  shows "\<exists>g'. run_loop w fuel n k nxt g
      = return_run (n + int (length (fired (afterBreakpoint g) k P)), limit_left k (length (fired (afterBreakpoint g) k P)), g')
    \<and> memory g' = fold effect (map theRule (fired (afterBreakpoint g) k P)) (memory g)
    \<and> due_now g' = drop (length (fired (afterBreakpoint g) k P)) P
    \<and> printed g' = printed g @ stop_message (afterBreakpoint g) (length (fired (afterBreakpoint g) k P)) P
    \<and> topLevel g' = topLevel g"
  using assms
proof (induction P arbitrary: fuel n k nxt g)
  case Nil
  then have "\<not> keeps_running nxt k g" by (simp add: keeps_running_def)
  then show ?case using Nil.prems(4) by (intro exI [of _ g]) (simp add: run_stops stop_message_def limit_left_def)
next
  case (Cons a P)
  show ?case
  proof (cases "k = 0")
    case True
    then have "\<not> keeps_running nxt k g" by (simp add: keeps_running_def)
    then show ?thesis using True Cons.prems(4)
      by (intro exI [of _ g]) (simp add: run_stops stop_message_def limit_left_def)
  next
    case False
    obtain m ms as where focus: "CurrentFocus (env g) = m # ms" "agendas (env g) m = a # as"
      using Cons.prems(4,6) by (auto simp: due_now_def)
    obtain f where fuel: "fuel = Suc f" "length P \<le> f" using Cons.prems(7) by (cases fuel) auto
    have run: "keeps_running nxt k g" "the nxt = a"
      using Cons.prems(2,3,5) False by (auto simp: keeps_running_def ready_def)
    obtain g1 where g1: "fire_rule w a g = Inr g1" "same_control g g1" "CurrentFocus (env g1) = m # ms"
      "agendas (env g1) = (agendas (env g))(m := as)" "memory g1 = effect (theRule a) (memory g)"
      using fire_quiet [OF Cons.prems(1-3) focus(2)] focus(1) by auto
    have ready1: "ready g1"
      by (rule ready_control [OF g1(2) _ Cons.prems(2)]) (use g1(4) focus(2) in auto)
    have "due_now g1 = tl (due_now g)"
      using pending_fired [of "agendas (env g)" m a as ms] focus(2) by (simp add: due_now_def g1(3,4) focus(1))
    then have P1: "pending (if CurrentFocus (env g1) = [] then [main_module w] else CurrentFocus (env g1)) (agendas (env g1)) = P"
      using Cons.prems(4) g1(3) by (simp add: due_now_def)
    obtain nxt2 g2 where n2: "next_activation w g1 = (nxt2, g2)" by (cases "next_activation w g1") auto
    note g2 = next_quiet [OF n2 P1 [symmetric]]
    have c2: "same_control g g2" using same_control_trans g1(2) g2 by blast
    have ready2: "ready g2" using g2 by (intro ready_control [OF _ _ ready1]) auto
    define k' where "k' = (if 0 < k then k - 1 else k)"
    have loop: "run_loop w fuel n k nxt g = run_loop w f (n + 1) k' nxt2 (check_breakpoint nxt2 g2)"
      using fuel(1) run g1(1) n2 by (simp add: k'_def)
    have left: "limit_left k (Suc i) = limit_left k' i" if "i = 0 \<or> k' \<noteq> 0" for i
      using that False by (auto simp: limit_left_def k'_def)
    show ?thesis
    proof (cases "P \<noteq> [] \<and> afterBreakpoint g (theRule (hd P))")
      case True
      then obtain b Q where b: "P = b # Q" "afterBreakpoint g (theRule b)" by (cases P) auto
      have F: "fired (afterBreakpoint g) k (a # P) = [a]" using True by (simp add: fired_Cons [OF False])
      have s: "check_breakpoint nxt2 g2 = g2\<lparr>HaltRules := True, printed := printed g2 @ [BreakingOn (theRule b)]\<rparr>"
        using g2 b c2 by (simp add: check_breakpoint_def print_message_def same_control_def)
      have "\<not> keeps_running nxt2 k' (check_breakpoint nxt2 g2)" by (simp add: s keeps_running_def)
      then have "run_loop w fuel n k nxt g = return_run (n + 1, k', check_breakpoint nxt2 g2)"
        unfolding loop by (rule run_stops)
      then show ?thesis
        using F b s g2 g1(5) c2 left [of 0]
        by (intro exI [of _ "check_breakpoint nxt2 g2"]) (simp add: stop_message_def limit_left_def same_control_def)
    next
      case False2: False
      have F: "fired (afterBreakpoint g) k (a # P) = a # fired (afterBreakpoint g) k' P"
        using False2 by (auto simp add: fired_Cons [OF False] k'_def)
      have s: "check_breakpoint nxt2 g2 = g2"
        using g2 False2 c2 by (cases P) (simp_all add: check_breakpoint_def same_control_def)
      have h2: "\<not> HaltRules g2" "afterBreakpoint g2 = afterBreakpoint g" "printed g2 = printed g" "topLevel g2 = topLevel g"
        using c2 Cons.prems(3) by (simp_all add: same_control_def)
      have due2: "due_now g2 = P" and nxt2: "nxt2 = (case P of [] \<Rightarrow> None | a # _ \<Rightarrow> Some a)"
        and top2: "P \<noteq> [] \<longrightarrow> (\<exists>m ms a as. CurrentFocus (env g2) = m # ms \<and> agendas (env g2) m = a # as)"
        and mem2: "memory g2 = effect (theRule a) (memory g)"
        using g2 g1(5) by auto
      let ?F = "fired (afterBreakpoint g) k' P"
      obtain g' where g': "run_loop w f (n + 1) k' nxt2 g2 = return_run (n + 1 + int (length ?F), limit_left k' (length ?F), g')"
        "memory g' = fold effect (map theRule ?F) (memory g2)" "due_now g' = drop (length ?F) P"
        "printed g' = printed g @ stop_message (afterBreakpoint g) (length ?F) P" "topLevel g' = topLevel g"
        using Cons.IH [OF Cons.prems(1) ready2 h2(1) due2 nxt2 top2 fuel(2), of "n + 1" k'] unfolding h2 by blast
      have "length ?F = 0 \<or> k' \<noteq> 0" by auto
      then have l: "limit_left k (Suc (length ?F)) = limit_left k' (length ?F)" by (rule left)
      have st: "stop_message (afterBreakpoint g) (length ?F) P = stop_message (afterBreakpoint g) (Suc (length ?F)) (a # P)"
        using False2 by (cases P; cases "length ?F") (auto simp: stop_message_def)
      show ?thesis
        unfolding loop s F using g' l st mem2 by (intro exI [of _ g']) (simp add: add.assoc)
    qed
  qed
qed

section \<open>Whole runs\<close>

lemma agendas_CurrentModule [simp]: "agendas (e\<lparr>CurrentModule := m\<rparr>) = agendas e"
  by (simp add: agendas_def fun_eq_iff)

lemma run_quiet:
  fixes g :: "'a engine" and k :: int
  assumes "quiet w effect" and "ready g" and "\<not> AlreadyRunning g"
  defines "P \<equiv> pending (if CurrentFocus (env g) = [] then [main_module w] else CurrentFocus (env g)) (agendas (env g))"
  defines "F \<equiv> fired (afterBreakpoint g) k P"
  assumes "length P \<le> fuel"
  shows "\<exists>g'. EnvRun fuel w k g = return_run (int (length F), g')
    \<and> memory g' = fold effect (map theRule F) (memory g) \<and> due_now g' = drop (length F) P
    \<and> printed g' = printed g @ stop_message (afterBreakpoint g) (length F) P
        @ (if limit_left k (length F) = int (length F) then [LimitReached] else [])
    \<and> \<not> AlreadyRunning g' \<and> \<not> HaltRules g' \<and> topLevel g' = topLevel g"
proof -
  let ?g = "start_run g"
  have s: "?g = g\<lparr>AlreadyRunning := True, topLevel := False # topLevel g, HaltRules := False\<rparr>"
    by (simp add: start_run_def Let_def)
  obtain nxt g1 where n: "next_activation w ?g = (nxt, g1)" by (cases "next_activation w ?g") auto
  have e: "env ?g = env g" using s by simp
  note g1 = next_quiet [OF n, of P, unfolded e, OF P_def [THEN meta_eq_to_obj_eq]]
  have r: "ready ?g" using assms(2) by (simp add: s ready_def)
  have r1: "ready g1" using g1 by (intro ready_control [OF _ _ r]) (auto simp: e)
  have c1: "\<not> HaltRules g1" "afterBreakpoint g1 = afterBreakpoint g" "printed g1 = printed g" "memory g1 = memory g"
    "topLevel g1 = False # topLevel g"
    using g1 by (simp_all add: s same_control_def)
  obtain g2 where g2: "run_loop w fuel 0 k nxt g1 = return_run (int (length F), limit_left k (length F), g2)"
    "memory g2 = fold effect (map theRule F) (memory g)" "due_now g2 = drop (length F) P"
    "printed g2 = printed g @ stop_message (afterBreakpoint g) (length F) P" "topLevel g2 = False # topLevel g"
    using run_loop_quiet [OF assms(1) r1 c1(1), of P nxt fuel 0 k] g1 assms(6) unfolding c1 F_def [symmetric] by auto
  let ?g' = "finish_run w (topLevel g) (int (length F)) (limit_left k (length F)) g2"
  have "EnvRun fuel w k g = return_run (int (length F), ?g')"
    using assms(3) n g2(1) by (simp add: EnvRun_def Let_def)
  moreover have "memory ?g' = memory g2" "due_now ?g' = due_now g2" "\<not> AlreadyRunning ?g'" "\<not> HaltRules ?g'" "topLevel ?g' = topLevel g"
    "printed ?g' = printed g2 @ (if limit_left k (length F) = int (length F) then [LimitReached] else [])"
    using quiet_calls(3) [OF assms(1)] assms(1)
    by (auto simp: finish_run_def Let_def quiet_def on_env_def print_message_def due_now_def agendas_def EnvSetCurrentModule_def
        split: list.split)
  ultimately show ?thesis using g2 by auto
qed

text \<open>With any actions: a limit bounds the turns of the loop.\<close>

lemma run_loop_limit:
  assumes "0 \<le> k" and "nat k \<le> fuel"
  shows "\<exists>r. run_loop w fuel n k nxt g = Some r \<and> (\<forall>n' k' g'. r = Inr (n', k', g') \<longrightarrow> n \<le> n' \<and> 0 \<le> k' \<and> n' + k' = n + k)"
  using assms
proof (induction fuel arbitrary: n k nxt g)
  case 0
  then have "\<not> keeps_running nxt k g" by (simp add: keeps_running_def)
  then show ?case using 0 by (simp add: run_stops return_run_def)
next
  case (Suc fuel)
  show ?case
  proof (cases "keeps_running nxt k g")
    case False
    then show ?thesis using Suc.prems by (simp add: return_run_def)
  next
    case True
    then have k: "0 < k" using Suc.prems(1) by (auto simp: keeps_running_def)
    show ?thesis
    proof (cases "fire_rule w (the nxt) g")
      case (Inl f)
      then show ?thesis using True by simp
    next
      case (Inr g1)
      obtain nxt2 g2 where n2: "next_activation w g1 = (nxt2, g2)" by (cases "next_activation w g1") auto
      have le: "0 \<le> k - 1" "nat (k - 1) \<le> fuel" using k Suc.prems(2) by auto
      obtain r where r: "run_loop w fuel (n + 1) (k - 1) nxt2 (check_breakpoint nxt2 g2) = Some r"
        "\<forall>n' k' g'. r = Inr (n', k', g') \<longrightarrow> n + 1 \<le> n' \<and> 0 \<le> k' \<and> n' + k' = n + 1 + (k - 1)"
        using Suc.IH [OF le] by blast
      have "run_loop w (Suc fuel) n k nxt g = Some r" using True Inr n2 k r(1) by simp
      then show ?thesis using r(2) by fastforce
    qed
  qed
qed

lemma run_limit:
  assumes "0 \<le> k" and "nat k \<le> fuel"
  shows "\<exists>r. EnvRun fuel w k g = Some r \<and> (\<forall>n g'. r = Inr (n, g') \<longrightarrow> 0 \<le> n \<and> n \<le> k)"
proof (cases "AlreadyRunning g")
  case True
  then show ?thesis using assms(1) by (simp add: EnvRun_def return_run_def)
next
  case False
  obtain nxt g1 where n: "next_activation w (start_run g) = (nxt, g1)" by (cases "next_activation w (start_run g)") auto
  obtain r where r: "run_loop w fuel 0 k nxt g1 = Some r" "\<forall>n' k' g'. r = Inr (n', k', g') \<longrightarrow> 0 \<le> n' \<and> 0 \<le> k' \<and> n' + k' = 0 + k"
    using run_loop_limit [OF assms, of w 0 nxt g1] by blast
  show ?thesis
  proof (cases r)
    case (Inl f)
    then show ?thesis using False n r(1) by (simp add: EnvRun_def Let_def)
  next
    case (Inr x)
    obtain n' k' g' where x: "x = (n', k', g')" by (cases x)
    then show ?thesis using False n r Inr by (simp add: EnvRun_def Let_def return_run_def)
  qed
qed

section \<open>Agendas during a run\<close>

text \<open>What the loop needs of a callback and of the actions of a rule.\<close>

definition keeps :: "('a engine \<Rightarrow> 'a engine) \<Rightarrow> bool" where
  "keeps f \<longleftrightarrow> (\<forall>g. agendas_ok (env g) \<longrightarrow> agendas_ok (env (f g)) \<and> (ExecutingRule g \<noteq> None \<longrightarrow> ExecutingRule (f g) \<noteq> None))"

text \<open>
  The actions and callbacks are sequences of steps on the agenda and outside it. The functions called before a rule fires
  do not take its activation off the agenda.
\<close>

definition stepwise :: "'a world \<Rightarrow> ('a engine \<Rightarrow> 'a engine) \<Rightarrow> bool" where
  "stepwise w f \<longleftrightarrow> (\<forall>g. agendas_ok (env g) \<longrightarrow> (engine_step w)\<^sup>*\<^sup>* g (f g))"

definition works_in_steps :: "'a world \<Rightarrow> bool" where
  "works_in_steps w \<longleftrightarrow> (\<forall>r. stepwise w (run_actions w r)) \<and> (\<forall>i. stepwise w (call_function w i))
     \<and> (\<forall>t. stepwise w (increment_basis w t)) \<and> (\<forall>t. stepwise w (decrement_basis w t))
     \<and> stepwise w (clean_up w) \<and> stepwise w (periodic_tasks w)
     \<and> (\<forall>i a. stepwise w (call_before w i a)
          \<and> (\<forall>g. agendas_ok (env g) \<longrightarrow> on_agenda a (env g) \<longrightarrow> on_agenda a (env (call_before w i a g))))"

definition well_behaved :: "'a world \<Rightarrow> bool" where
  "well_behaved w \<longleftrightarrow> (\<forall>r. keeps (run_actions w r)) \<and> (\<forall>i. keeps (call_function w i))
     \<and> (\<forall>t. keeps (increment_basis w t)) \<and> (\<forall>t. keeps (decrement_basis w t))
     \<and> keeps (clean_up w) \<and> keeps (periodic_tasks w)
     \<and> (\<forall>i a. keeps (call_before w i a)
          \<and> (\<forall>g. agendas_ok (env g) \<longrightarrow> on_agenda a (env g) \<longrightarrow> on_agenda a (env (call_before w i a g))))"

lemma stepwise_keeps: "stepwise w f \<Longrightarrow> keeps f"
  unfolding stepwise_def keeps_def by (metis engine_steps_keep)

lemma steps_behave: "works_in_steps w \<Longrightarrow> well_behaved w"
  unfolding works_in_steps_def well_behaved_def using stepwise_keeps by blast

lemma keeps_fold: "\<forall>x \<in> set xs. keeps (f x) \<Longrightarrow> keeps (fold f xs)"
proof (induction xs)
  case (Cons x xs)
  then show ?case by (simp add: keeps_def)
qed (simp add: keeps_def)

lemma keeps_comp: "keeps f \<Longrightarrow> keeps g \<Longrightarrow> keeps (\<lambda>x. f (g x))"
  by (simp add: keeps_def)

lemma keeps_context: "keeps f \<Longrightarrow> keeps (\<lambda>g. f (g\<lparr>CallbackContext := c\<rparr>))"
  by (simp add: keeps_def)

lemma before_keeps:
  assumes "well_behaved w" and "agendas_ok (env g)" and "on_agenda a (env g)"
  shows "agendas_ok (env (call_before_functions w a g)) \<and> on_agenda a (env (call_before_functions w a g))"
proof -
  have "agendas_ok (env (fold (\<lambda>i g. call_before w i a (g\<lparr>CallbackContext := item_context i\<rparr>)) items g))
      \<and> on_agenda a (env (fold (\<lambda>i g. call_before w i a (g\<lparr>CallbackContext := item_context i\<rparr>)) items g))" for items
    using assms(2,3)
  proof (induction items arbitrary: g)
    case (Cons i items)
    then show ?case using assms(1) by (simp add: well_behaved_def keeps_def)
  qed simp
  then show ?thesis by (simp add: call_before_functions_def)
qed

lemma begin_keeps:
  assumes "well_behaved w" and "agendas_ok (env g)" and "on_agenda a (env g)"
  shows "agendas_ok (env (begin_firing w a g)) \<and> ExecutingRule (begin_firing w a g) \<noteq> None"
proof -
  have d: "agendas_ok (DetachActivation a (env g))" using detach_keeps [OF assms(2)] assms(3) by (simp add: on_agenda_def)
  have inc: "keeps (fold (increment_basis w) ts)" for ts
    by (rule keeps_fold) (use assms(1) in \<open>simp add: well_behaved_def\<close>)
  define g1 where "g1 = (on_env (\<lambda>e. e\<lparr>match := (match e)(basis a := (match e (basis a))\<lparr>marker := None\<rparr>)\<rparr>)
      ((on_env (DetachActivation a) g)\<lparr>ExecutingRule := Some (theRule a)\<rparr>))
    \<lparr>busy := (busy g)(basis a := True), GlobalLHSBinds := Some (basis a), GlobalRHSBinds := None\<rparr>"
  define g2 where "g2 = fold (increment_basis w) (basis_items (basis a) g1) g1"
  have "agendas_ok (env g1) \<and> ExecutingRule g1 \<noteq> None" using d by (simp add: g1_def on_env_def)
  then have "agendas_ok (env g2) \<and> ExecutingRule g2 \<noteq> None" using inc by (simp add: g2_def keeps_def)
  moreover have "env (begin_firing w a g) = SetEvaluationError False (env g2) \<and> ExecutingRule (begin_firing w a g) = ExecutingRule g2"
    unfolding g2_def g1_def by (simp add: begin_firing_def on_env_def Let_def split: option.split)
  ultimately show ?thesis by simp
qed

lemma end_keeps:
  assumes "well_behaved w" and "agendas_ok (env g)" and "ExecutingRule g \<noteq> None"
  shows "\<exists>g'. end_firing w a g = Inr g' \<and> agendas_ok (env g') \<and> ExecutingRule g' \<noteq> None"
proof -
  obtain r where r: "ExecutingRule g = Some r" using assms(3) by blast
  have dec: "keeps (fold (decrement_basis w) ts)" for ts
    by (rule keeps_fold) (use assms(1) in \<open>simp add: well_behaved_def\<close>)
  have step: "\<exists>g'. bind_res (RemoveActivation a False False (env g1)) (\<lambda>e. Inr (g1\<lparr>env := e\<rparr>)) = Inr g'
      \<and> agendas_ok (env g') \<and> ExecutingRule g' \<noteq> None"
    if "agendas_ok (env g1)" "ExecutingRule g1 \<noteq> None" for g1 :: "'a engine"
    using that by (simp add: RemoveActivation_def Let_def)
  have fin: "\<exists>g'. bind_res (RemoveActivation a False False (env (fold (decrement_basis w) ts g1)))
        (\<lambda>e. Inr ((fold (decrement_basis w) ts g1)\<lparr>env := e\<rparr>)) = Inr g' \<and> agendas_ok (env g') \<and> ExecutingRule g' \<noteq> None"
    if "agendas_ok (env g1)" "ExecutingRule g1 \<noteq> None" for ts and g1 :: "'a engine"
    by (rule step) (use dec that in \<open>auto simp: keeps_def\<close>)
  show ?thesis
    unfolding end_firing_def r Let_def option.case
    by (rule fin) (simp_all add: on_env_def print_message_def r assms(2) split: option.split)
qed

lemma run_functions_keep:
  assumes "well_behaved w"
  shows "keeps (call_run_functions w)" "keeps (call_run_functions_once w)"
proof -
  have "keeps (fold (\<lambda>i g. call_function w i (g\<lparr>CallbackContext := item_context i\<rparr>)) items)"
    "keeps (fold (call_function w) items)" for items
    using assms by (auto intro!: keeps_fold keeps_context simp: well_behaved_def)
  then show "keeps (call_run_functions w)" "keeps (call_run_functions_once w)"
    by (simp_all add: keeps_def call_run_functions_def call_run_functions_once_def)
qed

lemma after_keeps:
  assumes "well_behaved w" and "agendas_ok (env g)" and "ExecutingRule g \<noteq> None"
  shows "\<exists>g'. after_firing w g = Inr g' \<and> agendas_ok (env g')"
proof -
  have fin: "\<exists>g'. (if ReturnFlag h then
        (case ExecutingRule h of
           None \<Rightarrow> Inl Undefined
         | Some r \<Rightarrow> Inr ((on_env (\<lambda>e. snd (RemoveFocus (whichModule (rule e r)) e)) h)\<lparr>ReturnFlag := False\<rparr>))
      else Inr (h\<lparr>ReturnFlag := False\<rparr>)) = Inr g' \<and> agendas_ok (env g')"
    if "agendas_ok (env h)" "ExecutingRule h \<noteq> None" for h :: "'a engine"
    using that by (auto simp: on_env_def)
  have run: "agendas_ok (env (call_run_functions w h)) \<and> ExecutingRule (call_run_functions w h) \<noteq> None"
    if "agendas_ok (env h)" "ExecutingRule h \<noteq> None" for h
    using run_functions_keep(1) [OF assms(1)] that by (simp add: keeps_def)
  let ?g = "clean_up w g"
  have g: "agendas_ok (env ?g)" "ExecutingRule ?g \<noteq> None" using assms by (simp_all add: well_behaved_def keeps_def)
  obtain h where h: "(if SalienceEvaluation (env ?g) = EVERY_CYCLE
         then bind_res (EnvRefreshAgenda (salience_value w) None (env ?g)) (\<lambda>e. Inr (?g\<lparr>env := e\<rparr>))
         else Inr ?g) = Inr h" "agendas_ok (env h)" "ExecutingRule h \<noteq> None"
    using g refresh_keeps [OF g(1), of "salience_value w"] that by (cases "SalienceEvaluation (env ?g) = EVERY_CYCLE") auto
  show ?thesis
    unfolding after_firing_def Let_def h(1) by (simp only: bind_res_Inr) (rule fin, insert run [OF h(2,3)], simp_all)
qed

lemma fire_keeps:
  assumes "well_behaved w" and "agendas_ok (env g)" and "on_agenda a (env g)"
  shows "\<exists>g'. fire_rule w a g = Inr g' \<and> agendas_ok (env g')"
proof -
  let ?g = "run_actions w (theRule a) (begin_firing w a (call_before_functions w a g))"
  have "agendas_ok (env ?g)" "ExecutingRule ?g \<noteq> None"
    using begin_keeps [OF assms(1)] before_keeps [OF assms] assms(1) by (auto simp: well_behaved_def keeps_def)
  then obtain h where "end_firing w a ?g = Inr h" "agendas_ok (env h)" "ExecutingRule h \<noteq> None"
    using end_keeps [OF assms(1)] by blast
  then show ?thesis using after_keeps [OF assms(1)] by (simp add: fire_rule_def)
qed

lemma next_keeps:
  fixes g :: "'a engine"
  assumes "agendas_ok (env g)" and "Engine.next_activation w g = (nxt, g')"
  shows "agendas_ok (env g') \<and> (\<forall>a. nxt = Some a \<longrightarrow> on_agenda a (env g'))"
proof -
  let ?e = "if CurrentFocus (env g) = [] then EnvFocus (main_module w) (env g) else env g"
  obtain ao e' where n: "next_activation_loop ?e = (ao, e')" by (cases "next_activation_loop ?e") auto
  have r: "nxt = ao" "env g' = e'" using assms(2) n by (auto simp: Engine.next_activation_def NextActivationToFire_def)
  have e: "agendas_ok ?e" using assms(1) by simp
  have e': "agendas_ok e'" using next_loop_frame [of ?e] n e by auto
  have "on_agenda a e'" if "ao = Some a" for a
  proof -
    note n' = AgendaOrder.next_activation [OF n]
    obtain m ms where m: "CurrentFocus e' = m # ms" "a = hd (agenda (ruleModule ?e m))"
      using n' \<open>ao = Some a\<close> by (auto split: list.splits)
    have "dropWhile (\<lambda>m. agenda (ruleModule ?e m) = []) (CurrentFocus ?e) = m # ms" using n' m(1) by metis
    then have "agenda (ruleModule ?e m) \<noteq> []"
      using hd_dropWhile [of "\<lambda>m. agenda (ruleModule ?e m) = []" "CurrentFocus ?e"] by simp
    then have a: "a \<in> set (agenda (ruleModule e' m))" using n' m(2) by (metis hd_in_set)
    moreover have "whichModule (rule e' (theRule a)) = m" using e' a by (simp add: agendas_ok_def)
    ultimately show ?thesis by (simp add: on_agenda_def)
  qed
  then show ?thesis using r e' by simp
qed

lemma loop_keeps:
  assumes "well_behaved w" and "agendas_ok (env g)" and "\<forall>a. nxt = Some a \<longrightarrow> on_agenda a (env g)"
    and "run_loop w fuel n k nxt g = Some r"
  shows "\<exists>n' k' g'. r = Inr (n', k', g') \<and> agendas_ok (env g')"
  using assms
proof (induction fuel arbitrary: n k nxt g)
  case 0
  then show ?case by (auto simp: return_run_def split: if_splits)
next
  case (Suc fuel)
  show ?case
  proof (cases "keeps_running nxt k g")
    case False
    then show ?thesis using Suc.prems by (auto simp: return_run_def)
  next
    case True
    then obtain a where a: "nxt = Some a" "on_agenda a (env g)" using Suc.prems(3) by (auto simp: keeps_running_def)
    obtain g1 where g1: "fire_rule w a g = Inr g1" "agendas_ok (env g1)" using fire_keeps [OF Suc.prems(1,2) a(2)] by blast
    obtain nxt2 g2 where n2: "Engine.next_activation w g1 = (nxt2, g2)" by (cases "Engine.next_activation w g1") auto
    note k2 = next_keeps [OF g1(2) n2]
    have c: "env (check_breakpoint x g2) = env g2" for x
      by (simp add: check_breakpoint_def print_message_def split: option.split)
    have "run_loop w fuel (n + 1) (if 0 < k then k - 1 else k) nxt2 (check_breakpoint nxt2 g2) = Some r"
      using Suc.prems(4) True a(1) g1(1) n2 by simp
    then show ?thesis using k2 by (intro Suc.IH [OF Suc.prems(1)]) (simp_all add: c)
  qed
qed

lemma finish_keeps: "well_behaved w \<Longrightarrow> agendas_ok (env g) \<Longrightarrow> agendas_ok (env (finish_run w old n k g))"
proof -
  assume w: "well_behaved w" and g: "agendas_ok (env g)"
  have p: "agendas_ok (env ((periodic_tasks w h)\<lparr>AlreadyRunning := False\<rparr>))" if "agendas_ok (env h)" for h
    using w that by (simp add: well_behaved_def keeps_def)
  have o: "agendas_ok (env (call_run_functions_once w g))" using run_functions_keep(2) [OF w] g by (simp add: keeps_def)
  show ?thesis
    unfolding finish_run_def Let_def
    by (rule p) (simp add: on_env_def print_message_def g o split: list.split)
qed

lemma run_keeps:
  assumes "well_behaved w" and "agendas_ok (env g)" and "EnvRun fuel w k g = Some r"
  shows "\<exists>n g'. r = Inr (n, g') \<and> agendas_ok (env g')"
proof (cases "AlreadyRunning g")
  case True
  then show ?thesis using assms by (auto simp: EnvRun_def return_run_def)
next
  case False
  have s: "agendas_ok (env (start_run g))" using assms(2) by (simp add: start_run_def Let_def)
  obtain nxt g1 where n: "Engine.next_activation w (start_run g) = (nxt, g1)" by (cases "Engine.next_activation w (start_run g)") auto
  note n1 = next_keeps [OF s n]
  obtain x where x: "run_loop w fuel 0 k nxt g1 = Some x"
    using assms(3) False n by (cases "run_loop w fuel 0 k nxt g1") (auto simp: EnvRun_def Let_def)
  obtain n' k' g' where l: "x = Inr (n', k', g')" "agendas_ok (env g')" using loop_keeps [OF assms(1) _ _ x] n1 by blast
  then show ?thesis
    using assms(3) False n x finish_keeps [OF assms(1)] by (auto simp: EnvRun_def Let_def return_run_def)
qed

section \<open>Halting\<close>

text \<open>
  \<open>EnvRun\<close> clears \<open>HaltExecution\<close> only if the garbage frame it has just set up is at the top level, which it never
  is: an environment that was halted stays halted, and nothing fires.
\<close>

lemma halted_run:
  assumes "HaltExecution (env g)" and "\<not> AlreadyRunning g"
  shows "\<exists>g'. EnvRun fuel w k g = return_run (0, g')"
proof -
  obtain nxt g1 where n: "Engine.next_activation w (start_run g) = (nxt, g1)" by (cases "Engine.next_activation w (start_run g)") auto
  let ?e = "if CurrentFocus (env g) = [] then EnvFocus (main_module w) (env g) else env g"
  have e: "HaltExecution ?e" using assms(1) by (simp add: EnvFocus_def EnvSetCurrentModule_def Let_def)
  have "env (start_run g) = env g" by (simp add: start_run_def Let_def)
  then have "env g1 = snd (next_activation_loop ?e)"
    using n by (auto simp: Engine.next_activation_def NextActivationToFire_def split: prod.splits)
  then have "HaltExecution (env g1)" using next_loop_frame [of ?e] e by fastforce
  then have "\<not> keeps_running nxt k g1" by (simp add: keeps_running_def)
  then show ?thesis using assms(2) n by (simp add: EnvRun_def Let_def run_stops return_run_def)
qed

section \<open>Breakpoints\<close>

lemma set_break: "afterBreakpoint (EnvSetBreak r g) p \<longleftrightarrow> p \<in> set (disjuncts r g) \<or> afterBreakpoint g p"
proof -
  have "afterBreakpoint (fold (\<lambda>p g. g\<lparr>afterBreakpoint := (afterBreakpoint g)(p := True)\<rparr>) ps g) p
      \<longleftrightarrow> p \<in> set ps \<or> afterBreakpoint g p" for ps
    by (induction ps arbitrary: g) auto
  then show ?thesis by (simp add: EnvSetBreak_def)
qed

lemma remove_breaks:
  "fold remove_break ps (v, g) = (v \<or> (\<exists>p \<in> set ps. afterBreakpoint g p),
     g\<lparr>afterBreakpoint := (\<lambda>p. afterBreakpoint g p \<and> p \<notin> set ps)\<rparr>)"
proof (induction ps arbitrary: v g)
  case (Cons p ps)
  have "remove_break p (v, g) = (v \<or> afterBreakpoint g p, g\<lparr>afterBreakpoint := (\<lambda>q. afterBreakpoint g q \<and> q \<noteq> p)\<rparr>)"
    by (auto simp: remove_break_def fun_eq_iff intro!: engine.equality)
  then show ?case by (auto simp: Cons.IH conj_assoc)
qed simp

lemma remove_break: "EnvRemoveBreak r g = ((\<exists>p \<in> set (disjuncts r g). afterBreakpoint g p),
     g\<lparr>afterBreakpoint := (\<lambda>p. afterBreakpoint g p \<and> p \<notin> set (disjuncts r g))\<rparr>)"
  by (simp add: EnvRemoveBreak_def remove_breaks)

text \<open>The rules of the other modules keep their breakpoints.\<close>

lemma remove_all_breakpoints:
  assumes "modules (env g) \<noteq> []"
  shows "RemoveAllBreakpoints g = g\<lparr>afterBreakpoint := (\<lambda>p. afterBreakpoint g p
    \<and> (\<forall>r \<in> set (rules_of g (CurrentModule (env g))). p \<notin> set (disjuncts r g)))\<rparr>"
proof -
  have d: "disjuncts r (h\<lparr>afterBreakpoint := f\<rparr>) = disjuncts r h" for r f and h :: "'a engine" by (simp add: disjuncts_def)
  have inner: "fold (\<lambda>r g. snd (EnvRemoveBreak r g)) rs h
      = h\<lparr>afterBreakpoint := (\<lambda>p. afterBreakpoint h p \<and> (\<forall>r \<in> set rs. p \<notin> set (disjuncts r h)))\<rparr>" for rs and h :: "'a engine"
    by (induction rs arbitrary: h) (simp_all add: remove_break d conj_assoc)
  let ?keep = "\<lambda>g :: 'a engine. g\<lparr>afterBreakpoint := (\<lambda>p. afterBreakpoint g p
    \<and> (\<forall>r \<in> set (rules_of g (CurrentModule (env g))). p \<notin> set (disjuncts r g)))\<rparr>"
  have "RemoveAllBreakpoints g = fold (\<lambda>m. ?keep) (modules (env g)) g" unfolding RemoveAllBreakpoints_def inner ..
  moreover have idem: "?keep (?keep h) = ?keep h" for h by (auto simp: d intro!: engine.equality)
  have again: "fold (\<lambda>m. ?keep) ms (?keep h) = ?keep h" for ms :: "nat list" and h
    by (induction ms) (simp, simp only: fold_simps idem)
  obtain m ms where ms: "modules (env g) = m # ms" using assms by (cases "modules (env g)") auto
  have "fold (\<lambda>m. ?keep) (modules (env g)) g = ?keep g" unfolding ms fold_simps by (rule again)
  ultimately show ?thesis by simp
qed

section \<open>Call lists\<close>

abbreviation by_priority :: "callFunctionItem list \<Rightarrow> bool" where
  "by_priority \<equiv> sorted_wrt (\<lambda>i j. priority j \<le> priority i)"

lemma call_list_add:
  assumes "by_priority items"
  shows "by_priority (AddFunctionToCallListWithContext name prio f items aware ctx)"
proof -
  let ?new = "\<lparr>item_name = name, func = f, priority = prio, environmentAware = aware, item_context = ctx\<rparr>"
  have "by_priority (takeWhile (\<lambda>i. prio < priority i) items @ ?new # dropWhile (\<lambda>i. prio < priority i) items)"
    using assms
  proof (induction items)
    case (Cons i items)
    have "set (takeWhile (\<lambda>i. prio < priority i) items) \<union> set (dropWhile (\<lambda>i. prio < priority i) items) = set items"
      by (metis set_append takeWhile_dropWhile_id)
    then have "set (takeWhile (\<lambda>i. prio < priority i) items @ ?new # dropWhile (\<lambda>i. prio < priority i) items) = insert ?new (set items)"
      by auto
    then show ?case using Cons by (cases "prio < priority i") auto
  qed simp
  then show ?thesis by (simp add: AddFunctionToCallListWithContext_def)
qed

lemma remove_first_named:
  "name \<notin> item_name ` set P \<Longrightarrow> item_name i = name \<Longrightarrow> RemoveFunctionFromCallList name (P @ i # Q) = (True, P @ Q)"
  by (induction P) auto

lemma call_list_add_remove:
  assumes "name \<notin> item_name ` set items"
  shows "RemoveFunctionFromCallList name (AddFunctionToCallListWithContext name prio f items aware ctx) = (True, items)"
proof -
  have "name \<notin> item_name ` set (takeWhile (\<lambda>i. prio < priority i) items)" using assms set_takeWhileD by fastforce
  then show ?thesis by (simp add: AddFunctionToCallListWithContext_def Let_def remove_first_named)
qed

section \<open>The focus command\<close>

lemma remdups_adj_hd: "remdups_adj (m # xs) = (if xs \<noteq> [] \<and> hd xs = m then remdups_adj xs else m # remdups_adj xs)"
  by (cases xs) auto

lemma EnvFocus_stack: "CurrentFocus e = remdups_adj fs \<Longrightarrow> CurrentFocus (EnvFocus m e) = remdups_adj (m # fs) \<and> CurrentModule (EnvFocus m e) = m"
  by (cases fs) (auto simp: remdups_adj_hd EnvFocus_def EnvSetCurrentModule_def Let_def hd_remdups_adj split: if_splits)

lemma focus_loop_stack:
  "CurrentFocus e = remdups_adj fs \<Longrightarrow> focus_loop (map Some ms) e = (b, e') \<Longrightarrow>
     b \<and> CurrentFocus e' = remdups_adj (rev ms @ fs) \<and> (ms \<noteq> [] \<longrightarrow> CurrentModule e' = last ms)"
proof (induction ms arbitrary: e fs)
  case (Cons m ms)
  have s: "CurrentFocus (EnvFocus m e) = remdups_adj (m # fs)" using EnvFocus_stack [OF Cons.prems(1)] by blast
  show ?case using Cons.IH [OF s] Cons.prems(2) EnvFocus_stack [OF Cons.prems(1), of m] by (cases ms) auto
qed auto

lemma focus_stack:
  assumes "ms \<noteq> []" and "distinct_adj (CurrentFocus e)" and "FocusCommand (map Some ms) e = (b, e')"
  shows "b \<and> CurrentFocus e' = remdups_adj (ms @ CurrentFocus e) \<and> CurrentModule e' = hd ms"
proof -
  have "CurrentFocus e = remdups_adj (CurrentFocus e)" using assms(2) by (metis distinct_adj_altdef)
  from focus_loop_stack [OF this, of "rev ms" b e'] show ?thesis
    using assms(1,3) by (simp add: FocusCommand_def rev_map last_rev)
qed

section \<open>Properties\<close>

text \<open>
  A module with the activations of the rules 5, 6 and 7, and a world whose actions note the rule in the
  memory.
\<close>

definition demo_world :: "address list world" where
  "demo_world = \<lparr>run_actions = (\<lambda>r g. g\<lparr>memory := memory g @ [r]\<rparr>), call_function = (\<lambda>_ g. g), call_before = (\<lambda>_ _ g. g),
     increment_basis = (\<lambda>_ g. g), decrement_basis = (\<lambda>_ g. g), logicalJoin = (\<lambda>_. None), FindLogicalBind = (\<lambda>_ _. 0),
     clean_up = (\<lambda>g. g), periodic_tasks = (\<lambda>g. g), salience_value = (\<lambda>_. NotInteger), main_module = 0\<rparr>"

definition demo_of :: "address \<Rightarrow> activation" where
  "demo_of r = \<lparr>act = r, theRule = r, basis = r, salience = 0, timetag = of_nat r, randomID = 0\<rparr>"

definition demo_engine :: "clips \<Rightarrow> address list engine" where
  "demo_engine e = \<lparr>env = e, ExecutingRule = None, HaltRules = False, ReturnFlag = False, AlreadyRunning = False,
     TheLogicalJoin = None, TheLogicalBind = None, GlobalLHSBinds = None, GlobalRHSBinds = None,
     ListOfRunFunctions = [], ListOfBeforeRunFunctions = [], CallbackContext = 0, CurrentEvaluationDepth = 0,
     topLevel = [True], rules_of = (\<lambda>m. [m]), afterBreakpoint = (\<lambda>r. r = 7), watchFiring = (\<lambda>_. False),
     executing = (\<lambda>_. False), busy = (\<lambda>_. False), printed = [], memory = []\<rparr>"

definition demo_three :: clips where
  "demo_three = demo_clips\<lparr>ruleModule := (\<lambda>_. \<lparr>agenda = [], groupings = []\<rparr>)(0 := \<lparr>agenda = [demo_of 5, demo_of 6, demo_of 7],
     groupings = [\<lparr>group_salience = 0, first = Some 5, last_act = Some 7\<rparr>]\<rparr>)\<rparr>"

lemma demo_world_quiet: "quiet demo_world (\<lambda>r m. m @ [r])"
  by (simp add: quiet_def demo_world_def)

text \<open>A world in which a rule clears the next one from the agenda, and a run function goes over to the depth strategy.\<close>

definition clearing_world :: "address list world" where
  "clearing_world = demo_world\<lparr>
     run_actions := (\<lambda>r g. case ClearRuleFromAgenda (r + 1) (env g) of Inl _ \<Rightarrow> g | Inr e \<Rightarrow> g\<lparr>env := e, memory := memory g @ [r]\<rparr>),
     call_function := (\<lambda>_ g. case EnvSetStrategy DEPTH_STRATEGY (env g) of Inl _ \<Rightarrow> g | Inr (_, e) \<Rightarrow> g\<lparr>env := e\<rparr>)\<rparr>"

lemma clearing_world_steps: "works_in_steps clearing_world"
proof -
  have refl: "stepwise clearing_world (\<lambda>g. g)" by (simp add: stepwise_def)
  have acts: "stepwise clearing_world (run_actions clearing_world r)" for r
    unfolding stepwise_def
  proof (intro allI impI)
    fix g :: "address list engine"
    show "(engine_step clearing_world)\<^sup>*\<^sup>* g (run_actions clearing_world r g)"
    proof (cases "ClearRuleFromAgenda (r + 1) (env g)")
      case (Inr e)
      have "engine_step clearing_world g (g\<lparr>env := e\<rparr>)"
        by (rule engine_step.agenda) (rule agenda_step.clears [OF Inr])
      moreover have "engine_step clearing_world (g\<lparr>env := e\<rparr>) (g\<lparr>env := e, memory := memory g @ [r]\<rparr>)"
        by (rule engine_step.outside) simp_all
      ultimately show ?thesis using Inr by (simp add: clearing_world_def)
    qed (simp add: clearing_world_def)
  qed
  have calls: "stepwise clearing_world (call_function clearing_world i)" for i
    unfolding stepwise_def
  proof (intro allI impI)
    fix g :: "address list engine"
    show "(engine_step clearing_world)\<^sup>*\<^sup>* g (call_function clearing_world i g)"
    proof (cases "EnvSetStrategy DEPTH_STRATEGY (env g)")
      case (Inr x)
      obtain old e where x: "x = (old, e)" by (cases x)
      have "agenda_step evaluate (env g) e" for evaluate
        by (rule agenda_step.switches [OF _ _ Inr [unfolded x]]) (simp_all add: known_strategy_def strategy_good_def)
      then have "engine_step clearing_world g (g\<lparr>env := e\<rparr>)" by (rule engine_step.agenda)
      then show ?thesis using Inr x by (simp add: clearing_world_def)
    qed (simp add: clearing_world_def)
  qed
  show ?thesis
    using acts calls refl by (simp add: works_in_steps_def) (simp add: clearing_world_def demo_world_def)
qed

lemma demo_three_agenda: "agendas demo_three m = (if m = 0 then [demo_of 5, demo_of 6, demo_of 7] else [])"
  by (simp add: demo_three_def agendas_def)

lemma demo_three_ready: "ready (demo_engine demo_three)"
proof -
  have "HaltExecution demo_three = False" "SalienceEvaluation demo_three = 0" "\<forall>r. whichModule (rule demo_three r) = 0"
    by (simp_all add: demo_three_def demo_clips_def)
  then show ?thesis by (simp add: ready_def demo_engine_def demo_three_agenda)
qed

lemma demo_three_due:
  "pending (if CurrentFocus (env (demo_engine demo_three)) = [] then [main_module w] else CurrentFocus (env (demo_engine demo_three)))
     (agendas (env (demo_engine demo_three))) = [demo_of 5, demo_of 6, demo_of 7]"
proof -
  have "CurrentFocus demo_three = [0]" by (simp add: demo_three_def demo_clips_def)
  then show ?thesis by (simp add: demo_engine_def demo_three_agenda)
qed

lemma demo_three_ok: "agendas_ok demo_three"
proof -
  have "segments (ruleModule demo_three 0) [(0, [demo_of 5, demo_of 6, demo_of 7])]"
    by (simp add: segments_def demo_three_def demo_of_def record_of_def group_of_def)
  then have "agenda_ok demo_three (ruleModule demo_three 0)"
    unfolding agenda_ok_def
    by (auto simp: demo_three_def demo_of_def demo_clips_def agenda_before_def strategy_before_def breadth_before_def strategy_good_def)
  moreover have "ruleModule demo_three m = \<lparr>agenda = [], groupings = []\<rparr>" if "m \<noteq> 0" for m
    using that by (simp add: demo_three_def)
  then have "agenda_ok demo_three (ruleModule demo_three m)" if "m \<noteq> 0" for m using that by simp
  ultimately have "agenda_ok demo_three (ruleModule demo_three m)" for m by (cases "m = 0") auto
  moreover have "known_strategy (Strategy demo_three)" "distinct (modules demo_three)" "whichModule (rule demo_three r) = 0" for r
    by (simp_all add: demo_three_def demo_clips_def known_strategy_def)
  moreover have "agenda (ruleModule demo_three m) = []" if "m \<noteq> 0" for m
    using that by (simp add: demo_three_def)
  moreover have "modules demo_three = [0]" by (simp add: demo_three_def demo_clips_def)
  ultimately show ?thesis unfolding agendas_ok_def by (metis empty_iff list.set(1) list.set_intros(1))
qed

text \<open>
  C3: Where the actions and callbacks change the memory only, nothing is halted, saliences are not evaluated at every
  cycle and each activation is on the agenda of its rule's module, \<open>EnvRun\<close> fires the activations that are due,
  the agendas of the modules on the focus stack from the top: all of them, or as many as the limit says, or
  those in front of the first breakpoint after the first, in that order; it returns their number, prints the breakpoint it
  stopped at, if it did, and leaves the rest due. Whether the message on the limit follows is left open.
\<close>

theorem run_fires_agenda:
  fixes w :: "'a world" and g :: "'a engine" and k :: int
  defines "P \<equiv> pending (if CurrentFocus (env g) = [] then [main_module w] else CurrentFocus (env g)) (agendas (env g))"
  defines "F \<equiv> fired (afterBreakpoint g) k P"
  assumes "quiet w effect" and "ready g" and "\<not> AlreadyRunning g" and "length P \<le> fuel"
  shows "\<exists>g'. EnvRun fuel w k g = return_run (int (length F), g')
    \<and> memory g' = fold effect (map theRule F) (memory g) \<and> due_now g' = drop (length F) P
    \<and> (\<exists>lm. printed g' = printed g @ stop_message (afterBreakpoint g) (length F) P @ lm \<and> set lm \<subseteq> {LimitReached})
    \<and> \<not> AlreadyRunning g' \<and> \<not> HaltRules g' \<and> topLevel g' = topLevel g"
proof -
  let ?lm = "if limit_left k (length F) = int (length F) then [LimitReached] else []"
  have "set ?lm \<subseteq> {LimitReached}" by auto
  then show ?thesis
    using run_quiet [OF assms(3-5) assms(6) [unfolded P_def]] unfolding F_def P_def by blast
qed

theorem run_fires_agenda_witness:
  "\<exists>g'. EnvRun 3 demo_world (-1) (demo_engine demo_three) = return_run (2, g')
    \<and> memory g' = [5, 6] \<and> due_now g' = [demo_of 7]
    \<and> (\<exists>lm. printed g' = BreakingOn 7 # lm \<and> set lm \<subseteq> {LimitReached})"
proof -
  have f: "fired (afterBreakpoint (demo_engine demo_three)) (-1) [demo_of 5, demo_of 6, demo_of 7] = [demo_of 5, demo_of 6]"
    by (simp add: fired_def demo_engine_def demo_of_def)
  show ?thesis
    using run_fires_agenda [OF demo_world_quiet demo_three_ready, of 3 "-1", unfolded demo_three_due f]
    by (force simp: demo_engine_def demo_of_def stop_message_def)
qed

text \<open>
  C22: A run with a limit ends, whatever the actions and callbacks do, and fires at most as many rules as the
  limit says; while a run is going on, another one fires nothing.
\<close>

theorem run_limit_respected:
  assumes "0 \<le> k" and "nat k \<le> fuel"
  shows "\<exists>r. EnvRun fuel w k g = Some r \<and> (\<forall>n g'. r = Inr (n, g') \<longrightarrow> 0 \<le> n \<and> n \<le> (if AlreadyRunning g then 0 else k))"
proof (cases "AlreadyRunning g")
  case True
  then show ?thesis by (simp add: EnvRun_def return_run_def)
next
  case False
  then show ?thesis using run_limit [OF assms] by simp
qed

theorem run_limit_respected_witness:
  "\<exists>r. EnvRun 5 demo_world 5 (demo_engine demo_clips) = Some r \<and> (\<forall>n g'. r = Inr (n, g') \<longrightarrow> 0 \<le> n \<and> n \<le> 5)"
  using run_limit_respected [of 5 5 demo_world "demo_engine demo_clips"] by (simp add: demo_engine_def)



text \<open>
  C40: The focus command with modules puts them on the focus stack in the order of its arguments, no module twice in
  a row, and makes the first one the current module.
\<close>

theorem focus_command_stacks:
  assumes "ms \<noteq> []" and "distinct_adj (CurrentFocus e)" and "FocusCommand (map Some ms) e = (b, e')"
  shows "b \<and> CurrentFocus e' = remdups_adj (ms @ CurrentFocus e) \<and> CurrentModule e' = hd ms"
  using assms by (rule focus_stack)

theorem focus_command_stacks_witness:
  "CurrentFocus (snd (FocusCommand [Some 4, Some 0] demo_clips)) = [4, 0]"
proof -
  obtain b e' where f: "FocusCommand (map Some [4, 0]) demo_clips = (b, e')" by (cases "FocusCommand (map Some [4, 0]) demo_clips")
  have "distinct_adj (CurrentFocus demo_clips)" by (simp add: demo_clips_def)
  from focus_command_stacks [OF _ this f] show ?thesis using f by (simp add: demo_clips_def)
qed

section \<open>Messages and breakpoints that go wrong\<close>

text \<open>
  The message on the limit compares the number of rules fired with what is left of the limit: a run of 3
  activations with the limit 1 stops there without it, and one that is stopped after 2 of 4 prints it.
\<close>

lemma limit_message_missing:
  "\<exists>g'. EnvRun 3 demo_world 1 (demo_engine demo_three) = return_run (1, g') \<and> printed g' = []"
proof -
  have f: "fired (afterBreakpoint (demo_engine demo_three)) 1 [demo_of 5, demo_of 6, demo_of 7] = [demo_of 5]"
    by (simp add: fired_def demo_engine_def demo_of_def)
  show ?thesis
    using run_quiet [OF demo_world_quiet demo_three_ready, of 3 1, unfolded demo_three_due f]
    by (auto simp: demo_engine_def demo_of_def stop_message_def limit_left_def)
qed

lemma limit_message_early:
  "\<exists>g'. EnvRun 3 demo_world 4 (demo_engine demo_three) = return_run (2, g') \<and> printed g' = [BreakingOn 7, LimitReached]"
proof -
  have f: "fired (afterBreakpoint (demo_engine demo_three)) 4 [demo_of 5, demo_of 6, demo_of 7] = [demo_of 5, demo_of 6]"
    by (simp add: fired_def demo_engine_def demo_of_def)
  show ?thesis
    using run_quiet [OF demo_world_quiet demo_three_ready, of 3 4, unfolded demo_three_due f]
    by (auto simp: demo_engine_def demo_of_def stop_message_def limit_left_def)
qed

end
