(* ===== verification/Multifield.thy ===== *)
theory Multifield
  imports ClipsScanner
begin

text \<open>
  Multifield values: \<open>CLIPS/multifld.c\<close>, with what it rests on of \<open>CLIPS/evaluatn.c\<close> (installing values) and
  \<open>CLIPS/prntutil.c\<close> (the text of a value), and the access of functions to their arguments in \<open>CLIPS/argacces.c\<close>.
  A segment is an array of fields on the heap; a data object is a view of a range of a segment, so that functions
  share segments. Reading a field that was not stored, or one outside of the block, is a fault.
\<close>

section \<open>State\<close>

datatype fieldType = FLOAT | INTEGER | SYMBOL | STRING | MULTIFIELD | EXTERNAL_ADDRESS | FACT_ADDRESS
  | INSTANCE_ADDRESS | INSTANCE_NAME | RVOID

text \<open>The value is an address: of an atom, an entity or a segment, by the type.\<close>

record field =
  field_type :: fieldType
  field_value :: address

text \<open>The block of a segment has room for one field at least.\<close>

record multifield =
  busyCount :: "32 word"
  multifieldLength :: int
  theFields :: "field option list"

text \<open>The range of a multifield counts from 0, \<open>do_end\<close> is its last position.\<close>

record dataObject =
  do_type :: fieldType
  do_value :: address
  do_begin :: int
  do_end :: int

text \<open>
  \<open>scanner\<close> has the atom tables, whose \<open>dirty\<close> is the flag of the current garbage frame, and the messages;
  \<open>ListOfMultifields\<close> and \<open>LastMultifield\<close> are those of the current garbage frame.
\<close>

record machine =
  scanner :: scan
  segments :: "address \<Rightarrow> multifield option"
  ListOfMultifields :: "address list"
  LastMultifield :: "address option"
  EvaluationError :: bool
  HaltExecution :: bool

text \<open>
  The parameters: the libraries of the scanner, the allocator of segments, \<open>EvaluateExpression\<close> on expressions
  of any type, conversions between numbers, the busy counts of facts and instances (counting up or down), the name
  of an instance and the text of facts, instances and external addresses.
\<close>

record 'x host =
  lib :: libc
  new_segment :: "machine \<Rightarrow> address"
  evaluate :: "'x \<Rightarrow> machine \<Rightarrow> dataObject \<times> machine"
  double_of_long :: "64 word \<Rightarrow> 64 word"
  long_of_double :: "64 word \<Rightarrow> 64 word"
  unsigned_of_double :: "64 word \<Rightarrow> 64 word"
  entity_busy :: "bool \<Rightarrow> fieldType \<Rightarrow> address \<Rightarrow> machine \<Rightarrow> machine"
  instance_name :: "address \<Rightarrow> byte list"
  entity_text :: "fieldType \<Rightarrow> address \<Rightarrow> byte list"

definition on_scanner :: "(scan \<Rightarrow> ('r \<times> scan) res) \<Rightarrow> machine \<Rightarrow> ('r \<times> machine) res" where
  "on_scanner f st = bind_res (f (scanner st)) (\<lambda>(r, s). Inr (r, st\<lparr>scanner := s\<rparr>))"

definition on_atoms :: "(symbolData \<Rightarrow> ('r \<times> symbolData) res) \<Rightarrow> machine \<Rightarrow> ('r \<times> machine) res" where
  "on_atoms f st =
     bind_res (f (atom_data (scanner st))) (\<lambda>(r, e). Inr (r, st\<lparr>scanner := (scanner st)\<lparr>atom_data := e\<rparr>\<rparr>))"

definition report :: "string \<Rightarrow> machine \<Rightarrow> machine" where
  "report m st = st\<lparr>scanner := (scanner st)\<lparr>messages := messages (scanner st) @ [m]\<rparr>\<rparr>"

definition SetHaltExecution :: "bool \<Rightarrow> machine \<Rightarrow> machine" where
  "SetHaltExecution v st = st\<lparr>HaltExecution := v\<rparr>"

definition SetEvaluationError :: "bool \<Rightarrow> machine \<Rightarrow> machine" where
  "SetEvaluationError v st =
     (let st = st\<lparr>EvaluationError := v\<rparr> in if v then st\<lparr>HaltExecution := True\<rparr> else st)"

section \<open>Segments\<close>

definition segment_at :: "address \<Rightarrow> machine \<Rightarrow> multifield res" where
  "segment_at p st = (case segments st p of None \<Rightarrow> Inl Undefined | Some m \<Rightarrow> Inr m)"

text \<open>\<open>theFields[i]\<close>\<close>

definition get_field :: "address \<Rightarrow> int \<Rightarrow> machine \<Rightarrow> field res" where
  "get_field p i st =
     bind_res (segment_at p st) (\<lambda>m.
       if 0 \<le> i \<and> i < int (length (theFields m))
       then (case theFields m ! nat i of None \<Rightarrow> Inl Undefined | Some f \<Rightarrow> Inr f)
       else Inl Undefined)"

definition set_field :: "address \<Rightarrow> int \<Rightarrow> field \<Rightarrow> machine \<Rightarrow> machine res" where
  "set_field p i f st =
     bind_res (segment_at p st) (\<lambda>m.
       if 0 \<le> i \<and> i < int (length (theFields m))
       then Inr (st\<lparr>segments := (segments st)(p := Some (m\<lparr>theFields := (theFields m)[nat i := Some f]\<rparr>))\<rparr>)
       else Inl Undefined)"

text \<open>A loop that copies \<open>n\<close> fields, from position \<open>j\<close> of one segment to position \<open>i\<close> of another.\<close>

fun copy_fields :: "nat \<Rightarrow> address \<Rightarrow> int \<Rightarrow> address \<Rightarrow> int \<Rightarrow> machine \<Rightarrow> machine res" where
  "copy_fields 0 dst i src j st = Inr st"
| "copy_fields (Suc n) dst i src j st =
     bind_res (get_field src j st) (\<lambda>f.
     bind_res (set_field dst i f st) (copy_fields n dst (i + 1) src (j + 1)))"

text \<open>A loop that reads \<open>n\<close> fields.\<close>

fun fields_of :: "nat \<Rightarrow> address \<Rightarrow> int \<Rightarrow> machine \<Rightarrow> field list res" where
  "fields_of 0 p i st = Inr []"
| "fields_of (Suc n) p i st =
     bind_res (get_field p i st) (\<lambda>f. bind_res (fields_of n p (i + 1) st) (\<lambda>fs. Inr (f # fs)))"

text \<open>\<open>memcpy\<close> of \<open>n\<close> fields, stored or not, to the start of a segment.\<close>

definition copy_memory :: "int \<Rightarrow> address \<Rightarrow> address \<Rightarrow> int \<Rightarrow> machine \<Rightarrow> machine res" where
  "copy_memory n dst src j st =
     bind_res (segment_at src st) (\<lambda>ms.
     bind_res (segment_at dst st) (\<lambda>md.
       if 0 \<le> n \<and> 0 \<le> j \<and> j + n \<le> int (length (theFields ms)) \<and> n \<le> int (length (theFields md))
       then Inr (st\<lparr>segments := (segments st)(dst := Some (md\<lparr>theFields :=
              take (nat n) (drop (nat j) (theFields ms)) @ drop (nat n) (theFields md)\<rparr>))\<rparr>)
       else Inl Undefined))"

definition CreateMultifield2 :: "'x host \<Rightarrow> int \<Rightarrow> machine \<Rightarrow> address \<times> machine" where
  "CreateMultifield2 h size_arg st =
     (let newSize = (if size_arg \<le> 0 then 1 else size_arg); p = new_segment h st in
      (p, st\<lparr>segments := (segments st)(p := Some \<lparr>busyCount = 0, multifieldLength = size_arg,
              theFields = replicate (nat newSize) None\<rparr>)\<rparr>))"

definition ReturnMultifield :: "address option \<Rightarrow> machine \<Rightarrow> machine res" where
  "ReturnMultifield theSegment st =
     (case theSegment of
        None \<Rightarrow> Inr st
      | Some p \<Rightarrow> bind_res (segment_at p st) (\<lambda>m. Inr (st\<lparr>segments := (segments st)(p := None)\<rparr>)))"

definition AddToMultifieldList :: "address \<Rightarrow> machine \<Rightarrow> machine" where
  "AddToMultifieldList p st =
     (let s = scanner st;
          st = st\<lparr>ListOfMultifields := p # ListOfMultifields st,
                  scanner := s\<lparr>atom_data := (atom_data s)\<lparr>dirty := True\<rparr>\<rparr>\<rparr> in
      if LastMultifield st = None then st\<lparr>LastMultifield := Some p\<rparr> else st)"

definition EnvCreateMultifield :: "'x host \<Rightarrow> int \<Rightarrow> machine \<Rightarrow> address \<times> machine" where
  "EnvCreateMultifield h size_arg st =
     (let (p, st) = CreateMultifield2 h size_arg st in (p, AddToMultifieldList p st))"

definition GetMultifieldList :: "machine \<Rightarrow> address list" where
  "GetMultifieldList st = ListOfMultifields st"

text \<open>The segments that are not busy are freed; \<open>last\<close> is the last one that was kept.\<close>

fun flush_loop :: "address list \<Rightarrow> address option \<Rightarrow> machine \<Rightarrow> (address list \<times> machine) res" where
  "flush_loop [] lastPtr st = Inr ([], st)"
| "flush_loop (p # ps) lastPtr st =
     bind_res (segment_at p st) (\<lambda>m.
       if busyCount m = 0 then
         let st = st\<lparr>segments := (segments st)(p := None)\<rparr> in
         flush_loop ps lastPtr (if ps = [] then st\<lparr>LastMultifield := lastPtr\<rparr> else st)
       else bind_res (flush_loop ps (Some p) st) (\<lambda>(kept, st). Inr (p # kept, st)))"

definition FlushMultifields :: "machine \<Rightarrow> machine res" where
  "FlushMultifields st =
     bind_res (flush_loop (ListOfMultifields st) None st) (\<lambda>(kept, st). Inr (st\<lparr>ListOfMultifields := kept\<rparr>))"

section \<open>Data objects\<close>

definition GetDOLength :: "dataObject \<Rightarrow> int" where
  "GetDOLength d = do_end d - do_begin d + 1"

definition GetDOBegin :: "dataObject \<Rightarrow> int" where
  "GetDOBegin d = do_begin d + 1"

definition GetDOEnd :: "dataObject \<Rightarrow> int" where
  "GetDOEnd d = do_end d + 1"

text \<open>An object for a range that is given by the positions from 1.\<close>

definition multifield_object :: "address \<Rightarrow> int \<Rightarrow> int \<Rightarrow> dataObject" where
  "multifield_object p b e = \<lparr>do_type = MULTIFIELD, do_value = p, do_begin = b - 1, do_end = e - 1\<rparr>"

definition EnvSetMultifieldErrorValue :: "'x host \<Rightarrow> machine \<Rightarrow> dataObject \<times> machine" where
  "EnvSetMultifieldErrorValue h st =
     (let (p, st) = EnvCreateMultifield h 0 st in
      (\<lparr>do_type = MULTIFIELD, do_value = p, do_begin = 1, do_end = 0\<rparr>, st))"

definition DOToMultifield :: "'x host \<Rightarrow> dataObject \<Rightarrow> machine \<Rightarrow> (address option \<times> machine) res" where
  "DOToMultifield h d st =
     (if do_type d \<noteq> MULTIFIELD then Inr (None, st)
      else
        let (p, st) = CreateMultifield2 h (GetDOLength d) st in
        bind_res (copy_memory (GetDOLength d) p (do_value d) (GetDOBegin d - 1) st) (\<lambda>st. Inr (Some p, st)))"

definition DuplicateMultifield :: "'x host \<Rightarrow> dataObject \<Rightarrow> machine \<Rightarrow> (dataObject \<times> machine) res" where
  "DuplicateMultifield h src st =
     (let e = do_end src - do_begin src; (p, st) = CreateMultifield2 h (e + 1) st in
      bind_res (copy_memory (e + 1) p (do_value src) (do_begin src) st) (\<lambda>st.
        Inr (\<lparr>do_type = MULTIFIELD, do_value = p, do_begin = 0, do_end = e\<rparr>, st)))"

definition CopyMultifield :: "'x host \<Rightarrow> address \<Rightarrow> machine \<Rightarrow> (address \<times> machine) res" where
  "CopyMultifield h src st =
     bind_res (segment_at src st) (\<lambda>m.
       let (p, st) = CreateMultifield2 h (multifieldLength m) st in
       bind_res (copy_memory (multifieldLength m) p src 0 st) (\<lambda>st. Inr (p, st)))"

text \<open>The comparisons are by type and address, which identify atoms.\<close>

fun fields_equal :: "nat \<Rightarrow> address \<Rightarrow> int \<Rightarrow> address \<Rightarrow> int \<Rightarrow> machine \<Rightarrow> bool res" where
  "fields_equal 0 p i q j st = Inr True"
| "fields_equal (Suc n) p i q j st =
     bind_res (get_field p i st) (\<lambda>e1.
     bind_res (get_field q j st) (\<lambda>e2.
       if field_type e1 \<noteq> field_type e2 then Inr False
       else if field_value e1 \<noteq> field_value e2 then Inr False
       else fields_equal n p (i + 1) q (j + 1) st))"

text \<open>With a negative length the loop stays at the first field and counts down past the least \<open>long\<close>.\<close>

definition MultifieldDOsEqual :: "dataObject \<Rightarrow> dataObject \<Rightarrow> machine \<Rightarrow> bool res" where
  "MultifieldDOsEqual d1 d2 st =
     (if GetDOLength d1 \<noteq> GetDOLength d2 then Inr False
      else if GetDOLength d1 < 0
      then bind_res (fields_equal 1 (do_value d1) (do_begin d1) (do_value d2) (do_begin d2) st)
        (\<lambda>same. if same then Inl Undefined else Inr False)
      else fields_equal (nat (GetDOLength d1)) (do_value d1) (do_begin d1) (do_value d2) (do_begin d2) st)"

section \<open>Installing values\<close>

text \<open>
  Atoms; \<open>depth\<close> bounds how far segments are nested in fields. The language builds none that are: values of the type
  are spliced into a segment.
\<close>

definition on_counts :: "(address \<Rightarrow> symbolData \<Rightarrow> symbolData res) \<Rightarrow> address \<Rightarrow> machine \<Rightarrow> machine res" where
  "on_counts f p st =
     bind_res (f p (atom_data (scanner st))) (\<lambda>e. Inr (st\<lparr>scanner := (scanner st)\<lparr>atom_data := e\<rparr>\<rparr>))"

fun each_field :: "(fieldType \<Rightarrow> address \<Rightarrow> machine \<Rightarrow> machine res) \<Rightarrow> nat \<Rightarrow> address \<Rightarrow> int \<Rightarrow> machine \<Rightarrow> machine res" where
  "each_field f 0 p i st = Inr st"
| "each_field f (Suc n) p i st =
     bind_res (get_field p i st) (\<lambda>x.
     bind_res (f (field_type x) (field_value x) st) (each_field f n p (i + 1)))"

definition install_segment :: "(fieldType \<Rightarrow> address \<Rightarrow> machine \<Rightarrow> machine res) \<Rightarrow> 32 word \<Rightarrow> address option
    \<Rightarrow> machine \<Rightarrow> machine res" where
  "install_segment f change theSegment st =
     (case theSegment of
        None \<Rightarrow> Inr st
      | Some p \<Rightarrow>
          bind_res (segment_at p st) (\<lambda>m.
            each_field f (nat (multifieldLength m)) p 0
              (st\<lparr>segments := (segments st)(p := Some (m\<lparr>busyCount := busyCount m + change\<rparr>))\<rparr>)))"

definition install_atom :: "'x host \<Rightarrow> fieldType \<Rightarrow> address \<Rightarrow> machine \<Rightarrow> machine res" where
  "install_atom h t p st =
     (case t of
        SYMBOL \<Rightarrow> on_counts IncrementSymbolCount p st
      | STRING \<Rightarrow> on_counts IncrementSymbolCount p st
      | INSTANCE_NAME \<Rightarrow> on_counts IncrementSymbolCount p st
      | FLOAT \<Rightarrow> on_counts IncrementFloatCount p st
      | INTEGER \<Rightarrow> on_counts IncrementIntegerCount p st
      | EXTERNAL_ADDRESS \<Rightarrow> on_counts IncrementExternalAddressCount p st
      | RVOID \<Rightarrow> Inr st
      | _ \<Rightarrow> Inr (entity_busy h True t p st))"

definition deinstall_atom :: "'x host \<Rightarrow> fieldType \<Rightarrow> address \<Rightarrow> machine \<Rightarrow> machine res" where
  "deinstall_atom h t p st =
     (case t of
        SYMBOL \<Rightarrow> on_counts DecrementSymbolCount p st
      | STRING \<Rightarrow> on_counts DecrementSymbolCount p st
      | INSTANCE_NAME \<Rightarrow> on_counts DecrementSymbolCount p st
      | FLOAT \<Rightarrow> on_counts DecrementFloatCount p st
      | INTEGER \<Rightarrow> on_counts DecrementIntegerCount p st
      | EXTERNAL_ADDRESS \<Rightarrow> on_counts DecrementExternalAddressCount p st
      | RVOID \<Rightarrow> Inr st
      | _ \<Rightarrow> Inr (entity_busy h False t p st))"

fun AtomInstall :: "'x host \<Rightarrow> nat \<Rightarrow> fieldType \<Rightarrow> address \<Rightarrow> machine \<Rightarrow> machine res" where
  "AtomInstall h 0 t p st = (if t = MULTIFIELD then Inl Undefined else install_atom h t p st)"
| "AtomInstall h (Suc depth) t p st =
     (if t = MULTIFIELD then install_segment (AtomInstall h depth) 1 (Some p) st else install_atom h t p st)"

fun AtomDeinstall :: "'x host \<Rightarrow> nat \<Rightarrow> fieldType \<Rightarrow> address \<Rightarrow> machine \<Rightarrow> machine res" where
  "AtomDeinstall h 0 t p st = (if t = MULTIFIELD then Inl Undefined else deinstall_atom h t p st)"
| "AtomDeinstall h (Suc depth) t p st =
     (if t = MULTIFIELD then install_segment (AtomDeinstall h depth) (- 1) (Some p) st else deinstall_atom h t p st)"

definition MultifieldInstall :: "'x host \<Rightarrow> nat \<Rightarrow> address option \<Rightarrow> machine \<Rightarrow> machine res" where
  "MultifieldInstall h depth = install_segment (AtomInstall h depth) 1"

definition MultifieldDeinstall :: "'x host \<Rightarrow> nat \<Rightarrow> address option \<Rightarrow> machine \<Rightarrow> machine res" where
  "MultifieldDeinstall h depth = install_segment (AtomDeinstall h depth) (- 1)"

definition ValueInstall :: "'x host \<Rightarrow> nat \<Rightarrow> dataObject \<Rightarrow> machine \<Rightarrow> machine res" where
  "ValueInstall h depth d st =
     (if do_type d = MULTIFIELD then MultifieldInstall h depth (Some (do_value d)) st
      else AtomInstall h depth (do_type d) (do_value d) st)"

definition ValueDeinstall :: "'x host \<Rightarrow> nat \<Rightarrow> dataObject \<Rightarrow> machine \<Rightarrow> machine res" where
  "ValueDeinstall h depth d st =
     (if do_type d = MULTIFIELD then MultifieldDeinstall h depth (Some (do_value d)) st
      else AtomDeinstall h depth (do_type d) (do_value d) st)"

section \<open>Equality and hashing of segments\<close>

fun compare_loop :: "(address \<Rightarrow> address \<Rightarrow> bool res) \<Rightarrow> nat \<Rightarrow> address \<Rightarrow> address \<Rightarrow> int \<Rightarrow> machine \<Rightarrow> bool res" where
  "compare_loop nested 0 p q i st = Inr True"
| "compare_loop nested (Suc n) p q i st =
     bind_res (get_field p i st) (\<lambda>e1.
     bind_res (get_field q i st) (\<lambda>e2.
       if field_type e1 \<noteq> field_type e2 then Inr False
       else bind_res
         (if field_type e1 = MULTIFIELD then nested (field_value e1) (field_value e2)
          else Inr (field_value e1 = field_value e2))
         (\<lambda>same. if \<not> same then Inr False else compare_loop nested n p q (i + 1) st)))"

fun MultifieldsEqual :: "nat \<Rightarrow> machine \<Rightarrow> address \<Rightarrow> address \<Rightarrow> bool res" where
  "MultifieldsEqual depth st p q =
     bind_res (segment_at p st) (\<lambda>m1.
     bind_res (segment_at q st) (\<lambda>m2.
       if multifieldLength m1 \<noteq> multifieldLength m2 then Inr False
       else compare_loop (case depth of 0 \<Rightarrow> \<lambda>_ _. Inl Undefined | Suc d \<Rightarrow> MultifieldsEqual d st)
         (nat (multifieldLength m1)) p q 0 st))"

fun hash_loop :: "(field \<Rightarrow> 64 word \<Rightarrow> 64 word res) \<Rightarrow> nat \<Rightarrow> address \<Rightarrow> int \<Rightarrow> 64 word \<Rightarrow> machine \<Rightarrow> 64 word res" where
  "hash_loop f 0 p i tally st = Inr tally"
| "hash_loop f (Suc n) p i tally st =
     bind_res (get_field p i st) (\<lambda>x.
     bind_res (f x (word_of_int i + 29)) (\<lambda>v. hash_loop f n p (i + 1) (tally + v) st))"

definition field_hash :: "'x host \<Rightarrow> nat \<Rightarrow> (address \<Rightarrow> 64 word res) \<Rightarrow> machine \<Rightarrow> field \<Rightarrow> 64 word \<Rightarrow> 64 word res" where
  "field_hash h theRange nested st x factor =
     (case field_type x of
        MULTIFIELD \<Rightarrow> nested (field_value x)
      | FLOAT \<Rightarrow> bind_res (ValueToDouble (field_value x) (scanner st)) (\<lambda>v.
          Inr (v * factor + unsigned_of_double h v))
      | INTEGER \<Rightarrow> bind_res (ValueToLong (field_value x) (scanner st)) (\<lambda>v. Inr (v * factor + v))
      | FACT_ADDRESS \<Rightarrow> Inr (of_nat (field_value x) * factor)
      | INSTANCE_ADDRESS \<Rightarrow> Inr (of_nat (field_value x) * factor)
      | EXTERNAL_ADDRESS \<Rightarrow>
          (case nodes (ExternalAddressTable (atom_data (scanner st))) (field_value x) of
             None \<Rightarrow> Inl Undefined | Some n \<Rightarrow> Inr (fst (contents n) * factor))
      | RVOID \<Rightarrow> Inr 0
      | _ \<Rightarrow> bind_res (ValueToString (field_value x) (scanner st)) (\<lambda>t. Inr (of_nat (HashSymbol t theRange) * factor)))"

fun HashMultifield :: "'x host \<Rightarrow> nat \<Rightarrow> nat \<Rightarrow> machine \<Rightarrow> address \<Rightarrow> 64 word res" where
  "HashMultifield h theRange depth st p =
     bind_res (segment_at p st) (\<lambda>m.
       hash_loop (field_hash h theRange (case depth of 0 \<Rightarrow> \<lambda>_. Inl Undefined | Suc d \<Rightarrow> HashMultifield h theRange d st) st)
         (nat (multifieldLength m)) p 0 0 st)"

section \<open>Text\<close>

text \<open>\<open>DataObjectToString\<close> on fields.\<close>

definition atom_text :: "'x host \<Rightarrow> fieldType \<Rightarrow> address \<Rightarrow> scan \<Rightarrow> (byte list \<times> scan) res" where
  "atom_text h t p s =
     (let enclosed = (\<lambda>l r. bind_res (ValueToString p s) (\<lambda>x.
            interned_text (lib h) (Some (bytes_of l @ x @ bytes_of r)) s)) in
      case t of
        STRING \<Rightarrow> enclosed [CHR 34] [CHR 34]
      | INSTANCE_NAME \<Rightarrow> enclosed ''['' '']''
      | SYMBOL \<Rightarrow> bind_res (ValueToString p s) (\<lambda>x. Inr (x, s))
      | FLOAT \<Rightarrow> bind_res (ValueToDouble p s) (\<lambda>v. FloatToString (lib h) v s)
      | INTEGER \<Rightarrow> bind_res (ValueToLong p s) (\<lambda>v. LongIntegerToString (lib h) v s)
      | RVOID \<Rightarrow> Inr ([], s)
      | MULTIFIELD \<Rightarrow> Inl Undefined
      | _ \<Rightarrow> interned_text (lib h) (Some (entity_text h t p)) s)"

text \<open>
  The first pass of \<open>ImplodeMultifield\<close> adds up the size of the block; the second writes the texts, each with a
  blank, of which the last becomes the terminator.
\<close>

definition escapes :: "byte list \<Rightarrow> nat" where
  "escapes x = length (filter (\<lambda>c. c = 34 \<or> c = 92) x)"

definition implode_size :: "'x host \<Rightarrow> field \<Rightarrow> scan \<Rightarrow> (nat \<times> scan) res" where
  "implode_size h f s =
     (case field_type f of
        STRING \<Rightarrow> bind_res (ValueToString (field_value f) s) (\<lambda>x. Inr (length x + 3 + escapes x, s))
      | INSTANCE_NAME \<Rightarrow> bind_res (ValueToString (field_value f) s) (\<lambda>x. Inr (length x + 3, s))
      | INSTANCE_ADDRESS \<Rightarrow> Inr (length (instance_name h (field_value f)) + 3, s)
      | t \<Rightarrow> bind_res (atom_text h t (field_value f) s) (\<lambda>(x, s). Inr (length x + 1, s)))"

fun escaped :: "byte list \<Rightarrow> byte list" where
  "escaped [] = []"
| "escaped (c # x) = (if c = 34 \<or> c = 92 then 92 # c # escaped x else c # escaped x)"

definition implode_text :: "'x host \<Rightarrow> field \<Rightarrow> scan \<Rightarrow> (byte list \<times> scan) res" where
  "implode_text h f s =
     (case field_type f of
        STRING \<Rightarrow> bind_res (ValueToString (field_value f) s) (\<lambda>x. Inr (34 # escaped x @ [34], s))
      | INSTANCE_NAME \<Rightarrow> bind_res (ValueToString (field_value f) s) (\<lambda>x. Inr (bytes_of ''['' @ x @ bytes_of '']'', s))
      | INSTANCE_ADDRESS \<Rightarrow> Inr (bytes_of ''['' @ instance_name h (field_value f) @ bytes_of '']'', s)
      | t \<Rightarrow> atom_text h t (field_value f) s)"

fun size_loop :: "'x host \<Rightarrow> nat \<Rightarrow> address \<Rightarrow> int \<Rightarrow> nat \<Rightarrow> machine \<Rightarrow> (nat \<times> machine) res" where
  "size_loop h 0 p i strsize st = Inr (strsize, st)"
| "size_loop h (Suc n) p i strsize st =
     bind_res (get_field p i st) (\<lambda>f.
     bind_res (on_scanner (implode_size h f) st) (\<lambda>(k, st). size_loop h n p (i + 1) (strsize + k) st))"

fun text_loop :: "'x host \<Rightarrow> nat \<Rightarrow> nat \<Rightarrow> address \<Rightarrow> int \<Rightarrow> byte list \<Rightarrow> machine \<Rightarrow> (byte list \<times> machine) res" where
  "text_loop h strsize 0 p i ret_str st = Inr (ret_str, st)"
| "text_loop h strsize (Suc n) p i ret_str st =
     bind_res (get_field p i st) (\<lambda>f.
     bind_res (on_scanner (implode_text h f) st) (\<lambda>(x, st).
       let ret_str = ret_str @ x @ [32] in
       if strsize < length ret_str then Inl Undefined else text_loop h strsize n p (i + 1) ret_str st))"

definition ImplodeMultifield :: "'x host \<Rightarrow> dataObject \<Rightarrow> machine \<Rightarrow> (address \<times> machine) res" where
  "ImplodeMultifield h d st =
     (let n = nat (GetDOLength d); p = do_value d; i = GetDOBegin d - 1 in
      bind_res (size_loop h n p i 0 st) (\<lambda>(strsize, st).
        if strsize = 0 then on_scanner (add_symbol_atom (lib h) (Some [])) st
        else bind_res (text_loop h strsize n p i [] st) (\<lambda>(ret_str, st).
          on_scanner (add_symbol_atom (lib h) (Some (butlast ret_str))) st)))"

definition DataObjectToString :: "'x host \<Rightarrow> dataObject \<Rightarrow> machine \<Rightarrow> (byte list \<times> machine) res" where
  "DataObjectToString h d st =
     (if do_type d = MULTIFIELD then
        bind_res (ImplodeMultifield h d st) (\<lambda>(p, st).
        bind_res (ValueToString p (scanner st)) (\<lambda>x.
          on_scanner (interned_text (lib h) (Some (bytes_of ''('' @ x @ bytes_of '')''))) st))
      else on_scanner (atom_text h (do_type d) (do_value d)) st)"

text \<open>
  The tokens of a string, each as a field, with fuel for their number. Tokens that are no values become strings
  of their print form.
\<close>

definition token_field :: "libc \<Rightarrow> token \<Rightarrow> scan \<Rightarrow> (field \<times> scan) res" where
  "token_field l t s =
     (let as_value = (\<lambda>ty. case token_value t of
            None \<Rightarrow> Inl Undefined | Some p \<Rightarrow> Inr (\<lparr>field_type = ty, field_value = p\<rparr>, s)) in
      case token_type t of
        SYMBOL_TOKEN \<Rightarrow> as_value SYMBOL
      | STRING_TOKEN \<Rightarrow> as_value STRING
      | FLOAT_TOKEN \<Rightarrow> as_value FLOAT
      | INTEGER_TOKEN \<Rightarrow> as_value INTEGER
      | INSTANCE_NAME_TOKEN \<Rightarrow> as_value INSTANCE_NAME
      | _ \<Rightarrow> bind_res (add_symbol_atom l (Some (printForm t)) s) (\<lambda>(p, s).
          Inr (\<lparr>field_type = STRING, field_value = p\<rparr>, s)))"

fun token_loop :: "libc \<Rightarrow> nat \<Rightarrow> scan \<Rightarrow> (field list \<times> scan) run" where
  "token_loop l 0 s = None"
| "token_loop l (Suc fuel) s =
     res_run (GetToken l s) (\<lambda>(t, s).
       if token_type t = STOP then return_run ([], s)
       else res_run (token_field l t s) (\<lambda>(f, s).
         bind_run (token_loop l fuel s) (\<lambda>(fs, s). return_run (f # fs, s))))"

fun store_fields :: "field list \<Rightarrow> address \<Rightarrow> int \<Rightarrow> machine \<Rightarrow> machine res" where
  "store_fields [] p i st = Inr st"
| "store_fields (f # fs) p i st = bind_res (set_field p i f st) (store_fields fs p (i + 1))"

definition OpenStringSource :: "byte list \<Rightarrow> scan \<Rightarrow> scan" where
  "OpenStringSource str s = s\<lparr>fast := False, chars := c_string str, index := 0, counting := False\<rparr>"

text \<open>Closing the source goes back to the one that was read before.\<close>

definition CloseStringSource :: "scan \<Rightarrow> scan \<Rightarrow> scan" where
  "CloseStringSource before s =
     s\<lparr>fast := fast before, chars := chars before, index := index before, counting := counting before\<rparr>"

definition StringToMultifield :: "nat \<Rightarrow> 'x host \<Rightarrow> byte list \<Rightarrow> machine \<Rightarrow> (address \<times> machine) run" where
  "StringToMultifield fuel h theString st =
     bind_run (token_loop (lib h) fuel (OpenStringSource theString (scanner st))) (\<lambda>(fs, s).
       let st' = st\<lparr>scanner := CloseStringSource (scanner st) s\<rparr>;
           (p, st') = EnvCreateMultifield h (int (length fs)) st' in
       res_run (store_fields fs p 0 st') (\<lambda>st'. return_run (p, st')))"

section \<open>Collecting arguments in a segment\<close>

text \<open>
  The evaluated arguments; None after an evaluation error. A single value has no range, a void one an empty
  range.
\<close>

fun eval_args :: "'x host \<Rightarrow> 'x list \<Rightarrow> machine \<Rightarrow> dataObject list option \<times> machine" where
  "eval_args h [] st = (Some [], st)"
| "eval_args h (x # xs) st =
     (let (v, st) = evaluate h x st in
      if EvaluationError st then (None, st)
      else let (vs, st) = eval_args h xs st in (map_option ((#) v) vs, st))"

definition arg_length :: "dataObject \<Rightarrow> int" where
  "arg_length v = (if do_type v = MULTIFIELD then GetDOLength v else if do_type v = RVOID then 0 else 1)"

fun store_args :: "dataObject list \<Rightarrow> address \<Rightarrow> int \<Rightarrow> machine \<Rightarrow> machine res" where
  "store_args [] p j st = Inr st"
| "store_args (v # vs) p j st =
     (if do_type v = MULTIFIELD then
        bind_res (copy_fields (nat (GetDOLength v)) p j (do_value v) (do_begin v) st)
          (store_args vs p (j + max 0 (GetDOLength v)))
      else if do_type v \<noteq> RVOID then
        bind_res (set_field p j \<lparr>field_type = do_type v, field_value = do_value v\<rparr> st) (store_args vs p (j + 1))
      else store_args vs p j st)"

definition StoreInMultifield :: "'x host \<Rightarrow> 'x list \<Rightarrow> bool \<Rightarrow> machine \<Rightarrow> (dataObject \<times> machine) res" where
  "StoreInMultifield h expptr garbageSegment st =
     (let create = (if garbageSegment then EnvCreateMultifield h else CreateMultifield2 h);
          nothing = (\<lambda>st. let (p, st) = create 0 st in Inr (multifield_object p 1 0, st)) in
      if expptr = [] then nothing st
      else
        let (args, st) = eval_args h expptr st in
        case args of
          None \<Rightarrow> nothing st
        | Some vs \<Rightarrow>
            let seg_size = sum_list (map arg_length vs); (p, st) = create seg_size st in
            bind_res (store_args vs p 0 st) (\<lambda>st. Inr (multifield_object p 1 seg_size, st)))"

end
