(* ===== verification/MultifieldFunctions.thy ===== *)
theory MultifieldFunctions
  imports Multifield
begin

text \<open>
  \<open>CLIPS/multifun.c\<close>: the functions of the language on multifield values, with the access to their arguments in
  \<open>CLIPS/argacces.c\<close>. The arguments of a call are a list of expressions, which are evaluated when a function
  asks for them. The loops \<open>progn$\<close> and \<open>foreach\<close> and the parsers of the calls are not modelled.
\<close>

section \<open>Arguments\<close>

datatype relation = EXACTLY | AT_LEAST | NO_MORE_THAN

datatype expected = Exactly fieldType | INTEGER_OR_FLOAT | SYMBOL_OR_STRING | INSTANCE_OR_INSTANCE_NAME

definition failed :: "string \<Rightarrow> machine \<Rightarrow> machine" where
  "failed m st = SetEvaluationError True (SetHaltExecution True (report m st))"

definition EnvRtnArgCount :: "'x list \<Rightarrow> int" where
  "EnvRtnArgCount args = int (length args)"

definition EnvArgCountCheck :: "relation \<Rightarrow> int \<Rightarrow> 'x list \<Rightarrow> machine \<Rightarrow> int \<times> machine" where
  "EnvArgCountCheck countRelation expectedNumber args st =
     (let n = EnvRtnArgCount args in
      if (case countRelation of EXACTLY \<Rightarrow> n = expectedNumber | AT_LEAST \<Rightarrow> expectedNumber \<le> n
          | NO_MORE_THAN \<Rightarrow> n \<le> expectedNumber)
      then (n, st) else (-1, failed ''ARGACCES4'' st))"

definition EnvRtnUnknown :: "'x host \<Rightarrow> 'x list \<Rightarrow> nat \<Rightarrow> machine \<Rightarrow> dataObject option \<times> machine" where
  "EnvRtnUnknown h args argumentPosition st =
     (case drop (argumentPosition - 1) args of
        [] \<Rightarrow> (None, failed ''ARGACCES3'' st)
      | x # _ \<Rightarrow> let (v, st) = evaluate h x st in (Some v, st))"

definition fits_type :: "expected \<Rightarrow> fieldType \<Rightarrow> bool" where
  "fits_type expectedType t \<longleftrightarrow> expectedType = Exactly t
     \<or> expectedType = INTEGER_OR_FLOAT \<and> (t = INTEGER \<or> t = FLOAT)
     \<or> expectedType = SYMBOL_OR_STRING \<and> (t = SYMBOL \<or> t = STRING)
     \<or> (expectedType = SYMBOL_OR_STRING \<or> expectedType = Exactly SYMBOL) \<and> t = INSTANCE_NAME
     \<or> expectedType = Exactly INSTANCE_NAME \<and> t = SYMBOL
     \<or> expectedType = INSTANCE_OR_INSTANCE_NAME \<and> (t = INSTANCE_ADDRESS \<or> t = INSTANCE_NAME \<or> t = SYMBOL)"

text \<open>The argument, converted between the number types if need be, or None.\<close>

definition EnvArgTypeCheck :: "'x host \<Rightarrow> 'x list \<Rightarrow> nat \<Rightarrow> expected \<Rightarrow> machine \<Rightarrow> (dataObject option \<times> machine) res" where
  "EnvArgTypeCheck h args argumentPosition expectedType st =
     (let (ret, st) = EnvRtnUnknown h args argumentPosition st in
      if EvaluationError st then Inr (None, st)
      else case ret of
        None \<Rightarrow> Inl Undefined
      | Some v \<Rightarrow>
          if fits_type expectedType (do_type v) then Inr (Some v, st)
          else if do_type v = INTEGER \<and> expectedType = Exactly FLOAT then
            bind_res (ValueToLong (do_value v) (scanner st)) (\<lambda>x.
            bind_res (on_atoms (EnvAddDouble (allocate (lib h)) (double_of_long h x)) st) (\<lambda>(p, st).
              Inr (Some (v\<lparr>do_type := FLOAT, do_value := p\<rparr>), st)))
          else if do_type v = FLOAT \<and> expectedType = Exactly INTEGER then
            bind_res (ValueToDouble (do_value v) (scanner st)) (\<lambda>x.
            bind_res (on_atoms (EnvAddLong (allocate (lib h)) (long_of_double h x)) st) (\<lambda>(p, st).
              Inr (Some (v\<lparr>do_type := INTEGER, do_value := p\<rparr>), st)))
          else Inr (None, failed ''ARGACCES5'' st))"

text \<open>The two ways a function goes on after a check.\<close>

definition with_arg :: "'x host \<Rightarrow> 'x list \<Rightarrow> nat \<Rightarrow> expected \<Rightarrow> (machine \<Rightarrow> 'r) \<Rightarrow> (fault \<Rightarrow> 'r)
    \<Rightarrow> (dataObject \<Rightarrow> machine \<Rightarrow> 'r) \<Rightarrow> machine \<Rightarrow> 'r" where
  "with_arg h args pos ty otherwise stop continue st =
     (case EnvArgTypeCheck h args pos ty st of
        Inl e \<Rightarrow> stop e
      | Inr (None, st) \<Rightarrow> otherwise st
      | Inr (Some v, st) \<Rightarrow> continue v st)"

definition DOToLong :: "dataObject \<Rightarrow> machine \<Rightarrow> int res" where
  "DOToLong v st = bind_res (ValueToLong (do_value v) (scanner st)) (\<lambda>x. Inr (sint x))"

definition EnvFalseSymbol :: "machine \<Rightarrow> dataObject" where
  "EnvFalseSymbol st = \<lparr>do_type = SYMBOL,
     do_value = (case FalseSymbolHN (atom_data (scanner st)) of None \<Rightarrow> 0 | Some p \<Rightarrow> p), do_begin = 0, do_end = 0\<rparr>"

text \<open>The value most functions return if something is wrong, with or without the error flag.\<close>

definition error_value :: "'x host \<Rightarrow> machine \<Rightarrow> (dataObject \<times> machine) res" where
  "error_value h st = Inr (EnvSetMultifieldErrorValue h st)"

definition error_result :: "'x host \<Rightarrow> machine \<Rightarrow> (dataObject \<times> machine) res" where
  "error_result h st = error_value h (SetEvaluationError True st)"

section \<open>Deleting, replacing and inserting\<close>

definition MVRangeError :: "machine \<Rightarrow> machine" where
  "MVRangeError st = report ''MULTIFUN1'' st"

definition source_length :: "dataObject option \<Rightarrow> int" where
  "source_length src = (case src of None \<Rightarrow> 0 | Some s \<Rightarrow> do_end s - do_begin s + 1)"

definition bad_range :: "int \<Rightarrow> int \<Rightarrow> int \<Rightarrow> bool" where
  "bad_range rb re srclen \<longleftrightarrow> re < rb \<or> rb < 1 \<or> re < 1 \<or> srclen < rb \<or> srclen < re"

definition DeleteMultiValueField :: "'x host \<Rightarrow> dataObject option \<Rightarrow> int \<Rightarrow> int \<Rightarrow> machine
    \<Rightarrow> (dataObject option \<times> machine) res" where
  "DeleteMultiValueField h source rb re st =
     (let srclen = source_length source in
      if bad_range rb re srclen then Inr (None, MVRangeError st)
      else if srclen = 0 then
        let (p, st) = EnvCreateMultifield h 0 st in
        Inr (Some \<lparr>do_type = MULTIFIELD, do_value = p, do_begin = 0, do_end = -1\<rparr>, st)
      else case source of
        None \<Rightarrow> Inl Undefined
      | Some src \<Rightarrow>
          let rb = do_begin src + rb - 1; re = do_begin src + re - 1;
              dstlen = srclen - (re - rb + 1); (p, st) = EnvCreateMultifield h dstlen st;
              i = rb - do_begin src in
          bind_res (copy_fields (nat i) p 0 (do_value src) (do_begin src) st) (\<lambda>st.
          bind_res (copy_fields (nat (dstlen - i)) p i (do_value src) (re + 1) st) (\<lambda>st.
            Inr (Some \<lparr>do_type = MULTIFIELD, do_value = p, do_begin = 0, do_end = dstlen - 1\<rparr>, st))))"

text \<open>Storing a value, all the fields of a multifield or a single one, from a position on.\<close>

definition value_length :: "dataObject \<Rightarrow> int" where
  "value_length v = (if do_type v = MULTIFIELD then GetDOLength v else 1)"

definition put_value :: "dataObject \<Rightarrow> address \<Rightarrow> int \<Rightarrow> machine \<Rightarrow> machine res" where
  "put_value v p i st =
     (if do_type v \<noteq> MULTIFIELD then set_field p i \<lparr>field_type = do_type v, field_value = do_value v\<rparr> st
      else copy_fields (nat (GetDOLength v)) p i (do_value v) (do_begin v) st)"

definition ReplaceMultiValueField :: "'x host \<Rightarrow> dataObject option \<Rightarrow> int \<Rightarrow> int \<Rightarrow> dataObject \<Rightarrow> machine
    \<Rightarrow> (dataObject option \<times> machine) res" where
  "ReplaceMultiValueField h source rb re field st =
     (let srclen = source_length source in
      if bad_range rb re srclen then Inr (None, MVRangeError st)
      else case source of
        None \<Rightarrow> Inl Undefined
      | Some src \<Rightarrow>
          let rb = do_begin src + rb - 1; re = do_begin src + re - 1;
              dstlen = srclen + value_length field - (re - rb + 1); (p, st) = EnvCreateMultifield h dstlen st;
              i = rb - do_begin src in
          bind_res (copy_fields (nat i) p 0 (do_value src) (do_begin src) st) (\<lambda>st.
          bind_res (put_value field p i st) (\<lambda>st.
          let i = i + max 0 (value_length field) in
          bind_res (copy_fields (nat (dstlen - i)) p i (do_value src) (re + 1) st) (\<lambda>st.
            Inr (Some \<lparr>do_type = MULTIFIELD, do_value = p, do_begin = 0, do_end = dstlen - 1\<rparr>, st)))))"

definition InsertMultiValueField :: "'x host \<Rightarrow> dataObject option \<Rightarrow> int \<Rightarrow> dataObject \<Rightarrow> machine
    \<Rightarrow> (dataObject option \<times> machine) res" where
  "InsertMultiValueField h source theIndex field st =
     (let srclen = source_length source in
      if theIndex < 1 then Inr (None, MVRangeError st)
      else
        let theIndex = (if srclen + 1 < theIndex then srclen + 1 else theIndex) in
        case source of
          None \<Rightarrow>
            if do_type field = MULTIFIELD then
              bind_res (DuplicateMultifield h field st) (\<lambda>(dst, st).
                Inr (Some dst, AddToMultifieldList (do_value dst) st))
            else
              let (p, st) = EnvCreateMultifield h 0 st in
              bind_res (set_field p 0 \<lparr>field_type = do_type field, field_value = do_value field\<rparr> st) (\<lambda>st.
                Inr (Some \<lparr>do_type = MULTIFIELD, do_value = p, do_begin = 0, do_end = 0\<rparr>, st))
        | Some src \<Rightarrow>
            let dstlen = value_length field + srclen; (p, st) = EnvCreateMultifield h dstlen st;
                i = theIndex - 1; j = do_begin src + i in
            bind_res (copy_fields (nat i) p 0 (do_value src) (do_begin src) st) (\<lambda>st.
            bind_res (put_value field p i st) (\<lambda>st.
            bind_res (copy_fields (nat (do_end src - j + 1)) p (i + max 0 (value_length field)) (do_value src) j st) (\<lambda>st.
              Inr (Some \<lparr>do_type = MULTIFIELD, do_value = p, do_begin = 0, do_end = dstlen - 1\<rparr>, st)))))"

definition or_error :: "'x host \<Rightarrow> (dataObject option \<times> machine) res \<Rightarrow> (dataObject \<times> machine) res" where
  "or_error h r = bind_res r (\<lambda>(d, st). case d of None \<Rightarrow> error_result h st | Some d \<Rightarrow> Inr (d, st))"

definition DeleteFunction :: "'x host \<Rightarrow> 'x list \<Rightarrow> machine \<Rightarrow> (dataObject \<times> machine) res" where
  "DeleteFunction h args =
     with_arg h args 1 (Exactly MULTIFIELD) (error_result h) Inl (\<lambda>value1.
     with_arg h args 2 (Exactly INTEGER) (error_result h) Inl (\<lambda>value2.
     with_arg h args 3 (Exactly INTEGER) (error_result h) Inl (\<lambda>value3 st.
       bind_res (DOToLong value2 st) (\<lambda>rb.
       bind_res (DOToLong value3 st) (\<lambda>re.
         or_error h (DeleteMultiValueField h (Some value1) rb re st))))))"

definition MVDeleteFunction :: "'x host \<Rightarrow> 'x list \<Rightarrow> machine \<Rightarrow> (dataObject \<times> machine) res" where
  "MVDeleteFunction h args =
     with_arg h args 1 (Exactly INTEGER) (error_result h) Inl (\<lambda>value1.
     with_arg h args 2 (Exactly MULTIFIELD) (error_result h) Inl (\<lambda>value2 st.
       bind_res (DOToLong value1 st) (\<lambda>i. or_error h (DeleteMultiValueField h (Some value2) i i st))))"

text \<open>The replacement: one argument is evaluated as it is, several are collected.\<close>

definition new_value :: "'x host \<Rightarrow> 'x list \<Rightarrow> machine \<Rightarrow> (dataObject \<times> machine) res" where
  "new_value h fieldarg st =
     (case fieldarg of
        [] \<Rightarrow> Inl Undefined
      | [x] \<Rightarrow> Inr (evaluate h x st)
      | _ \<Rightarrow> StoreInMultifield h fieldarg True st)"

definition ReplaceFunction :: "'x host \<Rightarrow> 'x list \<Rightarrow> machine \<Rightarrow> (dataObject \<times> machine) res" where
  "ReplaceFunction h args =
     with_arg h args 1 (Exactly MULTIFIELD) (error_result h) Inl (\<lambda>value1.
     with_arg h args 2 (Exactly INTEGER) (error_result h) Inl (\<lambda>value2.
     with_arg h args 3 (Exactly INTEGER) (error_result h) Inl (\<lambda>value3 st.
       bind_res (new_value h (drop 3 args) st) (\<lambda>(value4, st).
       bind_res (DOToLong value2 st) (\<lambda>rb.
       bind_res (DOToLong value3 st) (\<lambda>re.
         or_error h (ReplaceMultiValueField h (Some value1) rb re value4 st)))))))"

definition MVReplaceFunction :: "'x host \<Rightarrow> 'x list \<Rightarrow> machine \<Rightarrow> (dataObject \<times> machine) res" where
  "MVReplaceFunction h args =
     with_arg h args 1 (Exactly INTEGER) (error_result h) Inl (\<lambda>value1.
     with_arg h args 2 (Exactly MULTIFIELD) (error_result h) Inl (\<lambda>value2 st.
       case drop 2 args of
         [] \<Rightarrow> Inl Undefined
       | x # _ \<Rightarrow>
           let (value3, st) = evaluate h x st in
           bind_res (DOToLong value1 st) (\<lambda>i. or_error h (ReplaceMultiValueField h (Some value2) i i value3 st))))"

definition InsertFunction :: "'x host \<Rightarrow> 'x list \<Rightarrow> machine \<Rightarrow> (dataObject \<times> machine) res" where
  "InsertFunction h args =
     with_arg h args 1 (Exactly MULTIFIELD) (error_result h) Inl (\<lambda>value1.
     with_arg h args 2 (Exactly INTEGER) (error_result h) Inl (\<lambda>value2 st.
       bind_res (new_value h (drop 2 args) st) (\<lambda>(value3, st).
       bind_res (DOToLong value2 st) (\<lambda>i. or_error h (InsertMultiValueField h (Some value1) i value3 st)))))"

section \<open>Explode and implode\<close>

definition ExplodeFunction :: "nat \<Rightarrow> 'x host \<Rightarrow> 'x list \<Rightarrow> machine \<Rightarrow> (dataObject \<times> machine) run" where
  "ExplodeFunction fuel h args st =
     (let failure = (\<lambda>st. Some (error_result h (SetHaltExecution True st)));
          (n, st) = EnvArgCountCheck EXACTLY 1 args st in
      if n = -1 then failure st
      else with_arg h args 1 (Exactly STRING) failure (\<lambda>e. Some (Inl e)) (\<lambda>v st.
        res_run (ValueToString (do_value v) (scanner st)) (\<lambda>str.
        bind_run (StringToMultifield fuel h str st) (\<lambda>(p, st).
        res_run (segment_at p st) (\<lambda>m. return_run (multifield_object p 1 (multifieldLength m), st))))) st)"

definition ImplodeFunction :: "'x host \<Rightarrow> 'x list \<Rightarrow> machine \<Rightarrow> (address \<times> machine) res" where
  "ImplodeFunction h args st =
     (let failure = on_scanner (add_symbol_atom (lib h) (Some []));
          (n, st) = EnvArgCountCheck EXACTLY 1 args st in
      if n = -1 then failure st
      else with_arg h args 1 (Exactly MULTIFIELD) failure Inl (ImplodeMultifield h) st)"

section \<open>Parts of a multifield\<close>

text \<open>The ranges share the segment of the argument.\<close>

definition subsequence :: "'x host \<Rightarrow> dataObject \<Rightarrow> int \<Rightarrow> int \<Rightarrow> machine \<Rightarrow> (dataObject \<times> machine) res" where
  "subsequence h v start end_arg st =
     (let offset = GetDOBegin v; len = GetDOLength v in
      if len < start then error_value h st
      else
        let end_arg = (if len < end_arg then len else end_arg); start = (if start < 1 then 1 else start) in
        Inr (multifield_object (do_value v) (offset + start - 1) (offset + end_arg - 1), st))"

definition SubseqFunction :: "'x host \<Rightarrow> 'x list \<Rightarrow> machine \<Rightarrow> (dataObject \<times> machine) res" where
  "SubseqFunction h args =
     with_arg h args 1 (Exactly MULTIFIELD) (error_value h) Inl (\<lambda>v.
     with_arg h args 2 (Exactly INTEGER) (error_value h) Inl (\<lambda>v2 st.
       bind_res (DOToLong v2 st) (\<lambda>start.
       with_arg h args 3 (Exactly INTEGER) (error_value h) Inl (\<lambda>v3 st.
         bind_res (DOToLong v3 st) (\<lambda>end_arg.
           if end_arg < 1 \<or> end_arg < start then error_value h st
           else subsequence h v start end_arg st)) st)))"

definition MVSubseqFunction :: "'x host \<Rightarrow> 'x list \<Rightarrow> machine \<Rightarrow> (dataObject \<times> machine) res" where
  "MVSubseqFunction h args =
     with_arg h args 1 (Exactly INTEGER) (error_value h) Inl (\<lambda>v1 st.
       bind_res (DOToLong v1 st) (\<lambda>start.
       with_arg h args 2 (Exactly INTEGER) (error_value h) Inl (\<lambda>v2 st.
         bind_res (DOToLong v2 st) (\<lambda>end_arg.
           if end_arg < 1 \<or> end_arg < start then error_value h st
           else with_arg h args 3 (Exactly MULTIFIELD) (error_value h) Inl (\<lambda>v st.
             subsequence h v start end_arg st) st)) st))"

definition FirstFunction :: "'x host \<Rightarrow> 'x list \<Rightarrow> machine \<Rightarrow> (dataObject \<times> machine) res" where
  "FirstFunction h args =
     with_arg h args 1 (Exactly MULTIFIELD) (error_value h) Inl (\<lambda>v st.
       Inr (multifield_object (do_value v) (GetDOBegin v)
              (if GetDOBegin v \<le> GetDOEnd v then GetDOBegin v else GetDOEnd v), st))"

definition RestFunction :: "'x host \<Rightarrow> 'x list \<Rightarrow> machine \<Rightarrow> (dataObject \<times> machine) res" where
  "RestFunction h args =
     with_arg h args 1 (Exactly MULTIFIELD) (error_value h) Inl (\<lambda>v st.
       Inr (multifield_object (do_value v)
              (if GetDOEnd v < GetDOBegin v then GetDOBegin v else GetDOBegin v + 1) (GetDOEnd v), st))"

definition nil_value :: "'x host \<Rightarrow> machine \<Rightarrow> (dataObject \<times> machine) res" where
  "nil_value h st =
     bind_res (on_scanner (add_symbol_atom (lib h) (Some (bytes_of ''nil''))) st) (\<lambda>(p, st).
       Inr (\<lparr>do_type = SYMBOL, do_value = p, do_begin = 0, do_end = 0\<rparr>, st))"

definition NthFunction :: "'x host \<Rightarrow> 'x list \<Rightarrow> machine \<Rightarrow> (dataObject \<times> machine) res" where
  "NthFunction h args st =
     (let (n, st) = EnvArgCountCheck EXACTLY 2 args st in
      if n = -1 then nil_value h st
      else with_arg h args 1 (Exactly INTEGER) (nil_value h) Inl (\<lambda>value1.
        with_arg h args 2 (Exactly MULTIFIELD) (nil_value h) Inl (\<lambda>value2 st.
          bind_res (DOToLong value1 st) (\<lambda>n.
            if GetDOLength value2 < n \<or> n < 1 then nil_value h st
            else bind_res (get_field (do_value value2) (n + GetDOBegin value2 - 1 - 1) st) (\<lambda>f.
              Inr (\<lparr>do_type = field_type f, do_value = field_value f, do_begin = 0, do_end = 0\<rparr>, st))))) st)"

section \<open>Searching\<close>

text \<open>\<open>excludes\<close> are ranges of positions.\<close>

definition MVRangeCheck :: "int \<Rightarrow> int \<Rightarrow> (int \<times> int) list \<Rightarrow> bool" where
  "MVRangeCheck si ei excludes \<longleftrightarrow>
     \<not> (\<exists>(lo, hi) \<in> set excludes. lo \<le> si \<and> si \<le> hi \<or> lo \<le> ei \<and> ei \<le> hi)"

text \<open>The fields from two positions on agree; \<open>room\<close> is what the searched multifield has left.\<close>

fun match_fields :: "nat \<Rightarrow> nat \<Rightarrow> address \<Rightarrow> int \<Rightarrow> address \<Rightarrow> int \<Rightarrow> machine \<Rightarrow> bool res" where
  "match_fields 0 room p a q b st = Inr True"
| "match_fields (Suc n) 0 p a q b st = Inr False"
| "match_fields (Suc n) (Suc room) p a q b st =
     bind_res (get_field p a st) (\<lambda>x.
     bind_res (get_field q b st) (\<lambda>y.
       if field_type x \<noteq> field_type y \<or> field_value x \<noteq> field_value y then Inr False
       else match_fields n room p (a + 1) q (b + 1) st))"

text \<open>The values that are searched for at position \<open>i\<close>, from 0.\<close>

fun find_at :: "dataObject list \<Rightarrow> dataObject \<Rightarrow> int \<Rightarrow> (int \<times> int) list \<Rightarrow> machine \<Rightarrow> (int \<times> int) option res" where
  "find_at [] v i excludes st = Inr None"
| "find_at (d # ds) v i excludes st =
     (if do_type d = MULTIFIELD then
        let slen = GetDOLength d in
        bind_res
          (if MVRangeCheck (i + 1) (i + slen) excludes
           then match_fields (nat slen) (nat (GetDOLength v - i)) (do_value d) (do_begin d)
                  (do_value v) (i + do_begin v) st
           else Inr False)
          (\<lambda>found. if found then Inr (Some (i + 1, i + slen)) else find_at ds v i excludes st)
      else
        bind_res (get_field (do_value v) (i + do_begin v) st) (\<lambda>y.
          if do_value d = field_value y \<and> do_type d = field_type y \<and> MVRangeCheck (i + 1) (i + 1) excludes
          then Inr (Some (i + 1, i + 1)) else find_at ds v i excludes st))"

fun find_loop :: "nat \<Rightarrow> dataObject list \<Rightarrow> dataObject \<Rightarrow> int \<Rightarrow> (int \<times> int) list \<Rightarrow> machine \<Rightarrow> (int \<times> int) option res" where
  "find_loop 0 ds v i excludes st = Inr None"
| "find_loop (Suc n) ds v i excludes st =
     bind_res (find_at ds v i excludes st) (\<lambda>found.
       case found of Some r \<Rightarrow> Inr (Some r) | None \<Rightarrow> find_loop n ds v (i + 1) excludes st)"

definition FindDOsInSegment :: "dataObject list \<Rightarrow> dataObject \<Rightarrow> (int \<times> int) list \<Rightarrow> machine \<Rightarrow> (int \<times> int) option res" where
  "FindDOsInSegment searchDOs v excludes st = find_loop (nat (GetDOLength v)) searchDOs v 0 excludes st"

definition MemberFunction :: "'x host \<Rightarrow> 'x list \<Rightarrow> machine \<Rightarrow> (dataObject \<times> machine) res" where
  "MemberFunction h args st =
     (let falseValue = EnvFalseSymbol st; (n, st) = EnvArgCountCheck EXACTLY 2 args st in
      if n = -1 then Inr (falseValue, st)
      else
        let (item1, st) = EnvRtnUnknown h args 1 st in
        with_arg h args 2 (Exactly MULTIFIELD) (\<lambda>st. Inr (falseValue, st)) Inl (\<lambda>item2 st.
          case item1 of
            None \<Rightarrow> Inl Undefined
          | Some d \<Rightarrow>
              bind_res (FindDOsInSegment [d] item2 [] st) (\<lambda>found.
                case found of
                  None \<Rightarrow> Inr (falseValue, st)
                | Some (j, k) \<Rightarrow>
                    if j = k then
                      bind_res (on_atoms (EnvAddLong (allocate (lib h)) (word_of_int j)) st) (\<lambda>(a, st).
                        Inr (\<lparr>do_type = INTEGER, do_value = a, do_begin = 0, do_end = 0\<rparr>, st))
                    else
                      let (p, st) = EnvCreateMultifield h 2 st in
                      bind_res (on_atoms (EnvAddLong (allocate (lib h)) (word_of_int j)) st) (\<lambda>(a, st).
                      bind_res (set_field p 0 \<lparr>field_type = INTEGER, field_value = a\<rparr> st) (\<lambda>st.
                      bind_res (on_atoms (EnvAddLong (allocate (lib h)) (word_of_int k)) st) (\<lambda>(a, st).
                      bind_res (set_field p 1 \<lparr>field_type = INTEGER, field_value = a\<rparr> st) (\<lambda>st.
                        Inr (multifield_object p 1 2, st))))))) st)"

text \<open>The loop over the fields of the first multifield, each searched for on its own.\<close>

fun subset_loop :: "nat \<Rightarrow> dataObject \<Rightarrow> int \<Rightarrow> dataObject \<Rightarrow> machine \<Rightarrow> bool res" where
  "subset_loop 0 item1 i item2 st = Inr True"
| "subset_loop (Suc n) item1 i item2 st =
     bind_res (get_field (do_value item1) i st) (\<lambda>f.
     bind_res (FindDOsInSegment [\<lparr>do_type = field_type f, do_value = field_value f, do_begin = 0, do_end = 0\<rparr>] item2 [] st)
       (\<lambda>found. if found = None then Inr False else subset_loop n item1 (i + 1) item2 st))"

definition SubsetpFunction :: "'x host \<Rightarrow> 'x list \<Rightarrow> machine \<Rightarrow> (bool \<times> machine) res" where
  "SubsetpFunction h args st =
     (let (n, st) = EnvArgCountCheck EXACTLY 2 args st in
      if n = -1 then Inr (False, st)
      else with_arg h args 1 (Exactly MULTIFIELD) (\<lambda>st. Inr (False, st)) Inl (\<lambda>item1.
        with_arg h args 2 (Exactly MULTIFIELD) (\<lambda>st. Inr (False, st)) Inl (\<lambda>item2 st.
          if GetDOLength item1 = 0 then Inr (True, st)
          else if GetDOLength item2 = 0 then Inr (False, st)
          else bind_res (subset_loop (nat (GetDOLength item1)) item1 (do_begin item1) item2 st) (\<lambda>b. Inr (b, st)))) st)"

section \<open>Deleting and replacing members\<close>

lemma deleted_shorter:
  assumes "DeleteMultiValueField h (Some v) j k st = Inr (Some d, st')"
  shows "nat (GetDOLength d) < nat (GetDOLength v)"
  using assms
  by (auto simp: DeleteMultiValueField_def source_length_def bad_range_def GetDOLength_def Let_def bind_res_eq_Inr
      split: if_splits prod.splits)

function delete_loop :: "'x host \<Rightarrow> dataObject list \<Rightarrow> dataObject \<Rightarrow> machine \<Rightarrow> (dataObject \<times> machine) res" where
  "delete_loop h delVals resultValue st =
     bind_res (FindDOsInSegment delVals resultValue [] st) (\<lambda>found.
       case found of
         None \<Rightarrow> Inr (resultValue, st)
       | Some (j, k) \<Rightarrow>
           bind_res (DeleteMultiValueField h (Some resultValue) j k st) (\<lambda>(d, st).
             case d of None \<Rightarrow> error_result h st | Some d \<Rightarrow> delete_loop h delVals d st))"
  by pat_completeness auto
termination
  by (relation "measure (\<lambda>(h, ds, v, st). nat (GetDOLength v))") (auto dest: deleted_shorter)

declare delete_loop.simps [simp del]

text \<open>\<open>EnvRtnUnknown\<close> for each of the arguments from a position on.\<close>

fun unknown_args :: "'x host \<Rightarrow> 'x list \<Rightarrow> machine \<Rightarrow> dataObject list \<times> machine" where
  "unknown_args h [] st = ([], st)"
| "unknown_args h (x # xs) st =
     (let (v, st) = evaluate h x st; (vs, st) = unknown_args h xs st in (v # vs, st))"

definition DeleteMemberFunction :: "'x host \<Rightarrow> 'x list \<Rightarrow> machine \<Rightarrow> (dataObject \<times> machine) res" where
  "DeleteMemberFunction h args st =
     (let (argCnt, st) = EnvArgCountCheck AT_LEAST 2 args st in
      if argCnt = -1 then error_result h st
      else with_arg h args 1 (Exactly MULTIFIELD) (error_result h) Inl (\<lambda>resultValue st.
        let (delVals, st) = unknown_args h (drop 1 args) st in delete_loop h delVals resultValue st) st)"

lemma found_position:
  "find_at ds v i excludes st = Inr (Some (j, k)) \<Longrightarrow> j = i + 1 \<and> (\<exists>b. MVRangeCheck j b excludes)"
proof (induction ds)
  case (Cons d ds)
  show ?case
  proof (cases "do_type d = MULTIFIELD")
    case True
    obtain b where b: "(if MVRangeCheck (i + 1) (i + GetDOLength d) excludes
           then match_fields (nat (GetDOLength d)) (nat (GetDOLength v - i)) (do_value d) (do_begin d)
                  (do_value v) (i + do_begin v) st
           else Inr False) = Inr b"
      "(if b then Inr (Some (i + 1, i + GetDOLength d)) else find_at ds v i excludes st) = Inr (Some (j, k))"
      using Cons.prems True by (auto simp: Let_def bind_res_eq_Inr)
    show ?thesis
    proof (cases b)
      case True
      then have "MVRangeCheck (i + 1) (i + GetDOLength d) excludes" "j = i + 1" using b by (auto split: if_splits)
      then show ?thesis by blast
    next
      case False
      then have "find_at ds v i excludes st = Inr (Some (j, k))" using b(2) by simp
      then show ?thesis by (rule Cons.IH)
    qed
  next
    case False
    obtain y :: field where y: "(if do_value d = field_value y \<and> do_type d = field_type y \<and> MVRangeCheck (i + 1) (i + 1) excludes
          then Inr (Some (i + 1, i + 1)) else find_at ds v i excludes st) = Inr (Some (j, k))"
      using Cons.prems False by (auto simp: bind_res_eq_Inr)
    show ?thesis
    proof (cases "do_value d = field_value y \<and> do_type d = field_type y \<and> MVRangeCheck (i + 1) (i + 1) excludes")
      case True
      then show ?thesis using y by auto
    next
      case False
      then have "find_at ds v i excludes st = Inr (Some (j, k))" using y by (simp only: if_False)
      then show ?thesis by (rule Cons.IH)
    qed
  qed
qed simp

lemma found_outside: "find_loop n ds v i excludes st = Inr (Some (j, k)) \<Longrightarrow> i < j \<and> (\<exists>b. MVRangeCheck j b excludes)"
proof (induction n arbitrary: i)
  case (Suc n)
  from Suc.prems obtain found where f: "find_at ds v i excludes st = Inr found"
    "(case found of Some r \<Rightarrow> Inr (Some r) | None \<Rightarrow> find_loop n ds v (i + 1) excludes st) = Inr (Some (j, k))"
    by (auto simp: bind_res_eq_Inr)
  show ?case
  proof (cases found)
    case None
    then show ?thesis using Suc.IH [of "i + 1"] f(2) by auto
  next
    case (Some r)
    then show ?thesis using f found_position [of ds v i excludes st j k] by auto
  qed
qed simp

definition done_range :: "int \<Rightarrow> (int \<times> int) list" where
  "done_range m = (if m < 0 then [] else [(1, m)])"

lemma replaced_length:
  assumes "ReplaceMultiValueField h (Some v) j k r st = Inr (Some d, st')"
  shows "GetDOLength d = GetDOLength v + value_length r - (k - j + 1) \<and> 1 \<le> j \<and> j \<le> k \<and> k \<le> GetDOLength v"
  using assms
  by (auto simp: ReplaceMultiValueField_def source_length_def bad_range_def GetDOLength_def Let_def bind_res_eq_Inr
      split: if_splits prod.splits)

text \<open>
  \<open>m\<close> is the end of the part that has been gone through, where nothing is replaced again, and -1 at the start.
\<close>

function replace_loop :: "'x host \<Rightarrow> dataObject list \<Rightarrow> dataObject \<Rightarrow> int \<Rightarrow> dataObject \<Rightarrow> machine \<Rightarrow> (dataObject \<times> machine) res" where
  "replace_loop h delVals replVal m resultValue st =
     bind_res (FindDOsInSegment delVals resultValue (done_range m) st) (\<lambda>found.
       case found of
         None \<Rightarrow> Inr (resultValue, st)
       | Some (j, k) \<Rightarrow>
           bind_res (ReplaceMultiValueField h (Some resultValue) j k replVal st) (\<lambda>(d, st).
             case d of
               None \<Rightarrow> error_result h st
             | Some d \<Rightarrow> replace_loop h delVals replVal (j + value_length replVal - 1) d st))"
  by pat_completeness auto
termination
proof (relation "measure (\<lambda>(h, ds, r, m, v, st). nat (GetDOLength v - max 0 m))", goal_cases)
  case (2 h ds r m v st found jk j k x d' st' d)
  have f: "find_loop (nat (GetDOLength v)) ds v 0 (done_range m) st = Inr (Some (j, k))"
    using 2 by (simp add: FindDOsInSegment_def)
  from found_outside [OF f] have o: "0 < j" "max 0 m < j"
    by (auto simp: done_range_def MVRangeCheck_def split: if_splits)
  have r: "ReplaceMultiValueField h (Some v) j k r st = Inr (Some d, st')" using 2 by simp
  from replaced_length [OF r] o show ?case by auto
qed simp

declare replace_loop.simps [simp del]

definition ReplaceMemberFunction :: "'x host \<Rightarrow> 'x list \<Rightarrow> machine \<Rightarrow> (dataObject \<times> machine) res" where
  "ReplaceMemberFunction h args st =
     (let (argCnt, st) = EnvArgCountCheck AT_LEAST 3 args st in
      if argCnt = -1 then error_result h st
      else with_arg h args 1 (Exactly MULTIFIELD) (error_result h) Inl (\<lambda>resultValue st.
        case EnvRtnUnknown h args 2 st of
          (None, st) \<Rightarrow> error_result h st
        | (Some replVal, st) \<Rightarrow>
            let (delVals, st) = unknown_args h (drop 2 args) st in
            replace_loop h delVals replVal (-1) resultValue st) st)"

end
