(* ===== verification/MultifieldValues.thy ===== *)
theory MultifieldValues
  imports MultifieldFunctions Tokens "HOL-Library.Sublist"
begin

text \<open>
  The properties of multifield values. \<open>value_fields d st fs\<close> says that a data object is a view of stored fields; the
  specification of each function is on the list \<open>fs\<close>. New segments are made by \<open>built\<close>, which changes nothing else.
\<close>

section \<open>Fields of a segment\<close>

lemma fields_of_length: "fields_of n p i st = Inr fs \<Longrightarrow> length fs = n"
  by (induction n arbitrary: i fs) (auto simp: bind_res_eq_Inr)

lemma fields_of_add:
  "fields_of (m + n) p i st = Inr fs \<longleftrightarrow>
     (\<exists>xs ys. fields_of m p i st = Inr xs \<and> fields_of n p (i + int m) st = Inr ys \<and> fs = xs @ ys)"
proof (induction m arbitrary: i fs)
  case (Suc m)
  show ?case by (auto simp: bind_res_eq_Inr Suc.IH add.assoc)
qed simp

text \<open>The fields of a range of a range.\<close>

lemma fields_of_part:
  assumes "fields_of n p i st = Inr fs" "a + b \<le> n"
  shows "fields_of b p (i + int a) st = Inr (take b (drop a fs))"
proof -
  obtain c where c: "n = a + (b + c)" using assms(2) by (metis le_Suc_ex add.assoc)
  from assms(1) obtain xs ys zs where "fields_of a p i st = Inr xs" "fields_of b p (i + int a) st = Inr ys"
    "fs = xs @ ys @ zs"
    unfolding c by (auto simp: fields_of_add)
  then show ?thesis using fields_of_length by fastforce
qed

lemma get_field_part:
  assumes "fields_of n p i st = Inr fs" "k < n"
  shows "get_field p (i + int k) st = Inr (fs ! k)"
proof -
  have "fields_of 1 p (i + int k) st = Inr (take 1 (drop k fs))"
    by (rule fields_of_part [OF assms(1)]) (use assms(2) in simp)
  then show ?thesis
    using assms fields_of_length [OF assms(1)] by (auto simp: bind_res_eq_Inr Cons_nth_drop_Suc [symmetric])
qed

text \<open>The state in which the segment \<open>p\<close> of length \<open>len\<close> has its first fields, and room for \<open>k\<close> more.\<close>

definition building :: "address \<Rightarrow> int \<Rightarrow> field list \<Rightarrow> nat \<Rightarrow> machine \<Rightarrow> machine" where
  "building p len fs k st = st\<lparr>segments := (segments st)(p := Some \<lparr>busyCount = 0, multifieldLength = len,
     theFields = map Some fs @ replicate k None\<rparr>)\<rparr>"

lemma get_field_building: "q \<noteq> p \<Longrightarrow> get_field q i (building p len fs k st) = get_field q i st"
  by (simp add: get_field_def segment_at_def building_def)

lemma fields_of_building: "q \<noteq> p \<Longrightarrow> fields_of n q i (building p len fs k st) = fields_of n q i st"
  by (induction n arbitrary: i) (simp_all add: get_field_building cong del: bind_res_weak_cong)

lemma set_field_building:
  "set_field p (int (length fs)) f (building p len fs (Suc k) st) = Inr (building p len (fs @ [f]) k st)"
  by (simp add: set_field_def segment_at_def building_def list_update_append)

lemma copy_fields_building:
  assumes "q \<noteq> p" "fields_of n q j st = Inr xs"
  shows "copy_fields n p (int (length fs)) q j (building p len fs (n + k) st) = Inr (building p len (fs @ xs) k st)"
  using assms(2)
proof (induction n arbitrary: fs xs j)
  case (Suc n)
  from Suc.prems obtain f ys where f: "get_field q j st = Inr f" "fields_of n q (j + 1) st = Inr ys" "xs = f # ys"
    by (auto simp: bind_res_eq_Inr)
  have "int (length fs) + 1 = int (length (fs @ [f]))" by simp
  with f Suc.IH [OF f(2), of "fs @ [f]"] show ?case
    by (simp add: get_field_building [OF assms(1)] set_field_building add.commute)
qed simp

lemma store_fields_building:
  "store_fields xs p (int (length fs)) (building p len fs (length xs + k) st) = Inr (building p len (fs @ xs) k st)"
proof (induction xs arbitrary: fs)
  case (Cons x xs)
  have "int (length fs) + 1 = int (length (fs @ [x]))" by simp
  with Cons [of "fs @ [x]"] show ?case by (simp add: set_field_building add.commute)
qed simp

lemma fields_of_built:
  "i + n \<le> length fs \<Longrightarrow> fields_of n p (int i) (building p len fs k st) = Inr (take n (drop i fs))"
proof (induction n arbitrary: i)
  case (Suc n)
  then have "get_field p (int i) (building p len fs k st) = Inr (fs ! i)"
    by (simp add: get_field_def segment_at_def building_def nth_append)
  moreover have "drop i fs = fs ! i # drop (Suc i) fs" using Suc.prems by (simp add: Cons_nth_drop_Suc)
  ultimately show ?case using Suc.IH [of "Suc i"] Suc.prems by (simp add: add.commute)
qed simp

section \<open>Values\<close>

text \<open>\<open>value_fields d st fs\<close>: the multifield value has the fields \<open>fs\<close>, all of them stored.\<close>

definition value_fields :: "dataObject \<Rightarrow> machine \<Rightarrow> field list \<Rightarrow> bool" where
  "value_fields d st fs \<longleftrightarrow> do_type d = MULTIFIELD \<and> GetDOLength d = int (length fs) \<and> 0 \<le> do_begin d
     \<and> fields_of (length fs) (do_value d) (do_begin d) st = Inr fs"

text \<open>The state after a segment with the given fields was made, which is on the garbage list.\<close>

definition built :: "address \<Rightarrow> field list \<Rightarrow> machine \<Rightarrow> machine" where
  "built p fs st = building p (int (length fs)) fs (if fs = [] then 1 else 0) (AddToMultifieldList p st)"

definition whole :: "address \<Rightarrow> field list \<Rightarrow> dataObject" where
  "whole p fs = \<lparr>do_type = MULTIFIELD, do_value = p, do_begin = 0, do_end = int (length fs) - 1\<rparr>"

lemma value_fields_whole: "value_fields (whole p fs) (built p fs st) fs"
  using fields_of_built [of 0 "length fs" fs p]
  by (simp add: value_fields_def whole_def built_def GetDOLength_def)

lemma building_same: "building p len fs k (building p len' fs' k' st) = building p len fs k st"
  by (simp add: building_def)

lemma EnvCreateMultifield_building:
  "EnvCreateMultifield h (int n) st =
     (new_segment h st, building (new_segment h st) (int n) [] (max n 1) (AddToMultifieldList (new_segment h st) st))"
  by (simp add: EnvCreateMultifield_def CreateMultifield2_def AddToMultifieldList_def building_def Let_def)

lemma AddToMultifieldList_simps [simp]:
  "segments (AddToMultifieldList p st) = segments st"
  "get_field q i (AddToMultifieldList p st) = get_field q i st"
  by (simp_all add: AddToMultifieldList_def Let_def get_field_def segment_at_def)

lemma fields_of_add_list [simp]: "fields_of n q i (AddToMultifieldList p st) = fields_of n q i st"
  by (induction n arbitrary: i) (simp_all cong del: bind_res_weak_cong)

section \<open>Copying into a new segment\<close>

lemma copy_into:
  assumes "segments st p = None" "fields_of n q j st = Inr xs" "i = int (length fs)" "m = n + k"
  shows "copy_fields n p i q j (building p len fs m (AddToMultifieldList p' st)) =
    Inr (building p len (fs @ xs) k (AddToMultifieldList p' st))"
proof (cases "n = 0")
  case True
  then show ?thesis using assms by simp
next
  case False
  then obtain n' where "n = Suc n'" using not0_implies_Suc by blast
  with assms(2) have "segments st q \<noteq> None"
    by (auto simp: bind_res_eq_Inr get_field_def segment_at_def split: option.splits)
  with assms(1) have "q \<noteq> p" by auto
  with copy_fields_building [of q p n j "AddToMultifieldList p' st" xs fs len k] assms show ?thesis by simp
qed

lemma value_fields_parts:
  assumes "value_fields d st fs" "a + b \<le> length fs"
  shows "fields_of b (do_value d) (do_begin d + int a) st = Inr (take b (drop a fs))"
  using assms fields_of_part unfolding value_fields_def by blast

lemma source_length_fields: "value_fields d st fs \<Longrightarrow> source_length (Some d) = int (length fs)"
  by (simp add: value_fields_def source_length_def GetDOLength_def)

section \<open>The operations on ranges\<close>

lemma delete_range:
  assumes v: "value_fields d st fs" and fresh: "segments st (new_segment h st) = None"
    and r: "1 \<le> rb" "rb \<le> re" "re \<le> int (length fs)"
  shows "DeleteMultiValueField h (Some d) rb re st =
    (let p = new_segment h st; result = take (nat (rb - 1)) fs @ drop (nat re) fs in
     Inr (Some (whole p result), built p result st))"
proof -
  define p a b where "p = new_segment h st" and "a = nat (rb - 1)" and "b = nat re"
  have ab: "rb = int a + 1" "re = int b" "a < b" "b \<le> length fs" using r by (auto simp: a_def b_def)
  obtain c where c: "length fs = b + c" using ab by (metis le_Suc_ex)
  define result where "result = take a fs @ drop b fs"
  define z :: nat where "z = (if a + c = 0 then 1 else 0)"
  have len: "length result = a + c" using ab c by (simp add: result_def)
  then have z: "max (a + c) 1 = a + (c + z)" "z = (if result = [] then 1 else 0)" by (auto simp: z_def)
  have "fields_of a (do_value d) (do_begin d) st = Inr (take a fs)"
    using value_fields_parts [OF v, of 0 a] ab by simp
  then have c1: "copy_fields a p 0 (do_value d) (do_begin d)
      (building p (int (a + c)) [] (max (a + c) 1) (AddToMultifieldList p st)) =
    Inr (building p (int (a + c)) (take a fs) (c + z) (AddToMultifieldList p st))"
    unfolding z(1) using copy_into [where st = st and fs = "[]" and k = "c + z" and n = a] fresh by (simp add: p_def)
  have "fields_of c (do_value d) (do_begin d + int b) st = Inr (drop b fs)"
    using value_fields_parts [OF v, of b c] c by simp
  then have c2: "copy_fields c p (int a) (do_value d) (do_begin d + int b)
      (building p (int (a + c)) (take a fs) (c + z) (AddToMultifieldList p st)) =
    Inr (building p (int (a + c)) result z (AddToMultifieldList p st))"
    using copy_into [where st = st and fs = "take a fs" and k = z and n = c] fresh ab by (simp add: p_def result_def)
  have nums: "int (length fs) - (int b - int a) = int (a + c)" "nat (int (a + c) - int a) = c" "fs \<noteq> []" using c ab by auto
  have "DeleteMultiValueField h (Some d) rb re st = Inr (Some (whole p result), built p result st)"
    using ab c1 c2 nums
    unfolding DeleteMultiValueField_def source_length_fields [OF v]
    by (simp add: bad_range_def Let_def EnvCreateMultifield_building p_def [symmetric] whole_def built_def len z(2)
        algebra_simps del: of_nat_add)
  then show ?thesis by (simp add: Let_def p_def result_def a_def b_def)
qed

text \<open>The fields that a value of any type stands for.\<close>

definition content :: "dataObject \<Rightarrow> machine \<Rightarrow> field list \<Rightarrow> bool" where
  "content v st fs \<longleftrightarrow> (if do_type v = MULTIFIELD then value_fields v st fs
     else fs = [\<lparr>field_type = do_type v, field_value = do_value v\<rparr>])"

lemma content_length: "content v st fs \<Longrightarrow> value_length v = int (length fs)"
  by (auto simp: content_def value_length_def value_fields_def)

lemma put_value_building:
  assumes "segments st p = None" "content v st ys" "i = int (length fs)" "m = length ys + k"
  shows "put_value v p i (building p len fs m (AddToMultifieldList p' st)) =
    Inr (building p len (fs @ ys) k (AddToMultifieldList p' st))"
proof (cases "do_type v = MULTIFIELD")
  case True
  from True assms(2) have "value_fields v st ys" by (simp add: content_def)
  with True show ?thesis
    using copy_into [OF assms(1), where n = "length ys" and xs = ys and i = i and fs = fs and m = m and k = k] assms(3,4)
    by (simp add: put_value_def value_fields_def)
next
  case False
  then show ?thesis
    using assms set_field_building [where p = p and len = len and fs = fs and k = k] by (auto simp: put_value_def content_def)
qed

text \<open>The three copies that make a new segment.\<close>

lemma three_parts:
  assumes fresh: "segments st p = None"
    and xs: "fields_of (length xs) q j st = Inr xs" and ys: "content v st ys"
    and zs: "fields_of (length zs) q' j' st = Inr zs"
  defines "result \<equiv> xs @ ys @ zs"
  defines "room \<equiv> (if length result = 0 then 1 else 0)"
  defines "at \<equiv> \<lambda>fs k. building p (int (length result)) fs k (AddToMultifieldList p st)"
  shows "copy_fields (length xs) p 0 q j (at [] (max (length result) 1)) = Inr (at xs (length ys + (length zs + room)))"
    and "put_value v p (int (length xs)) (at xs (length ys + (length zs + room))) = Inr (at (xs @ ys) (length zs + room))"
    and "copy_fields (length zs) p (int (length xs) + int (length ys)) q' j' (at (xs @ ys) (length zs + room)) = Inr (built p result st)"
proof -
  have m: "max (length result) 1 = length xs + (length ys + (length zs + room))"
    by (simp only: result_def room_def length_append max_def) arith
  show "copy_fields (length xs) p 0 q j (at [] (max (length result) 1)) = Inr (at xs (length ys + (length zs + room)))"
    unfolding m at_def by (simp add: copy_into [OF fresh xs])
  show "put_value v p (int (length xs)) (at xs (length ys + (length zs + room))) = Inr (at (xs @ ys) (length zs + room))"
    unfolding at_def by (simp add: put_value_building [OF fresh ys])
  show "copy_fields (length zs) p (int (length xs) + int (length ys)) q' j' (at (xs @ ys) (length zs + room)) = Inr (built p result st)"
    unfolding at_def by (simp add: copy_into [OF fresh zs] built_def room_def result_def)
qed

lemma replace_range:
  assumes d: "value_fields d st fs" and v: "content v st ys" and fresh: "segments st (new_segment h st) = None"
    and r: "1 \<le> rb" "rb \<le> re" "re \<le> int (length fs)"
  shows "ReplaceMultiValueField h (Some d) rb re v st =
    (let p = new_segment h st; result = take (nat (rb - 1)) fs @ ys @ drop (nat re) fs in
     Inr (Some (whole p result), built p result st))"
proof -
  define p a b where "p = new_segment h st" and "a = nat (rb - 1)" and "b = nat re"
  have ab: "rb = int a + 1" "re = int b" "a < b" "b \<le> length fs" using r by (auto simp: a_def b_def)
  obtain c where c: "length fs = b + c" using ab by (metis le_Suc_ex)
  have l: "length (take a fs) = a" "length (drop b fs) = c" using ab c by simp_all
  have f: "fields_of (length (take a fs)) (do_value d) (do_begin d) st = Inr (take a fs)"
    "fields_of (length (drop b fs)) (do_value d) (do_begin d + int b) st = Inr (drop b fs)"
    using value_fields_parts [OF d, of 0 a] value_fields_parts [OF d, of b c] ab c l by simp_all
  note steps = three_parts [OF fresh [folded p_def] f(1) v f(2), unfolded l]
  define result where "result = take a fs @ ys @ drop b fs"
  have len: "length result = a + length ys + c" using l by (simp add: result_def)
  have nums: "int (length fs) + int (length ys) - (int b - int a) = int (length result)"
    "int (length fs) + (int (length ys) + int a) - int b = int (length result)"
    "nat (int (length result) - (int a + int (length ys))) = c" using c len by simp_all
  have "ReplaceMultiValueField h (Some d) rb re v st = Inr (Some (whole p result), built p result st)"
    using ab c steps [folded result_def] nums
    unfolding ReplaceMultiValueField_def source_length_fields [OF d] content_length [OF v]
    by (simp add: bad_range_def Let_def EnvCreateMultifield_building p_def [symmetric] whole_def
        algebra_simps del: of_nat_add)
  then show ?thesis by (simp add: Let_def p_def result_def a_def b_def)
qed

lemma insert_at:
  assumes d: "value_fields d st fs" and v: "content v st ys" and fresh: "segments st (new_segment h st) = None"
    and i: "1 \<le> i"
  shows "InsertMultiValueField h (Some d) i v st =
    (let p = new_segment h st; result = take (nat (i - 1)) fs @ ys @ drop (nat (i - 1)) fs in
     Inr (Some (whole p result), built p result st))"
proof -
  define p a where "p = new_segment h st" and "a = min (nat (i - 1)) (length fs)"
  have pos: "(if int (length fs) + 1 < i then int (length fs) + 1 else i) = int a + 1" using i by (auto simp: a_def min_def)
  obtain c where c: "length fs = a + c" by (metis a_def le_Suc_ex min.cobounded2)
  have l: "length (take a fs) = a" "length (drop a fs) = c" using c by simp_all
  have f: "fields_of (length (take a fs)) (do_value d) (do_begin d) st = Inr (take a fs)"
    "fields_of (length (drop a fs)) (do_value d) (do_begin d + int a) st = Inr (drop a fs)"
    using value_fields_parts [OF d, of 0 a] value_fields_parts [OF d, of a c] c l by simp_all
  note steps = three_parts [OF fresh [folded p_def] f(1) v f(2), unfolded l]
  define result where "result = take a fs @ ys @ drop a fs"
  have len: "length result = a + length ys + c" using l by (simp add: result_def)
  have e: "do_end d = do_begin d + int (length fs) - 1" using d by (simp add: value_fields_def GetDOLength_def)
  have nums: "int (length ys) + int (length fs) = int (length result)"
    "nat (do_end d - (do_begin d + int a) + 1) = c" using c len e by simp_all
  have "InsertMultiValueField h (Some d) i v st = Inr (Some (whole p result), built p result st)"
    using i steps [folded result_def]
    unfolding InsertMultiValueField_def source_length_fields [OF d] content_length [OF v] pos
    by (simp add: Let_def EnvCreateMultifield_building p_def [symmetric] whole_def pos nums del: of_nat_add)
  moreover have "take (nat (i - 1)) fs = take a fs" "drop (nat (i - 1)) fs = drop a fs" by (auto simp: a_def min_def)
  ultimately show ?thesis by (simp add: Let_def p_def result_def)
qed

section \<open>Arguments\<close>

text \<open>The arguments have these values, and evaluating them changes nothing.\<close>

definition evaluates :: "'x host \<Rightarrow> 'x list \<Rightarrow> dataObject list \<Rightarrow> machine \<Rightarrow> bool" where
  "evaluates h args vs st \<longleftrightarrow> \<not> EvaluationError st \<and> list_all2 (\<lambda>x v. evaluate h x st = (v, st)) args vs"

lemma evaluates_length: "evaluates h args vs st \<Longrightarrow> length args = length vs"
  unfolding evaluates_def by (blast dest: list_all2_lengthD)

lemma evaluates_nth: "evaluates h args vs st \<Longrightarrow> n < length vs \<Longrightarrow> evaluate h (args ! n) st = (vs ! n, st)"
  by (auto simp: evaluates_def list_all2_conv_all_nth)

lemma evaluates_drop: "evaluates h args vs st \<Longrightarrow> evaluates h (drop n args) (drop n vs) st"
  by (simp add: evaluates_def list_all2_dropI)

lemma EnvRtnUnknown_value:
  assumes "evaluates h args vs st" "n < length vs"
  shows "EnvRtnUnknown h args (Suc n) st = (Some (vs ! n), st)"
proof -
  have "drop n args = args ! n # drop (Suc n) args"
    using assms evaluates_length [OF assms(1)] by (simp add: Cons_nth_drop_Suc)
  then show ?thesis using evaluates_nth [OF assms] by (simp add: EnvRtnUnknown_def)
qed

lemma with_arg_value:
  assumes "evaluates h args vs st" "n < length vs" "fits_type ty (do_type (vs ! n))"
  shows "with_arg h args (Suc n) ty otherwise stop continue st = continue (vs ! n) st"
  using assms EnvRtnUnknown_value [OF assms(1,2)]
  by (simp add: with_arg_def EnvArgTypeCheck_def Let_def evaluates_def)

lemma with_arg_first:
  "evaluates h args (v # vs) st \<Longrightarrow> fits_type ty (do_type v) \<Longrightarrow> with_arg h args (Suc 0) ty otherwise stop continue st = continue v st"
  "evaluates h args (u # v # vs) st \<Longrightarrow> fits_type ty (do_type v) \<Longrightarrow> with_arg h args 2 ty otherwise stop continue st = continue v st"
  "evaluates h args (u # u' # v # vs) st \<Longrightarrow> fits_type ty (do_type v) \<Longrightarrow> with_arg h args 3 ty otherwise stop continue st = continue v st"
  using with_arg_value [of h args "v # vs" st 0 ty otherwise stop continue]
    with_arg_value [of h args "u # v # vs" st 1 ty otherwise stop continue]
    with_arg_value [of h args "u # u' # v # vs" st 2 ty otherwise stop continue]
  by (simp_all add: numeral_2_eq_2 numeral_3_eq_3)

lemma with_arg_mismatch:
  assumes "evaluates h args vs st" "n < length vs" "\<not> fits_type ty (do_type (vs ! n))"
    "{do_type (vs ! n), FLOAT, INTEGER} \<noteq> {FLOAT, INTEGER} \<or> ty \<noteq> Exactly FLOAT \<and> ty \<noteq> Exactly INTEGER"
  shows "with_arg h args (Suc n) ty otherwise stop continue st = otherwise (failed ''ARGACCES5'' st)"
  using assms EnvRtnUnknown_value [OF assms(1,2)]
  by (auto simp: with_arg_def EnvArgTypeCheck_def Let_def evaluates_def)

lemma fits_exactly [simp]: "fits_type (Exactly t) t"
  by (simp add: fits_type_def)

definition integer_object :: "dataObject \<Rightarrow> machine \<Rightarrow> int \<Rightarrow> bool" where
  "integer_object v st n \<longleftrightarrow> do_type v = INTEGER \<and> DOToLong v st = Inr n"

text \<open>The replacement of a call: the last argument, or all that are left.\<close>

lemma new_value_one: "evaluates h [x] [v] st \<Longrightarrow> new_value h [x] st = Inr (v, st)"
  by (simp add: new_value_def evaluates_def)

text \<open>What a call returns if the range is not one of the multifield.\<close>

definition range_failure :: "'x host \<Rightarrow> machine \<Rightarrow> dataObject \<times> machine" where
  "range_failure h st = EnvSetMultifieldErrorValue h (SetEvaluationError True (MVRangeError st))"

text \<open>
  \<open>delete$\<close> returns the fields before and after the range in a new segment, and leaves everything else as it is; if the
  range is empty, or not within the multifield, it returns an empty multifield, with the error flags set.
\<close>

theorem range_deleted:
  assumes "evaluates h args [d, b, e] st" "value_fields d st fs" "integer_object b st rb" "integer_object e st re"
    and "segments st (new_segment h st) = None"
  shows "DeleteFunction h args st =
    (if 1 \<le> rb \<and> rb \<le> re \<and> re \<le> int (length fs)
     then let p = new_segment h st; result = take (nat (rb - 1)) fs @ drop (nat re) fs in
       Inr (whole p result, built p result st)
     else Inr (range_failure h st))"
proof -
  have ty: "do_type d = MULTIFIELD" "do_type b = INTEGER" "do_type e = INTEGER"
    using assms(2-4) by (simp_all add: value_fields_def integer_object_def)
  have l: "DOToLong b st = Inr rb" "DOToLong e st = Inr re" using assms(3,4) by (simp_all add: integer_object_def)
  have "DeleteFunction h args st = or_error h (DeleteMultiValueField h (Some d) rb re st)"
    unfolding DeleteFunction_def
    by (simp add: with_arg_first [OF assms(1)] ty l)
  also have "\<dots> = (if 1 \<le> rb \<and> rb \<le> re \<and> re \<le> int (length fs)
     then let p = new_segment h st; result = take (nat (rb - 1)) fs @ drop (nat re) fs in
       Inr (whole p result, built p result st)
     else Inr (range_failure h st))"
  proof (cases "1 \<le> rb \<and> rb \<le> re \<and> re \<le> int (length fs)")
    case True
    then show ?thesis using delete_range [OF assms(2,5)] by (simp add: or_error_def Let_def)
  next
    case False
    then have "bad_range rb re (int (length fs))" by (auto simp: bad_range_def)
    then show ?thesis
      using False unfolding DeleteMultiValueField_def source_length_fields [OF assms(2)]
      by (auto simp: or_error_def Let_def error_result_def error_value_def range_failure_def)
  qed
  finally show ?thesis .
qed

section \<open>Collecting arguments\<close>

text \<open>What an argument adds to the segment: a void value adds nothing.\<close>

definition arg_fields :: "machine \<Rightarrow> dataObject \<Rightarrow> field list \<Rightarrow> bool" where
  "arg_fields st v fs \<longleftrightarrow> (if do_type v = RVOID then fs = [] else content v st fs)"

lemma arg_fields_length: "arg_fields st v fs \<Longrightarrow> arg_length v = int (length fs)"
  by (auto simp: arg_fields_def arg_length_def content_def value_fields_def split: if_splits)

lemma arg_lengths: "list_all2 (arg_fields st) vs fss \<Longrightarrow> sum_list (map arg_length vs) = int (length (concat fss))"
  by (induction rule: list_all2_induct) (auto simp: arg_fields_length)

lemma store_args_building:
  assumes fresh: "segments st p = None"
  shows "list_all2 (arg_fields st) vs fss \<Longrightarrow>
    store_args vs p (int (length fs)) (building p len fs (length (concat fss) + k) (AddToMultifieldList p' st)) =
      Inr (building p len (fs @ concat fss) k (AddToMultifieldList p' st))"
proof (induction arbitrary: fs rule: list_all2_induct)
  case (Cons v vs xs fss)
  have step: "store_args vs p (int (length fs) + int (length xs))
      (building p len (fs @ xs) (length (concat fss) + k) (AddToMultifieldList p' st)) =
    Inr (building p len (fs @ xs @ concat fss) k (AddToMultifieldList p' st))"
    using Cons.IH [of "fs @ xs"] by simp
  show ?case
  proof (cases "do_type v = MULTIFIELD")
    case True
    with Cons.hyps have v: "value_fields v st xs" by (simp add: arg_fields_def content_def)
    have "copy_fields (length xs) p (int (length fs)) (do_value v) (do_begin v)
        (building p len fs (length xs + (length (concat fss) + k)) (AddToMultifieldList p' st)) =
      Inr (building p len (fs @ xs) (length (concat fss) + k) (AddToMultifieldList p' st))"
      using v by (intro copy_into [OF fresh]) (simp_all add: value_fields_def)
    then show ?thesis using True v step by (simp add: value_fields_def add.assoc del: length_concat)
  next
    case False
    show ?thesis
    proof (cases "do_type v = RVOID")
      case True
      then show ?thesis using Cons.hyps Cons.IH [of fs] by (simp add: arg_fields_def)
    next
      case no: False
      with False Cons.hyps have xs: "xs = [\<lparr>field_type = do_type v, field_value = do_value v\<rparr>]"
        by (simp add: arg_fields_def content_def)
      show ?thesis
        using False no step unfolding xs by (simp add: set_field_building add.assoc del: length_concat)
    qed
  qed
qed simp

lemma eval_args_values: "evaluates h args vs st \<Longrightarrow> eval_args h args st = (Some vs, st)"
proof (induction args arbitrary: vs)
  case (Cons x xs)
  then obtain v ws where "vs = v # ws" "evaluate h x st = (v, st)" "evaluates h xs ws st"
    by (auto simp: evaluates_def list_all2_Cons1)
  then show ?case using Cons.IH [of ws] Cons.prems by (auto simp: evaluates_def)
qed (simp add: evaluates_def)

lemma built_empty: "EnvCreateMultifield h 0 st = (new_segment h st, built (new_segment h st) [] st)"
  using EnvCreateMultifield_building [of h 0 st] by (simp add: built_def)

lemma collected:
  assumes "evaluates h args vs st" "list_all2 (arg_fields st) vs fss" "segments st (new_segment h st) = None"
  shows "StoreInMultifield h args True st =
    Inr (whole (new_segment h st) (concat fss), built (new_segment h st) (concat fss) st)"
proof (cases "args = []")
  case True
  with assms have "concat fss = []" by (auto simp: evaluates_def)
  then show ?thesis using True by (simp add: StoreInMultifield_def built_empty multifield_object_def whole_def del: concat_eq_Nil_conv)
next
  case False
  define p where "p = new_segment h st"
  define room :: nat where "room = (if concat fss = [] then 1 else 0)"
  have m: "max (length (concat fss)) 1 = length (concat fss) + room" by (cases "concat fss") (simp_all add: room_def del: length_concat)
  have "EnvCreateMultifield h (sum_list (map arg_length vs)) st =
      (p, building p (int (length (concat fss))) [] (length (concat fss) + room) (AddToMultifieldList p st))"
    unfolding arg_lengths [OF assms(2)] EnvCreateMultifield_building m p_def ..
  moreover have "store_args vs p 0 (building p (int (length (concat fss))) [] (length (concat fss) + room) (AddToMultifieldList p st)) =
      Inr (building p (int (length (concat fss))) (concat fss) room (AddToMultifieldList p st))"
    using store_args_building [OF assms(3) [folded p_def] assms(2), of "[]"] by simp
  ultimately show ?thesis
    using False eval_args_values [OF assms(1)]
    by (simp add: StoreInMultifield_def Let_def arg_lengths [OF assms(2)] multifield_object_def whole_def p_def
        built_def room_def del: length_concat)
qed

section \<open>What a new segment leaves as it is\<close>

lemma get_field_built: "segments st q \<noteq> None \<Longrightarrow> segments st p = None \<Longrightarrow> get_field q i (built p xs st) = get_field q i st"
  by (cases "q = p") (auto simp: built_def get_field_building)

lemma fields_of_kept:
  assumes "segments st p = None" "fields_of n q i st = Inr fs"
  shows "fields_of n q i (built p xs st) = Inr fs"
  using assms(2)
proof (induction n arbitrary: i fs)
  case (Suc n)
  then obtain f fs' where f: "get_field q i st = Inr f" "fields_of n q (i + 1) st = Inr fs'" "fs = f # fs'"
    by (auto simp: bind_res_eq_Inr)
  from f(1) have "segments st q \<noteq> None" by (auto simp: get_field_def segment_at_def split: option.splits)
  with f Suc.IH [OF f(2)] get_field_built [OF _ assms(1)] show ?case by simp
qed simp

lemma value_fields_kept: "segments st p = None \<Longrightarrow> value_fields d st fs \<Longrightarrow> value_fields d (built p xs st) fs"
  by (simp add: value_fields_def fields_of_kept)

lemma content_kept: "segments st p = None \<Longrightarrow> content d st fs \<Longrightarrow> content d (built p xs st) fs"
  by (auto simp: content_def value_fields_kept)

lemma built_numbers [simp]:
  "ValueToLong q (scanner (built p xs st)) = ValueToLong q (scanner st)"
  "DOToLong v (built p xs st) = DOToLong v st"
  "integer_object v (built p xs st) n = integer_object v st n"
  by (simp_all add: DOToLong_def built_def building_def AddToMultifieldList_def Let_def ValueToLong_def integer_object_def)

lemma built_flags [simp]:
  "EvaluationError (built p xs st) = EvaluationError st" "HaltExecution (built p xs st) = HaltExecution st"
  by (simp_all add: built_def building_def AddToMultifieldList_def Let_def)

lemma built_segments: "segments (built p xs st) q = None \<longleftrightarrow> q \<noteq> p \<and> segments st q = None"
  by (simp add: built_def building_def)

text \<open>The allocator returns an address that is not in use.\<close>

definition makes_room :: "'x host \<Rightarrow> bool" where
  "makes_room h \<longleftrightarrow> (\<forall>st. finite (dom (segments st)) \<longrightarrow> segments st (new_segment h st) = None)"

lemma built_finite [simp]: "finite (dom (segments (built p xs st))) = finite (dom (segments st))"
  by (simp add: built_def building_def)

section \<open>Replacing and inserting\<close>

text \<open>
  The state after the new fields of a call were evaluated: several arguments are collected in a segment, a single one
  is taken as it is.
\<close>

definition given :: "'x host \<Rightarrow> dataObject list \<Rightarrow> machine \<Rightarrow> field list \<Rightarrow> bool" where
  "given h vs st ys \<longleftrightarrow> (case vs of [v] \<Rightarrow> content v st ys | _ \<Rightarrow> vs \<noteq> [] \<and> (\<exists>fss. list_all2 (arg_fields st) vs fss \<and> ys = concat fss))"

definition after_given :: "'x host \<Rightarrow> dataObject list \<Rightarrow> field list \<Rightarrow> machine \<Rightarrow> machine" where
  "after_given h vs ys st = (if length vs = 1 then st else built (new_segment h st) ys st)"

lemma new_value_given:
  assumes "evaluates h args vs st" "given h vs st ys" "segments st (new_segment h st) = None"
  obtains v where "new_value h args st = Inr (v, after_given h vs ys st)" "content v (after_given h vs ys st) ys"
proof (cases "length vs = 1")
  case True
  then obtain v where vs: "vs = [v]" by (cases vs) auto
  with assms(1) obtain x where "args = [x]" by (auto simp: evaluates_def list_all2_Cons2)
  then show ?thesis using that [of v] assms vs by (simp add: after_given_def new_value_one given_def)
next
  case False
  then obtain fss where f: "list_all2 (arg_fields st) vs fss" "ys = concat fss" "vs \<noteq> []"
    using assms(2) by (auto simp: given_def split: list.splits)
  have "new_value h args st = StoreInMultifield h args True st"
    using f(3) False evaluates_length [OF assms(1)] by (auto simp: new_value_def split: list.splits)
  with collected [OF assms(1) f(1) assms(3)] f(2) False show ?thesis
    using that [of "whole (new_segment h st) ys"] value_fields_whole [of "new_segment h st" ys st]
    by (simp add: after_given_def content_def whole_def)
qed

lemma after_given_simps:
  assumes "finite (dom (segments st))" "makes_room h"
  shows "finite (dom (segments (after_given h vs ys st)))"
    "value_fields d st fs \<Longrightarrow> value_fields d (after_given h vs ys st) fs"
    "DOToLong v (after_given h vs ys st) = DOToLong v st"
  using assms by (auto simp: after_given_def makes_room_def value_fields_kept)

text \<open>
  \<open>replace$\<close> returns, in a new segment, the fields with those of the new values in place of the range; if the range
  is empty, or not within the multifield, it returns an empty multifield, with the error flags set. The values are
  evaluated first, in both cases.
\<close>

theorem range_replaced:
  assumes "evaluates h args (d # b # e # vs) st" "value_fields d st fs" "integer_object b st rb" "integer_object e st re"
    and "given h vs st ys" and "makes_room h" "finite (dom (segments st))"
  shows "ReplaceFunction h args st =
    (let st' = after_given h vs ys st; p = new_segment h st';
         result = take (nat (rb - 1)) fs @ ys @ drop (nat re) fs in
     if 1 \<le> rb \<and> rb \<le> re \<and> re \<le> int (length fs) then Inr (whole p result, built p result st')
     else Inr (range_failure h st'))"
proof -
  have ty: "do_type d = MULTIFIELD" "do_type b = INTEGER" "do_type e = INTEGER"
    using assms(2-4) by (simp_all add: value_fields_def integer_object_def)
  have l: "DOToLong b st = Inr rb" "DOToLong e st = Inr re" using assms(3,4) by (simp_all add: integer_object_def)
  note after = after_given_simps [OF assms(7,6)]
  have "evaluates h (drop 3 args) vs st" using evaluates_drop [OF assms(1), of 3] by simp
  from new_value_given [OF this assms(5)] assms(6,7) obtain v where
    v: "new_value h (drop 3 args) st = Inr (v, after_given h vs ys st)" "content v (after_given h vs ys st) ys"
    by (auto simp: makes_room_def)
  have "ReplaceFunction h args st = or_error h (ReplaceMultiValueField h (Some d) rb re v (after_given h vs ys st))"
    unfolding ReplaceFunction_def by (simp add: with_arg_first [OF assms(1)] ty v(1) after l)
  also have "\<dots> = (let st' = after_given h vs ys st; p = new_segment h st';
         result = take (nat (rb - 1)) fs @ ys @ drop (nat re) fs in
     if 1 \<le> rb \<and> rb \<le> re \<and> re \<le> int (length fs) then Inr (whole p result, built p result st')
     else Inr (range_failure h st'))"
  proof (cases "1 \<le> rb \<and> rb \<le> re \<and> re \<le> int (length fs)")
    case True
    have "segments (after_given h vs ys st) (new_segment h (after_given h vs ys st)) = None"
      using after(1) assms(6) by (simp add: makes_room_def)
    from replace_range [OF after(2) [OF assms(2)] v(2) this] True show ?thesis by (simp add: or_error_def Let_def)
  next
    case False
    then have "bad_range rb re (int (length fs))" by (auto simp: bad_range_def)
    then show ?thesis
      using False unfolding ReplaceMultiValueField_def source_length_fields [OF assms(2)]
      by (auto simp: or_error_def Let_def error_result_def error_value_def range_failure_def)
  qed
  finally show ?thesis .
qed

text \<open>
  \<open>insert$\<close> returns, in a new segment, the fields with those of the new values before the given position, or at the
  end if the position is beyond it; a position below 1 is an error.
\<close>

theorem values_inserted:
  assumes "evaluates h args (d # b # vs) st" "value_fields d st fs" "integer_object b st i"
    and "given h vs st ys" and "makes_room h" "finite (dom (segments st))"
  shows "InsertFunction h args st =
    (let st' = after_given h vs ys st; p = new_segment h st';
         result = take (nat (i - 1)) fs @ ys @ drop (nat (i - 1)) fs in
     if 1 \<le> i then Inr (whole p result, built p result st') else Inr (range_failure h st'))"
proof -
  have ty: "do_type d = MULTIFIELD" "do_type b = INTEGER"
    using assms(2,3) by (simp_all add: value_fields_def integer_object_def)
  have l: "DOToLong b st = Inr i" using assms(3) by (simp add: integer_object_def)
  note after = after_given_simps [OF assms(6,5)]
  have "evaluates h (drop 2 args) vs st" using evaluates_drop [OF assms(1), of 2] by simp
  from new_value_given [OF this assms(4)] assms(5,6) obtain v where
    v: "new_value h (drop 2 args) st = Inr (v, after_given h vs ys st)" "content v (after_given h vs ys st) ys"
    by (auto simp: makes_room_def)
  have "InsertFunction h args st = or_error h (InsertMultiValueField h (Some d) i v (after_given h vs ys st))"
    unfolding InsertFunction_def by (simp add: with_arg_first(1,2) [OF assms(1)] ty v(1) after l)
  also have "\<dots> = (let st' = after_given h vs ys st; p = new_segment h st';
         result = take (nat (i - 1)) fs @ ys @ drop (nat (i - 1)) fs in
     if 1 \<le> i then Inr (whole p result, built p result st') else Inr (range_failure h st'))"
  proof (cases "1 \<le> i")
    case True
    have "segments (after_given h vs ys st) (new_segment h (after_given h vs ys st)) = None"
      using after(1) assms(5) by (simp add: makes_room_def)
    from insert_at [OF after(2) [OF assms(2)] v(2) this True] True show ?thesis by (simp add: or_error_def Let_def)
  next
    case False
    then show ?thesis
      by (auto simp: InsertMultiValueField_def or_error_def Let_def error_result_def error_value_def range_failure_def)
  qed
  finally show ?thesis .
qed

section \<open>Parts of a multifield\<close>

lemma part_of_value:
  assumes "value_fields d st fs" "a + b \<le> length fs"
    "x = do_begin d + int a + 1" "y = do_begin d + int a + int b"
  shows "value_fields (multifield_object (do_value d) x y) st (take b (drop a fs))"
  using assms value_fields_parts [OF assms(1,2)]
  by (simp add: value_fields_def multifield_object_def GetDOLength_def algebra_simps)

lemma bounds_of_value: "value_fields d st fs \<Longrightarrow> do_type d = MULTIFIELD \<and> GetDOBegin d = do_begin d + 1
    \<and> GetDOEnd d = do_begin d + int (length fs) \<and> GetDOLength d = int (length fs)"
  by (simp add: value_fields_def GetDOBegin_def GetDOEnd_def GetDOLength_def)

lemma first_shared:
  assumes "evaluates h args (d # vs) st" "value_fields d st fs"
  shows "\<exists>r. FirstFunction h args st = Inr (r, st) \<and> do_value r = do_value d \<and> value_fields r st (take 1 fs)"
  unfolding FirstFunction_def using bounds_of_value [OF assms(2)] part_of_value [OF assms(2), of 0 "min 1 (length fs)"]
  by (cases fs) (simp_all add: with_arg_first(1) [OF assms(1)] multifield_object_def)

lemma rest_shared:
  assumes "evaluates h args (d # vs) st" "value_fields d st fs"
  shows "\<exists>r. RestFunction h args st = Inr (r, st) \<and> do_value r = do_value d \<and> value_fields r st (drop 1 fs)"
  unfolding RestFunction_def
  using bounds_of_value [OF assms(2)] part_of_value [OF assms(2), of "min 1 (length fs)" "length fs - 1"]
  by (cases fs) (simp_all add: with_arg_first(1) [OF assms(1)] multifield_object_def algebra_simps)

text \<open>
  \<open>subseq$\<close> returns a view of the segment of its argument, which has the fields of the range as far as they are there,
  and changes nothing; if the range has nothing in common with the multifield it returns an empty one, and sets no error
  flag.
\<close>

theorem subsequence_shared:
  assumes "evaluates h args [d, b, e] st" "value_fields d st fs" "integer_object b st lo" "integer_object e st hi"
  shows "if 1 \<le> hi \<and> lo \<le> hi \<and> lo \<le> int (length fs)
     then \<exists>r. SubseqFunction h args st = Inr (r, st) \<and> do_value r = do_value d
       \<and> value_fields r st (take (nat (hi - max lo 1 + 1)) (drop (nat (lo - 1)) fs))
     else SubseqFunction h args st = Inr (EnvSetMultifieldErrorValue h st)"
proof -
  note b = bounds_of_value [OF assms(2)] and args = assms(1) and i = assms(3,4)
  have ty: "do_type b = INTEGER" "do_type e = INTEGER" "DOToLong b st = Inr lo" "DOToLong e st = Inr hi"
    using i by (simp_all add: integer_object_def)
  have s: "SubseqFunction h args st =
     (if hi < 1 \<or> hi < lo then error_value h st else subsequence h d lo hi st)"
    unfolding SubseqFunction_def by (simp add: with_arg_first [OF args] ty b)
  show ?thesis
  proof (cases "1 \<le> hi \<and> lo \<le> hi \<and> lo \<le> int (length fs)")
    case True
    define m where "m = min (int (length fs)) hi"
    define a where "a = nat (lo - 1)"
    have lim: "(if int (length fs) < hi then int (length fs) else hi) = m" "(if lo < 1 then 1 else lo) = int a + 1"
      by (auto simp: m_def a_def)
    have m: "0 \<le> m" "m \<le> int (length fs)" using True by (auto simp: m_def)
    define c where "c = nat m - a"
    have ac: "a + c \<le> length fs \<and> (a \<le> nat m \<longrightarrow> m = int a + int c)" using m True by (auto simp: c_def a_def)
    have am: "a \<le> nat m" using True by (auto simp: a_def m_def)
    have t: "take (nat (hi - max lo 1 + 1)) (drop a fs) = take c (drop a fs)"
    proof (cases "hi \<le> int (length fs)")
      case True
      with \<open>1 \<le> hi \<and> lo \<le> hi \<and> lo \<le> int (length fs)\<close> have "nat (hi - max lo 1 + 1) = c"
        unfolding c_def a_def m_def by arith
      then show ?thesis by simp
    next
      case False
      then show ?thesis by (simp add: c_def a_def m_def)
    qed
    have "value_fields (multifield_object (do_value d) (do_begin d + int a + 1) (do_begin d + int a + int c)) st (take c (drop a fs))"
      by (rule part_of_value [OF assms(2)]) (use ac in auto)
    moreover have "subsequence h d lo hi st = Inr (multifield_object (do_value d) (do_begin d + int a + 1) (do_begin d + int a + int c), st)"
      using True b ac am lim by (simp add: subsequence_def Let_def algebra_simps)
    ultimately show ?thesis using True s t by (auto simp: multifield_object_def a_def)
  next
    case False
    then show ?thesis using s b by (auto simp: subsequence_def Let_def error_value_def)
  qed
qed

lemma nth_field:
  assumes "evaluates h args [b, d] st" "value_fields d st fs" "integer_object b st n" "1 \<le> n" "n \<le> int (length fs)"
  shows "NthFunction h args st = Inr (\<lparr>do_type = field_type (fs ! nat (n - 1)), do_value = field_value (fs ! nat (n - 1)),
    do_begin = 0, do_end = 0\<rparr>, st)"
proof -
  note b = bounds_of_value [OF assms(2)]
  have ty: "do_type b = INTEGER" "DOToLong b st = Inr n" using assms(3) by (simp_all add: integer_object_def)
  define k where "k = nat (n - 1)"
  have k: "n = int k + 1" "k < length fs" using assms(4,5) by (auto simp: k_def)
  have "get_field (do_value d) (do_begin d + int k) st = Inr (fs ! k)"
    using assms(2) k get_field_part [of "length fs"] by (simp add: value_fields_def)
  then show ?thesis
    using b ty k evaluates_length [OF assms(1)]
    by (simp add: NthFunction_def EnvArgCountCheck_def EnvRtnArgCount_def with_arg_first(1,2) [OF assms(1)] add.commute)
qed

section \<open>Searching\<close>

lemma match_fields_prefix:
  "fields_of n p a st = Inr w \<Longrightarrow> fields_of room q b st = Inr ys \<Longrightarrow> match_fields n room p a q b st = Inr (prefix w ys)"
proof (induction n room p a q b st arbitrary: w ys rule: match_fields.induct)
  case (2 n p a q b st)
  then have "w \<noteq> []" "ys = []" by (auto simp: bind_res_eq_Inr)
  then show ?case by simp
next
  case (3 n room p a q b st)
  from 3(2,3) obtain x w' y ys' where xy: "get_field p a st = Inr x" "fields_of n p (a + 1) st = Inr w'" "w = x # w'"
    "get_field q b st = Inr y" "fields_of room q (b + 1) st = Inr ys'" "ys = y # ys'"
    by (auto simp: bind_res_eq_Inr)
  then show ?case
    using 3(1) [OF _ _ _ xy(2,5)] field.equality [of x y] by (auto simp del: bind_res_weak_cong)
qed simp

text \<open>The values that are searched for, as lists of fields; the first run is the leftmost, of the first value that fits.\<close>

abbreviation values_of :: "machine \<Rightarrow> dataObject list \<Rightarrow> field list list \<Rightarrow> bool" where
  "values_of st \<equiv> list_all2 (\<lambda>d. content d st)"

fun first_run :: "'a list list \<Rightarrow> 'a list \<Rightarrow> (nat \<times> 'a list) option" where
  "first_run ws [] = None"
| "first_run ws (y # ys) =
     (case List.find (\<lambda>w. prefix w (y # ys)) ws of
        Some w \<Rightarrow> Some (0, w)
      | None \<Rightarrow> map_option (\<lambda>(k, w). (Suc k, w)) (first_run ws ys))"

lemma find_at_run:
  assumes "fields_of m (do_value v) (i + do_begin v) st = Inr ys" "m = nat (GetDOLength v - i)" "0 < m"
  shows "values_of st ds ws \<Longrightarrow>
    find_at ds v i excludes st = Inr (map_option (\<lambda>w. (i + 1, i + int (length w)))
      (List.find (\<lambda>w. prefix w ys \<and> MVRangeCheck (i + 1) (i + int (length w)) excludes) ws))"
proof (induction rule: list_all2_induct)
  case (Cons d ds w ws)
  show ?case
  proof (cases "do_type d = MULTIFIELD")
    case True
    with Cons.hyps have d: "value_fields d st w" by (simp add: content_def)
    then have l: "GetDOLength d = int (length w)" "fields_of (length w) (do_value d) (do_begin d) st = Inr w"
      by (simp_all add: value_fields_def)
    show ?thesis
      using True l Cons.IH match_fields_prefix [OF l(2) assms(1)] assms(2)
      by (cases "prefix w ys \<and> MVRangeCheck (i + 1) (i + int (length w)) excludes") (auto simp: Let_def)
  next
    case False
    with Cons.hyps have w: "w = [\<lparr>field_type = do_type d, field_value = do_value d\<rparr>]" by (simp add: content_def)
    obtain m' where "m = Suc m'" using assms(3) not0_implies_Suc by blast
    with assms(1) obtain y ys' where y: "get_field (do_value v) (i + do_begin v) st = Inr y" "ys = y # ys'"
      by (auto simp: bind_res_eq_Inr)
    have "prefix w ys \<longleftrightarrow> do_value d = field_value y \<and> do_type d = field_type y"
      using field.equality [of y "\<lparr>field_type = do_type d, field_value = do_value d\<rparr>"] by (auto simp: w y)
    then show ?thesis
      using False y Cons.IH by (simp add: w)
  qed
qed simp

lemma find_loop_run:
  assumes v: "value_fields v st fs" and ds: "values_of st ds ws"
    and past: "\<forall>w \<in> set ws. \<forall>k < length fs. MVRangeCheck (int k + 1) (int k + int (length w)) excludes \<longleftrightarrow> done \<le> k"
  shows "i + n = length fs \<Longrightarrow> find_loop n ds v (int i) excludes st =
    Inr (map_option (\<lambda>(k, w). (int (max i done + k) + 1, int (max i done + k) + int (length w)))
      (first_run ws (drop (max i done) fs)))"
proof (induction n arbitrary: i)
  case (Suc n)
  have l: "GetDOLength v = int (length fs)" using v by (simp add: value_fields_def)
  have i: "i < length fs" using Suc.prems by simp
  have f: "fields_of (Suc n) (do_value v) (int i + do_begin v) st = Inr (drop i fs)"
    using value_fields_parts [OF v, of i "Suc n"] Suc.prems by (simp add: add.commute del: fields_of.simps)
  have at: "find_at ds v (int i) excludes st = Inr (map_option (\<lambda>w. (int i + 1, int i + int (length w)))
      (List.find (\<lambda>w. prefix w (drop i fs) \<and> MVRangeCheck (int i + 1) (int i + int (length w)) excludes) ws))"
    by (rule find_at_run [OF f _ _ ds]) (use l Suc.prems in auto)
  have same: "List.find (\<lambda>w. prefix w (drop i fs) \<and> MVRangeCheck (int i + 1) (int i + int (length w)) excludes) ws =
      (if done \<le> i then List.find (\<lambda>w. prefix w (drop i fs)) ws else None)"
    using past i by (auto simp: find_None_iff cong: find_cong)
  note found = at [unfolded same]
  have IH: "find_loop n ds v (int i + 1) excludes st =
    Inr (map_option (\<lambda>(k, w). (int (max (Suc i) done + k) + 1, int (max (Suc i) done + k) + int (length w)))
      (first_run ws (drop (max (Suc i) done) fs)))"
    using Suc.IH [of "Suc i"] Suc.prems by (simp add: add.commute)
  have d: "drop i fs = fs ! i # drop (Suc i) fs" using i by (simp add: Cons_nth_drop_Suc)
  show ?case
  proof (cases "done \<le> i")
    case False
    then have "max (Suc i) done = max i done" by simp
    with False show ?thesis by (simp add: found IH)
  next
    case True
    then have m: "max i done = i" "max (Suc i) done = Suc i" by simp_all
    show ?thesis
    proof (cases "List.find (\<lambda>w. prefix w (drop i fs)) ws")
      case None
      then show ?thesis
        using True by (simp add: found IH m d option.map_comp comp_def case_prod_beta del: prefix_Cons)
          (auto intro!: option.map_cong0 simp: algebra_simps)
    next
      case (Some w)
      then show ?thesis using True by (simp add: found m d del: prefix_Cons)
    qed
  qed
qed simp

lemma find_run:
  assumes "value_fields v st fs" "values_of st ds ws"
  shows "FindDOsInSegment ds v [] st =
    Inr (map_option (\<lambda>(k, w). (int k + 1, int k + int (length w))) (first_run ws fs))"
  using find_loop_run [OF assms, of "[]" 0 0 "length fs"] assms(1)
  by (simp add: FindDOsInSegment_def MVRangeCheck_def value_fields_def)

lemma first_run_Some:
  "first_run ws fs = Some (k, w) \<Longrightarrow> w \<in> set ws \<and> (\<exists>xs zs. fs = xs @ w @ zs \<and> length xs = k
     \<and> (\<forall>f \<in> set xs. [f] \<notin> set ws))"
proof (induction ws fs arbitrary: k w rule: first_run.induct)
  case (2 ws y ys)
  show ?case
  proof (cases "List.find (\<lambda>w. prefix w (y # ys)) ws")
    case None
    with 2(2) obtain k' where k': "first_run ws ys = Some (k', w)" "k = Suc k'" by auto
    have "[y] \<notin> set ws" using None by (auto simp: find_None_iff)
    from 2(1) [OF None k'(1)] obtain xs zs where "w \<in> set ws" "ys = xs @ w @ zs" "length xs = k'" "\<forall>f \<in> set xs. [f] \<notin> set ws"
      by blast
    then show ?thesis using k'(2) \<open>[y] \<notin> set ws\<close> by (intro conjI exI [of _ "y # xs"] exI [of _ zs]) auto
  next
    case (Some w')
    with 2(2) have "w' = w" "k = 0" by simp_all
    moreover have "w' \<in> set ws \<and> prefix w' (y # ys)" using Some by (auto simp: find_Some_iff)
    ultimately show ?thesis by (auto simp: prefix_def intro!: exI [of _ "[]"])
  qed
qed simp

lemma first_run_None: "first_run ws fs = None \<Longrightarrow> w \<in> set ws \<Longrightarrow> w \<noteq> [] \<Longrightarrow> \<not> sublist w fs"
  by (induction ws fs rule: first_run.induct) (auto simp: sublist_Cons_right find_None_iff split: option.splits)

section \<open>Deleting members\<close>

text \<open>States that differ by segments that were made since, all of them on the garbage list.\<close>

inductive grows :: "'x host \<Rightarrow> machine \<Rightarrow> machine \<Rightarrow> bool" for h st where
  grows_refl: "grows h st st"
| grows_built: "grows h st st' \<Longrightarrow> p = new_segment h st' \<Longrightarrow> grows h st (built p xs st')"

lemma grows_trans: "grows h st2 st3 \<Longrightarrow> grows h st1 st2 \<Longrightarrow> grows h st1 st3"
  by (induction rule: grows.induct) (auto intro: grows.intros)

lemma grows_kept:
  assumes "grows h st st'" "makes_room h" "finite (dom (segments st))"
  shows "finite (dom (segments st'))" "value_fields d st fs \<Longrightarrow> value_fields d st' fs"
    "content d st fs \<Longrightarrow> content d st' fs" "ValueToLong q (scanner st') = ValueToLong q (scanner st)"
    "EvaluationError st' = EvaluationError st"
  using assms by (induction rule: grows.induct) (auto simp: makes_room_def value_fields_kept content_kept)

lemma grows_values:
  "grows h st st' \<Longrightarrow> makes_room h \<Longrightarrow> finite (dom (segments st)) \<Longrightarrow> values_of st ds ws \<Longrightarrow> values_of st' ds ws"
  by (erule list_all2_mono) (auto intro: grows_kept(3))

text \<open>The specification: the first run is cut out until there is none.\<close>

inductive cuts :: "'a list list \<Rightarrow> 'a list \<Rightarrow> 'a list \<Rightarrow> bool" for ws where
  cuts_done: "first_run ws fs = None \<Longrightarrow> cuts ws fs fs"
| cuts_step: "first_run ws fs = Some (k, w) \<Longrightarrow> cuts ws (take k fs @ drop (k + length w) fs) fs' \<Longrightarrow> cuts ws fs fs'"

lemma cuts_subseq: "cuts ws fs fs' \<Longrightarrow> subseq fs' fs"
proof (induction rule: cuts.induct)
  case (cuts_step fs k w fs')
  have "subseq (take k fs @ drop (k + length w) fs) (take k fs @ drop k fs)"
    by (intro list_emb_append_mono) (auto simp: add.commute [of k] drop_drop [symmetric] simp del: drop_drop)
  with cuts_step.IH show ?case by (simp add: subseq_order.order_trans)
qed simp

lemma cuts_none_left: "cuts ws fs fs' \<Longrightarrow> w \<in> set ws \<Longrightarrow> w \<noteq> [] \<Longrightarrow> \<not> sublist w fs'"
  by (induction rule: cuts.induct) (auto dest: first_run_None)

lemma cuts_filter: "cuts ws fs fs' \<Longrightarrow> \<forall>w \<in> set ws. length w = 1 \<Longrightarrow> fs' = filter (\<lambda>f. [f] \<notin> set ws) fs"
proof (induction rule: cuts.induct)
  case (cuts_done fs)
  have "[f] \<notin> set ws" if "f \<in> set fs" for f
    using first_run_None [OF cuts_done(1), of "[f]"] that by (auto simp: sublist_def in_set_conv_decomp)
  then show ?case by (simp add: filter_id_conv)
next
  case (cuts_step fs k w fs')
  from first_run_Some [OF cuts_step(1)] obtain xs zs where f: "w \<in> set ws" "fs = xs @ w @ zs" "length xs = k" by auto
  with cuts_step(4) obtain f where w: "w = [f]" by (auto simp: length_Suc_conv)
  have "fs' = filter (\<lambda>f. [f] \<notin> set ws) (xs @ zs)" using cuts_step.IH cuts_step(4) f by auto
  with f w show ?case by simp
qed

lemma delete_loop_cuts:
  assumes room: "makes_room h" and ws: "\<forall>w \<in> set ws. w \<noteq> []"
  shows "value_fields d st fs \<Longrightarrow> values_of st ds ws \<Longrightarrow> finite (dom (segments st)) \<Longrightarrow>
    \<exists>r st' fs'. delete_loop h ds d st = Inr (r, st') \<and> grows h st st' \<and> value_fields r st' fs' \<and> cuts ws fs fs'"
proof (induction "length fs" arbitrary: d st fs rule: less_induct)
  case less
  note f = find_run [OF less.prems(1,2)]
  show ?case
  proof (cases "first_run ws fs")
    case None
    then show ?thesis
      using f less.prems(1) by (subst delete_loop.simps) (auto intro: grows_refl cuts_done)
  next
    case (Some r)
    then obtain k w where r: "first_run ws fs = Some (k, w)" by (cases r) auto
    from first_run_Some [OF r] obtain xs zs where run: "w \<in> set ws" "fs = xs @ w @ zs" "length xs = k" by auto
    with ws have w: "w \<noteq> []" by auto
    define p where "p = new_segment h st"
    define cut where "cut = take k fs @ drop (k + length w) fs"
    have fresh: "segments st p = None" using room less.prems(3) by (simp add: makes_room_def p_def)
    have n: "nat (int k + int (length w)) = k + length w" by simp
    have w1: "1 \<le> length w" using w by (cases w) simp_all
    have "DeleteMultiValueField h (Some d) (int k + 1) (int k + int (length w)) st = Inr (Some (whole p cut), built p cut st)"
      using delete_range [OF less.prems(1), of h "int k + 1" "int k + int (length w)"] fresh run w1 n
      by (auto simp: p_def [symmetric] Let_def cut_def)
    then have step: "delete_loop h ds d st = delete_loop h ds (whole p cut) (built p cut st)"
      using f by (subst delete_loop.simps) (simp add: r)
    have "length cut < length fs" using run w by (simp add: cut_def)
    moreover have g: "grows h st (built p cut st)" by (intro grows_built grows_refl) (simp add: p_def)
    ultimately obtain r st' fs' where "delete_loop h ds (whole p cut) (built p cut st) = Inr (r, st')"
      "grows h (built p cut st) st'" "value_fields r st' fs'" "cuts ws cut fs'"
      using less.hyps [OF _ value_fields_whole [of p cut st] grows_values [OF g room less.prems(3,2)]] less.prems(3) by auto
    then show ?thesis using step grows_trans [OF _ g] cuts_step [OF r] by (auto simp: cut_def)
  qed
qed

lemma unknown_args_values: "list_all2 (\<lambda>x v. evaluate h x st = (v, st)) args vs \<Longrightarrow> unknown_args h args st = (vs, st)"
  by (induction rule: list_all2_induct) simp_all

lemma evaluates_unknown: "evaluates h args vs st \<Longrightarrow> unknown_args h (drop n args) st = (drop n vs, st)"
  using unknown_args_values [of h st "drop n args" "drop n vs"] evaluates_drop [of h args vs st n] by (simp add: evaluates_def)

text \<open>
  C11: \<open>delete-member$\<close> deletes runs of fields until none of the given values is left as a run, that is to say all fields
  equal to one of the values if each has one field. The segments of the arguments keep their fields. The values have to
  have a field each.
\<close>

theorem members_deleted:
  assumes "evaluates h args (d # v # vs) st" "value_fields d st fs" "values_of st (v # vs) ws" "\<forall>w \<in> set ws. w \<noteq> []"
    and "makes_room h" "finite (dom (segments st))"
  shows "\<exists>r st' fs'. DeleteMemberFunction h args st = Inr (r, st') \<and> grows h st st' \<and> value_fields r st' fs'
    \<and> subseq fs' fs \<and> (\<forall>w \<in> set ws. \<not> sublist w fs')
    \<and> ((\<forall>w \<in> set ws. length w = 1) \<longrightarrow> fs' = filter (\<lambda>f. [f] \<notin> set ws) fs)"
proof -
  have "do_type d = MULTIFIELD" using assms(2) by (simp add: value_fields_def)
  then have "DeleteMemberFunction h args st = delete_loop h (v # vs) d st"
    using evaluates_length [OF assms(1)] evaluates_unknown [OF assms(1), of 1]
    by (simp add: DeleteMemberFunction_def EnvArgCountCheck_def EnvRtnArgCount_def with_arg_first(1) [OF assms(1)])
  with delete_loop_cuts [OF assms(5,4,2,3,6)] obtain r st' fs' where
    r: "DeleteMemberFunction h args st = Inr (r, st')" "grows h st st'" "value_fields r st' fs'" "cuts ws fs fs'"
    by auto
  show ?thesis
    using r cuts_subseq [OF r(4)] cuts_none_left [OF r(4)] cuts_filter [OF r(4)] assms(4)
    by (intro exI [of _ r] exI [of _ st'] exI [of _ fs']) simp
qed

section \<open>Replacing members\<close>

text \<open>The specification: one pass from the left, the new fields are not looked at again.\<close>

function replace_runs :: "'a list list \<Rightarrow> 'a list \<Rightarrow> 'a list \<Rightarrow> 'a list" where
  "replace_runs ws ys [] = []"
| "replace_runs ws ys (f # fs) =
     (case List.find (\<lambda>w. prefix w (f # fs)) ws of
        None \<Rightarrow> f # replace_runs ws ys fs
      | Some w \<Rightarrow> ys @ replace_runs ws ys (drop (length w - 1) fs))"
  by pat_completeness auto
termination
  by (relation "measure (\<lambda>(ws, ys, fs). length fs)") auto

lemma replace_runs_None: "first_run ws fs = None \<Longrightarrow> replace_runs ws ys fs = fs"
  by (induction ws fs rule: first_run.induct) (auto split: option.splits)

lemma replace_runs_Some:
  "first_run ws fs = Some (k, w) \<Longrightarrow> w \<noteq> [] \<Longrightarrow> replace_runs ws ys fs = take k fs @ ys @ replace_runs ws ys (drop (k + length w) fs)"
proof (induction ws fs arbitrary: k w rule: first_run.induct)
  case (2 ws f fs)
  show ?case
  proof (cases "List.find (\<lambda>w. prefix w (f # fs)) ws")
    case None
    with 2(2) obtain k' where k': "first_run ws fs = Some (k', w)" "k = Suc k'" by auto
    with 2(1) [OF None k'(1) 2(3)] None show ?thesis by simp
  next
    case (Some w')
    with 2(2) have "w' = w" "k = 0" by simp_all
    with Some 2(3) show ?thesis by (cases w) simp_all
  qed
qed simp

lemma replace_single: "\<forall>w \<in> set ws. length w = 1 \<Longrightarrow>
    replace_runs ws ys fs = concat (map (\<lambda>f. if [f] \<in> set ws then ys else [f]) fs)"
proof (induction fs)
  case (Cons f fs)
  show ?case
  proof (cases "List.find (\<lambda>w. prefix w (f # fs)) ws")
    case None
    then have "[f] \<notin> set ws" by (auto simp: find_None_iff)
    with None Cons show ?thesis by simp
  next
    case (Some w)
    then have "w \<in> set ws" "prefix w (f # fs)" by (auto simp: find_Some_iff)
    with Cons.prems have "w = [f]" by (auto simp: length_Suc_conv)
    with Some Cons \<open>w \<in> set ws\<close> show ?thesis by simp
  qed
qed simp

lemma past_done:
  "1 \<le> length w \<Longrightarrow> m = int (length pre) \<or> m = -1 \<and> pre = [] \<Longrightarrow>
    MVRangeCheck (int k + 1) (int k + int (length w)) (done_range m) \<longleftrightarrow> length pre \<le> k"
  by (auto simp: MVRangeCheck_def done_range_def)

lemma replace_loop_runs:
  assumes room: "makes_room h" and ws: "\<forall>w \<in> set ws. w \<noteq> []"
  shows "value_fields d st (pre @ fs) \<Longrightarrow> values_of st ds ws \<Longrightarrow> content v st ys \<Longrightarrow> finite (dom (segments st))
    \<Longrightarrow> m = int (length pre) \<or> m = -1 \<and> pre = [] \<Longrightarrow>
    \<exists>r st'. replace_loop h ds v m d st = Inr (r, st') \<and> grows h st st' \<and> value_fields r st' (pre @ replace_runs ws ys fs)"
proof (induction "length fs" arbitrary: d st pre fs m rule: less_induct)
  case less
  have "\<forall>w \<in> set ws. \<forall>k < length (pre @ fs). MVRangeCheck (int k + 1) (int k + int (length w)) (done_range m) \<longleftrightarrow> length pre \<le> k"
    using past_done ws less.prems(5) by (metis One_nat_def Suc_leI length_greater_0_conv)
  from find_loop_run [OF less.prems(1,2) this, of 0 "length (pre @ fs)"]
  have f: "FindDOsInSegment ds d (done_range m) st =
    Inr (map_option (\<lambda>(k, w). (int (length pre + k) + 1, int (length pre + k) + int (length w))) (first_run ws fs))"
    using less.prems(1) by (simp add: FindDOsInSegment_def value_fields_def nat_int_add)
  show ?case
  proof (cases "first_run ws fs")
    case None
    then show ?thesis
      using f less.prems(1) by (subst replace_loop.simps) (auto intro: grows_refl simp: replace_runs_None)
  next
    case (Some r)
    then obtain k w where r: "first_run ws fs = Some (k, w)" by (cases r) auto
    from first_run_Some [OF r] obtain xs zs where run: "w \<in> set ws" "fs = xs @ w @ zs" "length xs = k" by auto
    with ws have w: "w \<noteq> []" by auto
    then have w1: "1 \<le> length w" by (cases w) simp_all
    define p where "p = new_segment h st"
    define new where "new = pre @ xs @ ys @ zs"
    have fresh: "segments st p = None" using room less.prems(4) by (simp add: makes_room_def p_def)
    have n: "nat (int (length pre) + int k + int (length w)) = length pre + k + length w"
      "nat (int (length pre) + int k) = length pre + k" by simp_all
    have "ReplaceMultiValueField h (Some d) (int (length pre + k) + 1) (int (length pre + k) + int (length w)) v st
        = Inr (Some (whole p new), built p new st)"
      using replace_range [OF less.prems(1,3), of h "int (length pre + k) + 1" "int (length pre + k) + int (length w)"] fresh w1 n run
      by (simp add: p_def [symmetric] Let_def new_def)
    then have step: "replace_loop h ds v m d st =
        replace_loop h ds v (int (length (pre @ xs @ ys))) (whole p new) (built p new st)"
      using f content_length [OF less.prems(3)] run(3) by (subst replace_loop.simps) (simp add: r add.assoc)
    have g: "grows h st (built p new st)" by (intro grows_built grows_refl) (simp add: p_def)
    have "length zs < length fs" using run w by simp
    moreover have "value_fields (whole p new) (built p new st) ((pre @ xs @ ys) @ zs)"
      using value_fields_whole [of p new st] by (simp add: new_def)
    ultimately obtain r st' where "replace_loop h ds v (int (length (pre @ xs @ ys))) (whole p new) (built p new st) = Inr (r, st')"
      "grows h (built p new st) st'" "value_fields r st' ((pre @ xs @ ys) @ replace_runs ws ys zs)"
      using less.hyps [of zs "whole p new" "built p new st" "pre @ xs @ ys" "int (length (pre @ xs @ ys))"]
        grows_values [OF g room less.prems(4,2)] grows_kept(3) [OF g room less.prems(4,3)] less.prems(4) by auto
    moreover have "replace_runs ws ys fs = xs @ ys @ replace_runs ws ys zs"
      using replace_runs_Some [OF r w, of ys] run by simp
    ultimately show ?thesis using step grows_trans [OF _ g] by auto
  qed
qed

text \<open>
  C16: \<open>replace-member$\<close> replaces, in one pass from the left, every run of fields that is one of the given values by the
  new fields; if each value has one field, every field that is equal to one of them is replaced. The values have to have
  a field each, the new value may be empty.
\<close>

theorem members_replaced:
  assumes "evaluates h args (d # new # v # vs) st" "value_fields d st fs" "content new st ys"
    and "values_of st (v # vs) ws" "\<forall>w \<in> set ws. w \<noteq> []" "makes_room h" "finite (dom (segments st))"
  shows "(\<exists>r st'. ReplaceMemberFunction h args st = Inr (r, st') \<and> grows h st st' \<and> value_fields r st' (replace_runs ws ys fs))
    \<and> ((\<forall>w \<in> set ws. length w = 1) \<longrightarrow> replace_runs ws ys fs = concat (map (\<lambda>f. if [f] \<in> set ws then ys else [f]) fs))"
proof -
  have ty: "do_type d = MULTIFIELD" using assms(2) by (simp add: value_fields_def)
  have "EnvRtnUnknown h args 2 st = (Some new, st)"
    using EnvRtnUnknown_value [OF assms(1), of 1] by (simp add: numeral_2_eq_2)
  then have "ReplaceMemberFunction h args st = replace_loop h (v # vs) new (-1) d st"
    using evaluates_length [OF assms(1)] evaluates_unknown [OF assms(1), of 2] ty
    by (simp add: ReplaceMemberFunction_def EnvArgCountCheck_def EnvRtnArgCount_def with_arg_first(1) [OF assms(1)])
  moreover have "value_fields d st ([] @ fs)" using assms(2) by simp
  ultimately have "\<exists>r st'. ReplaceMemberFunction h args st = Inr (r, st') \<and> grows h st st' \<and> value_fields r st' (replace_runs ws ys fs)"
    using replace_loop_runs [OF assms(6,5) _ assms(4,3,7), of d "[]" fs "-1"] by simp
  then show ?thesis using replace_single by blast
qed

section \<open>Looking for a member\<close>

lemma first_run_leftmost:
  "first_run [w] fs = (if \<exists>k < length fs. prefix w (drop k fs)
     then Some (LEAST k. k < length fs \<and> prefix w (drop k fs), w) else None)"
proof (induction "[w]" fs rule: first_run.induct)
  case (2 f fs)
  show ?case
  proof (cases "prefix w (f # fs)")
    case True
    then have "(LEAST k. k < length (f # fs) \<and> prefix w (drop k (f # fs))) = 0" by (intro Least_equality) auto
    with True show ?thesis by auto
  next
    case False
    let ?P = "\<lambda>k. k < length (f # fs) \<and> prefix w (drop k (f # fs))"
    have ex: "(\<exists>k. ?P k) \<longleftrightarrow> (\<exists>k < length fs. prefix w (drop k fs))"
      using False by (metis Suc_less_eq drop0 drop_Suc_Cons length_Cons not0_implies_Suc)
    show ?thesis
    proof (cases "\<exists>k. ?P k")
      case True
      then obtain k where "?P k" ..
      moreover have "\<not> ?P 0" using False by simp
      ultimately have "(LEAST k. ?P k) = Suc (LEAST k. ?P (Suc k))" by (rule Least_Suc)
      then show ?thesis using True ex False 2 by simp
    next
      case no: False
      then show ?thesis using ex False 2 by auto
    qed
  qed
qed simp

lemma add_position:
  assumes "allocates (lib h)" "atoms_ok (atom_data (scanner st))" "0 \<le> k" "k < 2 ^ 63"
  shows "\<exists>p e. on_atoms (EnvAddLong (allocate (lib h)) (word_of_int k)) st = Inr (p, st\<lparr>scanner := (scanner st)\<lparr>atom_data := e\<rparr>\<rparr>)
    \<and> grown (atom_data (scanner st)) e \<and> atom_at (IntegerTable e) p (word_of_int k)"
proof -
  have f: "fresh (allocate (lib h)) (atom_data (scanner st))" using assms(1,2) by (simp add: allocates_def)
  have s: "sint (word_of_int k :: 64 word) = k" using assms(3,4) by (simp add: signed_of_int signed_take_bit_int_eq_self_iff)
  then have "regular_long (word_of_int k)" using assms(3) by (auto simp: regular_long_def)
  from add_long [OF assms(2) f this] obtain p e where
    "EnvAddLong (allocate (lib h)) (word_of_int k) (atom_data (scanner st)) = Inr (p, e)" "atoms_ok e"
    "atom_at (IntegerTable e) p (word_of_int k)" "extends (IntegerTable (atom_data (scanner st))) (IntegerTable e)"
    "SymbolTable e = SymbolTable (atom_data (scanner st))" "FloatTable e = FloatTable (atom_data (scanner st))" by blast
  then show ?thesis by (auto simp: on_atoms_def grown_def)
qed

lemma set_field_scanner:
  "set_field p (int (length fs)) f ((building p len fs (Suc k) st)\<lparr>scanner := s\<rparr>) = Inr ((building p len (fs @ [f]) k st)\<lparr>scanner := s\<rparr>)"
  by (simp add: set_field_def segment_at_def building_def list_update_append)

lemma fields_of_scanner [simp]: "fields_of n p i (st\<lparr>scanner := s\<rparr>) = fields_of n p i st"
proof (induction n arbitrary: i)
  case (Suc n)
  then show ?case by (simp add: get_field_def segment_at_def cong del: bind_res_weak_cong)
qed simp

lemma value_fields_scanner [simp]: "value_fields d (st\<lparr>scanner := s\<rparr>) fs = value_fields d st fs"
  by (simp add: value_fields_def)

definition number :: "address \<Rightarrow> field" where
  "number p = \<lparr>field_type = INTEGER, field_value = p\<rparr>"

definition number_is :: "machine \<Rightarrow> address \<Rightarrow> int \<Rightarrow> bool" where
  "number_is st p n \<longleftrightarrow> ValueToLong p (scanner st) = Inr (word_of_int n)"

lemma number_at: "atom_at (IntegerTable e) p (word_of_int k) \<Longrightarrow> number_is (st\<lparr>scanner := s\<lparr>atom_data := e\<rparr>\<rparr>) p k"
  by (auto simp: number_is_def ValueToLong_def atom_at_def)

text \<open>The two bounds of a run in a new multifield.\<close>

lemma bounds_stored:
  assumes "allocates (lib h)" "atoms_ok (atom_data (scanner st))" "0 \<le> j" "j < 2 ^ 63" "0 \<le> k" "k < 2 ^ 63"
  shows "\<exists>a b st'. (let (p, st) = EnvCreateMultifield h 2 st in
      bind_res (on_atoms (EnvAddLong (allocate (lib h)) (word_of_int j)) st) (\<lambda>(a, st).
      bind_res (set_field p 0 \<lparr>field_type = INTEGER, field_value = a\<rparr> st) (\<lambda>st.
      bind_res (on_atoms (EnvAddLong (allocate (lib h)) (word_of_int k)) st) (\<lambda>(a, st).
      bind_res (set_field p 1 \<lparr>field_type = INTEGER, field_value = a\<rparr> st) (\<lambda>st.
        Inr (multifield_object p 1 2, st)))))) = Inr (whole (new_segment h st) [number a, number b], st')
    \<and> value_fields (whole (new_segment h st) [number a, number b]) st' [number a, number b]
    \<and> number_is st' a j \<and> number_is st' b k"
proof -
  define p where "p = new_segment h st"
  define st0 where "st0 = AddToMultifieldList p st"
  have c: "EnvCreateMultifield h 2 st = (p, building p 2 [] 2 st0)"
    using EnvCreateMultifield_building [of h 2 st] by (simp add: p_def st0_def numeral_2_eq_2 [symmetric])
  have ok: "atoms_ok (atom_data (scanner (building p 2 [] 2 st0)))"
    using assms(2) by (simp add: building_def st0_def AddToMultifieldList_def Let_def atoms_ok_def)
  from add_position [OF assms(1) ok assms(3,4)] obtain a e where
    a: "on_atoms (EnvAddLong (allocate (lib h)) (word_of_int j)) (building p 2 [] 2 st0) =
      Inr (a, (building p 2 [] 2 st0)\<lparr>scanner := (scanner st0)\<lparr>atom_data := e\<rparr>\<rparr>)"
    "atoms_ok e" "atom_at (IntegerTable e) a (word_of_int j)"
    by (auto simp: building_def grown_def)
  let ?st1 = "(building p 2 [number a] 1 st0)\<lparr>scanner := (scanner st0)\<lparr>atom_data := e\<rparr>\<rparr>"
  have s1: "set_field p 0 (number a) ((building p 2 [] 2 st0)\<lparr>scanner := (scanner st0)\<lparr>atom_data := e\<rparr>\<rparr>) = Inr ?st1"
    using set_field_scanner [where fs = "[]" and k = 1 and len = 2] by (simp add: numeral_2_eq_2)
  from add_position [OF assms(1) _ assms(5,6), of ?st1] a(2) obtain b e' where
    b: "on_atoms (EnvAddLong (allocate (lib h)) (word_of_int k)) ?st1 = Inr (b, ?st1\<lparr>scanner := (scanner st0)\<lparr>atom_data := e'\<rparr>\<rparr>)"
    "grown e e'" "atom_at (IntegerTable e') b (word_of_int k)"
    by auto
  let ?st2 = "(building p 2 [number a, number b] 0 st0)\<lparr>scanner := (scanner st0)\<lparr>atom_data := e'\<rparr>\<rparr>"
  have s2: "set_field p 1 (number b) (?st1\<lparr>scanner := (scanner st0)\<lparr>atom_data := e'\<rparr>\<rparr>) = Inr ?st2"
    using set_field_scanner [where fs = "[number a]" and k = 0 and len = 2] by simp
  have "atom_at (IntegerTable e') a (word_of_int j)" using atom_at_extends [OF a(3)] b(2) by (simp add: grown_def)
  moreover have "value_fields (whole p [number a, number b]) ?st2 [number a, number b]"
    using fields_of_built [of 0 2 "[number a, number b]" p 2 0 st0] by (simp add: value_fields_def whole_def GetDOLength_def numeral_2_eq_2)
  ultimately have "value_fields (whole p [number a, number b]) ?st2 [number a, number b] \<and> number_is ?st2 a j \<and> number_is ?st2 b k"
    using b(3) number_at by blast
  moreover have "(let (p, st) = EnvCreateMultifield h 2 st in
      bind_res (on_atoms (EnvAddLong (allocate (lib h)) (word_of_int j)) st) (\<lambda>(a, st).
      bind_res (set_field p 0 \<lparr>field_type = INTEGER, field_value = a\<rparr> st) (\<lambda>st.
      bind_res (on_atoms (EnvAddLong (allocate (lib h)) (word_of_int k)) st) (\<lambda>(a, st).
      bind_res (set_field p 1 \<lparr>field_type = INTEGER, field_value = a\<rparr> st) (\<lambda>st.
        Inr (multifield_object p 1 2, st)))))) = Inr (whole p [number a, number b], ?st2)"
    using s1 s2 b(1) unfolding number_def by (simp add: c a(1) multifield_object_def whole_def)
  ultimately show ?thesis unfolding p_def [symmetric] by blast
qed

text \<open>
  C27: \<open>member$\<close> finds the leftmost place of a value in a multifield: the result is the position of a single field, the
  two bounds of a run of fields, or FALSE, with nothing changed, if there is none.
\<close>

theorem member_found:
  assumes "evaluates h args [v, d] st" "value_fields d st fs" "content v st w"
    and "allocates (lib h)" "atoms_ok (atom_data (scanner st))" "length fs + length w < 2 ^ 63"
  shows "if \<exists>k < length fs. prefix w (drop k fs)
    then let k = (LEAST k. k < length fs \<and> prefix w (drop k fs)) in
      if length w = 1
      then \<exists>p st'. MemberFunction h args st = Inr (\<lparr>do_type = INTEGER, do_value = p, do_begin = 0, do_end = 0\<rparr>, st')
        \<and> number_is st' p (int k + 1)
      else \<exists>r st' a b. MemberFunction h args st = Inr (r, st') \<and> value_fields r st' [number a, number b]
        \<and> number_is st' a (int k + 1) \<and> number_is st' b (int k + int (length w))
    else MemberFunction h args st = Inr (EnvFalseSymbol st, st)"
proof -
  let ?found = "first_run [w] fs"
  have ty: "do_type d = MULTIFIELD" using assms(2) by (simp add: value_fields_def)
  have find: "FindDOsInSegment [v] d [] st = Inr (map_option (\<lambda>(k, w). (int k + 1, int k + int (length w))) ?found)"
    by (rule find_run [OF assms(2)]) (simp add: assms(3))
  note simps = MemberFunction_def EnvArgCountCheck_def EnvRtnArgCount_def evaluates_length [OF assms(1)]
    EnvRtnUnknown_value [OF assms(1), of 0, simplified] with_arg_first(2) [OF assms(1)] ty find
  show ?thesis
  proof (cases "\<exists>k < length fs. prefix w (drop k fs)")
    case False
    then have "?found = None" unfolding first_run_leftmost by simp
    then have "MemberFunction h args st = Inr (EnvFalseSymbol st, st)" by (simp add: simps)
    then show ?thesis by (simp only: False if_False)
  next
    case True
    define k where "k = (LEAST k. k < length fs \<and> prefix w (drop k fs))"
    have k: "k < length fs" using LeastI_ex [of "\<lambda>k. k < length fs \<and> prefix w (drop k fs)"] True by (simp add: k_def)
    have f: "?found = Some (k, w)" using True unfolding first_run_leftmost k_def by simp
    show ?thesis
    proof (cases "length w = 1")
      case one: True
      from k assms(6) have "0 \<le> int k + 1" "int k + 1 < 2 ^ 63" by simp_all
      from add_position [OF assms(4,5) this] obtain p e where
        p: "on_atoms (EnvAddLong (allocate (lib h)) (word_of_int (int k + 1))) st = Inr (p, st\<lparr>scanner := (scanner st)\<lparr>atom_data := e\<rparr>\<rparr>)"
        "atom_at (IntegerTable e) p (word_of_int (int k + 1))" by blast
      have "MemberFunction h args st = Inr (\<lparr>do_type = INTEGER, do_value = p, do_begin = 0, do_end = 0\<rparr>,
          st\<lparr>scanner := (scanner st)\<lparr>atom_data := e\<rparr>\<rparr>)"
        using one p(1) by (simp add: simps f add.commute)
      then show ?thesis using True one number_at [OF p(2)] unfolding k_def [symmetric] Let_def by auto
    next
      case False
      from k assms(6) have b: "0 \<le> int k + 1" "int k + 1 < 2 ^ 63" "0 \<le> int k + int (length w)" "int k + int (length w) < 2 ^ 63"
        by simp_all
      from bounds_stored [OF assms(4,5) b] obtain a b st' where
        r: "MemberFunction h args st = Inr (whole (new_segment h st) [number a, number b], st')"
        "value_fields (whole (new_segment h st) [number a, number b]) st' [number a, number b]"
        "number_is st' a (int k + 1)" "number_is st' b (int k + int (length w))"
        using False by (auto simp: simps f)
      then show ?thesis using True False unfolding k_def [symmetric] Let_def by auto
    qed
  qed
qed

section \<open>Subsets\<close>

lemma first_run_single: "first_run [[f]] fs = None \<longleftrightarrow> f \<notin> set fs"
  by (induction fs) auto

lemma subset_loop_spec:
  assumes "value_fields d2 st fs2"
  shows "fields_of n (do_value d1) i st = Inr fs \<Longrightarrow> \<forall>f \<in> set fs. field_type f \<noteq> MULTIFIELD \<Longrightarrow>
    subset_loop n d1 i d2 st = Inr (set fs \<subseteq> set fs2)"
proof (induction n arbitrary: i fs)
  case (Suc n)
  from Suc.prems obtain f :: field and fs' where f: "get_field (do_value d1) i st = Inr f" "fields_of n (do_value d1) (i + 1) st = Inr fs'" "fs = f # fs'"
    by (auto simp: bind_res_eq_Inr)
  then have "values_of st [\<lparr>do_type = field_type f, do_value = field_value f, do_begin = 0, do_end = 0\<rparr>] [[f]]"
    using Suc.prems(2) by (simp add: content_def)
  note found = find_run [OF assms this]
  show ?case
  proof (cases "f \<in> set fs2")
    case False
    then have "first_run [[f]] fs2 = None" by (simp add: first_run_single)
    then show ?thesis using found f False by simp
  next
    case True
    then obtain r where "first_run [[f]] fs2 = Some r" using first_run_single by fastforce
    then show ?thesis using found f True Suc.IH [OF f(2)] Suc.prems(2) by simp
  qed
qed simp

text \<open>\<open>subsetp\<close> asks if every field is in the other multifield; how often it is there does not matter.\<close>

lemma subset_decided:
  assumes "evaluates h args [d1, d2] st" "value_fields d1 st fs1" "value_fields d2 st fs2" "\<forall>f \<in> set fs1. field_type f \<noteq> MULTIFIELD"
  shows "SubsetpFunction h args st = Inr (set fs1 \<subseteq> set fs2, st)"
proof -
  have "do_type d1 = MULTIFIELD" "do_type d2 = MULTIFIELD" "GetDOLength d1 = int (length fs1)" "GetDOLength d2 = int (length fs2)"
    "fields_of (length fs1) (do_value d1) (do_begin d1) st = Inr fs1"
    using assms(2,3) by (simp_all add: value_fields_def)
  then show ?thesis
    using subset_loop_spec [OF assms(3) _ assms(4)] evaluates_length [OF assms(1)]
    by (simp add: SubsetpFunction_def EnvArgCountCheck_def EnvRtnArgCount_def with_arg_first(1,2) [OF assms(1)])
qed

section \<open>Garbage\<close>

text \<open>The garbage list: segments that are there, each once, with the last one at hand.\<close>

definition garbage_ok :: "machine \<Rightarrow> bool" where
  "garbage_ok st \<longleftrightarrow> distinct (ListOfMultifields st) \<and> set (ListOfMultifields st) \<subseteq> dom (segments st)
     \<and> LastMultifield st = (if ListOfMultifields st = [] then None else Some (last (ListOfMultifields st)))"

definition busy :: "machine \<Rightarrow> address \<Rightarrow> bool" where
  "busy st p \<longleftrightarrow> (\<exists>m. segments st p = Some m \<and> busyCount m \<noteq> 0)"

lemma garbage_ok_built:
  assumes "garbage_ok st" "segments st p = None"
  shows "garbage_ok (built p xs st)"
  using assms by (auto simp: garbage_ok_def built_def building_def AddToMultifieldList_def Let_def)

definition kept_segments :: "address list \<Rightarrow> machine \<Rightarrow> address \<Rightarrow> multifield option" where
  "kept_segments ps st p = (if p \<in> set ps \<and> \<not> busy st p then None else segments st p)"

definition last_kept :: "address list \<Rightarrow> address option \<Rightarrow> machine \<Rightarrow> address option" where
  "last_kept ps lastPtr st = (if ps = [] \<or> busy st (last ps) then LastMultifield st
     else if filter (busy st) ps = [] then lastPtr else Some (last (filter (busy st) ps)))"

lemma flush_loop_ok:
  "distinct ps \<Longrightarrow> set ps \<subseteq> dom (segments st) \<Longrightarrow>
    flush_loop ps lastPtr st = Inr (filter (busy st) ps, st\<lparr>segments := kept_segments ps st, LastMultifield := last_kept ps lastPtr st\<rparr>)"
proof (induction ps arbitrary: lastPtr st)
  case Nil
  have "kept_segments [] st = segments st" by (rule ext) (simp add: kept_segments_def)
  then show ?case by (simp add: last_kept_def)
next
  case (Cons p ps)
  from Cons.prems obtain m where m: "segments st p = Some m" by auto
  show ?case
  proof (cases "busyCount m = 0")
    case False
    then have "busy st p" using m by (simp add: busy_def)
    then have "kept_segments (p # ps) st = kept_segments ps st" "last_kept (p # ps) lastPtr st = last_kept ps (Some p) st"
      by (auto simp: kept_segments_def last_kept_def)
    then show ?thesis
      using Cons.IH [of st "Some p"] Cons.prems m False \<open>busy st p\<close> by (simp add: segment_at_def)
  next
    case True
    then have b: "\<not> busy st p" using m by (simp add: busy_def)
    define st1 where "st1 = st\<lparr>segments := (segments st)(p := None)\<rparr>"
    define st2 where "st2 = (if ps = [] then st1\<lparr>LastMultifield := lastPtr\<rparr> else st1)"
    have seg: "segments st2 = (segments st)(p := None)" by (simp add: st2_def st1_def)
    have same: "busy st2 q = busy st q" if "q \<in> set ps" for q
      using Cons.prems that by (auto simp: busy_def seg)
    then have fl: "filter (busy st2) ps = filter (busy st) ps" by (auto intro: filter_cong)
    have dom: "set ps \<subseteq> dom (segments st2)" using Cons.prems by (auto simp: seg)
    have "kept_segments ps st2 = kept_segments (p # ps) st"
      using same Cons.prems b by (auto simp: kept_segments_def seg fun_eq_iff)
    moreover have "last_kept ps lastPtr st2 = last_kept (p # ps) lastPtr st"
      using same [of "last ps"] b fl by (auto simp: last_kept_def st2_def st1_def)
    moreover have "st2\<lparr>segments := S, LastMultifield := L\<rparr> = st\<lparr>segments := S, LastMultifield := L\<rparr>" for S L
      by (simp add: st2_def st1_def)
    moreover have "flush_loop (p # ps) lastPtr st = flush_loop ps lastPtr st2"
      using m True by (simp add: segment_at_def Let_def st2_def st1_def)
    ultimately show ?thesis
      using Cons.IH [OF _ dom, of lastPtr] Cons.prems(1) b by (simp add: fl)
  qed
qed

text \<open>
  C20: \<open>FlushMultifields\<close> frees exactly the segments of the garbage list that are not installed, and keeps the list with its
  last element right; all others keep their fields.
\<close>

theorem garbage_flushed:
  assumes "garbage_ok st"
  shows "\<exists>st'. FlushMultifields st = Inr st' \<and> garbage_ok st'
    \<and> ListOfMultifields st' = filter (busy st) (ListOfMultifields st)
    \<and> segments st' = kept_segments (ListOfMultifields st) st"
proof -
  let ?ps = "ListOfMultifields st"
  let ?st = "st\<lparr>segments := kept_segments ?ps st, LastMultifield := last_kept ?ps None st,
    ListOfMultifields := filter (busy st) ?ps\<rparr>"
  have ok: "distinct ?ps" "set ?ps \<subseteq> dom (segments st)" "LastMultifield st = (if ?ps = [] then None else Some (last ?ps))"
    using assms by (simp_all add: garbage_ok_def)
  have last: "last (filter (busy st) ?ps) = last ?ps" if "?ps \<noteq> []" "busy st (last ?ps)"
  proof -
    have "filter (busy st) ?ps = filter (busy st) (butlast ?ps @ [last ?ps])" using that by simp
    then show ?thesis using that(2) by (simp del: append_butlast_last_id)
  qed
  have "filter (busy st) ?ps \<noteq> []" if "?ps \<noteq> []" "busy st (last ?ps)"
    using that by (auto simp: filter_empty_conv intro: last_in_set)
  then have "LastMultifield ?st = (if ListOfMultifields ?st = [] then None else Some (last (ListOfMultifields ?st)))"
    using ok(3) last by (auto simp: last_kept_def filter_empty_conv)
  moreover have "set (ListOfMultifields ?st) \<subseteq> dom (segments ?st)" using ok(2) by (auto simp: kept_segments_def)
  ultimately have "garbage_ok ?st" using ok(1) by (simp add: garbage_ok_def)
  moreover have "FlushMultifields st = Inr ?st"
    using flush_loop_ok [OF ok(1,2)] by (simp add: FlushMultifields_def)
  ultimately show ?thesis by (intro exI [of _ ?st]) simp
qed

section \<open>Types\<close>

text \<open>
  A field has a type that segments may hold, neither nested nor void, and its atom is in the table of that type. A value
  is a field, or a range of fields that are stored.
\<close>

definition typed_field :: "machine \<Rightarrow> field \<Rightarrow> bool" where
  "typed_field st f =
     (let e = atom_data (scanner st) in
      case field_type f of
        FLOAT \<Rightarrow> \<exists>x. atom_at (FloatTable e) (field_value f) x
      | INTEGER \<Rightarrow> \<exists>x. atom_at (IntegerTable e) (field_value f) x
      | SYMBOL \<Rightarrow> \<exists>x. atom_at (SymbolTable e) (field_value f) x
      | STRING \<Rightarrow> \<exists>x. atom_at (SymbolTable e) (field_value f) x
      | INSTANCE_NAME \<Rightarrow> \<exists>x. atom_at (SymbolTable e) (field_value f) x
      | MULTIFIELD \<Rightarrow> False
      | RVOID \<Rightarrow> False
      | _ \<Rightarrow> True)"

definition typed_value :: "machine \<Rightarrow> dataObject \<Rightarrow> bool" where
  "typed_value st d \<longleftrightarrow> (\<exists>fs. content d st fs \<and> (\<forall>f \<in> set fs. typed_field st f))"

definition returns_typed :: "(dataObject option \<times> machine) res \<Rightarrow> bool" where
  "returns_typed r \<longleftrightarrow> (\<exists>x st'. r = Inr (x, st')
     \<and> (\<forall>d. x = Some d \<longrightarrow> do_type d = MULTIFIELD \<and> typed_value st' d))"

lemma typed_field_kept: "typed_field (built p xs st) f = typed_field st f"
  by (simp add: typed_field_def built_def building_def AddToMultifieldList_def Let_def cong: fieldType.case_cong)

lemma typed_whole: "\<forall>f \<in> set fs. typed_field st f \<Longrightarrow> returns_typed (Inr (Some (whole p fs), built p fs st))"
  using value_fields_whole [of p fs st]
  by (auto simp: returns_typed_def typed_value_def content_def typed_field_kept whole_def)

lemma typed_fields: "typed_value st d \<Longrightarrow> content d st fs \<Longrightarrow> f \<in> set fs \<Longrightarrow> typed_field st f"
  by (auto simp: typed_value_def content_def value_fields_def split: if_splits)

lemma nothing_typed: "returns_typed (Inr (None, st))"
  by (simp add: returns_typed_def)

text \<open>Every argument of a call is a typed value, or void.\<close>

lemma typed_arguments:
  "\<forall>v \<in> set vs. do_type v = RVOID \<or> typed_value st v \<Longrightarrow>
    \<exists>fss. list_all2 (arg_fields st) vs fss \<and> (\<forall>f \<in> set (concat fss). typed_field st f)"
proof (induction vs)
  case (Cons v vs)
  then obtain fss where f: "list_all2 (arg_fields st) vs fss" "\<forall>f \<in> set (concat fss). typed_field st f" by auto
  obtain fs where "arg_fields st v fs" "\<forall>f \<in> set fs. typed_field st f"
  proof (cases "do_type v = RVOID")
    case True
    then show ?thesis using that [of "[]"] by (simp add: arg_fields_def)
  next
    case False
    then show ?thesis using Cons.prems that by (auto simp: arg_fields_def typed_value_def)
  qed
  with f show ?case by (intro exI [of _ "fs # fss"]) auto
qed simp

text \<open>
  C12: The operations that make multifields, for any range and position, return a multifield whose fields are all stored
  and well typed, or none, given values that are; no read or write is out of bounds. Segments are never nested.
\<close>

theorem multifields_typed:
  assumes "typed_value st d" "do_type d = MULTIFIELD" "typed_value st v" "segments st (new_segment h st) = None"
    and "evaluates h args vs st" "\<forall>v \<in> set vs. do_type v = RVOID \<or> typed_value st v"
  shows "returns_typed (DeleteMultiValueField h (Some d) rb re st)
    \<and> returns_typed (ReplaceMultiValueField h (Some d) rb re v st)
    \<and> returns_typed (InsertMultiValueField h (Some d) rb v st)
    \<and> returns_typed (bind_res (StoreInMultifield h args True st) (\<lambda>(r, st). Inr (Some r, st)))"
proof (intro conjI)
  from assms(1,2) obtain fs where fs: "value_fields d st fs" "\<forall>f \<in> set fs. typed_field st f"
    by (auto simp: typed_value_def content_def)
  from assms(3) obtain ys where ys: "content v st ys" "\<forall>f \<in> set ys. typed_field st f" by (auto simp: typed_value_def)
  have typed: "\<forall>f \<in> set (take n fs). typed_field st f" "\<forall>f \<in> set (drop n fs). typed_field st f"
    "\<forall>f \<in> set ys. typed_field st f" for n
    using fs(2) ys(2) by (auto dest: in_set_takeD in_set_dropD)
  have bad: "bad_range rb re (int (length fs)) \<or> 1 \<le> rb \<and> rb \<le> re \<and> re \<le> int (length fs)" by (auto simp: bad_range_def)
  show "returns_typed (DeleteMultiValueField h (Some d) rb re st)"
  proof (cases "bad_range rb re (int (length fs))")
    case True
    then show ?thesis unfolding DeleteMultiValueField_def source_length_fields [OF fs(1)] by (simp add: Let_def nothing_typed)
  next
    case False
    then show ?thesis
      using bad delete_range [OF fs(1) assms(4)]
      by (simp add: Let_def typed_whole ball_Un typed)
  qed
  show "returns_typed (ReplaceMultiValueField h (Some d) rb re v st)"
  proof (cases "bad_range rb re (int (length fs))")
    case True
    then show ?thesis unfolding ReplaceMultiValueField_def source_length_fields [OF fs(1)] by (simp add: Let_def nothing_typed)
  next
    case False
    then show ?thesis
      using bad replace_range [OF fs(1) ys(1) assms(4)]
      by (simp add: Let_def typed_whole ball_Un typed)
  qed
  show "returns_typed (InsertMultiValueField h (Some d) rb v st)"
  proof (cases "1 \<le> rb")
    case False
    then show ?thesis by (simp add: InsertMultiValueField_def Let_def nothing_typed)
  next
    case True
    then show ?thesis
      using insert_at [OF fs(1) ys(1) assms(4)]
      by (simp add: Let_def typed_whole ball_Un typed)
  qed
  from typed_arguments [OF assms(6)] obtain fss where
    "list_all2 (arg_fields st) vs fss" "\<forall>f \<in> set (concat fss). typed_field st f" by blast
  with collected [OF assms(5) _ assms(4)]
  show "returns_typed (bind_res (StoreInMultifield h args True st) (\<lambda>(r, st). Inr (Some r, st)))"
    by (simp del: set_concat add: typed_whole)
qed

section \<open>A concrete state\<close>

text \<open>Calls whose arguments are values, and an allocator that takes the address behind all others.\<close>

definition demo_host :: "dataObject host" where
  "demo_host = \<lparr>lib = demo_libc, new_segment = (\<lambda>st. Suc (Max (insert 0 (dom (segments st))))), evaluate = Pair,
     double_of_long = id, long_of_double = id, unsigned_of_double = id, entity_busy = (\<lambda>_ _ _ st. st),
     instance_name = (\<lambda>_. []), entity_text = (\<lambda>_ _. [])\<rparr>"

lemma demo_room: "makes_room demo_host"
proof -
  have "segments st (Suc (Max (insert 0 (dom (segments st))))) = None" if "finite (dom (segments st))" for st :: machine
  proof (rule ccontr)
    assume "segments st (Suc (Max (insert 0 (dom (segments st))))) \<noteq> None"
    then have "Suc (Max (insert 0 (dom (segments st)))) \<le> Max (insert 0 (dom (segments st)))"
      using that by (intro Max_ge) auto
    then show False by simp
  qed
  then show ?thesis by (simp add: makes_room_def demo_host_def)
qed

text \<open>The integers 1, 2 and 3 have the addresses 11, 12 and 13, the symbol \<open>b\<close> the address 7; segment 1 is \<open>(1 b 1)\<close>.\<close>

definition demo_integer :: "64 word \<Rightarrow> 64 word hashNode" where
  "demo_integer x = \<lparr>count = 1, permanent = False, markedEphemeral = False, bucket = unat x, contents = x\<rparr>"

definition demo_atoms :: symbolData where
  "demo_atoms = demo_data\<lparr>IntegerTable := \<lparr>
     nodes = [11 \<mapsto> demo_integer 1, 12 \<mapsto> demo_integer 2, 13 \<mapsto> demo_integer 3],
     chains = (\<lambda>b. if b = 1 then [11] else if b = 2 then [12] else if b = 3 then [13] else []), ephemerals = []\<rparr>\<rparr>"

lemma demo_atoms_ok: "atoms_ok demo_atoms"
proof -
  have h: "long_hash 1 = 1" "long_hash 2 = 2" "long_hash 3 = 3"
    by (simp_all add: long_hash_def HashInteger_def word_sless_alt)
  have "table_ok long_hash regular_long (IntegerTable demo_atoms)"
    using h by (auto simp: demo_atoms_def demo_integer_def table_ok_def chained_def regular_long_def split: if_splits)
  then show ?thesis using demo_data_ok by (simp add: atoms_ok_def demo_atoms_def)
qed

definition demo_machine :: machine where
  "demo_machine = \<lparr>scanner = (demo_scan [])\<lparr>atom_data := demo_atoms\<rparr>,
     segments = [1 \<mapsto> \<lparr>busyCount = 0, multifieldLength = 3,
       theFields = [Some (number 11), Some \<lparr>field_type = SYMBOL, field_value = 7\<rparr>, Some (number 11)]\<rparr>],
     ListOfMultifields = [1], LastMultifield = Some 1, EvaluationError = False, HaltExecution = False\<rparr>"

definition demo_fields :: "field list" where
  "demo_fields = [number 11, \<lparr>field_type = SYMBOL, field_value = 7\<rparr>, number 11]"

definition demo_value :: dataObject where
  "demo_value = \<lparr>do_type = MULTIFIELD, do_value = 1, do_begin = 0, do_end = 2\<rparr>"

definition demo_number :: "nat \<Rightarrow> dataObject" where
  "demo_number n = \<lparr>do_type = INTEGER, do_value = 10 + n, do_begin = 0, do_end = 0\<rparr>"

definition demo_symbol :: dataObject where
  "demo_symbol = \<lparr>do_type = SYMBOL, do_value = 7, do_begin = 0, do_end = 0\<rparr>"

lemma demo_evaluates: "\<not> EvaluationError st \<Longrightarrow> evaluates demo_host vs vs st"
  by (simp add: evaluates_def demo_host_def list_all2_same)

lemma demo_simps [simp]:
  "EvaluationError demo_machine = False" "atoms_ok (atom_data (scanner demo_machine))" "idle (scanner demo_machine)"
  "finite (dom (segments demo_machine))" "lib demo_host = demo_libc" "new_segment demo_host demo_machine = 2"
  "segments demo_machine 2 = None"
  by (simp_all add: demo_machine_def demo_atoms_ok demo_scan_def idle_def demo_host_def)

lemma demo_value_fields: "value_fields demo_value demo_machine demo_fields"
  by (simp add: value_fields_def demo_value_def demo_machine_def demo_fields_def GetDOLength_def get_field_def segment_at_def
      eval_nat_numeral)

lemma demo_integers: "integer_object (demo_number 1) demo_machine 1" "integer_object (demo_number 2) demo_machine 2"
  "integer_object (demo_number 3) demo_machine 3"
  by (simp_all add: integer_object_def demo_number_def DOToLong_def ValueToLong_def demo_machine_def demo_atoms_def demo_integer_def)

lemma demo_content: "content demo_symbol st [\<lparr>field_type = SYMBOL, field_value = 7\<rparr>]" "content (demo_number n) st [number (10 + n)]"
  by (simp_all add: content_def demo_symbol_def demo_number_def number_def)

theorem range_deleted_witness:
  "\<exists>r st. DeleteFunction demo_host [demo_value, demo_number 2, demo_number 3] demo_machine = Inr (r, st) \<and> value_fields r st [number 11]"
proof -
  have "DeleteFunction demo_host [demo_value, demo_number 2, demo_number 3] demo_machine
      = Inr (whole 2 [number 11], built 2 [number 11] demo_machine)"
    using range_deleted [OF demo_evaluates demo_value_fields demo_integers(2,3)] by (simp add: demo_fields_def Let_def)
  then show ?thesis using value_fields_whole by blast
qed

theorem range_replaced_witness:
  "\<exists>r st. ReplaceFunction demo_host [demo_value, demo_number 1, demo_number 2, demo_symbol, demo_number 3] demo_machine = Inr (r, st)
    \<and> value_fields r st [\<lparr>field_type = SYMBOL, field_value = 7\<rparr>, number 13, number 11]"
proof -
  have g: "given demo_host [demo_symbol, demo_number 3] demo_machine [\<lparr>field_type = SYMBOL, field_value = 7\<rparr>, number 13]"
    using demo_content(1) [of demo_machine] demo_content(2) [of 3 demo_machine]
    by (auto simp: given_def arg_fields_def demo_symbol_def demo_number_def list_all2_Cons1
        intro!: exI [of _ "[[\<lparr>field_type = SYMBOL, field_value = 7\<rparr>], [number 13]]"])
  from range_replaced [OF demo_evaluates demo_value_fields demo_integers(1,2) g demo_room] show ?thesis
    using value_fields_whole by (auto simp: demo_fields_def Let_def)
qed

theorem values_inserted_witness:
  "\<exists>r st. InsertFunction demo_host [demo_value, demo_number 3, demo_symbol] demo_machine = Inr (r, st)
    \<and> value_fields r st [number 11, \<lparr>field_type = SYMBOL, field_value = 7\<rparr>, \<lparr>field_type = SYMBOL, field_value = 7\<rparr>, number 11]"
proof -
  have g: "given demo_host [demo_symbol] demo_machine [\<lparr>field_type = SYMBOL, field_value = 7\<rparr>]"
    using demo_content(1) by (simp add: given_def)
  from values_inserted [OF demo_evaluates demo_value_fields demo_integers(3) g demo_room] show ?thesis
    using value_fields_whole by (auto simp: demo_fields_def Let_def eval_nat_numeral)
qed

theorem subsequence_shared_witness:
  "\<exists>r. SubseqFunction demo_host [demo_value, demo_number 2, demo_number 3] demo_machine = Inr (r, demo_machine)
    \<and> value_fields r demo_machine [\<lparr>field_type = SYMBOL, field_value = 7\<rparr>, number 11]"
  using subsequence_shared [OF demo_evaluates demo_value_fields demo_integers(2,3)]
  by (auto simp: demo_fields_def eval_nat_numeral)

theorem members_deleted_witness:
  "\<exists>r st. DeleteMemberFunction demo_host [demo_value, demo_number 1] demo_machine = Inr (r, st)
    \<and> value_fields r st [\<lparr>field_type = SYMBOL, field_value = 7\<rparr>]"
proof -
  have c: "values_of demo_machine [demo_number 1] [[number 11]]" using demo_content(2) [of 1] by simp
  have f: "filter (\<lambda>f. [f] \<notin> set [[number 11]]) demo_fields = [\<lparr>field_type = SYMBOL, field_value = 7\<rparr>]"
    by (simp add: demo_fields_def number_def)
  from members_deleted [OF demo_evaluates demo_value_fields c _ demo_room] f show ?thesis by auto
qed

theorem members_replaced_witness:
  "\<exists>r st. ReplaceMemberFunction demo_host [demo_value, demo_symbol, demo_number 1] demo_machine = Inr (r, st)
    \<and> value_fields r st (replicate 3 \<lparr>field_type = SYMBOL, field_value = 7\<rparr>)"
proof -
  have c: "values_of demo_machine [demo_number 1] [[number 11]]" using demo_content(2) [of 1] by simp
  have n: "content demo_symbol demo_machine [\<lparr>field_type = SYMBOL, field_value = 7\<rparr>]" using demo_content(1) .
  have "replace_runs [[number 11]] [\<lparr>field_type = SYMBOL, field_value = 7\<rparr>] demo_fields
      = replicate 3 \<lparr>field_type = SYMBOL, field_value = 7\<rparr>"
    by (simp add: replace_single demo_fields_def number_def eval_nat_numeral)
  with members_replaced [OF demo_evaluates demo_value_fields n c _ demo_room] show ?thesis by auto
qed

theorem member_found_witness:
  "\<exists>p st. MemberFunction demo_host [demo_symbol, demo_value] demo_machine
      = Inr (\<lparr>do_type = INTEGER, do_value = p, do_begin = 0, do_end = 0\<rparr>, st) \<and> number_is st p 2"
proof -
  let ?w = "[\<lparr>field_type = SYMBOL, field_value = 7\<rparr>]"
  have c: "content demo_symbol demo_machine ?w" using demo_content(1) .
  have b: "length demo_fields + length ?w < 2 ^ 63" by (simp add: demo_fields_def)
  have k: "(LEAST k. k < length demo_fields \<and> prefix ?w (drop k demo_fields)) = 1"
  proof (rule Least_equality)
    show "(1 :: nat) < length demo_fields \<and> prefix ?w (drop 1 demo_fields)" by (simp add: demo_fields_def)
    fix k assume "k < length demo_fields \<and> prefix ?w (drop k demo_fields)"
    then show "1 \<le> k" by (cases k) (simp_all add: demo_fields_def number_def)
  qed
  have ex: "\<exists>k < length demo_fields. prefix ?w (drop k demo_fields)"
    by (rule exI [of _ 1]) (simp add: demo_fields_def)
  from member_found [OF demo_evaluates demo_value_fields c _ _ b] libc_ok_allocates [OF demo_libc_ok]
  show ?thesis unfolding if_P [OF ex] k Let_def by auto
qed

theorem multifields_typed_witness:
  "returns_typed (ReplaceMultiValueField demo_host (Some demo_value) 3 3 demo_symbol demo_machine)"
proof -
  have "atom_at (IntegerTable demo_atoms) 11 1" "atom_at (SymbolTable demo_atoms) 7 [98]"
    by (simp_all add: demo_atoms_def atom_at_def demo_integer_def demo_data_def)
  then have f: "\<forall>f \<in> set demo_fields. typed_field demo_machine f"
    by (auto simp: demo_fields_def typed_field_def number_def demo_machine_def)
  have "content demo_value demo_machine demo_fields" using demo_value_fields by (simp add: content_def demo_value_def)
  then have d: "typed_value demo_machine demo_value" using f unfolding typed_value_def by blast
  have "typed_field demo_machine \<lparr>field_type = SYMBOL, field_value = 7\<rparr>" using f by (simp add: demo_fields_def)
  then have s: "typed_value demo_machine demo_symbol" using demo_content(1) unfolding typed_value_def by fastforce
  have "evaluates demo_host [] [] demo_machine" by (rule demo_evaluates) simp
  from multifields_typed [OF d _ s _ this] show ?thesis by (simp add: demo_value_def)
qed

theorem garbage_flushed_witness:
  "\<exists>st. FlushMultifields demo_machine = Inr st \<and> ListOfMultifields st = [] \<and> segments st 1 = None"
proof -
  have "garbage_ok demo_machine" by (simp add: garbage_ok_def demo_machine_def)
  from garbage_flushed [OF this] show ?thesis
    by (auto simp: demo_machine_def busy_def kept_segments_def)
qed

end
