(* ===== verification/Exploding.thy ===== *)
theory Exploding
  imports MultifieldValues
begin

text \<open>
  \<open>implode$\<close> and \<open>explode$\<close>: the texts of fields, and how the scanner reads them back.
\<close>

section \<open>The text of a multifield\<close>

text \<open>What \<open>implode$\<close> writes for a field.\<close>

definition prints :: "'x host \<Rightarrow> symbolData \<Rightarrow> field \<Rightarrow> byte list \<Rightarrow> bool" where
  "prints h e f w =
     (let p = field_value f in
      case field_type f of
        SYMBOL \<Rightarrow> atom_at (SymbolTable e) p w
      | STRING \<Rightarrow> \<exists>t. atom_at (SymbolTable e) p t \<and> w = quoted t
      | INSTANCE_NAME \<Rightarrow> \<exists>t. atom_at (SymbolTable e) p t \<and> w = bytes_of ''['' @ t @ bytes_of '']''
      | FLOAT \<Rightarrow> \<exists>x. atom_at (FloatTable e) p x \<and> w = float_form (lib h) x
      | INTEGER \<Rightarrow> \<exists>x. atom_at (IntegerTable e) p x \<and> w = int_text (sint x)
      | INSTANCE_ADDRESS \<Rightarrow> w = bytes_of ''['' @ instance_name h p @ bytes_of '']''
      | RVOID \<Rightarrow> w = []
      | MULTIFIELD \<Rightarrow> False
      | t \<Rightarrow> w = c_string (entity_text h t p))"

lemma prints_grown: "prints h e f w \<Longrightarrow> grown e e' \<Longrightarrow> prints h e' f w"
  unfolding prints_def grown_def Let_def by (cases "field_type f") (auto intro: atom_at_extends)

lemma escaped_quoted: "34 # escaped t @ [34] = quoted t" "length (escaped t) = length t + escapes t"
  by (induction t) (auto simp: quoted_def escape_def escapes_def)

lemma ValueToLong_at: "atom_at (IntegerTable (atom_data s)) p x \<Longrightarrow> ValueToLong p s = Inr x"
  by (auto simp: ValueToLong_def atom_at_def)

lemma ValueToDouble_at: "atom_at (FloatTable (atom_data s)) p x \<Longrightarrow> ValueToDouble p s = Inr x"
  by (auto simp: ValueToDouble_def atom_at_def)

lemma grown_refl: "atoms_ok e \<Longrightarrow> grown e e"
  by (simp add: grown_def)

lemma text_of_field:
  assumes "prints h (atom_data s) f w" "libc_ok (lib h)" "atoms_ok (atom_data s)"
  shows "\<exists>e. implode_text h f s = Inr (w, s\<lparr>atom_data := e\<rparr>) \<and> grown (atom_data s) e"
    and "\<exists>e. implode_size h f s = Inr (length w + 1, s\<lparr>atom_data := e\<rparr>) \<and> grown (atom_data s) e"
proof -
  note atoms = FloatToString_ok [OF assms(2,3)] LongIntegerToString_ok [OF assms(2,3)]
    interned_text [OF libc_ok_allocates [OF assms(2)] assms(3)]
  have same: "s\<lparr>atom_data := atom_data s\<rparr> = s" by simp
  have "\<exists>e. implode_text h f s = Inr (w, s\<lparr>atom_data := e\<rparr>) \<and> grown (atom_data s) e
    \<and> (\<exists>e. implode_size h f s = Inr (length w + 1, s\<lparr>atom_data := e\<rparr>) \<and> grown (atom_data s) e)"
  proof (cases "field_type f")
    case FLOAT
    with assms(1) obtain x where x: "atom_at (FloatTable (atom_data s)) (field_value f) x" "w = float_form (lib h) x"
      by (auto simp: prints_def)
    from atoms(1) [of x] obtain e where
      "FloatToString (lib h) x s = Inr (w, s\<lparr>atom_data := e\<rparr>)" "grown (atom_data s) e"
      unfolding x(2) by blast
    then show ?thesis
      using FLOAT x(1) by (intro exI [of _ e] conjI) (simp_all add: implode_text_def implode_size_def atom_text_def ValueToDouble_at)
  next
    case INTEGER
    with assms(1) obtain x where x: "atom_at (IntegerTable (atom_data s)) (field_value f) x" "w = int_text (sint x)"
      by (auto simp: prints_def)
    from atoms(2) [of x] obtain e where
      "LongIntegerToString (lib h) x s = Inr (w, s\<lparr>atom_data := e\<rparr>)" "grown (atom_data s) e"
      unfolding x(2) by blast
    then show ?thesis
      using INTEGER x(1) by (intro exI [of _ e] conjI) (simp_all add: implode_text_def implode_size_def atom_text_def ValueToLong_at)
  next
    case STRING
    with assms(1) obtain t where "atom_at (SymbolTable (atom_data s)) (field_value f) t" "w = quoted t"
      by (auto simp: prints_def)
    then show ?thesis using STRING grown_refl [OF assms(3)] escaped_quoted(2) [of t]
      by (intro exI [of _ "atom_data s"] conjI)
        (simp_all add: implode_text_def implode_size_def ValueToString_at escaped_quoted(1) [symmetric])
  next
    case FACT_ADDRESS
    from atoms(3) [of "entity_text h FACT_ADDRESS (field_value f)"] obtain e where
      "interned_text (lib h) (Some (entity_text h FACT_ADDRESS (field_value f))) s = Inr (w, s\<lparr>atom_data := e\<rparr>)" "grown (atom_data s) e"
      using assms(1) FACT_ADDRESS by (auto simp: prints_def)
    then show ?thesis
      using FACT_ADDRESS by (intro exI [of _ e] conjI) (simp_all add: implode_text_def implode_size_def atom_text_def)
  next
    case EXTERNAL_ADDRESS
    from atoms(3) [of "entity_text h EXTERNAL_ADDRESS (field_value f)"] obtain e where
      "interned_text (lib h) (Some (entity_text h EXTERNAL_ADDRESS (field_value f))) s = Inr (w, s\<lparr>atom_data := e\<rparr>)" "grown (atom_data s) e"
      using assms(1) EXTERNAL_ADDRESS by (auto simp: prints_def)
    then show ?thesis
      using EXTERNAL_ADDRESS by (intro exI [of _ e] conjI) (simp_all add: implode_text_def implode_size_def atom_text_def)
  qed (use assms(1) grown_refl [OF assms(3)] in \<open>auto simp: prints_def implode_text_def implode_size_def
      atom_text_def ValueToString_at bytes_of_def Let_def intro!: exI [of _ "atom_data s"]\<close>)
  then show "\<exists>e. implode_text h f s = Inr (w, s\<lparr>atom_data := e\<rparr>) \<and> grown (atom_data s) e"
    and "\<exists>e. implode_size h f s = Inr (length w + 1, s\<lparr>atom_data := e\<rparr>) \<and> grown (atom_data s) e"
    by blast+
qed

definition with_atoms :: "symbolData \<Rightarrow> machine \<Rightarrow> machine" where
  "with_atoms e st = st\<lparr>scanner := (scanner st)\<lparr>atom_data := e\<rparr>\<rparr>"

lemma with_atoms_simps [simp]:
  "atom_data (scanner (with_atoms e st)) = e" "with_atoms e' (with_atoms e st) = with_atoms e' st"
  "with_atoms (atom_data (scanner st)) st = st" "segments (with_atoms e st) = segments st"
  "fields_of n p i (with_atoms e st) = fields_of n p i st" "get_field p i (with_atoms e st) = get_field p i st"
  "value_fields d (with_atoms e st) fs = value_fields d st fs"
  by (simp_all add: with_atoms_def get_field_def segment_at_def)

lemma on_scanner_atoms:
  "f (scanner st) = Inr (r, (scanner st)\<lparr>atom_data := e\<rparr>) \<Longrightarrow> on_scanner f st = Inr (r, with_atoms e st)"
  by (simp add: on_scanner_def with_atoms_def)

text \<open>The texts with a blank between them.\<close>

definition spaced :: "byte list list \<Rightarrow> byte list" where
  "spaced ws = concat (map (\<lambda>w. w @ [32]) ws)"

definition joined :: "byte list list \<Rightarrow> byte list" where
  "joined ws = butlast (spaced ws)"

lemma spaced_simps [simp]: "spaced [] = []" "spaced (w # ws) = w @ 32 # spaced ws"
  by (simp_all add: spaced_def)

lemma size_loop_ok:
  assumes "libc_ok (lib h)"
  shows "list_all2 (prints h (atom_data (scanner st))) fs ws \<Longrightarrow> fields_of (length fs) p i st = Inr fs
    \<Longrightarrow> atoms_ok (atom_data (scanner st)) \<Longrightarrow>
    \<exists>e. size_loop h (length fs) p i k st = Inr (k + length (spaced ws), with_atoms e st) \<and> grown (atom_data (scanner st)) e"
proof (induction fs arbitrary: ws i k st)
  case Nil
  then show ?case by (auto intro!: exI [of _ "atom_data (scanner st)"] grown_refl)
next
  case (Cons f fs)
  from Cons.prems(1) obtain w ws' where w: "ws = w # ws'" "prints h (atom_data (scanner st)) f w"
    "list_all2 (prints h (atom_data (scanner st))) fs ws'" by (auto simp: list_all2_Cons1)
  from Cons.prems(2) have f: "get_field p i st = Inr f" "fields_of (length fs) p (i + 1) st = Inr fs"
    by (auto simp: bind_res_eq_Inr)
  from text_of_field(2) [OF w(2) assms Cons.prems(3)] obtain e where
    e: "implode_size h f (scanner st) = Inr (length w + 1, (scanner st)\<lparr>atom_data := e\<rparr>)" "grown (atom_data (scanner st)) e"
    by blast
  have "list_all2 (prints h (atom_data (scanner (with_atoms e st)))) fs ws'"
    using w(3) by (rule list_all2_mono) (simp add: prints_grown [OF _ e(2)])
  from Cons.IH [OF this, of "i + 1" "k + (length w + 1)"] f(2) grown_ok [OF e(2)] obtain e' where
    "size_loop h (length fs) p (i + 1) (k + (length w + 1)) (with_atoms e st)
       = Inr (k + (length w + 1) + length (spaced ws'), with_atoms e' st)" "grown e e'" by auto
  then show ?case
    using f(1) on_scanner_atoms [of "implode_size h f", OF e(1)] grown_trans [OF e(2)] w(1) by auto
qed

lemma text_loop_ok:
  assumes "libc_ok (lib h)"
  shows "list_all2 (prints h (atom_data (scanner st))) fs ws \<Longrightarrow> fields_of (length fs) p i st = Inr fs
    \<Longrightarrow> atoms_ok (atom_data (scanner st)) \<Longrightarrow> length str + length (spaced ws) \<le> room \<Longrightarrow>
    \<exists>e. text_loop h room (length fs) p i str st = Inr (str @ spaced ws, with_atoms e st) \<and> grown (atom_data (scanner st)) e"
proof (induction fs arbitrary: ws i str st)
  case Nil
  then show ?case by (auto intro!: exI [of _ "atom_data (scanner st)"] grown_refl)
next
  case (Cons f fs)
  from Cons.prems(1) obtain w ws' where w: "ws = w # ws'" "prints h (atom_data (scanner st)) f w"
    "list_all2 (prints h (atom_data (scanner st))) fs ws'" by (auto simp: list_all2_Cons1)
  from Cons.prems(2) have f: "get_field p i st = Inr f" "fields_of (length fs) p (i + 1) st = Inr fs"
    by (auto simp: bind_res_eq_Inr)
  from text_of_field(1) [OF w(2) assms Cons.prems(3)] obtain e where
    e: "implode_text h f (scanner st) = Inr (w, (scanner st)\<lparr>atom_data := e\<rparr>)" "grown (atom_data (scanner st)) e"
    by blast
  have "list_all2 (prints h (atom_data (scanner (with_atoms e st)))) fs ws'"
    using w(3) by (rule list_all2_mono) (simp add: prints_grown [OF _ e(2)])
  from Cons.IH [OF this, of "i + 1" "str @ w @ [32]"] f(2) grown_ok [OF e(2)] Cons.prems(4) w(1) obtain e' where
    "text_loop h room (length fs) p (i + 1) (str @ w @ [32]) (with_atoms e st)
       = Inr (str @ spaced ws, with_atoms e' st)" "grown e e'" by auto
  then show ?case
    using f(1) on_scanner_atoms [of "implode_text h f", OF e(1)] grown_trans [OF e(2)] w(1) Cons.prems(4) by auto
qed

lemma imploded:
  assumes "value_fields d st fs" "list_all2 (prints h (atom_data (scanner st))) fs ws" "libc_ok (lib h)"
    and "atoms_ok (atom_data (scanner st))"
  shows "\<exists>p e. ImplodeMultifield h d st = Inr (p, with_atoms e st) \<and> grown (atom_data (scanner st)) e
    \<and> atom_at (SymbolTable e) p (c_string (joined ws))"
proof -
  have d: "nat (GetDOLength d) = length fs" "GetDOBegin d - 1 = do_begin d"
    "fields_of (length fs) (do_value d) (do_begin d) st = Inr fs"
    using assms(1) by (simp_all add: value_fields_def GetDOBegin_def)
  from size_loop_ok [OF assms(3,2) d(3) assms(4), of 0] obtain e where
    e: "size_loop h (length fs) (do_value d) (do_begin d) 0 st = Inr (length (spaced ws), with_atoms e st)"
    "grown (atom_data (scanner st)) e" by auto
  show ?thesis
  proof (cases "spaced ws = []")
    case True
    from add_symbol_atom [OF libc_ok_allocates [OF assms(3)], of "scanner (with_atoms e st)" "[]"] grown_ok [OF e(2)]
    obtain p e' where p: "add_symbol_atom (lib h) (Some []) (scanner (with_atoms e st)) = Inr (p, (scanner (with_atoms e st))\<lparr>atom_data := e'\<rparr>)"
      "grown e e'" "atom_at (SymbolTable e') p (c_string [])" by auto
    then show ?thesis
      using True d e on_scanner_atoms [of "add_symbol_atom (lib h) (Some [])", OF p(1)] grown_trans [OF e(2) p(2)]
      by (intro exI [of _ p] exI [of _ e']) (simp add: ImplodeMultifield_def Let_def joined_def)
  next
    case False
    have "list_all2 (prints h (atom_data (scanner (with_atoms e st)))) fs ws"
      using assms(2) by (rule list_all2_mono) (simp add: prints_grown [OF _ e(2)])
    from text_loop_ok [OF assms(3) this, of "do_value d" "do_begin d" "[]" "length (spaced ws)"] d(3) grown_ok [OF e(2)]
    obtain e1 where e1: "text_loop h (length (spaced ws)) (length fs) (do_value d) (do_begin d) [] (with_atoms e st)
      = Inr (spaced ws, with_atoms e1 st)" "grown e e1" by auto
    from add_symbol_atom [OF libc_ok_allocates [OF assms(3)], of "scanner (with_atoms e1 st)" "joined ws"] grown_ok [OF e1(2)]
    obtain p e' where p: "add_symbol_atom (lib h) (Some (joined ws)) (scanner (with_atoms e1 st)) = Inr (p, (scanner (with_atoms e1 st))\<lparr>atom_data := e'\<rparr>)"
      "grown e1 e'" "atom_at (SymbolTable e') p (c_string (joined ws))" by auto
    then show ?thesis
      using False d e e1 on_scanner_atoms [of "add_symbol_atom (lib h) (Some (joined ws))", OF p(1)]
        grown_trans [OF grown_trans [OF e(2) e1(2)] p(2)]
      by (intro exI [of _ p] exI [of _ e']) (simp add: ImplodeMultifield_def Let_def joined_def)
  qed
qed

text \<open>
  C29: \<open>implode$\<close> returns the string of the texts of the fields with a blank between them, and the block it writes to, which
  a first pass over the fields has measured, is never overrun.
\<close>

theorem fields_imploded:
  assumes "evaluates h args [d] st" "value_fields d st fs" "list_all2 (prints h (atom_data (scanner st))) fs ws"
    and "libc_ok (lib h)" "atoms_ok (atom_data (scanner st))"
  shows "\<exists>p e. ImplodeFunction h args st = Inr (p, with_atoms e st) \<and> grown (atom_data (scanner st)) e
    \<and> atom_at (SymbolTable e) p (c_string (joined ws))"
proof -
  have "do_type d = MULTIFIELD" using assms(2) by (simp add: value_fields_def)
  then have "ImplodeFunction h args st = ImplodeMultifield h d st"
    using evaluates_length [OF assms(1)]
    by (simp add: ImplodeFunction_def EnvArgCountCheck_def EnvRtnArgCount_def with_arg_first(1) [OF assms(1)])
  with imploded [OF assms(2-5)] show ?thesis by simp
qed

section \<open>Reading the text of a multifield\<close>

text \<open>
  Texts that are read back: symbols that are a word, and no number or name in brackets; plain strings; names of symbol
  characters; integers but the least one; floats that the C library prints as the text of a float.
\<close>

definition word_symbol :: "byte list \<Rightarrow> bool" where
  "word_symbol w \<longleftrightarrow> (\<forall>b \<in> set w. symbol_char (uint b)) \<and> symbol_start (hd w) \<and> \<not> bracketed w
     \<or> (\<forall>b \<in> set w. word_byte b) \<and> (digit (hd w) \<or> sign (hd w) \<or> hd w = 46) \<and> \<not> integer_text w \<and> \<not> float_text w"

definition reads_back :: "libc \<Rightarrow> symbolData \<Rightarrow> field \<Rightarrow> byte list \<Rightarrow> bool" where
  "reads_back l e f w =
     (let p = field_value f in
      case field_type f of
        SYMBOL \<Rightarrow> atom_at (SymbolTable e) p w \<and> w \<noteq> [] \<and> word_symbol w
      | STRING \<Rightarrow> \<exists>t. atom_at (SymbolTable e) p t \<and> w = quoted t \<and> plain_string t
      | INSTANCE_NAME \<Rightarrow> \<exists>t. atom_at (SymbolTable e) p t \<and> w = bytes_of ''['' @ t @ bytes_of '']'' \<and> t \<noteq> []
          \<and> (\<forall>b \<in> set t. symbol_char (uint b))
      | FLOAT \<Rightarrow> \<exists>x. atom_at (FloatTable e) p x \<and> w = float_form l x \<and> float_text w \<and> \<not> integer_text w
          \<and> (\<forall>b \<in> set w. word_byte b) \<and> (digit (hd w) \<or> sign (hd w) \<or> hd w = 46)
      | INTEGER \<Rightarrow> \<exists>x. atom_at (IntegerTable e) p x \<and> w = int_text (sint x) \<and> x \<noteq> 0x8000000000000000
      | _ \<Rightarrow> False)"

text \<open>
  The field that is read back: the same field, but for a float, which becomes the float that \<open>atof\<close> makes of its text.
\<close>

definition reread :: "libc \<Rightarrow> symbolData \<Rightarrow> field \<Rightarrow> byte list \<Rightarrow> field \<Rightarrow> bool" where
  "reread l e f w g \<longleftrightarrow>
     (if field_type f = FLOAT
      then field_type g = FLOAT \<and> atom_at (FloatTable e) (field_value g) (atof l w)
        \<and> (atom_at (FloatTable e) (field_value f) (atof l w) \<longrightarrow> g = f)
      else g = f)"

lemma reread_type: "reread l e f w g \<Longrightarrow> field_type g = field_type f"
  by (auto simp: reread_def split: if_splits)

lemma reads_prints: "reads_back (lib h) e f w \<Longrightarrow> prints h e f w"
  unfolding reads_back_def prints_def Let_def by (cases "field_type f") auto

lemma reads_grown: "reads_back l e f w \<Longrightarrow> grown e e' \<Longrightarrow> reads_back l e' f w"
  unfolding reads_back_def grown_def Let_def by (cases "field_type f") (auto intro: atom_at_extends)

lemma int_text_ne: "int_text n \<noteq> []"
  using int_text_value [of n] integer_text_bytes(2) by auto

lemma same_atom:
  assumes "atoms_ok e"
  shows "atom_at (SymbolTable e) p t \<Longrightarrow> atom_at (SymbolTable e) q t \<Longrightarrow> p = q"
    "atom_at (FloatTable e) p x \<Longrightarrow> atom_at (FloatTable e) q x \<Longrightarrow> p = q"
    "atom_at (IntegerTable e) p y \<Longrightarrow> atom_at (IntegerTable e) q y \<Longrightarrow> p = q"
proof -
  have ok: "table_ok symbol_hash regular_string (SymbolTable e)" "table_ok float_hash (\<lambda>x. \<not> is_nan x) (FloatTable e)"
    "table_ok long_hash regular_long (IntegerTable e)" using assms by (simp_all add: atoms_ok_def)
  show "atom_at (SymbolTable e) p t \<Longrightarrow> atom_at (SymbolTable e) q t \<Longrightarrow> p = q"
    "atom_at (FloatTable e) p x \<Longrightarrow> atom_at (FloatTable e) q x \<Longrightarrow> p = q"
    "atom_at (IntegerTable e) p y \<Longrightarrow> atom_at (IntegerTable e) q y \<Longrightarrow> p = q"
    by (rule atom_at_inj [OF ok(1)], assumption+) (rule atom_at_inj [OF ok(2)], assumption+, rule atom_at_inj [OF ok(3)], assumption+)
qed

definition token_of :: "fieldType \<Rightarrow> tokenType" where
  "token_of t = (case t of SYMBOL \<Rightarrow> SYMBOL_TOKEN | STRING \<Rightarrow> STRING_TOKEN | FLOAT \<Rightarrow> FLOAT_TOKEN
     | INTEGER \<Rightarrow> INTEGER_TOKEN | INSTANCE_NAME \<Rightarrow> INSTANCE_NAME_TOKEN | _ \<Rightarrow> UNKNOWN_VALUE)"

text \<open>The token has the type and the atom of the field that is read.\<close>

definition token_returned :: "libc \<Rightarrow> scan \<Rightarrow> byte list \<Rightarrow> field \<Rightarrow> bool" where
  "token_returned l s w f \<longleftrightarrow>
     (\<exists>t e g. GetToken l s = Inr (t, (advance (length w) s)\<lparr>atom_data := e\<rparr>) \<and> grown (atom_data s) e
        \<and> token_type t = token_of (field_type f) \<and> token_value t = Some (field_value g) \<and> reread l e f w g)"

lemma token_returnedI:
  assumes "GetToken l s = Inr (t, (advance (length w) s)\<lparr>atom_data := e\<rparr>)" "grown (atom_data s) e"
    "token_type t = token_of (field_type f)" "token_value t = Some p" "p = field_value f" "field_type f \<noteq> FLOAT"
  shows "token_returned l s w f"
  using assms unfolding token_returned_def reread_def by auto

lemma token_of_field:
  assumes r: "reads_back l (atom_data s) f w" and ok: "libc_ok l" "atoms_ok (atom_data s)"
    and s: "idle s" "readable s" "input s = w @ rest" "\<not> symbol_char (next_char rest)"
  shows "token_returned l s w f"
proof (cases "field_type f")
  case SYMBOL
  with r have w: "atom_at (SymbolTable (atom_data s)) (field_value f) w" "w \<noteq> []" "word_symbol w"
    by (simp_all add: reads_back_def)
  have at: "at_word w rest s" using s w(2) ok(2) by (simp add: at_word_def)
  from w(3) have "\<exists>p e t. GetToken l s = Inr (t, (advance (length w) s)\<lparr>atom_data := e\<rparr>) \<and> grown (atom_data s) e
      \<and> token_type t = SYMBOL_TOKEN \<and> token_value t = Some p \<and> atom_at (SymbolTable e) p w"
    unfolding word_symbol_def
  proof
    assume a: "(\<forall>b \<in> set w. symbol_char (uint b)) \<and> symbol_start (hd w) \<and> \<not> bracketed w"
    then show ?thesis using symbol_word [OF at _ _ ok(1)] by (force simp: word_type_def word_text_def)
  next
    assume a: "(\<forall>b \<in> set w. word_byte b) \<and> (digit (hd w) \<or> sign (hd w) \<or> hd w = 46) \<and> \<not> integer_text w \<and> \<not> float_text w"
    then show ?thesis using other_word [OF at _ _ _ ok(1)] by force
  qed
  then obtain p e t where t: "GetToken l s = Inr (t, (advance (length w) s)\<lparr>atom_data := e\<rparr>)" "grown (atom_data s) e"
    "token_type t = SYMBOL_TOKEN" "token_value t = Some p" "atom_at (SymbolTable e) p w" by blast
  have "p = field_value f"
    using same_atom(1) [OF grown_ok [OF t(2)] t(5)] atom_at_extends [OF w(1)] t(2) by (simp add: grown_def)
  then show ?thesis using SYMBOL t by (intro token_returnedI [OF t(1,2)]) (simp_all add: token_of_def)
next
  case STRING
  with r obtain t where t: "atom_at (SymbolTable (atom_data s)) (field_value f) t" "w = quoted t" "plain_string t"
    by (auto simp: reads_back_def)
  have "input s = 34 # concat (map escape t) @ 34 # rest" using s(3) t(2) by (simp add: quoted_def)
  from quoted_token [OF s(1,2) this _ t(3) libc_ok_allocates [OF ok(1)] ok(2)] obtain p e where
    p: "GetToken l s = Inr (\<lparr>token_type = STRING_TOKEN, token_value = Some p, printForm = w\<rparr>, (advance (length w) s)\<lparr>atom_data := e\<rparr>)"
    "grown (atom_data s) e" "atom_at (SymbolTable e) p t"
    by (auto simp: t(2) quoted_def advance_def)
  have "p = field_value f"
    using same_atom(1) [OF grown_ok [OF p(2)] p(3)] atom_at_extends [OF t(1)] p(2) by (simp add: grown_def)
  then show ?thesis using STRING p by (intro token_returnedI [OF p(1,2)]) (simp_all add: token_of_def)
next
  case INSTANCE_NAME
  with r obtain t where t: "atom_at (SymbolTable (atom_data s)) (field_value f) t" "w = bytes_of ''['' @ t @ bytes_of '']''"
    "t \<noteq> []" "\<forall>b \<in> set t. symbol_char (uint b)"
    by (auto simp: reads_back_def)
  have at: "at_word w rest s" using s ok(2) t(2) by (simp add: at_word_def bytes_of_def)
  have c: "\<forall>b \<in> set w. symbol_char (uint b)" "symbol_start (hd w)"
    using t(2,4) by (auto simp: bytes_of_def symbol_char_def delimiter_def isprint_def symbol_start_def digit_def sign_def)
  have "bracketed w" "word_text w = t" using t(2,3) by (cases t; simp add: bracketed_def word_text_def bytes_of_def)+
  with symbol_word [OF at c ok(1)] obtain p e where
    p: "GetToken l s = Inr (\<lparr>token_type = INSTANCE_NAME_TOKEN, token_value = Some p, printForm = t\<rparr>, (advance (length w) s)\<lparr>atom_data := e\<rparr>)"
    "grown (atom_data s) e" "atom_at (SymbolTable e) p t"
    by (auto simp: word_type_def)
  have "p = field_value f"
    using same_atom(1) [OF grown_ok [OF p(2)] p(3)] atom_at_extends [OF t(1)] p(2) by (simp add: grown_def)
  then show ?thesis using INSTANCE_NAME p by (intro token_returnedI [OF p(1,2)]) (simp_all add: token_of_def)
next
  case FLOAT
  with r obtain x where x: "atom_at (FloatTable (atom_data s)) (field_value f) x" "float_text w" "\<not> integer_text w"
    "\<forall>b \<in> set w. word_byte b" "digit (hd w) \<or> sign (hd w) \<or> hd w = 46" by (auto simp: reads_back_def)
  have "w \<noteq> []" using x(2) by (auto simp: float_text_rest unsigned_part_def)
  then have at: "at_word w rest s" using s ok(2) by (simp add: at_word_def)
  from other_word [OF at x(4,5,3) ok(1)] x(2) obtain p e where
    p: "GetToken l s = Inr (\<lparr>token_type = FLOAT_TOKEN, token_value = Some p, printForm = float_form l (atof l w)\<rparr>,
        (advance (length w) s)\<lparr>atom_data := e\<rparr>)"
    "grown (atom_data s) e" "atom_at (FloatTable e) p (atof l w)" by auto
  have "g = f" if "atom_at (FloatTable e) (field_value f) (atof l w)" "g = \<lparr>field_type = FLOAT, field_value = p\<rparr>" for g
    using same_atom(2) [OF grown_ok [OF p(2)] p(3) that(1)] that(2) FLOAT by (cases f) simp
  then have "reread l e f w \<lparr>field_type = FLOAT, field_value = p\<rparr>" using FLOAT p(3) by (simp add: reread_def)
  then show ?thesis
    unfolding token_returned_def using FLOAT p(1,2)
    by (intro exI [of _ "\<lparr>token_type = FLOAT_TOKEN, token_value = Some p, printForm = float_form l (atof l w)\<rparr>"] exI [of _ e]
        exI [of _ "\<lparr>field_type = FLOAT, field_value = p\<rparr>"]) (simp add: token_of_def)
next
  case INTEGER
  with r obtain x where x: "atom_at (IntegerTable (atom_data s)) (field_value f) x" "w = int_text (sint x)" "x \<noteq> 0x8000000000000000"
    by (auto simp: reads_back_def)
  have at: "at_word w rest s" using s ok(2) int_text_ne x(2) by (simp add: at_word_def)
  have v: "integer_text w" "integer_value w = sint x" using int_text_value [of "sint x"] x(2) by simp_all
  have c: "clamped (sint x) = sint x" using sint_ge [of x] sint_lt [of x] by (simp add: clamped_def)
  have "sint x \<noteq> - (2 ^ 63)"
  proof
    assume "sint x = - (2 ^ 63)"
    then have "sint x = sint (0x8000000000000000 :: 64 word)" by simp
    then show False using x(3) signed_word_eqI by blast
  qed
  then obtain p e where
    p: "GetToken l s = Inr (\<lparr>token_type = INTEGER_TOKEN, token_value = Some p, printForm = w\<rparr>, (advance (length w) s)\<lparr>atom_data := e\<rparr>)"
    "grown (atom_data s) e" "atom_at (IntegerTable e) p x"
    using integer_word [OF at v(1) ok(1)] unfolding v(2) c x(2) [symmetric] by (auto simp: advance_def)
  have "p = field_value f"
    using same_atom(3) [OF grown_ok [OF p(2)] p(3)] atom_at_extends [OF x(1)] p(2) by (simp add: grown_def)
  then show ?thesis using INTEGER p by (intro token_returnedI [OF p(1,2)]) (simp_all add: token_of_def)
qed (use r in \<open>simp_all add: reads_back_def\<close>)

lemma token_field_read:
  assumes "token_type t = token_of (field_type f)" "token_value t = Some (field_value g)" "field_type g = field_type f"
    "field_type f \<in> {SYMBOL, STRING, FLOAT, INTEGER, INSTANCE_NAME}"
  shows "token_field l t s = Inr (g, s)"
  using assms by (auto simp: token_field_def token_of_def)

lemma reread_grown: "reread l e f w g \<Longrightarrow> atoms_ok e \<Longrightarrow> grown e e' \<Longrightarrow> atoms_ok e' \<Longrightarrow> reread l e' f w g"
proof (cases "field_type f = FLOAT")
  case True
  assume r: "reread l e f w g" "grown e e'" "atoms_ok e'"
  have g: "field_type g = FLOAT" "atom_at (FloatTable e') (field_value g) (atof l w)"
    using r(1,2) True atom_at_extends by (auto simp: reread_def grown_def)
  moreover have "g = f" if "atom_at (FloatTable e') (field_value f) (atof l w)"
    using same_atom(2) [OF r(3) g(2) that] g(1) True by (cases f; cases g) simp
  ultimately show ?thesis using True by (simp add: reread_def)
qed (simp add: reread_def)

lemma reads_type: "reads_back l e f w \<Longrightarrow> field_type f \<in> {SYMBOL, STRING, FLOAT, INTEGER, INSTANCE_NAME}"
  by (cases "field_type f") (simp_all add: reads_back_def)

lemma symbol_char_nonzero: "symbol_char (uint b) \<Longrightarrow> b \<noteq> 0" "word_byte b \<Longrightarrow> b \<noteq> 0"
  by (auto simp: symbol_char_def delimiter_def isprint_def IsUTF8MultiByteStart_def IsUTF8MultiByteContinuation_def word_byte_def)

lemma reads_nonzero: "reads_back l e f w \<Longrightarrow> w \<noteq> [] \<and> 0 \<notin> set w"
proof (cases "field_type f")
  case STRING
  then show "reads_back l e f w \<Longrightarrow> w \<noteq> [] \<and> 0 \<notin> set w"
    by (auto simp: reads_back_def quoted_def plain_string_def escape_def split: if_splits)
next
  case INTEGER
  then show "reads_back l e f w \<Longrightarrow> w \<noteq> [] \<and> 0 \<notin> set w"
    using int_text_ne int_text_nonzero by (auto simp: reads_back_def)
next
  case FLOAT
  then show "reads_back l e f w \<Longrightarrow> w \<noteq> [] \<and> 0 \<notin> set w"
    using symbol_char_nonzero(2) by (fastforce simp: reads_back_def float_text_rest unsigned_part_def)
next
  case INSTANCE_NAME
  then show "reads_back l e f w \<Longrightarrow> w \<noteq> [] \<and> 0 \<notin> set w"
    using symbol_char_nonzero(1) by (fastforce simp: reads_back_def bytes_of_def)
next
  case SYMBOL
  then show "reads_back l e f w \<Longrightarrow> w \<noteq> [] \<and> 0 \<notin> set w"
    using symbol_char_nonzero by (fastforce simp: reads_back_def word_symbol_def)
qed (simp_all add: reads_back_def)

text \<open>The texts with a blank before each.\<close>

definition led :: "byte list list \<Rightarrow> byte list" where
  "led ws = concat (map (\<lambda>w. 32 # w) ws)"

lemma led_simps [simp]: "led [] = []" "led (w # ws) = 32 # w @ led ws"
  by (simp_all add: led_def)

lemma joined_led: "joined (w # ws) = w @ led ws"
proof (induction ws arbitrary: w)
  case (Cons v ws)
  have "joined (w # v # ws) = w @ 32 # joined (v # ws)" by (simp add: joined_def butlast_append)
  then show ?case using Cons [of v] by simp
qed (simp add: joined_def)

lemma led_end: "\<not> symbol_char (next_char (led ws))"
  by (cases ws) (simp_all add: symbol_char_def delimiter_def isprint_def IsUTF8MultiByteStart_def IsUTF8MultiByteContinuation_def)

lemma GetToken_end:
  assumes "idle s" "readable s" "input s = []" "allocates l" "atoms_ok (atom_data s)"
  shows "\<exists>t e. GetToken l s = Inr (t, (advance 1 s)\<lparr>atom_data := e\<rparr>) \<and> grown (atom_data s) e \<and> token_type t = STOP"
proof -
  have b: "\<not> blank (next_char (input s))" using assms(3) by (simp add: blank_def)
  from add_symbol_atom [OF assms(4), of "advance 1 s" "bytes_of ''stop''"] assms(5) obtain p e where
    "add_symbol_atom l (Some (bytes_of ''stop'')) (advance 1 s) = Inr (p, (advance 1 s)\<lparr>atom_data := e\<rparr>)" "grown (atom_data s) e"
    by auto
  moreover have "finish ((advance 1 s)\<lparr>atom_data := e\<rparr>) = (advance 1 s)\<lparr>atom_data := e\<rparr>"
    using assms(1) by (intro finish_idle) simp
  ultimately show ?thesis
    using GetToken_from [OF assms(1,2) b, of l] assms(3)
    by (intro exI [of _ "\<lparr>token_type = STOP, token_value = Some p, printForm = []\<rparr>"] exI [of _ e]) (simp add: token_from_def bytes_of_def isalpha_def IsUTF8MultiByteStart_def isdigit_def fixed_token_def)
qed

lemma grown_dirty: "grown e (e'\<lparr>dirty := b\<rparr>) = grown e e'"
  by (simp add: grown_def atoms_ok_def)

definition all_reread :: "libc \<Rightarrow> symbolData \<Rightarrow> field list \<Rightarrow> byte list list \<Rightarrow> field list \<Rightarrow> bool" where
  "all_reread l e fs ws gs \<longleftrightarrow> list_all2 (\<lambda>(f, w) g. reread l e f w g) (zip fs ws) gs"

lemma all_reread_dirty: "all_reread l (e\<lparr>dirty := b\<rparr>) fs ws gs = all_reread l e fs ws gs"
  by (simp add: all_reread_def reread_def)

lemma token_loop_read:
  "list_all2 (reads_back l (atom_data s)) fs ws \<Longrightarrow> libc_ok l \<Longrightarrow> atoms_ok (atom_data s) \<Longrightarrow> idle s \<Longrightarrow> readable s
    \<Longrightarrow> input s = led ws \<Longrightarrow> length fs < fuel \<Longrightarrow>
    \<exists>n e gs. token_loop l fuel s = Some (Inr (gs, (advance n s)\<lparr>atom_data := e\<rparr>)) \<and> grown (atom_data s) e \<and> all_reread l e fs ws gs"
proof (induction fs arbitrary: ws s fuel)
  case Nil
  then obtain k where k: "fuel = Suc k" by (cases fuel) auto
  from Nil GetToken_end [of s l] libc_ok_allocates obtain t e where
    "GetToken l s = Inr (t, (advance 1 s)\<lparr>atom_data := e\<rparr>)" "grown (atom_data s) e" "token_type t = STOP" by auto
  then show ?case by (intro exI [of _ 1] exI [of _ e] exI [of _ "[]"]) (simp add: k return_run_def all_reread_def)
next
  case (Cons f fs)
  then obtain k where k: "fuel = Suc k" by (cases fuel) auto
  from Cons.prems(1) obtain w ws' where w: "ws = w # ws'" "reads_back l (atom_data s) f w"
    "list_all2 (reads_back l (atom_data s)) fs ws'" by (auto simp: list_all2_Cons1)
  have i: "input s = [32] @ (w @ led ws')" using Cons.prems(6) w(1) by simp
  have g: "GetToken l s = GetToken l (advance 1 s)"
    using GetToken_blanks [OF Cons.prems(4,5) i] by (simp add: blank_def)
  have r: "readable (advance 1 s)" "input (advance 1 s) = w @ led ws'" "idle (advance 1 s)"
    using readable_tl [OF Cons.prems(5), of 32 "w @ led ws'"] i Cons.prems(4) by simp_all
  from token_of_field [of l "advance 1 s" f w "led ws'"] w(2) Cons.prems(2,3) r led_end
  obtain t e x where t: "GetToken l (advance 1 s) = Inr (t, (advance (length w) (advance 1 s))\<lparr>atom_data := e\<rparr>)"
    "grown (atom_data s) e" "token_type t = token_of (field_type f)" "token_value t = Some (field_value x)" "reread l e f w x"
    by (auto simp: token_returned_def)
  let ?s = "(advance (length w) (advance 1 s))\<lparr>atom_data := e\<rparr>"
  have s: "readable ?s" "input ?s = led ws'" "idle ?s" "atoms_ok (atom_data ?s)"
    using readable_advance [OF r(1), of "length w"] r(2,3) grown_ok [OF t(2)] Cons.prems(6) w(1) by simp_all
  have "list_all2 (reads_back l (atom_data ?s)) fs ws'"
    using w(3) by (rule list_all2_mono) (simp add: reads_grown [OF _ t(2)])
  from Cons.IH [OF this Cons.prems(2) s(4,3,1,2), of k] Cons.prems(7) k obtain n e' gs where
    n: "token_loop l k ?s = Some (Inr (gs, (advance n ?s)\<lparr>atom_data := e'\<rparr>))" "grown e e'" "all_reread l e' fs ws' gs" by auto
  have "token_type t \<noteq> STOP" using t(3) reads_type [OF w(2)] by (auto simp: token_of_def)
  then have "token_loop l fuel s = Some (Inr (x # gs, (advance n ?s)\<lparr>atom_data := e'\<rparr>))"
    using k g t(1) token_field_read [OF t(3,4) reread_type [OF t(5)] reads_type [OF w(2)], of l] n(1) by (simp add: return_run_def)
  moreover have "(advance n ?s)\<lparr>atom_data := e'\<rparr> = (advance (1 + length w + n) s)\<lparr>atom_data := e'\<rparr>"
    by (simp add: advance_update)
  moreover have "all_reread l e' (f # fs) ws (x # gs)"
    using n(3) reread_grown [OF t(5) grown_ok [OF t(2)] n(2) grown_ok [OF n(2)]] w(1) by (simp add: all_reread_def)
  ultimately show ?case using grown_trans [OF t(2) n(2)] by (intro exI conjI) simp_all
qed

lemma token_loop_joined:
  assumes "list_all2 (reads_back l (atom_data s)) fs ws" "libc_ok l" "atoms_ok (atom_data s)" "idle s" "readable s"
    "input s = joined ws" "length fs < fuel"
  shows "\<exists>n e gs. token_loop l fuel s = Some (Inr (gs, (advance n s)\<lparr>atom_data := e\<rparr>)) \<and> grown (atom_data s) e
    \<and> all_reread l e fs ws gs"
proof (cases fs)
  case Nil
  then show ?thesis using token_loop_read [of l s fs ws fuel] assms by (simp add: joined_def)
next
  case (Cons f fs')
  from assms(1) Cons obtain w ws' where w: "ws = w # ws'" "reads_back l (atom_data s) f w"
    "list_all2 (reads_back l (atom_data s)) fs' ws'" by (auto simp: list_all2_Cons1)
  obtain k where k: "fuel = Suc k" using assms(7) by (cases fuel) auto
  have i: "input s = w @ led ws'" using assms(6) joined_led w(1) by simp
  from token_of_field [OF w(2) assms(2,3,4,5) i led_end]
  obtain t e x where t: "GetToken l s = Inr (t, (advance (length w) s)\<lparr>atom_data := e\<rparr>)"
    "grown (atom_data s) e" "token_type t = token_of (field_type f)" "token_value t = Some (field_value x)" "reread l e f w x"
    by (auto simp: token_returned_def)
  let ?s = "(advance (length w) s)\<lparr>atom_data := e\<rparr>"
  have s: "readable ?s" "input ?s = led ws'" "idle ?s" "atoms_ok (atom_data ?s)"
    using readable_advance [OF assms(5), of "length w"] i assms(4) grown_ok [OF t(2)] by simp_all
  have "list_all2 (reads_back l (atom_data ?s)) fs' ws'"
    using w(3) by (rule list_all2_mono) (simp add: reads_grown [OF _ t(2)])
  from token_loop_read [OF this assms(2) s(4,3,1,2), of k] assms(7) k Cons obtain n e' gs where
    n: "token_loop l k ?s = Some (Inr (gs, (advance n ?s)\<lparr>atom_data := e'\<rparr>))" "grown e e'" "all_reread l e' fs' ws' gs" by auto
  have "token_type t \<noteq> STOP" using t(3) reads_type [OF w(2)] by (auto simp: token_of_def)
  then have "token_loop l fuel s = Some (Inr (x # gs, (advance n ?s)\<lparr>atom_data := e'\<rparr>))"
    using k t(1) token_field_read [OF t(3,4) reread_type [OF t(5)] reads_type [OF w(2)], of l] n(1) Cons by (simp add: return_run_def)
  moreover have "(advance n ?s)\<lparr>atom_data := e'\<rparr> = (advance (length w + n) s)\<lparr>atom_data := e'\<rparr>"
    by (simp add: advance_update)
  moreover have "all_reread l e' fs ws (x # gs)"
    using n(3) reread_grown [OF t(5) grown_ok [OF t(2)] n(2) grown_ok [OF n(2)]] w(1) Cons by (simp add: all_reread_def)
  ultimately show ?thesis using grown_trans [OF t(2) n(2)] by (intro exI conjI) simp_all
qed

lemma joined_nonzero: "list_all2 (reads_back l e) fs ws \<Longrightarrow> 0 \<notin> set (joined ws)"
proof -
  assume a: "list_all2 (reads_back l e) fs ws"
  have "\<forall>w \<in> set ws. 0 \<notin> set w"
    using a reads_nonzero by (auto simp: list_all2_conv_all_nth in_set_conv_nth) blast
  then show ?thesis unfolding joined_def spaced_def by (auto dest!: in_set_butlastD split: if_splits)
qed

lemma string_exploded:
  assumes "list_all2 (reads_back (lib h) (atom_data (scanner st))) fs ws" "libc_ok (lib h)"
    and "atoms_ok (atom_data (scanner st))" "idle (scanner st)" "length fs < fuel" "makes_room h" "finite (dom (segments st))"
  shows "\<exists>e p gs. StringToMultifield fuel h (joined ws) st = Some (Inr (p, built p gs (with_atoms e st)))
    \<and> grown (atom_data (scanner st)) e \<and> segments st p = None \<and> all_reread (lib h) e fs ws gs"
proof -
  let ?s = "OpenStringSource (joined ws) (scanner st)"
  have c: "c_string (joined ws) = joined ws" using c_string_nonzero joined_nonzero [OF assms(1)] by blast
  have s: "idle ?s" "readable ?s" "input ?s = joined ws" "atom_data ?s = atom_data (scanner st)"
    using assms(4) joined_nonzero [OF assms(1)] by (simp_all add: OpenStringSource_def idle_def readable_def input_def c)
  from token_loop_joined [of "lib h" ?s fs ws fuel] assms s obtain n e gs where
    n: "token_loop (lib h) fuel ?s = Some (Inr (gs, (advance n ?s)\<lparr>atom_data := e\<rparr>))" "grown (atom_data (scanner st)) e"
      "all_reread (lib h) e fs ws gs" by auto
  define st1 where "st1 = with_atoms e st"
  define p where "p = new_segment h st1"
  have "st\<lparr>scanner := CloseStringSource (scanner st) ((advance n ?s)\<lparr>atom_data := e\<rparr>)\<rparr> = st1"
    by (simp add: st1_def with_atoms_def CloseStringSource_def OpenStringSource_def advance_def)
  moreover have "EnvCreateMultifield h (int (length gs)) st1 =
      (p, building p (int (length gs)) [] (length gs + (if gs = [] then 1 else 0)) (AddToMultifieldList p st1))"
    unfolding EnvCreateMultifield_building p_def by (cases gs) simp_all
  ultimately have "StringToMultifield fuel h (joined ws) st = Some (Inr (p, built p gs st1))"
    using n(1) store_fields_building [of gs p "[]" "int (length gs)" "if gs = [] then 1 else 0" "AddToMultifieldList p st1"]
    by (simp add: StringToMultifield_def built_def return_run_def)
  moreover have "segments st p = None" using assms(6,7) unfolding makes_room_def p_def st1_def by (metis with_atoms_simps(4))
  ultimately show ?thesis using n(2,3) unfolding st1_def by blast
qed

lemma explode_call:
  assumes "evaluates h args [v] st" "do_type v = STRING" "ValueToString (do_value v) (scanner st) = Inr str"
    and "StringToMultifield fuel h str st = Some (Inr (p, built p fs st'))"
  shows "ExplodeFunction fuel h args st = Some (Inr (whole p fs, built p fs st'))"
proof -
  have "segment_at p (built p fs st') = Inr \<lparr>busyCount = 0, multifieldLength = int (length fs),
      theFields = map Some fs @ replicate (if fs = [] then 1 else 0) None\<rparr>"
    by (simp add: segment_at_def built_def building_def)
  then show ?thesis
    using assms(2-4) evaluates_length [OF assms(1)]
    by (simp add: ExplodeFunction_def EnvArgCountCheck_def EnvRtnArgCount_def with_arg_first(1) [OF assms(1)]
        return_run_def multifield_object_def whole_def)
qed

text \<open>
  C9: what \<open>implode$\<close> makes of a multifield is read back by \<open>explode$\<close> field by field: symbols, strings, instance names
  and integers as the same atoms with the same types, and a float as the float that \<open>atof\<close> reads from the 15 digits
  that it was printed with, which is the same float if they determine it; no atom is lost. The symbols are those that scan as one symbol,
  the strings those whose characters the scanner keeps, and the integer is not the least one.
\<close>

theorem imploded_read_back:
  assumes "evaluates h args [d] st" "value_fields d st fs" "list_all2 (reads_back (lib h) (atom_data (scanner st))) fs ws"
    and "libc_ok (lib h)" "atoms_ok (atom_data (scanner st))" "idle (scanner st)" "makes_room h" "finite (dom (segments st))"
    and "ImplodeFunction h args st = Inr (p, st1)"
    and "evaluates h args' [v] st1" "do_type v = STRING" "do_value v = p" "length fs < fuel"
  shows "\<exists>r st2 gs. ExplodeFunction fuel h args' st1 = Some (Inr (r, st2)) \<and> value_fields r st2 gs
    \<and> all_reread (lib h) (atom_data (scanner st2)) fs ws gs \<and> grown (atom_data (scanner st)) (atom_data (scanner st2))"
proof -
  have "do_type d = MULTIFIELD" using assms(2) by (simp add: value_fields_def)
  then have imp: "ImplodeFunction h args st = ImplodeMultifield h d st"
    using evaluates_length [OF assms(1)]
    by (simp add: ImplodeFunction_def EnvArgCountCheck_def EnvRtnArgCount_def with_arg_first(1) [OF assms(1)])
  have "list_all2 (prints h (atom_data (scanner st))) fs ws"
    using assms(3) by (rule list_all2_mono) (rule reads_prints)
  from imploded [OF assms(2) this assms(4,5)] assms(9) imp obtain e where
    e: "st1 = with_atoms e st" "grown (atom_data (scanner st)) e" "atom_at (SymbolTable e) p (c_string (joined ws))" by auto
  have "c_string (joined ws) = joined ws" using c_string_nonzero joined_nonzero [OF assms(3)] by blast
  then have "ValueToString p (scanner st1) = Inr (joined ws)"
    using e(1,3) ValueToString_at [of "scanner st1" p] by simp
  moreover have "list_all2 (reads_back (lib h) (atom_data (scanner st1))) fs ws"
    using assms(3) by (rule list_all2_mono) (simp add: e(1) reads_grown [OF _ e(2)])
  moreover have "atoms_ok (atom_data (scanner st1))" "idle (scanner st1)" "finite (dom (segments st1))"
    using grown_ok [OF e(2)] assms(6,8) by (simp_all add: e(1) with_atoms_def idle_def)
  ultimately obtain q e' gs where
      q: "StringToMultifield fuel h (joined ws) st1 = Some (Inr (q, built q gs (with_atoms e' st1)))" "all_reread (lib h) e' fs ws gs"
      "grown (atom_data (scanner st1)) e'"
    using string_exploded [of h st1 fs ws fuel] assms(4,7,13) by blast
  have "ExplodeFunction fuel h args' st1 = Some (Inr (whole q gs, built q gs (with_atoms e' st1)))"
    using explode_call [OF assms(10,11) _ q(1)] assms(12) \<open>ValueToString p (scanner st1) = Inr (joined ws)\<close> by simp
  moreover have d: "\<exists>b. atom_data (scanner (built q gs (with_atoms e' st1))) = e'\<lparr>dirty := b\<rparr>"
    by (intro exI [of _ True]) (simp add: built_def building_def with_atoms_def AddToMultifieldList_def Let_def)
  then have "all_reread (lib h) (atom_data (scanner (built q gs (with_atoms e' st1)))) fs ws gs"
    "grown (atom_data (scanner st)) (atom_data (scanner (built q gs (with_atoms e' st1))))"
    using q(2,3) e(2) grown_trans [OF e(2), of e'] by (auto simp: all_reread_dirty e(1) grown_dirty)
  ultimately show ?thesis using value_fields_whole by blast
qed

lemma demo_texts:
  "list_all2 (reads_back demo_libc (atom_data (scanner demo_machine))) demo_fields [[49], [98], [49]]"
proof -
  have "reads_back demo_libc demo_atoms (number 11) [49]"
    by (simp add: reads_back_def number_def demo_atoms_def atom_at_def demo_integer_def int_text_def nat_text.simps)
  moreover have "reads_back demo_libc demo_atoms \<lparr>field_type = SYMBOL, field_value = 7\<rparr> [98]"
    by (simp add: reads_back_def demo_atoms_def atom_at_def demo_data_def word_symbol_def symbol_char_def delimiter_def
        isprint_def symbol_start_def isalpha_def digit_def sign_def bracketed_def)
  ultimately show ?thesis by (simp add: demo_fields_def demo_machine_def)
qed

lemma demo_prints:
  "list_all2 (prints demo_host (atom_data (scanner demo_machine))) demo_fields [[49], [98], [49]]"
  using demo_texts by (rule list_all2_mono) (rule reads_prints, simp)

theorem fields_imploded_witness:
  "\<exists>p st. ImplodeFunction demo_host [demo_value] demo_machine = Inr (p, st)
    \<and> ValueToString p (scanner st) = Inr (bytes_of ''1 b 1'')"
proof -
  have l: "libc_ok (lib demo_host)" using demo_libc_ok by simp
  have j: "c_string (joined [[49], [98], [49]]) = bytes_of ''1 b 1''" by (simp add: joined_def c_string_def bytes_of_def)
  from fields_imploded [OF demo_evaluates demo_value_fields demo_prints l] obtain p e where
    "ImplodeFunction demo_host [demo_value] demo_machine = Inr (p, with_atoms e demo_machine)"
    "atom_at (SymbolTable e) p (bytes_of ''1 b 1'')" unfolding j by auto
  then show ?thesis using ValueToString_at [of "scanner (with_atoms e demo_machine)" p] by auto
qed

text \<open>A multifield of a float and a symbol\<close>

definition float_atoms :: symbolData where
  "float_atoms = demo_data\<lparr>FloatTable := \<lparr>
     nodes = [31 \<mapsto> \<lparr>count = 1, permanent = False, markedEphemeral = False, bucket = float_hash 0x3FF8000000000000, contents = 0x3FF8000000000000\<rparr>],
     chains = (\<lambda>b. if b = float_hash 0x3FF8000000000000 then [31] else []), ephemerals = []\<rparr>\<rparr>"

definition float_fields :: "field list" where
  "float_fields = [\<lparr>field_type = FLOAT, field_value = 31\<rparr>, \<lparr>field_type = SYMBOL, field_value = 7\<rparr>]"

definition float_machine :: machine where
  "float_machine = demo_machine\<lparr>scanner := (demo_scan [])\<lparr>atom_data := float_atoms\<rparr>,
     segments := [1 \<mapsto> \<lparr>busyCount = 0, multifieldLength = 2, theFields = map Some float_fields\<rparr>]\<rparr>"

definition float_value :: dataObject where
  "float_value = \<lparr>do_type = MULTIFIELD, do_value = 1, do_begin = 0, do_end = 1\<rparr>"

lemma float_atoms_ok: "atoms_ok float_atoms"
proof -
  have "table_ok float_hash (\<lambda>x. \<not> is_nan x) (FloatTable float_atoms)"
    by (auto simp: float_atoms_def table_ok_def chained_def is_nan_def split: if_splits)
  then show ?thesis using demo_data_ok by (simp add: atoms_ok_def float_atoms_def)
qed

lemma float_machine_simps [simp]:
  "EvaluationError float_machine = False" "atom_data (scanner float_machine) = float_atoms" "idle (scanner float_machine)"
  "finite (dom (segments float_machine))"
  by (simp_all add: float_machine_def demo_machine_def demo_scan_def idle_def)

lemma float_value_fields: "value_fields float_value float_machine float_fields"
  by (simp add: value_fields_def float_value_def float_machine_def float_fields_def GetDOLength_def get_field_def segment_at_def)

lemma float_texts: "list_all2 (reads_back demo_libc float_atoms) float_fields [[49, 46, 53], [98]]"
proof -
  have "float_text [49, 46, 53]"
    unfolding float_text_def
    by (intro exI [of _ "[49, 46, 53]"] exI [of _ "[]"])
      (simp add: unsigned_part_def sign_def mantissa_def, rule disjI2, rule exI [of _ "[49]"], rule exI [of _ "[53]"],
        simp add: digits_def digit_def)
  then have "reads_back demo_libc float_atoms \<lparr>field_type = FLOAT, field_value = 31\<rparr> [49, 46, 53]"
    by (simp add: reads_back_def float_atoms_def atom_at_def float_form_def demo_libc_def bytes_of_def integer_text_def unsigned_part_def
        sign_def digits_def digit_def word_byte_def symbol_char_def delimiter_def isprint_def)
  moreover have "reads_back demo_libc float_atoms \<lparr>field_type = SYMBOL, field_value = 7\<rparr> [98]"
    by (simp add: reads_back_def float_atoms_def atom_at_def demo_data_def word_symbol_def symbol_char_def delimiter_def
        isprint_def symbol_start_def isalpha_def digit_def sign_def bracketed_def)
  ultimately show ?thesis by (simp add: float_fields_def)
qed

lemma float_prints: "list_all2 (prints demo_host (atom_data (scanner float_machine))) float_fields [[49, 46, 53], [98]]"
  unfolding float_machine_simps(2) using float_texts by (rule list_all2_mono) (rule reads_prints, simp)

theorem imploded_read_back_witness:
  "\<exists>p st r st'. ImplodeFunction demo_host [float_value] float_machine = Inr (p, st)
    \<and> ExplodeFunction 3 demo_host [\<lparr>do_type = STRING, do_value = p, do_begin = 0, do_end = 0\<rparr>] st = Some (Inr (r, st'))
    \<and> value_fields r st' float_fields"
proof -
  have l: "libc_ok (lib demo_host)" using demo_libc_ok by simp
  have do: "do_type float_value = MULTIFIELD" by (simp add: float_value_def)
  have e: "evaluates demo_host [float_value] [float_value] float_machine" by (rule demo_evaluates) simp
  have ok: "atoms_ok (atom_data (scanner float_machine))" using float_atoms_ok by simp
  from imploded [OF float_value_fields float_prints l ok] obtain p ed where
    im: "ImplodeMultifield demo_host float_value float_machine = Inr (p, with_atoms ed float_machine)" by auto
  then have i: "ImplodeFunction demo_host [float_value] float_machine = Inr (p, with_atoms ed float_machine)"
    using do by (simp add: ImplodeFunction_def EnvArgCountCheck_def EnvRtnArgCount_def with_arg_first(1) [OF e])
  let ?v = "\<lparr>do_type = STRING, do_value = p, do_begin = 0, do_end = 0\<rparr>"
  have e': "evaluates demo_host [?v] [?v] (with_atoms ed float_machine)"
    by (rule demo_evaluates) (simp add: with_atoms_def)
  have t: "list_all2 (reads_back (lib demo_host) (atom_data (scanner float_machine))) float_fields [[49, 46, 53], [98]]"
    using float_texts by simp
  from imploded_read_back [OF e float_value_fields t l ok _ demo_room _ i e', of 3] obtain r st' gs where
    r: "ExplodeFunction 3 demo_host [?v] (with_atoms ed float_machine) = Some (Inr (r, st'))" "value_fields r st' gs"
      "all_reread demo_libc (atom_data (scanner st')) float_fields [[49, 46, 53], [98]] gs"
      "grown float_atoms (atom_data (scanner st'))"
    by (auto simp: float_fields_def)
  have "atom_at (FloatTable float_atoms) 31 0x3FF8000000000000" by (simp add: float_atoms_def atom_at_def)
  then have "atom_at (FloatTable (atom_data (scanner st'))) 31 0x3FF8000000000000"
    using r(4) atom_at_extends by (auto simp: grown_def)
  then have "gs = float_fields" using r(3) by (auto simp: all_reread_def reread_def float_fields_def list_all2_Cons1 demo_libc_def)
  then show ?thesis using i r(1,2) by blast
qed

end
