(* ===== verification/SortFunction.thy ===== *)
theory SortFunction
  imports MultifieldFunctions
begin

text \<open>
  \<open>CLIPS/sortfun.c\<close>: the function \<open>sort\<close>, a merge sort that asks a function of the language how two values compare. The
  array and the array it merges into are lists with checked accesses; a value of the second that was not stored is None.
\<close>

section \<open>Merging\<close>

text \<open>
  \<open>swapFunction\<close> is given values of the array, and says if the first is to come after the second; it may change the
  state.
\<close>

type_synonym ('a, 'm) swapper = "'a \<Rightarrow> 'a \<Rightarrow> 'm \<Rightarrow> (bool \<times> 'm) res"

definition sort_pair :: "('a, 'm) swapper \<Rightarrow> nat \<Rightarrow> nat \<Rightarrow> 'a list \<Rightarrow> 'm \<Rightarrow> ('a list \<times> 'm) res" where
  "sort_pair swapFunction s e theList st =
     bind_res (get_at theList s) (\<lambda>x.
     bind_res (get_at theList e) (\<lambda>y.
     bind_res (swapFunction x y st) (\<lambda>(r, st).
       if r then
         bind_res (put_at theList s y) (\<lambda>theList.
         bind_res (put_at theList e x) (\<lambda>theList. Inr (theList, st)))
       else Inr (theList, st))))"

text \<open>The loop with \<open>n\<close> values to go, \<open>n\<close> being \<open>e2 + 1 - mergePoint\<close>.\<close>

fun merge_loop :: "('a, 'm) swapper \<Rightarrow> nat \<Rightarrow> nat \<Rightarrow> nat \<Rightarrow> nat \<Rightarrow> nat \<Rightarrow> nat \<Rightarrow> 'a list \<Rightarrow> 'a option list \<Rightarrow> 'm
    \<Rightarrow> ('a option list \<times> 'm) res" where
  "merge_loop swapFunction 0 mergePoint c1 e1 c2 e2 theList tempList st = Inr (tempList, st)"
| "merge_loop swapFunction (Suc n) mergePoint c1 e1 c2 e2 theList tempList st =
     bind_res
       (if e1 < c1 then Inr (True, st)
        else if e2 < c2 then Inr (False, st)
        else
          bind_res (get_at theList c1) (\<lambda>x.
          bind_res (get_at theList c2) (\<lambda>y. swapFunction x y st)))
       (\<lambda>(second, st).
         bind_res (get_at theList (if second then c2 else c1)) (\<lambda>v.
         bind_res (put_at tempList mergePoint (Some v)) (\<lambda>tempList.
           merge_loop swapFunction n (mergePoint + 1) (if second then c1 else c1 + 1) e1
             (if second then c2 + 1 else c2) e2 theList tempList st)))"

text \<open>The \<open>n\<close> values from \<open>c\<close> on are copied back.\<close>

fun copy_back :: "nat \<Rightarrow> nat \<Rightarrow> 'a list \<Rightarrow> 'a option list \<Rightarrow> 'a list res" where
  "copy_back 0 c theList tempList = Inr theList"
| "copy_back (Suc n) c theList tempList =
     bind_res (get_at tempList c) (\<lambda>v.
       case v of
         None \<Rightarrow> Inl Undefined
       | Some x \<Rightarrow> bind_res (put_at theList c x) (\<lambda>theList. copy_back n (c + 1) theList tempList))"

text \<open>
  The areas have one value at least; \<open>e1 - s1\<close> would wrap around for an area that has none.
\<close>

function DoMergeSort :: "('a, 'm) swapper \<Rightarrow> nat \<Rightarrow> nat \<Rightarrow> nat \<Rightarrow> nat \<Rightarrow> 'a list \<times> 'a option list \<times> 'm
    \<Rightarrow> ('a list \<times> 'a option list \<times> 'm) res" where
  "DoMergeSort swapFunction s1 e1 s2 e2 arrays =
     bind_res
       (if s1 = e1 then Inr arrays
        else if e1 < s1 then Inl Overflow
        else if s1 + 1 = e1 then
          case arrays of (theList, tempList, st) \<Rightarrow>
          bind_res (sort_pair swapFunction s1 e1 theList st) (\<lambda>(theList, st). Inr (theList, tempList, st))
        else DoMergeSort swapFunction s1 (s1 + (e1 - s1 + 1 + 1) div 2 - 1) (s1 + (e1 - s1 + 1 + 1) div 2) e1 arrays)
       (\<lambda>arrays.
     bind_res
       (if s2 = e2 then Inr arrays
        else if e2 < s2 then Inl Overflow
        else if s2 + 1 = e2 then
          case arrays of (theList, tempList, st) \<Rightarrow>
          bind_res (sort_pair swapFunction s2 e2 theList st) (\<lambda>(theList, st). Inr (theList, tempList, st))
        else DoMergeSort swapFunction s2 (s2 + (e2 - s2 + 1 + 1) div 2 - 1) (s2 + (e2 - s2 + 1 + 1) div 2) e2 arrays)
       (\<lambda>(theList, tempList, st).
     bind_res (merge_loop swapFunction (e2 + 1 - s1) s1 s1 e1 s2 e2 theList tempList st) (\<lambda>(tempList, st).
     bind_res (copy_back (e2 + 1 - s1) s1 theList tempList) (\<lambda>theList. Inr (theList, tempList, st)))))"
  by pat_completeness auto
termination
  by (relation "measure (\<lambda>(swap, s1, e1, s2, e2, arrays). (e1 - s1) + (e2 - s2))") auto

declare DoMergeSort.simps [simp del]

definition MergeSort :: "('a, 'm) swapper \<Rightarrow> 'a list \<Rightarrow> 'm \<Rightarrow> ('a list \<times> 'm) res" where
  "MergeSort swapFunction theList st =
     (let listSize = length theList; middle = (listSize + 1) div 2 in
      if listSize \<le> 1 then Inr (theList, st)
      else bind_res (DoMergeSort swapFunction 0 (middle - 1) middle (listSize - 1)
             (theList, replicate listSize None, st)) (\<lambda>(theList, tempList, st). Inr (theList, st)))"

section \<open>The function\<close>

text \<open>
  What a name refers to: a function of the system with its restrictions, a deffunction with the least and the greatest
  number of its parameters, -1 for any, or a generic function.
\<close>

datatype reference = System address "byte list option" | Deffunction address int int | Generic address

text \<open>\<open>atoi\<close> of one character\<close>

definition digit_value :: "byte \<Rightarrow> int" where
  "digit_value c = (if 48 \<le> c \<and> c \<le> 57 then uint c - 48 else -1)"

definition GetMinimumArgs :: "byte list option \<Rightarrow> int" where
  "GetMinimumArgs restrictions =
     (case restrictions of None \<Rightarrow> -1 | Some [] \<Rightarrow> -1 | Some (c # _) \<Rightarrow> digit_value c)"

definition GetMaximumArgs :: "byte list option \<Rightarrow> int" where
  "GetMaximumArgs restrictions =
     (case restrictions of Some (_ # c # _) \<Rightarrow> digit_value c | _ \<Rightarrow> -1)"

definition takes_two :: "reference \<Rightarrow> bool" where
  "takes_two r =
     (case r of
        System _ restrictions \<Rightarrow>
          \<not> (2 < GetMinimumArgs restrictions \<or> GetMaximumArgs restrictions = 0 \<or> GetMaximumArgs restrictions = 1)
      | Deffunction _ lo hi \<Rightarrow> \<not> (2 < lo \<or> hi = 0 \<or> hi = 1)
      | Generic _ \<Rightarrow> True)"

text \<open>
  The lookup of a name and the evaluation of a call on two constants, with the busy count of the function, are
  parameters.
\<close>

record 'x sorting = "'x host" +
  FunctionReference :: "byte list \<Rightarrow> machine \<Rightarrow> reference option"
  call_on :: "reference \<Rightarrow> field \<Rightarrow> field \<Rightarrow> machine \<Rightarrow> dataObject \<times> machine"

text \<open>The constants of a call are installed while it is evaluated.\<close>

definition install_item :: "('x, 'z) host_scheme \<Rightarrow> nat \<Rightarrow> field \<Rightarrow> machine \<Rightarrow> machine res" where
  "install_item h depth x st = AtomInstall (host.truncate h) depth (field_type x) (field_value x) st"

definition deinstall_item :: "('x, 'z) host_scheme \<Rightarrow> nat \<Rightarrow> field \<Rightarrow> machine \<Rightarrow> machine res" where
  "deinstall_item h depth x st = AtomDeinstall (host.truncate h) depth (field_type x) (field_value x) st"

definition DefaultCompareSwapFunction :: "'x sorting \<Rightarrow> nat \<Rightarrow> reference \<Rightarrow> (field, machine) swapper" where
  "DefaultCompareSwapFunction h depth r item1 item2 st =
     bind_res (install_item h depth item1 st) (\<lambda>st.
     bind_res (install_item h depth item2 st) (\<lambda>st.
     let (returnValue, st) = call_on h r item1 item2 st in
     bind_res (deinstall_item h depth item1 st) (\<lambda>st.
     bind_res (deinstall_item h depth item2 st) (\<lambda>st.
       Inr (\<not> (do_type returnValue = SYMBOL \<and> do_value returnValue = do_value (EnvFalseSymbol st)), st)))))"

text \<open>The arguments are evaluated, whatever errors there are, and their fields collected in an array.\<close>

fun pack_items :: "dataObject list \<Rightarrow> machine \<Rightarrow> field list res" where
  "pack_items [] st = Inr []"
| "pack_items (v # vs) st =
     bind_res
       (if do_type v = MULTIFIELD then fields_of (nat (GetDOLength v)) (do_value v) (do_begin v) st
        else Inr [\<lparr>field_type = do_type v, field_value = do_value v\<rparr>])
       (\<lambda>fs. bind_res (pack_items vs st) (\<lambda>rest. Inr (fs @ rest)))"

fun each_item :: "(field \<Rightarrow> machine \<Rightarrow> machine res) \<Rightarrow> field list \<Rightarrow> machine \<Rightarrow> machine res" where
  "each_item f [] st = Inr st"
| "each_item f (x # xs) st = bind_res (f x st) (each_item f xs)"

definition sort_items :: "'x sorting \<Rightarrow> nat \<Rightarrow> reference \<Rightarrow> field list \<Rightarrow> machine \<Rightarrow> (dataObject \<times> machine) res" where
  "sort_items h depth r items st =
     bind_res (each_item (install_item h depth) items st) (\<lambda>st.
     bind_res (MergeSort (DefaultCompareSwapFunction h depth r) items st) (\<lambda>(items, st).
     bind_res (each_item (deinstall_item h depth) items st) (\<lambda>st.
       let (p, st) = EnvCreateMultifield (host.truncate h) (int (length items)) st in
       bind_res (store_fields items p 0 st) (\<lambda>st. Inr (multifield_object p 1 (int (length items)), st)))))"

definition SortFunction :: "'x sorting \<Rightarrow> nat \<Rightarrow> 'x list \<Rightarrow> machine \<Rightarrow> (dataObject \<times> machine) res" where
  "SortFunction h depth args st =
     (let falseValue = EnvFalseSymbol st; failure = (\<lambda>st. Inr (falseValue, st)); h' = host.truncate h;
          (argumentCount, st) = EnvArgCountCheck AT_LEAST 1 args st in
      if argumentCount = -1 then failure st
      else with_arg h' args 1 (Exactly SYMBOL) failure Inl (\<lambda>theArg st.
        bind_res (ValueToString (do_value theArg) (scanner st)) (\<lambda>functionName.
          case FunctionReference h functionName st of
            None \<Rightarrow> failure (report ''ARGACCES5'' st)
          | Some r \<Rightarrow>
              if \<not> takes_two r then failure (report ''ARGACCES5'' st)
              else if argumentCount = 1 then error_value h' st
              else
                let (theArguments, st) = unknown_args h' (drop 1 args) st;
                    argumentSize = sum_list (map value_length theArguments) in
                if argumentSize = 0 then error_value h' st
                else bind_res (pack_items theArguments st) (\<lambda>items. sort_items h depth r items st))) st)"

end
