(* ===== verification/Sorting.thy ===== *)
theory Sorting
  imports SortFunction MultifieldValues "HOL-Library.Sorting_Algorithms"
begin

text \<open>
  The merge sort of \<open>SortFunction\<close>: what it returns for any comparison, for one that is an order, and the function of
  the language with the reference counts of the values that it sorts.
\<close>

section \<open>Merging by any comparison\<close>

text \<open>
  The contract of a comparison: it returns, keeps the invariant of the state, and its answers are within \<open>B\<close>. \<open>merges\<close> and
  \<open>sorts\<close> relate lists to what may become of them, whatever the answers within \<open>B\<close> are, which need not be an order.
\<close>

definition decides :: "('a, 'm) swapper \<Rightarrow> ('m \<Rightarrow> bool) \<Rightarrow> 'a set \<Rightarrow> ('a \<Rightarrow> 'a \<Rightarrow> bool \<Rightarrow> bool) \<Rightarrow> bool" where
  "decides swap good A B \<longleftrightarrow>
     (\<forall>x\<in>A. \<forall>y\<in>A. \<forall>st. good st \<longrightarrow> (\<exists>r st'. swap x y st = Inr (r, st') \<and> good st' \<and> B x y r))"

lemma decidesD:
  assumes "decides swap good A B" "x \<in> A" "y \<in> A" "good st"
  obtains r st' where "swap x y st = Inr (r, st')" "good st'" "B x y r"
  using assms unfolding decides_def by blast

inductive merges :: "('a \<Rightarrow> 'a \<Rightarrow> bool \<Rightarrow> bool) \<Rightarrow> 'a list \<Rightarrow> 'a list \<Rightarrow> 'a list \<Rightarrow> bool" for B where
  merges_Nil: "merges B [] [] []"
| merges_second: "merges B [] ys zs \<Longrightarrow> merges B [] (y # ys) (y # zs)"
| merges_first: "merges B xs [] zs \<Longrightarrow> merges B (x # xs) [] (x # zs)"
| merges_swap: "B x y True \<Longrightarrow> merges B (x # xs) ys zs \<Longrightarrow> merges B (x # xs) (y # ys) (y # zs)"
| merges_keep: "B x y False \<Longrightarrow> merges B xs (y # ys) zs \<Longrightarrow> merges B (x # xs) (y # ys) (x # zs)"

inductive sorts :: "('a \<Rightarrow> 'a \<Rightarrow> bool \<Rightarrow> bool) \<Rightarrow> 'a list \<Rightarrow> 'a list \<Rightarrow> bool" for B where
  sorts_one: "sorts B [x] [x]"
| sorts_merge: "sorts B us xs \<Longrightarrow> sorts B vs ys \<Longrightarrow> merges B xs ys zs \<Longrightarrow> sorts B (us @ vs) zs"

lemma merges_mset: "merges B xs ys zs \<Longrightarrow> mset zs = mset xs + mset ys"
  by (induction rule: merges.induct) auto

lemma merges_length: "merges B xs ys zs \<Longrightarrow> length zs = length xs + length ys"
  by (induction rule: merges.induct) auto

lemma sorts_mset: "sorts B us zs \<Longrightarrow> mset zs = mset us"
  by (induction rule: sorts.induct) (auto simp: merges_mset)

lemma sorts_length: "sorts B us zs \<Longrightarrow> length zs = length us"
  by (metis sorts_mset size_mset)

lemma sorts_set: "sorts B us zs \<Longrightarrow> set zs = set us"
  by (metis sorts_mset set_mset_mset)

lemma merges_alone: "merges B [] ys ys" "merges B ys [] ys"
  by (induction ys) (auto intro: merges.intros)

lemma sorts_pair: "B x y r \<Longrightarrow> sorts B [x, y] (if r then [y, x] else [x, y])"
proof -
  assume r: "B x y r"
  have "merges B [x] [y] (if r then [y, x] else [x, y])"
    using r by (cases r) (auto intro: merges.intros merges_alone)
  from sorts_merge [OF sorts_one sorts_one this] show ?thesis by simp
qed

section \<open>Parts of the array\<close>

definition part :: "nat \<Rightarrow> nat \<Rightarrow> 'a list \<Rightarrow> 'a list" where
  "part a b xs = take (b - a) (drop a xs)"

lemma part_empty [simp]: "b \<le> a \<Longrightarrow> part a b xs = []"
  by (simp add: part_def)

lemma part_length [simp]: "b \<le> length xs \<Longrightarrow> length (part a b xs) = b - a"
  by (simp add: part_def)

lemma part_Cons: "a < b \<Longrightarrow> b \<le> length xs \<Longrightarrow> part a b xs = xs ! a # part (Suc a) b xs"
  by (simp add: part_def Cons_nth_drop_Suc [symmetric] Suc_diff_Suc [symmetric])

lemma part_append:
  assumes "a \<le> b" "b \<le> c"
  shows "part a b xs @ part b c xs = part a c xs"
proof -
  have "c - a = (b - a) + (c - b)" "drop b xs = drop (b - a) (drop a xs)" using assms by simp_all
  then show ?thesis unfolding part_def by (simp only: take_add)
qed

lemma part_set: "set (part a b xs) \<subseteq> set xs"
  by (auto simp: part_def dest!: in_set_takeD in_set_dropD)

lemma part_split: "a \<le> b \<Longrightarrow> xs = take a xs @ part a b xs @ drop b xs"
  using part_append [of 0 a b xs] by (simp add: part_def) (metis append_assoc append_take_drop_id)

text \<open>What is in a part after it or the one before it was replaced.\<close>

lemma part_replaced:
  assumes "a \<le> b" "b \<le> length xs" "length zs = b - a"
  shows "part a b (take a xs @ zs @ drop b xs) = zs"
    and "b \<le> c \<Longrightarrow> part b c (take a xs @ zs @ drop b xs) = part b c xs"
    and "length (take a xs @ zs @ drop b xs) = length xs"
  using assms by (simp_all add: part_def)

lemma replaced_twice:
  assumes "a \<le> b" "b \<le> length xs" "length zs = b - a" "length zs' = c - b" "b \<le> c" "c \<le> length xs"
  shows "take b (take a xs @ zs @ drop b xs) @ zs' @ drop c (take a xs @ zs @ drop b xs) = take a xs @ (zs @ zs') @ drop c xs"
  using assms by simp

lemma sort_pair_ok:
  assumes d: "decides swap good A B" and "good st" "set xs \<subseteq> A" "Suc s < length xs"
  shows "\<exists>zs st'. sort_pair swap s (Suc s) xs st = Inr (take s xs @ zs @ drop (Suc (Suc s)) xs, st')
           \<and> good st' \<and> sorts B (part s (Suc (Suc s)) xs) zs"
proof -
  have "xs ! s \<in> A" "xs ! Suc s \<in> A" using assms by auto
  from decidesD [OF d this \<open>good st\<close>] obtain r st' where r: "swap (xs ! s) (xs ! Suc s) st = Inr (r, st')" "good st'"
    "B (xs ! s) (xs ! Suc s) r" .
  have p: "part s (Suc (Suc s)) xs = [xs ! s, xs ! Suc s]" using assms by (simp add: part_Cons)
  have "xs = take s xs @ [xs ! s, xs ! Suc s] @ drop (Suc (Suc s)) xs"
    using part_split [of s "Suc (Suc s)" xs] p by simp
  moreover have "xs[s := xs ! Suc s, Suc s := xs ! s] = take s xs @ [xs ! Suc s, xs ! s] @ drop (Suc (Suc s)) xs"
    using assms(4) by (simp add: upd_conv_take_nth_drop take_Suc_conv_app_nth)
  ultimately show ?thesis
    using r assms(4) sorts_pair [of B "xs ! s" "xs ! Suc s" r]
    by (intro exI [of _ "if r then [xs ! Suc s, xs ! s] else [xs ! s, xs ! Suc s]"] exI [of _ st'])
      (simp add: sort_pair_def p)
qed

lemma put_after: "k < length T \<Longrightarrow> take k (T[k := x]) = take k T \<and> drop (Suc k) (T[k := x]) = drop (Suc k) T
    \<and> take (Suc k) (T[k := x]) = take k T @ [x]"
  by (simp add: take_Suc_conv_app_nth)

lemma merge_loop_ok:
  assumes d: "decides swap good A B" and "good st" "set xs \<subseteq> A" "e1 < length xs" "e2 < length xs"
    "n = length (part c1 (Suc e1) xs) + length (part c2 (Suc e2) xs)" "k + n \<le> length T"
  shows "\<exists>zs st'. merge_loop swap n k c1 e1 c2 e2 xs T st = Inr (take k T @ map Some zs @ drop (k + n) T, st')
           \<and> good st' \<and> merges B (part c1 (Suc e1) xs) (part c2 (Suc e2) xs) zs"
  using assms(2-)
proof (induction n arbitrary: k c1 c2 T st)
  case 0
  then show ?case by (auto intro: exI [of _ "[]"] merges_Nil)
next
  case (Suc n)
  note len = \<open>e1 < length xs\<close> \<open>e2 < length xs\<close>
  have step: "\<exists>zs st''. merge_loop swap (Suc n) k c1 e1 c2 e2 xs T st = Inr (take k T @ map Some (v # zs) @ drop (k + Suc n) T, st'')
        \<and> good st'' \<and> merges B (part d1 (Suc e1) xs) (part d2 (Suc e2) xs) zs"
    if eq: "merge_loop swap (Suc n) k c1 e1 c2 e2 xs T st = merge_loop swap n (Suc k) d1 e1 d2 e2 xs (T[k := Some v]) st'"
      "good st'" "n = length (part d1 (Suc e1) xs) + length (part d2 (Suc e2) xs)" for v d1 d2 st'
  proof -
    have "Suc k + n \<le> length (T[k := Some v])" "k < length T" using Suc.prems by simp_all
    with Suc.IH [OF eq(2) Suc.prems(2) len eq(3)] obtain zs st'' where
      z: "merge_loop swap n (Suc k) d1 e1 d2 e2 xs (T[k := Some v]) st' =
        Inr (take (Suc k) (T[k := Some v]) @ map Some zs @ drop (Suc k + n) (T[k := Some v]), st'')"
      "good st''" "merges B (part d1 (Suc e1) xs) (part d2 (Suc e2) xs) zs" by blast
    show ?thesis
      using z put_after [of k T "Some v"] \<open>k < length T\<close>
      by (intro exI [of _ zs] exI [of _ st'']) (simp add: eq(1) del: merge_loop.simps)
  qed
  have k: "k < length T" using Suc.prems by simp
  have c2: "\<not> e2 < c2" if "e1 < c1" using Suc.prems(5) that by auto
  consider (second) "e1 < c1" | (first) "c1 \<le> e1" "e2 < c2" | (both) "c1 \<le> e1" "c2 \<le> e2" by linarith
  then show ?case
  proof cases
    case second
    with c2 len have "part c2 (Suc e2) xs = xs ! c2 # part (Suc c2) (Suc e2) xs" by (simp add: part_Cons)
    moreover have "\<exists>zs st''. merge_loop swap (Suc n) k c1 e1 c2 e2 xs T st = Inr (take k T @ map Some (xs ! c2 # zs) @ drop (k + Suc n) T, st'')
        \<and> good st'' \<and> merges B (part c1 (Suc e1) xs) (part (Suc c2) (Suc e2) xs) zs"
      by (rule step) (use second c2 len k in \<open>simp; fail\<close>, rule Suc.prems(1), use second c2 len Suc.prems(5) in simp)
    ultimately show ?thesis using second by (fastforce intro: merges_second)
  next
    case first
    with len have "part c1 (Suc e1) xs = xs ! c1 # part (Suc c1) (Suc e1) xs" by (simp add: part_Cons)
    moreover have "\<exists>zs st''. merge_loop swap (Suc n) k c1 e1 c2 e2 xs T st = Inr (take k T @ map Some (xs ! c1 # zs) @ drop (k + Suc n) T, st'')
        \<and> good st'' \<and> merges B (part (Suc c1) (Suc e1) xs) (part c2 (Suc e2) xs) zs"
      by (rule step) (use first len k in \<open>simp; fail\<close>, rule Suc.prems(1), use first len Suc.prems(5) in simp)
    ultimately show ?thesis using first by (fastforce intro: merges_first)
  next
    case both
    with len have p: "part c1 (Suc e1) xs = xs ! c1 # part (Suc c1) (Suc e1) xs"
      "part c2 (Suc e2) xs = xs ! c2 # part (Suc c2) (Suc e2) xs" by (simp_all add: part_Cons)
    have "xs ! c1 \<in> A" "xs ! c2 \<in> A" using both len Suc.prems(2) by auto
    from decidesD [OF d this Suc.prems(1)] obtain r st' where r: "swap (xs ! c1) (xs ! c2) st = Inr (r, st')" "good st'"
      "B (xs ! c1) (xs ! c2) r" .
    show ?thesis
    proof (cases r)
      case True
      have "\<exists>zs st''. merge_loop swap (Suc n) k c1 e1 c2 e2 xs T st = Inr (take k T @ map Some (xs ! c2 # zs) @ drop (k + Suc n) T, st'')
        \<and> good st'' \<and> merges B (part c1 (Suc e1) xs) (part (Suc c2) (Suc e2) xs) zs"
        by (rule step) (use both len k r True in \<open>simp; fail\<close>, rule r(2), use both len Suc.prems(5) in simp)
      then show ?thesis using r True by (fastforce simp: p intro: merges_swap)
    next
      case False
      have "\<exists>zs st''. merge_loop swap (Suc n) k c1 e1 c2 e2 xs T st = Inr (take k T @ map Some (xs ! c1 # zs) @ drop (k + Suc n) T, st'')
        \<and> good st'' \<and> merges B (part (Suc c1) (Suc e1) xs) (part c2 (Suc e2) xs) zs"
        by (rule step) (use both len k r False in \<open>simp; fail\<close>, rule r(2), use both len Suc.prems(5) in simp)
      then show ?thesis using r False by (fastforce simp: p intro: merges_keep)
    qed
  qed
qed

lemma copy_back_ok:
  assumes "take (length zs) (drop c T) = map Some zs" "c + length zs \<le> length xs" "length T = length xs"
  shows "copy_back (length zs) c xs T = Inr (take c xs @ zs @ drop (c + length zs) xs)"
  using assms
proof (induction zs arbitrary: c xs)
  case (Cons z zs)
  then have c: "c < length T" "c < length xs" by simp_all
  have d: "drop c T = T ! c # drop (Suc c) T" using c by (simp add: Cons_nth_drop_Suc)
  have "T ! c = Some z" "take (length zs) (drop (Suc c) T) = map Some zs" using Cons.prems(1) d by simp_all
  then show ?case
    using Cons.IH [of "Suc c" "xs[c := z]"] Cons.prems c by (simp add: put_after)
qed simp

section \<open>The whole sort\<close>

text \<open>What sorting the area of an array does.\<close>

definition area_sorted :: "('m \<Rightarrow> bool) \<Rightarrow> ('a \<Rightarrow> 'a \<Rightarrow> bool \<Rightarrow> bool) \<Rightarrow> nat \<Rightarrow> nat \<Rightarrow> 'a list \<Rightarrow> 'a option list
    \<Rightarrow> ('a list \<times> 'a option list \<times> 'm) res \<Rightarrow> bool" where
  "area_sorted good B s e xs T r \<longleftrightarrow>
     (\<exists>zs T' st'. r = Inr (take s xs @ zs @ drop (Suc e) xs, T', st') \<and> length T' = length T \<and> good st'
        \<and> sorts B (part s (Suc e) xs) zs)"

lemma area_sortedE:
  assumes "area_sorted good B s e xs T r" "s \<le> e" "e < length xs"
  obtains zs T' st' where "r = Inr (take s xs @ zs @ drop (Suc e) xs, T', st')" "length T' = length T" "good st'"
    "sorts B (part s (Suc e) xs) zs" "length zs = Suc e - s"
  using assms unfolding area_sorted_def by (metis sorts_length part_length Suc_leI)

text \<open>One of the two areas, which is sorted by the recursive call if it has more than two values.\<close>

lemma area_cases:
  assumes d: "decides swap good A B" and "good st" "set xs \<subseteq> A" "s \<le> e" "e < length xs"
    and rec: "Suc s < e \<Longrightarrow> area_sorted good B s e xs T r"
  shows "area_sorted good B s e xs T
    (if s = e then Inr (xs, T, st)
     else if e < s then Inl Overflow
     else if s + 1 = e then
       case (xs, T, st) of (xs, T, st) \<Rightarrow> bind_res (sort_pair swap s e xs st) (\<lambda>(xs, st). Inr (xs, T, st))
     else r)"
proof -
  consider "s = e" | "Suc s = e" | "Suc s < e" using \<open>s \<le> e\<close> by linarith
  then show ?thesis
  proof cases
    case 1
    have "part e (Suc e) xs = [xs ! e]" using assms(5) by (simp add: part_Cons)
    moreover have "xs = take e xs @ [xs ! e] @ drop (Suc e) xs"
      using part_split [of e "Suc e" xs] calculation by simp
    ultimately show ?thesis
      using 1 \<open>good st\<close> unfolding area_sorted_def
      by (intro exI [of _ "[xs ! e]"] exI [of _ T] exI [of _ st]) (simp add: sorts_one)
  next
    case 2
    with sort_pair_ok [OF d \<open>good st\<close> assms(3), of s] assms(5) show ?thesis
      by (auto simp: area_sorted_def)
  next
    case 3
    then show ?thesis using rec by auto
  qed
qed

lemma DoMergeSort_ok:
  assumes d: "decides swap good A B"
  shows "good st \<Longrightarrow> set xs \<subseteq> A \<Longrightarrow> s1 \<le> e1 \<Longrightarrow> s2 = Suc e1 \<Longrightarrow> s2 \<le> e2 \<Longrightarrow> e2 < length xs
    \<Longrightarrow> length T = length xs \<Longrightarrow> area_sorted good B s1 e2 xs T (DoMergeSort swap s1 e1 s2 e2 (xs, T, st))"
proof (induction "(e1 - s1) + (e2 - s2)" arbitrary: s1 e1 s2 e2 xs T st rule: less_induct)
  case less
  note e1 = \<open>s1 \<le> e1\<close> and e2 = \<open>s2 \<le> e2\<close> and s2 = \<open>s2 = Suc e1\<close> and len = \<open>e2 < length xs\<close>
  have inner: "area_sorted good B s e xs' T' (DoMergeSort swap s (s + (e - s + 1 + 1) div 2 - 1) (s + (e - s + 1 + 1) div 2) e (xs', T', st'))"
    if "Suc s < e" "e - s \<le> (e1 - s1) + (e2 - s2)" "good st'" "set xs' \<subseteq> A" "e < length xs'" "length T' = length xs'"
    for s e xs' T' st'
  proof -
    define m where "m = s + (e - s + 1 + 1) div 2"
    have m: "Suc s < m" "m \<le> e" using that(1) unfolding m_def by auto
    have "area_sorted good B s e xs' T' (DoMergeSort swap s (m - 1) m e (xs', T', st'))"
      using that m by (intro less.hyps) auto
    then show ?thesis by (simp only: m_def)
  qed
  let ?area1 = "if s1 = e1 then Inr (xs, T, st)
     else if e1 < s1 then Inl Overflow
     else if s1 + 1 = e1 then
       case (xs, T, st) of (xs, T, st) \<Rightarrow> bind_res (sort_pair swap s1 e1 xs st) (\<lambda>(xs, st). Inr (xs, T, st))
     else DoMergeSort swap s1 (s1 + (e1 - s1 + 1 + 1) div 2 - 1) (s1 + (e1 - s1 + 1 + 1) div 2) e1 (xs, T, st)"
  have "area_sorted good B s1 e1 xs T ?area1"
    using less.prems by (intro area_cases [OF d] inner) auto
  then obtain ys T1 st1 where r1: "?area1 = Inr (take s1 xs @ ys @ drop (Suc e1) xs, T1, st1)" "length T1 = length T"
    "good st1" "sorts B (part s1 (Suc e1) xs) ys" "length ys = Suc e1 - s1"
    by (rule area_sortedE) (use less.prems in auto)
  define xs1 where "xs1 = take s1 xs @ ys @ drop (Suc e1) xs"
  have set1: "set xs1 \<subseteq> A"
    using less.prems(2) sorts_set [OF r1(4)] part_set [of s1 "Suc e1" xs]
    by (auto simp: xs1_def dest: in_set_takeD in_set_dropD)
  have len1: "length xs1 = length xs" using r1(5) less.prems by (simp add: xs1_def)
  let ?area2 = "if s2 = e2 then Inr (xs1, T1, st1)
     else if e2 < s2 then Inl Overflow
     else if s2 + 1 = e2 then
       case (xs1, T1, st1) of (xs, T, st) \<Rightarrow> bind_res (sort_pair swap s2 e2 xs st) (\<lambda>(xs, st). Inr (xs, T, st))
     else DoMergeSort swap s2 (s2 + (e2 - s2 + 1 + 1) div 2 - 1) (s2 + (e2 - s2 + 1 + 1) div 2) e2 (xs1, T1, st1)"
  have "area_sorted good B s2 e2 xs1 T1 ?area2"
    using less.prems set1 len1 r1 by (intro area_cases [OF d] inner) auto
  then obtain zs T2 st2 where r2: "?area2 = Inr (take s2 xs1 @ zs @ drop (Suc e2) xs1, T2, st2)" "length T2 = length T1"
    "good st2" "sorts B (part s2 (Suc e2) xs1) zs" "length zs = Suc e2 - s2"
    by (rule area_sortedE) (use less.prems len1 in auto)
  have p1: "part s2 (Suc e2) xs1 = part s2 (Suc e2) xs"
    using part_replaced(2) [of s1 "Suc e1" xs ys "Suc e2"] r1(5) e1 e2 s2 len by (simp add: xs1_def)
  define xs2 where "xs2 = take s2 xs1 @ zs @ drop (Suc e2) xs1"
  have x2: "xs2 = take s1 xs @ (ys @ zs) @ drop (Suc e2) xs"
    using replaced_twice [of s1 s2 xs ys zs "Suc e2"] r1(5) r2(5) e1 e2 s2 len by (simp add: xs2_def xs1_def)
  have set2: "set xs2 \<subseteq> A"
    using set1 sorts_set [OF r2(4)] part_set [of s2 "Suc e2" xs1]
    by (auto simp: xs2_def dest: in_set_takeD in_set_dropD)
  have len2: "length xs2 = length xs" using r1(5) r2(5) e1 e2 s2 len by (simp add: x2)
  have parts: "part s1 (Suc e1) xs2 = ys" "part s2 (Suc e2) xs2 = zs"
    using r1(5) r2(5) e1 e2 s2 len by (simp_all add: x2 part_def)
  have "\<exists>us st3. merge_loop swap (Suc e2 - s1) s1 s1 e1 s2 e2 xs2 T2 st2 =
      Inr (take s1 T2 @ map Some us @ drop (s1 + (Suc e2 - s1)) T2, st3) \<and> good st3
      \<and> merges B (part s1 (Suc e1) xs2) (part s2 (Suc e2) xs2) us"
    by (rule merge_loop_ok [OF d r2(3) set2]) (use len2 r1 r2 parts e1 e2 s2 len less.prems in auto)
  then obtain us st3 where us: "merge_loop swap (Suc e2 - s1) s1 s1 e1 s2 e2 xs2 T2 st2 =
      Inr (take s1 T2 @ map Some us @ drop (Suc e2) T2, st3)" "good st3" "merges B ys zs us"
    using parts e1 e2 s2 by auto
  have lus: "length us = Suc e2 - s1" using merges_length [OF us(3)] r1(5) r2(5) e1 e2 s2 by simp
  let ?T3 = "take s1 T2 @ map Some us @ drop (Suc e2) T2"
  have lT: "length T2 = length xs" using r1 r2 less.prems by simp
  then have l3: "length ?T3 = length xs" using lus len e1 e2 s2 by simp
  have "copy_back (length us) s1 xs2 ?T3 = Inr (take s1 xs2 @ us @ drop (s1 + length us) xs2)"
    by (rule copy_back_ok) (use lus lT len len2 e1 e2 s2 in auto)
  then have cb: "copy_back (Suc e2 - s1) s1 xs2 ?T3 = Inr (take s1 xs @ us @ drop (Suc e2) xs)"
    using lus r1(5) r2(5) e1 e2 s2 len by (simp add: x2)
  have "sorts B (part s1 (Suc e1) xs @ part s2 (Suc e2) xs) us"
    using r1(4) r2(4) us(3) unfolding p1 by (rule sorts_merge)
  then have "sorts B (part s1 (Suc e2) xs) us" using part_append [of s1 s2 "Suc e2" xs] e1 e2 s2 by simp
  moreover have "DoMergeSort swap s1 e1 s2 e2 (xs, T, st) = Inr (take s1 xs @ us @ drop (Suc e2) xs, ?T3, st3)"
    unfolding DoMergeSort.simps [of swap s1 e1 s2 e2] r1(1) xs1_def [symmetric] bind_res_Inr
    unfolding r2(1) xs2_def [symmetric] bind_res_Inr
    using us(1) cb by simp
  ultimately show ?case using us(2) l3 lT r1 r2 unfolding area_sorted_def by auto
qed

lemma MergeSort_sorts:
  assumes "decides swap good (set xs) B" "good st" "xs \<noteq> []"
  shows "\<exists>zs st'. MergeSort swap xs st = Inr (zs, st') \<and> sorts B xs zs \<and> good st'"
proof (cases "length xs \<le> 1")
  case True
  then obtain x where "xs = [x]" using assms(3) by (cases xs) auto
  then show ?thesis using assms(2) by (auto simp: MergeSort_def intro: sorts_one)
next
  case False
  define m where "m = Suc (length xs) div 2"
  have m: "0 < m" "m < length xs" using False unfolding m_def by auto
  have "area_sorted good B 0 (length xs - 1) xs (replicate (length xs) None)
      (DoMergeSort swap 0 (m - 1) m (length xs - 1) (xs, replicate (length xs) None, st))"
    by (rule DoMergeSort_ok [OF assms(1,2)]) (use m in auto)
  with False m show ?thesis
    by (auto simp: area_sorted_def MergeSort_def Let_def m_def [symmetric] part_def)
qed

section \<open>Comparisons that are an order\<close>

definition by_comparator :: "'a comparator \<Rightarrow> 'a \<Rightarrow> 'a \<Rightarrow> bool \<Rightarrow> bool" where
  "by_comparator cmp x y r \<longleftrightarrow> r = (compare cmp x y = Greater)"

lemma merges_merge: "merges (by_comparator cmp) xs ys zs \<Longrightarrow> zs = Sorting_Algorithms.merge cmp xs ys"
proof (induction rule: merges.induct)
  case (merges_second ys zs y)
  then show ?case by (cases ys) simp_all
next
  case (merges_first xs zs x)
  then show ?case by (cases xs) simp_all
qed (simp_all add: by_comparator_def)

lemma sort_append:
  "Sorting_Algorithms.sort cmp (us @ vs) =
     Sorting_Algorithms.merge cmp (Sorting_Algorithms.sort cmp us) (Sorting_Algorithms.sort cmp vs)"
proof (rule sort_eqI)
  fix l
  show "stable_segment cmp l (us @ vs) =
      stable_segment cmp l (Sorting_Algorithms.merge cmp (Sorting_Algorithms.sort cmp us) (Sorting_Algorithms.sort cmp vs))"
    by (simp add: filter_merge stable_sort merge_stable_segments)
qed (simp_all add: mset_merge sorted_merge)

lemma sorts_sort: "sorts (by_comparator cmp) us zs \<Longrightarrow> zs = Sorting_Algorithms.sort cmp us"
  by (induction rule: sorts.induct) (auto simp: sort_append dest: merges_merge)

section \<open>Reference counts\<close>

datatype kind = Symbols | Floats | Integers | Others

definition kind_of :: "fieldType \<Rightarrow> kind" where
  "kind_of t = (case t of SYMBOL \<Rightarrow> Symbols | STRING \<Rightarrow> Symbols | INSTANCE_NAME \<Rightarrow> Symbols | FLOAT \<Rightarrow> Floats
     | INTEGER \<Rightarrow> Integers | _ \<Rightarrow> Others)"

definition atom_count :: "machine \<Rightarrow> field \<Rightarrow> int option" where
  "atom_count st x =
     (let e = atom_data (scanner st); p = field_value x in
      case kind_of (field_type x) of
        Symbols \<Rightarrow> map_option hashNode.count (nodes (SymbolTable e) p)
      | Floats \<Rightarrow> map_option hashNode.count (nodes (FloatTable e) p)
      | Integers \<Rightarrow> map_option hashNode.count (nodes (IntegerTable e) p)
      | Others \<Rightarrow> None)"

definition same_atom_as :: "field \<Rightarrow> field \<Rightarrow> bool" where
  "same_atom_as x y \<longleftrightarrow> kind_of (field_type x) = kind_of (field_type y) \<and> field_value x = field_value y"

text \<open>Counts that differ by what was installed, and nothing else that matters to a comparison.\<close>

definition counted :: "(field \<Rightarrow> int) \<Rightarrow> machine \<Rightarrow> machine \<Rightarrow> bool" where
  "counted d st st' \<longleftrightarrow> (\<forall>y. atom_count st' y = map_option (\<lambda>c. c + d y) (atom_count st y))
     \<and> EnvFalseSymbol st' = EnvFalseSymbol st"

lemma counted_trans: "counted d st st1 \<Longrightarrow> counted d' st1 st2 \<Longrightarrow> counted (\<lambda>y. d y + d' y) st st2"
  by (auto simp: counted_def option.map_comp comp_def add.assoc)

lemma counted_refl: "counted (\<lambda>_. 0) st st"
  by (simp add: counted_def option.map_ident)

lemma AtomInstall_atomic: "kind_of t \<noteq> Others \<Longrightarrow> AtomInstall h depth t p st = install_atom h t p st"
  "kind_of t \<noteq> Others \<Longrightarrow> AtomDeinstall h depth t p st = deinstall_atom h t p st"
  by (cases depth; cases t; simp add: kind_of_def)+

definition table_count :: "'a atoms \<Rightarrow> address \<Rightarrow> int option" where
  "table_count t p = map_option hashNode.count (nodes t p)"

definition table_changed :: "address \<Rightarrow> int \<Rightarrow> 'a atoms \<Rightarrow> 'a atoms \<Rightarrow> bool" where
  "table_changed p d t t' \<longleftrightarrow> (\<forall>q. table_count t' q = map_option (\<lambda>c. if q = p then c + d else c) (table_count t q))"

lemma count_incremented: "table_count t p = Some n \<Longrightarrow> \<exists>t'. increment_count p t = Inr t' \<and> table_changed p 1 t t'"
  by (auto simp: table_count_def table_changed_def increment_count_def option.map_ident option.map_comp comp_def)

lemma count_decremented:
  "table_count t p = Some n \<Longrightarrow> 0 < n \<Longrightarrow> \<exists>listed t'. decrement_count a b p t = Inr (listed, t') \<and> table_changed p (- 1) t t'"
  by (auto simp: table_count_def table_changed_def decrement_count_def AddEphemeralHashNode_def Let_def option.map_ident
      option.map_comp comp_def)

lemma atom_count_table:
  "atom_count st x = (let e = atom_data (scanner st) in case kind_of (field_type x) of
     Symbols \<Rightarrow> table_count (SymbolTable e) (field_value x) | Floats \<Rightarrow> table_count (FloatTable e) (field_value x)
   | Integers \<Rightarrow> table_count (IntegerTable e) (field_value x) | Others \<Rightarrow> None)"
  by (simp add: atom_count_def table_count_def Let_def split: kind.split)

lemma table_counted:
  assumes "kind_of (field_type x) = k" "k \<noteq> Others"
    and "FalseSymbolHN e' = FalseSymbolHN (atom_data (scanner st))"
    and "if k = Symbols then table_changed (field_value x) d (SymbolTable (atom_data (scanner st))) (SymbolTable e')
      else SymbolTable e' = SymbolTable (atom_data (scanner st))"
    and "if k = Floats then table_changed (field_value x) d (FloatTable (atom_data (scanner st))) (FloatTable e')
      else FloatTable e' = FloatTable (atom_data (scanner st))"
    and "if k = Integers then table_changed (field_value x) d (IntegerTable (atom_data (scanner st))) (IntegerTable e')
      else IntegerTable e' = IntegerTable (atom_data (scanner st))"
  shows "counted (\<lambda>y. if same_atom_as x y then d else 0) st (st\<lparr>scanner := (scanner st)\<lparr>atom_data := e'\<rparr>\<rparr>)"
proof -
  have "atom_count (st\<lparr>scanner := (scanner st)\<lparr>atom_data := e'\<rparr>\<rparr>) y
      = map_option (\<lambda>c. c + (if same_atom_as x y then d else 0)) (atom_count st y)" for y
    using assms by (cases "kind_of (field_type y)")
      (auto simp: atom_count_table same_atom_as_def table_changed_def Let_def option.map_ident split: if_splits)
  then show ?thesis using assms(3) by (simp add: counted_def EnvFalseSymbol_def)
qed

lemma item_installed:
  assumes "atom_count st x = Some n"
  shows "\<exists>st'. install_item h depth x st = Inr st' \<and> counted (\<lambda>y. if same_atom_as x y then 1 else 0) st st'"
proof -
  have k: "kind_of (field_type x) \<noteq> Others" using assms by (auto simp: atom_count_def Let_def)
  show ?thesis
  proof (cases "kind_of (field_type x)")
    case Symbols
    then obtain t' where t: "increment_count (field_value x) (SymbolTable (atom_data (scanner st))) = Inr t'"
      "table_changed (field_value x) 1 (SymbolTable (atom_data (scanner st))) t'"
      using count_incremented [of "SymbolTable (atom_data (scanner st))" "field_value x" n] assms by (auto simp: atom_count_table)
    have "install_atom (host.truncate h) (field_type x) (field_value x) st = on_counts IncrementSymbolCount (field_value x) st"
      using Symbols by (cases "field_type x") (simp_all add: install_atom_def kind_of_def)
    then show ?thesis
      using t table_counted [OF Symbols, of "(atom_data (scanner st))\<lparr>SymbolTable := t'\<rparr>" st 1]
      by (simp add: install_item_def AtomInstall_atomic(1) [OF k] on_counts_def IncrementSymbolCount_def)
  next
    case Floats
    then obtain t' where t: "increment_count (field_value x) (FloatTable (atom_data (scanner st))) = Inr t'"
      "table_changed (field_value x) 1 (FloatTable (atom_data (scanner st))) t'"
      using count_incremented [of "FloatTable (atom_data (scanner st))" "field_value x" n] assms by (auto simp: atom_count_table)
    have "install_atom (host.truncate h) (field_type x) (field_value x) st = on_counts IncrementFloatCount (field_value x) st"
      using Floats by (cases "field_type x") (simp_all add: install_atom_def kind_of_def)
    then show ?thesis
      using t table_counted [OF Floats, of "(atom_data (scanner st))\<lparr>FloatTable := t'\<rparr>" st 1]
      by (simp add: install_item_def AtomInstall_atomic(1) [OF k] on_counts_def IncrementFloatCount_def)
  next
    case Integers
    then obtain t' where t: "increment_count (field_value x) (IntegerTable (atom_data (scanner st))) = Inr t'"
      "table_changed (field_value x) 1 (IntegerTable (atom_data (scanner st))) t'"
      using count_incremented [of "IntegerTable (atom_data (scanner st))" "field_value x" n] assms by (auto simp: atom_count_table)
    have "install_atom (host.truncate h) (field_type x) (field_value x) st = on_counts IncrementIntegerCount (field_value x) st"
      using Integers by (cases "field_type x") (simp_all add: install_atom_def kind_of_def)
    then show ?thesis
      using t table_counted [OF Integers, of "(atom_data (scanner st))\<lparr>IntegerTable := t'\<rparr>" st 1]
      by (simp add: install_item_def AtomInstall_atomic(1) [OF k] on_counts_def IncrementIntegerCount_def)
  qed (use k in simp)
qed

lemma item_deinstalled:
  assumes "atom_count st x = Some n" "0 < n"
  shows "\<exists>st'. deinstall_item h depth x st = Inr st' \<and> counted (\<lambda>y. if same_atom_as x y then - 1 else 0) st st'"
proof -
  have k: "kind_of (field_type x) \<noteq> Others" using assms by (auto simp: atom_count_def Let_def)
  show ?thesis
  proof (cases "kind_of (field_type x)")
    case Symbols
    then obtain l t' where t: "decrement_count ''SYMBOL 3'' ''SYMBOL 4'' (field_value x) (SymbolTable (atom_data (scanner st))) = Inr (l, t')"
      "table_changed (field_value x) (- 1) (SymbolTable (atom_data (scanner st))) t'"
      using count_decremented [of "SymbolTable (atom_data (scanner st))" "field_value x" n] assms by (simp add: atom_count_table) blast
    have "deinstall_atom (host.truncate h) (field_type x) (field_value x) st = on_counts DecrementSymbolCount (field_value x) st"
      using Symbols by (cases "field_type x") (simp_all add: deinstall_atom_def kind_of_def)
    then show ?thesis
      using t table_counted [OF Symbols, of "(atom_data (scanner st))\<lparr>SymbolTable := t', dirty := dirty (atom_data (scanner st)) \<or> l\<rparr>" st "- 1"]
      by (simp add: deinstall_item_def AtomInstall_atomic(2) [OF k] on_counts_def DecrementSymbolCount_def)
  next
    case Floats
    then obtain l t' where t: "decrement_count ''SYMBOL 5'' ''SYMBOL 5'' (field_value x) (FloatTable (atom_data (scanner st))) = Inr (l, t')"
      "table_changed (field_value x) (- 1) (FloatTable (atom_data (scanner st))) t'"
      using count_decremented [of "FloatTable (atom_data (scanner st))" "field_value x" n] assms by (simp add: atom_count_table) blast
    have "deinstall_atom (host.truncate h) (field_type x) (field_value x) st = on_counts DecrementFloatCount (field_value x) st"
      using Floats by (cases "field_type x") (simp_all add: deinstall_atom_def kind_of_def)
    then show ?thesis
      using t table_counted [OF Floats, of "(atom_data (scanner st))\<lparr>FloatTable := t', dirty := dirty (atom_data (scanner st)) \<or> l\<rparr>" st "- 1"]
      by (simp add: deinstall_item_def AtomInstall_atomic(2) [OF k] on_counts_def DecrementFloatCount_def)
  next
    case Integers
    then obtain l t' where t: "decrement_count ''SYMBOL 6'' ''SYMBOL 6'' (field_value x) (IntegerTable (atom_data (scanner st))) = Inr (l, t')"
      "table_changed (field_value x) (- 1) (IntegerTable (atom_data (scanner st))) t'"
      using count_decremented [of "IntegerTable (atom_data (scanner st))" "field_value x" n] assms by (simp add: atom_count_table) blast
    have "deinstall_atom (host.truncate h) (field_type x) (field_value x) st = on_counts DecrementIntegerCount (field_value x) st"
      using Integers by (cases "field_type x") (simp_all add: deinstall_atom_def kind_of_def)
    then show ?thesis
      using t table_counted [OF Integers, of "(atom_data (scanner st))\<lparr>IntegerTable := t', dirty := dirty (atom_data (scanner st)) \<or> l\<rparr>" st "- 1"]
      by (simp add: deinstall_item_def AtomInstall_atomic(2) [OF k] on_counts_def DecrementIntegerCount_def)
  qed (use k in simp)
qed

section \<open>Installing a list of items\<close>

definition occurrences :: "field list \<Rightarrow> field \<Rightarrow> int" where
  "occurrences xs y = int (length (filter (\<lambda>x. same_atom_as x y) xs))"

lemma occurrences_Cons: "occurrences (x # xs) y = (if same_atom_as x y then 1 else 0) + occurrences xs y"
  by (simp add: occurrences_def)

lemma occurrences_mset: "mset xs = mset ys \<Longrightarrow> occurrences xs y = occurrences ys y"
  unfolding occurrences_def by (metis mset_filter size_mset)

lemma counted_count: "counted d st st' \<Longrightarrow> atom_count st y = Some n \<Longrightarrow> atom_count st' y = Some (n + d y)"
  by (simp add: counted_def)

lemma items_installed:
  "\<forall>x \<in> set xs. atom_count st x \<noteq> None \<Longrightarrow>
    \<exists>st'. each_item (install_item h depth) xs st = Inr st' \<and> counted (occurrences xs) st st'"
proof (induction xs arbitrary: st)
  case Nil
  have "occurrences [] = (\<lambda>_. 0)" by (simp add: occurrences_def fun_eq_iff)
  then show ?case by (simp add: counted_refl)
next
  case (Cons x xs)
  then obtain n where "atom_count st x = Some n" by auto
  from item_installed [OF this] obtain st1 where
    s: "install_item h depth x st = Inr st1" "counted (\<lambda>y. if same_atom_as x y then 1 else 0) st st1" by blast
  then have "\<forall>x \<in> set xs. atom_count st1 x \<noteq> None" using Cons.prems by (auto simp: counted_def)
  from Cons.IH [OF this] obtain st2 where "each_item (install_item h depth) xs st1 = Inr st2" "counted (occurrences xs) st1 st2"
    by blast
  moreover have "occurrences (x # xs) = (\<lambda>y. (if same_atom_as x y then 1 else 0) + occurrences xs y)" by (rule ext) (rule occurrences_Cons)
  ultimately show ?case using s counted_trans [OF s(2)] by auto
qed

lemma same_atom_refl: "same_atom_as x x"
  by (simp add: same_atom_as_def)

lemma items_deinstalled:
  "\<forall>x \<in> set xs. \<exists>n. atom_count st x = Some n \<and> occurrences xs x \<le> n \<Longrightarrow>
    \<exists>st'. each_item (deinstall_item h depth) xs st = Inr st' \<and> counted (\<lambda>y. - occurrences xs y) st st'"
proof (induction xs arbitrary: st)
  case Nil
  have "(\<lambda>y. - occurrences [] y) = (\<lambda>_. 0)" by (simp add: occurrences_def)
  then show ?case by (simp add: counted_refl)
next
  case (Cons x xs)
  then obtain n where n: "atom_count st x = Some n" "occurrences (x # xs) x \<le> n" by auto
  then have "0 < n" using occurrences_Cons [of x xs x] same_atom_refl [of x] by (simp add: occurrences_def)
  from item_deinstalled [OF n(1) this] obtain st1 where
    s: "deinstall_item h depth x st = Inr st1" "counted (\<lambda>y. if same_atom_as x y then - 1 else 0) st st1" by blast
  have "\<exists>n. atom_count st1 y = Some n \<and> occurrences xs y \<le> n" if "y \<in> set xs" for y
  proof -
    from Cons.prems that obtain k where "atom_count st y = Some k" "occurrences (x # xs) y \<le> k" by auto
    then show ?thesis using counted_count [OF s(2)] occurrences_Cons [of x xs y] by auto
  qed
  with Cons.IH [of st1] obtain st2 where "each_item (deinstall_item h depth) xs st1 = Inr st2" "counted (\<lambda>y. - occurrences xs y) st1 st2"
    by blast
  moreover have "(\<lambda>y. - occurrences (x # xs) y) = (\<lambda>y. (if same_atom_as x y then - 1 else 0) + - occurrences xs y)"
    by (simp add: fun_eq_iff occurrences_Cons)
  ultimately show ?case using s(1) counted_trans [OF s(2), of "\<lambda>y. - occurrences xs y" st2] by auto
qed

section \<open>Comparing by a function of the language\<close>

text \<open>
  What is asked of the function: whatever the counts of the items are, a call on two of them returns FALSE exactly if the
  comparator does not say that the first one is greater, and leaves the counts of the items as they were.
\<close>

definition is_false :: "machine \<Rightarrow> dataObject \<Rightarrow> bool" where
  "is_false st v \<longleftrightarrow> do_type v = SYMBOL \<and> do_value v = do_value (EnvFalseSymbol st)"

definition follows :: "'x sorting \<Rightarrow> reference \<Rightarrow> field set \<Rightarrow> field comparator \<Rightarrow> bool" where
  "follows h r items cmp \<longleftrightarrow> (\<forall>x \<in> items. \<forall>y \<in> items. \<forall>st. (\<forall>z \<in> items. atom_count st z \<noteq> None) \<longrightarrow>
     (case call_on h r x y st of (v, st') \<Rightarrow>
        (\<forall>z \<in> items. atom_count st' z = atom_count st z) \<and> (is_false st' v \<longleftrightarrow> compare cmp x y \<noteq> Greater)))"

definition held :: "field set \<Rightarrow> (field \<Rightarrow> int) \<Rightarrow> machine \<Rightarrow> bool" where
  "held items c st \<longleftrightarrow> (\<forall>z \<in> items. atom_count st z = Some (c z))"

lemma held_counted: "held items c st \<Longrightarrow> counted d st st' \<Longrightarrow> held items (\<lambda>z. c z + d z) st'"
  by (simp add: held_def counted_def)

lemma comparison_decides:
  assumes "follows h r items cmp" "\<forall>z \<in> items. 0 \<le> c z"
  shows "decides (DefaultCompareSwapFunction h depth r) (held items c) items (by_comparator cmp)"
  unfolding decides_def
proof (intro ballI allI impI)
  fix x y st
  assume x: "x \<in> items" and y: "y \<in> items" and st: "held items c st"
  let ?d = "\<lambda>x z. if same_atom_as x z then 1 else (0 :: int)"
  from item_installed [of st x "c x" h depth] st x obtain st1 where
    s1: "install_item h depth x st = Inr st1" "counted (?d x) st st1" by (auto simp: held_def)
  have h1: "held items (\<lambda>z. c z + ?d x z) st1" using held_counted [OF st s1(2)] .
  from item_installed [of st1 y "c y + ?d x y" h depth] h1 y obtain st2 where
    s2: "install_item h depth y st1 = Inr st2" "counted (?d y) st1 st2" by (auto simp: held_def)
  have h2: "held items (\<lambda>z. c z + ?d x z + ?d y z) st2" using held_counted [OF h1 s2(2)] .
  obtain v st3 where call: "call_on h r x y st2 = (v, st3)" by fastforce
  have "\<forall>z \<in> items. atom_count st2 z \<noteq> None" using h2 by (auto simp: held_def)
  with assms(1) x y call have c: "\<forall>z \<in> items. atom_count st3 z = atom_count st2 z"
    "is_false st3 v \<longleftrightarrow> compare cmp x y \<noteq> Greater"
    unfolding follows_def by fastforce+
  have h3: "held items (\<lambda>z. c z + ?d x z + ?d y z) st3" using h2 c(1) by (simp add: held_def)
  have "0 < c x + ?d x x + ?d y x" using assms(2) x same_atom_refl [of x] by (auto intro: add_nonneg_pos)
  from item_deinstalled [OF _ this, of st3 x h depth] h3 x obtain st4 where
    s4: "deinstall_item h depth x st3 = Inr st4" "counted (\<lambda>z. if same_atom_as x z then - 1 else 0) st3 st4"
    by (auto simp: held_def)
  have h4: "held items (\<lambda>z. c z + ?d y z) st4"
    using held_counted [OF h3 s4(2)] by (auto simp: held_def)
  have "0 < c y + ?d y y" using assms(2) y same_atom_refl [of y] by (auto intro: add_nonneg_pos)
  from item_deinstalled [OF _ this, of st4 y h depth] h4 y obtain st5 where
    s5: "deinstall_item h depth y st4 = Inr st5" "counted (\<lambda>z. if same_atom_as y z then - 1 else 0) st4 st5"
    by (auto simp: held_def)
  have h5: "held items c st5" using held_counted [OF h4 s5(2)] by (auto simp: held_def)
  have "EnvFalseSymbol st5 = EnvFalseSymbol st3" using s4(2) s5(2) by (simp add: counted_def)
  then have "DefaultCompareSwapFunction h depth r x y st = Inr (\<not> is_false st3 v, st5)"
    using s1(1) s2(1) call s4(1) s5(1) by (simp add: DefaultCompareSwapFunction_def is_false_def)
  then show "\<exists>b st'. DefaultCompareSwapFunction h depth r x y st = Inr (b, st') \<and> held items c st' \<and> by_comparator cmp x y b"
    using h5 c(2) by (simp add: by_comparator_def)
qed

lemma items_sorted:
  assumes "follows h r (set items) cmp" "\<forall>z \<in> set items. \<exists>n. atom_count st z = Some n \<and> 0 \<le> n" "items \<noteq> []"
  shows "\<exists>st'. sort_items h depth r items st = Inr (whole (new_segment (host.truncate h) st') (Sorting_Algorithms.sort cmp items),
      built (new_segment (host.truncate h) st') (Sorting_Algorithms.sort cmp items) st')
    \<and> (\<forall>z \<in> set items. atom_count st' z = atom_count st z)"
proof -
  define c where "c = (\<lambda>z. the (atom_count st z))"
  have c: "held (set items) c st" "\<forall>z \<in> set items. 0 \<le> c z" using assms(2) by (auto simp: held_def c_def)
  let ?c = "\<lambda>z. c z + occurrences items z" and ?sorted = "Sorting_Algorithms.sort cmp items"
  have pos: "\<forall>z \<in> set items. 0 \<le> ?c z" using c(2) by (simp add: occurrences_def)
  from items_installed [of items st h depth] assms(2) obtain st1 where
    s1: "each_item (install_item h depth) items st = Inr st1" "counted (occurrences items) st st1" by fastforce
  have h1: "held (set items) ?c st1" using held_counted [OF c(1) s1(2)] .
  from MergeSort_sorts [OF comparison_decides [OF assms(1) pos] h1 assms(3)] obtain zs st2 where
    s2: "MergeSort (DefaultCompareSwapFunction h depth r) items st1 = Inr (zs, st2)" "sorts (by_comparator cmp) items zs"
    "held (set items) ?c st2" by blast
  have zs: "zs = ?sorted" using sorts_sort [OF s2(2)] .
  have t: "occurrences ?sorted z = occurrences items z" for z by (rule occurrences_mset) simp
  have "\<forall>x \<in> set ?sorted. \<exists>n. atom_count st2 x = Some n \<and> occurrences ?sorted x \<le> n"
    using s2(3) c(2) by (auto simp: held_def t)
  from items_deinstalled [OF this, of h depth] obtain st3 where
    s3: "each_item (deinstall_item h depth) ?sorted st2 = Inr st3" "counted (\<lambda>y. - occurrences items y) st2 st3" by (auto simp: t)
  have "held (set items) c st3" using held_counted [OF s2(3) s3(2)] by (simp add: held_def)
  then have counts: "\<forall>z \<in> set items. atom_count st3 z = atom_count st z" using c(1) by (simp add: held_def)
  let ?h = "host.truncate h"
  define p where "p = new_segment ?h st3"
  have "EnvCreateMultifield ?h (int (length ?sorted)) st3 =
      (p, building p (int (length ?sorted)) [] (length ?sorted + 0) (AddToMultifieldList p st3))"
    unfolding EnvCreateMultifield_building p_def using assms(3) by (cases items) simp_all
  moreover have "?sorted \<noteq> []" using assms(3) by (metis length_0_conv length_sort)
  ultimately have "sort_items h depth r items st = Inr (whole p ?sorted, built p ?sorted st3)"
    using s1(1) s2(1) s3(1) zs store_fields_building [of ?sorted p "[]" "int (length ?sorted)" 0 "AddToMultifieldList p st3"]
    by (simp add: sort_items_def multifield_object_def whole_def built_def)
  then show ?thesis using counts unfolding p_def by blast
qed

section \<open>Properties\<close>

text \<open>
  For any comparison that returns, whether it is an order or not, and whatever it does to the state, \<open>MergeSort\<close>
  returns a permutation of the array; no access is out of bounds and no value is read that was not stored.
\<close>

theorem merge_sort_permutes:
  assumes "decides swap good (set xs) (\<lambda>_ _ _. True)" "good st"
  shows "\<exists>zs st'. MergeSort swap xs st = Inr (zs, st') \<and> mset zs = mset xs \<and> good st'"
proof (cases "xs = []")
  case True
  then show ?thesis using assms(2) by (simp add: MergeSort_def)
next
  case False
  then show ?thesis using MergeSort_sorts [OF assms False] sorts_mset by blast
qed

text \<open>A comparison that always wants to swap, and counts how often it was asked.\<close>

theorem merge_sort_permutes_witness:
  "\<exists>zs n. MergeSort (\<lambda>x y n. Inr (True, Suc n)) [3, 1, 2 :: nat] 0 = Inr (zs, n) \<and> mset zs = {#1, 2, 3#}"
proof -
  have "decides (\<lambda>x y n. Inr (True, Suc n)) (\<lambda>_. True) (set [3, 1, 2 :: nat]) (\<lambda>_ _ _. True)"
    by (auto simp: decides_def)
  from merge_sort_permutes [OF this, of 0] show ?thesis by (auto simp: add_mset_commute)
qed

text \<open>
  C15: if the comparison decides by a linear quasi-order, \<open>MergeSort\<close> computes the one stable sorted permutation of the
  array, the same list as insertion sort.
\<close>

theorem merge_sort_stable:
  assumes "decides swap good (set xs) (by_comparator cmp)" "good st"
  shows "\<exists>st'. MergeSort swap xs st = Inr (Sorting_Algorithms.sort cmp xs, st') \<and> good st'"
proof (cases "xs = []")
  case True
  then show ?thesis using assms(2) by (simp add: MergeSort_def)
next
  case False
  then show ?thesis using MergeSort_sorts [OF assms False] sorts_sort by blast
qed

definition by_first :: "(nat \<times> nat) comparator" where
  "by_first = key fst default"

lemma compare_by_first: "compare by_first x y = Greater \<longleftrightarrow> fst y < fst x"
  by (auto simp: by_first_def)

theorem merge_sort_stable_witness:
  "MergeSort (\<lambda>x y st. Inr (fst y < fst x, st)) [(2, 0), (1, 0), (2, 1), (1, 1 :: nat)] ()
    = Inr ([(1 :: nat, 0), (1, 1), (2, 0), (2, 1)], ())"
proof -
  let ?xs = "[(2, 0), (1, 0), (2, 1), (1, 1)] :: (nat \<times> nat) list"
  have "decides (\<lambda>x y st. Inr (fst y < fst x, st)) (\<lambda>_ :: unit. True) (set ?xs) (by_comparator by_first)"
    unfolding decides_def by_comparator_def compare_by_first by simp
  from merge_sort_stable [OF this] show ?thesis by (simp add: compare_by_first)
qed

text \<open>The fields of the arguments.\<close>

lemma fields_of_value: "value_fields v st fs \<Longrightarrow> fields_of (nat (GetDOLength v)) (do_value v) (do_begin v) st = Inr fs"
  by (simp add: value_fields_def)

lemma items_packed: "list_all2 (\<lambda>v. content v st) vs fss \<Longrightarrow> pack_items vs st = Inr (concat fss)"
  by (induction rule: list_all2_induct) (auto simp: content_def fields_of_value)

lemma items_counted: "list_all2 (\<lambda>v. content v st) vs fss \<Longrightarrow> sum_list (map value_length vs) = int (length (concat fss))"
  by (induction rule: list_all2_induct) (auto simp: content_length)

text \<open>
  C6: \<open>sort\<close> evaluates its arguments, and returns all their fields in one new multifield, in the stable order of the
  comparison that the function it is given makes; the reference counts of the atoms are what they were before. The function
  has to take two arguments and to compare by a linear quasi-order.
\<close>

theorem function_sorted:
  assumes "evaluates (host.truncate h) args (name # v # vs) st" "do_type name = SYMBOL"
    and "ValueToString (do_value name) (scanner st) = Inr fname" "FunctionReference h fname st = Some r" "takes_two r"
    and "list_all2 (\<lambda>v. content v st) (v # vs) fss" "items = concat fss"
    and "\<forall>z \<in> set items. \<exists>n. atom_count st z = Some n \<and> 0 \<le> n" "follows h r (set items) cmp"
  shows "\<exists>d st'. SortFunction h depth args st = Inr (d, st')
    \<and> value_fields d st' (Sorting_Algorithms.sort cmp items) \<and> (\<forall>z \<in> set items. atom_count st' z = atom_count st z)"
proof -
  let ?h = "host.truncate h"
  have rest: "unknown_args ?h (drop (Suc 0) args) st = (v # vs, st)"
    using evaluates_unknown [OF assms(1), of 1] by simp
  have size: "sum_list (map value_length (v # vs)) = int (length items)"
    using items_counted [OF assms(6)] assms(7) by simp
  have call: "SortFunction h depth args st =
      (if items = [] then error_value ?h st else sort_items h depth r items st)"
    using evaluates_length [OF assms(1)] rest size items_packed [OF assms(6)] assms(2-5,7)
    by (simp add: SortFunction_def EnvArgCountCheck_def EnvRtnArgCount_def with_arg_first(1) [OF assms(1)])
  show ?thesis
  proof (cases "items = []")
    case True
    have "fields_of 0 p i st' = Inr []" for p i st' by simp
    then show ?thesis using True
      by (simp add: call error_value_def EnvSetMultifieldErrorValue_def built_empty value_fields_def GetDOLength_def)
  next
    case False
    from items_sorted [OF assms(9,8) False, of depth] obtain st' where
      "sort_items h depth r items st = Inr (whole (new_segment ?h st') (Sorting_Algorithms.sort cmp items),
        built (new_segment ?h st') (Sorting_Algorithms.sort cmp items) st')"
      "\<forall>z \<in> set items. atom_count st' z = atom_count st z" by blast
    moreover have "atom_count (built p zs st') z = atom_count st' z" for p zs z
      by (simp add: atom_count_def built_def building_def AddToMultifieldList_def Let_def split: kind.split)
    ultimately show ?thesis using False call value_fields_whole by auto
  qed
qed

definition demo_sorting :: "dataObject sorting" where
  "demo_sorting = \<lparr>lib = demo_libc, new_segment = new_segment demo_host, evaluate = Pair,
     double_of_long = id, long_of_double = id, unsigned_of_double = id, entity_busy = (\<lambda>_ _ _ st. st),
     instance_name = (\<lambda>_. []), entity_text = (\<lambda>_ _. []),
     FunctionReference = (\<lambda>name st. Some (System 1 (Some (bytes_of ''22n'')))),
     call_on = (\<lambda>r x y st. (\<lparr>do_type = if field_value y < field_value x then INTEGER else SYMBOL,
       do_value = do_value (EnvFalseSymbol st), do_begin = 0, do_end = 0\<rparr>, st))\<rparr>"

definition by_address :: "field comparator" where
  "by_address = key field_value default"

theorem function_sorted_witness:
  "\<exists>d st. SortFunction demo_sorting 0 [demo_symbol, demo_number 2, demo_value] demo_machine = Inr (d, st)
    \<and> value_fields d st [\<lparr>field_type = SYMBOL, field_value = 7\<rparr>, number 11, number 11, number 12]"
proof -
  let ?items = "concat [[number 12], demo_fields]"
  have h: "host.truncate demo_sorting = demo_host" by (simp add: host.truncate_def demo_sorting_def demo_host_def)
  have e: "evaluates (host.truncate demo_sorting) [demo_symbol, demo_number 2, demo_value] [demo_symbol, demo_number 2, demo_value] demo_machine"
    unfolding h by (rule demo_evaluates) simp
  have name: "do_type demo_symbol = SYMBOL" "ValueToString (do_value demo_symbol) (scanner demo_machine) = Inr [98]"
    by (simp_all add: demo_symbol_def ValueToString_def demo_machine_def demo_atoms_def demo_data_def)
  have r: "FunctionReference demo_sorting [98] demo_machine = Some (System 1 (Some (bytes_of ''22n'')))"
    "takes_two (System 1 (Some (bytes_of ''22n'')))"
    by (simp_all add: demo_sorting_def takes_two_def GetMinimumArgs_def GetMaximumArgs_def digit_value_def bytes_of_def)
  have "content demo_value demo_machine demo_fields" using demo_value_fields by (simp add: content_def demo_value_def)
  then have c: "list_all2 (\<lambda>v. content v demo_machine) [demo_number 2, demo_value] [[number 12], demo_fields]"
    using demo_content(2) [of 2] by simp
  have n: "\<forall>z \<in> set ?items. \<exists>n. atom_count demo_machine z = Some n \<and> 0 \<le> n"
    by (simp add: demo_fields_def number_def atom_count_def kind_of_def demo_machine_def demo_atoms_def demo_data_def demo_integer_def)
  have f: "follows demo_sorting (System 1 (Some (bytes_of ''22n''))) (set ?items) by_address"
    unfolding follows_def
  proof (intro ballI allI impI)
    fix x y :: field and st
    assume x: "x \<in> set ?items" and st: "\<forall>z \<in> set ?items. atom_count st z \<noteq> None"
    show "case call_on demo_sorting (System 1 (Some (bytes_of ''22n''))) x y st of (v, st') \<Rightarrow>
        (\<forall>z \<in> set ?items. atom_count st' z = atom_count st z) \<and> (is_false st' v \<longleftrightarrow> compare by_address x y \<noteq> Greater)"
      by (simp add: demo_sorting_def is_false_def by_address_def)
  qed
  have s: "Sorting_Algorithms.sort by_address ?items = [\<lparr>field_type = SYMBOL, field_value = 7\<rparr>, number 11, number 11, number 12]"
    by (simp add: demo_fields_def number_def by_address_def)
  from function_sorted [OF e name r c refl n f, of 0] show ?thesis unfolding s by blast
qed

end
