(* ===== verification/ConstraintRecord.thy ===== *)
theory ConstraintRecord
  imports MultifieldFunctions
begin

text \<open>
  Constraint records: the types, values, ranges and numbers of fields that a slot or an argument allows
  (\<open>CLIPS/cstrnutl.c\<close>), the checks of a value or an expression against a record (\<open>CLIPS/cstrnchk.c\<close>), and the
  expressions they look at. A chain of expressions linked by \<open>nextArg\<close> is a list, and copying one gives the same list.
\<close>

section \<open>Expressions\<close>

datatype exprType = Constant fieldType | FCALL | GCALL | PCALL | GBL_VARIABLE | MF_GBL_VARIABLE | SF_VARIABLE | MF_VARIABLE

datatype expr = Expr (expr_type: exprType) (expr_value: address) (argList: "expr list")

definition GenConstant :: "exprType \<Rightarrow> address \<Rightarrow> expr" where
  "GenConstant type value = Expr type value []"

definition ConstantType :: "exprType \<Rightarrow> bool" where
  "ConstantType t \<longleftrightarrow> t \<in> Constant ` {SYMBOL, STRING, INTEGER, FLOAT, INSTANCE_NAME, INSTANCE_ADDRESS}"

section \<open>Records\<close>

text \<open>
  \<open>level\<close> is the record without the one for the fields of a multifield value, which it points to. The links of the
  hash table of constraints are left out.
\<close>

record constraintLevel =
  anyAllowed :: bool
  symbolsAllowed :: bool
  stringsAllowed :: bool
  floatsAllowed :: bool
  integersAllowed :: bool
  instanceNamesAllowed :: bool
  instanceAddressesAllowed :: bool
  externalAddressesAllowed :: bool
  factAddressesAllowed :: bool
  voidAllowed :: bool
  anyRestriction :: bool
  symbolRestriction :: bool
  stringRestriction :: bool
  floatRestriction :: bool
  integerRestriction :: bool
  classRestriction :: bool
  instanceNameRestriction :: bool
  multifieldsAllowed :: bool
  singlefieldsAllowed :: bool
  classList :: "expr list"
  restrictionList :: "expr list"
  minValue :: "expr list"
  maxValue :: "expr list"
  minFields :: "expr list"
  maxFields :: "expr list"

datatype constraintRecord = Constraint (level: constraintLevel) (multifieldConstraint: "constraintRecord option")

definition SetAnyAllowedFlags :: "bool \<Rightarrow> constraintLevel \<Rightarrow> constraintLevel" where
  "SetAnyAllowedFlags justOne c =
     c\<lparr>anyAllowed := justOne, symbolsAllowed := \<not> justOne, stringsAllowed := \<not> justOne, floatsAllowed := \<not> justOne,
       integersAllowed := \<not> justOne, instanceNamesAllowed := \<not> justOne, instanceAddressesAllowed := \<not> justOne,
       externalAddressesAllowed := \<not> justOne, voidAllowed := \<not> justOne, factAddressesAllowed := \<not> justOne\<rparr>"

definition SetAnyRestrictionFlags :: "bool \<Rightarrow> constraintLevel \<Rightarrow> constraintLevel" where
  "SetAnyRestrictionFlags justOne c =
     c\<lparr>anyRestriction := justOne, symbolRestriction := \<not> justOne, stringRestriction := \<not> justOne,
       floatRestriction := \<not> justOne, integerRestriction := \<not> justOne, instanceNameRestriction := \<not> justOne\<rparr>"

text \<open>The addresses of the infinities and of zero are set when the atom tables are.\<close>

definition GetConstraintRecord :: "scan \<Rightarrow> constraintLevel res" where
  "GetConstraintRecord s =
     (case (NegativeInfinity (atom_data s), PositiveInfinity (atom_data s), Zero (atom_data s)) of
        (Some low, Some high, Some zero) \<Rightarrow>
          Inr \<lparr>anyAllowed = True, symbolsAllowed = False, stringsAllowed = False, floatsAllowed = False,
               integersAllowed = False, instanceNamesAllowed = False, instanceAddressesAllowed = False,
               externalAddressesAllowed = False, factAddressesAllowed = False, voidAllowed = False,
               anyRestriction = False, symbolRestriction = False, stringRestriction = False, floatRestriction = False,
               integerRestriction = False, classRestriction = False, instanceNameRestriction = False,
               multifieldsAllowed = False, singlefieldsAllowed = True, classList = [], restrictionList = [],
               minValue = [GenConstant (Constant SYMBOL) low], maxValue = [GenConstant (Constant SYMBOL) high],
               minFields = [GenConstant (Constant INTEGER) zero], maxFields = [GenConstant (Constant SYMBOL) high]\<rparr>
      | _ \<Rightarrow> Inl Undefined)"

text \<open>The types that the flags can be set for: any value, or one of the sets of types an argument may have\<close>

datatype constraintType = UNKNOWN_VALUE | Types expected

definition SetConstraintType :: "constraintType \<Rightarrow> constraintLevel \<Rightarrow> bool \<times> constraintLevel" where
  "SetConstraintType theType c =
     (case theType of
        UNKNOWN_VALUE \<Rightarrow> (anyAllowed c, c\<lparr>anyAllowed := True\<rparr>)
      | Types types \<Rightarrow>
          (let (rv, c) =
             (case types of
                Exactly SYMBOL \<Rightarrow> (symbolsAllowed c, c\<lparr>symbolsAllowed := True\<rparr>)
              | Exactly STRING \<Rightarrow> (stringsAllowed c, c\<lparr>stringsAllowed := True\<rparr>)
              | SYMBOL_OR_STRING \<Rightarrow>
                  (stringsAllowed c \<or> symbolsAllowed c, c\<lparr>symbolsAllowed := True, stringsAllowed := True\<rparr>)
              | Exactly INTEGER \<Rightarrow> (integersAllowed c, c\<lparr>integersAllowed := True\<rparr>)
              | Exactly FLOAT \<Rightarrow> (floatsAllowed c, c\<lparr>floatsAllowed := True\<rparr>)
              | INTEGER_OR_FLOAT \<Rightarrow>
                  (integersAllowed c \<or> floatsAllowed c, c\<lparr>integersAllowed := True, floatsAllowed := True\<rparr>)
              | Exactly INSTANCE_ADDRESS \<Rightarrow> (instanceAddressesAllowed c, c\<lparr>instanceAddressesAllowed := True\<rparr>)
              | Exactly INSTANCE_NAME \<Rightarrow> (instanceNamesAllowed c, c\<lparr>instanceNamesAllowed := True\<rparr>)
              | INSTANCE_OR_INSTANCE_NAME \<Rightarrow>
                  (instanceNamesAllowed c \<or> instanceAddressesAllowed c,
                   c\<lparr>instanceNamesAllowed := True, instanceAddressesAllowed := True\<rparr>)
              | Exactly EXTERNAL_ADDRESS \<Rightarrow> (externalAddressesAllowed c, c\<lparr>externalAddressesAllowed := True\<rparr>)
              | Exactly RVOID \<Rightarrow> (voidAllowed c, c\<lparr>voidAllowed := True\<rparr>)
              | Exactly FACT_ADDRESS \<Rightarrow> (factAddressesAllowed c, c\<lparr>factAddressesAllowed := True\<rparr>)
              | Exactly MULTIFIELD \<Rightarrow> (multifieldsAllowed c, c\<lparr>multifieldsAllowed := True\<rparr>))
           in (rv, c\<lparr>anyAllowed := False\<rparr>)))"

section \<open>Comparing numbers\<close>

text \<open>
  Doubles are kept by their bits: sign, exponent and mantissa. The order of those that are numbers is that of the
  integers with the same sign and the other 63 bits as their amount; no comparison with a NaN holds.
\<close>

definition double_key :: "64 word \<Rightarrow> int" where
  "double_key x = (let m = uint (x AND 0x7FFFFFFFFFFFFFFF) in if bit x 63 then - m else m)"

definition double_less :: "64 word \<Rightarrow> 64 word \<Rightarrow> bool" where
  "double_less x y \<longleftrightarrow> \<not> is_nan x \<and> \<not> is_nan y \<and> double_key x < double_key y"

text \<open>
  The conversion of an integer rounds to the nearest double, to an even mantissa in the middle. The amount with its
  leading one, in the units of the last bit, is added to the exponent, so that a carry is right.
\<close>

definition scaled :: "nat \<Rightarrow> nat \<Rightarrow> nat" where
  "scaled e m =
     (if e \<le> 52 then m * 2 ^ (52 - e)
      else
        let u = 2 ^ (e - 52); q = m div u; r = m mod u in
        if u < 2 * r \<or> (u = 2 * r \<and> odd q) then q + 1 else q)"

definition top_bit :: "nat \<Rightarrow> nat" where
  "top_bit m = length (takeWhile (\<lambda>e. 2 ^ (e + 1) \<le> m) [0..<64])"

definition long_to_double :: "64 word \<Rightarrow> 64 word" where
  "long_to_double x =
     (let i = sint x; m = nat \<bar>i\<bar>; e = top_bit m in
      if m = 0 then 0
      else word_of_int ((if i < 0 then 2 ^ 63 else 0) + int ((e + 1022) * 2 ^ 52 + scaled e m)))"

definition compared :: "bool \<Rightarrow> bool \<Rightarrow> comparison" where
  "compared lower higher = (if lower then LESS_THAN else if higher then GREATER_THAN else EQUAL)"

text \<open>None stands for the result -1 of types that cannot be compared.\<close>

definition CompareNumbers :: "scan \<Rightarrow> exprType \<Rightarrow> address \<Rightarrow> exprType \<Rightarrow> address \<Rightarrow> comparison option res" where
  "CompareNumbers s type1 vptr1 type2 vptr2 =
     (if vptr1 = vptr2 then Inr (Some EQUAL)
      else if Some vptr1 = PositiveInfinity (atom_data s) then Inr (Some GREATER_THAN)
      else if Some vptr1 = NegativeInfinity (atom_data s) then Inr (Some LESS_THAN)
      else if Some vptr2 = PositiveInfinity (atom_data s) then Inr (Some LESS_THAN)
      else if Some vptr2 = NegativeInfinity (atom_data s) then Inr (Some GREATER_THAN)
      else if type1 = Constant INTEGER \<and> type2 = Constant INTEGER then
        bind_res (ValueToLong vptr1 s) (\<lambda>x. bind_res (ValueToLong vptr2 s) (\<lambda>y.
          Inr (Some (compared (x <s y) (y <s x)))))
      else if type1 = Constant FLOAT \<and> type2 = Constant FLOAT then
        bind_res (ValueToDouble vptr1 s) (\<lambda>x. bind_res (ValueToDouble vptr2 s) (\<lambda>y.
          Inr (Some (compared (double_less x y) (double_less y x)))))
      else if type1 = Constant INTEGER \<and> type2 = Constant FLOAT then
        bind_res (ValueToLong vptr1 s) (\<lambda>x. bind_res (ValueToDouble vptr2 s) (\<lambda>y.
          Inr (Some (compared (double_less (long_to_double x) y) (double_less y (long_to_double x))))))
      else if type1 = Constant FLOAT \<and> type2 = Constant INTEGER then
        bind_res (ValueToDouble vptr1 s) (\<lambda>x. bind_res (ValueToLong vptr2 s) (\<lambda>y.
          Inr (Some (compared (double_less x (long_to_double y)) (double_less (long_to_double y) x)))))
      else Inr None)"

section \<open>Checks\<close>

text \<open>
  What the checks look up elsewhere: the instance of a name, the class of an instance, the class of a name, and
  whether a class is a subclass of another one; the code of the type that a function of the system returns.
\<close>

record system =
  FindInstanceBySymbol :: "address \<Rightarrow> address option"
  EnvGetInstanceClass :: "address \<Rightarrow> address"
  LookupDefclassByMdlOrScope :: "byte list \<Rightarrow> address option"
  EnvSubclassP :: "address \<Rightarrow> address \<Rightarrow> bool"
  ValueFunctionType :: "address \<Rightarrow> char"

definition CheckFunctionReturnType :: "char \<Rightarrow> constraintLevel option \<Rightarrow> bool" where
  "CheckFunctionReturnType functionReturnType constraints =
     (case constraints of
        None \<Rightarrow> True
      | Some c \<Rightarrow>
          if anyAllowed c then True
          else if functionReturnType \<in> {CHR ''c'', CHR ''w'', CHR ''b''} then symbolsAllowed c
          else if functionReturnType = CHR ''s'' then stringsAllowed c
          else if functionReturnType = CHR ''j'' then symbolsAllowed c \<or> stringsAllowed c \<or> instanceNamesAllowed c
          else if functionReturnType = CHR ''k'' then symbolsAllowed c \<or> stringsAllowed c
          else if functionReturnType \<in> {CHR ''d'', CHR ''f''} then floatsAllowed c
          else if functionReturnType \<in> {CHR ''i'', CHR ''l''} then integersAllowed c
          else if functionReturnType = CHR ''n'' then integersAllowed c \<or> floatsAllowed c
          else if functionReturnType = CHR ''m'' then multifieldsAllowed c
          else if functionReturnType = CHR ''a'' then externalAddressesAllowed c
          else if functionReturnType = CHR ''x'' then instanceAddressesAllowed c
          else if functionReturnType = CHR ''y'' then factAddressesAllowed c
          else if functionReturnType = CHR ''o'' then instanceNamesAllowed c
          else True)"

definition CheckTypeConstraint :: "exprType \<Rightarrow> constraintLevel option \<Rightarrow> bool" where
  "CheckTypeConstraint type constraints =
     (if type = Constant RVOID then False
      else case constraints of
        None \<Rightarrow> True
      | Some c \<Rightarrow>
          if anyAllowed c then True
          else if type = Constant SYMBOL \<and> \<not> symbolsAllowed c then False
          else if type = Constant STRING \<and> \<not> stringsAllowed c then False
          else if type = Constant FLOAT \<and> \<not> floatsAllowed c then False
          else if type = Constant INTEGER \<and> \<not> integersAllowed c then False
          else if type = Constant INSTANCE_NAME \<and> \<not> instanceNamesAllowed c then False
          else if type = Constant INSTANCE_ADDRESS \<and> \<not> instanceAddressesAllowed c then False
          else if type = Constant EXTERNAL_ADDRESS \<and> \<not> externalAddressesAllowed c then False
          else if type = Constant FACT_ADDRESS \<and> \<not> factAddressesAllowed c then False
          else True)"

text \<open>A bound of the number of fields, unless it is missing or the given infinity; only the first one is looked at.\<close>

definition field_bound :: "expr list \<Rightarrow> address option \<Rightarrow> scan \<Rightarrow> int option res" where
  "field_bound bounds infinity s =
     (case bounds of
        [] \<Rightarrow> Inr None
      | b # _ \<Rightarrow>
          if Some (expr_value b) = infinity then Inr None
          else bind_res (ValueToLong (expr_value b) s) (\<lambda>x. Inr (Some (sint x))))"

definition CheckCardinalityConstraint :: "scan \<Rightarrow> int \<Rightarrow> constraintLevel option \<Rightarrow> bool res" where
  "CheckCardinalityConstraint s number constraints =
     (case constraints of
        None \<Rightarrow> Inr True
      | Some c \<Rightarrow>
          bind_res (field_bound (minFields c) (NegativeInfinity (atom_data s)) s) (\<lambda>low.
          if (case low of None \<Rightarrow> False | Some x \<Rightarrow> number < x) then Inr False
          else bind_res (field_bound (maxFields c) (PositiveInfinity (atom_data s)) s) (\<lambda>high.
            Inr (case high of None \<Rightarrow> True | Some x \<Rightarrow> \<not> x < number))))"

definition CheckRangeAgainstCardinalityConstraint :: "scan \<Rightarrow> int \<Rightarrow> int \<Rightarrow> constraintLevel option \<Rightarrow> bool res" where
  "CheckRangeAgainstCardinalityConstraint s least most constraints =
     (case constraints of
        None \<Rightarrow> Inr True
      | Some c \<Rightarrow>
          bind_res (field_bound (maxFields c) (PositiveInfinity (atom_data s)) s) (\<lambda>high.
          if (case high of None \<Rightarrow> False | Some x \<Rightarrow> x < least) then Inr False
          else if most = -1 then Inr True
          else bind_res (field_bound (minFields c) (NegativeInfinity (atom_data s)) s) (\<lambda>low.
            Inr (case low of None \<Rightarrow> True | Some x \<Rightarrow> \<not> most < x))))"

definition restricted :: "exprType \<Rightarrow> constraintLevel \<Rightarrow> bool" where
  "restricted type c \<longleftrightarrow>
     type = Constant SYMBOL \<and> (symbolRestriction c \<or> anyRestriction c)
     \<or> type = Constant INSTANCE_NAME \<and> (instanceNameRestriction c \<or> anyRestriction c)
     \<or> type = Constant STRING \<and> (stringRestriction c \<or> anyRestriction c)
     \<or> type = Constant INTEGER \<and> (integerRestriction c \<or> anyRestriction c)
     \<or> type = Constant FLOAT \<and> (floatRestriction c \<or> anyRestriction c)"

definition CheckAllowedValuesConstraint :: "exprType \<Rightarrow> address \<Rightarrow> constraintLevel option \<Rightarrow> bool" where
  "CheckAllowedValuesConstraint type vPtr constraints =
     (case constraints of
        None \<Rightarrow> True
      | Some c \<Rightarrow>
          if \<not> restricted type c then True
          else list_ex (\<lambda>x. expr_type x = type \<and> expr_value x = vPtr) (restrictionList c))"

fun in_classes :: "system \<Rightarrow> address \<Rightarrow> expr list \<Rightarrow> scan \<Rightarrow> bool res" where
  "in_classes y insClass [] s = Inr False"
| "in_classes y insClass (x # xs) s =
     bind_res (ValueToString (expr_value x) s) (\<lambda>name.
       case LookupDefclassByMdlOrScope y name of
         None \<Rightarrow> in_classes y insClass xs s
       | Some cmpClass \<Rightarrow>
           if cmpClass = insClass \<or> EnvSubclassP y insClass cmpClass then Inr True else in_classes y insClass xs s)"

definition CheckAllowedClassesConstraint ::
  "system \<Rightarrow> scan \<Rightarrow> exprType \<Rightarrow> address \<Rightarrow> constraintLevel option \<Rightarrow> bool res" where
  "CheckAllowedClassesConstraint y s type vPtr constraints =
     (case constraints of
        None \<Rightarrow> Inr True
      | Some c \<Rightarrow>
          if classList c = [] then Inr True
          else if type \<noteq> Constant INSTANCE_ADDRESS \<and> type \<noteq> Constant INSTANCE_NAME then Inr True
          else case (if type = Constant INSTANCE_ADDRESS then Some vPtr else FindInstanceBySymbol y vPtr) of
            None \<Rightarrow> Inr False
          | Some ins \<Rightarrow> in_classes y (EnvGetInstanceClass y ins) (classList c) s)"

text \<open>The two lists of bounds are gone through together.\<close>

fun in_ranges :: "scan \<Rightarrow> exprType \<Rightarrow> address \<Rightarrow> expr list \<Rightarrow> expr list \<Rightarrow> bool res" where
  "in_ranges s type vPtr [] maxList = Inr False"
| "in_ranges s type vPtr (m # minList) [] = Inl Undefined"
| "in_ranges s type vPtr (m # minList) (x # maxList) =
     bind_res (CompareNumbers s type vPtr (expr_type m) (expr_value m)) (\<lambda>low.
     if low = Some LESS_THAN then in_ranges s type vPtr minList maxList
     else bind_res (CompareNumbers s type vPtr (expr_type x) (expr_value x)) (\<lambda>high.
       if high = Some GREATER_THAN then in_ranges s type vPtr minList maxList else Inr True))"

definition CheckRangeConstraint :: "scan \<Rightarrow> exprType \<Rightarrow> address \<Rightarrow> constraintLevel option \<Rightarrow> bool res" where
  "CheckRangeConstraint s type vPtr constraints =
     (case constraints of
        None \<Rightarrow> Inr True
      | Some c \<Rightarrow>
          if type \<noteq> Constant INTEGER \<and> type \<noteq> Constant FLOAT then Inr True
          else in_ranges s type vPtr (minValue c) (maxValue c))"

datatype violation = NO_VIOLATION | TYPE_VIOLATION | RANGE_VIOLATION | ALLOWED_VALUES_VIOLATION
  | FUNCTION_RETURN_TYPE_VIOLATION | CARDINALITY_VIOLATION | ALLOWED_CLASSES_VIOLATION

definition ConstraintCheckValue ::
  "system \<Rightarrow> scan \<Rightarrow> exprType \<Rightarrow> address \<Rightarrow> constraintLevel option \<Rightarrow> violation res" where
  "ConstraintCheckValue y s theType theValue theConstraints =
     (if \<not> CheckTypeConstraint theType theConstraints then Inr TYPE_VIOLATION
      else if \<not> CheckAllowedValuesConstraint theType theValue theConstraints then Inr ALLOWED_VALUES_VIOLATION
      else bind_res (CheckAllowedClassesConstraint y s theType theValue theConstraints) (\<lambda>classes.
        if \<not> classes then Inr ALLOWED_CLASSES_VIOLATION
        else bind_res (CheckRangeConstraint s theType theValue theConstraints) (\<lambda>range.
          if \<not> range then Inr RANGE_VIOLATION
          else if theType = FCALL \<and> \<not> CheckFunctionReturnType (ValueFunctionType y theValue) theConstraints
          then Inr FUNCTION_RETURN_TYPE_VIOLATION
          else Inr NO_VIOLATION)))"

fun check_fields :: "system \<Rightarrow> nat \<Rightarrow> address \<Rightarrow> int \<Rightarrow> constraintLevel option \<Rightarrow> machine \<Rightarrow> violation res" where
  "check_fields y 0 p i c st = Inr NO_VIOLATION"
| "check_fields y (Suc n) p i c st =
     bind_res (get_field p i st) (\<lambda>f.
     bind_res (ConstraintCheckValue y (scanner st) (Constant (field_type f)) (field_value f) c) (\<lambda>rv.
       if rv \<noteq> NO_VIOLATION then Inr rv else check_fields y n p (i + 1) c st))"

definition ConstraintCheckDataObject :: "system \<Rightarrow> dataObject \<Rightarrow> constraintLevel option \<Rightarrow> machine \<Rightarrow> violation res" where
  "ConstraintCheckDataObject y theData theConstraints st =
     (if theConstraints = None then Inr NO_VIOLATION
      else if do_type theData = MULTIFIELD then
        bind_res (CheckCardinalityConstraint (scanner st) (GetDOLength theData) theConstraints) (\<lambda>ok.
          if \<not> ok then Inr CARDINALITY_VIOLATION
          else check_fields y (nat (GetDOLength theData)) (do_value theData) (do_begin theData) theConstraints st)
      else
        bind_res (CheckCardinalityConstraint (scanner st) 1 theConstraints) (\<lambda>ok.
          if \<not> ok then Inr CARDINALITY_VIOLATION
          else ConstraintCheckValue y (scanner st) (Constant (do_type theData)) (do_value theData) theConstraints))"

text \<open>The least number of values of a chain, and the greatest, which is -1 if there is no bound\<close>

fun value_numbers :: "system \<Rightarrow> expr list \<Rightarrow> int \<Rightarrow> int \<Rightarrow> int \<times> int" where
  "value_numbers y [] least most = (least, most)"
| "value_numbers y (x # xs) least most =
     (if ConstantType (expr_type x)
         \<or> expr_type x = FCALL \<and> ValueFunctionType y (expr_value x) \<noteq> CHR ''m''
           \<and> ValueFunctionType y (expr_value x) \<noteq> CHR ''u''
      then value_numbers y xs (least + 1) most else value_numbers y xs least (-1))"

fun check_chain :: "system \<Rightarrow> scan \<Rightarrow> expr list \<Rightarrow> constraintLevel option \<Rightarrow> violation res" where
  "check_chain y s [] c = Inr NO_VIOLATION"
| "check_chain y s (x # xs) c =
     bind_res (ConstraintCheckValue y s (expr_type x) (expr_value x) c) (\<lambda>vCode.
       if vCode \<noteq> NO_VIOLATION then Inr vCode else check_chain y s xs c)"

definition ConstraintCheckExpressionChain ::
  "system \<Rightarrow> scan \<Rightarrow> expr list \<Rightarrow> constraintLevel option \<Rightarrow> violation res" where
  "ConstraintCheckExpressionChain y s theExpression theConstraints =
     (let (least, most) = value_numbers y theExpression 0 0; most = (if most = 0 then least else most) in
      bind_res (CheckRangeAgainstCardinalityConstraint s least most theConstraints) (\<lambda>ok.
        if \<not> ok then Inr CARDINALITY_VIOLATION else check_chain y s theExpression theConstraints))"

fun check_expression :: "system \<Rightarrow> scan \<Rightarrow> expr list \<Rightarrow> constraintLevel \<Rightarrow> violation res" where
  "check_expression y s [] c = Inr NO_VIOLATION"
| "check_expression y s (Expr t v args # xs) c =
     bind_res (ConstraintCheckValue y s t v (Some c)) (\<lambda>rv.
       if rv \<noteq> NO_VIOLATION then Inr rv
       else bind_res (check_expression y s args c) (\<lambda>rv.
         if rv \<noteq> NO_VIOLATION then Inr rv else check_expression y s xs c))"

definition ConstraintCheckExpression ::
  "system \<Rightarrow> scan \<Rightarrow> expr list \<Rightarrow> constraintLevel option \<Rightarrow> violation res" where
  "ConstraintCheckExpression y s theExpression theConstraints =
     (case theConstraints of None \<Rightarrow> Inr NO_VIOLATION | Some c \<Rightarrow> check_expression y s theExpression c)"

definition UnmatchableConstraint :: "constraintLevel option \<Rightarrow> bool" where
  "UnmatchableConstraint theConstraint =
     (case theConstraint of
        None \<Rightarrow> False
      | Some c \<Rightarrow> \<not> anyAllowed c \<and> \<not> symbolsAllowed c \<and> \<not> stringsAllowed c \<and> \<not> floatsAllowed c \<and> \<not> integersAllowed c
          \<and> \<not> instanceNamesAllowed c \<and> \<not> instanceAddressesAllowed c \<and> \<not> multifieldsAllowed c
          \<and> \<not> externalAddressesAllowed c \<and> \<not> voidAllowed c \<and> \<not> factAddressesAllowed c)"

section \<open>Records of expressions\<close>

definition FunctionCallToConstraintRecord :: "system \<Rightarrow> scan \<Rightarrow> address \<Rightarrow> constraintRecord res" where
  "FunctionCallToConstraintRecord y s theFunction =
     bind_res (GetConstraintRecord s) (\<lambda>rv.
       let rv = rv\<lparr>anyAllowed := False\<rparr>; code = ValueFunctionType y theFunction in
       Inr (Constraint
         (if code = CHR ''a'' then rv\<lparr>externalAddressesAllowed := True\<rparr>
          else if code \<in> {CHR ''f'', CHR ''d''} then rv\<lparr>floatsAllowed := True\<rparr>
          else if code \<in> {CHR ''i'', CHR ''g'', CHR ''l''} then rv\<lparr>integersAllowed := True\<rparr>
          else if code = CHR ''j'' then
            rv\<lparr>instanceNamesAllowed := True, symbolsAllowed := True, stringsAllowed := True\<rparr>
          else if code = CHR ''k'' then rv\<lparr>symbolsAllowed := True, stringsAllowed := True\<rparr>
          else if code = CHR ''m'' then rv\<lparr>singlefieldsAllowed := False, multifieldsAllowed := True\<rparr>
          else if code = CHR ''n'' then rv\<lparr>floatsAllowed := True, integersAllowed := True\<rparr>
          else if code = CHR ''o'' then rv\<lparr>instanceNamesAllowed := True\<rparr>
          else if code = CHR ''s'' then rv\<lparr>stringsAllowed := True\<rparr>
          else if code = CHR ''u'' then rv\<lparr>anyAllowed := True, multifieldsAllowed := True\<rparr>
          else if code \<in> {CHR ''w'', CHR ''c'', CHR ''b''} then rv\<lparr>symbolsAllowed := True\<rparr>
          else if code = CHR ''x'' then rv\<lparr>instanceAddressesAllowed := True\<rparr>
          else if code = CHR ''y'' then rv\<lparr>factAddressesAllowed := True\<rparr>
          else if code = CHR ''v'' then rv\<lparr>voidAllowed := True\<rparr>
          else rv) None))"

text \<open>A constant allows its type, and as the only value itself if it is an atom.\<close>

definition constant_record :: "expr \<Rightarrow> constraintLevel \<Rightarrow> constraintLevel" where
  "constant_record x rv =
     (let t = expr_type x;
          rv = (if t = Constant FLOAT then rv\<lparr>floatRestriction := True, floatsAllowed := True\<rparr>
                else if t = Constant INTEGER then rv\<lparr>integerRestriction := True, integersAllowed := True\<rparr>
                else if t = Constant SYMBOL then rv\<lparr>symbolRestriction := True, symbolsAllowed := True\<rparr>
                else if t = Constant STRING then rv\<lparr>stringRestriction := True, stringsAllowed := True\<rparr>
                else if t = Constant INSTANCE_NAME then
                  rv\<lparr>instanceNameRestriction := True, instanceNamesAllowed := True\<rparr>
                else if t = Constant INSTANCE_ADDRESS then rv\<lparr>instanceAddressesAllowed := True\<rparr>
                else rv) in
      if floatsAllowed rv \<or> integersAllowed rv \<or> symbolsAllowed rv \<or> stringsAllowed rv \<or> instanceNamesAllowed rv
      then rv\<lparr>restrictionList := [GenConstant t (expr_value x)]\<rparr> else rv)"

definition ExpressionToConstraintRecord :: "system \<Rightarrow> scan \<Rightarrow> expr option \<Rightarrow> constraintRecord res" where
  "ExpressionToConstraintRecord y s theExpression =
     (case theExpression of
        None \<Rightarrow> bind_res (GetConstraintRecord s) (\<lambda>rv. Inr (Constraint (rv\<lparr>anyAllowed := False\<rparr>) None))
      | Some x \<Rightarrow>
          if expr_type x \<in> {SF_VARIABLE, MF_VARIABLE, GCALL, PCALL, GBL_VARIABLE, MF_GBL_VARIABLE} then
            bind_res (GetConstraintRecord s) (\<lambda>rv. Inr (Constraint (rv\<lparr>multifieldsAllowed := True\<rparr>) None))
          else if expr_type x = FCALL then FunctionCallToConstraintRecord y s (expr_value x)
          else bind_res (GetConstraintRecord s) (\<lambda>rv.
            Inr (Constraint (constant_record x (rv\<lparr>anyAllowed := False\<rparr>)) None)))"

definition ArgumentTypeToConstraintRecord :: "scan \<Rightarrow> char \<Rightarrow> constraintRecord res" where
  "ArgumentTypeToConstraintRecord s code =
     bind_res (GetConstraintRecord s) (\<lambda>rv.
       let rv = rv\<lparr>anyAllowed := False\<rparr> in
       Inr (Constraint
         (if code = CHR ''a'' then rv\<lparr>externalAddressesAllowed := True\<rparr>
          else if code = CHR ''e'' then
            rv\<lparr>symbolsAllowed := True, instanceNamesAllowed := True, instanceAddressesAllowed := True\<rparr>
          else if code \<in> {CHR ''d'', CHR ''f''} then rv\<lparr>floatsAllowed := True\<rparr>
          else if code = CHR ''g'' then rv\<lparr>integersAllowed := True, floatsAllowed := True, symbolsAllowed := True\<rparr>
          else if code = CHR ''h'' then
            rv\<lparr>factAddressesAllowed := True, integersAllowed := True, symbolsAllowed := True,
              instanceNamesAllowed := True, instanceAddressesAllowed := True\<rparr>
          else if code \<in> {CHR ''i'', CHR ''l''} then rv\<lparr>integersAllowed := True\<rparr>
          else if code = CHR ''j'' then
            rv\<lparr>symbolsAllowed := True, stringsAllowed := True, instanceNamesAllowed := True\<rparr>
          else if code = CHR ''k'' then rv\<lparr>symbolsAllowed := True, stringsAllowed := True\<rparr>
          else if code = CHR ''m'' then rv\<lparr>singlefieldsAllowed := False, multifieldsAllowed := True\<rparr>
          else if code = CHR ''n'' then rv\<lparr>floatsAllowed := True, integersAllowed := True\<rparr>
          else if code = CHR ''o'' then rv\<lparr>instanceNamesAllowed := True\<rparr>
          else if code = CHR ''p'' then rv\<lparr>instanceNamesAllowed := True, symbolsAllowed := True\<rparr>
          else if code = CHR ''q'' then
            rv\<lparr>symbolsAllowed := True, stringsAllowed := True, multifieldsAllowed := True\<rparr>
          else if code = CHR ''s'' then rv\<lparr>stringsAllowed := True\<rparr>
          else if code = CHR ''w'' then rv\<lparr>symbolsAllowed := True\<rparr>
          else if code = CHR ''x'' then rv\<lparr>instanceAddressesAllowed := True\<rparr>
          else if code = CHR ''y'' then rv\<lparr>factAddressesAllowed := True\<rparr>
          else if code = CHR ''z'' then
            rv\<lparr>symbolsAllowed := True, factAddressesAllowed := True, integersAllowed := True\<rparr>
          else if code = CHR ''u'' then rv\<lparr>anyAllowed := True, multifieldsAllowed := True\<rparr>
          else if code = CHR ''v'' then rv\<lparr>voidAllowed := True\<rparr>
          else rv) None))"

end
