(* ===== verification/ConstraintOps.thy ===== *)
theory ConstraintOps
  imports ConstraintRecord
begin

text \<open>
  Intersection and union of constraint records and the removal of a value (\<open>CLIPS/cstrnops.c\<close>), and the check of an
  argument against the code of the types it may have (\<open>CLIPS/exprnops.c\<close>). Intersection and union change the flags of
  the records they are given for a while, and return them too.
\<close>

section \<open>Lists of values\<close>

fun FindItemInExpression :: "exprType \<Rightarrow> address \<Rightarrow> bool \<Rightarrow> expr list \<Rightarrow> bool" where
  "FindItemInExpression theType theValue useValue [] = False"
| "FindItemInExpression theType theValue useValue (x # theList) =
     (if expr_type x = theType \<and> (\<not> useValue \<or> expr_value x = theValue) then True
      else FindItemInExpression theType theValue useValue theList)"

text \<open>The values of a list that pass are put in front, in the second pass those that are not there already.\<close>

fun add_passing :: "(exprType \<Rightarrow> address \<Rightarrow> bool res) \<Rightarrow> bool \<Rightarrow> expr list \<Rightarrow> expr list \<Rightarrow> expr list res" where
  "add_passing passes again [] theHead = Inr theHead"
| "add_passing passes again (x # xs) theHead =
     (if again \<and> FindItemInExpression (expr_type x) (expr_value x) True theHead
      then add_passing passes again xs theHead
      else bind_res (passes (expr_type x) (expr_value x)) (\<lambda>ok.
        add_passing passes again xs (if ok then GenConstant (expr_type x) (expr_value x) # theHead else theHead)))"

definition both :: "bool res \<Rightarrow> bool res \<Rightarrow> bool res" where
  "both p q = bind_res p (\<lambda>p. if p then q else Inr False)"

definition IntersectAllowedValueExpressions :: "constraintLevel \<Rightarrow> constraintLevel \<Rightarrow> constraintLevel \<Rightarrow> constraintLevel res" where
  "IntersectAllowedValueExpressions constraint1 constraint2 newConstraint =
     (let passes = (\<lambda>t v. both (Inr (CheckAllowedValuesConstraint t v (Some constraint1)))
                               (Inr (CheckAllowedValuesConstraint t v (Some constraint2)))) in
      bind_res (add_passing passes False (restrictionList constraint1) []) (\<lambda>theHead.
      bind_res (add_passing passes True (restrictionList constraint2) theHead) (\<lambda>theHead.
        Inr (newConstraint\<lparr>restrictionList := theHead\<rparr>))))"

definition IntersectAllowedClassExpressions ::
  "system \<Rightarrow> scan \<Rightarrow> constraintLevel \<Rightarrow> constraintLevel \<Rightarrow> constraintLevel \<Rightarrow> constraintLevel res" where
  "IntersectAllowedClassExpressions y s constraint1 constraint2 newConstraint =
     (let passes = (\<lambda>t v. both (CheckAllowedClassesConstraint y s t v (Some constraint1))
                               (CheckAllowedClassesConstraint y s t v (Some constraint2))) in
      bind_res (add_passing passes False (classList constraint1) []) (\<lambda>theHead.
      bind_res (add_passing passes True (classList constraint2) theHead) (\<lambda>theHead.
        Inr (newConstraint\<lparr>classList := theHead\<rparr>))))"

section \<open>Ranges\<close>

text \<open>One range with each of the second record; the two lists of bounds are gone through together.\<close>

fun intersect_range :: "scan \<Rightarrow> expr \<Rightarrow> expr \<Rightarrow> expr list \<Rightarrow> expr list \<Rightarrow> (expr \<times> expr) list res" where
  "intersect_range s tmpmin1 tmpmax1 [] maxs = Inr []"
| "intersect_range s tmpmin1 tmpmax1 (tmpmin2 # mins) [] = Inl Undefined"
| "intersect_range s tmpmin1 tmpmax1 (tmpmin2 # mins) (tmpmax2 # maxs) =
     bind_res (CompareNumbers s (expr_type tmpmax1) (expr_value tmpmax1) (expr_type tmpmax2) (expr_value tmpmax2)) (\<lambda>cmaxmax.
     bind_res (CompareNumbers s (expr_type tmpmin1) (expr_value tmpmin1) (expr_type tmpmin2) (expr_value tmpmin2)) (\<lambda>cminmin.
     bind_res (CompareNumbers s (expr_type tmpmax1) (expr_value tmpmax1) (expr_type tmpmin2) (expr_value tmpmin2)) (\<lambda>cmaxmin.
     bind_res (CompareNumbers s (expr_type tmpmin1) (expr_value tmpmin1) (expr_type tmpmax2) (expr_value tmpmax2)) (\<lambda>cminmax.
       if cmaxmin = Some LESS_THAN \<or> cminmax = Some GREATER_THAN then intersect_range s tmpmin1 tmpmax1 mins maxs
       else
         let theMin = (if cminmin = Some GREATER_THAN then tmpmin1 else tmpmin2);
             theMax = (if cmaxmax = Some LESS_THAN then tmpmax1 else tmpmax2) in
         bind_res (intersect_range s tmpmin1 tmpmax1 mins maxs) (\<lambda>rest.
           Inr ((GenConstant (expr_type theMin) (expr_value theMin), GenConstant (expr_type theMax) (expr_value theMax))
             # rest))))))"

fun intersect_ranges :: "scan \<Rightarrow> expr list \<Rightarrow> expr list \<Rightarrow> expr list \<Rightarrow> expr list \<Rightarrow> (expr \<times> expr) list res" where
  "intersect_ranges s [] maxs mins2 maxs2 = Inr []"
| "intersect_ranges s (tmpmin1 # mins) maxs mins2 maxs2 =
     (case maxs of
        [] \<Rightarrow> Inl Undefined
      | tmpmax1 # maxs \<Rightarrow>
          bind_res (intersect_range s tmpmin1 tmpmax1 mins2 maxs2) (\<lambda>found.
          bind_res (intersect_ranges s mins maxs mins2 maxs2) (\<lambda>rest. Inr (found @ rest))))"

text \<open>A record with the ranges that were found, or that allows no number, or nothing, if there are none\<close>

definition set_ranges :: "bool \<Rightarrow> (expr \<times> expr) list \<Rightarrow> constraintLevel \<Rightarrow> constraintLevel" where
  "set_ranges isRange found newConstraint =
     (if found \<noteq> [] then
        if isRange then newConstraint\<lparr>minValue := map fst found, maxValue := map snd found\<rparr>
        else newConstraint\<lparr>minFields := map fst found, maxFields := map snd found\<rparr>
      else if isRange then
        (if anyAllowed newConstraint then SetAnyAllowedFlags False newConstraint else newConstraint)
          \<lparr>integersAllowed := False, floatsAllowed := False\<rparr>
      else (SetAnyAllowedFlags True newConstraint)
          \<lparr>singlefieldsAllowed := False, multifieldsAllowed := False, anyAllowed := False\<rparr>)"

definition IntersectNumericExpressions ::
  "scan \<Rightarrow> constraintLevel \<Rightarrow> constraintLevel \<Rightarrow> constraintLevel \<Rightarrow> bool \<Rightarrow> constraintLevel res" where
  "IntersectNumericExpressions s constraint1 constraint2 newConstraint isRange =
     bind_res
       (if isRange then intersect_ranges s (minValue constraint1) (maxValue constraint1) (minValue constraint2) (maxValue constraint2)
        else intersect_ranges s (minFields constraint1) (maxFields constraint1) (minFields constraint2) (maxFields constraint2))
       (\<lambda>found. Inr (set_ranges isRange found newConstraint))"

definition UpdateRestrictionFlags :: "constraintLevel \<Rightarrow> constraintLevel" where
  "UpdateRestrictionFlags rv =
     (let found = (\<lambda>t. FindItemInExpression (Constant t) 0 False (restrictionList rv));
          rv = (if anyRestriction rv \<and> restrictionList rv = [] then (SetAnyAllowedFlags True rv)\<lparr>anyAllowed := False\<rparr> else rv);
          rv = (if symbolRestriction rv \<and> symbolsAllowed rv then rv\<lparr>symbolsAllowed := found SYMBOL\<rparr> else rv);
          rv = (if stringRestriction rv \<and> stringsAllowed rv then rv\<lparr>stringsAllowed := found STRING\<rparr> else rv);
          rv = (if floatRestriction rv \<and> floatsAllowed rv then rv\<lparr>floatsAllowed := found FLOAT\<rparr> else rv);
          rv = (if integerRestriction rv \<and> integersAllowed rv then rv\<lparr>integersAllowed := found INTEGER\<rparr> else rv) in
      if instanceNameRestriction rv \<and> instanceNamesAllowed rv then rv\<lparr>instanceNamesAllowed := found INSTANCE_NAME\<rparr> else rv)"

section \<open>Intersection\<close>

text \<open>The types of one record, when those of the other are listed\<close>

definition intersect_types :: "constraintLevel \<Rightarrow> constraintLevel \<Rightarrow> constraintLevel \<Rightarrow> constraintLevel \<times> constraintLevel \<times> constraintLevel" where
  "intersect_types c1 c2 rv =
     (let rv = rv\<lparr>multifieldsAllowed := multifieldsAllowed c1 \<and> multifieldsAllowed c2,
                  singlefieldsAllowed := singlefieldsAllowed c1 \<and> singlefieldsAllowed c2\<rparr> in
      if anyAllowed c1 \<and> anyAllowed c2 then (rv\<lparr>anyAllowed := True\<rparr>, c1, c2)
      else
        let c1Changed = anyAllowed c1; c2Changed = (\<not> anyAllowed c1 \<and> anyAllowed c2);
            c1 = (if c1Changed then SetAnyAllowedFlags False c1 else c1);
            c2 = (if c2Changed then SetAnyAllowedFlags False c2 else c2) in
        (rv\<lparr>anyAllowed := False, symbolsAllowed := symbolsAllowed c1 \<and> symbolsAllowed c2,
            stringsAllowed := stringsAllowed c1 \<and> stringsAllowed c2,
            floatsAllowed := floatsAllowed c1 \<and> floatsAllowed c2,
            integersAllowed := integersAllowed c1 \<and> integersAllowed c2,
            instanceNamesAllowed := instanceNamesAllowed c1 \<and> instanceNamesAllowed c2,
            instanceAddressesAllowed := instanceAddressesAllowed c1 \<and> instanceAddressesAllowed c2,
            externalAddressesAllowed := externalAddressesAllowed c1 \<and> externalAddressesAllowed c2,
            voidAllowed := voidAllowed c1 \<and> voidAllowed c2,
            multifieldsAllowed := multifieldsAllowed c1 \<and> multifieldsAllowed c2,
            factAddressesAllowed := factAddressesAllowed c1 \<and> factAddressesAllowed c2\<rparr>,
         if c1Changed then SetAnyAllowedFlags True c1 else c1, if c2Changed then SetAnyAllowedFlags True c2 else c2))"

definition intersect_restrictions :: "constraintLevel \<Rightarrow> constraintLevel \<Rightarrow> constraintLevel \<Rightarrow> constraintLevel" where
  "intersect_restrictions c1 c2 rv =
     (if anyRestriction c1 \<or> anyRestriction c2 then rv\<lparr>anyRestriction := True\<rparr>
      else rv\<lparr>anyRestriction := False, symbolRestriction := symbolRestriction c1 \<or> symbolRestriction c2,
              stringRestriction := stringRestriction c1 \<or> stringRestriction c2,
              floatRestriction := floatRestriction c1 \<or> floatRestriction c2,
              integerRestriction := integerRestriction c1 \<or> integerRestriction c2,
              classRestriction := classRestriction c1 \<or> classRestriction c2,
              instanceNameRestriction := instanceNameRestriction c1 \<or> instanceNameRestriction c2\<rparr>)"

definition intersect_level :: "system \<Rightarrow> scan \<Rightarrow> constraintLevel \<Rightarrow> constraintLevel
    \<Rightarrow> (constraintLevel \<times> constraintLevel \<times> constraintLevel) res" where
  "intersect_level y s c1 c2 =
     bind_res (GetConstraintRecord s) (\<lambda>rv.
     let (rv, c1, c2) = intersect_types c1 c2 rv; rv = intersect_restrictions c1 c2 rv in
     bind_res (IntersectAllowedValueExpressions c1 c2 rv) (\<lambda>rv.
     bind_res (IntersectAllowedClassExpressions y s c1 c2 rv) (\<lambda>rv.
     bind_res (IntersectNumericExpressions s c1 c2 rv True) (\<lambda>rv.
     bind_res (IntersectNumericExpressions s c1 c2 rv False) (\<lambda>rv.
       Inr (UpdateRestrictionFlags rv, c1, c2))))))"

definition fields_differ :: "constraintLevel \<Rightarrow> constraintLevel \<Rightarrow> bool" where
  "fields_differ c1 c2 \<longleftrightarrow>
     multifieldsAllowed c1 \<noteq> multifieldsAllowed c2 \<and> singlefieldsAllowed c1 \<noteq> singlefieldsAllowed c2"

fun IntersectConstraints :: "system \<Rightarrow> scan \<Rightarrow> constraintRecord option \<Rightarrow> constraintRecord option
    \<Rightarrow> (constraintRecord \<times> constraintRecord option \<times> constraintRecord option) res" where
  "IntersectConstraints y s None None =
     bind_res (GetConstraintRecord s) (\<lambda>rv. Inr (Constraint (rv\<lparr>multifieldsAllowed := True\<rparr>) None, None, None))"
| "IntersectConstraints y s None (Some c2) = Inr (c2, None, Some c2)"
| "IntersectConstraints y s (Some c1) None = Inr (c1, Some c1, None)"
| "IntersectConstraints y s (Some (Constraint c1 m1)) (Some (Constraint c2 m2)) =
     (if fields_differ c1 c2 then
        bind_res (GetConstraintRecord s) (\<lambda>rv.
          Inr (Constraint (rv\<lparr>anyAllowed := False\<rparr>) None, Some (Constraint c1 m1), Some (Constraint c2 m2)))
      else
        bind_res (intersect_level y s c1 c2) (\<lambda>(rv, c1, c2).
          if multifieldsAllowed rv then
            bind_res (IntersectConstraints y s m1 m2) (\<lambda>(m, m1, m2).
              Inr (Constraint (if UnmatchableConstraint (Some (level m)) then rv\<lparr>multifieldsAllowed := False\<rparr> else rv)
                     (Some m), Some (Constraint c1 m1), Some (Constraint c2 m2)))
          else Inr (Constraint rv None, Some (Constraint c1 m1), Some (Constraint c2 m2))))"

text \<open>The answer is that the argument is wrong.\<close>

definition CheckArgumentAgainstRestriction :: "system \<Rightarrow> scan \<Rightarrow> expr option \<Rightarrow> char \<Rightarrow> bool res" where
  "CheckArgumentAgainstRestriction y s theExpression theRestriction =
     bind_res (ExpressionToConstraintRecord y s theExpression) (\<lambda>cr1.
     bind_res (ArgumentTypeToConstraintRecord s theRestriction) (\<lambda>cr2.
     bind_res (IntersectConstraints y s (Some cr1) (Some cr2)) (\<lambda>(cr3, _, _).
       Inr (UnmatchableConstraint (Some (level cr3))))))"

section \<open>Union\<close>

definition RestrictionOnType :: "exprType \<Rightarrow> constraintLevel option \<Rightarrow> bool" where
  "RestrictionOnType theType theConstraint =
     (case theConstraint of
        None \<Rightarrow> False
      | Some c \<Rightarrow>
          anyRestriction c \<or> symbolRestriction c \<and> theType = Constant SYMBOL
          \<or> stringRestriction c \<and> theType = Constant STRING \<or> floatRestriction c \<and> theType = Constant FLOAT
          \<or> integerRestriction c \<and> theType = Constant INTEGER
          \<or> classRestriction c \<and> (theType = Constant INSTANCE_ADDRESS \<or> theType = Constant INSTANCE_NAME)
          \<or> instanceNameRestriction c \<and> theType = Constant INSTANCE_NAME)"

fun AddToUnionList :: "expr list \<Rightarrow> expr list \<Rightarrow> constraintLevel \<Rightarrow> expr list" where
  "AddToUnionList [] theHead theConstraint = theHead"
| "AddToUnionList (x # theList1) theHead theConstraint =
     AddToUnionList theList1
       (if list_ex (\<lambda>z. expr_type x = expr_type z \<and> expr_value x = expr_value z) theHead
           \<or> \<not> RestrictionOnType (expr_type x) (Some theConstraint)
        then theHead else GenConstant (expr_type x) (expr_value x) # theHead)
       theConstraint"

definition UnionAllowedValueExpressions :: "constraintLevel \<Rightarrow> constraintLevel \<Rightarrow> constraintLevel \<Rightarrow> constraintLevel" where
  "UnionAllowedValueExpressions constraint1 constraint2 newConstraint =
     (let theHead = AddToUnionList (restrictionList constraint1) [] newConstraint;
          theHead = AddToUnionList (restrictionList constraint2) theHead newConstraint in
      newConstraint\<lparr>restrictionList := theHead\<rparr>)"

definition UnionAllowedClassExpressions :: "constraintLevel \<Rightarrow> constraintLevel \<Rightarrow> constraintLevel \<Rightarrow> constraintLevel" where
  "UnionAllowedClassExpressions constraint1 constraint2 newConstraint =
     (let theHead = AddToUnionList (classList constraint1) [] newConstraint;
          theHead = AddToUnionList (classList constraint2) theHead newConstraint in
      newConstraint\<lparr>classList := theHead\<rparr>)"

text \<open>
  The pass over the ranges: \<open>seen\<close> are those in front, and the answer says whether the range is dealt with. As
  \<open>lastmax\<close> is never set, a range that lies before the current one is always put at the front of the list.
\<close>

fun extend_ranges :: "scan \<Rightarrow> expr \<Rightarrow> expr \<Rightarrow> (expr \<times> expr) list \<Rightarrow> (expr \<times> expr) list \<Rightarrow> ((expr \<times> expr) list \<times> bool) res" where
  "extend_ranges s addmin addmax seen [] = Inr (seen, False)"
| "extend_ranges s addmin addmax seen ((tmpmin, tmpmax) # rest) =
     bind_res (CompareNumbers s (expr_type addmax) (expr_value addmax) (expr_type tmpmax) (expr_value tmpmax)) (\<lambda>cmaxmax.
     bind_res (CompareNumbers s (expr_type addmin) (expr_value addmin) (expr_type tmpmin) (expr_value tmpmin)) (\<lambda>cminmin.
     bind_res (CompareNumbers s (expr_type addmax) (expr_value addmax) (expr_type tmpmin) (expr_value tmpmin)) (\<lambda>cmaxmin.
     bind_res (CompareNumbers s (expr_type addmin) (expr_value addmin) (expr_type tmpmax) (expr_value tmpmax)) (\<lambda>cminmax.
       if (cmaxmax = Some LESS_THAN \<or> cmaxmax = Some EQUAL) \<and> (cminmin = Some GREATER_THAN \<or> cminmin = Some EQUAL)
       then Inr (seen @ (tmpmin, tmpmax) # rest, True)
       else
         let tmpmax = (if cmaxmax = Some GREATER_THAN \<and> (cminmax = Some LESS_THAN \<or> cminmax = Some EQUAL)
                       then GenConstant (expr_type addmax) (expr_value addmax) else tmpmax);
             tmpmin = (if cminmin = Some LESS_THAN \<and> (cmaxmin = Some GREATER_THAN \<or> cmaxmin = Some EQUAL)
                       then GenConstant (expr_type addmin) (expr_value addmin) else tmpmin) in
         if cmaxmin = Some LESS_THAN
         then Inr ((GenConstant (expr_type addmin) (expr_value addmin), GenConstant (expr_type addmax) (expr_value addmax))
                # seen @ (tmpmin, tmpmax) # rest, True)
         else extend_ranges s addmin addmax (seen @ [(tmpmin, tmpmax)]) rest))))"

fun merge_ranges :: "scan \<Rightarrow> (expr \<times> expr) list \<Rightarrow> (expr \<times> expr) list res" where
  "merge_ranges s [] = Inr []"
| "merge_ranges s [r] = Inr [r]"
| "merge_ranges s ((tmpmin, tmpmax) # (nextmin, nextmax) # rest) =
     bind_res (CompareNumbers s (expr_type tmpmax) (expr_value tmpmax) (expr_type nextmin) (expr_value nextmin)) (\<lambda>cmaxmin.
       if cmaxmin = Some GREATER_THAN \<or> cmaxmin = Some EQUAL then merge_ranges s ((tmpmin, nextmax) # rest)
       else bind_res (merge_ranges s ((nextmin, nextmax) # rest)) (\<lambda>rest. Inr ((tmpmin, tmpmax) # rest)))"

definition UnionRangeMinMaxValueWithList :: "scan \<Rightarrow> expr \<Rightarrow> expr \<Rightarrow> (expr \<times> expr) list \<Rightarrow> (expr \<times> expr) list res" where
  "UnionRangeMinMaxValueWithList s addmin addmax theList =
     (if theList = [] then
        Inr [(GenConstant (expr_type addmin) (expr_value addmin), GenConstant (expr_type addmax) (expr_value addmax))]
      else bind_res (extend_ranges s addmin addmax [] theList) (\<lambda>(theList, finished).
        if finished then Inr theList else merge_ranges s theList))"

fun union_ranges :: "scan \<Rightarrow> expr list \<Rightarrow> expr list \<Rightarrow> (expr \<times> expr) list \<Rightarrow> (expr \<times> expr) list res" where
  "union_ranges s [] maxs theList = Inr theList"
| "union_ranges s (tmpmin # mins) [] theList = Inl Undefined"
| "union_ranges s (tmpmin # mins) (tmpmax # maxs) theList =
     bind_res (UnionRangeMinMaxValueWithList s tmpmin tmpmax theList) (union_ranges s mins maxs)"

definition set_union_ranges :: "bool \<Rightarrow> (expr \<times> expr) list \<Rightarrow> constraintLevel \<Rightarrow> constraintLevel" where
  "set_union_ranges isRange found newConstraint =
     (if found \<noteq> [] \<or> isRange then set_ranges isRange found newConstraint
      else (SetAnyAllowedFlags True newConstraint)\<lparr>anyAllowed := True\<rparr>)"

definition UnionNumericExpressions ::
  "scan \<Rightarrow> constraintLevel \<Rightarrow> constraintLevel \<Rightarrow> constraintLevel \<Rightarrow> bool \<Rightarrow> constraintLevel res" where
  "UnionNumericExpressions s constraint1 constraint2 newConstraint isRange =
     (let mins = (if isRange then minValue else minFields); maxs = (if isRange then maxValue else maxFields) in
      bind_res (union_ranges s (mins constraint1) (maxs constraint1) []) (\<lambda>found.
      bind_res (union_ranges s (mins constraint2) (maxs constraint2) found) (\<lambda>found.
        Inr (set_union_ranges isRange found newConstraint))))"

definition union_types :: "constraintLevel \<Rightarrow> constraintLevel \<Rightarrow> constraintLevel \<Rightarrow> constraintLevel" where
  "union_types c1 c2 rv =
     (let rv = (if multifieldsAllowed c1 \<or> multifieldsAllowed c2 then rv\<lparr>multifieldsAllowed := True\<rparr> else rv);
          rv = (if singlefieldsAllowed c1 \<or> singlefieldsAllowed c2 then rv\<lparr>singlefieldsAllowed := True\<rparr> else rv) in
      if anyAllowed c1 \<or> anyAllowed c2 then rv\<lparr>anyAllowed := True\<rparr>
      else rv\<lparr>anyAllowed := False, symbolsAllowed := symbolsAllowed c1 \<or> symbolsAllowed c2,
              stringsAllowed := stringsAllowed c1 \<or> stringsAllowed c2,
              floatsAllowed := floatsAllowed c1 \<or> floatsAllowed c2,
              integersAllowed := integersAllowed c1 \<or> integersAllowed c2,
              instanceNamesAllowed := instanceNamesAllowed c1 \<or> instanceNamesAllowed c2,
              instanceAddressesAllowed := instanceAddressesAllowed c1 \<or> instanceAddressesAllowed c2,
              externalAddressesAllowed := externalAddressesAllowed c1 \<or> externalAddressesAllowed c2,
              voidAllowed := voidAllowed c1 \<or> voidAllowed c2,
              factAddressesAllowed := factAddressesAllowed c1 \<or> factAddressesAllowed c2\<rparr>)"

text \<open>The flags of a record that was changed are not set back: the call is the one that changed them.\<close>

definition union_restrictions :: "constraintLevel \<Rightarrow> constraintLevel \<Rightarrow> constraintLevel
    \<Rightarrow> constraintLevel \<times> constraintLevel \<times> constraintLevel" where
  "union_restrictions c1 c2 rv =
     (if anyRestriction c1 \<and> anyRestriction c2 then (rv\<lparr>anyRestriction := True\<rparr>, c1, c2)
      else
        let c1Changed = anyRestriction c1; c2Changed = (\<not> anyRestriction c1 \<and> anyRestriction c2);
            c1 = (if c1Changed then SetAnyRestrictionFlags False c1 else c1);
            c2 = (if c2Changed then SetAnyRestrictionFlags False c2 else c2) in
        (rv\<lparr>anyRestriction := False, symbolRestriction := symbolRestriction c1 \<and> symbolRestriction c2,
            stringRestriction := stringRestriction c1 \<and> stringRestriction c2,
            floatRestriction := floatRestriction c1 \<and> floatRestriction c2,
            integerRestriction := integerRestriction c1 \<and> integerRestriction c2,
            classRestriction := classRestriction c1 \<and> classRestriction c2,
            instanceNameRestriction := instanceNameRestriction c1 \<and> instanceNameRestriction c2\<rparr>,
         if c1Changed then SetAnyRestrictionFlags False c1 else c1,
         if c2Changed then SetAnyRestrictionFlags False c2 else c2))"

definition union_level :: "scan \<Rightarrow> constraintLevel \<Rightarrow> constraintLevel
    \<Rightarrow> (constraintLevel \<times> constraintLevel \<times> constraintLevel) res" where
  "union_level s c1 c2 =
     bind_res (GetConstraintRecord s) (\<lambda>rv.
     let rv = union_types c1 c2 rv; (rv, c1, c2) = union_restrictions c1 c2 rv;
         rv = UnionAllowedValueExpressions c1 c2 rv; rv = UnionAllowedClassExpressions c1 c2 rv in
     bind_res (UnionNumericExpressions s c1 c2 rv True) (\<lambda>rv.
     bind_res (UnionNumericExpressions s c1 c2 rv False) (\<lambda>rv. Inr (rv, c1, c2))))"

fun UnionConstraints :: "scan \<Rightarrow> constraintRecord option \<Rightarrow> constraintRecord option
    \<Rightarrow> (constraintRecord \<times> constraintRecord option \<times> constraintRecord option) res" where
  "UnionConstraints s None None = bind_res (GetConstraintRecord s) (\<lambda>rv. Inr (Constraint rv None, None, None))"
| "UnionConstraints s None (Some c2) = Inr (c2, None, Some c2)"
| "UnionConstraints s (Some c1) None = Inr (c1, Some c1, None)"
| "UnionConstraints s (Some (Constraint c1 m1)) (Some (Constraint c2 m2)) =
     bind_res (union_level s c1 c2) (\<lambda>(rv, c1, c2).
       if multifieldsAllowed rv then
         bind_res (UnionConstraints s m1 m2) (\<lambda>(m, m1, m2).
           Inr (Constraint rv (Some m), Some (Constraint c1 m1), Some (Constraint c2 m2)))
       else Inr (Constraint rv None, Some (Constraint c1 m1), Some (Constraint c2 m2)))"

definition RemoveConstantFromConstraint :: "exprType \<Rightarrow> address \<Rightarrow> constraintLevel option \<Rightarrow> constraintLevel option" where
  "RemoveConstantFromConstraint theType theValue theConstraint =
     map_option (\<lambda>c. UpdateRestrictionFlags
       (c\<lparr>restrictionList := filter (\<lambda>x. expr_type x \<noteq> theType \<or> expr_value x \<noteq> theValue) (restrictionList c)\<rparr>))
       theConstraint"

end
