(* ===== verification/ConstraintNumbers.thy ===== *)
theory ConstraintNumbers
  imports ConstraintOps
begin

text \<open>
  Numbers of constraint records: the value of a double by its sign, exponent and mantissa in units of $2^{-1074}$, so that
  integers and doubles have one scale, the order that \<open>CompareNumbers\<close> gives on it, and the lists of bounds as sets of
  ranges. The infinities are at $2^{2200}$ units, beyond the greatest double.
\<close>

section \<open>The values of doubles\<close>

text \<open>The value of a double, infinities included, in units of \<open>2 ^ -1074\<close>\<close>

definition exponent_field :: "64 word \<Rightarrow> nat" where
  "exponent_field x = nat (uint (x AND 0x7FFFFFFFFFFFFFFF)) div 2 ^ 52"

definition mantissa_field :: "64 word \<Rightarrow> nat" where
  "mantissa_field x = nat (uint (x AND 0x7FFFFFFFFFFFFFFF)) mod 2 ^ 52"

definition double_amount :: "nat \<Rightarrow> nat \<Rightarrow> int" where
  "double_amount e m = (if e = 0 then int m else int (2 ^ 52 + m) * 2 ^ (e - 1))"

definition double_value :: "64 word \<Rightarrow> int" where
  "double_value x = (let a = double_amount (exponent_field x) (mantissa_field x) in if bit x 63 then - a else a)"

lemma double_amount_mono:
  assumes "m < 2 ^ 52" "m' < 2 ^ 52" "e * 2 ^ 52 + m < e' * 2 ^ 52 + m'"
  shows "double_amount e m < double_amount e' m'"
proof (cases "e = e'")
  case True
  then show ?thesis using assms by (auto simp: double_amount_def)
next
  case False
  have le: "e < e'"
  proof (rule ccontr)
    assume "\<not> e < e'"
    then have "e' + 1 \<le> e" using False by simp
    then have "(e' + 1) * 2 ^ 52 \<le> e * 2 ^ 52" by (rule mult_le_mono1)
    then show False using assms by simp
  qed
  have "double_amount e m < 2 ^ 53 * 2 ^ (e - 1)"
    using assms(1) by (auto simp: double_amount_def)
  also have "(2::int) ^ 53 * 2 ^ (e - 1) \<le> 2 ^ 52 * 2 ^ (e' - 1)" if "0 < e"
  proof -
    from le that have "53 + (e - 1) \<le> 52 + (e' - 1)" by simp
    then have "(2::int) ^ (53 + (e - 1)) \<le> 2 ^ (52 + (e' - 1))" by (rule power_increasing) simp
    then show ?thesis by (simp only: power_add)
  qed
  also have "(2::int) ^ 52 * 2 ^ (e' - 1) \<le> double_amount e' m'"
    using le by (auto simp: double_amount_def intro!: mult_right_mono)
  finally have "0 < e \<Longrightarrow> ?thesis" .
  moreover have "?thesis" if "e = 0"
  proof -
    have "(1::int) \<le> 2 ^ (e' - 1)" by simp
    then have "2 ^ 52 \<le> 2 ^ 52 * (2::int) ^ (e' - 1)" by simp
    moreover have "(2::int) ^ 52 * 2 ^ (e' - 1) \<le> double_amount e' m'"
      using le by (auto simp: double_amount_def intro!: mult_right_mono)
    moreover have "double_amount e m < 2 ^ 52" using assms(1) that by (simp add: double_amount_def)
    ultimately show ?thesis by linarith
  qed
  ultimately show ?thesis by blast
qed

lemma double_amount_nonneg [simp]: "0 \<le> double_amount e m"
  by (simp add: double_amount_def)

lemma double_key_fields:
  "double_key x = (let k = int (exponent_field x * 2 ^ 52 + mantissa_field x) in if bit x 63 then - k else k)"
proof -
  have "int (exponent_field x * 2 ^ 52 + mantissa_field x) = uint (x AND 0x7FFFFFFFFFFFFFFF)"
    unfolding exponent_field_def mantissa_field_def by (simp only: div_mult_mod_eq) simp
  then show ?thesis by (simp add: double_key_def Let_def)
qed

lemma mantissa_field_less: "mantissa_field x < 2 ^ 52"
  unfolding mantissa_field_def by simp

lemma double_amount_0: "m < 2 ^ 52 \<Longrightarrow> double_amount e m = 0 \<longleftrightarrow> e * 2 ^ 52 + m = 0"
  by (auto simp: double_amount_def)

lemma double_amount_eq:
  assumes "m < 2 ^ 52" "m' < 2 ^ 52" "e * 2 ^ 52 + m = e' * 2 ^ 52 + m'"
  shows "double_amount e m = double_amount e' m'"
proof -
  have "e = (e * 2 ^ 52 + m) div 2 ^ 52" "m = (e * 2 ^ 52 + m) mod 2 ^ 52" using assms(1) by simp_all
  moreover have "e' = (e' * 2 ^ 52 + m') div 2 ^ 52" "m' = (e' * 2 ^ 52 + m') mod 2 ^ 52" using assms(2) by simp_all
  ultimately show ?thesis using assms(3) by metis
qed

lemma signed_order:
  fixes k l a b :: int
  assumes "k < l \<longleftrightarrow> a < b" "l < k \<longleftrightarrow> b < a" "a = 0 \<longleftrightarrow> k = 0" "b = 0 \<longleftrightarrow> l = 0" "0 \<le> a" "0 \<le> b" "0 \<le> k" "0 \<le> l"
  shows "(if p then - k else k) < (if q then - l else l) \<longleftrightarrow> (if p then - a else a) < (if q then - b else b)"
  using assms by auto

lemma double_key_order: "double_key x < double_key y \<longleftrightarrow> double_value x < double_value y"
proof -
  define k where "k z = exponent_field z * 2 ^ 52 + mantissa_field z" for z
  define a where "a z = double_amount (exponent_field z) (mantissa_field z)" for z
  have m: "k u < k v \<longleftrightarrow> a u < a v" for u v
    using double_amount_mono [OF mantissa_field_less [of u] mantissa_field_less [of v], of "exponent_field u" "exponent_field v"]
      double_amount_mono [OF mantissa_field_less [of v] mantissa_field_less [of u], of "exponent_field v" "exponent_field u"]
      double_amount_eq [OF mantissa_field_less [of u] mantissa_field_less [of v], of "exponent_field u" "exponent_field v"]
    unfolding k_def a_def by (cases "k u" "k v" rule: linorder_cases) (auto simp: k_def)
  have z: "a u = 0 \<longleftrightarrow> int (k u) = 0" for u
    unfolding a_def k_def of_nat_eq_0_iff by (rule double_amount_0 [OF mantissa_field_less])
  have n: "0 \<le> a u" for u by (simp add: a_def)
  have "double_key u = (if bit u 63 then - int (k u) else int (k u))" for u
    by (simp only: double_key_fields k_def Let_def)
  moreover have "double_value u = (if bit u 63 then - a u else a u)" for u
    by (simp only: double_value_def a_def Let_def)
  ultimately show ?thesis
    using signed_order [of "int (k x)" "int (k y)" "a x" "a y" "bit x 63" "bit y 63"] m [of x y] m [of y x] z n by simp
qed

section \<open>The conversion of integers\<close>

lemma takeWhile_upt:
  assumes "k \<le> n" "\<And>i. i < k \<Longrightarrow> P i" "k < n \<Longrightarrow> \<not> P k"
  shows "length (takeWhile P [0..<n]) = k"
proof -
  have "[0..<n] = [0..<k] @ [k..<n]" using assms(1) by (metis le_add_diff_inverse upt_add_eq_append zero_le)
  moreover have "takeWhile P [k..<n] = []" using assms(1,3) by (cases "k < n") (simp_all add: upt_conv_Cons)
  moreover have "takeWhile P ([0..<k] @ [k..<n]) = [0..<k] @ takeWhile P [k..<n]"
    using assms(2) by (intro takeWhile_append2) simp
  ultimately show ?thesis by (simp only: append_Nil2 length_upt)
qed

lemma top_bit_eq:
  assumes "2 ^ e \<le> m" "m < 2 ^ (e + 1)" "e < 64"
  shows "top_bit m = e"
  unfolding top_bit_def
proof (rule takeWhile_upt)
  show "e \<le> 64" using assms by simp
  show "2 ^ (i + 1) \<le> m" if "i < e" for i
  proof -
    have "(2::nat) ^ (i + 1) \<le> 2 ^ e" using that by (intro power_increasing) simp_all
    then show ?thesis using assms(1) by simp
  qed
  show "\<not> 2 ^ (e + 1) \<le> m" using assms(2) by simp
qed

lemma top_bit_exists: "0 < m \<Longrightarrow> \<exists>e. 2 ^ e \<le> m \<and> m < 2 ^ (e + 1)" for m :: nat
  using ex_power_ivl1 [of 2 m] by auto

text \<open>An amount up to \<open>2 ^ 53\<close> is converted exactly.\<close>

lemma amount_exact:
  assumes "2 ^ e \<le> m" "m < 2 ^ (e + 1)" "m \<le> 2 ^ 53"
  shows "(e + 1022) * 2 ^ 52 + scaled e m < 2 ^ 63"
    and "(e + 1022) * 2 ^ 52 + scaled e m \<le> 1077 * 2 ^ 52"
    and "double_amount (((e + 1022) * 2 ^ 52 + scaled e m) div 2 ^ 52) (((e + 1022) * 2 ^ 52 + scaled e m) mod 2 ^ 52)
      = int m * 2 ^ 1074"
proof -
  have e: "e \<le> 53"
  proof (rule ccontr)
    assume "\<not> e \<le> 53"
    then have "(2::nat) ^ 54 \<le> 2 ^ e" by (intro power_increasing) simp_all
    then show False using assms by simp
  qed
  define k where "k = scaled e m - 2 ^ 52"
  have s: "2 ^ 52 \<le> scaled e m" "scaled e m < 2 ^ 53" "int (scaled e m) * 2 ^ (e + 1022) = int m * 2 ^ 1074"
  proof -
    show "2 ^ 52 \<le> scaled e m"
    proof (cases "e \<le> 52")
      case True
      then have "(2::nat) ^ 52 = 2 ^ e * 2 ^ (52 - e)" by (simp flip: power_add)
      also have "\<dots> \<le> m * 2 ^ (52 - e)" using assms(1) by simp
      finally show ?thesis using True by (simp add: scaled_def)
    next
      case False
      with e have "e = 53" by simp
      with assms have "m = 2 ^ 53" by simp
      then show ?thesis using \<open>e = 53\<close> by (simp add: scaled_def)
    qed
    show "scaled e m < 2 ^ 53"
    proof (cases "e \<le> 52")
      case True
      then have "(2::nat) ^ 53 = 2 ^ (e + 1) * 2 ^ (52 - e)" by (simp flip: power_add)
      also have "\<dots> > m * 2 ^ (52 - e)" using assms(2) by simp
      finally show ?thesis using True by (simp add: scaled_def)
    next
      case False
      with e have "e = 53" by simp
      with assms have "m = 2 ^ 53" by simp
      then show ?thesis using \<open>e = 53\<close> by (simp add: scaled_def)
    qed
    show "int (scaled e m) * 2 ^ (e + 1022) = int m * 2 ^ 1074"
    proof (cases "e \<le> 52")
      case True
      then have "(52 - e) + (e + 1022) = 1074" by simp
      then have "(2::int) ^ (52 - e) * 2 ^ (e + 1022) = 2 ^ 1074" by (simp only: flip: power_add)
      moreover have "int (scaled e m) = int m * 2 ^ (52 - e)" using True by (simp add: scaled_def)
      ultimately show ?thesis by (simp only: mult.assoc)
    next
      case False
      with e have 53: "e = 53" by simp
      with assms have m: "m = 2 ^ 53" by simp
      have "scaled e m = 2 ^ 52" unfolding 53 m by (simp add: scaled_def)
      moreover have "(2::int) ^ 52 * 2 ^ (53 + 1022) = 2 ^ 53 * 2 ^ 1074" by (simp only: flip: power_add) simp
      ultimately show ?thesis using 53 m by simp
    qed
  qed
  have eq: "(e + 1022) * 2 ^ 52 + scaled e m = (e + 1023) * 2 ^ 52 + k" and k: "k < 2 ^ 52"
    using s by (simp_all add: k_def algebra_simps)
  have "(e + 1023) * 2 ^ 52 \<le> 1076 * (2 ^ 52 :: nat)" using e by (intro mult_le_mono1) simp
  then show "(e + 1022) * 2 ^ 52 + scaled e m < 2 ^ 63" using k unfolding eq by simp
  show "(e + 1022) * 2 ^ 52 + scaled e m \<le> 1077 * 2 ^ 52"
    using k \<open>(e + 1023) * 2 ^ 52 \<le> 1076 * 2 ^ 52\<close> unfolding eq by simp
  have dm: "((e + 1023) * 2 ^ 52 + k) div 2 ^ 52 = e + 1023" "((e + 1023) * 2 ^ 52 + k) mod 2 ^ 52 = k"
    using k by (simp_all only: mod_mult_self3 div_mult_self3 mod_less div_less)
  have "2 ^ 52 + k = scaled e m" using s(1) by (simp add: k_def)
  then have "double_amount (e + 1023) k = int (scaled e m) * 2 ^ (e + 1022)" by (simp add: double_amount_def)
  then show "double_amount (((e + 1022) * 2 ^ 52 + scaled e m) div 2 ^ 52) (((e + 1022) * 2 ^ 52 + scaled e m) mod 2 ^ 52)
      = int m * 2 ^ 1074"
    unfolding eq dm using s(3) by simp
qed


lemma low_63_bits: "uint (x AND 0x7FFFFFFFFFFFFFFF) = uint (x :: 64 word) mod 2 ^ 63"
proof -
  have "uint (0x7FFFFFFFFFFFFFFF :: 64 word) = mask 63" by (simp add: mask_eq_exp_minus_1)
  then have "uint (x AND 0x7FFFFFFFFFFFFFFF) = uint x AND mask 63" by (simp only: uint_and)
  then show ?thesis by (simp only: flip: take_bit_eq_mask take_bit_eq_mod)
qed

lemma top_is_sign: "bit (x :: 64 word) 63 \<longleftrightarrow> 2 ^ 63 \<le> uint x"
proof -
  have "uint x < 2 ^ 64" "0 \<le> uint x" using uint_bounded [of x] by simp_all
  moreover have "bit x 63 \<longleftrightarrow> bit (uint x) 63" by (simp add: bit_uint_iff)
  moreover have "bit (uint x) 63 \<longleftrightarrow> odd (uint x div 2 ^ 63)" by (rule bit_iff_odd)
  moreover have "uint x div 2 ^ 63 = (if 2 ^ 63 \<le> uint x then 1 else 0)" if "uint x < 2 ^ 64" "0 \<le> uint x"
    using that by (auto simp: int_div_pos_eq [where r = "uint x - 2 ^ 63"])
  ultimately show ?thesis by simp
qed

lemma long_to_double_exact:
  assumes "\<bar>sint x\<bar> \<le> 2 ^ 53"
  shows "double_value (long_to_double x) = sint x * 2 ^ 1074" "\<not> is_nan (long_to_double x)"
proof -
  define m where "m = nat \<bar>sint x\<bar>"
  have m: "m \<le> 2 ^ 53" "int m = \<bar>sint x\<bar>" using assms by (simp_all add: m_def nat_le_iff)
  show "double_value (long_to_double x) = sint x * 2 ^ 1074" "\<not> is_nan (long_to_double x)"
  proof -
    have "double_value (long_to_double x) = sint x * 2 ^ 1074 \<and> \<not> is_nan (long_to_double x)"
    proof (cases "m = 0")
      case True
      then have "sint x = 0" using m by simp
      then show ?thesis
        by (simp add: long_to_double_def double_value_def exponent_field_def mantissa_field_def double_amount_def is_nan_def)
    next
      case False
      then obtain e where e: "2 ^ e \<le> m" "m < 2 ^ (e + 1)" using top_bit_exists [of m] by auto
      have "e < 64"
      proof (rule ccontr)
        assume "\<not> e < 64"
        then have "(2::nat) ^ 64 \<le> 2 ^ e" by (intro power_increasing) simp_all
        then show False using e(1) m(1) by simp
      qed
      then have t: "top_bit m = e" using e by (rule_tac top_bit_eq)
      define k where "k = (e + 1022) * 2 ^ 52 + scaled e m"
      have k: "k < 2 ^ 63" "double_amount (k div 2 ^ 52) (k mod 2 ^ 52) = int m * 2 ^ 1074"
        unfolding k_def using amount_exact(1,3) [OF e m(1)] by simp_all
      have w: "long_to_double x = word_of_int ((if sint x < 0 then 2 ^ 63 else 0) + int k)"
        using False t unfolding long_to_double_def Let_def m_def [symmetric] by (simp add: k_def)
      have u: "uint (long_to_double x) = (if sint x < 0 then 2 ^ 63 else 0) + int k"
        unfolding w uint_word_of_int using k(1) by (auto intro!: mod_pos_pos_trivial)
      have a: "uint (long_to_double x AND 0x7FFFFFFFFFFFFFFF) = int k" and b: "bit (long_to_double x) 63 \<longleftrightarrow> sint x < 0"
        unfolding low_63_bits top_is_sign u using k(1) by auto
      have v: "double_value (long_to_double x) = (if sint x < 0 then - (int m * 2 ^ 1074) else int m * 2 ^ 1074)"
        unfolding double_value_def exponent_field_def mantissa_field_def a b Let_def nat_int k(2) by simp
      have "k \<le> 1077 * 2 ^ 52" using amount_exact(2) [OF e m(1)] by (simp add: k_def)
      then have "\<not> is_nan (long_to_double x)" unfolding is_nan_def word_less_def a by simp
      then show ?thesis using v m(2) by auto
    qed
    then show "double_value (long_to_double x) = sint x * 2 ^ 1074" "\<not> is_nan (long_to_double x)" by simp_all
  qed
qed


section \<open>The order of numbers\<close>

text \<open>
  A number of a record has a value: the symbols of the infinities are beyond all doubles, and an integer has to be one
  that a double can stand for.
\<close>

definition number_at :: "scan \<Rightarrow> exprType \<Rightarrow> address \<Rightarrow> int \<Rightarrow> bool" where
  "number_at s t v a \<longleftrightarrow>
     (if Some v = PositiveInfinity (atom_data s) then a = 2 ^ 2200
      else if Some v = NegativeInfinity (atom_data s) then a = - (2 ^ 2200)
      else t = Constant INTEGER \<and> (\<exists>x. ValueToLong v s = Inr x \<and> \<bar>sint x\<bar> \<le> 2 ^ 53 \<and> a = sint x * 2 ^ 1074)
        \<or> t = Constant FLOAT \<and> (\<exists>x. ValueToDouble v s = Inr x \<and> \<not> is_nan x \<and> a = double_value x))"

definition numbers_apart :: "scan \<Rightarrow> bool" where
  "numbers_apart s \<longleftrightarrow> PositiveInfinity (atom_data s) \<noteq> NegativeInfinity (atom_data s)
     \<and> (\<forall>p. nodes (IntegerTable (atom_data s)) p = None \<or> nodes (FloatTable (atom_data s)) p = None)"

definition order_of :: "int \<Rightarrow> int \<Rightarrow> comparison" where
  "order_of a b = (if a < b then LESS_THAN else if b < a then GREATER_THAN else EQUAL)"

lemma double_value_less: "\<bar>double_value x\<bar> < 2 ^ 2200"
proof -
  let ?n = "nat (uint (x AND 0x7FFFFFFFFFFFFFFF))"
  have "?n < 2 ^ 63" unfolding low_63_bits by (simp add: nat_less_iff)
  then have e: "exponent_field x < 2 ^ 11" unfolding exponent_field_def by (simp add: less_mult_imp_div_less)
  have m: "mantissa_field x < 2 ^ 52" by (rule mantissa_field_less)
  have "double_amount (exponent_field x) (mantissa_field x) \<le> 2 ^ 53 * 2 ^ 2047"
  proof (cases "exponent_field x = 0")
    case True
    have "(2::int) ^ 53 * 1 \<le> 2 ^ 53 * 2 ^ 2047" by (rule mult_left_mono) simp_all
    moreover have "int (mantissa_field x) \<le> 2 ^ 53 * 1" using m by simp
    ultimately have "int (mantissa_field x) \<le> 2 ^ 53 * 2 ^ 2047" by (rule order_trans [rotated])
    then show ?thesis unfolding double_amount_def using True by simp
  next
    case False
    have "(2::int) ^ (exponent_field x - 1) \<le> 2 ^ 2047" using e by (intro power_increasing) simp_all
    moreover have "int (2 ^ 52 + mantissa_field x) \<le> 2 ^ 53" using m by simp
    ultimately have "int (2 ^ 52 + mantissa_field x) * 2 ^ (exponent_field x - 1) \<le> 2 ^ 53 * 2 ^ 2047"
      by (intro mult_mono) simp_all
    then show ?thesis unfolding double_amount_def using False by simp
  qed
  also have "(2::int) ^ 53 * 2 ^ 2047 = 2 ^ 2100" by (simp only: flip: power_add) simp
  also have "(2::int) ^ 2100 < 2 ^ 2200" by (rule power_strict_increasing) simp_all
  finally have a: "double_amount (exponent_field x) (mantissa_field x) < 2 ^ 2200" .
  have "0 \<le> double_amount (exponent_field x) (mantissa_field x)" by simp
  with a show ?thesis unfolding double_value_def Let_def by (auto simp del: double_amount_nonneg)
qed

lemma integer_units_less: "\<bar>i\<bar> \<le> 2 ^ 53 \<Longrightarrow> \<bar>i * 2 ^ 1074\<bar> < (2::int) ^ 2200"
proof -
  assume "\<bar>i\<bar> \<le> 2 ^ 53"
  then have "\<bar>i * 2 ^ 1074\<bar> \<le> 2 ^ 53 * 2 ^ 1074" unfolding abs_mult by (intro mult_mono) simp_all
  also have "(2::int) ^ 53 * 2 ^ 1074 = 2 ^ 1127" by (simp only: flip: power_add) simp
  also have "(2::int) ^ 1127 < 2 ^ 2200" by (rule power_strict_increasing) simp_all
  finally show ?thesis .
qed

lemma compared_doubles:
  "\<not> is_nan x \<Longrightarrow> \<not> is_nan y \<Longrightarrow>
    compared (double_less x y) (double_less y x) = order_of (double_value x) (double_value y)"
  by (simp add: compared_def double_less_def order_of_def double_key_order)

lemma compared_longs:
  fixes x y :: "64 word"
  shows "compared (x <s y) (y <s x) = order_of (sint x * 2 ^ 1074) (sint y * 2 ^ 1074)"
proof -
  have "sint x * 2 ^ 1074 < sint y * 2 ^ 1074 \<longleftrightarrow> sint x < sint y" for x y :: "64 word"
    by (rule mult_less_cancel_right_pos) simp
  then show ?thesis by (simp only: compared_def order_of_def word_sless_alt)
qed

lemma order_of_infinite:
  assumes "\<bar>a\<bar> < 2 ^ 2200"
  shows "order_of (2 ^ 2200) a = GREATER_THAN" "order_of (- (2 ^ 2200)) a = LESS_THAN"
    "order_of a (2 ^ 2200) = LESS_THAN" "order_of a (- (2 ^ 2200)) = GREATER_THAN"
  using assms unfolding order_of_def by auto


lemma top_bit_range: "0 < m \<Longrightarrow> m \<le> 2 ^ 63 \<Longrightarrow> 2 ^ top_bit m \<le> m \<and> m < 2 ^ (top_bit m + 1) \<and> top_bit m \<le> 63"
proof -
  assume m: "0 < m" "m \<le> 2 ^ 63"
  obtain e where e: "2 ^ e \<le> m" "m < 2 ^ (e + 1)" using top_bit_exists [OF m(1)] by blast
  have "e \<le> 63"
  proof (rule ccontr)
    assume "\<not> e \<le> 63"
    then have "(2::nat) ^ 64 \<le> 2 ^ e" by (intro power_increasing) simp_all
    then show False using e m(2) by simp
  qed
  then show ?thesis using e top_bit_eq [OF e] by simp
qed

lemma scaled_bounded: "m < 2 ^ (e + 1) \<Longrightarrow> scaled e m \<le> 2 ^ 53"
proof (cases "e \<le> 52")
  case True
  assume "m < 2 ^ (e + 1)"
  then have "m * 2 ^ (52 - e) \<le> 2 ^ (e + 1) * 2 ^ (52 - e)" by simp
  also have "\<dots> = 2 ^ 53" using True by (simp flip: power_add)
  finally show ?thesis using True by (simp add: scaled_def)
next
  case False
  assume "m < 2 ^ (e + 1)"
  moreover have "e + 1 = (e - 52) + 53" using False by simp
  then have "(2::nat) ^ (e + 1) = 2 ^ (e - 52) * 2 ^ 53" by (simp only: power_add)
  ultimately have "m div 2 ^ (e - 52) < 2 ^ 53" by (simp add: less_mult_imp_div_less mult.commute)
  then show ?thesis using False by (simp add: scaled_def Let_def)
qed

lemma long_to_double_number: "\<not> is_nan (long_to_double x)"
proof (cases "sint x = 0")
  case True
  then show ?thesis by (simp add: long_to_double_def is_nan_def)
next
  case False
  define m where "m = nat \<bar>sint x\<bar>"
  have "- (2 ^ 63) \<le> sint x" "sint x < 2 ^ 63" using sint_ge [of x] sint_lt [of x] by simp_all
  then have m: "0 < m" "m \<le> 2 ^ 63" using False by (auto simp: m_def nat_le_iff)
  note t = top_bit_range [OF m]
  define k where "k = (top_bit m + 1022) * 2 ^ 52 + scaled (top_bit m) m"
  have "(top_bit m + 1022) * 2 ^ 52 \<le> 1085 * 2 ^ 52" using t by (intro mult_le_mono1) simp
  then have k: "k \<le> 1087 * 2 ^ 52" using scaled_bounded [of m "top_bit m"] t by (simp add: k_def)
  have w: "long_to_double x = word_of_int ((if sint x < 0 then 2 ^ 63 else 0) + int k)"
    using m(1) unfolding long_to_double_def Let_def m_def [symmetric] by (simp add: k_def)
  have u: "uint (long_to_double x) = (if sint x < 0 then 2 ^ 63 else 0) + int k"
    unfolding w uint_word_of_int using k by (auto intro!: mod_pos_pos_trivial)
  have "uint (long_to_double x AND 0x7FFFFFFFFFFFFFFF) = int k"
    unfolding low_63_bits u using k by auto
  then show ?thesis using k unfolding is_nan_def word_less_def by simp
qed

text \<open>
  What a number counts as when it is compared with one of type \<open>u\<close>: an integer as the double it is converted to if the
  other one is a double.
\<close>

definition counts_as :: "scan \<Rightarrow> exprType \<Rightarrow> exprType \<Rightarrow> address \<Rightarrow> int \<Rightarrow> bool" where
  "counts_as s u t v a \<longleftrightarrow>
     (if Some v = PositiveInfinity (atom_data s) then a = 2 ^ 2200
      else if Some v = NegativeInfinity (atom_data s) then a = - (2 ^ 2200)
      else t = Constant INTEGER \<and> (\<exists>x. ValueToLong v s = Inr x
             \<and> a = (if u = Constant FLOAT then double_value (long_to_double x) else sint x * 2 ^ 1074))
        \<or> t = Constant FLOAT \<and> (\<exists>x. ValueToDouble v s = Inr x \<and> \<not> is_nan x \<and> a = double_value x))"

lemma counts_as_finite:
  assumes "counts_as s u t v a" "Some v \<noteq> PositiveInfinity (atom_data s)" "Some v \<noteq> NegativeInfinity (atom_data s)"
  shows "\<bar>a\<bar> < 2 ^ 2200"
proof -
  have "\<bar>sint x * 2 ^ 1074\<bar> < (2::int) ^ 2200" for x :: "64 word"
  proof -
    have "\<bar>sint x\<bar> \<le> 2 ^ 63" using sint_ge [of x] sint_lt [of x] by simp
    then have "\<bar>sint x * 2 ^ 1074\<bar> \<le> 2 ^ 63 * 2 ^ 1074" unfolding abs_mult by (intro mult_mono) simp_all
    also have "(2::int) ^ 63 * 2 ^ 1074 = 2 ^ 1137" by (simp only: flip: power_add) simp
    also have "(2::int) ^ 1137 < 2 ^ 2200" by (rule power_strict_increasing) simp_all
    finally show ?thesis .
  qed
  then show ?thesis using assms double_value_less unfolding counts_as_def by (auto split: if_splits)
qed

lemma numbers_compared_as:
  assumes "numbers_apart s" "counts_as s u t v a" "counts_as s t u w b"
  shows "CompareNumbers s t v u w = Inr (Some (order_of a b))"
proof -
  let ?p = "PositiveInfinity (atom_data s)" and ?n = "NegativeInfinity (atom_data s)"
  have pn: "?p \<noteq> ?n" using assms(1) by (simp add: numbers_apart_def)
  have inf: "order_of (2 ^ 2200) (- (2 ^ 2200)) = GREATER_THAN" "order_of (- (2 ^ 2200)) (2 ^ 2200) = LESS_THAN"
    unfolding order_of_def by auto
  note fv = counts_as_finite [OF assms(2)] and fw = counts_as_finite [OF assms(3)]
  consider "v = w" | "v \<noteq> w" "Some v = ?p" | "v \<noteq> w" "Some v = ?n"
    | "v \<noteq> w" "Some v \<noteq> ?p" "Some v \<noteq> ?n" "Some w = ?p" | "v \<noteq> w" "Some v \<noteq> ?p" "Some v \<noteq> ?n" "Some w = ?n"
    | "v \<noteq> w" "Some v \<noteq> ?p" "Some v \<noteq> ?n" "Some w \<noteq> ?p" "Some w \<noteq> ?n" by blast
  then show ?thesis
  proof cases
    case 1
    have "nodes (IntegerTable (atom_data s)) v = None \<or> nodes (FloatTable (atom_data s)) v = None"
      using assms(1) by (simp add: numbers_apart_def)
    then have "a = b"
      using assms(2,3) 1 unfolding counts_as_def by (auto simp: ValueToLong_def ValueToDouble_def split: if_splits option.splits)
    then show ?thesis using 1 by (simp add: CompareNumbers_def order_of_def)
  next
    case 2
    then have a: "a = 2 ^ 2200" using assms(2) by (simp add: counts_as_def)
    have "order_of a b = GREATER_THAN"
    proof (cases "Some w = ?n")
      case True
      then show ?thesis using assms(3) pn a inf by (simp add: counts_as_def)
    next
      case False
      moreover have "Some w \<noteq> ?p" using 2 by (metis option.inject)
      ultimately show ?thesis unfolding a by (intro order_of_infinite fw)
    qed
    then show ?thesis using 2 by (simp add: CompareNumbers_def)
  next
    case 3
    then have a: "a = - (2 ^ 2200)" using assms(2) pn by (simp add: counts_as_def)
    have "order_of a b = LESS_THAN"
    proof (cases "Some w = ?p")
      case True
      then show ?thesis using assms(3) a inf by (simp add: counts_as_def)
    next
      case False
      moreover have "Some w \<noteq> ?n" using 3 by (metis option.inject)
      ultimately show ?thesis unfolding a by (intro order_of_infinite fw)
    qed
    then show ?thesis using 3 pn by (auto simp: CompareNumbers_def)
  next
    case 4
    have "b = 2 ^ 2200" using assms(3) 4 by (simp add: counts_as_def)
    moreover have "order_of a (2 ^ 2200) = LESS_THAN" using fv 4 by (intro order_of_infinite) simp
    ultimately show ?thesis using 4 by (simp add: CompareNumbers_def)
  next
    case 5
    have "b = - (2 ^ 2200)" using assms(3) 5 pn by (simp add: counts_as_def)
    moreover have "order_of a (- (2 ^ 2200)) = GREATER_THAN" using fv 5 by (intro order_of_infinite) simp
    ultimately show ?thesis using 5 pn by (auto simp: CompareNumbers_def)
  next
    case 6
    show ?thesis
      using assms(2,3) 6 compared_longs compared_doubles long_to_double_number
      unfolding counts_as_def CompareNumbers_def by (auto split: if_splits)
  qed
qed

lemma counts_as_exact: "number_at s t v a \<Longrightarrow> counts_as s u t v a"
  unfolding number_at_def counts_as_def using long_to_double_exact(1) by (auto split: if_splits)

lemma counts_as_unique: "counts_as s u t v a \<Longrightarrow> counts_as s u t v b \<Longrightarrow> a = b"
  unfolding counts_as_def by (auto split: if_splits)

lemma numbers_ordered:
  "numbers_apart s \<Longrightarrow> number_at s t v a \<Longrightarrow> number_at s u w b \<Longrightarrow> CompareNumbers s t v u w = Inr (Some (order_of a b))"
  by (rule numbers_compared_as [OF _ counts_as_exact counts_as_exact])

section \<open>Ranges\<close>

text \<open>The two lists of bounds stand for a list of ranges.\<close>

fun ranges_at :: "scan \<Rightarrow> expr list \<Rightarrow> expr list \<Rightarrow> (int \<times> int) list \<Rightarrow> bool" where
  "ranges_at s [] [] [] = True"
| "ranges_at s (m # mins) (x # maxs) ((low, high) # rs) \<longleftrightarrow>
     number_at s (expr_type m) (expr_value m) low \<and> number_at s (expr_type x) (expr_value x) high \<and> ranges_at s mins maxs rs"
| "ranges_at s _ _ _ = False"

definition within :: "int \<Rightarrow> (int \<times> int) list \<Rightarrow> bool" where
  "within a rs \<longleftrightarrow> (\<exists>(low, high) \<in> set rs. low \<le> a \<and> a \<le> high)"

lemma within_simps [simp]:
  "\<not> within a []"
  "within a ((low, high) # rs) \<longleftrightarrow> low \<le> a \<and> a \<le> high \<or> within a rs"
  "within a (rs @ qs) \<longleftrightarrow> within a rs \<or> within a qs"
  by (auto simp: within_def)

lemma order_of_eq [simp]:
  "order_of a b = LESS_THAN \<longleftrightarrow> a < b" "order_of a b = GREATER_THAN \<longleftrightarrow> b < a" "order_of a b = EQUAL \<longleftrightarrow> a = b"
  by (auto simp: order_of_def)

lemma ranges_at_Nil [simp]: "ranges_at s [] maxs rs \<longleftrightarrow> maxs = [] \<and> rs = []"
  by (cases maxs; cases rs) auto

lemma ranges_at_Cons:
  "ranges_at s (m # mins) maxs rs \<longleftrightarrow> (\<exists>x maxs' low high rs'. maxs = x # maxs' \<and> rs = (low, high) # rs'
     \<and> number_at s (expr_type m) (expr_value m) low \<and> number_at s (expr_type x) (expr_value x) high \<and> ranges_at s mins maxs' rs')"
  by (cases maxs; cases rs) auto

lemma in_ranges_within:
  assumes "numbers_apart s" "number_at s t v a" "ranges_at s mins maxs rs"
  shows "in_ranges s t v mins maxs = Inr (within a rs)"
  using assms(3)
proof (induction mins arbitrary: maxs rs)
  case (Cons m mins)
  then show ?case using numbers_ordered [OF assms(1,2)] by (auto simp: ranges_at_Cons not_less)
qed simp

lemma number_GenConstant [simp]: "expr_type (GenConstant t v) = t" "expr_value (GenConstant t v) = v"
  by (simp_all add: GenConstant_def)

text \<open>The ranges of a list of pairs of bounds\<close>

abbreviation "pairs_at s found \<equiv> ranges_at s (map fst found) (map snd found)"

lemma pairs_at_append:
  "pairs_at s found rs \<Longrightarrow> pairs_at s found' rs' \<Longrightarrow> pairs_at s (found @ found') (rs @ rs')"
  by (induction found arbitrary: rs) (auto simp: ranges_at_Cons)

lemma range_intersected:
  assumes "numbers_apart s" "number_at s (expr_type m) (expr_value m) low" "number_at s (expr_type x) (expr_value x) high"
    and "ranges_at s mins maxs rs"
  shows "\<exists>found qs. intersect_range s m x mins maxs = Inr found \<and> pairs_at s found qs
    \<and> (\<forall>a. within a qs \<longleftrightarrow> low \<le> a \<and> a \<le> high \<and> within a rs) \<and> length found \<le> length rs"
  using assms(4)
proof (induction mins arbitrary: maxs rs)
  case (Cons m2 mins)
  then obtain x2 maxs' low2 high2 rs' where c: "maxs = x2 # maxs'" "rs = (low2, high2) # rs'"
      "number_at s (expr_type m2) (expr_value m2) low2" "number_at s (expr_type x2) (expr_value x2) high2"
      "ranges_at s mins maxs' rs'" by (auto simp: ranges_at_Cons)
  from Cons.IH [OF c(5)] obtain found qs where IH: "intersect_range s m x mins maxs' = Inr found" "pairs_at s found qs"
      "\<forall>a. within a qs \<longleftrightarrow> low \<le> a \<and> a \<le> high \<and> within a rs'" "length found \<le> length rs'" by auto
  have cmp: "CompareNumbers s (expr_type x) (expr_value x) (expr_type x2) (expr_value x2) = Inr (Some (order_of high high2))"
      "CompareNumbers s (expr_type m) (expr_value m) (expr_type m2) (expr_value m2) = Inr (Some (order_of low low2))"
      "CompareNumbers s (expr_type x) (expr_value x) (expr_type m2) (expr_value m2) = Inr (Some (order_of high low2))"
      "CompareNumbers s (expr_type m) (expr_value m) (expr_type x2) (expr_value x2) = Inr (Some (order_of low high2))"
    by (rule numbers_ordered [OF assms(1)], use assms(2,3) c(3,4) in simp_all)+
  show ?case
  proof (cases "high < low2 \<or> high2 < low")
    case True
    then show ?thesis using IH cmp c(1,2) by (auto intro: le_SucI)
  next
    case False
    define lo where "lo = (if low2 < low then m else m2)"
    define hi where "hi = (if high < high2 then x else x2)"
    have "intersect_range s m x (m2 # mins) maxs
        = Inr ((GenConstant (expr_type lo) (expr_value lo), GenConstant (expr_type hi) (expr_value hi)) # found)"
      using False IH(1) cmp c(1) by (simp add: Let_def lo_def hi_def)
    moreover have "number_at s (expr_type lo) (expr_value lo) (max low low2)" "number_at s (expr_type hi) (expr_value hi) (min high high2)"
      using assms(2,3) c(3,4) by (auto simp: lo_def hi_def max_def min_def)
    ultimately show ?thesis
      using IH(2-4) c(2) by (intro exI [of _ "_ # found"] exI [of _ "(max low low2, min high high2) # qs"]) auto
  qed
qed simp

lemma ranges_intersected:
  assumes "numbers_apart s" "ranges_at s mins maxs rs" "ranges_at s mins2 maxs2 rs2"
  shows "\<exists>found qs. intersect_ranges s mins maxs mins2 maxs2 = Inr found \<and> pairs_at s found qs
    \<and> (\<forall>a. within a qs \<longleftrightarrow> within a rs \<and> within a rs2) \<and> length found \<le> length rs * length rs2"
  using assms(2)
proof (induction mins arbitrary: maxs rs)
  case (Cons m mins)
  then obtain x maxs' low high rs' where c: "maxs = x # maxs'" "rs = (low, high) # rs'"
      "number_at s (expr_type m) (expr_value m) low" "number_at s (expr_type x) (expr_value x) high"
      "ranges_at s mins maxs' rs'" by (auto simp: ranges_at_Cons)
  obtain f qs where f: "intersect_range s m x mins2 maxs2 = Inr f" "pairs_at s f qs"
      "\<forall>a. within a qs \<longleftrightarrow> low \<le> a \<and> a \<le> high \<and> within a rs2" "length f \<le> length rs2"
    using range_intersected [OF assms(1) c(3,4) assms(3)] by auto
  obtain f' qs' where f': "intersect_ranges s mins maxs' mins2 maxs2 = Inr f'" "pairs_at s f' qs'"
      "\<forall>a. within a qs' \<longleftrightarrow> within a rs' \<and> within a rs2" "length f' \<le> length rs' * length rs2"
    using Cons.IH [OF c(5)] by auto
  show ?case
    using f f' c(1,2) pairs_at_append [OF f(2) f'(2)]
    by (intro exI [of _ "f @ f'"] exI [of _ "qs @ qs'"]) auto
qed simp

end
