(* ===== verification/ConstraintMeaning.thy ===== *)
theory ConstraintMeaning
  imports ConstraintNumbers MultifieldValues
begin

text \<open>
  What a constraint record means: the types, values, classes, ranges and numbers of fields that it admits, what the checks
  find in these terms, and that the intersection of two records admits what both do.
\<close>

section \<open>What a record admits\<close>

definition type_flag :: "fieldType \<Rightarrow> constraintLevel \<Rightarrow> bool" where
  "type_flag t c =
     (case t of
        SYMBOL \<Rightarrow> symbolsAllowed c | STRING \<Rightarrow> stringsAllowed c | FLOAT \<Rightarrow> floatsAllowed c | INTEGER \<Rightarrow> integersAllowed c
      | INSTANCE_NAME \<Rightarrow> instanceNamesAllowed c | INSTANCE_ADDRESS \<Rightarrow> instanceAddressesAllowed c
      | EXTERNAL_ADDRESS \<Rightarrow> externalAddressesAllowed c | FACT_ADDRESS \<Rightarrow> factAddressesAllowed c
      | MULTIFIELD \<Rightarrow> True | RVOID \<Rightarrow> voidAllowed c)"

definition atom_type :: "fieldType \<Rightarrow> bool" where
  "atom_type t \<longleftrightarrow> t \<in> {SYMBOL, STRING, INTEGER, FLOAT, INSTANCE_NAME}"

definition listed :: "fieldType \<Rightarrow> address \<Rightarrow> expr list \<Rightarrow> bool" where
  "listed t v xs \<longleftrightarrow> (\<exists>x \<in> set xs. expr_type x = Constant t \<and> expr_value x = v)"

definition is_number :: "fieldType \<Rightarrow> bool" where
  "is_number t \<longleftrightarrow> t = INTEGER \<or> t = FLOAT"

definition class_named :: "system \<Rightarrow> scan \<Rightarrow> address \<Rightarrow> expr \<Rightarrow> bool" where
  "class_named y s insClass x \<longleftrightarrow>
     (case ValueToString (expr_value x) s of
        Inl _ \<Rightarrow> False
      | Inr name \<Rightarrow>
          case LookupDefclassByMdlOrScope y name of
            None \<Rightarrow> False | Some c \<Rightarrow> c = insClass \<or> EnvSubclassP y insClass c)"

definition in_allowed_classes :: "system \<Rightarrow> scan \<Rightarrow> fieldType \<Rightarrow> address \<Rightarrow> expr list \<Rightarrow> bool" where
  "in_allowed_classes y s t v classes \<longleftrightarrow> classes = [] \<or> t \<noteq> INSTANCE_ADDRESS \<and> t \<noteq> INSTANCE_NAME
     \<or> (case (if t = INSTANCE_ADDRESS then Some v else FindInstanceBySymbol y v) of
          None \<Rightarrow> False
        | Some ins \<Rightarrow> \<exists>x \<in> set classes. class_named y s (EnvGetInstanceClass y ins) x)"

text \<open>The meaning of a record: the type, the values, the classes and the ranges that it allows\<close>

definition admits :: "system \<Rightarrow> scan \<Rightarrow> constraintLevel \<Rightarrow> fieldType \<Rightarrow> address \<Rightarrow> bool" where
  "admits y s c t v \<longleftrightarrow> t \<noteq> RVOID \<and> (anyAllowed c \<or> type_flag t c)
     \<and> (restricted (Constant t) c \<longrightarrow> listed t v (restrictionList c))
     \<and> in_allowed_classes y s t v (classList c)
     \<and> (is_number t \<longrightarrow> (\<exists>a rs. number_at s (Constant t) v a \<and> ranges_at s (minValue c) (maxValue c) rs \<and> within a rs))"

text \<open>A bound of the number of fields: an integer or the infinity that bounds nothing\<close>

definition bound_ok :: "scan \<Rightarrow> address option \<Rightarrow> expr \<Rightarrow> bool" where
  "bound_ok s infinity x \<longleftrightarrow> Some (expr_value x) = infinity
     \<or> Some (expr_value x) \<noteq> PositiveInfinity (atom_data s) \<and> Some (expr_value x) \<noteq> NegativeInfinity (atom_data s)
       \<and> expr_type x = Constant INTEGER \<and> (\<exists>i. ValueToLong (expr_value x) s = Inr i \<and> \<bar>sint i\<bar> \<le> 2 ^ 53)"

text \<open>The types are not listed if any is allowed.\<close>

definition plain_flags :: "constraintLevel \<Rightarrow> bool" where
  "plain_flags c \<longleftrightarrow> (anyAllowed c \<longrightarrow> \<not> symbolsAllowed c \<and> \<not> stringsAllowed c \<and> \<not> floatsAllowed c \<and> \<not> integersAllowed c
     \<and> \<not> instanceNamesAllowed c \<and> \<not> instanceAddressesAllowed c \<and> \<not> externalAddressesAllowed c \<and> \<not> voidAllowed c
     \<and> \<not> factAddressesAllowed c)"

definition level_ok :: "scan \<Rightarrow> constraintLevel \<Rightarrow> bool" where
  "level_ok s c \<longleftrightarrow> plain_flags c
     \<and> (\<forall>x \<in> set (classList c). expr_type x = Constant SYMBOL \<and> (\<exists>name. ValueToString (expr_value x) s = Inr name))
     \<and> (\<exists>rs. ranges_at s (minValue c) (maxValue c) rs)
     \<and> (\<exists>m x. minFields c = [m] \<and> maxFields c = [x] \<and> bound_ok s (NegativeInfinity (atom_data s)) m
          \<and> bound_ok s (PositiveInfinity (atom_data s)) x)"

fun record_ok :: "scan \<Rightarrow> constraintRecord \<Rightarrow> bool" where
  "record_ok s (Constraint c m) \<longleftrightarrow> level_ok s c \<and> (case m of None \<Rightarrow> True | Some m \<Rightarrow> record_ok s m)"

text \<open>The numbers that records are made with\<close>

definition constants_ok :: "scan \<Rightarrow> bool" where
  "constants_ok s \<longleftrightarrow> numbers_apart s
     \<and> (\<exists>low high zero. NegativeInfinity (atom_data s) = Some low \<and> PositiveInfinity (atom_data s) = Some high
          \<and> Zero (atom_data s) = Some zero \<and> ValueToLong zero s = Inr 0 \<and> zero \<noteq> low \<and> zero \<noteq> high)"

lemma CheckTypeConstraint_flag:
  "CheckTypeConstraint (Constant t) (Some c) \<longleftrightarrow> t \<noteq> RVOID \<and> (anyAllowed c \<or> type_flag t c)"
  by (cases t) (simp_all add: CheckTypeConstraint_def type_flag_def)

lemma CheckAllowedValues_listed:
  "CheckAllowedValuesConstraint (Constant t) v (Some c) \<longleftrightarrow> (restricted (Constant t) c \<longrightarrow> listed t v (restrictionList c))"
  by (auto simp: CheckAllowedValuesConstraint_def listed_def list_ex_iff)

lemma in_classes_named:
  assumes "\<forall>x \<in> set xs. \<exists>name. ValueToString (expr_value x) s = Inr name"
  shows "in_classes y p xs s = Inr (\<exists>x \<in> set xs. class_named y s p x)"
  using assms
proof (induction xs)
  case (Cons x xs)
  then obtain name where n: "ValueToString (expr_value x) s = Inr name" by auto
  have "class_named y s p x \<longleftrightarrow> (case LookupDefclassByMdlOrScope y name of
      None \<Rightarrow> False | Some c \<Rightarrow> c = p \<or> EnvSubclassP y p c)" by (simp add: class_named_def n)
  then show ?case using Cons n by (cases "LookupDefclassByMdlOrScope y name") simp_all
qed simp

lemma CheckAllowedClasses_allowed:
  assumes "\<forall>x \<in> set (classList c). \<exists>name. ValueToString (expr_value x) s = Inr name"
  shows "CheckAllowedClassesConstraint y s (Constant t) v (Some c) = Inr (in_allowed_classes y s t v (classList c))"
  using in_classes_named [OF assms] by (auto simp: CheckAllowedClassesConstraint_def in_allowed_classes_def split: option.splits)

lemma number_at_unique: "number_at s t v a \<Longrightarrow> number_at s t v b \<Longrightarrow> a = b"
  by (auto simp: number_at_def split: if_splits)

lemma ranges_at_unique: "ranges_at s mins maxs rs \<Longrightarrow> ranges_at s mins maxs qs \<Longrightarrow> rs = qs"
proof (induction s mins maxs rs arbitrary: qs rule: ranges_at.induct)
  case (2 s m mins x maxs low high rs)
  then show ?case by (auto simp: ranges_at_Cons dest: number_at_unique)
qed auto

lemma CheckRange_within:
  assumes "numbers_apart s" "is_number t \<Longrightarrow> \<exists>a. number_at s (Constant t) v a" "ranges_at s (minValue c) (maxValue c) rs"
  shows "CheckRangeConstraint s (Constant t) v (Some c) = Inr (is_number t
    \<longrightarrow> (\<exists>a rs. number_at s (Constant t) v a \<and> ranges_at s (minValue c) (maxValue c) rs \<and> within a rs))"
proof (cases "is_number t")
  case True
  then obtain a where a: "number_at s (Constant t) v a" using assms(2) by blast
  have "in_ranges s (Constant t) v (minValue c) (maxValue c) = Inr (within a rs)"
    by (rule in_ranges_within [OF assms(1) a assms(3)])
  moreover have "(\<exists>a rs. number_at s (Constant t) v a \<and> ranges_at s (minValue c) (maxValue c) rs \<and> within a rs) \<longleftrightarrow> within a rs"
    using a assms(3) number_at_unique ranges_at_unique by metis
  ultimately show ?thesis using True by (auto simp: CheckRangeConstraint_def is_number_def)
qed (auto simp: CheckRangeConstraint_def is_number_def)

lemma value_checked:
  assumes "numbers_apart s" "level_ok s c" "is_number t \<Longrightarrow> \<exists>a. number_at s (Constant t) v a"
  shows "\<exists>r. ConstraintCheckValue y s (Constant t) v (Some c) = Inr r \<and> (r = NO_VIOLATION \<longleftrightarrow> admits y s c t v)"
proof -
  obtain rs where rs: "ranges_at s (minValue c) (maxValue c) rs" using assms(2) by (auto simp: level_ok_def)
  have cl: "\<forall>x \<in> set (classList c). \<exists>name. ValueToString (expr_value x) s = Inr name"
    using assms(2) by (auto simp: level_ok_def)
  have r: "CheckRangeConstraint s (Constant t) v (Some c) = Inr (is_number t
    \<longrightarrow> (\<exists>a rs. number_at s (Constant t) v a \<and> ranges_at s (minValue c) (maxValue c) rs \<and> within a rs))"
    by (rule CheckRange_within [OF assms(1) _ rs]) (rule assms(3))
  show ?thesis
    unfolding ConstraintCheckValue_def CheckTypeConstraint_flag CheckAllowedValues_listed
      CheckAllowedClasses_allowed [OF cl] r admits_def
    by (simp add: CheckFunctionReturnType_def)
qed

section \<open>The numbers of fields\<close>

definition field_low :: "scan \<Rightarrow> constraintLevel \<Rightarrow> int option" where
  "field_low s c = (case field_bound (minFields c) (NegativeInfinity (atom_data s)) s of Inr r \<Rightarrow> r | Inl _ \<Rightarrow> None)"

definition field_high :: "scan \<Rightarrow> constraintLevel \<Rightarrow> int option" where
  "field_high s c = (case field_bound (maxFields c) (PositiveInfinity (atom_data s)) s of Inr r \<Rightarrow> r | Inl _ \<Rightarrow> None)"

definition admits_number :: "scan \<Rightarrow> constraintLevel \<Rightarrow> int \<Rightarrow> bool" where
  "admits_number s c n \<longleftrightarrow> (case field_low s c of None \<Rightarrow> True | Some x \<Rightarrow> x \<le> n)
     \<and> (case field_high s c of None \<Rightarrow> True | Some x \<Rightarrow> n \<le> x)"

lemma field_bounds:
  assumes "level_ok s c"
  shows "field_bound (minFields c) (NegativeInfinity (atom_data s)) s = Inr (field_low s c)"
    and "field_bound (maxFields c) (PositiveInfinity (atom_data s)) s = Inr (field_high s c)"
  using assms unfolding level_ok_def field_low_def field_high_def
  by (auto simp: field_bound_def bound_ok_def)

lemma cardinality_checked:
  "level_ok s c \<Longrightarrow> CheckCardinalityConstraint s n (Some c) = Inr (admits_number s c n)"
  by (auto simp: CheckCardinalityConstraint_def field_bounds admits_number_def split: option.splits)

section \<open>Intersection of records\<close>

definition allows :: "constraintLevel \<Rightarrow> fieldType \<Rightarrow> bool" where
  "allows c t \<longleftrightarrow> anyAllowed c \<or> type_flag t c"

text \<open>Records that differ in their types only\<close>

definition same_rest :: "constraintLevel \<Rightarrow> constraintLevel \<Rightarrow> bool" where
  "same_rest c d \<longleftrightarrow> (\<forall>t. restricted t c = restricted t d) \<and> anyRestriction c = anyRestriction d
     \<and> restrictionList c = restrictionList d \<and> classList c = classList d \<and> minValue c = minValue d \<and> maxValue c = maxValue d
     \<and> minFields c = minFields d \<and> maxFields c = maxFields d"

lemma same_rest_refl [simp]: "same_rest c c"
  by (simp add: same_rest_def)

lemma same_rest_trans: "same_rest c d \<Longrightarrow> same_rest d e \<Longrightarrow> same_rest c e"
  by (simp add: same_rest_def)

lemma set_back: "plain_flags c \<Longrightarrow> anyAllowed c \<Longrightarrow> SetAnyAllowedFlags True (SetAnyAllowedFlags False c) = c"
  by (cases c) (simp add: plain_flags_def SetAnyAllowedFlags_def)

lemma types_intersected:
  assumes "plain_flags c1" "plain_flags c2" "plain_flags rv" "anyAllowed rv"
  shows "\<exists>rv'. intersect_types c1 c2 rv = (rv', c1, c2) \<and> plain_flags rv' \<and> same_rest rv' rv
    \<and> multifieldsAllowed rv' = (multifieldsAllowed c1 \<and> multifieldsAllowed c2)
    \<and> (\<forall>t. t \<noteq> MULTIFIELD \<longrightarrow> (allows rv' t \<longleftrightarrow> allows c1 t \<and> allows c2 t))"
proof (cases "anyAllowed c1 \<and> anyAllowed c2")
  case True
  define rv' where "rv' = rv\<lparr>multifieldsAllowed := multifieldsAllowed c1 \<and> multifieldsAllowed c2,
    singlefieldsAllowed := singlefieldsAllowed c1 \<and> singlefieldsAllowed c2, anyAllowed := True\<rparr>"
  have "intersect_types c1 c2 rv = (rv', c1, c2)" using True by (simp add: intersect_types_def rv'_def)
  moreover have "plain_flags rv'" using assms(3,4) by (simp add: plain_flags_def rv'_def)
  moreover have "same_rest rv' rv" by (simp add: same_rest_def restricted_def rv'_def)
  moreover have "\<forall>t. allows rv' t \<and> allows c1 t \<and> allows c2 t" using True by (simp add: allows_def rv'_def)
  moreover have "multifieldsAllowed rv' = (multifieldsAllowed c1 \<and> multifieldsAllowed c2)" by (simp add: rv'_def)
  ultimately show ?thesis by blast
next
  case False
  define d1 where "d1 = (if anyAllowed c1 then SetAnyAllowedFlags False c1 else c1)"
  define d2 where "d2 = (if \<not> anyAllowed c1 \<and> anyAllowed c2 then SetAnyAllowedFlags False c2 else c2)"
  define rv' where "rv' = rv\<lparr>multifieldsAllowed := multifieldsAllowed d1 \<and> multifieldsAllowed d2,
    singlefieldsAllowed := singlefieldsAllowed c1 \<and> singlefieldsAllowed c2, anyAllowed := False,
    symbolsAllowed := symbolsAllowed d1 \<and> symbolsAllowed d2, stringsAllowed := stringsAllowed d1 \<and> stringsAllowed d2,
    floatsAllowed := floatsAllowed d1 \<and> floatsAllowed d2, integersAllowed := integersAllowed d1 \<and> integersAllowed d2,
    instanceNamesAllowed := instanceNamesAllowed d1 \<and> instanceNamesAllowed d2,
    instanceAddressesAllowed := instanceAddressesAllowed d1 \<and> instanceAddressesAllowed d2,
    externalAddressesAllowed := externalAddressesAllowed d1 \<and> externalAddressesAllowed d2,
    voidAllowed := voidAllowed d1 \<and> voidAllowed d2, factAddressesAllowed := factAddressesAllowed d1 \<and> factAddressesAllowed d2\<rparr>"
  have "(if anyAllowed c1 then SetAnyAllowedFlags True d1 else d1) = c1"
    "(if \<not> anyAllowed c1 \<and> anyAllowed c2 then SetAnyAllowedFlags True d2 else d2) = c2"
    using set_back assms(1,2) by (simp_all add: d1_def d2_def)
  then have "intersect_types c1 c2 rv = (rv', c1, c2)"
    using False unfolding intersect_types_def Let_def d1_def [symmetric] d2_def [symmetric] if_not_P [OF False]
    by (simp add: rv'_def)
  moreover have "plain_flags rv'" by (simp add: plain_flags_def rv'_def)
  moreover have "same_rest rv' rv" by (simp add: same_rest_def restricted_def rv'_def)
  moreover have "\<not> anyAllowed d1" "\<not> anyAllowed d2" using False by (auto simp: d1_def d2_def SetAnyAllowedFlags_def)
  then have "t \<noteq> MULTIFIELD \<longrightarrow> (allows rv' t \<longleftrightarrow> allows d1 t \<and> allows d2 t)" for t
    by (cases t) (simp_all add: allows_def type_flag_def rv'_def)
  moreover have "t \<noteq> MULTIFIELD \<longrightarrow> allows d1 t = allows c1 t \<and> allows d2 t = allows c2 t" for t
    by (cases t) (simp_all add: allows_def type_flag_def d1_def d2_def SetAnyAllowedFlags_def)
  moreover have "multifieldsAllowed rv' = (multifieldsAllowed c1 \<and> multifieldsAllowed c2)"
    by (simp add: rv'_def d1_def d2_def SetAnyAllowedFlags_def)
  ultimately show ?thesis by blast
qed


text \<open>The restrictions and the values of the intersection\<close>

lemma FindItem_listed:
  "FindItemInExpression (Constant t) v True xs \<longleftrightarrow> listed t v xs"
  "FindItemInExpression (Constant t) v False xs \<longleftrightarrow> (\<exists>w. listed t w xs)"
  by (induction xs) (auto simp: listed_def)

lemma FindItem_used: "FindItemInExpression t v True xs \<longleftrightarrow> (\<exists>x \<in> set xs. expr_type x = t \<and> expr_value x = v)"
  by (induction xs) auto

lemma passing_added:
  assumes "\<forall>x \<in> set xs. passes (expr_type x) (expr_value x) = Inr (p (expr_type x) (expr_value x))"
  shows "\<exists>head'. add_passing passes again xs head = Inr head' \<and>
    (\<forall>t v. (\<exists>x \<in> set head'. expr_type x = t \<and> expr_value x = v) \<longleftrightarrow>
       (\<exists>x \<in> set head. expr_type x = t \<and> expr_value x = v) \<or> (\<exists>x \<in> set xs. expr_type x = t \<and> expr_value x = v) \<and> p t v)"
  using assms
proof (induction xs arbitrary: head)
  case (Cons x xs)
  show ?case
  proof (cases "again \<and> FindItemInExpression (expr_type x) (expr_value x) True head")
    case True
    with Cons.IH [of head] Cons.prems show ?thesis by (fastforce simp: FindItem_used)
  next
    case False
    with Cons.IH [of "if p (expr_type x) (expr_value x) then GenConstant (expr_type x) (expr_value x) # head else head"] Cons.prems
    show ?thesis by (cases "p (expr_type x) (expr_value x)") (auto simp del: add_passing.simps(2) simp: add_passing.simps(2) [of passes again x xs])
  qed
qed simp

definition value_allowed :: "constraintLevel \<Rightarrow> fieldType \<Rightarrow> address \<Rightarrow> bool" where
  "value_allowed c t v \<longleftrightarrow> (restricted (Constant t) c \<longrightarrow> listed t v (restrictionList c))"

lemma restrictions_intersected:
  "restricted t (intersect_restrictions c1 c2 rv) \<longleftrightarrow> restricted t c1 \<or> restricted t c2"
  by (auto simp: intersect_restrictions_def restricted_def)

lemma values_intersected:
  assumes "\<And>t. restricted t rv \<longleftrightarrow> restricted t c1 \<or> restricted t c2"
  shows "\<exists>head. IntersectAllowedValueExpressions c1 c2 rv = Inr (rv\<lparr>restrictionList := head\<rparr>)
    \<and> (\<forall>t v. value_allowed (rv\<lparr>restrictionList := head\<rparr>) t v \<longleftrightarrow> value_allowed c1 t v \<and> value_allowed c2 t v)"
proof -
  define p where "p t v \<longleftrightarrow> CheckAllowedValuesConstraint t v (Some c1) \<and> CheckAllowedValuesConstraint t v (Some c2)" for t v
  define passes where "passes = (\<lambda>t v. both (Inr (CheckAllowedValuesConstraint t v (Some c1)))
    (Inr (CheckAllowedValuesConstraint t v (Some c2))))"
  have ps: "passes t v = Inr (p t v)" for t v by (simp add: passes_def p_def both_def)
  let ?at = "\<lambda>xs t v. \<exists>x \<in> set xs. expr_type x = t \<and> expr_value x = v"
  obtain h1 where h1: "add_passing passes False (restrictionList c1) [] = Inr h1"
      "\<forall>t v. ?at h1 t v \<longleftrightarrow> ?at (restrictionList c1) t v \<and> p t v"
    using passing_added [of "restrictionList c1" passes p False "[]"] ps by auto
  obtain h2 where h2: "add_passing passes True (restrictionList c2) h1 = Inr h2"
      "\<forall>t v. ?at h2 t v \<longleftrightarrow> ?at h1 t v \<or> ?at (restrictionList c2) t v \<and> p t v"
    using passing_added [of "restrictionList c2" passes p True h1] ps by auto
  have "IntersectAllowedValueExpressions c1 c2 rv = Inr (rv\<lparr>restrictionList := h2\<rparr>)"
    unfolding IntersectAllowedValueExpressions_def passes_def [symmetric] Let_def by (simp add: h1(1) h2(1))
  moreover have "value_allowed (rv\<lparr>restrictionList := h2\<rparr>) t v \<longleftrightarrow> value_allowed c1 t v \<and> value_allowed c2 t v" for t v
  proof -
    have l: "listed t v h2 \<longleftrightarrow> (listed t v (restrictionList c1) \<or> listed t v (restrictionList c2))
        \<and> value_allowed c1 t v \<and> value_allowed c2 t v"
      using h1(2) [rule_format, of "Constant t" v] h2(2) [rule_format, of "Constant t" v]
      unfolding listed_def [symmetric] p_def CheckAllowedValues_listed value_allowed_def [symmetric] by blast
    have "restricted (Constant t) (rv\<lparr>restrictionList := h2\<rparr>) \<longleftrightarrow> restricted (Constant t) c1 \<or> restricted (Constant t) c2"
      using assms [of "Constant t"] by (simp add: restricted_def)
    then show ?thesis using l unfolding value_allowed_def by auto
  qed
  ultimately show ?thesis by blast
qed

text \<open>
  The names in the lists of classes are symbols, so that they pass: the new list is the union of the two.
\<close>

definition classes_ok :: "scan \<Rightarrow> expr list \<Rightarrow> bool" where
  "classes_ok s xs \<longleftrightarrow> (\<forall>x \<in> set xs. expr_type x = Constant SYMBOL \<and> (\<exists>name. ValueToString (expr_value x) s = Inr name))"

lemma classes_intersected:
  assumes "classes_ok s (classList c1)" "classes_ok s (classList c2)"
  shows "\<exists>head. IntersectAllowedClassExpressions y s c1 c2 rv = Inr (rv\<lparr>classList := head\<rparr>) \<and> classes_ok s head
    \<and> (\<forall>v. v \<in> expr_value ` set head \<longleftrightarrow> v \<in> expr_value ` (set (classList c1) \<union> set (classList c2)))"
proof -
  define passes where "passes = (\<lambda>t v. both (CheckAllowedClassesConstraint y s t v (Some c1))
    (CheckAllowedClassesConstraint y s t v (Some c2)))"
  have ps: "passes (Constant SYMBOL) v = Inr True" for v
    by (simp add: passes_def both_def CheckAllowedClassesConstraint_def)
  let ?at = "\<lambda>xs t v. \<exists>x \<in> set xs. expr_type x = t \<and> expr_value x = v"
  obtain h1 where h1: "add_passing passes False (classList c1) [] = Inr h1" "\<forall>t v. ?at h1 t v \<longleftrightarrow> ?at (classList c1) t v"
    using passing_added [of "classList c1" passes "\<lambda>_ _. True" False "[]"] ps assms(1) by (auto simp: classes_ok_def)
  obtain h2 where h2: "add_passing passes True (classList c2) h1 = Inr h2"
      "\<forall>t v. ?at h2 t v \<longleftrightarrow> ?at h1 t v \<or> ?at (classList c2) t v"
    using passing_added [of "classList c2" passes "\<lambda>_ _. True" True h1] ps assms(2) by (auto simp: classes_ok_def)
  have r: "IntersectAllowedClassExpressions y s c1 c2 rv = Inr (rv\<lparr>classList := h2\<rparr>)"
    unfolding IntersectAllowedClassExpressions_def passes_def [symmetric] Let_def by (simp add: h1(1) h2(1))
  have at: "?at h2 t v \<longleftrightarrow> ?at (classList c1) t v \<or> ?at (classList c2) t v" for t v using h1(2) h2(2) by blast
  have ok: "classes_ok s h2"
    unfolding classes_ok_def
  proof
    fix x assume "x \<in> set h2"
    then have "?at (classList c1) (expr_type x) (expr_value x) \<or> ?at (classList c2) (expr_type x) (expr_value x)" using at by blast
    then show "expr_type x = Constant SYMBOL \<and> (\<exists>name. ValueToString (expr_value x) s = Inr name)"
      using assms unfolding classes_ok_def by (metis (no_types, lifting))
  qed
  have "v \<in> expr_value ` set h2 \<longleftrightarrow> v \<in> expr_value ` (set (classList c1) \<union> set (classList c2))" for v
  proof -
    have "v \<in> expr_value ` set h2 \<longleftrightarrow> ?at h2 (Constant SYMBOL) v" using ok by (auto simp: classes_ok_def)
    also have "\<dots> \<longleftrightarrow> v \<in> expr_value ` (set (classList c1) \<union> set (classList c2))"
      using at assms by (auto simp: classes_ok_def)
    finally show ?thesis .
  qed
  then show ?thesis using r ok by blast
qed

lemma allowed_classes_cong:
  assumes "expr_value ` set xs = expr_value ` set ys"
  shows "in_allowed_classes y s t v xs \<longleftrightarrow> in_allowed_classes y s t v ys"
proof -
  have e: "(\<exists>x \<in> set xs. class_named y s p x) \<longleftrightarrow> (\<exists>v \<in> expr_value ` set xs. class_named y s p (GenConstant (Constant SYMBOL) v))"
    for p xs unfolding bex_simps class_named_def number_GenConstant by simp
  have "xs = [] \<longleftrightarrow> ys = []" using assms by (cases xs; cases ys) auto
  then show ?thesis unfolding in_allowed_classes_def e assms by simp
qed

lemma no_classes [simp]: "in_allowed_classes y s t v []"
  by (simp add: in_allowed_classes_def)

section \<open>The flags after a change of the values\<close>

lemma update_flag:
  "(if P then r\<lparr>symbolsAllowed := b\<rparr> else r) = r\<lparr>symbolsAllowed := if P then b else symbolsAllowed r\<rparr>"
  "(if P then r\<lparr>stringsAllowed := b\<rparr> else r) = r\<lparr>stringsAllowed := if P then b else stringsAllowed r\<rparr>"
  "(if P then r\<lparr>floatsAllowed := b\<rparr> else r) = r\<lparr>floatsAllowed := if P then b else floatsAllowed r\<rparr>"
  "(if P then r\<lparr>integersAllowed := b\<rparr> else r) = r\<lparr>integersAllowed := if P then b else integersAllowed r\<rparr>"
  "(if P then r\<lparr>instanceNamesAllowed := b\<rparr> else r) = r\<lparr>instanceNamesAllowed := if P then b else instanceNamesAllowed r\<rparr>"
  by simp_all

definition flags_left :: "constraintLevel \<Rightarrow> fieldType \<Rightarrow> bool" where
  "flags_left c t \<longleftrightarrow> \<not> (anyRestriction c \<and> restrictionList c = [])
     \<and> (anyAllowed c \<or> type_flag t c \<and> (atom_type t \<and> restricted (Constant t) c \<and> \<not> anyRestriction c
       \<longrightarrow> (\<exists>w. listed t w (restrictionList c))))"

lemma flags_updated:
  assumes "\<forall>t. anyRestriction c \<longrightarrow> \<not> symbolRestriction c \<and> \<not> stringRestriction c \<and> \<not> floatRestriction c
    \<and> \<not> integerRestriction c \<and> \<not> instanceNameRestriction c" "plain_flags c"
  shows "t \<noteq> MULTIFIELD \<Longrightarrow> allows (UpdateRestrictionFlags c) t \<longleftrightarrow> flags_left c t"
    and "plain_flags (UpdateRestrictionFlags c)" and "same_rest (UpdateRestrictionFlags c) c"
    and "multifieldsAllowed (UpdateRestrictionFlags c) = multifieldsAllowed c"
proof -
  show "plain_flags (UpdateRestrictionFlags c)" "same_rest (UpdateRestrictionFlags c) c"
    "multifieldsAllowed (UpdateRestrictionFlags c) = multifieldsAllowed c"
    using assms(2) unfolding UpdateRestrictionFlags_def Let_def update_flag
    by (auto simp: plain_flags_def same_rest_def restricted_def SetAnyAllowedFlags_def)
  show "allows (UpdateRestrictionFlags c) t \<longleftrightarrow> flags_left c t" if "t \<noteq> MULTIFIELD"
    using assms that unfolding UpdateRestrictionFlags_def Let_def update_flag allows_def flags_left_def type_flag_def
    by (cases t) (auto simp: SetAnyAllowedFlags_def restricted_def atom_type_def plain_flags_def FindItem_listed)
qed


lemma update_keeps_values:
  assumes "\<forall>t. anyRestriction c \<longrightarrow> \<not> symbolRestriction c \<and> \<not> stringRestriction c \<and> \<not> floatRestriction c
    \<and> \<not> integerRestriction c \<and> \<not> instanceNameRestriction c" "plain_flags c"
    and "t \<noteq> MULTIFIELD" "atom_type t \<or> \<not> anyRestriction c"
  shows "allows (UpdateRestrictionFlags c) t \<and> value_allowed (UpdateRestrictionFlags c) t v \<longleftrightarrow> allows c t \<and> value_allowed c t v"
proof -
  have r: "value_allowed (UpdateRestrictionFlags c) t v \<longleftrightarrow> value_allowed c t v"
    using flags_updated(3) [OF assms(1,2)] by (simp add: value_allowed_def same_rest_def)
  have "anyRestriction c \<Longrightarrow> atom_type t \<Longrightarrow> restricted (Constant t) c"
    by (auto simp: restricted_def atom_type_def)
  then show ?thesis
    unfolding r flags_updated(1) [OF assms(1-3)] using assms(4)
    by (auto simp: flags_left_def allows_def value_allowed_def listed_def)
qed

section \<open>Ranges of numbers\<close>

definition in_value_range :: "scan \<Rightarrow> constraintLevel \<Rightarrow> fieldType \<Rightarrow> address \<Rightarrow> bool" where
  "in_value_range s c t v \<longleftrightarrow>
     (is_number t \<longrightarrow> (\<exists>a rs. number_at s (Constant t) v a \<and> ranges_at s (minValue c) (maxValue c) rs \<and> within a rs))"

lemma in_value_range_at:
  assumes "number_at s (Constant t) v a" "ranges_at s (minValue c) (maxValue c) rs" "is_number t"
  shows "in_value_range s c t v \<longleftrightarrow> within a rs"
  using assms number_at_unique ranges_at_unique unfolding in_value_range_def by metis

text \<open>Records that differ in their types and ranges only\<close>

definition same_values :: "constraintLevel \<Rightarrow> constraintLevel \<Rightarrow> bool" where
  "same_values c d \<longleftrightarrow> (\<forall>t. restricted t c = restricted t d) \<and> anyRestriction c = anyRestriction d
     \<and> symbolRestriction c = symbolRestriction d \<and> stringRestriction c = stringRestriction d
     \<and> floatRestriction c = floatRestriction d \<and> integerRestriction c = integerRestriction d
     \<and> instanceNameRestriction c = instanceNameRestriction d
     \<and> restrictionList c = restrictionList d \<and> classList c = classList d"

lemma value_ranges_intersected:
  assumes "numbers_apart s" "ranges_at s (minValue c1) (maxValue c1) rs1" "ranges_at s (minValue c2) (maxValue c2) rs2"
    and "ranges_at s (minValue rv) (maxValue rv) rs" "plain_flags rv"
  shows "\<exists>rv'. IntersectNumericExpressions s c1 c2 rv True = Inr rv' \<and> plain_flags rv' \<and> same_values rv' rv
    \<and> multifieldsAllowed rv' = multifieldsAllowed rv \<and> (\<forall>t. t \<noteq> MULTIFIELD \<and> allows rv' t \<longrightarrow> allows rv t)
    \<and> minFields rv' = minFields rv \<and> maxFields rv' = maxFields rv \<and> (\<exists>rs'. ranges_at s (minValue rv') (maxValue rv') rs')
    \<and> (\<forall>t v. t \<noteq> MULTIFIELD \<and> (is_number t \<longrightarrow> (\<exists>a. number_at s (Constant t) v a)) \<longrightarrow>
        (allows rv' t \<and> in_value_range s rv' t v \<longleftrightarrow> allows rv t \<and> in_value_range s c1 t v \<and> in_value_range s c2 t v))"
proof -
  obtain found qs where f: "intersect_ranges s (minValue c1) (maxValue c1) (minValue c2) (maxValue c2) = Inr found"
      "pairs_at s found qs" "\<forall>a. within a qs \<longleftrightarrow> within a rs1 \<and> within a rs2"
    using ranges_intersected [OF assms(1-3)] by blast
  define rv' where "rv' = set_ranges True found rv"
  have i: "IntersectNumericExpressions s c1 c2 rv True = Inr rv'"
    by (simp add: IntersectNumericExpressions_def f(1) rv'_def)
  have p: "plain_flags rv'" using assms(5) by (auto simp: rv'_def set_ranges_def plain_flags_def SetAnyAllowedFlags_def)
  have sv: "same_values rv' rv" "minFields rv' = minFields rv" "maxFields rv' = maxFields rv"
      "multifieldsAllowed rv' = multifieldsAllowed rv"
    by (auto simp: rv'_def set_ranges_def same_values_def restricted_def SetAnyAllowedFlags_def)
  have al: "allows rv' t \<longleftrightarrow> allows rv t \<and> (found = [] \<longrightarrow> \<not> is_number t)" if "t \<noteq> MULTIFIELD" for t
    using that by (cases t) (auto simp: rv'_def set_ranges_def allows_def type_flag_def SetAnyAllowedFlags_def is_number_def)
  have rr: "ranges_at s (minValue rv') (maxValue rv') (if found = [] then rs else qs)"
    using assms(4) f(2) by (auto simp: rv'_def set_ranges_def SetAnyAllowedFlags_def)
  have "allows rv' t \<and> in_value_range s rv' t v \<longleftrightarrow> allows rv t \<and> in_value_range s c1 t v \<and> in_value_range s c2 t v"
    if t: "t \<noteq> MULTIFIELD" "is_number t \<longrightarrow> (\<exists>a. number_at s (Constant t) v a)" for t v
  proof (cases "is_number t")
    case True
    then obtain a where a: "number_at s (Constant t) v a" using t(2) by blast
    have "found = [] \<Longrightarrow> qs = []" using f(2) by simp
    then show ?thesis
      unfolding al [OF t(1)] in_value_range_at [OF a rr True] in_value_range_at [OF a assms(2) True]
        in_value_range_at [OF a assms(3) True]
      using f(3) True by auto
  qed (simp add: al [OF t(1)] in_value_range_def)
  then show ?thesis using i p sv rr al by blast
qed

section \<open>Numbers of fields\<close>

lemma bound_number:
  assumes "bound_ok s infinity x" "infinity = PositiveInfinity (atom_data s) \<or> infinity = NegativeInfinity (atom_data s)"
  shows "\<exists>a. number_at s (expr_type x) (expr_value x) a"
  using assms by (auto simp: bound_ok_def number_at_def)

lemma bound_ok_GenConstant [simp]: "bound_ok s i (GenConstant (expr_type x) (expr_value x)) = bound_ok s i x"
  by (simp add: bound_ok_def)

lemma units_bounded: "\<bar>n\<bar> < 2 ^ 63 \<Longrightarrow> \<bar>n * 2 ^ 1074\<bar> < (2::int) ^ 2200"
proof -
  assume "\<bar>n\<bar> < 2 ^ 63"
  then have "\<bar>n * 2 ^ 1074\<bar> \<le> 2 ^ 63 * 2 ^ 1074" unfolding abs_mult by (intro mult_mono) simp_all
  also have "(2::int) ^ 63 * 2 ^ 1074 = 2 ^ 1137" by (simp only: flip: power_add) simp
  also have "(2::int) ^ 1137 < 2 ^ 2200" by (rule power_strict_increasing) simp_all
  finally show ?thesis .
qed

text \<open>The bounds of the number of fields as values\<close>

lemma field_bound_values:
  assumes "PositiveInfinity (atom_data s) \<noteq> NegativeInfinity (atom_data s)" "\<bar>n\<bar> < 2 ^ 63"
    and "minFields c = [m]" "maxFields c = [x]"
    and "bound_ok s (NegativeInfinity (atom_data s)) m" "bound_ok s (PositiveInfinity (atom_data s)) x"
    and "number_at s (expr_type m) (expr_value m) low" "number_at s (expr_type x) (expr_value x) high"
  shows "admits_number s c n \<longleftrightarrow> low \<le> n * 2 ^ 1074 \<and> n * 2 ^ 1074 \<le> high"
proof -
  have u: "\<bar>n * 2 ^ 1074\<bar> < (2::int) ^ 2200" using assms(2) by (rule units_bounded)
  have le: "i * 2 ^ 1074 \<le> j * 2 ^ 1074 \<longleftrightarrow> i \<le> (j :: int)" for i j
    by (rule mult_le_cancel_right_pos) simp
  have "(case field_low s c of None \<Rightarrow> True | Some k \<Rightarrow> k \<le> n) \<longleftrightarrow> low \<le> n * 2 ^ 1074"
  proof (cases "Some (expr_value m) = NegativeInfinity (atom_data s)")
    case True
    then have "low = - (2 ^ 2200)" using assms(1,7) by (auto simp: number_at_def)
    then show ?thesis using True u assms(3) by (auto simp: field_low_def field_bound_def)
  next
    case False
    then show ?thesis using assms(3,5,7) le by (auto simp: field_low_def field_bound_def bound_ok_def number_at_def)
  qed
  moreover have "(case field_high s c of None \<Rightarrow> True | Some k \<Rightarrow> n \<le> k) \<longleftrightarrow> n * 2 ^ 1074 \<le> high"
  proof (cases "Some (expr_value x) = PositiveInfinity (atom_data s)")
    case True
    then have "high = 2 ^ 2200" using assms(8) by (auto simp: number_at_def)
    then show ?thesis using True u assms(4) by (auto simp: field_high_def field_bound_def)
  next
    case False
    then show ?thesis using assms(4,6,8) le by (auto simp: field_high_def field_bound_def bound_ok_def number_at_def)
  qed
  ultimately show ?thesis by (simp add: admits_number_def)
qed

text \<open>One record ends below the other one's least number of fields.\<close>

definition fields_below :: "scan \<Rightarrow> constraintLevel \<Rightarrow> constraintLevel \<Rightarrow> bool" where
  "fields_below s c1 c2 \<longleftrightarrow> (\<exists>h l. field_high s c1 = Some h \<and> field_low s c2 = Some l \<and> h < l)"

definition fields_apart :: "scan \<Rightarrow> constraintLevel \<Rightarrow> constraintLevel \<Rightarrow> bool" where
  "fields_apart s c1 c2 \<longleftrightarrow> fields_below s c1 c2 \<or> fields_below s c2 c1"

lemma fields_below_values:
  assumes "PositiveInfinity (atom_data s) \<noteq> NegativeInfinity (atom_data s)"
    and "maxFields c1 = [x]" "bound_ok s (PositiveInfinity (atom_data s)) x" "number_at s (expr_type x) (expr_value x) high"
    and "minFields c2 = [m]" "bound_ok s (NegativeInfinity (atom_data s)) m" "number_at s (expr_type m) (expr_value m) low"
  shows "fields_below s c1 c2 \<longleftrightarrow> high < low"
proof -
  have le: "i * 2 ^ 1074 < j * 2 ^ 1074 \<longleftrightarrow> i < (j :: int)" for i j
    by (rule mult_less_cancel_right_pos) simp
  have fin: "\<bar>sint i * 2 ^ 1074\<bar> < (2::int) ^ 2200" if "\<bar>sint i\<bar> \<le> 2 ^ 53" for i :: "64 word"
    by (rule units_bounded) (use that in simp)
  show ?thesis
  proof (cases "Some (expr_value x) = PositiveInfinity (atom_data s)")
    case True
    then have "high = 2 ^ 2200" using assms(4) by (auto simp: number_at_def)
    moreover have "low < 2 ^ 2200"
    proof (cases "Some (expr_value m) = NegativeInfinity (atom_data s)")
      case True
      then have "low = - (2 ^ 2200)" using assms(1,7) by (auto simp: number_at_def)
      then show ?thesis by simp
    next
      case False
      then show ?thesis using assms(6,7) fin by (auto simp: bound_ok_def number_at_def abs_less_iff)
    qed
    ultimately show ?thesis using True assms(2) by (simp add: fields_below_def field_high_def field_bound_def)
  next
    case False
    then obtain i where i: "ValueToLong (expr_value x) s = Inr i" "\<bar>sint i\<bar> \<le> 2 ^ 53" "high = sint i * 2 ^ 1074"
        "field_high s c1 = Some (sint i)"
      using assms(2-4) by (auto simp: bound_ok_def number_at_def field_high_def field_bound_def)
    show ?thesis
    proof (cases "Some (expr_value m) = NegativeInfinity (atom_data s)")
      case True
      then have "low = - (2 ^ 2200)" using assms(1,7) by (auto simp: number_at_def)
      moreover have "\<not> high < - (2 ^ 2200)" using fin [OF i(2)] i(3) by (simp add: abs_less_iff)
      ultimately show ?thesis using True assms(5) by (simp add: fields_below_def field_low_def field_bound_def)
    next
      case False
      then obtain j where "ValueToLong (expr_value m) s = Inr j" "low = sint j * 2 ^ 1074" "field_low s c2 = Some (sint j)"
        using assms(5-7) by (auto simp: bound_ok_def number_at_def field_low_def field_bound_def)
      then show ?thesis using i le by (simp add: fields_below_def)
    qed
  qed
qed

lemma fields_intersected:
  assumes "numbers_apart s" "plain_flags rv"
    and f1: "minFields c1 = [m1]" "maxFields c1 = [x1]" "bound_ok s (NegativeInfinity (atom_data s)) m1"
      "bound_ok s (PositiveInfinity (atom_data s)) x1"
    and f2: "minFields c2 = [m2]" "maxFields c2 = [x2]" "bound_ok s (NegativeInfinity (atom_data s)) m2"
      "bound_ok s (PositiveInfinity (atom_data s)) x2"
    and f: "minFields rv = [m]" "maxFields rv = [x]" "bound_ok s (NegativeInfinity (atom_data s)) m"
      "bound_ok s (PositiveInfinity (atom_data s)) x"
  shows "\<exists>rv'. IntersectNumericExpressions s c1 c2 rv False = Inr rv' \<and> plain_flags rv' \<and> same_values rv' rv
    \<and> (multifieldsAllowed rv' \<longrightarrow> multifieldsAllowed rv)
    \<and> minValue rv' = minValue rv \<and> maxValue rv' = maxValue rv
    \<and> (\<exists>m x. minFields rv' = [m] \<and> maxFields rv' = [x] \<and> bound_ok s (NegativeInfinity (atom_data s)) m
          \<and> bound_ok s (PositiveInfinity (atom_data s)) x)
    \<and> ((\<forall>t. allows rv' t = allows rv t) \<and> multifieldsAllowed rv' = multifieldsAllowed rv \<and> \<not> fields_apart s c1 c2
         \<and> (\<forall>n. \<bar>n\<bar> < 2 ^ 63 \<longrightarrow> (admits_number s rv' n \<longleftrightarrow> admits_number s c1 n \<and> admits_number s c2 n))
       \<or> (\<forall>t. t \<noteq> MULTIFIELD \<longrightarrow> \<not> allows rv' t) \<and> fields_apart s c1 c2
         \<and> minFields rv' = minFields rv \<and> maxFields rv' = maxFields rv
         \<and> (\<forall>n. \<bar>n\<bar> < 2 ^ 63 \<longrightarrow> \<not> (admits_number s c1 n \<and> admits_number s c2 n)))"
proof -
  have pn: "PositiveInfinity (atom_data s) \<noteq> NegativeInfinity (atom_data s)" using assms(1) by (simp add: numbers_apart_def)
  obtain l1 h1 l2 h2 where n: "number_at s (expr_type m1) (expr_value m1) l1" "number_at s (expr_type x1) (expr_value x1) h1"
      "number_at s (expr_type m2) (expr_value m2) l2" "number_at s (expr_type x2) (expr_value x2) h2"
    using bound_number [OF f1(3)] bound_number [OF f1(4)] bound_number [OF f2(3)] bound_number [OF f2(4)] by auto
  note v1 = field_bound_values [OF pn _ f1 n(1,2)]
  note v2 = field_bound_values [OF pn _ f2 n(3,4)]
  note cmp = numbers_ordered [OF assms(1)]
  have apart: "fields_apart s c1 c2 \<longleftrightarrow> h1 < l2 \<or> h2 < l1"
    unfolding fields_apart_def fields_below_values [OF pn f1(2,4) n(2) f2(1,3) n(3)] fields_below_values [OF pn f2(2,4) n(4) f1(1,3) n(1)] ..
  show ?thesis
  proof (cases "h1 < l2 \<or> h2 < l1")
    case True
    define rv' where "rv' = set_ranges False [] rv"
    have "IntersectNumericExpressions s c1 c2 rv False = Inr rv'"
      using True by (simp add: IntersectNumericExpressions_def f1(1,2) f2(1,2) cmp [OF n(2,4)] cmp [OF n(1,3)] cmp [OF n(2,3)]
        cmp [OF n(1,4)] rv'_def)
    moreover have "plain_flags rv'" "same_values rv' rv" "minValue rv' = minValue rv" "maxValue rv' = maxValue rv"
        "minFields rv' = [m]" "maxFields rv' = [x]"
      using f by (simp_all add: rv'_def set_ranges_def plain_flags_def same_values_def restricted_def SetAnyAllowedFlags_def)
    moreover have "\<not> allows rv' t" if "t \<noteq> MULTIFIELD" for t
      using that by (cases t) (simp_all add: rv'_def set_ranges_def allows_def type_flag_def SetAnyAllowedFlags_def)
    moreover have "\<not> (admits_number s c1 n \<and> admits_number s c2 n)" if "\<bar>n\<bar> < 2 ^ 63" for n
      using v1 [OF that] v2 [OF that] True by auto
    moreover have "\<not> multifieldsAllowed rv'" by (simp add: rv'_def set_ranges_def)
    ultimately show ?thesis using f True apart by auto
  next
    case False
    define lo where "lo = (if l2 < l1 then m1 else m2)"
    define hi where "hi = (if h1 < h2 then x1 else x2)"
    define found where "found = [(GenConstant (expr_type lo) (expr_value lo), GenConstant (expr_type hi) (expr_value hi))]"
    define rv' where "rv' = set_ranges False found rv"
    have "IntersectNumericExpressions s c1 c2 rv False = Inr rv'"
      using False by (simp add: IntersectNumericExpressions_def f1(1,2) f2(1,2) cmp [OF n(2,4)] cmp [OF n(1,3)] cmp [OF n(2,3)]
        cmp [OF n(1,4)] rv'_def found_def lo_def hi_def Let_def)
    moreover have fl: "plain_flags rv'" "same_values rv' rv" "minValue rv' = minValue rv" "maxValue rv' = maxValue rv"
        "minFields rv' = [GenConstant (expr_type lo) (expr_value lo)]" "maxFields rv' = [GenConstant (expr_type hi) (expr_value hi)]"
        "\<And>t. allows rv' t = allows rv t"
      using assms(2) by (simp_all add: rv'_def set_ranges_def plain_flags_def same_values_def restricted_def found_def
        allows_def type_flag_def split: fieldType.split)
    moreover have b: "bound_ok s (NegativeInfinity (atom_data s)) (GenConstant (expr_type lo) (expr_value lo))"
        "bound_ok s (PositiveInfinity (atom_data s)) (GenConstant (expr_type hi) (expr_value hi))"
      using f1 f2 by (simp_all add: lo_def hi_def)
    moreover have "admits_number s rv' k \<longleftrightarrow> admits_number s c1 k \<and> admits_number s c2 k" if "\<bar>k\<bar> < 2 ^ 63" for k
    proof -
      have "number_at s (expr_type (GenConstant (expr_type lo) (expr_value lo))) (expr_value (GenConstant (expr_type lo) (expr_value lo))) (max l1 l2)"
        "number_at s (expr_type (GenConstant (expr_type hi) (expr_value hi))) (expr_value (GenConstant (expr_type hi) (expr_value hi))) (min h1 h2)"
        using n by (simp_all add: lo_def hi_def max_def min_def)
      from field_bound_values [OF pn that fl(5,6) b this] show ?thesis using v1 [OF that] v2 [OF that] by auto
    qed
    moreover have "multifieldsAllowed rv' = multifieldsAllowed rv" by (simp add: rv'_def set_ranges_def found_def)
    moreover have "\<not> fields_apart s c1 c2" using False apart by simp
    ultimately show ?thesis by auto
  qed
qed

section \<open>Intersection of a level\<close>

lemma new_record:
  assumes "constants_ok s"
  shows "\<exists>rv m x. GetConstraintRecord s = Inr rv \<and> plain_flags rv \<and> anyAllowed rv \<and> \<not> anyRestriction rv
    \<and> \<not> symbolRestriction rv \<and> \<not> stringRestriction rv \<and> \<not> floatRestriction rv \<and> \<not> integerRestriction rv
    \<and> \<not> instanceNameRestriction rv \<and> ranges_at s (minValue rv) (maxValue rv) [(- (2 ^ 2200), 2 ^ 2200)]
    \<and> minFields rv = [m] \<and> maxFields rv = [x] \<and> bound_ok s (NegativeInfinity (atom_data s)) m
    \<and> bound_ok s (PositiveInfinity (atom_data s)) x \<and> classList rv = [] \<and> restrictionList rv = [] \<and> admits_number s rv 0"
  using assms
  by (auto simp: constants_ok_def numbers_apart_def GetConstraintRecord_def plain_flags_def number_at_def bound_ok_def
      admits_number_def field_low_def field_high_def field_bound_def)

lemma same_values_trans: "same_values c d \<Longrightarrow> same_values d e \<Longrightarrow> same_values c e"
  by (simp add: same_values_def)

lemma level_ok_alt: "level_ok s c \<longleftrightarrow> plain_flags c \<and> classes_ok s (classList c)
    \<and> (\<exists>rs. ranges_at s (minValue c) (maxValue c) rs)
    \<and> (\<exists>m x. minFields c = [m] \<and> maxFields c = [x] \<and> bound_ok s (NegativeInfinity (atom_data s)) m
          \<and> bound_ok s (PositiveInfinity (atom_data s)) x)"
  by (simp add: level_ok_def classes_ok_def)

lemma admits_alt: "admits y s c t v \<longleftrightarrow> t \<noteq> RVOID \<and> allows c t \<and> value_allowed c t v
    \<and> in_allowed_classes y s t v (classList c) \<and> in_value_range s c t v"
  by (simp add: admits_def allows_def value_allowed_def in_value_range_def)

lemma allows_other [simp]:
  "allows (intersect_restrictions c1 c2 rv) t = allows rv t" "allows (rv\<lparr>restrictionList := xs\<rparr>) t = allows rv t"
  "allows (rv\<lparr>classList := xs\<rparr>) t = allows rv t"
  by (simp_all add: allows_def type_flag_def intersect_restrictions_def split: fieldType.split)

lemma plain_flags_other [simp]:
  "plain_flags (intersect_restrictions c1 c2 rv) = plain_flags rv" "plain_flags (rv\<lparr>restrictionList := xs\<rparr>) = plain_flags rv"
  "plain_flags (rv\<lparr>classList := xs\<rparr>) = plain_flags rv"
  by (simp_all add: plain_flags_def intersect_restrictions_def)

lemma restricted_other [simp]:
  "restricted t (rv\<lparr>restrictionList := xs\<rparr>) = restricted t rv" "restricted t (rv\<lparr>classList := xs\<rparr>) = restricted t rv"
  by (simp_all add: restricted_def)

lemma level_intersected:
  assumes "constants_ok s" "level_ok s c1" "level_ok s c2"
  shows "\<exists>rv. intersect_level y s c1 c2 = Inr (rv, c1, c2) \<and> level_ok s rv
    \<and> (multifieldsAllowed rv \<longrightarrow> multifieldsAllowed c1 \<and> multifieldsAllowed c2)
    \<and> (\<forall>t. t \<noteq> MULTIFIELD \<and> allows rv t \<longrightarrow> allows c1 t \<and> allows c2 t)
    \<and> (\<forall>n. \<bar>n\<bar> < 2 ^ 63 \<and> admits_number s c1 n \<and> admits_number s c2 n \<longrightarrow>
          multifieldsAllowed rv = (multifieldsAllowed c1 \<and> multifieldsAllowed c2)
          \<and> (\<not> anyRestriction c1 \<and> \<not> anyRestriction c2 \<and> allows c1 RVOID \<and> allows c2 RVOID \<longrightarrow> allows rv RVOID))
    \<and> (admits_number s rv 0 \<longleftrightarrow> admits_number s c1 0 \<and> admits_number s c2 0 \<or> fields_apart s c1 c2)
    \<and> (\<forall>t v n. (classList c1 = [] \<or> classList c2 = []) \<and> t \<noteq> MULTIFIELD
          \<and> (atom_type t \<or> \<not> anyRestriction c1 \<and> \<not> anyRestriction c2)
          \<and> (is_number t \<longrightarrow> (\<exists>a. number_at s (Constant t) v a)) \<and> \<bar>n\<bar> < 2 ^ 63 \<longrightarrow>
        (admits y s rv t v \<and> admits_number s rv n
         \<longleftrightarrow> (admits y s c1 t v \<and> admits_number s c1 n) \<and> admits y s c2 t v \<and> admits_number s c2 n))"
proof -
  have ap: "numbers_apart s" using assms(1) by (simp add: constants_ok_def)
  obtain rv0 m0 x0 where r0: "GetConstraintRecord s = Inr rv0" "plain_flags rv0" "anyAllowed rv0" "\<not> anyRestriction rv0"
      "\<not> symbolRestriction rv0" "\<not> stringRestriction rv0" "\<not> floatRestriction rv0" "\<not> integerRestriction rv0"
      "\<not> instanceNameRestriction rv0" "ranges_at s (minValue rv0) (maxValue rv0) [(- (2 ^ 2200), 2 ^ 2200)]"
      "minFields rv0 = [m0]" "maxFields rv0 = [x0]" "bound_ok s (NegativeInfinity (atom_data s)) m0"
      "bound_ok s (PositiveInfinity (atom_data s)) x0" "admits_number s rv0 0" using new_record [OF assms(1)] by blast
  obtain rs1 m1 x1 where c1: "plain_flags c1" "classes_ok s (classList c1)" "ranges_at s (minValue c1) (maxValue c1) rs1"
      "minFields c1 = [m1]" "maxFields c1 = [x1]" "bound_ok s (NegativeInfinity (atom_data s)) m1"
      "bound_ok s (PositiveInfinity (atom_data s)) x1" using assms(2) by (auto simp: level_ok_alt)
  obtain rs2 m2 x2 where c2: "plain_flags c2" "classes_ok s (classList c2)" "ranges_at s (minValue c2) (maxValue c2) rs2"
      "minFields c2 = [m2]" "maxFields c2 = [x2]" "bound_ok s (NegativeInfinity (atom_data s)) m2"
      "bound_ok s (PositiveInfinity (atom_data s)) x2" using assms(3) by (auto simp: level_ok_alt)
  obtain rvA where A: "intersect_types c1 c2 rv0 = (rvA, c1, c2)" "plain_flags rvA" "same_rest rvA rv0"
      "multifieldsAllowed rvA = (multifieldsAllowed c1 \<and> multifieldsAllowed c2)"
      "\<forall>t. t \<noteq> MULTIFIELD \<longrightarrow> (allows rvA t \<longleftrightarrow> allows c1 t \<and> allows c2 t)"
    using types_intersected [OF c1(1) c2(1) r0(2,3)] by blast
  have restr0: "\<not> symbolRestriction rvA \<and> \<not> stringRestriction rvA \<and> \<not> floatRestriction rvA
      \<and> \<not> integerRestriction rvA \<and> \<not> instanceNameRestriction rvA"
  proof -
    have "\<not> restricted t rv0" for t using r0(4-9) by (simp add: restricted_def)
    then have n: "\<not> restricted (Constant t) rvA" for t using A(3) by (simp add: same_rest_def)
    show ?thesis
      using n [of SYMBOL] n [of STRING] n [of FLOAT] n [of INTEGER] n [of INSTANCE_NAME] by (simp add: restricted_def)
  qed
  define rvB where "rvB = intersect_restrictions c1 c2 rvA"
  have restrB: "anyRestriction rvB \<longleftrightarrow> anyRestriction c1 \<or> anyRestriction c2"
    "anyRestriction rvB \<longrightarrow> \<not> symbolRestriction rvB \<and> \<not> stringRestriction rvB \<and> \<not> floatRestriction rvB
      \<and> \<not> integerRestriction rvB \<and> \<not> instanceNameRestriction rvB"
    using restr0 by (auto simp: rvB_def intersect_restrictions_def)
  have restB: "classList rvB = classList rvA" "minValue rvB = minValue rvA" "maxValue rvB = maxValue rvA"
    "minFields rvB = minFields rvA" "maxFields rvB = maxFields rvA"
    by (simp_all add: rvB_def intersect_restrictions_def)
  obtain hv where C: "IntersectAllowedValueExpressions c1 c2 rvB = Inr (rvB\<lparr>restrictionList := hv\<rparr>)"
      "\<forall>t v. value_allowed (rvB\<lparr>restrictionList := hv\<rparr>) t v \<longleftrightarrow> value_allowed c1 t v \<and> value_allowed c2 t v"
    using values_intersected [of rvB c1 c2] restrictions_intersected [of _ c1 c2 rvA] unfolding rvB_def by blast
  define rvC where "rvC = rvB\<lparr>restrictionList := hv\<rparr>"
  obtain hc where D: "IntersectAllowedClassExpressions y s c1 c2 rvC = Inr (rvC\<lparr>classList := hc\<rparr>)" "classes_ok s hc"
      "\<forall>v. v \<in> expr_value ` set hc \<longleftrightarrow> v \<in> expr_value ` (set (classList c1) \<union> set (classList c2))"
    using classes_intersected [OF c1(2) c2(2)] by blast
  define rvD where "rvD = rvC\<lparr>classList := hc\<rparr>"
  have restD: "minValue rvD = minValue rv0" "maxValue rvD = maxValue rv0" "minFields rvD = minFields rv0"
    "maxFields rvD = maxFields rv0" "classList rvD = hc" "restrictionList rvD = hv"
    using A(3) restB by (simp_all add: rvD_def rvC_def same_rest_def)
  have plainD: "plain_flags rvD" using A(2) by (simp add: rvD_def rvC_def rvB_def)
  have rD: "ranges_at s (minValue rvD) (maxValue rvD) [(- (2 ^ 2200), 2 ^ 2200)]" using r0(10) restD by simp
  obtain rvE where E: "IntersectNumericExpressions s c1 c2 rvD True = Inr rvE" "plain_flags rvE" "same_values rvE rvD"
      "minFields rvE = minFields rvD" "maxFields rvE = maxFields rvD" "\<exists>rs'. ranges_at s (minValue rvE) (maxValue rvE) rs'"
      "\<forall>t v. t \<noteq> MULTIFIELD \<and> (is_number t \<longrightarrow> (\<exists>a. number_at s (Constant t) v a)) \<longrightarrow>
        (allows rvE t \<and> in_value_range s rvE t v \<longleftrightarrow> allows rvD t \<and> in_value_range s c1 t v \<and> in_value_range s c2 t v)"
      "multifieldsAllowed rvE = multifieldsAllowed rvD" "\<forall>t. t \<noteq> MULTIFIELD \<and> allows rvE t \<longrightarrow> allows rvD t"
    using value_ranges_intersected [OF ap c1(3) c2(3) rD plainD] by blast
  obtain rvF where F: "IntersectNumericExpressions s c1 c2 rvE False = Inr rvF" "plain_flags rvF" "same_values rvF rvE"
      "minValue rvF = minValue rvE" "maxValue rvF = maxValue rvE"
      "\<exists>m x. minFields rvF = [m] \<and> maxFields rvF = [x] \<and> bound_ok s (NegativeInfinity (atom_data s)) m
          \<and> bound_ok s (PositiveInfinity (atom_data s)) x"
      "(\<forall>t. allows rvF t = allows rvE t) \<and> multifieldsAllowed rvF = multifieldsAllowed rvE \<and> \<not> fields_apart s c1 c2
         \<and> (\<forall>n. \<bar>n\<bar> < 2 ^ 63 \<longrightarrow> (admits_number s rvF n \<longleftrightarrow> admits_number s c1 n \<and> admits_number s c2 n))
       \<or> (\<forall>t. t \<noteq> MULTIFIELD \<longrightarrow> \<not> allows rvF t) \<and> fields_apart s c1 c2
         \<and> minFields rvF = minFields rvE \<and> maxFields rvF = maxFields rvE
         \<and> (\<forall>n. \<bar>n\<bar> < 2 ^ 63 \<longrightarrow> \<not> (admits_number s c1 n \<and> admits_number s c2 n))"
      "multifieldsAllowed rvF \<longrightarrow> multifieldsAllowed rvE"
    using fields_intersected [OF ap E(2) c1(4-7) c2(4-7), of m0 x0] E(4,5) restD r0(11-14) by metis
  define rv where "rv = UpdateRestrictionFlags rvF"
  have sv: "same_values rvF rvD" using F(3) E(3) by (rule same_values_trans)
  have restrF: "\<forall>t. anyRestriction rvF \<longrightarrow> \<not> symbolRestriction rvF \<and> \<not> stringRestriction rvF \<and> \<not> floatRestriction rvF
    \<and> \<not> integerRestriction rvF \<and> \<not> instanceNameRestriction rvF"
    using sv restrB(2) by (simp add: same_values_def rvD_def rvC_def)
  have G: "plain_flags rv" "same_rest rv rvF" "multifieldsAllowed rv = multifieldsAllowed rvF"
    unfolding rv_def by (rule flags_updated [OF restrF F(2)])+
  have shrink: "allows c1 t \<and> allows c2 t" if "t \<noteq> MULTIFIELD" "allows rv t" for t
  proof -
    have "allows rvF t"
      using that flags_updated(1) [OF restrF F(2) that(1)] by (auto simp: rv_def flags_left_def allows_def)
    then have "allows rvE t" using F(7) that(1) by auto
    then have "allows rvD t" using E(9) that(1) by blast
    then show ?thesis using A(5) that(1) by (simp add: rvD_def rvC_def rvB_def)
  qed
  have multi: "multifieldsAllowed c1 \<and> multifieldsAllowed c2" if "multifieldsAllowed rv"
  proof -
    have "multifieldsAllowed rvD" using that G(3) F(8) E(8) by simp
    moreover have "multifieldsAllowed rvD = multifieldsAllowed rvA"
      by (simp add: rvD_def rvC_def rvB_def intersect_restrictions_def)
    ultimately show ?thesis using A(4) by simp
  qed
  have "intersect_level y s c1 c2 = Inr (rv, c1, c2)"
    by (simp add: intersect_level_def r0(1) A(1) rvB_def [symmetric] C(1) rvC_def [symmetric] D(1) rvD_def [symmetric] E(1) F(1) rv_def)
  moreover have "level_ok s rv"
    using G F(4-6) E(6) D(2) sv by (auto simp: level_ok_alt same_rest_def same_values_def restD)
  moreover have "admits y s rv t v \<and> admits_number s rv n
      \<longleftrightarrow> (admits y s c1 t v \<and> admits_number s c1 n) \<and> admits y s c2 t v \<and> admits_number s c2 n"
    if cl: "classList c1 = [] \<or> classList c2 = []" and t: "t \<noteq> MULTIFIELD"
      and a: "atom_type t \<or> \<not> anyRestriction c1 \<and> \<not> anyRestriction c2"
      and num: "is_number t \<longrightarrow> (\<exists>a. number_at s (Constant t) v a)" and n: "\<bar>n\<bar> < 2 ^ 63" for t v n
  proof (cases "t = RVOID")
    case False
    have classes: "in_allowed_classes y s t v (classList rv)
        \<longleftrightarrow> in_allowed_classes y s t v (classList c1) \<and> in_allowed_classes y s t v (classList c2)"
    proof -
      have "classList rv = hc" using G(2) sv restD(5) by (simp add: same_rest_def same_values_def)
      moreover have "expr_value ` set hc = expr_value ` set (classList c1 @ classList c2)" using D(3) by auto
      then have "in_allowed_classes y s t v hc \<longleftrightarrow> in_allowed_classes y s t v (classList c1 @ classList c2)"
        by (rule allowed_classes_cong)
      ultimately show ?thesis using cl by auto
    qed
    have any: "anyRestriction rvF \<longleftrightarrow> anyRestriction c1 \<or> anyRestriction c2"
      using sv restrB(1) by (simp add: same_values_def rvD_def rvC_def)
    have "allows rv t \<and> value_allowed rv t v \<longleftrightarrow> allows rvF t \<and> value_allowed rvF t v"
      unfolding rv_def by (rule update_keeps_values [OF restrF F(2) t]) (use a any in auto)
    moreover have "value_allowed rvF t v \<longleftrightarrow> value_allowed c1 t v \<and> value_allowed c2 t v"
    proof -
      have "value_allowed rvF t v \<longleftrightarrow> value_allowed rvC t v"
        using sv by (simp add: value_allowed_def same_values_def rvD_def)
      then show ?thesis using C(2) by (simp add: rvC_def)
    qed
    moreover have "in_value_range s rv t v \<longleftrightarrow> in_value_range s rvE t v"
      using G(2) F(4,5) by (simp add: in_value_range_def same_rest_def)
    moreover have "allows rvD t \<longleftrightarrow> allows c1 t \<and> allows c2 t"
      using A(5) t by (simp add: rvD_def rvC_def rvB_def)
    moreover have "allows rvE t \<and> in_value_range s rvE t v \<longleftrightarrow> allows rvD t \<and> in_value_range s c1 t v \<and> in_value_range s c2 t v"
      using E(7) t False num by blast
    moreover have "admits_number s rv n \<longleftrightarrow> admits_number s rvF n"
      using G(2) by (simp add: admits_number_def field_low_def field_high_def same_rest_def)
    ultimately show ?thesis
      using F(7) t n False classes unfolding admits_alt by auto
  qed (simp add: admits_alt)
  moreover have "multifieldsAllowed rv = (multifieldsAllowed c1 \<and> multifieldsAllowed c2)
      \<and> (\<not> anyRestriction c1 \<and> \<not> anyRestriction c2 \<and> allows c1 RVOID \<and> allows c2 RVOID \<longrightarrow> allows rv RVOID)"
    if "\<bar>n\<bar> < 2 ^ 63 \<and> admits_number s c1 n \<and> admits_number s c2 n" for n
  proof -
    have f: "\<forall>t. allows rvF t = allows rvE t" "multifieldsAllowed rvF = multifieldsAllowed rvE" using F(7) that by blast+
    have "multifieldsAllowed rvD = (multifieldsAllowed c1 \<and> multifieldsAllowed c2)"
      using A(4) by (simp add: rvD_def rvC_def rvB_def intersect_restrictions_def)
    then have "multifieldsAllowed rv = (multifieldsAllowed c1 \<and> multifieldsAllowed c2)" using G(3) f(2) E(8) by simp
    moreover have "allows rv RVOID" if n: "\<not> anyRestriction c1" "\<not> anyRestriction c2" "allows c1 RVOID" "allows c2 RVOID"
    proof -
      have "allows rvD RVOID" using A(5) n by (simp add: rvD_def rvC_def rvB_def)
      then have "allows rvF RVOID"
        using E(7) f(1) by (auto simp: in_value_range_def is_number_def)
      moreover have "\<not> anyRestriction rvF" using sv restrB(1) n by (simp add: same_values_def rvD_def rvC_def)
      ultimately show ?thesis
        using flags_updated(1) [OF restrF F(2), of RVOID] by (auto simp: rv_def flags_left_def allows_def atom_type_def)
    qed
    ultimately show ?thesis by blast
  qed
  moreover have "admits_number s rv 0 \<longleftrightarrow> admits_number s c1 0 \<and> admits_number s c2 0 \<or> fields_apart s c1 c2"
  proof -
    have rvF: "admits_number s rv 0 \<longleftrightarrow> admits_number s rvF 0"
      using G(2) by (simp add: admits_number_def field_low_def field_high_def same_rest_def)
    from F(7) show ?thesis
    proof (elim disjE conjE)
      assume "\<not> fields_apart s c1 c2"
        "\<forall>n. \<bar>n\<bar> < 2 ^ 63 \<longrightarrow> (admits_number s rvF n \<longleftrightarrow> admits_number s c1 n \<and> admits_number s c2 n)"
      then show ?thesis unfolding rvF by simp
    next
      assume a: "fields_apart s c1 c2" "minFields rvF = minFields rvE" "maxFields rvF = maxFields rvE"
      then have "minFields rvF = minFields rv0" "maxFields rvF = maxFields rv0" using E(4,5) restD by simp_all
      then have "admits_number s rvF 0" using r0(15) by (simp add: admits_number_def field_low_def field_high_def)
      then show ?thesis using a(1) rvF by simp
    qed
  qed
  ultimately show ?thesis using shrink multi by blast
qed

section \<open>Values and constraints\<close>

definition satisfies :: "system \<Rightarrow> machine \<Rightarrow> constraintRecord \<Rightarrow> dataObject \<Rightarrow> bool" where
  "satisfies y st r d \<longleftrightarrow> ConstraintCheckDataObject y d (Some (level r)) st = Inr NO_VIOLATION"

definition numbers_known :: "scan \<Rightarrow> field list \<Rightarrow> bool" where
  "numbers_known s fs \<longleftrightarrow> (\<forall>f \<in> set fs. field_type f \<noteq> MULTIFIELD \<and>
     (is_number (field_type f) \<longrightarrow> (\<exists>a. number_at s (Constant (field_type f)) (field_value f) a)))"

lemma fields_checked:
  assumes "numbers_apart (scanner st)" "level_ok (scanner st) c" "numbers_known (scanner st) fs"
    and "fields_of (length fs) p i st = Inr fs"
  shows "\<exists>r. check_fields y (length fs) p i (Some c) st = Inr r
    \<and> (r = NO_VIOLATION \<longleftrightarrow> (\<forall>f \<in> set fs. admits y (scanner st) c (field_type f) (field_value f)))"
  using assms(3,4)
proof (induction fs arbitrary: i)
  case (Cons f fs)
  from Cons.prems(2) have f: "get_field p i st = Inr f" "fields_of (length fs) p (i + 1) st = Inr fs"
    by (auto simp: bind_res_eq_Inr)
  obtain r where r: "ConstraintCheckValue y (scanner st) (Constant (field_type f)) (field_value f) (Some c) = Inr r"
      "r = NO_VIOLATION \<longleftrightarrow> admits y (scanner st) c (field_type f) (field_value f)"
    using value_checked [OF assms(1,2), of "field_type f" "field_value f" y] Cons.prems(1) by (auto simp: numbers_known_def)
  obtain q where "check_fields y (length fs) p (i + 1) (Some c) st = Inr q"
      "q = NO_VIOLATION \<longleftrightarrow> (\<forall>f \<in> set fs. admits y (scanner st) c (field_type f) (field_value f))"
    using Cons.IH [OF _ f(2)] Cons.prems(1) by (auto simp: numbers_known_def)
  then show ?case using f r by (cases "r = NO_VIOLATION") auto
qed simp

lemma data_checked:
  assumes "numbers_apart (scanner st)" "level_ok (scanner st) c" "content d st fs" "numbers_known (scanner st) fs"
  shows "\<exists>r. ConstraintCheckDataObject y d (Some c) st = Inr r \<and> (r = NO_VIOLATION
    \<longleftrightarrow> admits_number (scanner st) c (int (length fs)) \<and> (\<forall>f \<in> set fs. admits y (scanner st) c (field_type f) (field_value f)))"
proof (cases "do_type d = MULTIFIELD")
  case True
  then have d: "GetDOLength d = int (length fs)" "fields_of (length fs) (do_value d) (do_begin d) st = Inr fs"
    using assms(3) by (auto simp: content_def value_fields_def)
  show ?thesis
    using fields_checked [OF assms(1,2,4) d(2), of y] True d(1) cardinality_checked [OF assms(2)]
    by (auto simp: ConstraintCheckDataObject_def)
next
  case False
  then have "fs = [\<lparr>field_type = do_type d, field_value = do_value d\<rparr>]" using assms(3) by (simp add: content_def)
  then show ?thesis
    using value_checked [OF assms(1,2), of "do_type d" "do_value d" y] assms(4) False cardinality_checked [OF assms(2)]
    by (auto simp: ConstraintCheckDataObject_def numbers_known_def)
qed

lemma record_level: "record_ok s r \<Longrightarrow> level_ok s (level r)"
  by (cases r) simp

lemma multifields_unset [simp]:
  "level_ok s (c\<lparr>multifieldsAllowed := b\<rparr>) = level_ok s c" "admits y s (c\<lparr>multifieldsAllowed := b\<rparr>) t v = admits y s c t v"
  "admits_number s (c\<lparr>multifieldsAllowed := b\<rparr>) n = admits_number s c n"
  by (simp_all add: level_ok_def plain_flags_def admits_def type_flag_def restricted_def admits_number_def field_low_def
      field_high_def split: fieldType.split)

lemma new_record_ok: "constants_ok s \<Longrightarrow> \<exists>rv. GetConstraintRecord s = Inr rv \<and> level_ok s rv \<and> level_ok s (rv\<lparr>anyAllowed := False\<rparr>)"
proof -
  assume "constants_ok s"
  then obtain rv m x where r: "GetConstraintRecord s = Inr rv" "plain_flags rv" "ranges_at s (minValue rv) (maxValue rv) [(- (2 ^ 2200), 2 ^ 2200)]"
      "minFields rv = [m]" "maxFields rv = [x]" "bound_ok s (NegativeInfinity (atom_data s)) m"
      "bound_ok s (PositiveInfinity (atom_data s)) x" "classList rv = []" using new_record by blast
  have "plain_flags (rv\<lparr>anyAllowed := False\<rparr>)" by (simp add: plain_flags_def)
  with r show ?thesis unfolding level_ok_alt by (auto simp: classes_ok_def)
qed

lemma records_intersected:
  assumes "constants_ok s" "\<forall>r \<in> set_option c1. record_ok s r" "\<forall>r \<in> set_option c2. record_ok s r"
  shows "\<exists>r. IntersectConstraints y s c1 c2 = Inr (r, c1, c2) \<and> record_ok s r"
  using assms
proof (induction y s c1 c2 rule: IntersectConstraints.induct)
  case (1 y s)
  then show ?case using new_record_ok [of s] by auto
next
  case (4 y s c1 m1 c2 m2)
  have l: "level_ok s c1" "level_ok s c2" using 4 by simp_all
  obtain rv0 where r0: "GetConstraintRecord s = Inr rv0" "level_ok s (rv0\<lparr>anyAllowed := False\<rparr>)"
    using new_record_ok [OF 4(2)] by blast
  obtain rv where rv: "intersect_level y s c1 c2 = Inr (rv, c1, c2)" "level_ok s rv"
    using level_intersected [OF 4(2) l, of y] by blast
  show ?case
  proof (cases "fields_differ c1 c2 \<or> \<not> multifieldsAllowed rv")
    case True
    then show ?thesis using r0 rv by auto
  next
    case False
    have "\<exists>r. IntersectConstraints y s m1 m2 = Inr (r, m1, m2) \<and> record_ok s r"
      using 4(1) [of "(rv, c1, c2)" rv "(c1, c2)" c1 c2] False rv 4(2-4) by (auto split: option.splits)
    then show ?thesis using False rv by auto
  qed
qed auto

text \<open>C4: The intersection of two constraint records accepts a value exactly if both of them do: types, values, ranges,
  classes and numbers of fields are taken together, single values and multifields alike, and the two records are left as
  they were. The one exception is the empty multifield: if no number of fields lies between the bounds of both records, the
  intersection keeps the bounds of a new record and accepts it, although one of the two refuses it. The records do not
  differ in both multifield flags, at most one of them names classes, and values that are no atoms are only checked
  against records without a list for all types. Integers are those that a double can stand for, up to $2^{53}$.\<close>

theorem constraints_intersected:
  assumes "constants_ok (scanner st)" "record_ok (scanner st) (Constraint c1 m1)" "record_ok (scanner st) (Constraint c2 m2)"
    and "\<not> fields_differ c1 c2" "classList c1 = [] \<or> classList c2 = []"
    and "content d st fs" "numbers_known (scanner st) fs" "length fs < 2 ^ 63"
    and "(\<forall>f \<in> set fs. atom_type (field_type f)) \<or> \<not> anyRestriction c1 \<and> \<not> anyRestriction c2"
  shows "\<exists>r. IntersectConstraints y (scanner st) (Some (Constraint c1 m1)) (Some (Constraint c2 m2))
      = Inr (r, Some (Constraint c1 m1), Some (Constraint c2 m2)) \<and> record_ok (scanner st) r
    \<and> (satisfies y st r d \<longleftrightarrow> satisfies y st (Constraint c1 m1) d \<and> satisfies y st (Constraint c2 m2) d
         \<or> fs = [] \<and> fields_apart (scanner st) c1 c2)"
proof -
  let ?s = "scanner st"
  have l: "level_ok ?s c1" "level_ok ?s c2" using assms(2,3) by simp_all
  have ap: "numbers_apart ?s" using assms(1) by (simp add: constants_ok_def)
  obtain r where r: "IntersectConstraints y ?s (Some (Constraint c1 m1)) (Some (Constraint c2 m2))
      = Inr (r, Some (Constraint c1 m1), Some (Constraint c2 m2))" "record_ok ?s r"
    using records_intersected [OF assms(1), of "Some (Constraint c1 m1)" "Some (Constraint c2 m2)" y] assms(2,3) by auto
  obtain rv where rv: "intersect_level y ?s c1 c2 = Inr (rv, c1, c2)"
      "admits_number ?s rv 0 \<longleftrightarrow> admits_number ?s c1 0 \<and> admits_number ?s c2 0 \<or> fields_apart ?s c1 c2"
      "\<forall>t v n. (classList c1 = [] \<or> classList c2 = []) \<and> t \<noteq> MULTIFIELD
          \<and> (atom_type t \<or> \<not> anyRestriction c1 \<and> \<not> anyRestriction c2)
          \<and> (is_number t \<longrightarrow> (\<exists>a. number_at ?s (Constant t) v a)) \<and> \<bar>n\<bar> < 2 ^ 63 \<longrightarrow>
        (admits y ?s rv t v \<and> admits_number ?s rv n
         \<longleftrightarrow> (admits y ?s c1 t v \<and> admits_number ?s c1 n) \<and> admits y ?s c2 t v \<and> admits_number ?s c2 n)"
    using level_intersected [OF assms(1) l, of y] by blast
  have lr: "\<exists>b. level r = rv\<lparr>multifieldsAllowed := b\<rparr>"
  proof (cases "multifieldsAllowed rv")
    case True
    then obtain m where "r = Constraint (if UnmatchableConstraint (Some (level m)) then rv\<lparr>multifieldsAllowed := False\<rparr> else rv) (Some m)"
      using r(1) assms(4) rv(1) by (auto simp: bind_res_eq_Inr)
    moreover have "rv = rv\<lparr>multifieldsAllowed := True\<rparr>" using True by simp
    ultimately show ?thesis by (metis constraintRecord.sel(1))
  next
    case False
    then have "r = Constraint rv None" using r(1) assms(4) rv(1) by simp
    moreover have "rv = rv\<lparr>multifieldsAllowed := False\<rparr>" using False by simp
    ultimately show ?thesis by (metis constraintRecord.sel(1))
  qed
  have n: "\<bar>int (length fs)\<bar> < 2 ^ 63" using assms(8) by simp
  have sat: "satisfies y st q d \<longleftrightarrow> admits_number ?s (level q) (int (length fs))
      \<and> (\<forall>f \<in> set fs. admits y ?s (level q) (field_type f) (field_value f))" if "record_ok ?s q" for q
    using data_checked [OF ap record_level [OF that] assms(6,7), of y] unfolding satisfies_def by auto
  have "admits y ?s (level r) (field_type f) (field_value f) \<and> admits_number ?s (level r) (int (length fs))
      \<longleftrightarrow> (admits y ?s c1 (field_type f) (field_value f) \<and> admits_number ?s c1 (int (length fs)))
        \<and> admits y ?s c2 (field_type f) (field_value f) \<and> admits_number ?s c2 (int (length fs))" if "f \<in> set fs" for f
    using rv(3) [rule_format, where t = "field_type f" and v = "field_value f" and n = "int (length fs)"] lr that assms(5,7,9) n
    by (auto simp: numbers_known_def)
  note fields = this
  have empty: "admits_number ?s (level r) 0 \<longleftrightarrow> admits_number ?s c1 0 \<and> admits_number ?s c2 0 \<or> fields_apart ?s c1 c2"
    using rv(2) lr by auto
  have "satisfies y st r d \<longleftrightarrow> satisfies y st (Constraint c1 m1) d \<and> satisfies y st (Constraint c2 m2) d
      \<or> fs = [] \<and> fields_apart ?s c1 c2"
  proof (cases "fs = []")
    case True
    then show ?thesis using empty unfolding sat [OF r(2)] sat [OF assms(2)] sat [OF assms(3)] by simp
  next
    case False
    then obtain f where "f \<in> set fs" by (cases fs) auto
    then show ?thesis using False fields unfolding sat [OF r(2)] sat [OF assms(2)] sat [OF assms(3)] by auto
  qed
  then show ?thesis using r by blast
qed

end
