(* ===== verification/ConstraintChecks.thy ===== *)
theory ConstraintChecks
  imports ConstraintMeaning
begin

text \<open>
  Checks and operations on constraint records: expressions are checked as the values are that they become, a constant is
  removed, arguments are compared with the type that a function accepts, and two records are united; with examples.
\<close>

section \<open>Chains of constants\<close>

lemma values_counted: "\<forall>f \<in> set fs. ConstantType (Constant (field_type f)) \<Longrightarrow>
    value_numbers y (map (\<lambda>f. GenConstant (Constant (field_type f)) (field_value f)) fs) least most = (least + int (length fs), most)"
  by (induction fs arbitrary: least) simp_all

lemma chain_fields:
  assumes "fields_of (length fs) p i st = Inr fs"
  shows "check_fields y (length fs) p i c st
    = check_chain y (scanner st) (map (\<lambda>f. GenConstant (Constant (field_type f)) (field_value f)) fs) c"
  using assms
proof (induction fs arbitrary: i)
  case (Cons f fs)
  from Cons.prems have f: "get_field p i st = Inr f" "fields_of (length fs) p (i + 1) st = Inr fs" by (auto simp: bind_res_eq_Inr)
  show ?case
    by (cases "ConstraintCheckValue y (scanner st) (Constant (field_type f)) (field_value f) c") (simp_all add: f(1) Cons.IH [OF f(2)])
qed simp

lemma cardinality_static:
  assumes "level_ok s c" "0 \<le> n"
  shows "CheckRangeAgainstCardinalityConstraint s n n (Some c) = Inr (admits_number s c n)"
  using assms(2) by (auto simp: CheckRangeAgainstCardinalityConstraint_def field_bounds [OF assms(1)] admits_number_def split: option.splits)

text \<open>C13: The check of a chain of constant expressions, which is made when a construct is read, gives the same answer as the
  check of the multifield value of those constants, which is made when it is used: the first violation, or none.\<close>

theorem chain_checked:
  assumes "value_fields d st fs" "\<forall>f \<in> set fs. ConstantType (Constant (field_type f))" "level_ok (scanner st) c"
  shows "ConstraintCheckExpressionChain y (scanner st) (map (\<lambda>f. GenConstant (Constant (field_type f)) (field_value f)) fs) (Some c)
    = ConstraintCheckDataObject y d (Some c) st"
proof -
  have d: "do_type d = MULTIFIELD" "GetDOLength d = int (length fs)" "fields_of (length fs) (do_value d) (do_begin d) st = Inr fs"
    using assms(1) by (auto simp: value_fields_def)
  show ?thesis
    unfolding ConstraintCheckExpressionChain_def ConstraintCheckDataObject_def values_counted [OF assms(2)] d(1,2)
    by (simp add: cardinality_static [OF assms(3)] cardinality_checked [OF assms(3)] chain_fields [OF d(3)])
qed

section \<open>Removing a value\<close>

definition restrictions_apart :: "constraintLevel \<Rightarrow> bool" where
  "restrictions_apart c \<longleftrightarrow> (anyRestriction c \<longrightarrow> \<not> symbolRestriction c \<and> \<not> stringRestriction c \<and> \<not> floatRestriction c
     \<and> \<not> integerRestriction c \<and> \<not> instanceNameRestriction c)"

text \<open>C18: Taking a constant out of a record takes away this value and no other: a value passes the new record exactly if it
  passed the old one and is not the constant of a restricted type. A type whose last value is gone is forbidden.\<close>

theorem constant_removed:
  assumes "numbers_apart s" "level_ok s c" "restrictions_apart c"
    and "u \<noteq> MULTIFIELD" "atom_type u \<or> \<not> anyRestriction c" "is_number u \<longrightarrow> (\<exists>a. number_at s (Constant u) w a)"
  shows "\<exists>c'. RemoveConstantFromConstraint (Constant t) v (Some c) = Some c' \<and> level_ok s c'
    \<and> (ConstraintCheckValue y s (Constant u) w (Some c') = Inr NO_VIOLATION
       \<longleftrightarrow> ConstraintCheckValue y s (Constant u) w (Some c) = Inr NO_VIOLATION
         \<and> \<not> (u = t \<and> w = v \<and> restricted (Constant t) c))"
proof -
  define b where "b = c\<lparr>restrictionList := filter (\<lambda>x. expr_type x \<noteq> Constant t \<or> expr_value x \<noteq> v) (restrictionList c)\<rparr>"
  define c' where "c' = UpdateRestrictionFlags b"
  have ra: "\<forall>t. anyRestriction b \<longrightarrow> \<not> symbolRestriction b \<and> \<not> stringRestriction b \<and> \<not> floatRestriction b
      \<and> \<not> integerRestriction b \<and> \<not> instanceNameRestriction b" using assms(3) by (simp add: restrictions_apart_def b_def)
  have pf: "plain_flags b" using assms(2) by (simp add: level_ok_alt b_def)
  note fl = flags_updated [OF ra pf]
  have rest: "classList c' = classList c" "minValue c' = minValue c" "maxValue c' = maxValue c" "minFields c' = minFields c"
    "maxFields c' = maxFields c"
    using fl(3) by (simp_all add: same_rest_def c'_def b_def)
  have ok: "level_ok s c'" using assms(2) fl(2) rest by (simp add: level_ok_alt c'_def)
  have "allows c' u \<and> value_allowed c' u w \<longleftrightarrow> allows b u \<and> value_allowed b u w"
    unfolding c'_def by (rule update_keeps_values [OF ra pf assms(4)]) (use assms(5) in \<open>simp add: b_def\<close>)
  moreover have "allows b u \<longleftrightarrow> allows c u" by (simp add: b_def)
  moreover have "value_allowed b u w \<longleftrightarrow> value_allowed c u w \<and> \<not> (u = t \<and> w = v \<and> restricted (Constant t) c)"
    by (auto simp: value_allowed_def b_def listed_def)
  ultimately have ad: "admits y s c' u w \<longleftrightarrow> admits y s c u w \<and> \<not> (u = t \<and> w = v \<and> restricted (Constant t) c)"
    unfolding admits_alt by (auto simp: rest in_value_range_def)
  have n: "is_number u \<Longrightarrow> \<exists>a. number_at s (Constant u) w a" using assms(6) by simp
  obtain r1 r2 where "ConstraintCheckValue y s (Constant u) w (Some c) = Inr r1" "r1 = NO_VIOLATION \<longleftrightarrow> admits y s c u w"
      "ConstraintCheckValue y s (Constant u) w (Some c') = Inr r2" "r2 = NO_VIOLATION \<longleftrightarrow> admits y s c' u w"
    using value_checked [OF assms(1,2) n, of y] value_checked [OF assms(1) ok n, of y] by auto
  then show ?thesis using ad ok by (auto simp: RemoveConstantFromConstraint_def c'_def b_def)
qed

section \<open>Checking arguments\<close>

text \<open>The types of the codes, as the list of codes in the source has them\<close>

definition accepted_types :: "char \<Rightarrow> fieldType set" where
  "accepted_types code =
     (if code = CHR ''a'' then {EXTERNAL_ADDRESS}
      else if code = CHR ''d'' \<or> code = CHR ''f'' then {FLOAT}
      else if code = CHR ''e'' then {INSTANCE_ADDRESS, INSTANCE_NAME, SYMBOL}
      else if code = CHR ''g'' then {INTEGER, FLOAT, SYMBOL}
      else if code = CHR ''h'' then {INSTANCE_ADDRESS, INSTANCE_NAME, FACT_ADDRESS, INTEGER, SYMBOL}
      else if code = CHR ''i'' \<or> code = CHR ''l'' then {INTEGER}
      else if code = CHR ''j'' then {SYMBOL, STRING, INSTANCE_NAME}
      else if code = CHR ''k'' then {SYMBOL, STRING}
      else if code = CHR ''m'' then {MULTIFIELD}
      else if code = CHR ''n'' then {FLOAT, INTEGER}
      else if code = CHR ''o'' then {INSTANCE_NAME}
      else if code = CHR ''p'' then {INSTANCE_NAME, SYMBOL}
      else if code = CHR ''q'' then {STRING, SYMBOL, MULTIFIELD}
      else if code = CHR ''s'' then {STRING}
      else if code = CHR ''u'' then UNIV
      else if code = CHR ''v'' then {RVOID}
      else if code = CHR ''w'' then {SYMBOL}
      else if code = CHR ''x'' then {INSTANCE_ADDRESS}
      else if code = CHR ''y'' then {FACT_ADDRESS}
      else if code = CHR ''z'' then {FACT_ADDRESS, INTEGER, SYMBOL}
      else {})"

text \<open>The types that a function returns, by its code\<close>

definition returned_types :: "char \<Rightarrow> fieldType set" where
  "returned_types code =
     (if code = CHR ''a'' then {EXTERNAL_ADDRESS}
      else if code = CHR ''f'' \<or> code = CHR ''d'' then {FLOAT}
      else if code = CHR ''i'' \<or> code = CHR ''g'' \<or> code = CHR ''l'' then {INTEGER}
      else if code = CHR ''j'' then {INSTANCE_NAME, SYMBOL, STRING}
      else if code = CHR ''k'' then {SYMBOL, STRING}
      else if code = CHR ''m'' then {MULTIFIELD}
      else if code = CHR ''n'' then {FLOAT, INTEGER}
      else if code = CHR ''o'' then {INSTANCE_NAME}
      else if code = CHR ''s'' then {STRING}
      else if code = CHR ''u'' then UNIV
      else if code = CHR ''w'' \<or> code = CHR ''c'' \<or> code = CHR ''b'' then {SYMBOL}
      else if code = CHR ''x'' then {INSTANCE_ADDRESS}
      else if code = CHR ''y'' then {FACT_ADDRESS}
      else if code = CHR ''v'' then {RVOID}
      else {})"

definition possible_types :: "system \<Rightarrow> expr \<Rightarrow> fieldType set" where
  "possible_types y x =
     (case expr_type x of
        Constant t \<Rightarrow> {t}
      | FCALL \<Rightarrow> returned_types (ValueFunctionType y (expr_value x))
      | _ \<Rightarrow> UNIV)"

text \<open>A record for a set of types\<close>

definition record_of_types :: "scan \<Rightarrow> fieldType set \<Rightarrow> constraintLevel \<Rightarrow> bool" where
  "record_of_types s ts c \<longleftrightarrow> level_ok s c \<and> classList c = [] \<and> \<not> anyRestriction c
     \<and> (\<forall>t. t \<noteq> MULTIFIELD \<longrightarrow> (allows c t \<longleftrightarrow> t \<in> ts)) \<and> (multifieldsAllowed c \<longleftrightarrow> MULTIFIELD \<in> ts)
     \<and> (singlefieldsAllowed c \<longleftrightarrow> ts \<noteq> {MULTIFIELD}) \<and> admits_number s c 1
     \<and> ranges_at s (minValue c) (maxValue c) [(- (2 ^ 2200), 2 ^ 2200)]"

lemma unmatchable_types:
  "UnmatchableConstraint (Some c) \<longleftrightarrow> \<not> multifieldsAllowed c \<and> (\<forall>t. t \<noteq> MULTIFIELD \<longrightarrow> \<not> allows c t)"
proof
  assume u: "UnmatchableConstraint (Some c)"
  have "\<not> allows c t" if "t \<noteq> MULTIFIELD" for t
    using u that by (cases t) (simp_all add: UnmatchableConstraint_def allows_def type_flag_def)
  with u show "\<not> multifieldsAllowed c \<and> (\<forall>t. t \<noteq> MULTIFIELD \<longrightarrow> \<not> allows c t)" by (simp add: UnmatchableConstraint_def)
next
  assume a: "\<not> multifieldsAllowed c \<and> (\<forall>t. t \<noteq> MULTIFIELD \<longrightarrow> \<not> allows c t)"
  have "\<not> allows c SYMBOL" "\<not> allows c STRING" "\<not> allows c FLOAT" "\<not> allows c INTEGER" "\<not> allows c INSTANCE_NAME"
    "\<not> allows c INSTANCE_ADDRESS" "\<not> allows c EXTERNAL_ADDRESS" "\<not> allows c RVOID" "\<not> allows c FACT_ADDRESS"
    using a by blast+
  with a show "UnmatchableConstraint (Some c)" by (simp add: UnmatchableConstraint_def allows_def type_flag_def)
qed

lemma number_bounded:
  assumes "number_at s t v a"
  shows "\<bar>a\<bar> \<le> 2 ^ 2200"
proof (cases "Some v = PositiveInfinity (atom_data s) \<or> Some v = NegativeInfinity (atom_data s)")
  case True
  then have "a = 2 ^ 2200 \<or> a = - (2 ^ 2200)" using assms by (auto simp: number_at_def split: if_splits)
  then show ?thesis by auto
next
  case False
  then have "\<bar>a\<bar> < 2 ^ 2200" using assms integer_units_less double_value_less unfolding number_at_def by auto
  then show ?thesis by (rule less_imp_le)
qed

lemma types_in_range:
  assumes "record_of_types s ts c" "is_number t \<longrightarrow> (\<exists>a. number_at s (Constant t) v a)"
  shows "in_value_range s c t v"
proof (cases "is_number t")
  case True
  then obtain a where a: "number_at s (Constant t) v a" using assms(2) by blast
  have "\<bar>a\<bar> \<le> 2 ^ 2200" by (rule number_bounded [OF a])
  then have w: "within a [(- (2 ^ 2200), 2 ^ 2200)]" unfolding within_simps abs_le_iff by linarith
  have "ranges_at s (minValue c) (maxValue c) [(- (2 ^ 2200), 2 ^ 2200)]" using assms(1) by (simp add: record_of_types_def)
  with a w show ?thesis unfolding in_value_range_def by blast
qed (simp add: in_value_range_def)

lemma none_in:
  assumes "\<And>t. t \<noteq> MULTIFIELD \<Longrightarrow> p t \<longleftrightarrow> t \<in> T" "m \<longleftrightarrow> MULTIFIELD \<in> T" "\<not> m"
  shows "\<not> m \<and> (\<forall>t. t \<noteq> MULTIFIELD \<longrightarrow> \<not> p t) \<longleftrightarrow> T = {}"
proof
  assume "\<not> m \<and> (\<forall>t. t \<noteq> MULTIFIELD \<longrightarrow> \<not> p t)"
  then have "t \<notin> T" for t using assms(1) [of t] assms(2) by (cases "t = MULTIFIELD") simp_all
  then show "T = {}" by blast
qed (use assms in auto)

lemma types_compared:
  assumes s: "constants_ok s" and c: "record_of_types s ts c1" "record_of_types s us c2"
    and v: "\<And>t. t \<in> ts \<Longrightarrow> t \<in> us \<Longrightarrow> t \<noteq> MULTIFIELD \<Longrightarrow> t \<noteq> RVOID \<Longrightarrow> \<exists>v. value_allowed c1 t v \<and> value_allowed c2 t v
      \<and> (is_number t \<longrightarrow> (\<exists>a. number_at s (Constant t) v a))"
  shows "\<exists>r a b. IntersectConstraints y s (Some (Constraint c1 None)) (Some (Constraint c2 None)) = Inr (r, a, b)
    \<and> (UnmatchableConstraint (Some (level r)) \<longleftrightarrow> ts \<inter> us = {})"
proof -
  have l: "level_ok s c1" "level_ok s c2" using c by (simp_all add: record_of_types_def)
  obtain rv0 where r0: "GetConstraintRecord s = Inr rv0" "multifieldsAllowed rv0 = False" "plain_flags rv0" "anyAllowed rv0"
    using new_record [OF s] by (auto simp: GetConstraintRecord_def split: option.splits)
  have un: "\<not> allows (rv0\<lparr>anyAllowed := False\<rparr>) t" if "t \<noteq> MULTIFIELD" for t
    using r0(3,4) that by (cases t) (simp_all add: plain_flags_def allows_def type_flag_def)
  show ?thesis
  proof (cases "fields_differ c1 c2")
    case True
    have "ts \<inter> us = {}" using True c by (auto simp: fields_differ_def record_of_types_def)
    moreover have "UnmatchableConstraint (Some (rv0\<lparr>anyAllowed := False\<rparr>))" unfolding unmatchable_types using un r0(2) by simp
    ultimately show ?thesis using True r0(1) by simp
  next
    case False
    obtain rv where rv: "intersect_level y s c1 c2 = Inr (rv, c1, c2)" "level_ok s rv"
        "\<forall>t. t \<noteq> MULTIFIELD \<and> allows rv t \<longrightarrow> allows c1 t \<and> allows c2 t"
        "\<forall>n. \<bar>n\<bar> < 2 ^ 63 \<and> admits_number s c1 n \<and> admits_number s c2 n \<longrightarrow>
          multifieldsAllowed rv = (multifieldsAllowed c1 \<and> multifieldsAllowed c2)
          \<and> (\<not> anyRestriction c1 \<and> \<not> anyRestriction c2 \<and> allows c1 RVOID \<and> allows c2 RVOID \<longrightarrow> allows rv RVOID)"
        "\<forall>t v n. (classList c1 = [] \<or> classList c2 = []) \<and> t \<noteq> MULTIFIELD
          \<and> (atom_type t \<or> \<not> anyRestriction c1 \<and> \<not> anyRestriction c2)
          \<and> (is_number t \<longrightarrow> (\<exists>a. number_at s (Constant t) v a)) \<and> \<bar>n\<bar> < 2 ^ 63 \<longrightarrow>
        (admits y s rv t v \<and> admits_number s rv n
         \<longleftrightarrow> (admits y s c1 t v \<and> admits_number s c1 n) \<and> admits y s c2 t v \<and> admits_number s c2 n)"
      using level_intersected [OF s l, of y] by blast
    have one: "\<bar>1::int\<bar> < 2 ^ 63" "admits_number s c1 1" "admits_number s c2 1" using c by (simp_all add: record_of_types_def)
    have multi: "multifieldsAllowed rv \<longleftrightarrow> MULTIFIELD \<in> ts \<inter> us"
      using rv(4) [rule_format, of 1] one c by (auto simp: record_of_types_def)
    have al: "allows rv t \<longleftrightarrow> t \<in> ts \<inter> us" if t: "t \<noteq> MULTIFIELD" for t
    proof
      assume "allows rv t"
      then show "t \<in> ts \<inter> us" using rv(3) t c by (auto simp: record_of_types_def)
    next
      assume m: "t \<in> ts \<inter> us"
      then have a: "allows c1 t" "allows c2 t" using c t by (auto simp: record_of_types_def)
      show "allows rv t"
      proof (cases "t = RVOID")
        case True
        then show ?thesis using rv(4) [rule_format, of 1] one c a by (auto simp: record_of_types_def)
      next
        case False
        obtain v where v': "value_allowed c1 t v" "value_allowed c2 t v" "is_number t \<longrightarrow> (\<exists>a. number_at s (Constant t) v a)"
          using v [of t] m t False by auto
        have "in_value_range s c t v" if "record_of_types s ws c" for c ws
          by (rule types_in_range [OF that v'(3)])
        then have ir: "in_value_range s c1 t v" "in_value_range s c2 t v" using c by blast+
        have cl: "classList c1 = []" "classList c2 = []" using c by (simp_all add: record_of_types_def)
        have adm: "admits y s c1 t v" "admits y s c2 t v"
          unfolding admits_alt using ir cl a v'(1,2) False by simp_all
        have nr: "\<not> anyRestriction c1" "\<not> anyRestriction c2" using c by (simp_all add: record_of_types_def)
        have "admits y s rv t v \<and> admits_number s rv 1
            \<longleftrightarrow> (admits y s c1 t v \<and> admits_number s c1 1) \<and> admits y s c2 t v \<and> admits_number s c2 1"
          by (rule rv(5) [rule_format]) (use cl nr t v'(3) one(1) in simp_all)
        then have "admits y s rv t v" using adm one by simp
        then show ?thesis by (simp add: admits_alt)
      qed
    qed
    show ?thesis
    proof (cases "multifieldsAllowed rv")
      case True
      obtain m where m: "IntersectConstraints y s None None = Inr (m, None, None)" "multifieldsAllowed (level m)"
        using r0(1) by simp
      then have "\<not> UnmatchableConstraint (Some (level m))" by (simp add: UnmatchableConstraint_def)
      then have "IntersectConstraints y s (Some (Constraint c1 None)) (Some (Constraint c2 None))
          = Inr (Constraint rv (Some m), Some (Constraint c1 None), Some (Constraint c2 None))"
        using True False rv(1) m(1) by (simp del: IntersectConstraints.simps(1))
      moreover have "\<not> UnmatchableConstraint (Some rv)" using True unfolding unmatchable_types by blast
      moreover have "ts \<inter> us \<noteq> {}" using True multi by blast
      ultimately show ?thesis by simp
    next
      case nm: False
      have "UnmatchableConstraint (Some rv) \<longleftrightarrow> ts \<inter> us = {}"
        unfolding unmatchable_types by (rule none_in [OF al multi nm])
      moreover have "IntersectConstraints y s (Some (Constraint c1 None)) (Some (Constraint c2 None))
          = Inr (Constraint rv None, Some (Constraint c1 None), Some (Constraint c2 None))" using nm False rv(1) by simp
      ultimately show ?thesis by simp
    qed
  qed
qed

section \<open>Records of arguments\<close>

lemma types_of_flags:
  assumes "constants_ok s" "GetConstraintRecord s = Inr rv"
    and "minValue c = minValue rv" "maxValue c = maxValue rv" "minFields c = minFields rv" "maxFields c = maxFields rv"
    and "classList c = []" "\<not> anyRestriction c" "plain_flags c"
    and "\<And>t. t \<noteq> MULTIFIELD \<Longrightarrow> allows c t \<longleftrightarrow> t \<in> ts" "multifieldsAllowed c \<longleftrightarrow> MULTIFIELD \<in> ts"
    and "singlefieldsAllowed c \<longleftrightarrow> ts \<noteq> {MULTIFIELD}"
  shows "record_of_types s ts c"
proof -
  obtain m x where r: "ranges_at s (minValue rv) (maxValue rv) [(- (2 ^ 2200), 2 ^ 2200)]"
      "minFields rv = [m]" "maxFields rv = [x]" "bound_ok s (NegativeInfinity (atom_data s)) m"
      "bound_ok s (PositiveInfinity (atom_data s)) x" "classList rv = []" using new_record [OF assms(1)] assms(2) by auto
  have l: "level_ok s c" unfolding level_ok_alt using r assms by (auto simp: classes_ok_def)
  have "admits_number s c 1"
    using assms(1,2,5,6) unfolding constants_ok_def admits_number_def field_low_def field_high_def
    by (auto simp: field_bound_def GetConstraintRecord_def GenConstant_def)
  with l r(1) assms show ?thesis unfolding record_of_types_def by simp
qed

text \<open>A new record allows what its flags are set to.\<close>

lemma new_flags:
  assumes "GetConstraintRecord s = Inr rv"
  shows "anyAllowed rv" "\<not> symbolsAllowed rv" "\<not> stringsAllowed rv" "\<not> floatsAllowed rv" "\<not> integersAllowed rv"
    "\<not> instanceNamesAllowed rv" "\<not> instanceAddressesAllowed rv" "\<not> externalAddressesAllowed rv" "\<not> factAddressesAllowed rv"
    "\<not> voidAllowed rv" "\<not> anyRestriction rv" "\<not> symbolRestriction rv" "\<not> stringRestriction rv" "\<not> floatRestriction rv"
    "\<not> integerRestriction rv" "\<not> instanceNameRestriction rv" "\<not> multifieldsAllowed rv" "singlefieldsAllowed rv"
    "classList rv = []" "restrictionList rv = []"
  using assms by (auto simp: GetConstraintRecord_def split: option.splits)

lemma types_several [simp]: "UNIV \<noteq> {MULTIFIELD}"
proof -
  have "SYMBOL \<notin> {MULTIFIELD}" by simp
  then show ?thesis by blast
qed

lemmas type_flags = allows_def type_flag_def plain_flags_def value_allowed_def restricted_def

text \<open>The goals of the types, one for each type\<close>

lemma each_type:
  assumes "p SYMBOL" "p STRING" "p FLOAT" "p INTEGER" "p INSTANCE_NAME" "p INSTANCE_ADDRESS" "p EXTERNAL_ADDRESS"
    "p FACT_ADDRESS" "p RVOID" "t \<noteq> MULTIFIELD"
  shows "p t"
  using assms by (cases t) simp_all

lemma function_types:
  assumes "constants_ok s"
  shows "\<exists>c. FunctionCallToConstraintRecord y s f = Inr (Constraint c None)
    \<and> record_of_types s (returned_types (ValueFunctionType y f)) c \<and> (\<forall>t v. value_allowed c t v)"
proof -
  obtain rv where rv: "GetConstraintRecord s = Inr rv" using new_record [OF assms] by blast
  note fl = new_flags [OF rv]
  show ?thesis
    unfolding FunctionCallToConstraintRecord_def rv bind_res_Inr Let_def
    apply (rule exI, rule conjI, rule refl, rule conjI, rule types_of_flags [OF assms rv])
    subgoal by (simp add: fl)
    subgoal by (simp add: fl)
    subgoal by (simp add: fl)
    subgoal by (simp add: fl)
    subgoal by (simp add: fl)
    subgoal by (simp add: fl)
    subgoal by (simp add: fl plain_flags_def)
    subgoal for t unfolding returned_types_def by (rule each_type [where t = t]) (simp_all add: fl type_flags)
    by (simp_all add: fl returned_types_def type_flags)
qed

lemma argument_types:
  assumes "constants_ok s"
  shows "\<exists>c. ArgumentTypeToConstraintRecord s code = Inr (Constraint c None)
    \<and> record_of_types s (accepted_types code) c \<and> (\<forall>t v. value_allowed c t v)"
proof -
  obtain rv where rv: "GetConstraintRecord s = Inr rv" using new_record [OF assms] by blast
  note fl = new_flags [OF rv]
  show ?thesis
    unfolding ArgumentTypeToConstraintRecord_def rv bind_res_Inr Let_def
    apply (rule exI, rule conjI, rule refl, rule conjI, rule types_of_flags [OF assms rv])
    subgoal by (simp add: fl)
    subgoal by (simp add: fl)
    subgoal by (simp add: fl)
    subgoal by (simp add: fl)
    subgoal by (simp add: fl)
    subgoal by (simp add: fl)
    subgoal by (simp add: fl plain_flags_def)
    subgoal for t unfolding accepted_types_def by (rule each_type [where t = t]) (simp_all add: fl type_flags)
    by (simp_all add: fl accepted_types_def type_flags)
qed

lemma constant_types:
  assumes "constants_ok s" "ConstantType (expr_type x)"
  shows "\<exists>c. ExpressionToConstraintRecord y s (Some x) = Inr (Constraint c None)
    \<and> record_of_types s (possible_types y x) c \<and> (\<forall>t v. (expr_type x = Constant t \<longrightarrow> v = expr_value x) \<longrightarrow> value_allowed c t v)"
proof -
  obtain rv where rv: "GetConstraintRecord s = Inr rv" using new_record [OF assms(1)] by blast
  obtain t where t: "expr_type x = Constant t" "t \<in> {SYMBOL, STRING, INTEGER, FLOAT, INSTANCE_NAME, INSTANCE_ADDRESS}"
    using assms(2) by (auto simp: ConstantType_def)
  note fl = new_flags [OF rv]
  note simps = fl type_flags constant_record_def possible_types_def t(1) listed_def Let_def
  have "ExpressionToConstraintRecord y s (Some x) = Inr (Constraint (constant_record x (rv\<lparr>anyAllowed := False\<rparr>)) None)"
    by (simp add: ExpressionToConstraintRecord_def rv t(1))
  moreover have "record_of_types s (possible_types y x) (constant_record x (rv\<lparr>anyAllowed := False\<rparr>))"
    apply (rule types_of_flags [OF assms(1) rv])
    subgoal by (simp add: simps)
    subgoal by (simp add: simps)
    subgoal by (simp add: simps)
    subgoal by (simp add: simps)
    subgoal by (simp add: simps)
    subgoal by (simp add: simps)
    subgoal by (simp add: simps)
    subgoal for u using t(2) by (rule_tac each_type [where t = u]) (auto simp: simps)
    using t(2) by (auto simp: simps)
  moreover have "value_allowed (constant_record x (rv\<lparr>anyAllowed := False\<rparr>)) u v" if "expr_type x = Constant u \<longrightarrow> v = expr_value x" for u v
    using t(2) that by (cases "u = t") (auto simp: simps)
  ultimately show ?thesis by blast
qed

lemma variable_types:
  assumes "constants_ok s" "expr_type x \<in> {SF_VARIABLE, MF_VARIABLE, GCALL, PCALL, GBL_VARIABLE, MF_GBL_VARIABLE}"
  shows "\<exists>c. ExpressionToConstraintRecord y s (Some x) = Inr (Constraint c None)
    \<and> record_of_types s (possible_types y x) c \<and> (\<forall>t v. value_allowed c t v)"
proof -
  obtain rv where rv: "GetConstraintRecord s = Inr rv" using new_record [OF assms(1)] by blast
  note fl = new_flags [OF rv]
  have p: "possible_types y x = UNIV" using assms(2) by (auto simp: possible_types_def)
  have "ExpressionToConstraintRecord y s (Some x) = Inr (Constraint (rv\<lparr>multifieldsAllowed := True\<rparr>) None)"
    using assms(2) rv by (simp add: ExpressionToConstraintRecord_def)
  moreover have "record_of_types s (possible_types y x) (rv\<lparr>multifieldsAllowed := True\<rparr>)"
    unfolding p by (rule types_of_flags [OF assms(1) rv]) (simp_all add: fl type_flags)
  moreover have "value_allowed (rv\<lparr>multifieldsAllowed := True\<rparr>) t v" for t v by (simp add: fl type_flags)
  ultimately show ?thesis by blast
qed

text \<open>The record of an expression, with a value for each of its types\<close>

lemma expression_types:
  assumes "constants_ok s" "ConstantType (expr_type x) \<or> expr_type x \<notin> range Constant"
    and "\<And>t. expr_type x = Constant t \<Longrightarrow> is_number t \<Longrightarrow> \<exists>a. number_at s (Constant t) (expr_value x) a"
  shows "\<exists>c. ExpressionToConstraintRecord y s (Some x) = Inr (Constraint c None) \<and> record_of_types s (possible_types y x) c
    \<and> (\<forall>t. \<exists>v. value_allowed c t v \<and> (is_number t \<longrightarrow> (\<exists>a. number_at s (Constant t) v a)))"
proof -
  obtain high where "PositiveInfinity (atom_data s) = Some high" using assms(1) by (auto simp: constants_ok_def)
  then have h: "number_at s u high (2 ^ 2200)" for u by (simp add: number_at_def)
  consider "ConstantType (expr_type x)" | "expr_type x = FCALL"
    | "expr_type x \<in> {SF_VARIABLE, MF_VARIABLE, GCALL, PCALL, GBL_VARIABLE, MF_GBL_VARIABLE}"
    using assms(2) by (cases "expr_type x") auto
  then show ?thesis
  proof cases
    case 1
    from constant_types [OF assms(1) 1, of y] show ?thesis
      using h assms(3) by (metis exprType.inject)
  next
    case 2
    have "ExpressionToConstraintRecord y s (Some x) = FunctionCallToConstraintRecord y s (expr_value x)"
      by (simp add: ExpressionToConstraintRecord_def 2)
    moreover have "possible_types y x = returned_types (ValueFunctionType y (expr_value x))" by (simp add: possible_types_def 2)
    ultimately show ?thesis using function_types [OF assms(1), of y "expr_value x"] h by metis
  next
    case 3
    from variable_types [OF assms(1) 3, of y] show ?thesis using h by metis
  qed
qed

text \<open>C8: An argument of a call is refused when the call is read exactly if no type that the expression can have is among
  those that the code of the parameter accepts, for constants, variables and calls of functions and for every code.\<close>

theorem argument_checked:
  assumes "constants_ok s" "ConstantType (expr_type x) \<or> expr_type x \<notin> range Constant"
    and "\<And>t. expr_type x = Constant t \<Longrightarrow> is_number t \<Longrightarrow> \<exists>a. number_at s (Constant t) (expr_value x) a"
  shows "CheckArgumentAgainstRestriction y s (Some x) code = Inr (possible_types y x \<inter> accepted_types code = {})"
proof -
  obtain c1 where c1: "ExpressionToConstraintRecord y s (Some x) = Inr (Constraint c1 None)"
      "record_of_types s (possible_types y x) c1"
      "\<forall>t. \<exists>v. value_allowed c1 t v \<and> (is_number t \<longrightarrow> (\<exists>a. number_at s (Constant t) v a))"
    using expression_types [OF assms] by blast
  obtain c2 where c2: "ArgumentTypeToConstraintRecord s code = Inr (Constraint c2 None)"
      "record_of_types s (accepted_types code) c2" "\<forall>t v. value_allowed c2 t v"
    using argument_types [OF assms(1)] by blast
  obtain r a b where "IntersectConstraints y s (Some (Constraint c1 None)) (Some (Constraint c2 None)) = Inr (r, a, b)"
      "UnmatchableConstraint (Some (level r)) \<longleftrightarrow> possible_types y x \<inter> accepted_types code = {}"
    using types_compared [OF assms(1) c1(2) c2(2)] c1(3) c2(3) by metis
  then show ?thesis by (simp add: CheckArgumentAgainstRestriction_def c1(1) c2(1))
qed

section \<open>Union of records\<close>

text \<open>One range, with an end of either of the two ranges at each side\<close>

definition joined_range :: "expr \<Rightarrow> expr \<Rightarrow> expr \<Rightarrow> expr \<Rightarrow> (expr \<times> expr) list \<Rightarrow> bool" where
  "joined_range m x m2 x2 found \<longleftrightarrow> (\<exists>a b. found = [(a, b)] \<and> (a = m \<or> a = GenConstant (expr_type m2) (expr_value m2))
     \<and> (b = x \<or> b = GenConstant (expr_type x2) (expr_value x2)))"

lemma range_added:
  assumes "numbers_apart s" "number_at s (expr_type m) (expr_value m) low" "number_at s (expr_type x) (expr_value x) high"
    and "number_at s (expr_type m2) (expr_value m2) low2" "number_at s (expr_type x2) (expr_value x2) high2"
  shows "\<exists>found qs. UnionRangeMinMaxValueWithList s m2 x2 [(m, x)] = Inr found \<and> found \<noteq> [] \<and> pairs_at s found qs
    \<and> (low \<le> high \<and> low2 \<le> high2 \<longrightarrow>
        (\<forall>a. within a qs \<longleftrightarrow> low \<le> a \<and> a \<le> high \<or> \<not> high < low2 \<and> low2 \<le> a \<and> a \<le> high2))
    \<and> (\<not> high < low2 \<and> \<not> high2 < low \<longrightarrow> joined_range m x m2 x2 found \<and> qs = [(min low low2, max high high2)])"
proof -
  have cmp: "CompareNumbers s (expr_type x2) (expr_value x2) (expr_type x) (expr_value x) = Inr (Some (order_of high2 high))"
      "CompareNumbers s (expr_type m2) (expr_value m2) (expr_type m) (expr_value m) = Inr (Some (order_of low2 low))"
      "CompareNumbers s (expr_type x2) (expr_value x2) (expr_type m) (expr_value m) = Inr (Some (order_of high2 low))"
      "CompareNumbers s (expr_type m2) (expr_value m2) (expr_type x) (expr_value x) = Inr (Some (order_of low2 high))"
    by (rule numbers_ordered [OF assms(1)], use assms(2-5) in simp_all)+
  show ?thesis
  proof (cases "high2 \<le> high \<and> low \<le> low2")
    case True
    then have "UnionRangeMinMaxValueWithList s m2 x2 [(m, x)] = Inr [(m, x)]"
      by (auto simp: UnionRangeMinMaxValueWithList_def cmp)
    moreover have "pairs_at s [(m, x)] [(low, high)]" using assms(2,3) by simp
    moreover have "\<forall>a. within a [(low, high)] \<longleftrightarrow> low \<le> a \<and> a \<le> high \<or> \<not> high < low2 \<and> low2 \<le> a \<and> a \<le> high2"
      using True by auto
    moreover have "joined_range m x m2 x2 [(m, x)]" "[(low, high)] = [(min low low2, max high high2)]"
      using True by (simp_all add: joined_range_def min_def max_def)
    ultimately show ?thesis by blast
  next
    case out: False
    define m' where "m' = (if low2 < low \<and> low \<le> high2 then GenConstant (expr_type m2) (expr_value m2) else m)"
    define x' where "x' = (if high < high2 \<and> low2 \<le> high then GenConstant (expr_type x2) (expr_value x2) else x)"
    define low' where "low' = (if low2 < low \<and> low \<le> high2 then low2 else low)"
    define high' where "high' = (if high < high2 \<and> low2 \<le> high then high2 else high)"
    have n: "number_at s (expr_type m') (expr_value m') low'" "number_at s (expr_type x') (expr_value x') high'"
      using assms(2-5) by (simp_all add: m'_def x'_def low'_def high'_def)
    have e: "extend_ranges s m2 x2 [] [(m, x)] = Inr (if high2 < low
        then ([(GenConstant (expr_type m2) (expr_value m2), GenConstant (expr_type x2) (expr_value x2)), (m', x')], True)
        else ([(m', x')], False))"
      using out by (auto simp: cmp m'_def x'_def Let_def le_less)
    show ?thesis
    proof (cases "high2 < low")
      case True
      let ?f = "[(GenConstant (expr_type m2) (expr_value m2), GenConstant (expr_type x2) (expr_value x2)), (m', x')]"
      have "UnionRangeMinMaxValueWithList s m2 x2 [(m, x)] = Inr ?f"
        using True e by (simp add: UnionRangeMinMaxValueWithList_def del: extend_ranges.simps)
      moreover have "pairs_at s ?f [(low2, high2), (low', high')]" using n assms(4,5) by simp
      moreover have "low \<le> high \<and> low2 \<le> high2 \<longrightarrow> (\<forall>a. within a [(low2, high2), (low', high')]
          \<longleftrightarrow> low \<le> a \<and> a \<le> high \<or> \<not> high < low2 \<and> low2 \<le> a \<and> a \<le> high2)"
        using True by (auto simp: low'_def high'_def)
      ultimately show ?thesis using True by blast
    next
      case False
      have "UnionRangeMinMaxValueWithList s m2 x2 [(m, x)] = Inr [(m', x')]"
        using False e by (simp add: UnionRangeMinMaxValueWithList_def del: extend_ranges.simps)
      moreover have "pairs_at s [(m', x')] [(low', high')]" using n by simp
      moreover have "low \<le> high \<and> low2 \<le> high2 \<longrightarrow> (\<forall>a. within a [(low', high')]
          \<longleftrightarrow> low \<le> a \<and> a \<le> high \<or> \<not> high < low2 \<and> low2 \<le> a \<and> a \<le> high2)"
        using False out by (auto simp: low'_def high'_def)
      moreover have "joined_range m x m2 x2 [(m', x')]" by (simp add: joined_range_def m'_def x'_def)
      moreover have "[(low', high')] = [(min low low2, max high high2)]" if "\<not> high < low2"
        using that False by (auto simp: low'_def high'_def min_def max_def)
      ultimately show ?thesis by blast
    qed
  qed
qed

lemma ranges_at_none [simp]: "ranges_at s mins maxs [] \<longleftrightarrow> mins = [] \<and> maxs = []"
  by (cases mins; cases maxs) simp_all

lemma ranges_at_one: "ranges_at s mins maxs [(low, high)] \<longleftrightarrow> (\<exists>m x. mins = [m] \<and> maxs = [x]
    \<and> number_at s (expr_type m) (expr_value m) low \<and> number_at s (expr_type x) (expr_value x) high)"
  by (cases mins; cases maxs) (auto simp: ranges_at_Cons)

lemma numeric_united:
  assumes "numbers_apart s" "mins c1 = [m]" "maxs c1 = [x]" "mins c2 = [m2]" "maxs c2 = [x2]"
    and "mins = (if isRange then minValue else minFields)" "maxs = (if isRange then maxValue else maxFields)"
    and "number_at s (expr_type m) (expr_value m) low" "number_at s (expr_type x) (expr_value x) high"
    and "number_at s (expr_type m2) (expr_value m2) low2" "number_at s (expr_type x2) (expr_value x2) high2"
  shows "\<exists>found qs. UnionNumericExpressions s c1 c2 rv isRange = Inr (set_ranges isRange found rv) \<and> found \<noteq> []
    \<and> pairs_at s found qs \<and> (low \<le> high \<and> low2 \<le> high2 \<longrightarrow>
        (\<forall>a. within a qs \<longleftrightarrow> low \<le> a \<and> a \<le> high \<or> \<not> high < low2 \<and> low2 \<le> a \<and> a \<le> high2))
    \<and> (\<not> high < low2 \<and> \<not> high2 < low \<longrightarrow>
        joined_range (GenConstant (expr_type m) (expr_value m)) (GenConstant (expr_type x) (expr_value x)) m2 x2 found
        \<and> qs = [(min low low2, max high high2)])"
proof -
  let ?m = "GenConstant (expr_type m) (expr_value m)" and ?x = "GenConstant (expr_type x) (expr_value x)"
  have "\<exists>found qs. UnionRangeMinMaxValueWithList s m2 x2 [(?m, ?x)] = Inr found \<and> found \<noteq> [] \<and> pairs_at s found qs
    \<and> (low \<le> high \<and> low2 \<le> high2 \<longrightarrow>
        (\<forall>a. within a qs \<longleftrightarrow> low \<le> a \<and> a \<le> high \<or> \<not> high < low2 \<and> low2 \<le> a \<and> a \<le> high2))
    \<and> (\<not> high < low2 \<and> \<not> high2 < low \<longrightarrow> joined_range ?m ?x m2 x2 found \<and> qs = [(min low low2, max high high2)])"
    by (rule range_added [OF assms(1)]) (use assms(8-11) in simp_all)
  then obtain found qs where f: "UnionRangeMinMaxValueWithList s m2 x2 [(?m, ?x)] = Inr found" "found \<noteq> []" "pairs_at s found qs"
      "low \<le> high \<and> low2 \<le> high2 \<longrightarrow>
        (\<forall>a. within a qs \<longleftrightarrow> low \<le> a \<and> a \<le> high \<or> \<not> high < low2 \<and> low2 \<le> a \<and> a \<le> high2)"
      "\<not> high < low2 \<and> \<not> high2 < low \<longrightarrow> joined_range ?m ?x m2 x2 found \<and> qs = [(min low low2, max high high2)]" by blast
  have "UnionNumericExpressions s c1 c2 rv isRange = Inr (set_ranges isRange found rv)"
    unfolding UnionNumericExpressions_def assms(6,7) [symmetric] Let_def assms(2-5)
    using f(1,2) by (simp add: UnionRangeMinMaxValueWithList_def [of s m x] set_union_ranges_def)
  with f(2-5) show ?thesis by blast
qed

lemma listed_united:
  "listed t v (AddToUnionList xs head c) \<longleftrightarrow> listed t v head \<or> listed t v xs \<and> RestrictionOnType (Constant t) (Some c)"
proof (induction xs arbitrary: head)
  case (Cons x xs)
  show ?case unfolding AddToUnionList.simps Cons.IH
    by (auto simp: listed_def list_ex_iff GenConstant_def)
qed (simp add: listed_def)

lemma lists_kept [simp]:
  "restrictionList (SetAnyRestrictionFlags b c) = restrictionList c" "classList (SetAnyRestrictionFlags b c) = classList c"
  "minValue (SetAnyRestrictionFlags b c) = minValue c" "maxValue (SetAnyRestrictionFlags b c) = maxValue c"
  "minFields (SetAnyRestrictionFlags b c) = minFields c" "maxFields (SetAnyRestrictionFlags b c) = maxFields c"
  by (simp_all add: SetAnyRestrictionFlags_def)

lemma restricted_spread: "anyRestriction c \<Longrightarrow> restricted t (SetAnyRestrictionFlags False c) = restricted t c"
  by (simp add: SetAnyRestrictionFlags_def restricted_def)

definition same_lists :: "constraintLevel \<Rightarrow> constraintLevel \<Rightarrow> bool" where
  "same_lists c d \<longleftrightarrow> restrictionList c = restrictionList d \<and> classList c = classList d \<and> minValue c = minValue d
     \<and> maxValue c = maxValue d \<and> minFields c = minFields d \<and> maxFields c = maxFields d"

lemma restrictions_united:
  "\<exists>rv' c1' c2'. union_restrictions c1 c2 rv = (rv', c1', c2') \<and> same_lists c1' c1 \<and> same_lists c2' c2
    \<and> (\<forall>t. allows rv' t = allows rv t) \<and> multifieldsAllowed rv' = multifieldsAllowed rv \<and> anyAllowed rv' = anyAllowed rv
    \<and> (\<forall>t. restricted (Constant t) rv' \<longleftrightarrow> restricted (Constant t) c1 \<and> restricted (Constant t) c2)
    \<and> (\<forall>t. restricted (Constant t) rv' \<longrightarrow> RestrictionOnType (Constant t) (Some rv'))"
proof (cases "anyRestriction c1 \<and> anyRestriction c2")
  case True
  then show ?thesis
    by (auto simp: union_restrictions_def same_lists_def restricted_def RestrictionOnType_def allows_def type_flag_def
        split: fieldType.splits)
next
  case False
  let ?c1 = "if anyRestriction c1 then SetAnyRestrictionFlags False c1 else c1"
  let ?c2 = "if \<not> anyRestriction c1 \<and> anyRestriction c2 then SetAnyRestrictionFlags False c2 else c2"
  have r: "restricted t ?c1 = restricted t c1" "restricted t ?c2 = restricted t c2" for t
    by (simp_all add: restricted_spread)
  have n: "\<not> anyRestriction ?c1" "\<not> anyRestriction ?c2" using False by (simp_all add: SetAnyRestrictionFlags_def)
  obtain rv' c1' c2' where u: "union_restrictions c1 c2 rv = (rv', c1', c2')" by (metis prod_cases3)
  have rv': "rv' = rv\<lparr>anyRestriction := False, symbolRestriction := symbolRestriction ?c1 \<and> symbolRestriction ?c2,
            stringRestriction := stringRestriction ?c1 \<and> stringRestriction ?c2,
            floatRestriction := floatRestriction ?c1 \<and> floatRestriction ?c2,
            integerRestriction := integerRestriction ?c1 \<and> integerRestriction ?c2,
            classRestriction := classRestriction ?c1 \<and> classRestriction ?c2,
            instanceNameRestriction := instanceNameRestriction ?c1 \<and> instanceNameRestriction ?c2\<rparr>"
    using u False unfolding union_restrictions_def Let_def by auto
  have "same_lists c1' c1" "same_lists c2' c2"
    using u False unfolding union_restrictions_def Let_def same_lists_def by auto
  moreover have "\<forall>t. restricted (Constant t) rv' \<longleftrightarrow> restricted (Constant t) c1 \<and> restricted (Constant t) c2"
    unfolding r(1) [symmetric, of _] r(2) [symmetric, of _] using n unfolding rv' restricted_def by auto
  moreover have "\<forall>t. restricted (Constant t) rv' \<longrightarrow> RestrictionOnType (Constant t) (Some rv')"
    unfolding rv' restricted_def RestrictionOnType_def by auto
  moreover have "\<forall>t. allows rv' t = allows rv t" unfolding rv' allows_def type_flag_def by (simp split: fieldType.split)
  ultimately show ?thesis using u unfolding rv' by simp
qed

lemma types_united: "t \<noteq> MULTIFIELD \<Longrightarrow> allows (union_types c1 c2 rv) t \<longleftrightarrow> allows c1 t \<or> allows c2 t"
  by (cases t) (auto simp: union_types_def allows_def type_flag_def Let_def)

text \<open>The check of a value against a record without classes\<close>

lemma classless_checked:
  assumes "numbers_apart s" "classList c = []" "ranges_at s (minValue c) (maxValue c) rs"
    and "is_number t \<Longrightarrow> number_at s (Constant t) v a"
  shows "\<exists>r. ConstraintCheckValue y s (Constant t) v (Some c) = Inr r
    \<and> (r = NO_VIOLATION \<longleftrightarrow> t \<noteq> RVOID \<and> allows c t \<and> value_allowed c t v \<and> (is_number t \<longrightarrow> within a rs))"
proof -
  have "CheckRangeConstraint s (Constant t) v (Some c) = Inr (is_number t \<longrightarrow> within a rs)"
    using in_ranges_within [OF assms(1) _ assms(3)] assms(4) by (auto simp: CheckRangeConstraint_def is_number_def)
  then show ?thesis
    unfolding ConstraintCheckValue_def CheckTypeConstraint_flag CheckAllowedValues_listed
    by (simp add: CheckFunctionReturnType_def CheckAllowedClassesConstraint_def assms(2) allows_def value_allowed_def)
qed

lemma level_united:
  assumes "constants_ok s" "level_ok s c1" "level_ok s c2" "classList c1 = []" "classList c2 = []"
    and "ranges_at s (minValue c1) (maxValue c1) [(low, high)]" "ranges_at s (minValue c2) (maxValue c2) [(low2, high2)]"
    and "low \<le> high" "low2 \<le> high2"
  shows "\<exists>rv a b qs. union_level s c1 c2 = Inr (rv, a, b) \<and> classList rv = [] \<and> ranges_at s (minValue rv) (maxValue rv) qs
    \<and> (\<forall>t. t \<noteq> MULTIFIELD \<longrightarrow> (allows rv t \<longleftrightarrow> allows c1 t \<or> allows c2 t))
    \<and> (\<forall>t v. value_allowed c1 t v \<or> value_allowed c2 t v \<longrightarrow> value_allowed rv t v)
    \<and> (\<forall>a. within a qs \<longleftrightarrow> low \<le> a \<and> a \<le> high \<or> \<not> high < low2 \<and> low2 \<le> a \<and> a \<le> high2)
    \<and> (\<not> fields_apart s c1 c2 \<longrightarrow> (\<forall>n. \<bar>n\<bar> < 2 ^ 63 \<and> (admits_number s c1 n \<or> admits_number s c2 n) \<longrightarrow>
          CheckCardinalityConstraint s n (Some rv) = Inr True))"
proof -
  obtain rv0 where r0: "GetConstraintRecord s = Inr rv0" using new_record [OF assms(1)] by blast
  define u where "u = union_types c1 c2 rv0"
  obtain u' c1' c2' where ur: "union_restrictions c1 c2 u = (u', c1', c2')" "same_lists c1' c1" "same_lists c2' c2"
      "\<forall>t. allows u' t = allows u t"
      "\<forall>t. restricted (Constant t) u' \<longleftrightarrow> restricted (Constant t) c1 \<and> restricted (Constant t) c2"
      "\<forall>t. restricted (Constant t) u' \<longrightarrow> RestrictionOnType (Constant t) (Some u')"
    using restrictions_united [of c1 c2 u] by blast
  define w where "w = UnionAllowedClassExpressions c1' c2' (UnionAllowedValueExpressions c1' c2' u')"
  have w: "classList w = []" "allows w t = allows u' t" "restricted (Constant t) w = restricted (Constant t) u'"
      "restrictionList w = AddToUnionList (restrictionList c2) (AddToUnionList (restrictionList c1) [] u') u'" for t
    using ur(2,3) assms(4,5)
    by (simp_all add: w_def UnionAllowedClassExpressions_def UnionAllowedValueExpressions_def same_lists_def Let_def allows_def
        type_flag_def restricted_def split: fieldType.split)
  obtain m x m2 x2 where v: "minValue c1' = [m]" "maxValue c1' = [x]" "minValue c2' = [m2]" "maxValue c2' = [x2]"
      "number_at s (expr_type m) (expr_value m) low" "number_at s (expr_type x) (expr_value x) high"
      "number_at s (expr_type m2) (expr_value m2) low2" "number_at s (expr_type x2) (expr_value x2) high2"
    using assms(6,7) ur(2,3) by (auto simp: ranges_at_one same_lists_def)
  have ap: "numbers_apart s" using assms(1) by (simp add: constants_ok_def)
  obtain found qs where f: "UnionNumericExpressions s c1' c2' w True = Inr (set_ranges True found w)" "found \<noteq> []"
      "pairs_at s found qs"
      "\<forall>a. within a qs \<longleftrightarrow> low \<le> a \<and> a \<le> high \<or> \<not> high < low2 \<and> low2 \<le> a \<and> a \<le> high2"
    using numeric_united [OF ap v(1-4) _ _ v(5-8), of True w] assms(8,9) by auto
  obtain n z n2 z2 where b: "minFields c1' = [n]" "maxFields c1' = [z]" "minFields c2' = [n2]" "maxFields c2' = [z2]"
      "bound_ok s (NegativeInfinity (atom_data s)) n" "bound_ok s (PositiveInfinity (atom_data s)) z"
      "bound_ok s (NegativeInfinity (atom_data s)) n2" "bound_ok s (PositiveInfinity (atom_data s)) z2"
    using assms(2,3) ur(2,3) by (auto simp: level_ok_def same_lists_def)
  obtain i j k l where "number_at s (expr_type n) (expr_value n) i" "number_at s (expr_type z) (expr_value z) j"
      "number_at s (expr_type n2) (expr_value n2) k" "number_at s (expr_type z2) (expr_value z2) l"
    using bound_number b(5-8) by metis
  note n = this
  obtain found' qs' where f': "UnionNumericExpressions s c1' c2' (set_ranges True found w) False
      = Inr (set_ranges False found' (set_ranges True found w))" "found' \<noteq> []" "pairs_at s found' qs'"
      "\<not> j < k \<and> \<not> l < i \<longrightarrow> joined_range (GenConstant (expr_type n) (expr_value n)) (GenConstant (expr_type z) (expr_value z)) n2 z2 found'
        \<and> qs' = [(min i k, max j l)]"
    using numeric_united [OF ap b(1-4) _ _ n, of False "set_ranges True found w"] by auto
  define rv where "rv = set_ranges False found' (set_ranges True found w)"
  have rv: "classList rv = []" "minValue rv = map fst found" "maxValue rv = map snd found" "restrictionList rv = restrictionList w"
      "allows rv t = allows w t" "restricted (Constant t) rv = restricted (Constant t) w" for t
    using f(2) f'(2) w(1)
    by (simp_all add: rv_def set_ranges_def allows_def type_flag_def restricted_def split: fieldType.split)
  have card: "CheckCardinalityConstraint s N (Some rv) = Inr True"
    if apart: "\<not> fields_apart s c1 c2" and N: "\<bar>N\<bar> < 2 ^ 63" "admits_number s c1 N \<or> admits_number s c2 N" for N
  proof -
    have pn: "PositiveInfinity (atom_data s) \<noteq> NegativeInfinity (atom_data s)" using ap by (simp add: numbers_apart_def)
    have e: "minFields c1 = [n]" "maxFields c1 = [z]" "minFields c2 = [n2]" "maxFields c2 = [z2]"
      using b(1-4) ur(2,3) by (simp_all add: same_lists_def)
    have "\<not> j < k \<and> \<not> l < i"
      using apart unfolding fields_apart_def fields_below_values [OF pn e(2) b(6) n(2) e(3) b(7) n(3)]
        fields_below_values [OF pn e(4) b(8) n(4) e(1) b(5) n(1)] by blast
    then have q: "joined_range (GenConstant (expr_type n) (expr_value n)) (GenConstant (expr_type z) (expr_value z)) n2 z2 found'"
        "qs' = [(min i k, max j l)]" using f'(4) by blast+
    then obtain lo hi where j: "found' = [(lo, hi)]" "bound_ok s (NegativeInfinity (atom_data s)) lo"
        "bound_ok s (PositiveInfinity (atom_data s)) hi" using b(5-8) by (auto simp: joined_range_def)
    have r: "minFields rv = [lo]" "maxFields rv = [hi]" by (simp_all add: rv_def set_ranges_def j(1))
    have at: "number_at s (expr_type lo) (expr_value lo) (min i k)" "number_at s (expr_type hi) (expr_value hi) (max j l)"
      using f'(3) q(2) j(1) by simp_all
    have "admits_number s rv N"
      unfolding field_bound_values [OF pn N(1) r j(2,3) at]
      using N(2) unfolding field_bound_values [OF pn N(1) e(1,2) b(5,6) n(1,2)] field_bound_values [OF pn N(1) e(3,4) b(7,8) n(3,4)]
      by auto
    then show ?thesis
      using r j(2,3) by (auto simp: CheckCardinalityConstraint_def admits_number_def field_low_def field_high_def field_bound_def
          bound_ok_def split: option.splits)
  qed
  have "union_level s c1 c2 = Inr (rv, c1', c2')"
    using r0 ur(1) f(1) f'(1) by (simp add: union_level_def u_def w_def rv_def)
  moreover have "\<forall>t v. value_allowed c1 t v \<or> value_allowed c2 t v \<longrightarrow> value_allowed rv t v"
    unfolding value_allowed_def rv(4,6) w(3,4) listed_united using ur(5,6) by (auto simp: listed_def)
  moreover have "\<forall>t. t \<noteq> MULTIFIELD \<longrightarrow> (allows rv t \<longleftrightarrow> allows c1 t \<or> allows c2 t)"
    unfolding rv(5) w(2) using ur(4) types_united by (simp add: u_def)
  ultimately show ?thesis using rv(1-3) f(3,4) card by auto
qed

text \<open>A value is accepted if its fields are and their number is.\<close>

lemma data_accepted:
  assumes "content d st fs" "numbers_known (scanner st) fs"
    and "CheckCardinalityConstraint (scanner st) (int (length fs)) (Some c) = Inr True"
    and "\<And>f. f \<in> set fs \<Longrightarrow> ConstraintCheckValue y (scanner st) (Constant (field_type f)) (field_value f) (Some c) = Inr NO_VIOLATION"
  shows "ConstraintCheckDataObject y d (Some c) st = Inr NO_VIOLATION"
proof (cases "do_type d = MULTIFIELD")
  case True
  then have d: "GetDOLength d = int (length fs)" "fields_of (length fs) (do_value d) (do_begin d) st = Inr fs"
    using assms(1) by (auto simp: content_def value_fields_def)
  have "check_fields y (length gs) p i (Some c) st = Inr NO_VIOLATION" if "fields_of (length gs) p i st = Inr gs" "set gs \<subseteq> set fs" for gs p i
    using that assms(4) by (induction gs arbitrary: i) (auto simp: bind_res_eq_Inr)
  then show ?thesis using True d assms(3) by (simp add: ConstraintCheckDataObject_def)
next
  case False
  then have "fs = [\<lparr>field_type = do_type d, field_value = do_value d\<rparr>]" using assms(1) by (simp add: content_def)
  then show ?thesis using False assms(3,4) by (simp add: ConstraintCheckDataObject_def)
qed

text \<open>C14: The union of two records accepts every value that one of them accepts, a multifield with its number of fields as
  well as a single value. The records name no classes, their ranges are single ones, the second range does not begin above
  the end of the first, and the bounds of their numbers of fields overlap: otherwise a range is lost, or the check of the
  number looks at one of two pairs only. Integers are those that a double can stand for, up to $2^{53}$.\<close>

theorem values_united:
  assumes "constants_ok (scanner st)" "level_ok (scanner st) c1" "level_ok (scanner st) c2" "classList c1 = []" "classList c2 = []"
    and "ranges_at (scanner st) (minValue c1) (maxValue c1) [(low, high)]"
    and "ranges_at (scanner st) (minValue c2) (maxValue c2) [(low2, high2)]"
    and "low \<le> high" "low2 \<le> high2" "low2 \<le> high" "\<not> fields_apart (scanner st) c1 c2"
    and "content d st fs" "numbers_known (scanner st) fs" "length fs < 2 ^ 63"
    and "satisfies y st (Constraint c1 None) d \<or> satisfies y st (Constraint c2 None) d"
  shows "\<exists>r c1' c2'. UnionConstraints (scanner st) (Some (Constraint c1 None)) (Some (Constraint c2 None)) = Inr (r, c1', c2')
    \<and> satisfies y st r d"
proof -
  let ?s = "scanner st"
  have ap: "numbers_apart ?s" using assms(1) by (simp add: constants_ok_def)
  obtain rv a' b' qs where u: "union_level ?s c1 c2 = Inr (rv, a', b')" "classList rv = []"
      "ranges_at ?s (minValue rv) (maxValue rv) qs" "\<forall>t. t \<noteq> MULTIFIELD \<longrightarrow> (allows rv t \<longleftrightarrow> allows c1 t \<or> allows c2 t)"
      "\<forall>t v. value_allowed c1 t v \<or> value_allowed c2 t v \<longrightarrow> value_allowed rv t v"
      "\<forall>a. within a qs \<longleftrightarrow> low \<le> a \<and> a \<le> high \<or> \<not> high < low2 \<and> low2 \<le> a \<and> a \<le> high2"
      "\<forall>n. \<bar>n\<bar> < 2 ^ 63 \<and> (admits_number ?s c1 n \<or> admits_number ?s c2 n) \<longrightarrow> CheckCardinalityConstraint ?s n (Some rv) = Inr True"
    using level_united [OF assms(1-9)] assms(11) by blast
  obtain m where "GetConstraintRecord ?s = Inr m" using new_record [OF assms(1)] by blast
  then obtain r c1' c2' where r: "UnionConstraints ?s (Some (Constraint c1 None)) (Some (Constraint c2 None)) = Inr (r, c1', c2')"
      "level r = rv" using u(1) by (cases "multifieldsAllowed rv") auto
  have sat: "admits_number ?s c (int (length fs)) \<and> (\<forall>f \<in> set fs.
      ConstraintCheckValue y ?s (Constant (field_type f)) (field_value f) (Some c) = Inr NO_VIOLATION)"
    if "level_ok ?s c" "satisfies y st (Constraint c None) d" for c
  proof -
    have ad: "admits_number ?s c (int (length fs))" "\<forall>f \<in> set fs. admits y ?s c (field_type f) (field_value f)"
      using data_checked [OF ap that(1) assms(12,13), of y] that(2) by (auto simp: satisfies_def)
    moreover have "\<exists>q. ConstraintCheckValue y ?s (Constant (field_type f)) (field_value f) (Some c) = Inr q
        \<and> (q = NO_VIOLATION \<longleftrightarrow> admits y ?s c (field_type f) (field_value f))" if "f \<in> set fs" for f
      using value_checked [OF ap \<open>level_ok ?s c\<close>, of "field_type f" "field_value f" y] assms(13) that
      by (auto simp: numbers_known_def)
    ultimately show ?thesis by blast
  qed
  have "ConstraintCheckValue y ?s (Constant (field_type f)) (field_value f) (Some rv) = Inr NO_VIOLATION"
    if f: "f \<in> set fs" and v: "ConstraintCheckValue y ?s (Constant (field_type f)) (field_value f) (Some c1) = Inr NO_VIOLATION
      \<or> ConstraintCheckValue y ?s (Constant (field_type f)) (field_value f) (Some c2) = Inr NO_VIOLATION" for f
  proof -
    let ?t = "field_type f" and ?v = "field_value f"
    have t: "?t \<noteq> MULTIFIELD" "is_number ?t \<longrightarrow> (\<exists>a. number_at ?s (Constant ?t) ?v a)"
      using assms(13) f by (auto simp: numbers_known_def)
    then obtain a where a: "is_number ?t \<Longrightarrow> number_at ?s (Constant ?t) ?v a" by blast
    have "\<exists>q. ConstraintCheckValue y ?s (Constant ?t) ?v (Some c1) = Inr q \<and> (q = NO_VIOLATION
        \<longleftrightarrow> ?t \<noteq> RVOID \<and> allows c1 ?t \<and> value_allowed c1 ?t ?v \<and> (is_number ?t \<longrightarrow> within a [(low, high)]))"
      "\<exists>q. ConstraintCheckValue y ?s (Constant ?t) ?v (Some c2) = Inr q \<and> (q = NO_VIOLATION
        \<longleftrightarrow> ?t \<noteq> RVOID \<and> allows c2 ?t \<and> value_allowed c2 ?t ?v \<and> (is_number ?t \<longrightarrow> within a [(low2, high2)]))"
      "\<exists>q. ConstraintCheckValue y ?s (Constant ?t) ?v (Some rv) = Inr q \<and> (q = NO_VIOLATION
        \<longleftrightarrow> ?t \<noteq> RVOID \<and> allows rv ?t \<and> value_allowed rv ?t ?v \<and> (is_number ?t \<longrightarrow> within a qs))"
      using classless_checked [OF ap assms(4,6) a] classless_checked [OF ap assms(5,7) a]
        classless_checked [OF ap u(2,3) a] by blast+
    then show ?thesis using assms(10) t(1) v u(4-6) by auto
  qed
  then have "satisfies y st r d"
    unfolding satisfies_def r(2) using sat [OF assms(2)] sat [OF assms(3)] assms(14,15) u(7)
    by (intro data_accepted [OF assms(12,13)]) auto
  then show ?thesis using r(1) by blast
qed

section \<open>Numbers\<close>

text \<open>C26: Comparing two numbers, whatever their types, gives the order of what they count as: integers of any size are compared
  exactly with integers, doubles by value with doubles, and the symbols of the infinities are below and above all others;
  an integer that meets a double counts as the double that it is converted to, which is its own value if a double can
  stand for it (up to $2^{53}$). A NaN is no number.\<close>

theorem numbers_compared:
  assumes "numbers_apart s" "counts_as s u t v a" "counts_as s t u w b"
  shows "CompareNumbers s t v u w = Inr (Some (order_of a b))
    \<and> (\<forall>c. number_at s t v c \<longrightarrow> a = c) \<and> (\<forall>c. number_at s u w c \<longrightarrow> b = c)"
  using numbers_compared_as [OF assms] counts_as_unique [OF assms(2) counts_as_exact] counts_as_unique [OF assms(3) counts_as_exact]
  by blast

definition demo_float :: "64 word \<Rightarrow> 64 word hashNode" where
  "demo_float x = \<lparr>count = 1, permanent = False, markedEphemeral = False, bucket = 0, contents = x\<rparr>"

definition demo_limits :: symbolData where
  "demo_limits = demo_data\<lparr>IntegerTable := \<lparr>
     nodes = [10 \<mapsto> demo_integer 0, 11 \<mapsto> demo_integer 1, 12 \<mapsto> demo_integer 2, 13 \<mapsto> demo_integer 3,
              14 \<mapsto> demo_integer (2 ^ 53), 15 \<mapsto> demo_integer (2 ^ 53 + 1)], chains = (\<lambda>_. []), ephemerals = []\<rparr>,
     FloatTable := \<lparr>nodes = [31 \<mapsto> demo_float 0x3FF8000000000000, 34 \<mapsto> demo_float 0x4340000000000000],
       chains = (\<lambda>_. []), ephemerals = []\<rparr>,
     PositiveInfinity := Some 21, NegativeInfinity := Some 22, Zero := Some 10\<rparr>"

definition demo_store :: machine where
  "demo_store = demo_machine\<lparr>scanner := (scanner demo_machine)\<lparr>atom_data := demo_limits\<rparr>\<rparr>"

abbreviation "demo_scanner \<equiv> scanner demo_store"

lemma demo_scanner [simp]: "atom_data demo_scanner = demo_limits"
  by (simp add: demo_store_def)

lemma demo_infinities [simp]: "PositiveInfinity demo_limits = Some 21" "NegativeInfinity demo_limits = Some 22"
  "Zero demo_limits = Some 10"
  by (simp_all add: demo_limits_def)

lemma demo_constants_ok: "numbers_apart demo_scanner" "constants_ok demo_scanner"
  by (auto simp: numbers_apart_def constants_ok_def ValueToLong_def demo_limits_def demo_integer_def)

lemma demo_longs: "ValueToLong 10 demo_scanner = Inr 0" "ValueToLong 11 demo_scanner = Inr 1" "ValueToLong 12 demo_scanner = Inr 2"
  "ValueToLong 13 demo_scanner = Inr 3" "ValueToLong 14 demo_scanner = Inr (2 ^ 53)" "ValueToLong 15 demo_scanner = Inr (2 ^ 53 + 1)"
  by (simp_all add: ValueToLong_def demo_limits_def demo_integer_def)

lemma demo_doubles: "ValueToDouble 31 demo_scanner = Inr 0x3FF8000000000000" "ValueToDouble 34 demo_scanner = Inr 0x4340000000000000"
  by (simp_all add: ValueToDouble_def demo_limits_def demo_float_def)

lemma demo_numbers: "number_at demo_scanner (Constant INTEGER) 10 0" "number_at demo_scanner (Constant INTEGER) 11 (2 ^ 1074)"
  "number_at demo_scanner (Constant INTEGER) 12 (2 * 2 ^ 1074)" "number_at demo_scanner (Constant INTEGER) 13 (3 * 2 ^ 1074)"
  by (simp_all add: number_at_def demo_longs)

lemma demo_double: "double_value 0x3FF8000000000000 = 3 * 2 ^ 1073"
  by (simp add: CompareNumbers_def demo_longs demo_doubles compared_def double_less_def double_key_def is_nan_def long_to_double_def top_bit_def scaled_def double_value_def exponent_field_def mantissa_field_def double_amount_def Let_def)

theorem numbers_compared_witness:
  "CompareNumbers demo_scanner (Constant INTEGER) 12 (Constant FLOAT) 31 = Inr (Some GREATER_THAN)"
proof -
  have "number_at demo_scanner (Constant FLOAT) 31 (3 * 2 ^ 1073)"
    by (simp add: number_at_def demo_doubles demo_double is_nan_def)
  from numbers_compared [OF demo_constants_ok(1) counts_as_exact [OF demo_numbers(3)] counts_as_exact [OF this]]
  have "CompareNumbers demo_scanner (Constant INTEGER) 12 (Constant FLOAT) 31 = Inr (Some (order_of (2 * 2 ^ 1074) (3 * 2 ^ 1073)))"
    by blast
  moreover have "order_of (2 * 2 ^ 1074) (3 * 2 ^ 1073) = GREATER_THAN" by (simp add: order_of_def)
  ultimately show ?thesis by simp
qed

text \<open>So the comparison of integers with doubles is no order: $2^53 + 1$ is equal to the double $2^53$, which is equal to the integer $2^53$.\<close>

lemma demo_rounded: "long_to_double (2 ^ 53 + 1) = 0x4340000000000000" "long_to_double (2 ^ 53) = 0x4340000000000000"
proof -
  have t: "top_bit (2 ^ 53 + 1) = 53" "top_bit (2 ^ 53) = 53" by (rule top_bit_eq; simp)+
  show "long_to_double (2 ^ 53 + 1) = 0x4340000000000000" "long_to_double (2 ^ 53) = 0x4340000000000000"
    using t by (simp_all add: long_to_double_def scaled_def Let_def)
qed

lemma comparison_not_transitive:
  "CompareNumbers demo_scanner (Constant INTEGER) 15 (Constant FLOAT) 34 = Inr (Some EQUAL)"
  "CompareNumbers demo_scanner (Constant FLOAT) 34 (Constant INTEGER) 14 = Inr (Some EQUAL)"
  "CompareNumbers demo_scanner (Constant INTEGER) 15 (Constant INTEGER) 14 = Inr (Some GREATER_THAN)"
  unfolding CompareNumbers_def demo_longs demo_doubles bind_res_Inr demo_rounded
  by (simp_all add: compared_def double_less_def word_sless_alt)

section \<open>Examples of records\<close>

definition demo_system :: system where
  "demo_system = \<lparr>FindInstanceBySymbol = (\<lambda>_. None), EnvGetInstanceClass = id, LookupDefclassByMdlOrScope = (\<lambda>_. None),
     EnvSubclassP = (\<lambda>_ _. False), ValueFunctionType = (\<lambda>p. if p = 40 then CHR ''n'' else CHR ''k'')\<rparr>"

definition demo_any :: constraintLevel where
  "demo_any = (case GetConstraintRecord demo_scanner of Inr c \<Rightarrow> c | Inl _ \<Rightarrow> undefined)"

definition demo_range :: "address \<Rightarrow> address \<Rightarrow> constraintLevel" where
  "demo_range low high = demo_any\<lparr>anyAllowed := False, integersAllowed := True, symbolsAllowed := True,
     minValue := [GenConstant (Constant INTEGER) low], maxValue := [GenConstant (Constant INTEGER) high]\<rparr>"

lemma demo_any_fields [simp]:
  "anyAllowed demo_any" "\<not> anyRestriction demo_any" "classList demo_any = []" "restrictionList demo_any = []"
  "plain_flags demo_any" "minFields demo_any = [GenConstant (Constant INTEGER) 10]"
  "maxFields demo_any = [GenConstant (Constant SYMBOL) 21]" "multifieldsAllowed demo_any = False" "singlefieldsAllowed demo_any"
  "\<not> symbolRestriction demo_any" "\<not> integerRestriction demo_any"
  by (simp_all add: demo_any_def GetConstraintRecord_def plain_flags_def)

lemma demo_range_ok:
  assumes "number_at demo_scanner (Constant INTEGER) low a" "number_at demo_scanner (Constant INTEGER) high b"
  shows "level_ok demo_scanner (demo_range low high)"
    and "ranges_at demo_scanner (minValue (demo_range low high)) (maxValue (demo_range low high)) [(a, b)]"
proof -
  show r: "ranges_at demo_scanner (minValue (demo_range low high)) (maxValue (demo_range low high)) [(a, b)]"
    using assms by (simp add: demo_range_def)
  then have "\<exists>rs. ranges_at demo_scanner (minValue (demo_range low high)) (maxValue (demo_range low high)) rs" by blast
  moreover have "bound_ok demo_scanner (Some 22) (GenConstant (Constant INTEGER) 10)"
    "bound_ok demo_scanner (Some 21) (GenConstant (Constant SYMBOL) 21)"
    by (simp_all add: bound_ok_def demo_longs)
  ultimately show "level_ok demo_scanner (demo_range low high)"
    by (simp add: level_ok_def demo_range_def plain_flags_def)
qed

lemma demo_store_fields: "value_fields demo_value demo_store demo_fields"
  by (simp add: value_fields_def demo_value_def demo_store_def demo_machine_def demo_fields_def GetDOLength_def get_field_def
      segment_at_def)

lemma demo_known: "numbers_known demo_scanner demo_fields"
  using demo_numbers(2) by (auto simp: numbers_known_def demo_fields_def number_def is_number_def)

theorem constraints_intersected_witness:
  "\<exists>r a b. IntersectConstraints demo_system demo_scanner (Some (Constraint (demo_range 11 12) None))
        (Some (Constraint (demo_range 12 13) None)) = Inr (r, a, b)
    \<and> (satisfies demo_system demo_store r demo_value \<longleftrightarrow>
        satisfies demo_system demo_store (Constraint (demo_range 11 12) None) demo_value
        \<and> satisfies demo_system demo_store (Constraint (demo_range 12 13) None) demo_value)"
proof -
  have "content demo_value demo_store demo_fields" using demo_store_fields by (simp add: content_def demo_value_def)
  then show ?thesis
    using constraints_intersected [of demo_store "demo_range 11 12" None "demo_range 12 13" None demo_value demo_fields demo_system]
      demo_constants_ok demo_range_ok(1) [OF demo_numbers(2,3)] demo_range_ok(1) [OF demo_numbers(3,4)] demo_known
    by (auto simp: fields_differ_def demo_range_def demo_fields_def)
qed

theorem chain_checked_witness:
  "ConstraintCheckExpressionChain demo_system demo_scanner (map (\<lambda>f. GenConstant (Constant (field_type f)) (field_value f)) demo_fields)
      (Some (demo_range 11 12))
    = ConstraintCheckDataObject demo_system demo_value (Some (demo_range 11 12)) demo_store"
  by (rule chain_checked [OF demo_store_fields _ demo_range_ok(1) [OF demo_numbers(2,3)]])
    (simp add: demo_fields_def number_def ConstantType_def)

definition demo_listed :: constraintLevel where
  "demo_listed = (demo_range 11 12)\<lparr>symbolRestriction := True,
     restrictionList := [GenConstant (Constant SYMBOL) 7, GenConstant (Constant SYMBOL) 8]\<rparr>"

lemma demo_listed_ok: "level_ok demo_scanner demo_listed"
  using demo_range_ok(1) [OF demo_numbers(2,3)] by (simp add: demo_listed_def level_ok_def plain_flags_def)

theorem constant_removed_witness:
  "\<exists>c'. RemoveConstantFromConstraint (Constant SYMBOL) 7 (Some demo_listed) = Some c' \<and> level_ok demo_scanner c'
    \<and> ConstraintCheckValue demo_system demo_scanner (Constant SYMBOL) 7 (Some demo_listed) = Inr NO_VIOLATION
    \<and> ConstraintCheckValue demo_system demo_scanner (Constant SYMBOL) 7 (Some c') \<noteq> Inr NO_VIOLATION"
proof -
  have r: "restrictions_apart demo_listed" "restricted (Constant SYMBOL) demo_listed"
    by (simp_all add: restrictions_apart_def demo_listed_def demo_range_def restricted_def)
  have "ConstraintCheckValue demo_system demo_scanner (Constant SYMBOL) 7 (Some demo_listed) = Inr NO_VIOLATION"
    by (simp add: ConstraintCheckValue_def CheckTypeConstraint_def CheckAllowedValuesConstraint_def CheckRangeConstraint_def
      CheckAllowedClassesConstraint_def CheckFunctionReturnType_def demo_listed_def demo_range_def)
  then show ?thesis
    using constant_removed [OF demo_constants_ok(1) demo_listed_ok r(1), where u = SYMBOL and w = 7 and y = demo_system and t = SYMBOL and v = 7] r(2)
    by (auto simp: is_number_def atom_type_def)
qed

theorem argument_checked_witness:
  "CheckArgumentAgainstRestriction demo_system demo_scanner (Some (Expr FCALL 41 [])) (CHR ''i'') = Inr True"
proof -
  have "possible_types demo_system (Expr FCALL 41 []) \<inter> accepted_types (CHR ''i'') = {}"
    by (simp add: possible_types_def demo_system_def returned_types_def accepted_types_def)
  moreover have "CheckArgumentAgainstRestriction demo_system demo_scanner (Some (Expr FCALL 41 [])) (CHR ''i'')
      = Inr (possible_types demo_system (Expr FCALL 41 []) \<inter> accepted_types (CHR ''i'') = {})"
    by (rule argument_checked [OF demo_constants_ok(2)]) auto
  ultimately show ?thesis by simp
qed

lemma demo_two_checked:
  "ConstraintCheckValue demo_system demo_scanner (Constant INTEGER) 12 (Some (demo_range 11 12)) = Inr NO_VIOLATION"
proof -
  have "numbers_apart demo_scanner" "classList (demo_range 11 12) = []" using demo_constants_ok by (simp_all add: demo_range_def)
  from classless_checked [OF this demo_range_ok(2) [OF demo_numbers(2,3)] demo_numbers(3)]
  show ?thesis by (auto simp: allows_def type_flag_def value_allowed_def restricted_def demo_range_def)
qed

theorem values_united_witness:
  "\<exists>r c1' c2'. UnionConstraints demo_scanner (Some (Constraint (demo_range 11 12) None)) (Some (Constraint (demo_range 11 13) None))
      = Inr (r, c1', c2')
    \<and> satisfies demo_system demo_store r \<lparr>do_type = INTEGER, do_value = 12, do_begin = 0, do_end = 0\<rparr>"
proof -
  let ?d = "\<lparr>do_type = INTEGER, do_value = 12, do_begin = 0, do_end = 0\<rparr>" and ?fs = "[\<lparr>field_type = INTEGER, field_value = 12\<rparr>]"
  have s: "satisfies demo_system demo_store (Constraint (demo_range 11 12) None) ?d"
    using demo_two_checked by (simp add: satisfies_def ConstraintCheckDataObject_def demo_range_def CheckCardinalityConstraint_def
        field_bound_def demo_longs)
  have "content ?d demo_store ?fs" "numbers_known demo_scanner ?fs"
    using demo_numbers(3) by (auto simp: content_def numbers_known_def is_number_def)
  moreover have "\<not> fields_apart demo_scanner (demo_range 11 12) (demo_range 11 13)"
    by (simp add: fields_apart_def fields_below_def field_high_def field_bound_def demo_range_def)
  ultimately show ?thesis
    using values_united [of demo_store "demo_range 11 12" "demo_range 11 13" _ _ _ _ ?d ?fs demo_system, OF demo_constants_ok(2)
      demo_range_ok(1) [OF demo_numbers(2,3)] demo_range_ok(1) [OF demo_numbers(2,4)] _ _
      demo_range_ok(2) [OF demo_numbers(2,3)] demo_range_ok(2) [OF demo_numbers(2,4)]] s by (simp add: demo_range_def)
qed

text \<open>A range that lies above the others is lost in a union.\<close>

lemma union_loses_range:
  "\<exists>r c1' c2'. UnionConstraints demo_scanner (Some (Constraint (demo_range 11 11) None)) (Some (Constraint (demo_range 13 13) None))
      = Inr (r, c1', c2')
    \<and> ConstraintCheckValue demo_system demo_scanner (Constant INTEGER) 13 (Some (demo_range 13 13)) = Inr NO_VIOLATION
    \<and> ConstraintCheckValue demo_system demo_scanner (Constant INTEGER) 13 (Some (level r)) \<noteq> Inr NO_VIOLATION"
proof -
  have ap: "numbers_apart demo_scanner" by (rule demo_constants_ok)
  have c: "classList (demo_range l h) = []" for l h by (simp add: demo_range_def)
  obtain rv a b qs where u: "union_level demo_scanner (demo_range 11 11) (demo_range 13 13) = Inr (rv, a, b)" "classList rv = []"
      "ranges_at demo_scanner (minValue rv) (maxValue rv) qs"
      "\<forall>a. within a qs \<longleftrightarrow> (2 ^ 1074 \<le> a \<and> a \<le> 2 ^ 1074
        \<or> \<not> (2::int) ^ 1074 < 3 * 2 ^ 1074 \<and> 3 * 2 ^ 1074 \<le> a \<and> a \<le> 3 * 2 ^ 1074)"
    using level_united [OF demo_constants_ok(2) demo_range_ok(1) [OF demo_numbers(2,2)] demo_range_ok(1) [OF demo_numbers(4,4)] c c
      demo_range_ok(2) [OF demo_numbers(2,2)] demo_range_ok(2) [OF demo_numbers(4,4)]] by auto
  obtain m where "GetConstraintRecord demo_scanner = Inr m" using new_record [OF demo_constants_ok(2)] by blast
  then obtain r c1' c2' where r: "UnionConstraints demo_scanner (Some (Constraint (demo_range 11 11) None))
      (Some (Constraint (demo_range 13 13) None)) = Inr (r, c1', c2')" "level r = rv"
    using u(1) by (cases "multifieldsAllowed rv") auto
  have n: "is_number INTEGER" by (simp add: is_number_def)
  have w: "\<not> within (3 * 2 ^ 1074) qs" using u(4) by simp
  have "ConstraintCheckValue demo_system demo_scanner (Constant INTEGER) 13 (Some (level r)) \<noteq> Inr NO_VIOLATION"
    using classless_checked [OF ap u(2,3) demo_numbers(4), where y = demo_system] n w r(2) by auto
  moreover have "ConstraintCheckValue demo_system demo_scanner (Constant INTEGER) 13 (Some (demo_range 13 13)) = Inr NO_VIOLATION"
    using classless_checked [OF ap c demo_range_ok(2) [OF demo_numbers(4,4)] demo_numbers(4)] n
    by (auto simp: allows_def type_flag_def value_allowed_def restricted_def demo_range_def)
  ultimately show ?thesis using r(1) by blast
qed

end
